(* ===== verification/Gauss_Prelude.thy ===== *)
theory Gauss_Prelude
  imports Main "HOL-Library.Word"
begin

text \<open>
  Shared material of the development: the machine types of the C++ sources, the error codes
  that \<open>ereport(ERROR, ...)\<close> raises, the two loop shapes of the sources (a counted
  loop, which is \<open>fold\<close> over an index list, and a counted loop with an early
  \<open>return\<close>, which is \<open>for_ret\<close>), and the list and word lemmas that the component
  theories use.
\<close>

unbundle bit_operations_syntax

section \<open>Machine types and error codes\<close>

type_synonym uint8 = "8 word"
type_synonym uint16 = "16 word"
type_synonym uint32 = "32 word"
type_synonym uint64 = "64 word"
type_synonym bitmapword = "64 word"
type_synonym BlockNumber = nat

text \<open>
  The value that a 32-bit \<open>int\<close> of C holds after an assignment: two's complement, since the
  build compiles with \<open>-fwrapv\<close>.
\<close>

definition wrap_int :: "int \<Rightarrow> int" where
  "wrap_int x = (x + 2147483648) mod 4294967296 - 2147483648"

lemma wrap_int_id: "- 2147483648 \<le> x \<Longrightarrow> x < 2147483648 \<Longrightarrow> wrap_int x = x"
  by (simp add: wrap_int_def)

text \<open>
  The error codes of the \<open>ereport\<close> calls of the modelled sources. The last value is not one
  of them: it is what an access outside an array gives, on which C makes no promise.
\<close>

datatype errcode =
    ERRCODE_DATA_EXCEPTION
  | ERRCODE_UNEXPECTED_NULL_VALUE
  | ERRCODE_INVALID_PARAMETER_VALUE
  | ERRCODE_DATATYPE_MISMATCH
  | ERRCODE_TOO_MANY_CONNECTIONS
  | ERRCODE_INTERNAL_ERROR
  | ERRCODE_FEATURE_NOT_SUPPORTED
  | ERRCODE_WRONG_OBJECT_TYPE
  | ERRCODE_OUT_OF_MEMORY
  | ERRCODE_LOCK_NOT_AVAILABLE
  | ERRCODE_DATA_CORRUPTED
  | ERRCODE_T_R_DEADLOCK_DETECTED
  | ERRCODE_OBJECT_NOT_IN_PREREQUISITE_STATE
  | OUT_OF_BOUNDS_READ

text \<open>A call either raises (\<open>Inl\<close>) or returns (\<open>Inr\<close>).\<close>

type_synonym 'a result = "errcode + 'a"

named_theorems word_tests \<open>bitwise characterisations of word operations\<close>
named_theorems index_simps \<open>array index arithmetic\<close>

section \<open>Loops\<close>

text \<open>
  \<open>for (i in is) { body }\<close> where the body may leave the enclosing function:
  \<open>Inl r\<close> is \<open>return r\<close> from inside the loop, \<open>Inr s\<close> the loop state after it.
\<close>

primrec for_ret :: "('i \<Rightarrow> 's \<Rightarrow> 'r + 's) \<Rightarrow> 'i list \<Rightarrow> 's \<Rightarrow> 'r + 's" where
  "for_ret body [] s = Inr s"
| "for_ret body (i # is) s =
     (case body i s of Inl r \<Rightarrow> Inl r | Inr s' \<Rightarrow> for_ret body is s')"

lemma for_ret_append:
  "for_ret body (xs @ ys) s =
     (case for_ret body xs s of Inl r \<Rightarrow> Inl r | Inr s' \<Rightarrow> for_ret body ys s')"
  by (induction xs arbitrary: s) (auto split: sum.splits)

text \<open>Hoare-style rule: an invariant over the prefix already processed.\<close>

lemma for_ret_rule:
  assumes "I [] s"
    and "\<And>xs x s'. \<lbrakk>I xs s'; \<exists>ys. is = xs @ x # ys\<rbrakk> \<Longrightarrow>
           (case body x s' of Inl r \<Rightarrow> R r | Inr s'' \<Rightarrow> I (xs @ [x]) s'')"
  shows "case for_ret body is s of Inl r \<Rightarrow> R r | Inr s' \<Rightarrow> I is s'"
  using assms
proof (induction "is" rule: rev_induct)
  case Nil
  then show ?case by simp
next
  case (snoc y ys)
  have "case for_ret body ys s of Inl r \<Rightarrow> R r | Inr s' \<Rightarrow> I ys s'"
  proof (rule snoc.IH)
    show "I [] s" by (fact snoc.prems(1))
    fix xs x s'
    assume "I xs s'" and "\<exists>zs. ys = xs @ x # zs"
    then show "case body x s' of Inl r \<Rightarrow> R r | Inr s'' \<Rightarrow> I (xs @ [x]) s''"
      by (intro snoc.prems(2)) auto
  qed
  then show ?case
    using snoc.prems(2)[of ys _ y] by (fastforce simp: for_ret_append split: sum.split)
qed

text \<open>The same for a counted loop without an early return.\<close>

lemma fold_rule:
  assumes "I [] s"
    and "\<And>xs x s'. \<lbrakk>I xs s'; \<exists>ys. is = xs @ x # ys\<rbrakk> \<Longrightarrow> I (xs @ [x]) (f x s')"
  shows "I is (fold f is s)"
  using assms
proof (induction "is" rule: rev_induct)
  case Nil
  then show ?case by simp
next
  case (snoc y ys)
  have "I ys (fold f ys s)"
    by (rule snoc.IH) (use snoc.prems in auto)
  then show ?case using snoc.prems(2)[of ys _ y] by auto
qed

text \<open>A prefix of an index list \<open>[m..<n]\<close> is \<open>[m..<k]\<close>, and the next index is \<open>k\<close>.\<close>

lemma upt_eq_append_Cons:
  "[m..<n] = xs @ x # ys \<longleftrightarrow> m \<le> x \<and> x < n \<and> xs = [m..<x] \<and> ys = [Suc x..<n]"
proof
  assume eq: "[m..<n] = xs @ x # ys"
  have len: "length xs < n - m"
    using arg_cong[OF eq, of length] by simp
  have x: "x = m + length xs"
    using arg_cong[OF eq, of "\<lambda>l. l ! length xs"] len by simp
  have "xs = take (length xs) [m..<n]" and "ys = drop (Suc (length xs)) [m..<n]"
    using eq by simp_all
  then show "m \<le> x \<and> x < n \<and> xs = [m..<x] \<and> ys = [Suc x..<n]"
    using x len by (simp add: take_upt drop_upt)
next
  assume "m \<le> x \<and> x < n \<and> xs = [m..<x] \<and> ys = [Suc x..<n]"
  then show "[m..<n] = xs @ x # ys"
    by (metis le_add_diff_inverse less_imp_le upt_add_eq_append upt_conv_Cons)
qed

lemma for_ret_upt_rule:
  assumes "I m s" and "m \<le> n"
    and step: "\<And>k s'. \<lbrakk>m \<le> k; k < n; I k s'\<rbrakk> \<Longrightarrow>
           (case body k s' of Inl r \<Rightarrow> R r | Inr s'' \<Rightarrow> I (Suc k) s'')"
  shows "case for_ret body [m..<n] s of Inl r \<Rightarrow> R r | Inr s' \<Rightarrow> I n s'"
proof -
  have "case for_ret body [m..<n] s of Inl r \<Rightarrow> R r
        | Inr s' \<Rightarrow> (\<lambda>xs s'. I (m + length xs) s') [m..<n] s'"
  proof (rule for_ret_rule)
    fix xs x s'
    assume "I (m + length xs) s'" and "\<exists>ys. [m..<n] = xs @ x # ys"
    then have "m \<le> x" "x < n" and xs: "m + length xs = x" and "I x s'"
      by (auto simp: upt_eq_append_Cons)
    from step[OF this(1,2,4)] xs
    show "case body x s' of Inl r \<Rightarrow> R r | Inr s'' \<Rightarrow> I (m + length (xs @ [x])) s''"
      by (auto split: sum.splits)
  qed (use assms in simp)
  then show ?thesis using assms(2) by (auto split: sum.splits)
qed

lemma fold_upt_rule:
  assumes "I m s" and "m \<le> n"
    and "\<And>k s'. \<lbrakk>m \<le> k; k < n; I k s'\<rbrakk> \<Longrightarrow> I (Suc k) (f k s')"
  shows "I n (fold f [m..<n] s)"
proof -
  have "(\<lambda>xs s'. I (m + length xs) s') [m..<n] (fold f [m..<n] s)"
    by (rule fold_rule) (use assms in \<open>auto simp: upt_eq_append_Cons\<close>)
  then show ?thesis using assms(2) by simp
qed

text \<open>A loop whose body may leave the defined behaviour (\<open>None\<close>).\<close>

primrec foldM :: "('i \<Rightarrow> 's \<Rightarrow> 's option) \<Rightarrow> 'i list \<Rightarrow> 's \<Rightarrow> 's option" where
  "foldM body [] s = Some s"
| "foldM body (i # is) s = (case body i s of None \<Rightarrow> None | Some s' \<Rightarrow> foldM body is s')"

lemma foldM_rule:
  assumes "I [] s"
    and "\<And>xs x s'. \<lbrakk>I xs s'; \<exists>ys. is = xs @ x # ys\<rbrakk> \<Longrightarrow> \<exists>s''. body x s' = Some s'' \<and> I (xs @ [x]) s''"
  shows "\<exists>s'. foldM body is s = Some s' \<and> I is s'"
proof -
  have "\<exists>s'. foldM body ys s = Some s' \<and> I (xs @ ys) s'" if "I xs s" "is = xs @ ys" for xs ys s
    using that
  proof (induction ys arbitrary: xs s)
    case (Cons y ys)
    obtain s'' where s: "body y s = Some s''" "I (xs @ [y]) s''"
      using assms(2)[OF Cons.prems(1), of y] Cons.prems(2) by auto
    from Cons.IH[OF s(2)] Cons.prems(2) s(1) show ?case by simp
  qed simp
  from this[of "[]" s "is"] assms(1) show ?thesis by simp
qed

text \<open>A loop that counts down, \<open>for (i = n - 1; i >= 0; i--)\<close>.\<close>

lemma fold_rev_upt_rule:
  assumes "I n s" and "\<And>k s'. \<lbrakk>k < n; I (Suc k) s'\<rbrakk> \<Longrightarrow> I k (f k s')"
  shows "I 0 (fold f (rev [0..<n]) s)"
  using assms by (induction n arbitrary: s) auto

text \<open>
  An array update loop, \<open>for (i = m; i < n; i++) a[i] = g(i, a[i])\<close>: every cell in the
  range is rewritten once, the others are kept.
\<close>

definition update_range :: "(nat \<Rightarrow> 'a \<Rightarrow> 'a) \<Rightarrow> nat \<Rightarrow> nat \<Rightarrow> 'a list \<Rightarrow> 'a list" where
  "update_range g m n a = fold (\<lambda>i a. a[i := g i (a ! i)]) [m..<n] a"

lemma update_range_inv:
  assumes "m \<le> n"
  shows "length (update_range g m n a) = length a \<and>
    (\<forall>i < length a. update_range g m n a ! i =
       (if m \<le> i \<and> i < n then g i (a ! i) else a ! i))"
  unfolding update_range_def
  by (rule fold_upt_rule[where I = "\<lambda>k b. length b = length a \<and>
      (\<forall>i < length a. b ! i = (if m \<le> i \<and> i < k then g i (a ! i) else a ! i))"])
    (use assms in \<open>auto simp: nth_list_update less_Suc_eq\<close>)

lemma length_update_range [simp]: "length (update_range g m n a) = length a"
proof (cases "m \<le> n")
  case True
  then show ?thesis using update_range_inv by blast
next
  case False
  then show ?thesis by (simp add: update_range_def)
qed

lemma nth_update_range [simp]:
  "i < length a \<Longrightarrow> update_range g m n a ! i =
     (if m \<le> i \<and> i < n then g i (a ! i) else a ! i)"
proof (cases "m \<le> n")
  case True
  then show "i < length a \<Longrightarrow> update_range g m n a ! i =
     (if m \<le> i \<and> i < n then g i (a ! i) else a ! i)"
    using update_range_inv[of m n g a] by blast
next
  case False
  then show ?thesis by (auto simp: update_range_def)
qed

section \<open>Lists and words\<close>

lemma nth_list_update_at [index_simps]:
  "i < length xs \<Longrightarrow> xs[j := y] ! i = (if i = j then y else xs ! i)"
  by auto

lemma list_ex_upt [simp]: "list_ex P [m..<n] \<longleftrightarrow> (\<exists>i. m \<le> i \<and> i < n \<and> P i)"
  by (auto simp: list_ex_iff)

lemma list_all_upt [simp]: "list_all P [m..<n] \<longleftrightarrow> (\<forall>i. m \<le> i \<and> i < n \<longrightarrow> P i)"
  by (auto simp: list_all_iff)

lemma word_eq_0_iff_bits: "(w :: 'a :: len word) = 0 \<longleftrightarrow> (\<forall>n < LENGTH('a). \<not> bit w n)"
  by (auto simp: bit_eq_iff)

lemma word_neq_0_bit: "(w :: 'a :: len word) \<noteq> 0 \<longleftrightarrow> (\<exists>n < LENGTH('a). bit w n)"
  by (auto simp: bit_eq_iff)

lemma word_and_not_0_iff:
  "(a :: 'a :: len word) AND NOT b = 0 \<longleftrightarrow> (\<forall>n < LENGTH('a). bit a n \<longrightarrow> bit b n)"
  by (auto simp: word_eq_0_iff_bits bit_and_iff bit_not_iff)

lemma word_and_0_iff:
  "(a :: 'a :: len word) AND b = 0 \<longleftrightarrow> (\<forall>n < LENGTH('a). \<not> (bit a n \<and> bit b n))"
  by (auto simp: word_eq_0_iff_bits bit_and_iff)

lemmas word_bit_tests [word_tests] =
  word_eq_0_iff_bits word_neq_0_bit word_and_not_0_iff word_and_0_iff
  bit_and_iff bit_or_iff bit_not_iff

end
