(* ===== verification/Bit_Utils.thy ===== *)
theory Bit_Utils
  imports Gauss_Prelude "HOL-Library.While_Combinator"
begin

text \<open>
  The bit-twiddling helpers of \<open>src/common/port/pg_bitutils.cpp\<close> and
  \<open>src/include/port/pg_bitutils.h\<close>, in the portable form (the branch compiled when the
  compiler has no \<open>__builtin_ctz\<close>/\<open>__builtin_popcount\<close>): byte tables and byte-wise
  loops over a 64-bit word. The lemmas show that the tables and loops compute the position
  of the least significant one bit and the number of one bits.
\<close>

section \<open>Tables and loops\<close>

definition pg_rightmost_one_pos :: "nat list" where
  "pg_rightmost_one_pos = [
     0, 0, 1, 0, 2, 0, 1, 0, 3, 0, 1, 0, 2, 0, 1, 0,
     4, 0, 1, 0, 2, 0, 1, 0, 3, 0, 1, 0, 2, 0, 1, 0,
     5, 0, 1, 0, 2, 0, 1, 0, 3, 0, 1, 0, 2, 0, 1, 0,
     4, 0, 1, 0, 2, 0, 1, 0, 3, 0, 1, 0, 2, 0, 1, 0,
     6, 0, 1, 0, 2, 0, 1, 0, 3, 0, 1, 0, 2, 0, 1, 0,
     4, 0, 1, 0, 2, 0, 1, 0, 3, 0, 1, 0, 2, 0, 1, 0,
     5, 0, 1, 0, 2, 0, 1, 0, 3, 0, 1, 0, 2, 0, 1, 0,
     4, 0, 1, 0, 2, 0, 1, 0, 3, 0, 1, 0, 2, 0, 1, 0,
     7, 0, 1, 0, 2, 0, 1, 0, 3, 0, 1, 0, 2, 0, 1, 0,
     4, 0, 1, 0, 2, 0, 1, 0, 3, 0, 1, 0, 2, 0, 1, 0,
     5, 0, 1, 0, 2, 0, 1, 0, 3, 0, 1, 0, 2, 0, 1, 0,
     4, 0, 1, 0, 2, 0, 1, 0, 3, 0, 1, 0, 2, 0, 1, 0,
     6, 0, 1, 0, 2, 0, 1, 0, 3, 0, 1, 0, 2, 0, 1, 0,
     4, 0, 1, 0, 2, 0, 1, 0, 3, 0, 1, 0, 2, 0, 1, 0,
     5, 0, 1, 0, 2, 0, 1, 0, 3, 0, 1, 0, 2, 0, 1, 0,
     4, 0, 1, 0, 2, 0, 1, 0, 3, 0, 1, 0, 2, 0, 1, 0]"

definition pg_number_of_ones :: "nat list" where
  "pg_number_of_ones = [
     0, 1, 1, 2, 1, 2, 2, 3, 1, 2, 2, 3, 2, 3, 3, 4,
     1, 2, 2, 3, 2, 3, 3, 4, 2, 3, 3, 4, 3, 4, 4, 5,
     1, 2, 2, 3, 2, 3, 3, 4, 2, 3, 3, 4, 3, 4, 4, 5,
     2, 3, 3, 4, 3, 4, 4, 5, 3, 4, 4, 5, 4, 5, 5, 6,
     1, 2, 2, 3, 2, 3, 3, 4, 2, 3, 3, 4, 3, 4, 4, 5,
     2, 3, 3, 4, 3, 4, 4, 5, 3, 4, 4, 5, 4, 5, 5, 6,
     2, 3, 3, 4, 3, 4, 4, 5, 3, 4, 4, 5, 4, 5, 5, 6,
     3, 4, 4, 5, 4, 5, 5, 6, 4, 5, 5, 6, 5, 6, 6, 7,
     1, 2, 2, 3, 2, 3, 3, 4, 2, 3, 3, 4, 3, 4, 4, 5,
     2, 3, 3, 4, 3, 4, 4, 5, 3, 4, 4, 5, 4, 5, 5, 6,
     2, 3, 3, 4, 3, 4, 4, 5, 3, 4, 4, 5, 4, 5, 5, 6,
     3, 4, 4, 5, 4, 5, 5, 6, 4, 5, 5, 6, 5, 6, 6, 7,
     2, 3, 3, 4, 3, 4, 4, 5, 3, 4, 4, 5, 4, 5, 5, 6,
     3, 4, 4, 5, 4, 5, 5, 6, 4, 5, 5, 6, 5, 6, 6, 7,
     3, 4, 4, 5, 4, 5, 5, 6, 4, 5, 5, 6, 5, 6, 6, 7,
     4, 5, 5, 6, 5, 6, 6, 7, 5, 6, 6, 7, 6, 7, 7, 8]"

text \<open>
  \<open>while ((word & 255) == 0) { word >>= 8; result += 8; }\<close>: \<open>None\<close> is a loop that
  never ends (a zero word, which the callers exclude).
\<close>

definition skip_zero_bytes :: "uint64 \<Rightarrow> nat \<Rightarrow> (uint64 \<times> nat) option" where
  "skip_zero_bytes word result =
     while_option (\<lambda>(word, result). word AND 255 = 0)
                  (\<lambda>(word, result). (drop_bit 8 word, result + 8)) (word, result)"

definition pg_rightmost_one_pos64 :: "uint64 \<Rightarrow> nat option" where
  "pg_rightmost_one_pos64 word =
     (case skip_zero_bytes word 0 of
        None \<Rightarrow> None
      | Some (word, result) \<Rightarrow> Some (result + pg_rightmost_one_pos ! unat (word AND 255)))"

lemma drop_bit_8_less: "(word :: uint64) \<noteq> 0 \<Longrightarrow> unat (drop_bit 8 word) < unat word"
proof -
  assume "word \<noteq> 0"
  then have "0 < unat word" by (simp add: unat_gt_0)
  then show ?thesis by (simp add: drop_bit_eq_div unat_div)
qed

function pg_popcount64_slow :: "uint64 \<Rightarrow> nat \<Rightarrow> nat" where
  "pg_popcount64_slow word result =
     (if word \<noteq> 0
      then pg_popcount64_slow (drop_bit 8 word) (result + pg_number_of_ones ! unat (word AND 255))
      else result)"
  by pat_completeness auto
termination
  by (relation "measure (\<lambda>(word, result). unat word)") (auto simp: drop_bit_8_less)

declare pg_popcount64_slow.simps [simp del]

definition pg_popcount64 :: "uint64 \<Rightarrow> nat" where
  "pg_popcount64 word = pg_popcount64_slow word 0"

section \<open>Position of the least significant one bit\<close>

definition rightmost_one :: "uint64 \<Rightarrow> nat \<Rightarrow> bool" where
  "rightmost_one w n \<longleftrightarrow> bit w n \<and> (\<forall>m < n. \<not> bit w m)"

lemma rightmost_one_unique: "rightmost_one w m \<Longrightarrow> rightmost_one w n \<Longrightarrow> m = n"
  unfolding rightmost_one_def by (meson linorder_neqE_nat)

lemma rightmost_one_less: "rightmost_one w n \<Longrightarrow> n < 64"
  by (auto simp: rightmost_one_def dest: bit_imp_le_length)

text \<open>Isolating the rightmost one bit with two's complement: \<open>x & -x\<close>.\<close>

lemma and_neg_rightmost:
  assumes "rightmost_one w n"
  shows "w AND - w = push_bit n 1"
proof -
  define a where "a = w AND NOT (push_bit n 1)"
  have n: "n < 64" using assms by (rule rightmost_one_less)
  have bit_a: "bit a m \<longleftrightarrow> bit w m \<and> m \<noteq> n" for m
    using n by (auto simp: a_def bit_simps dest: bit_imp_le_length)
  have "w = a OR push_bit n 1"
    by (rule bit_word_eqI) (use assms in \<open>auto simp: bit_simps bit_a rightmost_one_def\<close>)
  also have "\<dots> = a + push_bit n 1"
    by (rule disjunctive_add_eq_or[symmetric], rule bit_word_eqI) (auto simp: bit_simps bit_a)
  finally have "w - 1 = a + mask n" by (simp add: mask_eq_exp_minus_1 push_bit_eq_mult)
  also have "\<dots> = a OR mask n"
    by (rule disjunctive_add_eq_or, rule bit_word_eqI)
      (use assms in \<open>auto simp: bit_simps bit_a rightmost_one_def\<close>)
  finally have "- w = NOT (a OR mask n)" by (simp add: minus_eq_not_minus_1)
  then show ?thesis
    by - (rule bit_word_eqI, use assms n in \<open>auto simp: bit_simps bit_a rightmost_one_def\<close>)
qed

section \<open>The byte tables\<close>

text \<open>
  A table for \<open>k\<close>-bit values is built from the one for \<open>k - 1\<close> bits by doubling; the
  256-entry literals of the source are the 8-fold doublings.
\<close>

lemma bit_nat_less: "bit (b :: nat) n \<Longrightarrow> b < 2 ^ k \<Longrightarrow> n < k"
proof (rule ccontr)
  assume "bit b n" "b < 2 ^ k" "\<not> n < k"
  then have "b < 2 ^ n" by (meson leI less_le_trans one_le_numeral power_increasing)
  with \<open>bit b n\<close> show False by (simp add: bit_iff_odd)
qed

lemma bit_add_exp_nat:
  assumes "(b :: nat) < 2 ^ k"
  shows "bit (2 ^ k + b) n \<longleftrightarrow> n = k \<or> bit b n"
proof -
  consider "n < k" | "n = k" | "k < n" by linarith
  then show ?thesis
  proof cases
    case 1
    then obtain d where k: "k = n + Suc d" using less_iff_Suc_add by auto
    have "(2 ^ k + b) div 2 ^ n = 2 ^ Suc d + b div 2 ^ n"
    proof -
      have "2 ^ k + b = b + 2 ^ Suc d * 2 ^ n" by (simp add: k power_add)
      then show ?thesis by (simp only: div_mult_self1 [OF power_not_zero] zero_neq_numeral)
    qed
    then show ?thesis using 1 by (simp add: bit_iff_odd)
  next
    case 2
    have "(2 ^ k + b) div 2 ^ k = Suc 0" using assms by (simp add: div_add_self1)
    then show ?thesis using 2 by (simp add: bit_iff_odd)
  next
    case 3
    then have "(2::nat) ^ Suc k \<le> 2 ^ n" by (intro power_increasing) auto
    then have "2 ^ k + b < 2 ^ n" using assms by simp
    then show ?thesis using 3 assms by (simp add: bit_iff_odd)
  qed
qed

fun ones_table :: "nat \<Rightarrow> nat list" where
  "ones_table 0 = [0]"
| "ones_table (Suc k) = ones_table k @ map Suc (ones_table k)"

fun pos_table :: "nat \<Rightarrow> nat list" where
  "pos_table 0 = [0]"
| "pos_table (Suc k) = pos_table k @ k # tl (pos_table k)"

lemma length_tables [simp]:
  "length (ones_table k) = 2 ^ k" "length (pos_table k) = 2 ^ k"
  by (induction k) auto

lemma ones_table_nth: "b < 2 ^ k \<Longrightarrow> ones_table k ! b = card {n. n < k \<and> bit b n}"
proof (induction k arbitrary: b)
  case 0
  then show ?case by simp
next
  case (Suc k)
  show ?case
  proof (cases "b < 2 ^ k")
    case True
    then have "{n. n < Suc k \<and> bit b n} = {n. n < k \<and> bit b n}"
      by (auto simp: bit_iff_odd less_Suc_eq)
    then show ?thesis using Suc.IH True by (simp add: nth_append)
  next
    case False
    then obtain c where b: "b = 2 ^ k + c" by (metis le_add_diff_inverse not_less)
    with Suc.prems have c: "c < 2 ^ k" by simp
    have "{n. n < Suc k \<and> bit b n} = insert k {n. n < k \<and> bit c n}"
      using c by (auto simp: b bit_add_exp_nat less_Suc_eq)
    then have "card {n. n < Suc k \<and> bit b n} = Suc (card {n. n < k \<and> bit c n})"
      by simp
    then show ?thesis using Suc.IH[OF c] c by (simp add: b nth_append)
  qed
qed

lemma pos_table_nth:
  "0 < b \<Longrightarrow> b < 2 ^ k \<Longrightarrow> bit b (pos_table k ! b) \<and> (\<forall>m < pos_table k ! b. \<not> bit b m)"
proof (induction k arbitrary: b)
  case 0
  then show ?case by simp
next
  case (Suc k)
  show ?case
  proof (cases "b < 2 ^ k")
    case True
    then show ?thesis using Suc by (simp add: nth_append)
  next
    case False
    then obtain c where b: "b = 2 ^ k + c" by (metis le_add_diff_inverse not_less)
    with Suc.prems have c: "c < 2 ^ k" by simp
    show ?thesis
    proof (cases "c = 0")
      case True
      then show ?thesis by (auto simp: b nth_append bit_exp_iff)
    next
      case False
      then have IH: "bit c (pos_table k ! c) \<and> (\<forall>m < pos_table k ! c. \<not> bit c m)"
        using Suc.IH c by simp
      have "pos_table (Suc k) ! b = pos_table k ! c"
        using c False by (simp add: b nth_append nth_tl nth_Cons')
      moreover have "pos_table k ! c < k" using IH c by (auto intro: bit_nat_less)
      ultimately show ?thesis using IH c by (auto simp: b bit_add_exp_nat)
    qed
  qed
qed

lemma pg_rightmost_one_pos_table: "pg_rightmost_one_pos = pos_table 8"
  by (simp add: pg_rightmost_one_pos_def eval_nat_numeral)

lemma pg_number_of_ones_table: "pg_number_of_ones = ones_table 8"
  by (simp add: pg_number_of_ones_def eval_nat_numeral)

lemma bit_byte: "bit (w AND 255 :: uint64) n \<longleftrightarrow> n < 8 \<and> bit w n"
proof -
  have "(255 :: uint64) = mask 8" by (simp add: mask_eq_exp_minus_1)
  then have "bit (255 :: uint64) n \<longleftrightarrow> n < 8" by (simp only: bit_mask_iff) auto
  then show ?thesis by (auto simp: bit_and_iff)
qed

lemma unat_byte_less: "unat (w AND 255 :: uint64) < 2 ^ 8"
proof -
  have "w AND 255 \<le> 255" by (rule word_and_le1)
  then have "unat (w AND 255) \<le> unat (255 :: uint64)" by (simp only: word_le_nat_alt)
  then show ?thesis by simp
qed

lemma ones_tab_word:
  "pg_number_of_ones ! unat (w AND 255 :: uint64) = card {n. n < 8 \<and> bit w n}"
proof -
  have "{n. n < 8 \<and> bit (unat (w AND 255)) n} = {n. n < 8 \<and> bit w n}"
    by (auto simp: bit_unsigned_iff bit_byte)
  then show ?thesis
    using ones_table_nth[OF unat_byte_less] by (simp add: pg_number_of_ones_table)
qed

lemma pos_tab_word:
  assumes "w AND 255 \<noteq> 0"
  shows "rightmost_one w (pg_rightmost_one_pos ! unat (w AND 255))"
proof -
  have "0 < unat (w AND 255)" using assms by (simp add: unat_gt_0)
  from pos_table_nth[OF this unat_byte_less]
  show ?thesis
    by (auto simp: rightmost_one_def pg_rightmost_one_pos_table bit_unsigned_iff bit_byte)
qed

section \<open>Correctness of the loops\<close>

lemma skip_zero_bytes_Some:
  assumes "w \<noteq> 0"
  shows "\<exists>w' r. skip_zero_bytes w 0 = Some (w', r) \<and> w' = drop_bit r w \<and>
           w' AND 255 \<noteq> 0 \<and> (\<forall>m < r. \<not> bit w m)"
proof -
  let ?b = "\<lambda>(word :: uint64, result :: nat). word AND 255 = 0"
  let ?c = "\<lambda>(word :: uint64, result :: nat). (drop_bit 8 word, result + 8)"
  let ?P = "\<lambda>(w', r). w' = drop_bit r w \<and> (\<forall>m < r. \<not> bit w m)"
  have step: "?P (?c s)" if "?P s" "?b s" for s
  proof -
    obtain w' r where s: "s = (w', r)" by force
    have "\<not> bit w m" if "m < r + 8" for m
    proof (cases "m < r")
      case True
      then show ?thesis using \<open>?P s\<close> s by simp
    next
      case False
      then have "\<not> bit w' (m - r)"
        using \<open>?b s\<close> that by (auto simp: s word_eq_0_iff_bits bit_byte)
      then show ?thesis using False \<open>?P s\<close> by (simp add: s bit_drop_bit_eq)
    qed
    then show ?thesis using \<open>?P s\<close> by (simp add: s drop_bit_drop_bit add.commute)
  qed
  have dec: "unat (fst (?c s)) < unat (fst s)" if "?P s" "?b s" for s
  proof -
    obtain w' r where s: "s = (w', r)" by force
    have "w' \<noteq> 0"
    proof
      assume "w' = 0"
      then have "\<not> bit (drop_bit r w) (m - r)" for m using \<open>?P s\<close> s by simp
      then have "\<not> bit w m" for m
        using \<open>?P s\<close> by (cases "m < r")
          (simp_all add: s bit_drop_bit_eq, metis le_add_diff_inverse not_less)
      then show False using assms by (auto simp: bit_eq_iff)
    qed
    then show ?thesis by (simp add: s drop_bit_8_less)
  qed
  have "\<exists>t. while_option ?b ?c (w, 0) = Some t"
    by (rule measure_while_option_Some[where P = ?P and f = "\<lambda>s. unat (fst s)"])
      (use step dec in auto)
  then obtain w' r where t: "while_option ?b ?c (w, 0) = Some (w', r)" by auto
  have "?P (w', r)"
    by (rule while_option_rule[OF _ t, where P = ?P]) (use step in auto)
  then show ?thesis
    using while_option_stop[OF t] t by (auto simp: skip_zero_bytes_def)
qed

text \<open>The loop started at another offset makes the same steps.\<close>

lemma skip_zero_bytes_offset:
  "skip_zero_bytes w k = map_option (\<lambda>(w', r). (w', k + r)) (skip_zero_bytes w 0)"
proof -
  have "map_option (\<lambda>(w', r). (w', k + r))
      (while_option (\<lambda>(word :: uint64, result :: nat). word AND 255 = 0)
        (\<lambda>(word, result). (drop_bit 8 word, result + 8)) (w, 0)) =
      while_option (\<lambda>(word :: uint64, result :: nat). word AND 255 = 0)
        (\<lambda>(word, result). (drop_bit 8 word, result + 8)) ((\<lambda>(w', r). (w', k + r)) (w, 0 :: nat))"
    by (rule while_option_commute) auto
  then show ?thesis by (simp add: skip_zero_bytes_def)
qed

lemma pg_rightmost_one_pos64_Some:
  assumes "w \<noteq> 0"
  shows "\<exists>n. pg_rightmost_one_pos64 w = Some n \<and> rightmost_one w n"
proof -
  obtain w' r where s: "skip_zero_bytes w 0 = Some (w', r)" and w': "w' = drop_bit r w"
    and nz: "w' AND 255 \<noteq> 0" and low: "\<forall>m < r. \<not> bit w m"
    using skip_zero_bytes_Some[OF assms] by blast
  let ?p = "pg_rightmost_one_pos ! unat (w' AND 255)"
  have p: "rightmost_one w' ?p" by (rule pos_tab_word[OF nz])
  have "\<not> bit w m" if "m < r + ?p" for m
  proof (cases "m < r")
    case False
    then have "\<not> bit w' (m - r)" using p that by (simp add: rightmost_one_def)
    then show ?thesis using False by (simp add: w' bit_drop_bit_eq)
  qed (use low in simp)
  then have "rightmost_one w (r + ?p)"
    using p by (simp add: rightmost_one_def w' bit_drop_bit_eq)
  then show ?thesis using s by (simp add: pg_rightmost_one_pos64_def)
qed

lemma card_bits_drop:
  "card {n. bit (w :: uint64) n} = card {n. n < 8 \<and> bit w n} + card {n. bit (drop_bit 8 w) n}"
proof -
  have fin: "finite {n. bit (w :: uint64) n}" for w
    by (rule finite_subset[of _ "{..<64}"]) (auto dest: bit_imp_le_length)
  have "{n. bit w n} = {n. n < 8 \<and> bit w n} \<union> (\<lambda>n. n + 8) ` {n. bit (drop_bit 8 w) n}"
    by (auto simp: bit_drop_bit_eq image_iff add.commute)
      (metis add.commute le_add_diff_inverse not_less)
  moreover have "card ({n. n < 8 \<and> bit w n} \<union> (\<lambda>n. n + 8) ` {n. bit (drop_bit 8 w) n}) =
      card {n. n < 8 \<and> bit w n} + card ((\<lambda>n. n + 8) ` {n. bit (drop_bit 8 w) n})"
    by (rule card_Un_disjoint) (use fin in \<open>auto\<close>)
  ultimately show ?thesis by (simp add: card_image)
qed

lemma pg_popcount64_slow_eq: "pg_popcount64_slow w r = r + card {n. bit w n}"
proof (induction w r rule: pg_popcount64_slow.induct)
  case (1 w r)
  show ?case
  proof (cases "w = 0")
    case True
    then have "card {n. bit w n} = 0" by (simp add: bot_fun_def)
    moreover have "pg_popcount64_slow w r = r" using True by (subst pg_popcount64_slow.simps) simp
    ultimately show ?thesis by simp
  next
    case False
    then show ?thesis
      using 1 by (simp add: pg_popcount64_slow.simps[of w r] ones_tab_word card_bits_drop[of w])
  qed
qed

lemma pg_popcount64_eq: "pg_popcount64 w = card {n. bit w n}"
  by (simp add: pg_popcount64_def pg_popcount64_slow_eq)

end
