(* ===== verification/Bitmap_Members.thy ===== *)
theory Bitmap_Members
  imports Bitmap_Set
begin

text \<open>
  The operations of \<open>bitmapset.cpp\<close> that walk over the members of a set: counting,
  singleton tests, removal of the first member, the \<open>bms_next_member\<close> cursor, the
  index of a member and the hash value. \<open>bms_below a k\<close> is the set of members that the
  first \<open>k\<close> words hold, which is the loop invariant of all of them.
\<close>

section \<open>Members word by word\<close>

definition bms_below :: "Bitmapset \<Rightarrow> nat \<Rightarrow> nat set" where
  "bms_below a k = {x \<in> bms_set (Some a). x div 64 < k}"

lemma bms_below_0 [simp]: "bms_below a 0 = {}"
  by (simp add: bms_below_def)

lemma bms_below_all: "bms_below a (nwords a) = bms_set (Some a)"
  by (auto simp: bms_below_def)

lemma bms_below_subset: "bms_below a k \<subseteq> bms_set (Some a)"
  by (auto simp: bms_below_def)

lemma finite_bms_below [simp]: "finite (bms_below a k)"
  by (rule finite_subset[OF bms_below_subset]) (rule finite_bms_set)

lemma bms_below_Suc:
  assumes "k < nwords a"
  shows "bms_below a (Suc k) = bms_below a k \<union> (\<lambda>n. 64 * k + n) ` {n. bit (words a ! k) n}"
proof -
  have iff: "x div 64 = k \<and> bit (words a ! k) (x mod 64) \<longleftrightarrow> x \<in> (\<lambda>n. 64 * k + n) ` {n. bit (words a ! k) n}"
    for x :: nat
  proof
    assume "x div 64 = k \<and> bit (words a ! k) (x mod 64)"
    then show "x \<in> (\<lambda>n. 64 * k + n) ` {n. bit (words a ! k) n}"
      by (auto intro!: image_eqI[of _ _ "x mod 64"])
  next
    assume "x \<in> (\<lambda>n. 64 * k + n) ` {n. bit (words a ! k) n}"
    then obtain n where "x = 64 * k + n" "bit (words a ! k) n" by blast
    moreover from this have "n < 64" by (auto dest: bit_imp_le_length)
    ultimately show "x div 64 = k \<and> bit (words a ! k) (x mod 64)" by simp
  qed
  show ?thesis
  proof (rule set_eqI)
    fix x :: nat
    have "x \<in> bms_below a (Suc k) \<longleftrightarrow>
        x \<in> bms_below a k \<or> (x div 64 = k \<and> bit (words a ! k) (x mod 64))"
      using assms by (auto simp: bms_below_def less_Suc_eq)
    then show "x \<in> bms_below a (Suc k) \<longleftrightarrow>
        x \<in> bms_below a k \<union> (\<lambda>n. 64 * k + n) ` {n. bit (words a ! k) n}"
      unfolding iff Un_iff .
  qed
qed

lemma bms_below_disjoint: "(\<lambda>n. 64 * k + n) ` N \<inter> bms_below a k = {}"
  by (auto simp: bms_below_def simp del: mem_bms_set)

lemma card_bms_below_Suc:
  assumes "k < nwords a"
  shows "card (bms_below a (Suc k)) = card (bms_below a k) + bmw_popcount (words a ! k)"
proof -
  have fin: "finite {n. bit (words a ! k) n}"
    by (rule finite_subset[of _ "{..<64}"]) (auto dest: bit_imp_le_length)
  have "card (bms_below a (Suc k)) =
      card (bms_below a k) + card ((\<lambda>n. 64 * k + n) ` {n. bit (words a ! k) n})"
    unfolding bms_below_Suc[OF assms]
    by (rule card_Un_disjoint) (use fin bms_below_disjoint in \<open>simp_all add: Int_commute\<close>)
  then show ?thesis by (simp add: bmw_popcount_def pg_popcount64_eq card_image)
qed

lemma bmw_popcount_0 [simp]: "bmw_popcount 0 = 0"
  by (simp add: bmw_popcount_def pg_popcount64_eq bot_fun_def)

lemma bmw_rightmost: "w \<noteq> 0 \<Longrightarrow> rightmost_one w (bmw_rightmost_one_pos w)"
  using pg_rightmost_one_pos64_Some[of w] by (auto simp: bmw_rightmost_one_pos_def)

lemma bmw_rightmost_eqI: "rightmost_one w n \<Longrightarrow> bmw_rightmost_one_pos w = n"
  using bmw_rightmost[of w] rightmost_one_unique by (fastforce simp: rightmost_one_def)


text \<open>What one word adds to the members seen so far.\<close>

lemma bms_below_zero_word: "k < nwords a \<Longrightarrow> words a ! k = 0 \<Longrightarrow> bms_below a (Suc k) = bms_below a k"
  by (simp add: bms_below_Suc bot_fun_def)




section \<open>Single members\<close>

lemma nat_eq_64: "(x :: nat) = y \<longleftrightarrow> x div 64 = y div 64 \<and> x mod 64 = y mod 64"
  by (metis div_mult_mod_eq)

lemma nat_less_64:
  "(y :: nat) < x \<longleftrightarrow> y div 64 < x div 64 \<or> (y div 64 = x div 64 \<and> y mod 64 < x mod 64)"
proof -
  have "x = 64 * (x div 64) + x mod 64" "y = 64 * (y div 64) + y mod 64"
    "x mod 64 < 64" "y mod 64 < 64" by simp_all
  then show ?thesis
    by (cases "y div 64" "x div 64" rule: linorder_cases) linarith+
qed

lemma bms_below_Int [simp]: "bms_below a k \<inter> (+) (64 * k) ` N = {}"
  using bms_below_disjoint[of k N a] by blast

lemma word_and_push_bit_iff: "(w :: bitmapword) AND push_bit n 1 \<noteq> 0 \<longleftrightarrow> n < 64 \<and> bit w n"
  by (auto simp: word_neq_0_bit bit_simps dest: bit_imp_le_length)

lemma bms_is_member_iff:
  "0 \<le> x \<Longrightarrow> bms_is_member x a = Inr (nat x \<in> bms_set a)"
  by (auto simp: bms_is_member_def bms_words Let_def word_and_push_bit_iff
      simp del: push_bit_of_1 split: option.splits)

lemma bms_make_singleton_Inr:
  assumes "0 \<le> x"
  shows "\<exists>s. bms_make_singleton x = Inr (Some s) \<and> bms_wf (Some s) \<and>
    nwords s = WORDNUM (nat x) + 1 \<and> bms_set (Some s) = {nat x}"
proof -
  have "(y div 64 < nat x div 64 + 1 \<and>
      bit ((replicate (nat x div 64 + 1) (0 :: bitmapword))[nat x div 64 := push_bit (nat x mod 64) 1] ! (y div 64))
        (y mod 64)) \<longleftrightarrow> y = nat x" for y
    by (subst nat_eq_64) (auto simp: nth_list_update bit_simps less_Suc_eq_le
        simp del: replicate_Suc push_bit_of_1 simp flip: replicate_Suc)
  then show ?thesis using assms
    by (auto simp: bms_make_singleton_def bms_words Let_def bms_set_def set_eq_iff simp del: replicate_Suc)
qed

lemma bms_build_with_length_Inr:
  assumes "0 \<le> x"
  shows "\<exists>s. bms_build_with_length_noexcept x = Inr (Some s) \<and> bms_wf (Some s) \<and>
    nwords s = WORDNUM (nat x) + 1 \<and> bms_set (Some s) = {}"
  using assms by (auto simp: bms_build_with_length_noexcept_def bms_words Let_def bms_set_def nth_append
      simp del: replicate_Suc)

lemma bms_set_update_word:
  assumes "bms_wf (Some a)" "i < nwords a"
  shows "y \<in> bms_set (Some (a\<lparr>words := (words a)[i := w]\<rparr>)) \<longleftrightarrow>
    (if y div 64 = i then bit w (y mod 64) else y \<in> bms_set (Some a))"
  using assms by auto

lemma bms_add_member_Inr:
  assumes "bms_wf a" "0 \<le> x"
  shows "\<exists>s. bms_add_member a x = Inr (Some s) \<and> bms_wf (Some s) \<and>
    bms_set (Some s) = insert (nat x) (bms_set a)"
proof (cases a)
  case None
  then show ?thesis using bms_make_singleton_Inr[OF assms(2)] assms(2) by (auto simp: bms_add_member_def)
next
  case (Some b)
  show ?thesis
  proof (cases "WORDNUM (nat x) < nwords b")
    case True
    have "bms_set (Some (b\<lparr>words := (words b)[nat x div 64 := words b ! (nat x div 64) OR push_bit (nat x mod 64) 1]\<rparr>))
      = insert (nat x) (bms_set a)"
    proof (rule set_eqI)
      fix y
      show "y \<in> bms_set (Some (b\<lparr>words := (words b)[nat x div 64 := words b ! (nat x div 64) OR push_bit (nat x mod 64) 1]\<rparr>))
        \<longleftrightarrow> y \<in> insert (nat x) (bms_set a)"
        using True assms nat_eq_64[of y "nat x"]
        by (subst bms_set_update_word) (auto simp: Some bms_words bit_simps)
    qed
    then show ?thesis using True assms by (simp add: Some bms_add_member_def bms_words Let_def)
  next
    case False
    obtain s where s: "bms_make_singleton x = Inr (Some s)" "length (words s) = nwords s"
      "nwords s = WORDNUM (nat x) + 1" "bms_set (Some s) = {nat x}"
      using bms_make_singleton_Inr[OF assms(2)] by auto
    let ?r = "s\<lparr>words := update_range (\<lambda>i w. w OR words b ! i) 0 (nwords b) (words s)\<rparr>"
    have "bms_set (Some ?r) = bms_set (Some s) \<union> bms_set a"
      using False s(2,3) assms by (auto simp: Some bms_words bit_or_iff split: if_splits)
    then show ?thesis using False s assms by (simp add: Some bms_add_member_def)
  qed
qed

lemma bms_del_member_Inr:
  assumes "bms_wf a" "0 \<le> x"
  shows "\<exists>s. bms_del_member a x = Inr s \<and> bms_wf s \<and> bms_set s = bms_set a - {nat x}"
proof (cases a)
  case None
  then show ?thesis using assms(2) by (auto simp: bms_del_member_def)
next
  case (Some b)
  show ?thesis
  proof (cases "WORDNUM (nat x) < nwords b")
    case True
    have "bms_set (Some (b\<lparr>words := (words b)[nat x div 64 := words b ! (nat x div 64) AND NOT (push_bit (nat x mod 64) 1)]\<rparr>))
      = bms_set a - {nat x}"
    proof (rule set_eqI)
      fix y
      show "y \<in> bms_set (Some (b\<lparr>words := (words b)[nat x div 64 := words b ! (nat x div 64) AND NOT (push_bit (nat x mod 64) 1)]\<rparr>))
        \<longleftrightarrow> y \<in> bms_set a - {nat x}"
        using True assms nat_eq_64[of y "nat x"]
        by (subst bms_set_update_word) (auto simp: Some bms_words bit_simps)
    qed
    then show ?thesis using True assms by (simp add: Some bms_del_member_def bms_words Let_def)
  next
    case False
    then show ?thesis using assms by (auto simp: Some bms_del_member_def bms_words)
  qed
qed

section \<open>Counting\<close>

lemma popcount_loop:
  assumes "k \<le> nwords a"
  shows "fold (\<lambda>i result. let w = words a ! i in if w \<noteq> 0 then result + bmw_popcount w else result)
    [0..<k] 0 = card (bms_below a k)"
  by (rule fold_upt_rule[where I = "\<lambda>k r. r = card (bms_below a k)"])
    (use assms in \<open>auto simp: Let_def card_bms_below_Suc\<close>)

lemma bms_num_members_card: "bms_num_members a = card (bms_set a)"
  by (cases a) (simp_all add: bms_num_members_def popcount_loop bms_below_all)




section \<open>Singletons\<close>







definition membership_of :: "nat set \<Rightarrow> BMS_Membership" where
  "membership_of S = (if S = {} then BMS_EMPTY_SET else if card S = 1 then BMS_SINGLETON else BMS_MULTIPLE)"






section \<open>Cursors\<close>

text \<open>The first member of a non-zero word is the least member not below that word.\<close>

lemma bms_first_in_word:
  assumes k: "k < nwords a" and w: "rightmost_one (words a ! k) n"
    and below: "bms_below a k = {}"
  shows "64 * k + n \<in> bms_set (Some a)" "\<forall>y \<in> bms_set (Some a). 64 * k + n \<le> y"
proof -
  have n: "n < 64" "bit (words a ! k) n"
    using rightmost_one_less[OF w] w by (auto simp: rightmost_one_def)
  then show "64 * k + n \<in> bms_set (Some a)" using k by simp
  show "\<forall>y \<in> bms_set (Some a). 64 * k + n \<le> y"
  proof (rule ccontr)
    assume "\<not> ?thesis"
    then obtain y where y: "y \<in> bms_set (Some a)" "y < 64 * k + n" by (meson not_le)
    then have "\<not> y div 64 < k" using below unfolding bms_below_def by blast
    then have "y div 64 = k" "y mod 64 < n"
      using y(2) n nat_less_64[of y "64 * k + n"] by auto
    then show False using y(1) w by (auto simp: rightmost_one_def)
  qed
qed

lemma RIGHTMOST_ONE_pos:
  assumes "w \<noteq> 0"
  shows "bmw_rightmost_one_pos (RIGHTMOST_ONE w) = bmw_rightmost_one_pos w"
    and "RIGHTMOST_ONE w = push_bit (bmw_rightmost_one_pos w) 1"
proof -
  let ?n = "bmw_rightmost_one_pos w"
  have r: "rightmost_one w ?n" by (rule bmw_rightmost[OF assms])
  show eq: "RIGHTMOST_ONE w = push_bit ?n 1" by (simp add: RIGHTMOST_ONE_def and_neg_rightmost[OF r])
  show "bmw_rightmost_one_pos (RIGHTMOST_ONE w) = ?n"
    by (rule bmw_rightmost_eqI) (use rightmost_one_less[OF r] in \<open>simp add: eq rightmost_one_def bit_simps\<close>)
qed

lemma bms_first_member_loop:
  assumes "bms_wf (Some a)"
  shows "case for_ret bms_first_member_step [0..<nwords a] a of
     Inl (r, s) \<Rightarrow> (\<exists>m. r = int m \<and> m \<in> bms_set (Some a) \<and> (\<forall>y \<in> bms_set (Some a). m \<le> y) \<and>
        bms_wf (Some s) \<and> nwords s = nwords a \<and> bms_set (Some s) = bms_set (Some a) - {m})
   | Inr s \<Rightarrow> s = a \<and> bms_set (Some a) = {}"
proof -
  let ?R = "\<lambda>(r, s). \<exists>m. r = int m \<and> m \<in> bms_set (Some a) \<and> (\<forall>y \<in> bms_set (Some a). m \<le> y) \<and>
        bms_wf (Some s) \<and> nwords s = nwords a \<and> bms_set (Some s) = bms_set (Some a) - {m}"
  have "case for_ret bms_first_member_step [0..<nwords a] a of
     Inl rs \<Rightarrow> ?R rs | Inr s \<Rightarrow> s = a \<and> bms_below a (nwords a) = {}"
  proof (rule for_ret_upt_rule)
    fix k s
    assume k: "k < nwords a" and s: "s = a \<and> bms_below a k = {}"
    show "case bms_first_member_step k s of
       Inl rs \<Rightarrow> ?R rs | Inr s' \<Rightarrow> s' = a \<and> bms_below a (Suc k) = {}"
    proof (cases "words a ! k = 0")
      case True
      then show ?thesis using bms_below_zero_word[OF k True] s by (simp add: bms_first_member_step_def)
    next
      case False
      let ?n = "bmw_rightmost_one_pos (words a ! k)"
      let ?s = "a\<lparr>words := (words a)[k := words a ! k AND NOT (push_bit ?n 1)]\<rparr>"
      have r: "rightmost_one (words a ! k) ?n" by (rule bmw_rightmost[OF False])
      have "bms_set (Some ?s) = bms_set (Some a) - {64 * k + ?n}"
      proof (rule set_eqI)
        fix y
        show "y \<in> bms_set (Some ?s) \<longleftrightarrow> y \<in> bms_set (Some a) - {64 * k + ?n}"
          using k assms nat_eq_64[of y "64 * k + ?n"] rightmost_one_less[OF r]
          by (subst bms_set_update_word) (auto simp: bit_simps)
      qed
      then have "?R (int (64 * k + ?n), ?s)"
        using bms_first_in_word[OF k r] s assms by (intro case_prodI exI[of _ "64 * k + ?n"]) (simp del: mem_bms_set)
      moreover have "bms_first_member_step k s = Inl (int (64 * k + ?n), ?s)"
        using s False by (simp add: bms_first_member_step_def Let_def RIGHTMOST_ONE_pos(2)
            RIGHTMOST_ONE_pos(1)[OF False, unfolded RIGHTMOST_ONE_pos(2)[OF False]]
            bms_words mult.commute del: push_bit_of_1)
      ultimately show ?thesis by (simp del: mem_bms_set)
    qed
  qed simp_all
  then show ?thesis unfolding bms_below_all by (auto split: sum.splits simp del: mem_bms_set)
qed

lemma bms_first_member_spec:
  assumes "bms_wf a"
  shows "if bms_set a = {} then bms_first_member a = (- 1, a)
    else \<exists>s. bms_first_member a = (int (Min (bms_set a)), s) \<and> bms_wf s \<and>
      bms_set s = bms_set a - {Min (bms_set a)}"
proof (cases a)
  case (Some b)
  have min: "m = Min (bms_set a)" if "m \<in> bms_set a" "\<forall>y \<in> bms_set a. m \<le> y" for m
    using that by (intro Min_eqI[symmetric]) auto
  show ?thesis
  proof (cases "for_ret bms_first_member_step [0..<nwords b] b")
    case (Inl rs)
    obtain r s where rs: "rs = (r, s)" by force
    then show ?thesis
      using bms_first_member_loop[of b] assms min Inl unfolding Some
      by (auto simp: bms_first_member_def simp del: mem_bms_set)
  next
    case (Inr s)
    then show ?thesis using bms_first_member_loop[of b] assms unfolding Some
      by (simp add: bms_first_member_def del: mem_bms_set)
  qed
qed (simp add: bms_first_member_def)

text \<open>\<open>bms_next_member\<close>: the least member above the previous one.\<close>

lemma next_member_word:
  assumes k: "k < nwords a" and n: "rightmost_one (words a ! k AND m) n"
    and m: "\<forall>n < 64. bit m n \<longleftrightarrow> p \<le> 64 * k + n"
    and none: "\<forall>y \<in> bms_set (Some a). p \<le> y \<longrightarrow> k \<le> y div 64"
  shows "64 * k + n \<in> bms_set (Some a) \<and> p \<le> 64 * k + n \<and>
    (\<forall>y \<in> bms_set (Some a). p \<le> y \<longrightarrow> 64 * k + n \<le> y)"
proof -
  have n': "n < 64" "bit (words a ! k) n" "bit m n" "\<forall>i < n. \<not> (bit (words a ! k) i \<and> bit m i)"
    using rightmost_one_less[OF n] n by (auto simp: rightmost_one_def bit_and_iff)
  have "64 * k + n \<le> y" if y: "y \<in> bms_set (Some a)" "p \<le> y" for y
  proof (rule ccontr)
    assume "\<not> 64 * k + n \<le> y"
    moreover have "k \<le> y div 64" using none y by blast
    ultimately have d: "y div 64 = k" and l: "y mod 64 < n"
      using n'(1) nat_less_64[of y "64 * k + n"] by auto
    have "y = 64 * k + y mod 64" using d by (metis mult_div_mod_eq)
    then have "bit m (y mod 64)" using m l n'(1) y(2) by (metis order_less_trans)
    then show False using n'(4) l y(1) d by auto
  qed
  moreover have "64 * k + n \<in> bms_set (Some a)" using n' k by simp
  moreover have "p \<le> 64 * k + n" using n' m by blast
  ultimately show ?thesis by blast
qed

lemma bms_next_member_loop:
  assumes "maskw = push_bit (p mod 64) (NOT 0)"
  shows "case for_ret (bms_next_member_step a) [p div 64..<nwords a] maskw of
     Inl r \<Rightarrow> \<exists>m. r = int m \<and> m \<in> bms_set (Some a) \<and> p \<le> m \<and>
        (\<forall>y \<in> bms_set (Some a). p \<le> y \<longrightarrow> m \<le> y)
   | Inr _ \<Rightarrow> \<forall>y \<in> bms_set (Some a). \<not> p \<le> y"
proof (cases "p div 64 < nwords a")
  case False
  then have "\<not> p \<le> y" if "y \<in> bms_set (Some a)" for y
    using that div_le_mono[of p y 64] by auto
  then show ?thesis using False by (simp del: mem_bms_set)
next
  case True
  let ?R = "\<lambda>r. \<exists>m. r = int m \<and> m \<in> bms_set (Some a) \<and> p \<le> m \<and>
        (\<forall>y \<in> bms_set (Some a). p \<le> y \<longrightarrow> m \<le> y)"
  let ?I = "\<lambda>k (m :: bitmapword). (\<forall>n < 64. bit m n \<longleftrightarrow> p \<le> 64 * k + n) \<and>
        (\<forall>y \<in> bms_set (Some a). p \<le> y \<longrightarrow> k \<le> y div 64)"
  have "case for_ret (bms_next_member_step a) [p div 64..<nwords a] maskw of
     Inl r \<Rightarrow> ?R r | Inr m \<Rightarrow> ?I (nwords a) m"
  proof (rule for_ret_upt_rule)
    have "p mod 64 \<le> n \<longleftrightarrow> p \<le> 64 * (p div 64) + n" for n
      by (metis mult_div_mod_eq nat_add_left_cancel_le)
    then have "\<forall>n < 64. bit maskw n \<longleftrightarrow> p \<le> 64 * (p div 64) + n" by (simp add: assms bit_simps not_less)
    then show "?I (p div 64) maskw" using div_le_mono by blast
  next
    fix k m
    assume k: "p div 64 \<le> k" "k < nwords a" and I: "?I k m"
    show "case bms_next_member_step a k m of Inl r \<Rightarrow> ?R r | Inr m \<Rightarrow> ?I (Suc k) m"
    proof (cases "words a ! k AND m = 0")
      case False
      have "?R (int (64 * k + bmw_rightmost_one_pos (words a ! k AND m)))"
        using next_member_word[OF k(2) bmw_rightmost[OF False]] I by blast
      then show ?thesis
        using False by (simp add: bms_next_member_step_def bms_words Let_def mult.commute del: mem_bms_set of_nat_add of_nat_mult)
    next
      case True
      have "p < 64 * Suc k" using k(1) by (simp add: less_mult_imp_div_less div_less_iff_less_mult mult.commute)
      moreover have "Suc k \<le> y div 64" if y: "y \<in> bms_set (Some a)" "p \<le> y" for y
      proof (rule ccontr)
        assume "\<not> Suc k \<le> y div 64"
        then have d: "y div 64 = k" using I y by (metis le_antisym not_less_eq_eq)
        then have "y = 64 * k + y mod 64" by (metis mult_div_mod_eq)
        then have "bit m (y mod 64)" using I y(2) by (metis mod_less_divisor zero_less_numeral)
        then show False using True y(1) d by (auto simp: word_and_0_iff)
      qed
      ultimately show ?thesis
        using True by (auto simp: bms_next_member_step_def bit_simps simp del: mem_bms_set)
    qed
  qed (use True in simp)
  then show ?thesis by (auto split: sum.splits simp del: mem_bms_set) (simp add: not_less)
qed

lemma bms_next_member_Inr:
  assumes "- 1 \<le> p" "p < 2147483647"
  shows "bms_next_member a p = Inr (if {y \<in> bms_set a. p < int y} = {} then - 2
    else int (Min {y \<in> bms_set a. p < int y}))"
proof (cases a)
  case (Some b)
  let ?p = "nat (p + 1)"
  have p: "p < int y \<longleftrightarrow> ?p \<le> y" for y using assms by linarith
  have min: "m = Min {y \<in> bms_set a. ?p \<le> y}"
    if "m \<in> bms_set a" "?p \<le> m" "\<forall>y \<in> bms_set a. ?p \<le> y \<longrightarrow> m \<le> y" for m
    using that by (intro Min_eqI[symmetric]) auto
  have "wrap_int (p + 1) = p + 1" using assms by (intro wrap_int_id) auto
  then show ?thesis
    using bms_next_member_loop[OF refl, of b ?p] assms min unfolding Some p
    by (auto simp: bms_next_member_def bms_words Let_def split: sum.splits simp del: mem_bms_set)
qed (use assms in \<open>simp add: bms_next_member_def\<close>)

text \<open>From INT_MAX the increment wraps around, and the search reads outside the array.\<close>

lemma bms_next_member_overrun: "bms_next_member (Some b) 2147483647 = Inl OUT_OF_BOUNDS_READ"
  by (simp add: bms_next_member_def wrap_int_def)

section \<open>Hashing\<close>

lemma bms_last_word_props:
  "bms_last_word ws k \<le> k" "\<forall>i. bms_last_word ws k \<le> i \<and> i < k \<longrightarrow> ws ! i = 0"
  "bms_last_word ws k \<noteq> 0 \<Longrightarrow> ws ! (bms_last_word ws k - 1) \<noteq> 0"
  by (induction k) (auto simp: less_Suc_eq)

lemma bms_last_word_eq:
  assumes "\<forall>i. bms_word (Some a) i = bms_word (Some b) i"
  shows "bms_last_word (words a) (nwords a) \<le> bms_last_word (words b) (nwords b)"
proof (rule ccontr)
  let ?m = "bms_last_word (words a) (nwords a)" and ?n = "bms_last_word (words b) (nwords b)"
  assume "\<not> ?m \<le> ?n"
  then have "words a ! (?m - 1) \<noteq> 0" "?m - 1 < nwords a" "?n \<le> ?m - 1"
    using bms_last_word_props(1,3)[of "words a" "nwords a"] by auto
  then show False
    using assms[rule_format, of "?m - 1"] bms_last_word_props(2)[of "words b" "nwords b"]
    by (auto split: if_splits)
qed

lemma bms_hash_value_word:
  assumes "bms_wf (Some a)" "bms_wf (Some b)" "\<forall>i. bms_word (Some a) i = bms_word (Some b) i"
  shows "bms_hash_value h (Some a) = bms_hash_value h (Some b)"
proof -
  let ?n = "bms_last_word (words a) (nwords a)"
  have n: "bms_last_word (words b) (nwords b) = ?n"
    using bms_last_word_eq[of a b] bms_last_word_eq[of b a] assms(3) by (metis le_antisym)
  have le: "?n \<le> nwords a" "?n \<le> nwords b"
    using bms_last_word_props(1)[of "words a" "nwords a"] bms_last_word_props(1)[of "words b" "nwords b"] n
    by simp_all
  have "words a ! i = words b ! i" if "i < ?n" for i
    using assms(3)[rule_format, of i] that le by simp
  then have "take ?n (words a) = take ?n (words b)"
    using assms(1,2) le by (intro nth_equalityI) auto
  then show ?thesis by (simp add: bms_hash_value_def n Let_def)
qed

lemma bms_last_word_zero: "\<forall>i < k. ws ! i = 0 \<Longrightarrow> bms_last_word ws k = 0"
  by (induction k) auto

lemma bms_hash_value_cong:
  assumes "bms_wf a" "bms_wf b" "bms_set a = bms_set b"
  shows "bms_hash_value h a = bms_hash_value h b"
proof -
  have eq: "\<forall>i. bms_word a i = bms_word b i" using assms(3) bms_eq_words by blast
  have none: "bms_hash_value h (Some c) = 0" if "\<forall>i. bms_word (Some c) i = 0" for c
  proof -
    have "\<forall>i < nwords c. words c ! i = 0" using that by (auto split: if_splits)
    then show ?thesis by (simp add: bms_hash_value_def bms_last_word_zero)
  qed
  have null: "bms_hash_value h None = 0" by (simp add: bms_hash_value_def)
  show ?thesis
  proof (cases a)
    case None
    then show ?thesis using none eq null by (cases b) simp_all
  next
    case (Some c)
    show ?thesis
    proof (cases b)
      case None
      then show ?thesis using Some none eq null by simp
    next
      fix d
      assume "b = Some d"
      then show ?thesis using Some bms_hash_value_word assms(1,2) eq by blast
    qed
  qed
qed

section \<open>The interface of the package: a finite set with a cursor\<close>

text \<open>
  What the callers in the planner and executor rely on: a well-formedness predicate kept by
  every operation, the membership test, insertion, and a cursor that returns the least member
  above a position.
\<close>

locale int_set =
  fixes invar :: "'s \<Rightarrow> bool"
    and members :: "'s \<Rightarrow> nat set"
    and empty :: 's
    and add :: "'s \<Rightarrow> int \<Rightarrow> 's result"
    and del :: "'s \<Rightarrow> int \<Rightarrow> 's result"
  assumes empty_invar: "invar empty"
    and empty_members: "members empty = {}"
    and add_ok: "invar s \<Longrightarrow> 0 \<le> x \<Longrightarrow>
      \<exists>t. add s x = Inr t \<and> invar t \<and> members t = insert (nat x) (members s)"
    and del_ok: "invar s \<Longrightarrow> 0 \<le> x \<Longrightarrow>
      \<exists>t. del s x = Inr t \<and> invar t \<and> members t = members s - {nat x}"
begin

text \<open>Adding a list of members one after the other, stopping at the first error.\<close>

lemma add_list:
  assumes "invar s" "\<forall>x \<in> set xs. 0 \<le> x"
  shows "\<exists>t. for_ret (\<lambda>x s. add s x) xs s = Inr t \<and> invar t \<and>
    members t = members s \<union> nat ` set xs"
  using assms
proof (induction xs arbitrary: s)
  case (Cons x xs)
  obtain t where t: "add s x = Inr t" "invar t" "members t = insert (nat x) (members s)"
    using add_ok[OF Cons.prems(1), of x] Cons.prems(2) by auto
  then show ?case using Cons.IH[of t] Cons.prems by auto
qed simp

lemma del_list:
  assumes "invar s" "\<forall>x \<in> set xs. 0 \<le> x"
  shows "\<exists>t. for_ret (\<lambda>x s. del s x) xs s = Inr t \<and> invar t \<and>
    members t = members s - nat ` set xs"
  using assms
proof (induction xs arbitrary: s)
  case (Cons x xs)
  obtain t where t: "del s x = Inr t" "invar t" "members t = members s - {nat x}"
    using del_ok[OF Cons.prems(1), of x] Cons.prems(2) by auto
  then show ?case using Cons.IH[of t] Cons.prems by auto
qed simp

end

text \<open>
  The loop \<open>x = -1; while ((x = bms_next_member(a, x)) >= 0) process x;\<close> of the callers,
  as the list of the members that it processes. The fuel bounds the number of iterations;
  \<open>None\<close> is running out of it.
\<close>

fun bms_iterate :: "('s \<Rightarrow> int \<Rightarrow> int result) \<Rightarrow> nat \<Rightarrow> 's \<Rightarrow> int \<Rightarrow> int list option" where
  "bms_iterate nxt 0 s x = None"
| "bms_iterate nxt (Suc fuel) s x =
     (case nxt s x of
        Inl e \<Rightarrow> None
      | Inr x' \<Rightarrow> if 0 \<le> x' then map_option ((#) x') (bms_iterate nxt fuel s x') else Some [])"

locale int_set_cursor = int_set +
  fixes nxt :: "'a \<Rightarrow> int \<Rightarrow> int result"
  assumes finite_members: "finite (members s)"
    and nxt_overrun: "members s \<noteq> {} \<Longrightarrow> nxt s 2147483647 = Inl OUT_OF_BOUNDS_READ"
    and nxt_ok: "- 1 \<le> x \<Longrightarrow> x < 2147483647 \<Longrightarrow> nxt s x = Inr (if {y \<in> members s. x < int y} = {} then - 2
      else int (Min {y \<in> members s. x < int y}))"
begin

lemma iterate_above:
  assumes "- 1 \<le> x" "x < 2147483647" "card {y \<in> members s. x < int y} < fuel"
    and small: "\<And>y. y \<in> members s \<Longrightarrow> int y < 2147483647"
  shows "bms_iterate nxt fuel s x = Some (map int (sorted_list_of_set {y \<in> members s. x < int y}))"
  using assms(1-3)
proof (induction fuel arbitrary: x)
  case (Suc fuel)
  let ?A = "{y \<in> members s. x < int y}"
  have fin: "finite ?A" by (simp add: finite_members)
  show ?case
  proof (cases "?A = {}")
    case True
    then show ?thesis unfolding True using Suc.prems by (simp add: nxt_ok True)
  next
    case False
    let ?B = "{y \<in> members s. int (Min ?A) < int y}"
    have "?B = ?A - {Min ?A}"
    proof (rule set_eqI)
      fix y
      have "x < int (Min ?A)" using Min_in[OF fin False] by simp
      moreover have "Min ?A \<le> y" if "y \<in> ?A" using Min_le[OF fin that] .
      ultimately show "y \<in> ?B \<longleftrightarrow> y \<in> ?A - {Min ?A}" by fastforce
    qed
    moreover have "card (?A - {Min ?A}) < fuel"
      using Suc.prems(3) card_Diff1_less[OF fin Min_in[OF fin False]] by linarith
    moreover have "int (Min ?A) < 2147483647" using Min_in[OF fin False] small by blast
    ultimately have "bms_iterate nxt fuel s (int (Min ?A)) = Some (map int (sorted_list_of_set (?A - {Min ?A})))"
      using Suc.IH[of "int (Min ?A)"] by simp
    then show ?thesis
      unfolding sorted_list_of_set_nonempty[OF fin False] bms_iterate.simps nxt_ok[OF Suc.prems(1,2)] if_not_P[OF False]
      by (simp only: sum.case of_nat_0_le_iff if_True option.map list.map)
  qed
qed simp

lemma iterate:
  assumes "card (members s) < fuel" "\<And>y. y \<in> members s \<Longrightarrow> int y < 2147483647"
  shows "bms_iterate nxt fuel s (- 1) = Some (map int (sorted_list_of_set (members s)))"
proof -
  have "{y \<in> members s. - 1 < int y} = members s" by auto
  then show ?thesis using iterate_above[of "- 1" s fuel] assms by simp
qed

text \<open>Collecting the members that the cursor visits rebuilds the set.\<close>

lemma iterate_rebuild:
  assumes "card (members s) < fuel" "\<And>y. y \<in> members s \<Longrightarrow> int y < 2147483647"
  shows "\<exists>xs t. bms_iterate nxt fuel s (- 1) = Some xs \<and>
    for_ret (\<lambda>x s. add s x) xs empty = Inr t \<and> invar t \<and> members t = members s"
  using iterate[OF assms] add_list[OF empty_invar, of "map int (sorted_list_of_set (members s))"]
    finite_members[of s] by (auto simp: empty_members image_image)

text \<open>With INT_MAX in the set the loop reaches it, and then fails instead of ending.\<close>

lemma iterate_overrun:
  assumes "2147483647 \<in> members s" "\<And>y. y \<in> members s \<Longrightarrow> y \<le> 2147483647"
    and "- 1 \<le> x" "x \<le> 2147483647"
  shows "bms_iterate nxt fuel s x = None"
  using assms(3,4)
proof (induction fuel arbitrary: x)
  case (Suc fuel)
  show ?case
  proof (cases "x = 2147483647")
    case True
    have "members s \<noteq> {}" using assms(1) by blast
    then show ?thesis using nxt_overrun[of s] True by simp
  next
    case False
    let ?A = "{y \<in> members s. x < int y}"
    have A: "2147483647 \<in> ?A" using assms(1) Suc.prems False by simp
    have "finite ?A" "?A \<noteq> {}" using finite_members[of s] A by (simp, blast)
    then have "Min ?A \<in> members s" using Min_in[of ?A] by blast
    then have "bms_iterate nxt fuel s (int (Min ?A)) = None"
      using Suc.IH[of "int (Min ?A)"] assms(2)[of "Min ?A"] by simp
    moreover have "nxt s x = Inr (int (Min ?A))"
      using \<open>?A \<noteq> {}\<close> nxt_ok[of x s] Suc.prems False by simp
    ultimately show ?thesis by simp
  qed
qed simp

end

interpretation bms: int_set bms_wf bms_set None bms_add_member bms_del_member
proof unfold_locales
  fix s :: Bitmapset_ptr and x :: int
  assume "bms_wf s" "0 \<le> x"
  then show "\<exists>t. bms_add_member s x = Inr t \<and> bms_wf t \<and> bms_set t = insert (nat x) (bms_set s)"
    and "\<exists>t. bms_del_member s x = Inr t \<and> bms_wf t \<and> bms_set t = bms_set s - {nat x}"
    using bms_add_member_Inr bms_del_member_Inr by blast+
qed simp_all

interpretation bms: int_set_cursor bms_wf bms_set None bms_add_member bms_del_member bms_next_member
proof unfold_locales
  fix s :: Bitmapset_ptr
  assume "bms_set s \<noteq> {}"
  then show "bms_next_member s 2147483647 = Inl OUT_OF_BOUNDS_READ"
    using bms_next_member_overrun by (cases s) auto
qed (simp_all add: bms_next_member_Inr)

instantiation BMS_Membership :: linorder
begin

definition less_eq_BMS_Membership :: "BMS_Membership \<Rightarrow> BMS_Membership \<Rightarrow> bool" where
  "less_eq_BMS_Membership x y \<longleftrightarrow> x = BMS_EMPTY_SET \<or> y = BMS_MULTIPLE \<or> x = y"

definition less_BMS_Membership :: "BMS_Membership \<Rightarrow> BMS_Membership \<Rightarrow> bool" where
  "less_BMS_Membership x y \<longleftrightarrow> x \<le> y \<and> x \<noteq> (y :: BMS_Membership)"

instance
proof
  fix x y z :: BMS_Membership
  show "x < y \<longleftrightarrow> x \<le> y \<and> \<not> y \<le> x"
    by (cases x; cases y) (simp_all add: less_eq_BMS_Membership_def less_BMS_Membership_def)
  show "x \<le> x" by (simp add: less_eq_BMS_Membership_def)
  show "x \<le> y \<Longrightarrow> y \<le> z \<Longrightarrow> x \<le> z"
    by (cases x; cases y; cases z) (simp_all add: less_eq_BMS_Membership_def)
  show "x \<le> y \<Longrightarrow> y \<le> x \<Longrightarrow> x = y" by (cases x; cases y) (simp_all add: less_eq_BMS_Membership_def)
  show "x \<le> y \<or> y \<le> x" by (cases x; cases y) (simp_all add: less_eq_BMS_Membership_def)
qed

end

lemma membership_of_mono: "finite T \<Longrightarrow> S \<subseteq> T \<Longrightarrow> membership_of S \<le> membership_of T"
proof -
  assume "finite T" "S \<subseteq> T"
  then have "card S \<le> card T" "finite S" by (auto intro: card_mono finite_subset)
  then show ?thesis
    using \<open>finite T\<close> \<open>S \<subseteq> T\<close> card_0_eq[of S] card_0_eq[of T]
    by (cases "S = {}"; cases "T = {}")
      (auto simp: membership_of_def less_eq_BMS_Membership_def Suc_le_eq le_Suc_eq)
qed

section \<open>Properties of the package\<close>

abbreviation bms_35 :: Bitmapset_ptr where
  "bms_35 \<equiv> Some \<lparr>nwords = 1, words = [40]\<rparr>"

abbreviation bms_3_64 :: Bitmapset_ptr where
  "bms_3_64 \<equiv> Some \<lparr>nwords = 2, words = [8, 1]\<rparr>"

text \<open>C10: the binary operations of the bitmap set package, the copying ones and the ones that
  recycle their left input, return well-formed sets and compute union, intersection and
  difference, for arrays of any two lengths and for NULL on either side.\<close>

theorem bms_operations_refine_sets:
  assumes "bms_wf a" "bms_wf b"
  shows "(bms_wf (bms_union a b) \<and> bms_set (bms_union a b) = bms_set a \<union> bms_set b)
    \<and> (bms_wf (bms_intersect a b) \<and> bms_set (bms_intersect a b) = bms_set a \<inter> bms_set b)
    \<and> (bms_wf (bms_difference a b) \<and> bms_set (bms_difference a b) = bms_set a - bms_set b)
    \<and> (bms_wf (bms_add_members a b) \<and> bms_set (bms_add_members a b) = bms_set a \<union> bms_set b)
    \<and> (bms_wf (bms_int_members a b) \<and> bms_set (bms_int_members a b) = bms_set a \<inter> bms_set b)
    \<and> (bms_wf (bms_del_members a b) \<and> bms_set (bms_del_members a b) = bms_set a - bms_set b)
    \<and> (bms_wf (bms_join a b) \<and> bms_set (bms_join a b) = bms_set a \<union> bms_set b)"
  using bms_union_wf bms_set_union bms_intersect_wf bms_set_intersect bms_difference_wf
    bms_set_difference bms_add_members_wf bms_set_add_members bms_int_members_wf
    bms_set_int_members bms_del_members_wf bms_set_del_members bms_join_wf bms_set_join assms
  by simp

theorem bms_operations_refine_sets_witness:
  "bms_set (bms_union bms_35 bms_3_64) = bms_set bms_35 \<union> bms_set bms_3_64 \<and>
   bms_set (bms_int_members bms_3_64 bms_35) = bms_set bms_3_64 \<inter> bms_set bms_35"
  using bms_operations_refine_sets[of bms_35 bms_3_64] bms_operations_refine_sets[of bms_3_64 bms_35]
  by (simp del: mem_bms_set)

text \<open>C18: the comparisons decide the corresponding relations between the sets, whatever the
  array lengths: equality, inclusion, overlap, non-empty difference, emptiness, and the
  four-way answer of \<open>bms_subset_compare\<close>.\<close>

theorem bms_comparisons_decide:
  assumes "bms_wf a" "bms_wf b"
  shows "(bms_equal a b \<longleftrightarrow> bms_set a = bms_set b)
    \<and> (bms_is_subset a b \<longleftrightarrow> bms_set a \<subseteq> bms_set b)
    \<and> (bms_overlap a b \<longleftrightarrow> bms_set a \<inter> bms_set b \<noteq> {})
    \<and> (bms_nonempty_difference a b \<longleftrightarrow> \<not> bms_set a \<subseteq> bms_set b)
    \<and> (bms_is_empty a \<longleftrightarrow> bms_set a = {})
    \<and> bms_subset_compare a b =
        (if bms_set a = bms_set b then BMS_EQUAL
         else if bms_set a \<subseteq> bms_set b then BMS_SUBSET1
         else if bms_set b \<subseteq> bms_set a then BMS_SUBSET2
         else BMS_DIFFERENT)"
  using assms by (auto simp: bms_equal_iff bms_is_subset_iff bms_overlap_iff
      bms_nonempty_difference_iff bms_subset_compare_status cmp_status_def simp del: mem_bms_set)

theorem bms_comparisons_decide_witness:
  "bms_subset_compare bms_35 bms_3_64 = BMS_DIFFERENT \<and>
   \<not> bms_set bms_35 \<subseteq> bms_set bms_3_64 \<and> \<not> bms_set bms_3_64 \<subseteq> bms_set bms_35"
proof -
  have c: "bms_subset_compare bms_35 bms_3_64 = BMS_DIFFERENT" by code_simp
  show ?thesis
    using bms_comparisons_decide[of bms_35 bms_3_64] c
    by (simp split: if_splits del: One_nat_def)
qed

text \<open>C19: the single-member operations. A negative member is an error in each of them; otherwise
  adding and deleting succeed, return a well-formed set, change exactly that member, and
  \<open>bms_is_member\<close> tells whether a number is in the set; the array grows by itself when the
  member is beyond its last word.\<close>

theorem bms_single_member_operations:
  assumes "bms_wf a"
  shows "if x < 0 then bms_add_member a x = Inl ERRCODE_DATA_EXCEPTION \<and>
        bms_del_member a x = Inl ERRCODE_DATA_EXCEPTION \<and>
        bms_is_member x a = Inl ERRCODE_DATA_EXCEPTION \<and>
        bms_make_singleton x = Inl ERRCODE_DATA_EXCEPTION
    else bms_is_member x a = Inr (nat x \<in> bms_set a) \<and>
      (\<exists>s. bms_make_singleton x = Inr s \<and> bms_wf s \<and> bms_set s = {nat x}) \<and>
      (\<exists>s. bms_build_with_length_noexcept x = Inr s \<and> bms_wf s \<and> bms_set s = {}) \<and>
      (\<exists>s. bms_add_member a x = Inr s \<and> bms_wf s \<and> bms_set s = insert (nat x) (bms_set a)) \<and>
      (\<exists>s. bms_del_member a x = Inr s \<and> bms_wf s \<and> bms_set s = bms_set a - {nat x})"
proof (cases "x < 0")
  case True
  then show ?thesis
    by (simp add: bms_add_member_def bms_del_member_def bms_is_member_def bms_make_singleton_def)
next
  case False
  then show ?thesis
    using bms_make_singleton_Inr[of x] bms_build_with_length_Inr[of x] bms_is_member_iff[of x a]
      bms_add_member_Inr[OF assms, of x] bms_del_member_Inr[OF assms, of x]
    by (auto simp del: mem_bms_set bms_wf_simps)
qed

theorem bms_single_member_operations_witness:
  "\<exists>s. bms_add_member bms_35 130 = Inr s \<and> bms_set s = insert 130 (bms_set bms_35)"
  using bms_single_member_operations[of bms_35 130] by (auto simp del: mem_bms_set)

text \<open>C20: on a set of C integers, the caller's loop over \<open>bms_next_member\<close> from -1 ends exactly
  when INT_MAX is not a member. Then it visits every member once, in ascending order, and adding
  the visited members to the empty set rebuilds an equal set. With INT_MAX in the set the
  increment of the cursor wraps around and the loop reads outside the word array.\<close>

theorem bms_iteration_visits_sorted:
  assumes "card (bms_set a) < fuel" "bms_wf a" "\<forall>y \<in> bms_set a. y \<le> 2147483647"
  shows "if 2147483647 \<in> bms_set a
    then bms_iterate bms_next_member fuel a (- 1) = None
      \<and> bms_next_member a 2147483647 = Inl OUT_OF_BOUNDS_READ
    else bms_iterate bms_next_member fuel a (- 1) = Some (map int (sorted_list_of_set (bms_set a)))
      \<and> (\<exists>xs t. bms_iterate bms_next_member fuel a (- 1) = Some xs \<and>
           for_ret (\<lambda>x s. bms_add_member s x) xs None = Inr t \<and> bms_equal t a)"
proof (cases "2147483647 \<in> bms_set a")
  case True
  moreover have "bms_next_member a 2147483647 = Inl OUT_OF_BOUNDS_READ"
    using True by (intro bms.nxt_overrun) blast
  ultimately show ?thesis using bms.iterate_overrun[OF True, of "- 1" fuel] assms(3) by simp
next
  case False
  then have small: "int y < 2147483647" if "y \<in> bms_set a" for y
    using that assms(3) by (metis nat_less_le of_nat_less_iff of_nat_numeral)
  obtain xs t where "bms_iterate bms_next_member fuel a (- 1) = Some xs"
      "for_ret (\<lambda>x s. bms_add_member s x) xs None = Inr t" "bms_wf t" "bms_set t = bms_set a"
    using bms.iterate_rebuild[OF assms(1) small] by blast
  moreover from this have "bms_equal t a" using assms(2) bms_equal_iff by blast
  ultimately show ?thesis using bms.iterate[OF assms(1) small] False by simp
qed

theorem bms_iteration_visits_sorted_witness:
  "bms_iterate bms_next_member 4 bms_3_64 (- 1) = Some [3, 64] \<and>
   map int (sorted_list_of_set (bms_set bms_3_64)) = [3, 64]"
proof -
  have "bms_num_members bms_3_64 = 2" by code_simp
  then have "card (bms_set bms_3_64) < 4" by (simp add: bms_num_members_card del: mem_bms_set)
  moreover have "bms_wf bms_3_64" by simp
  moreover have "y < 128" if "y \<in> bms_set bms_3_64" for y
    using that by (auto simp: div_less_iff_less_mult)
  moreover from this have "2147483647 \<notin> bms_set bms_3_64" by fastforce
  moreover have "bms_iterate bms_next_member 4 bms_3_64 (- 1) = Some [3, 64]" by code_simp
  ultimately show ?thesis using bms_iteration_visits_sorted[of bms_3_64 4] by fastforce
qed

text \<open>One step of the cursor: a position below -1 is an error, otherwise the result is the least
  member above the position, or -2 when there is none; INT_MAX has no next position.\<close>

theorem bms_next_member_least:
  assumes "prevbit < 2147483647"
  shows "bms_next_member a prevbit =
     (if prevbit < - 1 then Inl ERRCODE_INVALID_PARAMETER_VALUE
      else if {y \<in> bms_set a. prevbit < int y} = {} then Inr (- 2)
      else Inr (int (Min {y \<in> bms_set a. prevbit < int y})))"
proof (cases "prevbit < - 1")
  case True
  then show ?thesis by (simp add: bms_next_member_def)
next
  case False
  then show ?thesis using bms_next_member_Inr[of prevbit a] assms by simp
qed


text \<open>\<open>bms_first_member\<close> removes and returns the least member, or returns -1 and leaves the
  set alone when it is empty.\<close>

theorem bms_first_member_removes_min:
  assumes "bms_wf a"
  shows "if bms_set a = {} then bms_first_member a = (- 1, a)
    else \<exists>s. bms_first_member a = (int (Min (bms_set a)), s) \<and> bms_wf s \<and>
      bms_set s = bms_set a - {Min (bms_set a)}"
  by (rule bms_first_member_spec[OF assms])

theorem bms_first_member_removes_min_witness:
  "bms_first_member bms_35 = (3, Some \<lparr>nwords = 1, words = [32]\<rparr>) \<and> Min (bms_set bms_35) = 3"
proof -
  have f: "bms_first_member bms_35 = (3, Some \<lparr>nwords = 1, words = [32]\<rparr>)" by code_simp
  have "bms_set bms_35 \<noteq> {}" using bms_is_empty_iff[of bms_35] by (simp add: bms_is_empty_def del: mem_bms_set)
  then show ?thesis using bms_first_member_removes_min[of bms_35] f by (simp del: mem_bms_set)
qed

text \<open>the hash value depends on the set only: sets that \<open>bms_equal\<close> identifies hash alike,
  trailing zero words included, for every byte-string hash function.\<close>

theorem bms_hash_respects_equal:
  assumes "bms_wf a" "bms_wf b" "bms_equal a b"
  shows "bms_hash_value hash_any a = bms_hash_value hash_any b"
  using bms_hash_value_cong assms bms_equal_iff by blast

theorem bms_hash_respects_equal_witness:
  "bms_hash_value (\<lambda>ws. of_nat (length ws)) bms_35 =
   bms_hash_value (\<lambda>ws. of_nat (length ws)) (Some \<lparr>nwords = 2, words = [40, 0]\<rparr>)"
proof -
  have "bms_equal bms_35 (Some \<lparr>nwords = 2, words = [40, 0]\<rparr>)" by code_simp
  then show ?thesis
    using bms_hash_respects_equal[of bms_35 "Some \<lparr>nwords = 2, words = [40, 0]\<rparr>" "\<lambda>ws. of_nat (length ws)"]
    by simp
qed

end
