(* ===== verification/Fsm_Page.thy ===== *)
theory Fsm_Page
  imports Gauss_Prelude
begin

text \<open>
  One page of the free space map, \<open>src/gausskernel/storage/freespace/fsmpage.cpp\<close> and
  \<open>src/include/storage/fsm_internals.h\<close>: a binary tree in an array of bytes, whose leaves
  are the slots and whose inner nodes hold the maximum of their children. The block size
  \<open>BLCKSZ\<close> is a configuration constant of the build and a parameter \<open>B\<close> here
  (\<open>fsm_blcksz\<close> states what is assumed of it). A page that the tree search finds to be torn
  is rebuilt and the search restarts; the restart is a \<open>partial_function\<close>, and it is proved
  that the search always returns. Buffer locks and dirty marks are not modelled.
\<close>

section \<open>Layout\<close>

record FSMPageData =
  fp_next_slot :: int
  fp_nodes :: "uint8 list"

text \<open>The page header takes \<open>MAXALIGN(SizeOfPageHeaderData) = 24\<close> bytes, \<open>fp_next_slot\<close> 4.\<close>

definition NodesPerPage :: "nat \<Rightarrow> nat" where
  "NodesPerPage B = B - 24 - 4"

definition NonLeafNodesPerPage :: "nat \<Rightarrow> nat" where
  "NonLeafNodesPerPage B = B div 2 - 1"

definition LeafNodesPerPage :: "nat \<Rightarrow> nat" where
  "LeafNodesPerPage B = NodesPerPage B - NonLeafNodesPerPage B"

abbreviation SlotsPerFSMPage :: "nat \<Rightarrow> nat" where
  "SlotsPerFSMPage B \<equiv> LeafNodesPerPage B"

text \<open>Block sizes that the build allows hold at least one slot, and slot numbers fit 16 bits.\<close>

definition fsm_blcksz :: "nat \<Rightarrow> bool" where
  "fsm_blcksz B \<longleftrightarrow> even B \<and> 64 \<le> B \<and> B \<le> 32768"

definition leftchild :: "nat \<Rightarrow> nat" where
  "leftchild x = 2 * x + 1"

definition parentof :: "nat \<Rightarrow> nat" where
  "parentof x = (x - 1) div 2"

definition rightneighbor :: "nat \<Rightarrow> nat" where
  "rightneighbor x = (let x = x + 1 in if (x + 1) AND x = 0 then parentof x else x)"

section \<open>Operations\<close>

text \<open>The new value of an inner node, from the children that exist.\<close>

definition fsm_node_value :: "nat \<Rightarrow> uint8 list \<Rightarrow> nat \<Rightarrow> uint8" where
  "fsm_node_value B nodes nodeno =
     (let lchild = leftchild nodeno; rchild = lchild + 1;
          newvalue = (if lchild < NodesPerPage B then nodes ! lchild else 0)
      in if rchild < NodesPerPage B then max newvalue (nodes ! rchild) else newvalue)"

definition fsm_rebuild_step :: "nat \<Rightarrow> nat \<Rightarrow> bool \<times> uint8 list \<Rightarrow> bool \<times> uint8 list" where
  "fsm_rebuild_step B nodeno s =
     (case s of (changed, nodes) \<Rightarrow>
        (let newvalue = fsm_node_value B nodes nodeno
         in if nodes ! nodeno \<noteq> newvalue then (True, nodes[nodeno := newvalue])
            else (changed, nodes)))"

definition fsm_rebuild_page :: "nat \<Rightarrow> FSMPageData \<Rightarrow> bool \<times> FSMPageData" where
  "fsm_rebuild_page B page =
     (case fold (fsm_rebuild_step B) (rev [0..<NonLeafNodesPerPage B]) (False, fp_nodes page) of
        (changed, nodes) \<Rightarrow> (changed, page\<lparr>fp_nodes := nodes\<rparr>))"

text \<open>
  The \<open>do ... while\<close> loop of \<open>fsm_set_avail\<close>. Its left child always exists (the loop climbs
  from a leaf), so that the source reads it unguarded.
\<close>

function fsm_propagate :: "nat \<Rightarrow> nat \<Rightarrow> uint8 list \<Rightarrow> uint8 list" where
  "fsm_propagate B nodeno nodes =
     (let nodeno = parentof nodeno; lchild = leftchild nodeno; rchild = lchild + 1;
          newvalue = nodes ! lchild;
          newvalue = (if rchild < NodesPerPage B then max newvalue (nodes ! rchild) else newvalue);
          oldvalue = nodes ! nodeno
      in if oldvalue = newvalue then nodes
         else let nodes = nodes[nodeno := newvalue]
              in if nodeno > 0 then fsm_propagate B nodeno nodes else nodes)"
  by pat_completeness auto
termination
  by (relation "measure (\<lambda>(B, nodeno, nodes). nodeno)") (auto simp: parentof_def)

definition fsm_set_avail :: "nat \<Rightarrow> FSMPageData \<Rightarrow> nat \<Rightarrow> uint8 \<Rightarrow> bool \<times> FSMPageData" where
  "fsm_set_avail B page slot val =
     (let nodeno = NonLeafNodesPerPage B + slot; oldvalue = fp_nodes page ! nodeno
      in if oldvalue = val \<and> val \<le> fp_nodes page ! 0 then (False, page)
         else let page = page\<lparr>fp_nodes := fsm_propagate B nodeno ((fp_nodes page)[nodeno := val])\<rparr>;
                  page = (if val > fp_nodes page ! 0 then snd (fsm_rebuild_page B page) else page)
              in (True, page))"

definition fsm_get_avail :: "nat \<Rightarrow> FSMPageData \<Rightarrow> nat \<Rightarrow> uint8" where
  "fsm_get_avail B page slot = fp_nodes page ! (NonLeafNodesPerPage B + slot)"

definition fsm_get_max_avail :: "FSMPageData \<Rightarrow> uint8" where
  "fsm_get_max_avail page = fp_nodes page ! 0"

lemma parentof_less: "0 < x \<Longrightarrow> parentof x < x"
  by (simp add: parentof_def)

lemma parentof_rightneighbor_le: "parentof (rightneighbor x) \<le> parentof (x + 1)"
  by (auto simp: rightneighbor_def Let_def parentof_def)

lemma parentof_rightneighbor_less: "0 < x \<Longrightarrow> parentof (rightneighbor x) < x"
  using parentof_rightneighbor_le[of x] by (simp add: parentof_def)

text \<open>Climbing from the target slot, and descending to a slot; \<open>None\<close> is a broken promise.\<close>

function fsm_climb :: "uint8 list \<Rightarrow> uint8 \<Rightarrow> nat \<Rightarrow> nat" where
  "fsm_climb nodes minvalue nodeno =
     (if nodeno > 0 then
        if nodes ! nodeno \<ge> minvalue then nodeno
        else fsm_climb nodes minvalue (parentof (rightneighbor nodeno))
      else nodeno)"
  by pat_completeness auto
termination
  by (relation "measure (\<lambda>(nodes, minvalue, nodeno). nodeno)") (auto intro: parentof_rightneighbor_less)

function fsm_descend :: "nat \<Rightarrow> uint8 list \<Rightarrow> uint8 \<Rightarrow> nat \<Rightarrow> nat option" where
  "fsm_descend B nodes minvalue nodeno =
     (if nodeno < NonLeafNodesPerPage B then
        (let childnodeno = leftchild nodeno
         in if childnodeno < NodesPerPage B \<and> nodes ! childnodeno \<ge> minvalue
            then fsm_descend B nodes minvalue childnodeno
            else let childnodeno = childnodeno + 1
                 in if childnodeno < NodesPerPage B \<and> nodes ! childnodeno \<ge> minvalue
                    then fsm_descend B nodes minvalue childnodeno
                    else None)
      else Some nodeno)"
  by pat_completeness auto
termination
  by (relation "measure (\<lambda>(B, nodes, minvalue, nodeno). NonLeafNodesPerPage B - nodeno)")
    (auto simp: leftchild_def)

declare fsm_propagate.simps [simp del] fsm_climb.simps [simp del] fsm_descend.simps [simp del]

text \<open>The target node: \<open>fp_next_slot\<close> is only a hint.\<close>

definition fsm_target :: "nat \<Rightarrow> FSMPageData \<Rightarrow> nat" where
  "fsm_target B page =
     (let target = fp_next_slot page;
          target = (if target < 0 \<or> nat target \<ge> LeafNodesPerPage B then 0 else nat target)
      in target + NonLeafNodesPerPage B)"

partial_function (option) fsm_search_avail ::
    "nat \<Rightarrow> FSMPageData \<Rightarrow> uint8 \<Rightarrow> bool \<Rightarrow> (int \<times> FSMPageData) option" where
  "fsm_search_avail B page minvalue advancenext =
     (if fp_nodes page ! 0 < minvalue then Some (- 1, page)
      else case fsm_descend B (fp_nodes page) minvalue
                  (fsm_climb (fp_nodes page) minvalue (fsm_target B page)) of
             None \<Rightarrow> fsm_search_avail B (snd (fsm_rebuild_page B page)) minvalue advancenext
           | Some nodeno \<Rightarrow>
               (let slot = uint (of_nat (nodeno - NonLeafNodesPerPage B) :: uint16)
                in Some (slot, page\<lparr>fp_next_slot := slot + (if advancenext then 1 else 0)\<rparr>)))"

definition fsm_truncate_step :: "nat \<Rightarrow> bool \<times> uint8 list \<Rightarrow> bool \<times> uint8 list" where
  "fsm_truncate_step i s =
     (case s of (changed, nodes) \<Rightarrow> (if nodes ! i \<noteq> 0 then True else changed, nodes[i := 0]))"

definition fsm_truncate_avail :: "nat \<Rightarrow> FSMPageData \<Rightarrow> nat \<Rightarrow> bool \<times> FSMPageData" where
  "fsm_truncate_avail B page nslots =
     (case fold fsm_truncate_step [NonLeafNodesPerPage B + nslots..<NodesPerPage B]
             (False, fp_nodes page) of
        (changed, nodes) \<Rightarrow>
          (let page = page\<lparr>fp_nodes := nodes\<rparr>
           in (changed, if changed then snd (fsm_rebuild_page B page) else page)))"

section \<open>Invariant\<close>

definition fsm_page_wf :: "nat \<Rightarrow> FSMPageData \<Rightarrow> bool" where
  "fsm_page_wf B page \<longleftrightarrow> length (fp_nodes page) = NodesPerPage B"

definition fsm_consistent :: "nat \<Rightarrow> FSMPageData \<Rightarrow> bool" where
  "fsm_consistent B page \<longleftrightarrow> fsm_page_wf B page \<and>
     (\<forall>nodeno < NonLeafNodesPerPage B. fp_nodes page ! nodeno = fsm_node_value B (fp_nodes page) nodeno)"

definition fsm_slots :: "nat \<Rightarrow> FSMPageData \<Rightarrow> uint8 list" where
  "fsm_slots B page = drop (NonLeafNodesPerPage B) (fp_nodes page)"

lemma fsm_layout:
  assumes "fsm_blcksz B"
  shows "0 < NonLeafNodesPerPage B" "NonLeafNodesPerPage B < NodesPerPage B"
    "NodesPerPage B \<le> 2 * NonLeafNodesPerPage B + 1" "0 < LeafNodesPerPage B"
    "LeafNodesPerPage B < 65536" "NodesPerPage B = NonLeafNodesPerPage B + LeafNodesPerPage B"
  using assms unfolding fsm_blcksz_def NodesPerPage_def NonLeafNodesPerPage_def LeafNodesPerPage_def
  by linarith+

lemma fsm_page_wf_update [simp]:
  "fsm_page_wf B (page\<lparr>fp_nodes := nodes\<rparr>) \<longleftrightarrow> length nodes = NodesPerPage B"
  "fsm_page_wf B (page\<lparr>fp_next_slot := n\<rparr>) \<longleftrightarrow> fsm_page_wf B page"
  by (simp_all add: fsm_page_wf_def)

lemma fsm_next_slot_update [simp]:
  "fsm_consistent B (page\<lparr>fp_next_slot := n\<rparr>) \<longleftrightarrow> fsm_consistent B page"
  "fsm_slots B (page\<lparr>fp_next_slot := n\<rparr>) = fsm_slots B page"
  by (simp_all add: fsm_consistent_def fsm_page_wf_def fsm_slots_def)

lemma length_fsm_slots [simp]: "fsm_page_wf B page \<Longrightarrow> length (fsm_slots B page) = LeafNodesPerPage B"
  by (simp add: fsm_slots_def fsm_page_wf_def LeafNodesPerPage_def)

lemma fsm_get_avail_slots:
  "fsm_blcksz B \<Longrightarrow> fsm_page_wf B page \<Longrightarrow> slot < LeafNodesPerPage B \<Longrightarrow>
   fsm_get_avail B page slot = fsm_slots B page ! slot"
  using fsm_layout(2)[of B]
  by (simp add: fsm_get_avail_def fsm_slots_def fsm_page_wf_def)

text \<open>A node's value depends on nodes with larger numbers only.\<close>

lemma fsm_node_value_update [simp]:
  "i \<noteq> leftchild n \<Longrightarrow> i \<noteq> leftchild n + 1 \<Longrightarrow>
   fsm_node_value B (nodes[i := v]) n = fsm_node_value B nodes n"
  by (simp add: fsm_node_value_def Let_def)

lemma fsm_node_value_cong:
  "(\<And>i. leftchild n \<le> i \<Longrightarrow> nodes ! i = nodes' ! i) \<Longrightarrow>
   fsm_node_value B nodes n = fsm_node_value B nodes' n"
  by (simp add: fsm_node_value_def Let_def)

lemma parentof_eq_iff: "0 < i \<Longrightarrow> parentof i = n \<longleftrightarrow> i = leftchild n \<or> i = leftchild n + 1"
  by (auto simp: parentof_def leftchild_def)

section \<open>Rebuilding\<close>

lemma fsm_rebuild_loop:
  assumes "length nodes = NodesPerPage B" "NonLeafNodesPerPage B \<le> NodesPerPage B"
    and "fold (fsm_rebuild_step B) (rev [0..<NonLeafNodesPerPage B]) (False, nodes) = (changed, nodes')"
  shows "length nodes' = NodesPerPage B \<and>
    drop (NonLeafNodesPerPage B) nodes' = drop (NonLeafNodesPerPage B) nodes \<and>
    (\<forall>n < NonLeafNodesPerPage B. nodes' ! n = fsm_node_value B nodes' n) \<and>
    (changed \<longleftrightarrow> nodes' \<noteq> nodes)"
proof -
  let ?N = "NonLeafNodesPerPage B"
  let ?I = "\<lambda>k (changed, nodes'). length nodes' = NodesPerPage B \<and>
    drop ?N nodes' = drop ?N nodes \<and>
    (\<forall>n < k. nodes' ! n = nodes ! n) \<and>
    (\<forall>n. k \<le> n \<and> n < ?N \<longrightarrow> nodes' ! n = fsm_node_value B nodes' n) \<and>
    (changed \<longleftrightarrow> nodes' \<noteq> nodes)"
  have "?I 0 (fold (fsm_rebuild_step B) (rev [0..<?N]) (False, nodes))"
  proof (rule fold_rev_upt_rule)
    fix k s
    assume k: "k < ?N" and I: "?I (Suc k) s"
    obtain c ns where s: "s = (c, ns)" by force
    let ?v = "fsm_node_value B ns k"
    show "?I k (fsm_rebuild_step B k s)"
    proof (cases "ns ! k = ?v")
      case True
      have "ns ! n = fsm_node_value B ns n" if "k \<le> n" "n < ?N" for n
        using I True that unfolding s by (cases "n = k") auto
      then show ?thesis using I True by (simp add: s fsm_rebuild_step_def)
    next
      case False
      have len: "k < length ns" using I k assms(2) by (simp add: s)
      have "ns[k := ?v] ! n = fsm_node_value B (ns[k := ?v]) n" if "k \<le> n" "n < ?N" for n
      proof -
        have "fsm_node_value B (ns[k := ?v]) n = fsm_node_value B ns n"
          using that by (intro fsm_node_value_update) (auto simp: leftchild_def)
        then show ?thesis using that I len unfolding s
          by (cases "n = k") (auto simp: nth_list_update)
      qed
      moreover have "ns[k := ?v] \<noteq> nodes"
      proof -
        have "ns[k := ?v] ! k \<noteq> nodes ! k" using I False len by (simp add: s)
        then show ?thesis by auto
      qed
      ultimately show ?thesis
        using I False k by (simp add: s fsm_rebuild_step_def Let_def drop_update_cancel)
    qed
  qed (use assms in auto)
  then show ?thesis unfolding assms(3) by simp
qed

lemma fsm_rebuild_page_props:
  assumes "fsm_blcksz B" "fsm_page_wf B page" "fsm_rebuild_page B page = (changed, page')"
  shows "fsm_consistent B page'" "fsm_slots B page' = fsm_slots B page"
    "fp_next_slot page' = fp_next_slot page" "changed \<longleftrightarrow> page' \<noteq> page"
proof -
  obtain nodes' where f: "fold (fsm_rebuild_step B) (rev [0..<NonLeafNodesPerPage B]) (False, fp_nodes page) =
      (changed, nodes')" and p: "page' = page\<lparr>fp_nodes := nodes'\<rparr>"
    using assms(3) by (auto simp: fsm_rebuild_page_def split: prod.splits)
  note r = fsm_rebuild_loop[OF _ _ f] fsm_layout(2)[OF assms(1)] assms(2)
  show "fsm_consistent B page'" using r by (simp add: p fsm_consistent_def fsm_page_wf_def)
  show "fsm_slots B page' = fsm_slots B page" using r by (simp add: p fsm_slots_def fsm_page_wf_def)
  show "fp_next_slot page' = fp_next_slot page" by (simp add: p)
  have "page' = page \<longleftrightarrow> nodes' = fp_nodes page" unfolding p by (cases page) simp
  then show "changed \<longleftrightarrow> page' \<noteq> page" using r by (simp add: fsm_page_wf_def)
qed

section \<open>The root bounds every node\<close>

lemma fsm_consistent_wf: "fsm_consistent B page \<Longrightarrow> fsm_page_wf B page"
  by (simp add: fsm_consistent_def)

lemma parentof_inner:
  "fsm_blcksz B \<Longrightarrow> n < NodesPerPage B \<Longrightarrow> 0 < n \<Longrightarrow> parentof n < NonLeafNodesPerPage B"
  using fsm_layout(3)[of B] by (simp add: parentof_def)

lemma fsm_node_le_value:
  assumes "c < NodesPerPage B" "0 < c"
  shows "nodes ! c \<le> fsm_node_value B nodes (parentof c)"
  using assms parentof_eq_iff[of c "parentof c"]
  by (auto simp: fsm_node_value_def Let_def le_max_iff_disj)

lemma fsm_node_le_root:
  assumes "fsm_blcksz B" "fsm_consistent B page" "n < NodesPerPage B"
  shows "fp_nodes page ! n \<le> fp_nodes page ! 0"
  using assms(3)
proof (induction n rule: less_induct)
  case (less n)
  show ?case
  proof (cases "n = 0")
    case False
    then have n: "0 < n" by simp
    have "fp_nodes page ! n \<le> fp_nodes page ! parentof n"
      using fsm_node_le_value[OF less.prems n] parentof_inner[OF assms(1) less.prems n] assms(2)
      by (simp add: fsm_consistent_def)
    also have "\<dots> \<le> fp_nodes page ! 0"
      using less.IH[OF parentof_less[OF n]] parentof_less[OF n] less.prems by simp
    finally show ?thesis .
  qed simp
qed

lemma fsm_slot_le_root:
  assumes "fsm_blcksz B" "fsm_consistent B page" "slot < LeafNodesPerPage B"
  shows "fsm_slots B page ! slot \<le> fp_nodes page ! 0"
proof -
  have "fsm_slots B page ! slot = fp_nodes page ! (NonLeafNodesPerPage B + slot)"
    using fsm_get_avail_slots[OF assms(1) fsm_consistent_wf[OF assms(2)] assms(3)]
    by (simp add: fsm_get_avail_def)
  then show ?thesis
    using fsm_node_le_root[OF assms(1,2)] assms(3) fsm_layout(6)[OF assms(1)] by simp
qed

section \<open>Setting a slot\<close>

lemma fsm_propagate_frame:
  "fsm_blcksz B \<Longrightarrow> length nodes = NodesPerPage B \<Longrightarrow> 0 < n \<Longrightarrow> n < NodesPerPage B \<Longrightarrow>
   length (fsm_propagate B n nodes) = NodesPerPage B \<and>
   (\<forall>i. NonLeafNodesPerPage B \<le> i \<longrightarrow> fsm_propagate B n nodes ! i = nodes ! i)"
proof (induction B n nodes rule: fsm_propagate.induct)
  case (1 B n nodes)
  have p: "parentof n < NonLeafNodesPerPage B" "parentof n < NodesPerPage B"
    using parentof_inner 1(2-) fsm_layout(2)[OF 1(2)] by (blast, metis order_less_trans parentof_inner)
  show ?case
    using 1(1)[OF refl refl refl refl refl refl _ refl] 1(2-) p
    by (subst (1 2) fsm_propagate.simps) (auto simp: Let_def)
qed

lemma fsm_propagate_unfold:
  assumes "leftchild (parentof n) < NodesPerPage B"
  shows "fsm_propagate B n nodes =
    (let p = parentof n; v = fsm_node_value B nodes p
     in if nodes ! p = v then nodes
        else if p > 0 then fsm_propagate B p (nodes[p := v]) else nodes[p := v])"
proof -
  have v: "(if leftchild (parentof n) + 1 < NodesPerPage B
      then max (nodes ! leftchild (parentof n)) (nodes ! (leftchild (parentof n) + 1))
      else nodes ! leftchild (parentof n)) = fsm_node_value B nodes (parentof n)"
    using assms by (simp add: fsm_node_value_def Let_def)
  show ?thesis by (subst fsm_propagate.simps) (simp only: Let_def v)
qed

lemma fsm_propagate_consistent:
  "fsm_blcksz B \<Longrightarrow> length nodes = NodesPerPage B \<Longrightarrow> 0 < n \<Longrightarrow> n < NodesPerPage B \<Longrightarrow>
   (\<And>i. i < NonLeafNodesPerPage B \<Longrightarrow> i \<noteq> parentof n \<Longrightarrow> nodes ! i = fsm_node_value B nodes i) \<Longrightarrow>
   i < NonLeafNodesPerPage B \<Longrightarrow>
   fsm_propagate B n nodes ! i = fsm_node_value B (fsm_propagate B n nodes) i"
proof (induction n arbitrary: nodes i rule: less_induct)
  case (less n)
  note 1 = less
  let ?p = "parentof n"
  let ?v = "fsm_node_value B nodes ?p"
  have p: "?p < NonLeafNodesPerPage B" "?p < NodesPerPage B"
    using parentof_inner 1(2-) fsm_layout(2)[OF 1(2)] by (blast, metis order_less_trans parentof_inner)
  have lchild: "leftchild ?p < NodesPerPage B"
    using 1(4,5) by (auto simp: parentof_def leftchild_def)
  note unf = fsm_propagate_unfold[OF lchild]
  show ?case
  proof (cases "nodes ! ?p = ?v")
    case True
    then show ?thesis using 1(6)[OF 1(7)] unf by (cases "i = ?p") (simp_all add: Let_def)
  next
    case False
    have upd: "nodes[?p := ?v] ! j = fsm_node_value B (nodes[?p := ?v]) j"
      if j: "j < NonLeafNodesPerPage B" "?p = 0 \<or> j \<noteq> parentof ?p" for j
    proof -
      have "?p \<noteq> leftchild j" "?p \<noteq> leftchild j + 1"
        using j(2) parentof_eq_iff[of ?p j] by (auto simp: leftchild_def)
      then have "fsm_node_value B (nodes[?p := ?v]) j = fsm_node_value B nodes j"
        by (rule fsm_node_value_update)
      then show ?thesis using 1(6)[OF j(1)] p 1(3) by (cases "j = ?p") simp_all
    qed
    show ?thesis
    proof (cases "?p = 0")
      case True
      then show ?thesis using False upd[OF 1(7)] unf by (simp add: Let_def)
    next
      case pos: False
      have "fsm_propagate B ?p (nodes[?p := ?v]) ! i =
          fsm_node_value B (fsm_propagate B ?p (nodes[?p := ?v])) i"
        using False pos lchild 1(2,3,7) p upd
        by (intro 1(1)) (auto intro: parentof_less 1(4))
      then show ?thesis using False pos unf by (simp add: Let_def)
    qed
  qed
qed

lemma fsm_set_avail_wf:
  assumes "fsm_blcksz B" "fsm_page_wf B page" "slot < LeafNodesPerPage B"
    "fsm_set_avail B page slot v = (changed, page')"
  shows "fsm_page_wf B page'" "fsm_slots B page' = (fsm_slots B page)[slot := v]"
    "fp_next_slot page' = fp_next_slot page" "v \<le> fp_nodes page' ! 0"
    "fsm_consistent B page \<Longrightarrow> fsm_consistent B page'"
    "changed \<longleftrightarrow> \<not> (fsm_get_avail B page slot = v \<and> v \<le> fp_nodes page ! 0)"
proof -
  let ?n = "NonLeafNodesPerPage B + slot"
  let ?ns = "(fp_nodes page)[?n := v]"
  let ?page = "page\<lparr>fp_nodes := fsm_propagate B ?n ?ns\<rparr>"
  note lay = fsm_layout[OF assms(1)]
  have n: "0 < ?n" "?n < NodesPerPage B" using lay assms(3) by simp_all
  have len: "length ?ns = NodesPerPage B" using assms(2) by (simp add: fsm_page_wf_def)
  note frame = fsm_propagate_frame[OF assms(1) len n]
  have wf: "fsm_page_wf B ?page" using frame by simp
  have slots: "fsm_slots B ?page = (fsm_slots B page)[slot := v]"
  proof (rule nth_equalityI)
    show "length (fsm_slots B ?page) = length ((fsm_slots B page)[slot := v])"
      using wf assms(2) by simp
    fix i
    assume "i < length (fsm_slots B ?page)"
    then have i: "NonLeafNodesPerPage B + i < NodesPerPage B" using wf lay(6) by simp
    then show "fsm_slots B ?page ! i = (fsm_slots B page)[slot := v] ! i"
      using frame assms(2) n by (auto simp: fsm_slots_def fsm_page_wf_def nth_list_update)
  qed
  have leaf: "fp_nodes ?page ! ?n = v"
    using frame n assms(2) by (simp add: fsm_page_wf_def)
  have cons: "fsm_consistent B ?page" if c: "fsm_consistent B page"
  proof -
    have "?ns ! i = fsm_node_value B ?ns i" if i: "i < NonLeafNodesPerPage B" "i \<noteq> parentof ?n" for i
    proof -
      have "fsm_node_value B ?ns i = fsm_node_value B (fp_nodes page) i"
        using i(2) parentof_eq_iff[OF n(1), of i] by (intro fsm_node_value_update) auto
      then show ?thesis using c i by (simp add: fsm_consistent_def)
    qed
    then show ?thesis
      using fsm_propagate_consistent[OF assms(1) len n] wf by (simp add: fsm_consistent_def)
  qed
  show "changed \<longleftrightarrow> \<not> (fsm_get_avail B page slot = v \<and> v \<le> fp_nodes page ! 0)"
    using assms(4) by (auto simp: fsm_set_avail_def fsm_get_avail_def Let_def split: if_splits)
  consider (same) "page' = page" "fp_nodes page ! ?n = v" "v \<le> fp_nodes page ! 0"
    | (ok) "page' = ?page" "v \<le> fp_nodes ?page ! 0"
    | (rebuild) "page' = snd (fsm_rebuild_page B ?page)"
    using assms(4) unfolding fsm_set_avail_def Let_def
    by (auto simp: not_less split: if_splits)
  then have "fsm_page_wf B page' \<and> fsm_slots B page' = (fsm_slots B page)[slot := v] \<and>
    fp_next_slot page' = fp_next_slot page \<and> v \<le> fp_nodes page' ! 0 \<and>
    (fsm_consistent B page \<longrightarrow> fsm_consistent B page')"
  proof cases
    case same
    then have "(fsm_slots B page)[slot := v] = fsm_slots B page"
      by (metis fsm_get_avail_def fsm_get_avail_slots assms(1-3) list_update_id)
    then show ?thesis using same assms(2) by simp
  next
    case ok
    then show ?thesis using wf slots cons by simp
  next
    case rebuild
    obtain c p where r: "fsm_rebuild_page B ?page = (c, p)" by force
    then have p: "page' = p" using rebuild by simp
    note props = fsm_rebuild_page_props[OF assms(1) wf r]
    have "fp_nodes p ! ?n = v"
      using props(2) slots n lay(2,6) assms(2,3) fsm_consistent_wf[OF props(1)]
        fsm_get_avail_slots[OF assms(1) _ assms(3), of p] by (simp add: fsm_get_avail_def)
    then have "v \<le> fp_nodes p ! 0"
      using fsm_node_le_root[OF assms(1) props(1) n(2)] by simp
    then show ?thesis using p props slots fsm_consistent_wf[OF props(1)] by simp
  qed
  then show "fsm_page_wf B page'" "fsm_slots B page' = (fsm_slots B page)[slot := v]"
    "fp_next_slot page' = fp_next_slot page" "v \<le> fp_nodes page' ! 0"
    "fsm_consistent B page \<Longrightarrow> fsm_consistent B page'" by blast+
qed

section \<open>Searching\<close>

lemma fsm_climb_le: "fsm_climb nodes minv n \<le> n"
proof (induction nodes minv n rule: fsm_climb.induct)
  case (1 nodes minv n)
  then show ?case
    using parentof_rightneighbor_less[of n] by (subst fsm_climb.simps) fastforce
qed

lemma fsm_climb_value: "minv \<le> nodes ! 0 \<Longrightarrow> minv \<le> nodes ! fsm_climb nodes minv n"
proof (induction nodes minv n rule: fsm_climb.induct)
  case (1 nodes minv n)
  then show ?case by (subst fsm_climb.simps) simp
qed

lemma fsm_climb_stop: "minv \<le> nodes ! n \<Longrightarrow> fsm_climb nodes minv n = n"
  by (subst fsm_climb.simps) simp

lemma fsm_target_bounds:
  assumes "fsm_blcksz B"
  shows "NonLeafNodesPerPage B \<le> fsm_target B page" "fsm_target B page < NodesPerPage B"
  using fsm_layout[OF assms] by (auto simp: fsm_target_def Let_def not_le)

lemma fsm_descend_sound:
  "fsm_descend B nodes minv n = Some m \<Longrightarrow> n < NodesPerPage B \<Longrightarrow> minv \<le> nodes ! n \<Longrightarrow>
   NonLeafNodesPerPage B \<le> m \<and> m < NodesPerPage B \<and> minv \<le> nodes ! m"
proof (induction B nodes minv n rule: fsm_descend.induct)
  case (1 B nodes minv n)
  show ?case
    using 1(3)[unfolded fsm_descend.simps[of B nodes minv n]] 1(1)[OF _ refl] 1(2)[OF _ refl _ refl] 1(4,5)
    by (auto simp: Let_def split: if_splits)
qed

text \<open>On a consistent page a positive value at a node is found at one of its children.\<close>

lemma fsm_node_value_child:
  assumes "minv \<le> fsm_node_value B nodes n" "minv \<noteq> 0"
  shows "(leftchild n < NodesPerPage B \<and> minv \<le> nodes ! leftchild n) \<or>
    (leftchild n + 1 < NodesPerPage B \<and> minv \<le> nodes ! (leftchild n + 1))"
  using assms by (auto simp: fsm_node_value_def Let_def le_max_iff_disj split: if_splits)

lemma fsm_descend_complete:
  assumes "fsm_consistent B page" "minv \<noteq> 0"
  shows "minv \<le> fp_nodes page ! n \<Longrightarrow> n < NodesPerPage B \<Longrightarrow>
    \<exists>m. fsm_descend B (fp_nodes page) minv n = Some m"
proof (induction "NonLeafNodesPerPage B - n" arbitrary: n rule: less_induct)
  case less
  show ?case
  proof (cases "n < NonLeafNodesPerPage B")
    case True
    have "minv \<le> fsm_node_value B (fp_nodes page) n"
      using less.prems assms True by (simp add: fsm_consistent_def)
    from fsm_node_value_child[OF this assms(2)] True show ?thesis
      using less.hyps[of "leftchild n"] less.hyps[of "leftchild n + 1"]
      by (subst fsm_descend.simps) (auto simp: Let_def leftchild_def)
  qed (simp add: fsm_descend.simps)
qed

text \<open>One round of the search, up to the restart.\<close>

abbreviation fsm_round :: "nat \<Rightarrow> FSMPageData \<Rightarrow> uint8 \<Rightarrow> nat option" where
  "fsm_round B page minv \<equiv>
     fsm_descend B (fp_nodes page) minv (fsm_climb (fp_nodes page) minv (fsm_target B page))"

lemma fsm_round_consistent:
  assumes "fsm_blcksz B" "fsm_consistent B page" "minv \<le> fp_nodes page ! 0"
  shows "\<exists>m. fsm_round B page minv = Some m"
proof (cases "minv = 0")
  case True
  then have "fsm_climb (fp_nodes page) minv (fsm_target B page) = fsm_target B page"
    by (intro fsm_climb_stop) simp
  then show ?thesis using fsm_target_bounds(1)[OF assms(1), of page]
    by (subst fsm_descend.simps) (simp add: not_less)
next
  case False
  have "fsm_climb (fp_nodes page) minv (fsm_target B page) < NodesPerPage B"
    using fsm_climb_le fsm_target_bounds(2)[OF assms(1)] by (meson order_le_less_trans)
  then show ?thesis
    using fsm_descend_complete[OF assms(2) False] fsm_climb_value[OF assms(3)] by blast
qed

definition fsm_found :: "nat \<Rightarrow> FSMPageData \<Rightarrow> uint8 \<Rightarrow> bool \<Rightarrow> int \<times> FSMPageData \<Rightarrow> bool" where
  "fsm_found B page minv advancenext r \<longleftrightarrow> (\<exists>slot < LeafNodesPerPage B.
     r = (int slot, page\<lparr>fp_next_slot := int slot + (if advancenext then 1 else 0)\<rparr>) \<and>
     minv \<le> fsm_slots B page ! slot \<and>
     (minv \<le> fp_nodes page ! fsm_target B page \<longrightarrow> NonLeafNodesPerPage B + slot = fsm_target B page))"

lemma fsm_round_found:
  assumes "fsm_blcksz B" "fsm_page_wf B page" "minv \<le> fp_nodes page ! 0"
    "fsm_round B page minv = Some m"
  shows "\<exists>r. fsm_search_avail B page minv advancenext = Some r \<and> fsm_found B page minv advancenext r"
proof -
  note lay = fsm_layout[OF assms(1)]
  let ?slot = "m - NonLeafNodesPerPage B"
  have "fsm_climb (fp_nodes page) minv (fsm_target B page) < NodesPerPage B"
    using fsm_climb_le fsm_target_bounds(2)[OF assms(1)] by (meson order_le_less_trans)
  then have m: "NonLeafNodesPerPage B \<le> m" "m < NodesPerPage B" "minv \<le> fp_nodes page ! m"
    using fsm_descend_sound[OF assms(4)] fsm_climb_value[OF assms(3)] by blast+
  have slot: "uint (of_nat ?slot :: uint16) = int ?slot"
  proof -
    have "?slot < 65536" using m lay(5,6) by linarith
    then have "unat (of_nat ?slot :: uint16) = ?slot" by (simp add: unat_of_nat take_bit_nat_eq_self del: of_nat_diff)
    then show ?thesis by (simp only: uint_nat)
  qed
  have "m = fsm_target B page" if "minv \<le> fp_nodes page ! fsm_target B page"
  proof -
    have "fsm_climb (fp_nodes page) minv (fsm_target B page) = fsm_target B page"
      by (rule fsm_climb_stop[OF that])
    then show ?thesis
      using assms(4) fsm_target_bounds(1)[OF assms(1), of page]
      by (subst (asm) fsm_descend.simps) (simp add: not_less)
  qed
  moreover have "fsm_slots B page ! ?slot = fp_nodes page ! m"
    using m assms(2) by (simp add: fsm_slots_def fsm_page_wf_def)
  ultimately have "fsm_found B page minv advancenext
      (int ?slot, page\<lparr>fp_next_slot := int ?slot + (if advancenext then 1 else 0)\<rparr>)"
    unfolding fsm_found_def using m lay(6) by (intro exI[of _ ?slot]) auto
  moreover have "fsm_search_avail B page minv advancenext =
      Some (int ?slot, page\<lparr>fp_next_slot := int ?slot + (if advancenext then 1 else 0)\<rparr>)"
    using assms(3,4) by (subst fsm_search_avail.simps) (simp add: slot Let_def not_less)
  ultimately show ?thesis by blast
qed

text \<open>
  The search returns on every page: on a page whose promises are kept it needs one round, on
  a torn one a second round over the rebuilt page.
\<close>

lemma fsm_search_avail_cases:
  assumes "fsm_blcksz B" "fsm_page_wf B page"
  obtains (none) "fsm_search_avail B page minv advancenext = Some (- 1, page)"
      "fp_nodes page ! 0 < minv"
  | (found) r where "fsm_search_avail B page minv advancenext = Some r"
      "fsm_found B page minv advancenext r" "minv \<le> fp_nodes page ! 0"
  | (rebuilt_none) page' where "fsm_search_avail B page minv advancenext = Some (- 1, page')"
      "page' = snd (fsm_rebuild_page B page)" "fp_nodes page' ! 0 < minv" "\<not> fsm_consistent B page"
  | (rebuilt_found) page' r where "fsm_search_avail B page minv advancenext = Some r"
      "page' = snd (fsm_rebuild_page B page)" "fsm_found B page' minv advancenext r"
      "\<not> fsm_consistent B page"
proof (cases "fp_nodes page ! 0 < minv")
  case True
  then show ?thesis using none by (simp add: fsm_search_avail.simps)
next
  case False
  then have root: "minv \<le> fp_nodes page ! 0" by simp
  show ?thesis
  proof (cases "fsm_round B page minv")
    case (Some m)
    then show ?thesis using fsm_round_found[OF assms root] root found by blast
  next
    case None
    obtain c page' where r: "fsm_rebuild_page B page = (c, page')" by force
    note props = fsm_rebuild_page_props[OF assms r]
    have "\<not> fsm_consistent B page" using None fsm_round_consistent[OF assms(1) _ root] by auto
    moreover have "fsm_search_avail B page minv advancenext = fsm_search_avail B page' minv advancenext"
      using False None by (subst fsm_search_avail.simps) (simp add: r)
    moreover have "page' = snd (fsm_rebuild_page B page)" by (simp add: r)
    moreover have "fsm_search_avail B page' minv advancenext = Some (- 1, page')"
      if "fp_nodes page' ! 0 < minv" using that by (simp add: fsm_search_avail.simps)
    moreover have "\<exists>r. fsm_search_avail B page' minv advancenext = Some r \<and> fsm_found B page' minv advancenext r"
      if "\<not> fp_nodes page' ! 0 < minv"
      using that fsm_round_found[OF assms(1) fsm_consistent_wf[OF props(1)]]
        fsm_round_consistent[OF assms(1) props(1), of minv] by (metis not_less)
    ultimately show ?thesis using rebuilt_none[of page'] rebuilt_found[of _ page'] by metis
  qed
qed

section \<open>Truncating\<close>

lemma fsm_truncate_loop:
  assumes "m \<le> length nodes"
  shows "fold fsm_truncate_step [m..<length nodes] (False, nodes) =
    ((\<exists>i. m \<le> i \<and> i < length nodes \<and> nodes ! i \<noteq> 0), take m nodes @ replicate (length nodes - m) 0)"
proof -
  let ?I = "\<lambda>k (changed, ns). length ns = length nodes \<and>
    (changed \<longleftrightarrow> (\<exists>i. m \<le> i \<and> i < k \<and> nodes ! i \<noteq> 0)) \<and>
    (\<forall>i < length nodes. ns ! i = (if m \<le> i \<and> i < k then 0 else nodes ! i))"
  have "?I (length nodes) (fold fsm_truncate_step [m..<length nodes] (False, nodes))"
    by (rule fold_upt_rule)
      (use assms in \<open>auto simp: fsm_truncate_step_def nth_list_update less_Suc_eq split: prod.splits\<close>)
  then show ?thesis
    using assms by (auto intro!: nth_equalityI simp: nth_append split: prod.splits)
qed

lemma fsm_truncate_avail_props:
  assumes "fsm_blcksz B" "fsm_page_wf B page" "nslots < LeafNodesPerPage B"
    "fsm_truncate_avail B page nslots = (changed, page')"
  shows "fsm_page_wf B page'"
    "fsm_slots B page' = take nslots (fsm_slots B page) @ replicate (LeafNodesPerPage B - nslots) 0"
    "changed \<longleftrightarrow> (\<exists>slot. nslots \<le> slot \<and> slot < LeafNodesPerPage B \<and> fsm_slots B page ! slot \<noteq> 0)"
    "fsm_consistent B page \<Longrightarrow> fsm_consistent B page'"
    "fp_next_slot page' = fp_next_slot page"
proof -
  let ?N = "NonLeafNodesPerPage B" and ?m = "NonLeafNodesPerPage B + nslots"
  note lay = fsm_layout[OF assms(1)]
  have len: "length (fp_nodes page) = NodesPerPage B" using assms(2) by (simp add: fsm_page_wf_def)
  let ?ns = "take ?m (fp_nodes page) @ replicate (NodesPerPage B - ?m) 0"
  let ?page = "page\<lparr>fp_nodes := ?ns\<rparr>"
  let ?c = "\<exists>i. ?m \<le> i \<and> i < NodesPerPage B \<and> fp_nodes page ! i \<noteq> 0"
  have eq: "changed = ?c" "page' = (if changed then snd (fsm_rebuild_page B ?page) else ?page)"
    using assms(3,4) lay(6) fsm_truncate_loop[of ?m "fp_nodes page"] len
    by (auto simp: fsm_truncate_avail_def Let_def)
  have wf: "fsm_page_wf B ?page" using assms(3) lay(6) len by simp
  have slots: "fsm_slots B ?page = take nslots (fsm_slots B page) @ replicate (LeafNodesPerPage B - nslots) 0"
    using assms(3) lay(6) len by (simp add: fsm_slots_def take_drop add.commute)
  show c: "changed \<longleftrightarrow> (\<exists>slot. nslots \<le> slot \<and> slot < LeafNodesPerPage B \<and> fsm_slots B page ! slot \<noteq> 0)"
  proof -
    have "?c \<longleftrightarrow> (\<exists>slot. nslots \<le> slot \<and> slot < LeafNodesPerPage B \<and> fp_nodes page ! (?N + slot) \<noteq> 0)"
      using lay(6) by (auto simp: le_iff_add add.assoc)
    then show ?thesis using lay(2) len by (simp add: eq(1) fsm_slots_def)
  qed
  obtain d p where r: "fsm_rebuild_page B ?page = (d, p)" by force
  note props = fsm_rebuild_page_props[OF assms(1) wf r]
  have id: "?ns = fp_nodes page" if "\<not> changed"
    using that len assms(3) lay(6) unfolding eq(1)
    by (intro nth_equalityI) (auto simp: nth_append)
  show "fsm_page_wf B page'" using eq(2) wf r fsm_consistent_wf[OF props(1)] by simp
  show "fsm_slots B page' = take nslots (fsm_slots B page) @ replicate (LeafNodesPerPage B - nslots) 0"
    using eq(2) slots r props(2) by simp
  show "fsm_consistent B page \<Longrightarrow> fsm_consistent B page'"
    using eq(2) r props(1) id by (cases changed) simp_all
  show "fp_next_slot page' = fp_next_slot page" using eq(2) r props(3) by simp
qed

lemma fsm_search_avail_ok:
  assumes "fsm_blcksz B" "fsm_page_wf B page"
  shows "\<exists>r page'. fsm_search_avail B page minv advancenext = Some (r, page') \<and>
    fsm_page_wf B page' \<and> fsm_slots B page' = fsm_slots B page \<and>
    (fsm_consistent B page \<longrightarrow> fsm_consistent B page') \<and>
    (if r = - 1 then fp_nodes page ! 0 < minv \<or> (\<forall>slot < LeafNodesPerPage B. fsm_slots B page ! slot < minv)
     else 0 \<le> r \<and> nat r < LeafNodesPerPage B \<and> minv \<le> fsm_slots B page ! nat r)"
proof -
  obtain c p where r: "fsm_rebuild_page B page = (c, p)" by force
  note props = fsm_rebuild_page_props[OF assms r]
  show ?thesis
  proof (rule fsm_search_avail_cases[OF assms, where minv = minv and advancenext = advancenext])
    assume "fsm_search_avail B page minv advancenext = Some (- 1, page)" "fp_nodes page ! 0 < minv"
    then show ?thesis using assms by simp
  next
    fix r'
    assume s: "fsm_search_avail B page minv advancenext = Some r'" "fsm_found B page minv advancenext r'"
    obtain slot where "slot < LeafNodesPerPage B" "minv \<le> fsm_slots B page ! slot"
      "r' = (int slot, page\<lparr>fp_next_slot := int slot + (if advancenext then 1 else 0)\<rparr>)"
      using s(2) unfolding fsm_found_def by blast
    then show ?thesis using s(1) assms by simp
  next
    fix page'
    assume s: "fsm_search_avail B page minv advancenext = Some (- 1, page')"
      "page' = snd (fsm_rebuild_page B page)" "fp_nodes page' ! 0 < minv"
    have "fsm_slots B page ! slot < minv" if slot: "slot < LeafNodesPerPage B" for slot
      using fsm_slot_le_root[OF assms(1) props(1) slot] props(2) s r by simp
    then show ?thesis using s r props fsm_consistent_wf by simp
  next
    fix page' r'
    assume s: "fsm_search_avail B page minv advancenext = Some r'"
      "page' = snd (fsm_rebuild_page B page)" "fsm_found B page' minv advancenext r'"
    then have p: "page' = p" using r by simp
    obtain slot where "slot < LeafNodesPerPage B" "minv \<le> fsm_slots B p ! slot"
      "r' = (int slot, p\<lparr>fp_next_slot := int slot + (if advancenext then 1 else 0)\<rparr>)"
      using s(3) unfolding p fsm_found_def by blast
    then show ?thesis using s(1) props(1,2) fsm_consistent_wf[OF props(1)] by simp
  qed
qed

text \<open>The root of a consistent page is the largest slot.\<close>

lemma fsm_root_is_max:
  assumes "fsm_blcksz B" "fsm_consistent B page"
  shows "fp_nodes page ! 0 = Max (set (fsm_slots B page))"
proof -
  have wf: "fsm_page_wf B page" by (rule fsm_consistent_wf[OF assms(2)])
  have ne: "fsm_slots B page \<noteq> []"
    using fsm_layout(4)[OF assms(1)] length_fsm_slots[OF wf] by fastforce
  have "x \<le> fp_nodes page ! 0" if x: "x \<in> set (fsm_slots B page)" for x
  proof -
    obtain i where "i < length (fsm_slots B page)" "x = fsm_slots B page ! i"
      using x by (auto simp: in_set_conv_nth)
    then show ?thesis using fsm_slot_le_root[OF assms] length_fsm_slots[OF wf] by simp
  qed
  moreover have "\<exists>x \<in> set (fsm_slots B page). fp_nodes page ! 0 \<le> x"
  proof -
    obtain m where m: "fsm_round B page (fp_nodes page ! 0) = Some m"
      using fsm_round_consistent[OF assms] by blast
    obtain r where "fsm_found B page (fp_nodes page ! 0) False r"
      using fsm_round_found[OF assms(1) wf order_refl m] by blast
    then show ?thesis using wf by (auto simp: fsm_found_def intro!: bexI nth_mem)
  qed
  ultimately have "fp_nodes page ! 0 \<in> set (fsm_slots B page)" by (metis order_antisym)
  then show ?thesis
    using \<open>\<And>x. x \<in> set (fsm_slots B page) \<Longrightarrow> x \<le> fp_nodes page ! 0\<close>
    by (intro Max_eqI[symmetric]) auto
qed

section \<open>The page as a black box of slots\<close>

text \<open>
  What \<open>freespace.cpp\<close> relies on: the operations see the page as an array of slots with a
  promise (the root value) about the largest of them.
\<close>

locale slot_page =
  fixes wf :: "'p \<Rightarrow> bool"
    and slots :: "'p \<Rightarrow> uint8 list"
    and nslots :: nat
    and promise :: "'p \<Rightarrow> uint8"
    and setav :: "'p \<Rightarrow> nat \<Rightarrow> uint8 \<Rightarrow> bool \<times> 'p"
    and search :: "'p \<Rightarrow> uint8 \<Rightarrow> bool \<Rightarrow> (int \<times> 'p) option"
  assumes length_slots: "wf p \<Longrightarrow> length (slots p) = nslots"
    and set_ok: "wf p \<Longrightarrow> s < nslots \<Longrightarrow> setav p s v = (c, p') \<Longrightarrow>
      wf p' \<and> slots p' = (slots p)[s := v] \<and> v \<le> promise p'"
    and search_ok: "wf p \<Longrightarrow> \<exists>r p'. search p m adv = Some (r, p') \<and> wf p' \<and> slots p' = slots p \<and>
      (if r = - 1 then promise p < m \<or> (\<forall>s < nslots. slots p ! s < m)
       else 0 \<le> r \<and> nat r < nslots \<and> m \<le> slots p ! nat r)"
begin

text \<open>A search for no more than what was just recorded succeeds, whatever the page was before.\<close>

lemma search_after_set:
  assumes "wf p" "s < nslots" "setav p s v = (c, p')" "m \<le> v"
  shows "\<exists>r p''. search p' m adv = Some (int r, p'') \<and> r < nslots \<and> m \<le> (slots p)[s := v] ! r \<and>
    wf p'' \<and> slots p'' = (slots p)[s := v]"
proof -
  have p': "wf p'" "slots p' = (slots p)[s := v]" "v \<le> promise p'"
    using set_ok[OF assms(1-3)] by auto
  obtain r p'' where r: "search p' m adv = Some (r, p'')" "wf p''" "slots p'' = slots p'"
    "if r = - 1 then promise p' < m \<or> (\<forall>s < nslots. slots p' ! s < m)
     else 0 \<le> r \<and> nat r < nslots \<and> m \<le> slots p' ! nat r"
    using search_ok[OF p'(1)] by blast
  have "slots p' ! s = v" using p'(2) assms(1,2) length_slots by simp
  then have "r \<noteq> - 1" using r(4) p'(3) assms(2,4) by (meson leD order_trans)
  then have "search p' m adv = Some (int (nat r), p'')" "nat r < nslots" "m \<le> slots p' ! nat r"
    using r by simp_all
  then show ?thesis using r(2,3) p'(2) by (intro exI[of _ "nat r"] exI[of _ p'']) simp
qed

end

interpretation fsm: slot_page "\<lambda>p. fsm_blcksz B \<and> fsm_page_wf B p" "fsm_slots B" "LeafNodesPerPage B"
  fsm_get_max_avail "fsm_set_avail B" "fsm_search_avail B" for B
proof unfold_locales
  fix p p' :: FSMPageData and s v c
  show "fsm_blcksz B \<and> fsm_page_wf B p \<Longrightarrow> length (fsm_slots B p) = LeafNodesPerPage B" by simp
  show "fsm_blcksz B \<and> fsm_page_wf B p \<Longrightarrow> s < LeafNodesPerPage B \<Longrightarrow>
      fsm_set_avail B p s v = (c, p') \<Longrightarrow>
      (fsm_blcksz B \<and> fsm_page_wf B p') \<and> fsm_slots B p' = (fsm_slots B p)[s := v] \<and>
      v \<le> fsm_get_max_avail p'"
    using fsm_set_avail_wf by (auto simp: fsm_get_max_avail_def)
next
  fix p m adv
  assume "fsm_blcksz B \<and> fsm_page_wf B p"
  then show "\<exists>r p'. fsm_search_avail B p m adv = Some (r, p') \<and> (fsm_blcksz B \<and> fsm_page_wf B p') \<and>
      fsm_slots B p' = fsm_slots B p \<and>
      (if r = - 1 then fsm_get_max_avail p < m \<or> (\<forall>s < LeafNodesPerPage B. fsm_slots B p ! s < m)
       else 0 \<le> r \<and> nat r < LeafNodesPerPage B \<and> m \<le> fsm_slots B p ! nat r)"
    using fsm_search_avail_ok[of B p m adv] unfolding fsm_get_max_avail_def by blast
qed

section \<open>Properties of a free space map page\<close>

abbreviation fsm_zero_page :: "nat \<Rightarrow> FSMPageData" where
  "fsm_zero_page B \<equiv> \<lparr>fp_next_slot = 0, fp_nodes = replicate (NodesPerPage B) 0\<rparr>"

lemma fsm_zero_64:
  "fsm_blcksz 64" "fsm_page_wf 64 (fsm_zero_page 64)" "LeafNodesPerPage 64 = 5"
  by (simp_all add: fsm_blcksz_def fsm_page_wf_def LeafNodesPerPage_def NodesPerPage_def
      NonLeafNodesPerPage_def)

text \<open>C22: recording a value in a slot changes that slot only, keeps the tree consistent, and makes
  the root promise at least the recorded value even on a torn page, where the page is rebuilt;
  the result tells whether there was anything to do.\<close>

theorem fsm_set_avail_correct:
  assumes "fsm_blcksz B" "fsm_page_wf B page" "slot < LeafNodesPerPage B"
    "fsm_set_avail B page slot v = (changed, page')"
  shows "fsm_page_wf B page' \<and> fsm_slots B page' = (fsm_slots B page)[slot := v] \<and>
    fp_next_slot page' = fp_next_slot page \<and> v \<le> fsm_get_max_avail page' \<and>
    (fsm_consistent B page \<longrightarrow> fsm_consistent B page') \<and>
    (changed \<longleftrightarrow> \<not> (fsm_get_avail B page slot = v \<and> v \<le> fsm_get_max_avail page))"
  using fsm_set_avail_wf[OF assms] by (auto simp: fsm_get_max_avail_def)

theorem fsm_set_avail_correct_witness:
  "fsm_slots 64 (snd (fsm_set_avail 64 (fsm_zero_page 64) 2 7)) = (fsm_slots 64 (fsm_zero_page 64))[2 := 7]"
proof -
  obtain c p where r: "fsm_set_avail 64 (fsm_zero_page 64) 2 7 = (c, p)" by force
  have "2 < LeafNodesPerPage 64" by (simp add: fsm_zero_64(3))
  then show ?thesis using fsm_set_avail_correct[OF fsm_zero_64(1,2) _ r] r by simp
qed

text \<open>C17: the search of a page always returns. It keeps the slots; a slot that it returns holds at
  least the requested value; on a consistent page it fails exactly when no slot does, and when
  the hinted slot is good enough it is the one returned.\<close>

theorem fsm_search_avail_correct:
  assumes "fsm_blcksz B" "fsm_page_wf B page"
  shows "\<exists>r page'. fsm_search_avail B page minvalue advancenext = Some (r, page') \<and>
    fsm_page_wf B page' \<and> fsm_slots B page' = fsm_slots B page \<and>
    (r \<noteq> - 1 \<longrightarrow> 0 \<le> r \<and> nat r < LeafNodesPerPage B \<and> minvalue \<le> fsm_slots B page ! nat r \<and>
       fp_next_slot page' = r + (if advancenext then 1 else 0)) \<and>
    (fsm_consistent B page \<longrightarrow> fsm_consistent B page' \<and>
       (r = - 1 \<longleftrightarrow> (\<forall>slot < LeafNodesPerPage B. fsm_slots B page ! slot < minvalue)) \<and>
       (minvalue \<le> fp_nodes page ! fsm_target B page \<longrightarrow>
          int (NonLeafNodesPerPage B) + r = int (fsm_target B page)))"
proof -
  obtain r page' where r: "fsm_search_avail B page minvalue advancenext = Some (r, page')"
    "fsm_page_wf B page'" "fsm_slots B page' = fsm_slots B page"
    "fsm_consistent B page \<longrightarrow> fsm_consistent B page'"
    "if r = - 1 then fp_nodes page ! 0 < minvalue \<or> (\<forall>slot < LeafNodesPerPage B. fsm_slots B page ! slot < minvalue)
     else 0 \<le> r \<and> nat r < LeafNodesPerPage B \<and> minvalue \<le> fsm_slots B page ! nat r"
    using fsm_search_avail_ok[OF assms] by blast
  have next_slot: "fp_next_slot page' = r + (if advancenext then 1 else 0)" if "r \<noteq> - 1"
    by (rule fsm_search_avail_cases[OF assms, of minvalue advancenext])
      (use r(1) that in \<open>auto simp: fsm_found_def\<close>)
  have root: "fp_nodes page ! 0 < minvalue \<Longrightarrow> fsm_consistent B page \<Longrightarrow>
      slot < LeafNodesPerPage B \<Longrightarrow> fsm_slots B page ! slot < minvalue" for slot
    using fsm_slot_le_root[OF assms(1)] order_le_less_trans by blast
  have hint: "int (NonLeafNodesPerPage B) + r = int (fsm_target B page)"
    if "fsm_consistent B page" "minvalue \<le> fp_nodes page ! fsm_target B page"
  proof -
    have "minvalue \<le> fp_nodes page ! 0"
      using that fsm_node_le_root[OF assms(1) that(1) fsm_target_bounds(2)[OF assms(1)]]
      by (meson order_trans)
    then show ?thesis
      by (rule_tac fsm_search_avail_cases[OF assms, of minvalue advancenext])
        (use r(1) that in \<open>auto simp: fsm_found_def\<close>)
  qed
  have "fsm_consistent B page \<longrightarrow>
      (r = - 1 \<longleftrightarrow> (\<forall>slot < LeafNodesPerPage B. fsm_slots B page ! slot < minvalue))"
    using r(5) root by (auto split: if_splits simp: not_less[symmetric])
  then show ?thesis using r(1-5) next_slot hint by (intro exI[of _ r] exI[of _ page']) presburger
qed

theorem fsm_search_avail_correct_witness:
  "\<exists>r page'. fsm_search_avail 64 (fsm_zero_page 64) 3 True = Some (r, page') \<and>
     fsm_slots 64 page' = fsm_slots 64 (fsm_zero_page 64)"
  using fsm_search_avail_correct[OF fsm_zero_64(1,2), of 3 True] by blast

text \<open>rebuilding makes any page consistent without touching its slots, reports whether it
  changed anything, and after it the root is the largest slot.\<close>

theorem fsm_rebuild_page_correct:
  assumes "fsm_blcksz B" "fsm_page_wf B page" "fsm_rebuild_page B page = (changed, page')"
  shows "fsm_consistent B page' \<and> fsm_slots B page' = fsm_slots B page \<and>
    (changed \<longleftrightarrow> page' \<noteq> page) \<and> fsm_get_max_avail page' = Max (set (fsm_slots B page))"
  using fsm_rebuild_page_props[OF assms] fsm_root_is_max[OF assms(1)]
  by (simp add: fsm_get_max_avail_def)

theorem fsm_rebuild_page_correct_witness:
  "fsm_consistent 64 (snd (fsm_rebuild_page 64 (fsm_zero_page 64)))"
proof -
  obtain c p where r: "fsm_rebuild_page 64 (fsm_zero_page 64) = (c, p)" by force
  show ?thesis using fsm_rebuild_page_correct[OF fsm_zero_64(1,2) r] r by simp
qed

text \<open>truncating clears the slots from the given one on, keeps the others and the
  consistency of the tree, and reports whether a non-zero slot was cleared.\<close>

theorem fsm_truncate_avail_correct:
  assumes "fsm_blcksz B" "fsm_page_wf B page" "nslots < LeafNodesPerPage B"
    "fsm_truncate_avail B page nslots = (changed, page')"
  shows "fsm_slots B page' = take nslots (fsm_slots B page) @ replicate (LeafNodesPerPage B - nslots) 0 \<and>
    fsm_page_wf B page' \<and> (fsm_consistent B page \<longrightarrow> fsm_consistent B page') \<and>
    (changed \<longleftrightarrow> (\<exists>slot. nslots \<le> slot \<and> slot < LeafNodesPerPage B \<and> fsm_slots B page ! slot \<noteq> 0))"
  using fsm_truncate_avail_props[OF assms] by blast

theorem fsm_truncate_avail_correct_witness:
  "fsm_slots 64 (snd (fsm_truncate_avail 64 (fsm_zero_page 64) 2)) =
     take 2 (fsm_slots 64 (fsm_zero_page 64)) @ replicate 3 0"
proof -
  obtain c p where r: "fsm_truncate_avail 64 (fsm_zero_page 64) 2 = (c, p)" by force
  have "2 < LeafNodesPerPage 64" by (simp add: fsm_zero_64(3))
  then show ?thesis using fsm_truncate_avail_correct[OF fsm_zero_64(1,2) _ r] r fsm_zero_64(3) by simp
qed

end
