(* ===== verification/Free_Space.thy ===== *)
theory Free_Space
  imports Fsm_Page
begin

text \<open>
  The free space map of a relation, \<open>src/gausskernel/storage/freespace/freespace.cpp\<close>,
  \<open>indexfsm.cpp\<close> and \<open>src/include/storage/freespace.h\<close>: a tree of three or four levels of
  FSM pages in the FSM fork, the categories of free space, the logical addresses and their
  physical blocks, recording, searching, vacuuming and truncating. The state is the FSM fork
  (absent, or a list of pages, a page that was never initialised being marked new) and the
  size of the fork that the relation's storage handle caches. The model is sequential: buffer
  pins and locks, dirty marks, page LSNs, WAL records and the tablespace quota are left out.
\<close>

section \<open>Categories of free space\<close>

definition FSM_CAT_STEP :: "nat \<Rightarrow> nat" where
  "FSM_CAT_STEP B = B div 256"

text \<open>\<open>MaxHeapTupleSize\<close>: the heap page header (40 bytes) and one item identifier, aligned.\<close>

definition MaxFSMRequestSize :: "nat \<Rightarrow> nat" where
  "MaxFSMRequestSize B = B - 48"

definition fsm_space_avail_to_cat :: "nat \<Rightarrow> nat \<Rightarrow> uint8" where
  "fsm_space_avail_to_cat B avail =
     (if avail \<ge> MaxFSMRequestSize B then 255
      else let cat = avail div FSM_CAT_STEP B; cat = (if cat > 254 then 254 else cat)
           in of_nat cat)"

definition fsm_space_cat_to_avail :: "nat \<Rightarrow> uint8 \<Rightarrow> nat" where
  "fsm_space_cat_to_avail B cat =
     (if cat = 255 then MaxFSMRequestSize B else unat cat * FSM_CAT_STEP B)"

definition fsm_space_needed_to_cat :: "nat \<Rightarrow> nat \<Rightarrow> uint8 result" where
  "fsm_space_needed_to_cat B needed =
     (if needed > MaxFSMRequestSize B then Inl ERRCODE_DATATYPE_MISMATCH
      else if needed = 0 then Inr 1
      else let cat = (needed + FSM_CAT_STEP B - 1) div FSM_CAT_STEP B;
               cat = (if cat > 255 then 255 else cat)
           in Inr (of_nat cat))"

section \<open>Logical addresses\<close>

text \<open>
  The members of an address are C \<open>int\<close>s. The page number is kept as its bit pattern, a number
  below \<open>2 ^ 32\<close>: sums and products then wrap around modulo \<open>2 ^ 32\<close> whatever the sign.
  \<open>SlotsPerFSMPage\<close> has the type \<open>size_t\<close>, so that a division converts its operand to 64 bits
  first, where the sign of the \<open>int\<close> does matter. \<open>BlockNumber\<close> is an unsigned 32-bit
  integer; a slot number is below 16384 and fits its 16 bits.
\<close>

record FSMAddress =
  level :: nat
  logpageno :: nat

definition int_to_size_t :: "nat \<Rightarrow> nat" where
  "int_to_size_t x = (if x < 2147483648 then x else x + 18446744069414584320)"

definition FSM_TREE_DEPTH :: "nat \<Rightarrow> nat" where
  "FSM_TREE_DEPTH B = (if SlotsPerFSMPage B \<ge> 1626 then 3 else 4)"

definition FSM_ROOT_LEVEL :: "nat \<Rightarrow> nat" where
  "FSM_ROOT_LEVEL B = FSM_TREE_DEPTH B - 1"

abbreviation (input) FSM_BOTTOM_LEVEL :: nat where
  "FSM_BOTTOM_LEVEL \<equiv> 0"

definition g_fsm_root_address :: "nat \<Rightarrow> FSMAddress" where
  "g_fsm_root_address B = \<lparr>level = FSM_ROOT_LEVEL B, logpageno = 0\<rparr>"

definition fsm_logical_to_physical :: "nat \<Rightarrow> FSMAddress \<Rightarrow> BlockNumber" where
  "fsm_logical_to_physical B addr =
     (let leafno = fold (\<lambda>l leafno. leafno * SlotsPerFSMPage B mod 4294967296)
            [0..<level addr] (logpageno addr);
          (pages, leafno) = fold (\<lambda>l (pages, leafno). ((pages + leafno + 1) mod 4294967296,
              int_to_size_t leafno div SlotsPerFSMPage B mod 4294967296))
            [0..<FSM_TREE_DEPTH B] (0, leafno);
          pages = (pages + 4294967296 - level addr) mod 4294967296
      in (pages + 4294967296 - 1) mod 4294967296)"

definition fsm_get_location :: "nat \<Rightarrow> BlockNumber \<Rightarrow> FSMAddress \<times> nat" where
  "fsm_get_location B heapblk =
     (\<lparr>level = FSM_BOTTOM_LEVEL, logpageno = heapblk div SlotsPerFSMPage B\<rparr>,
      heapblk mod SlotsPerFSMPage B)"

definition fsm_get_heap_blk :: "nat \<Rightarrow> FSMAddress \<Rightarrow> nat \<Rightarrow> BlockNumber" where
  "fsm_get_heap_blk B addr slot = (logpageno addr * SlotsPerFSMPage B + slot) mod 4294967296"

definition fsm_get_parent :: "nat \<Rightarrow> FSMAddress \<Rightarrow> FSMAddress \<times> nat" where
  "fsm_get_parent B child =
     (\<lparr>level = level child + 1,
       logpageno = int_to_size_t (logpageno child) div SlotsPerFSMPage B mod 4294967296\<rparr>,
      int_to_size_t (logpageno child) mod SlotsPerFSMPage B)"

definition fsm_get_child :: "nat \<Rightarrow> FSMAddress \<Rightarrow> nat \<Rightarrow> FSMAddress" where
  "fsm_get_child B parent slot =
     \<lparr>level = level parent - 1,
      logpageno = (logpageno parent * SlotsPerFSMPage B + slot) mod 4294967296\<rparr>"

definition fsm_get_lastblckno :: "nat \<Rightarrow> FSMAddress \<Rightarrow> BlockNumber" where
  "fsm_get_lastblckno B addr = (let slot = SlotsPerFSMPage B - 1 in fsm_get_heap_blk B addr slot)"

section \<open>The FSM fork\<close>

definition InvalidBlockNumber :: BlockNumber where
  "InvalidBlockNumber = 4294967295"

record fsm_buffer =
  page_is_new :: bool
  page_contents :: FSMPageData

record fsm_relation =
  is_segment :: bool
  fsm_fork :: "fsm_buffer list option"
  smgr_fsm_nblocks :: BlockNumber

text \<open>\<open>PageInit\<close> clears the whole page, so that every slot is zero.\<close>

definition PageInit :: "nat \<Rightarrow> fsm_buffer" where
  "PageInit B = \<lparr>page_is_new = False,
     page_contents = \<lparr>fp_next_slot = 0, fp_nodes = replicate (NodesPerPage B) 0\<rparr>\<rparr>"

text \<open>A page that the segment storage allocates is zeroed and stays new until it is read.\<close>

definition ZeroPage :: "nat \<Rightarrow> fsm_buffer" where
  "ZeroPage B = (PageInit B)\<lparr>page_is_new := True\<rparr>"

definition fork_pages :: "fsm_relation \<Rightarrow> fsm_buffer list" where
  "fork_pages rel = (case fsm_fork rel of None \<Rightarrow> [] | Some pages \<Rightarrow> pages)"

lemma fork_pages_simps [simp]:
  "fork_pages (rel\<lparr>fsm_fork := Some pages\<rparr>) = pages"
  "fork_pages (rel\<lparr>smgr_fsm_nblocks := n\<rparr>) = fork_pages rel"
  by (simp_all add: fork_pages_def)

lemma fork_pages_None: "fsm_fork rel = None \<Longrightarrow> fork_pages rel = []"
  by (simp add: fork_pages_def)

definition smgrnblocks :: "fsm_relation \<Rightarrow> nat" where
  "smgrnblocks rel = length (fork_pages rel)"

definition fsm_extend :: "nat \<Rightarrow> fsm_relation \<Rightarrow> BlockNumber \<Rightarrow> fsm_relation" where
  "fsm_extend B rel fsm_nblocks =
     (let rel = (if (smgr_fsm_nblocks rel = 0 \<or> smgr_fsm_nblocks rel = InvalidBlockNumber) \<and>
                   fsm_fork rel = None
                 then rel\<lparr>fsm_fork := Some []\<rparr> else rel);
          fsm_nblocks_now = smgrnblocks rel;
          pg = (if is_segment rel then ZeroPage B else PageInit B);
          pages = fold (\<lambda>_ pages. pages @ [pg]) [fsm_nblocks_now..<fsm_nblocks] (fork_pages rel)
      in rel\<lparr>fsm_fork := Some pages, smgr_fsm_nblocks := max fsm_nblocks_now fsm_nblocks\<rparr>)"

text \<open>A valid buffer is the physical block number, whose page is in the fork.\<close>

definition fsm_readbuf :: "nat \<Rightarrow> fsm_relation \<Rightarrow> FSMAddress \<Rightarrow> bool \<Rightarrow>
    BlockNumber option \<times> fsm_relation" where
  "fsm_readbuf B rel addr ext =
     (let blkno = fsm_logical_to_physical B addr;
          rel = (if smgr_fsm_nblocks rel = InvalidBlockNumber \<or> blkno \<ge> smgr_fsm_nblocks rel
                 then rel\<lparr>smgr_fsm_nblocks := (if fsm_fork rel \<noteq> None then smgrnblocks rel else 0)\<rparr>
                 else rel)
      in if blkno \<ge> smgr_fsm_nblocks rel \<and> \<not> ext then (None, rel)
         else let rel = (if blkno \<ge> smgr_fsm_nblocks rel then fsm_extend B rel (blkno + 1) else rel);
                  buf = fork_pages rel ! blkno
              in (Some blkno,
                  if page_is_new buf
                  then rel\<lparr>fsm_fork := Some ((fork_pages rel)[blkno := PageInit B])\<rparr>
                  else rel))"

definition buffer_page :: "fsm_relation \<Rightarrow> BlockNumber \<Rightarrow> FSMPageData" where
  "buffer_page rel buf = page_contents (fork_pages rel ! buf)"

definition set_buffer_page :: "fsm_relation \<Rightarrow> BlockNumber \<Rightarrow> FSMPageData \<Rightarrow> fsm_relation" where
  "set_buffer_page rel buf page =
     rel\<lparr>fsm_fork := Some ((fork_pages rel)[buf := (fork_pages rel ! buf)\<lparr>page_contents := page\<rparr>])\<rparr>"

section \<open>Recording and searching\<close>

text \<open>\<open>None\<close> is a search of a page that does not return (which does not happen).\<close>

definition fsm_set_and_search :: "nat \<Rightarrow> fsm_relation \<Rightarrow> FSMAddress \<Rightarrow> nat \<Rightarrow> uint8 \<Rightarrow> uint8 \<Rightarrow>
    bool \<Rightarrow> (int \<times> fsm_relation) option" where
  "fsm_set_and_search B rel addr slot newValue minValue search =
     (case fsm_readbuf B rel addr True of
        (None, rel) \<Rightarrow> None
      | (Some buf, rel) \<Rightarrow>
          (let (changed, page) = fsm_set_avail B (buffer_page rel buf) slot newValue;
               rel = set_buffer_page rel buf page
           in if minValue \<noteq> 0 \<and> search then
                (case fsm_search_avail B page minValue (level addr = FSM_BOTTOM_LEVEL) of
                   None \<Rightarrow> None
                 | Some (newslot, page) \<Rightarrow> Some (newslot, set_buffer_page rel buf page))
              else Some (- 1, rel)))"

text \<open>
  The outcome of one iteration of \<open>fsm_search\<close>: reading the page and searching it; the slot
  (-1 for none), the page's maximum, and the relation after it.
\<close>

definition fsm_search_page :: "nat \<Rightarrow> fsm_relation \<Rightarrow> FSMAddress \<Rightarrow> uint8 \<Rightarrow>
    (int \<times> uint8 \<times> fsm_relation) option" where
  "fsm_search_page B rel addr min_cat =
     (case fsm_readbuf B rel addr False of
        (None, rel) \<Rightarrow> Some (- 1, 0, rel)
      | (Some buf, rel) \<Rightarrow>
          (case fsm_search_avail B (buffer_page rel buf) min_cat (level addr = FSM_BOTTOM_LEVEL) of
             None \<Rightarrow> None
           | Some (slot, page) \<Rightarrow>
               Some (slot, if slot = - 1 then fsm_get_max_avail page else 0,
                     set_buffer_page rel buf page)))"

function fsm_search_loop :: "nat \<Rightarrow> uint8 \<Rightarrow> nat \<Rightarrow> FSMAddress \<Rightarrow> fsm_relation \<Rightarrow>
    (BlockNumber \<times> fsm_relation) option" where
  "fsm_search_loop B min_cat restarts addr rel =
     (case fsm_search_page B rel addr min_cat of
        None \<Rightarrow> None
      | Some (slot, max_avail, rel) \<Rightarrow>
          if slot \<noteq> - 1 then
            if level addr = FSM_BOTTOM_LEVEL then Some (fsm_get_heap_blk B addr (nat slot), rel)
            else fsm_search_loop B min_cat restarts (fsm_get_child B addr (nat slot)) rel
          else if level addr = FSM_ROOT_LEVEL B then Some (InvalidBlockNumber, rel)
          else case fsm_get_parent B addr of (parent, parentslot) \<Rightarrow>
            (case fsm_set_and_search B rel parent parentslot max_avail 0 True of
               None \<Rightarrow> None
             | Some (_, rel) \<Rightarrow>
                 if restarts > 10000 then Some (InvalidBlockNumber, rel)
                 else fsm_search_loop B min_cat (restarts + 1) (g_fsm_root_address B) rel))"
  by pat_completeness auto
termination
  by (relation "measures [\<lambda>(B, min_cat, restarts, addr, rel). 10001 - restarts,
      \<lambda>(B, min_cat, restarts, addr, rel). level addr]") (auto simp: fsm_get_child_def)

declare fsm_search_loop.simps [simp del]

definition fsm_search :: "nat \<Rightarrow> fsm_relation \<Rightarrow> uint8 \<Rightarrow> (BlockNumber \<times> fsm_relation) option" where
  "fsm_search B rel min_cat = fsm_search_loop B min_cat 0 (g_fsm_root_address B) rel"

partial_function (option) fsm_update_recursive :: "nat \<Rightarrow> fsm_relation \<Rightarrow> FSMAddress \<Rightarrow> uint8 \<Rightarrow>
    bool \<Rightarrow> fsm_relation option" where
  "fsm_update_recursive B rel addr new_cat search =
     (if level addr = FSM_ROOT_LEVEL B then Some rel
      else case fsm_get_parent B addr of (parent, parentslot) \<Rightarrow>
        (case fsm_set_and_search B rel parent parentslot new_cat 0 search of
           None \<Rightarrow> None
         | Some (_, rel) \<Rightarrow> fsm_update_recursive B rel parent new_cat search))"

section \<open>Vacuum\<close>

text \<open>
  The recursion goes down one level per call; the loop over the slots carries the end-of-file
  flag. The outer result is the page's maximum and the end-of-file flag.
\<close>

definition fsm_vacuum_slot :: "nat \<Rightarrow> (fsm_relation \<Rightarrow> FSMAddress \<Rightarrow> uint8 \<times> bool \<times> fsm_relation) \<Rightarrow>
    FSMAddress \<Rightarrow> BlockNumber \<Rightarrow> nat \<Rightarrow> bool \<times> fsm_relation \<Rightarrow> bool \<times> fsm_relation" where
  "fsm_vacuum_slot B vacuum_child addr buf slot s =
     (case s of (eof, rel) \<Rightarrow>
        (let (child_avail, eof, rel) =
               (if \<not> eof then vacuum_child rel (fsm_get_child B addr slot) else (0, eof, rel));
             page = buffer_page rel buf
         in if fsm_get_avail B page slot \<noteq> child_avail
            then (eof, set_buffer_page rel buf (snd (fsm_set_avail B page slot child_avail)))
            else (eof, rel)))"

primrec fsm_vacuum_level :: "nat \<Rightarrow> nat \<Rightarrow> fsm_relation \<Rightarrow> FSMAddress \<Rightarrow>
    uint8 \<times> bool \<times> fsm_relation" where
  "fsm_vacuum_level B 0 rel addr =
     (case fsm_readbuf B rel addr False of
        (None, rel) \<Rightarrow> (0, True, rel)
      | (Some buf, rel) \<Rightarrow>
          (let page = buffer_page rel buf
           in (fsm_get_max_avail page, False, set_buffer_page rel buf (page\<lparr>fp_next_slot := 0\<rparr>))))"
| "fsm_vacuum_level B (Suc l) rel addr =
     (case fsm_readbuf B rel addr False of
        (None, rel) \<Rightarrow> (0, True, rel)
      | (Some buf, rel) \<Rightarrow>
          (let (eof, rel) = fold (fsm_vacuum_slot B (fsm_vacuum_level B l) addr buf)
                 [0..<SlotsPerFSMPage B] (False, rel);
               page = buffer_page rel buf
           in (fsm_get_max_avail page, False, set_buffer_page rel buf (page\<lparr>fp_next_slot := 0\<rparr>))))"

definition fsm_vacuum_page :: "nat \<Rightarrow> fsm_relation \<Rightarrow> FSMAddress \<Rightarrow> uint8 \<times> bool \<times> fsm_relation" where
  "fsm_vacuum_page B rel addr = fsm_vacuum_level B (level addr) rel addr"

section \<open>Public operations\<close>

definition GetPageWithFreeSpace :: "nat \<Rightarrow> fsm_relation \<Rightarrow> nat \<Rightarrow>
    (BlockNumber \<times> fsm_relation) option result" where
  "GetPageWithFreeSpace B rel spaceNeeded =
     (case fsm_space_needed_to_cat B spaceNeeded of
        Inl e \<Rightarrow> Inl e
      | Inr min_cat \<Rightarrow> Inr (fsm_search B rel min_cat))"

definition RecordAndGetPageWithFreeSpace :: "nat \<Rightarrow> fsm_relation \<Rightarrow> BlockNumber \<Rightarrow> nat \<Rightarrow> nat \<Rightarrow>
    (BlockNumber \<times> fsm_relation) option result" where
  "RecordAndGetPageWithFreeSpace B rel oldPage oldSpaceAvail spaceNeeded =
     (let old_cat = fsm_space_avail_to_cat B oldSpaceAvail
      in case fsm_space_needed_to_cat B spaceNeeded of
           Inl e \<Rightarrow> Inl e
         | Inr search_cat \<Rightarrow>
             (case fsm_get_location B oldPage of (addr, slot) \<Rightarrow>
                (case fsm_set_and_search B rel addr slot old_cat search_cat True of
                   None \<Rightarrow> Inr None
                 | Some (search_slot, rel) \<Rightarrow>
                     if search_slot \<noteq> - 1
                     then Inr (Some (fsm_get_heap_blk B addr (nat search_slot), rel))
                     else Inr (fsm_search B rel search_cat))))"

definition RecordPageWithFreeSpace :: "nat \<Rightarrow> fsm_relation \<Rightarrow> BlockNumber \<Rightarrow> nat \<Rightarrow>
    fsm_relation option" where
  "RecordPageWithFreeSpace B rel heapBlk spaceAvail =
     (let new_cat = fsm_space_avail_to_cat B spaceAvail
      in case fsm_get_location B heapBlk of (addr, slot) \<Rightarrow>
           map_option snd (fsm_set_and_search B rel addr slot new_cat 0 True))"

partial_function (option) UpdateFreeSpaceMap_loop :: "nat \<Rightarrow> fsm_relation \<Rightarrow> BlockNumber \<Rightarrow>
    BlockNumber \<Rightarrow> uint8 \<Rightarrow> bool \<Rightarrow> fsm_relation option" where
  "UpdateFreeSpaceMap_loop B rel blockNum endBlkNum new_cat search =
     (if blockNum \<le> endBlkNum then
        (case fsm_get_location B blockNum of (addr, slot) \<Rightarrow>
           (case fsm_update_recursive B rel addr new_cat search of
              None \<Rightarrow> None
            | Some rel \<Rightarrow>
                (let lastBlkOnPage = fsm_get_lastblckno B addr
                 in if lastBlkOnPage \<ge> endBlkNum then Some rel
                    else UpdateFreeSpaceMap_loop B rel (lastBlkOnPage + 1) endBlkNum new_cat search)))
      else Some rel)"

definition UpdateFreeSpaceMap :: "nat \<Rightarrow> fsm_relation \<Rightarrow> BlockNumber \<Rightarrow> BlockNumber \<Rightarrow> nat \<Rightarrow> bool \<Rightarrow>
    fsm_relation option" where
  "UpdateFreeSpaceMap B rel startBlkNum endBlkNum freespace search =
     UpdateFreeSpaceMap_loop B rel startBlkNum endBlkNum (fsm_space_avail_to_cat B freespace) search"

definition GetRecordedFreeSpace :: "nat \<Rightarrow> fsm_relation \<Rightarrow> BlockNumber \<Rightarrow> nat \<times> fsm_relation" where
  "GetRecordedFreeSpace B rel heapBlk =
     (case fsm_get_location B heapBlk of (addr, slot) \<Rightarrow>
        (case fsm_readbuf B rel addr False of
           (None, rel) \<Rightarrow> (0, rel)
         | (Some buf, rel) \<Rightarrow>
             (fsm_space_cat_to_avail B (fsm_get_avail B (buffer_page rel buf) slot), rel)))"

definition smgrtruncate :: "fsm_relation \<Rightarrow> BlockNumber \<Rightarrow> fsm_relation" where
  "smgrtruncate rel nblocks = rel\<lparr>fsm_fork := Some (take nblocks (fork_pages rel))\<rparr>"

definition FreeSpaceMapTruncateRel :: "nat \<Rightarrow> fsm_relation \<Rightarrow> BlockNumber \<Rightarrow> fsm_relation" where
  "FreeSpaceMapTruncateRel B rel nblocks =
     (if fsm_fork rel = None then rel
      else case fsm_get_location B nblocks of (first_removed_address, first_removed_slot) \<Rightarrow>
        (let finish = (\<lambda>rel new_nfsmblocks.
               (smgrtruncate rel new_nfsmblocks)\<lparr>smgr_fsm_nblocks := new_nfsmblocks\<rparr>)
         in if first_removed_slot > 0 then
              (case fsm_readbuf B rel first_removed_address False of
                 (None, rel) \<Rightarrow> rel
               | (Some buf, rel) \<Rightarrow>
                   finish (set_buffer_page rel buf
                       (snd (fsm_truncate_avail B (buffer_page rel buf) first_removed_slot)))
                     (fsm_logical_to_physical B first_removed_address + 1))
            else
              (let new_nfsmblocks = fsm_logical_to_physical B first_removed_address
               in if smgrnblocks rel \<le> new_nfsmblocks then rel else finish rel new_nfsmblocks)))"

definition FreeSpaceMapVacuum :: "nat \<Rightarrow> fsm_relation \<Rightarrow> fsm_relation" where
  "FreeSpaceMapVacuum B rel = snd (snd (fsm_vacuum_page B rel (g_fsm_root_address B)))"

definition FreeSpaceMapCalTruncBlkNo :: "nat \<Rightarrow> BlockNumber \<Rightarrow> BlockNumber" where
  "FreeSpaceMapCalTruncBlkNo B relBlkNo = fsm_logical_to_physical B (fst (fsm_get_location B relBlkNo))"

section \<open>The free space map of an index\<close>

definition RecordFreeIndexPage :: "nat \<Rightarrow> fsm_relation \<Rightarrow> BlockNumber \<Rightarrow> fsm_relation option" where
  "RecordFreeIndexPage B rel freeBlock = RecordPageWithFreeSpace B rel freeBlock (B - 1)"

definition RecordUsedIndexPage :: "nat \<Rightarrow> fsm_relation \<Rightarrow> BlockNumber \<Rightarrow> fsm_relation option" where
  "RecordUsedIndexPage B rel usedBlock = RecordPageWithFreeSpace B rel usedBlock 0"

definition GetFreeIndexPage :: "nat \<Rightarrow> fsm_relation \<Rightarrow> (BlockNumber \<times> fsm_relation) option result" where
  "GetFreeIndexPage B rel =
     (case GetPageWithFreeSpace B rel (B div 2) of
        Inl e \<Rightarrow> Inl e
      | Inr None \<Rightarrow> Inr None
      | Inr (Some (blkno, rel)) \<Rightarrow>
          if blkno \<noteq> InvalidBlockNumber
          then Inr (map_option (\<lambda>rel. (blkno, rel)) (RecordUsedIndexPage B rel blkno))
          else Inr (Some (blkno, rel)))"

definition IndexFreeSpaceMapVacuum :: "nat \<Rightarrow> fsm_relation \<Rightarrow> fsm_relation" where
  "IndexFreeSpaceMapVacuum B rel = FreeSpaceMapVacuum B rel"

section \<open>Categories: what is recommended is large enough\<close>

text \<open>
  Block sizes for which the leaf pages of the tree are numbered by a C \<open>int\<close>; these are the
  powers of two that the build allows, and more.
\<close>

definition fs_blcksz :: "nat \<Rightarrow> bool" where
  "fs_blcksz B \<longleftrightarrow> fsm_blcksz B \<and> 512 \<le> B \<and> 256 dvd B \<and>
     SlotsPerFSMPage B ^ FSM_ROOT_LEVEL B \<le> 2147483648"

lemma fs_blcksz_powers: "B \<in> {512, 1024, 2048, 4096, 8192, 16384, 32768} \<Longrightarrow> fs_blcksz B"
  by (auto simp: fs_blcksz_def fsm_blcksz_def FSM_ROOT_LEVEL_def FSM_TREE_DEPTH_def LeafNodesPerPage_def
      NodesPerPage_def NonLeafNodesPerPage_def)

lemma fs_blcksz_fsm: "fs_blcksz B \<Longrightarrow> fsm_blcksz B"
  by (simp add: fs_blcksz_def)

lemma slots_pos: "fsm_blcksz B \<Longrightarrow> 0 < LeafNodesPerPage B"
  by (rule fsm_layout(4))

lemma slots_ge: "fsm_blcksz B \<Longrightarrow> 2 \<le> LeafNodesPerPage B"
  unfolding fsm_blcksz_def NodesPerPage_def NonLeafNodesPerPage_def LeafNodesPerPage_def by linarith

lemma cat_step:
  assumes "fs_blcksz B"
  shows "0 < FSM_CAT_STEP B" "B = 256 * FSM_CAT_STEP B"
  using assms by (auto simp: fs_blcksz_def FSM_CAT_STEP_def)

lemma avail_to_cat_unat:
  "unat (fsm_space_avail_to_cat B a) =
     (if a \<ge> MaxFSMRequestSize B then 255 else min 254 (a div FSM_CAT_STEP B))"
  by (auto simp: fsm_space_avail_to_cat_def Let_def unat_of_nat take_bit_nat_eq_self)

lemma needed_to_cat_Inr:
  "fsm_space_needed_to_cat B n = Inr c \<longleftrightarrow> n \<le> MaxFSMRequestSize B \<and>
     unat c = (if n = 0 then 1 else min 255 ((n + FSM_CAT_STEP B - 1) div FSM_CAT_STEP B))"
proof -
  have "of_nat m = c \<longleftrightarrow> unat c = m" if "m \<le> 255" for m and c :: uint8
    using that by (auto simp: unat_of_nat take_bit_nat_eq_self)
  moreover have "1 = c \<longleftrightarrow> unat c = 1" for c :: uint8
    by (metis unat_1 unsigned_word_eqI)
  ultimately show ?thesis
    by (auto simp: fsm_space_needed_to_cat_def Let_def not_less min_def)
qed

lemma cat_round_down:
  assumes "fs_blcksz B"
  shows "fsm_space_cat_to_avail B (fsm_space_avail_to_cat B a) \<le> a"
proof (cases "a \<ge> MaxFSMRequestSize B")
  case True
  then show ?thesis by (simp add: fsm_space_cat_to_avail_def fsm_space_avail_to_cat_def)
next
  case False
  have "unat (fsm_space_avail_to_cat B a) * FSM_CAT_STEP B \<le> a div FSM_CAT_STEP B * FSM_CAT_STEP B"
    using False by (intro mult_right_mono) (simp_all add: avail_to_cat_unat)
  also have "\<dots> \<le> a" by simp
  finally have "unat (fsm_space_avail_to_cat B a) * FSM_CAT_STEP B \<le> a" .
  moreover have "fsm_space_avail_to_cat B a \<noteq> 255"
    using False avail_to_cat_unat[of B a] by auto
  ultimately show ?thesis by (simp add: fsm_space_cat_to_avail_def)
qed

lemma cat_sufficient:
  assumes "fs_blcksz B" "fsm_space_needed_to_cat B n = Inr c" "c \<le> fsm_space_avail_to_cat B a"
  shows "n \<le> a"
proof (cases "a \<ge> MaxFSMRequestSize B")
  case True
  then show ?thesis using assms(2) by (simp add: needed_to_cat_Inr)
next
  case False
  let ?s = "FSM_CAT_STEP B"
  have le: "unat c \<le> min 254 (a div ?s)"
    using assms(3) False avail_to_cat_unat[of B a] by (simp add: word_le_nat_alt)
  show ?thesis
  proof (cases "n = 0")
    case nz: False
    have s: "0 < ?s" by (rule cat_step(1)[OF assms(1)])
    have "unat c = (n + ?s - 1) div ?s"
      using assms(2) nz le by (auto simp: needed_to_cat_Inr min_def split: if_splits)
    then have "(n + ?s - 1) div ?s \<le> a div ?s" using le by simp
    then have "(n + ?s - 1) div ?s * ?s \<le> a" by (metis div_times_less_eq_dividend mult_le_mono1 order_trans)
    moreover have "n \<le> (n + ?s - 1) div ?s * ?s"
    proof -
      have "n + ?s - 1 < (n + ?s - 1) div ?s * ?s + ?s" using dividend_less_div_times[OF s, of "n + ?s - 1"] by (simp only: add.commute)
      then show ?thesis by linarith
    qed
    ultimately show ?thesis by (rule order_trans[rotated])
  qed simp
qed

section \<open>Addresses\<close>

lemma tree_depth: "FSM_TREE_DEPTH B = FSM_ROOT_LEVEL B + 1" "0 < FSM_ROOT_LEVEL B"
  by (simp_all add: FSM_ROOT_LEVEL_def FSM_TREE_DEPTH_def)

definition first_leaf :: "nat \<Rightarrow> FSMAddress \<Rightarrow> nat" where
  "first_leaf B addr = logpageno addr * SlotsPerFSMPage B ^ level addr"

definition pages_before :: "nat \<Rightarrow> nat \<Rightarrow> nat" where
  "pages_before B leafno = (\<Sum>l < FSM_TREE_DEPTH B. leafno div SlotsPerFSMPage B ^ l)"

text \<open>
  The addresses whose first leaf page has a number that fits an \<open>int\<close>: on them no wrap-around
  takes place. The location of every 32-bit block number is one, and so is every page of the
  tree below the root.
\<close>

definition addr_ok :: "nat \<Rightarrow> FSMAddress \<Rightarrow> bool" where
  "addr_ok B addr \<longleftrightarrow> level addr \<le> FSM_ROOT_LEVEL B \<and> first_leaf B addr < 2147483648"

definition in_tree :: "nat \<Rightarrow> FSMAddress \<Rightarrow> bool" where
  "in_tree B addr \<longleftrightarrow> level addr \<le> FSM_ROOT_LEVEL B \<and>
     logpageno addr < SlotsPerFSMPage B ^ (FSM_ROOT_LEVEL B - level addr)"

lemma addr_ok_level: "addr_ok B addr \<Longrightarrow> level addr \<le> FSM_ROOT_LEVEL B"
  by (simp add: addr_ok_def)

lemma in_tree_addr_ok: "fs_blcksz B \<Longrightarrow> in_tree B addr \<Longrightarrow> addr_ok B addr"
proof -
  assume B: "fs_blcksz B" and a: "in_tree B addr"
  let ?S = "SlotsPerFSMPage B"
  have "first_leaf B addr < ?S ^ (FSM_ROOT_LEVEL B - level addr) * ?S ^ level addr"
    using a slots_pos[OF fs_blcksz_fsm[OF B]] by (simp add: first_leaf_def in_tree_def)
  also have "\<dots> = ?S ^ FSM_ROOT_LEVEL B" using a by (simp add: in_tree_def power_add[symmetric])
  finally show "addr_ok B addr" using B a by (simp add: addr_ok_def in_tree_def fs_blcksz_def)
qed

lemma addr_ok_logpageno:
  assumes "fsm_blcksz B" "addr_ok B addr" "n \<le> level addr"
  shows "logpageno addr * SlotsPerFSMPage B ^ n < 2147483648"
proof -
  have "logpageno addr * SlotsPerFSMPage B ^ n \<le> first_leaf B addr"
    unfolding first_leaf_def using assms(3) slots_pos[OF assms(1)]
    by (intro mult_left_mono power_increasing) auto
  then show ?thesis using assms(2) by (simp add: addr_ok_def)
qed

lemma int_to_size_t_id [simp]: "x < 2147483648 \<Longrightarrow> int_to_size_t x = x"
  by (simp add: int_to_size_t_def)

lemma pages_bound:
  assumes "2 \<le> SlotsPerFSMPage B" "leafno < 2147483648" "n \<le> FSM_TREE_DEPTH B"
  shows "(\<Sum>l < n. leafno div SlotsPerFSMPage B ^ l) + n < 4294967296"
proof -
  have "n \<le> 4" using assms(3) by (auto simp: FSM_TREE_DEPTH_def split: if_splits)
  then have "(\<Sum>l < n. leafno div SlotsPerFSMPage B ^ l) \<le> (\<Sum>l < 4. leafno div SlotsPerFSMPage B ^ l)"
    by (intro sum_mono2) auto
  also have "\<dots> \<le> (\<Sum>l < 4. leafno div 2 ^ l)"
    using assms(1) by (intro sum_mono div_le_mono2 power_mono) auto
  also have "\<dots> = leafno + leafno div 2 + leafno div 4 + leafno div 8"
  proof -
    have "{..<4 :: nat} = {0, 1, 2, 3}" by auto
    then show ?thesis by simp
  qed
  finally show ?thesis using assms(2) \<open>n \<le> 4\<close> by linarith
qed

lemma sub_mod_32: "n \<le> x \<Longrightarrow> x < 4294967296 \<Longrightarrow> (x + 4294967296 - n) mod 4294967296 = x - (n :: nat)"
proof -
  assume "n \<le> x" "x < 4294967296"
  then have "(x + 4294967296 - n) mod 4294967296 = (x - n + 4294967296) mod 4294967296" by simp
  also have "\<dots> = x - n" using \<open>x < 4294967296\<close> by (simp only: mod_add_self2) simp
  finally show ?thesis .
qed

lemma physical_sum:
  assumes "fsm_blcksz B" "addr_ok B addr"
  shows "fsm_logical_to_physical B addr + level addr + 1 =
    pages_before B (first_leaf B addr) + FSM_TREE_DEPTH B"
proof -
  let ?S = "SlotsPerFSMPage B" and ?L = "first_leaf B addr"
  note S2 = slots_ge[OF assms(1)]
  have L: "?L < 2147483648" "level addr < FSM_TREE_DEPTH B"
    using assms(2) by (simp_all add: addr_ok_def tree_depth(1))
  have leaf: "n \<le> level addr \<Longrightarrow>
      fold (\<lambda>l leafno. leafno * ?S mod 4294967296) [0..<n] (logpageno addr) = logpageno addr * ?S ^ n" for n
  proof (induction n)
    case (Suc n)
    then show ?case using addr_ok_logpageno[OF assms, of "Suc n"] by (simp add: ac_simps)
  qed simp
  have small: "?L div ?S ^ n < 2147483648" for n using L(1) by (meson div_le_dividend order_le_less_trans)
  have pages: "n \<le> FSM_TREE_DEPTH B \<Longrightarrow>
      fold (\<lambda>l (pages, leafno). ((pages + leafno + 1) mod 4294967296,
        int_to_size_t leafno div ?S mod 4294967296)) [0..<n] (0, ?L) =
      ((\<Sum>l < n. ?L div ?S ^ l) + n, ?L div ?S ^ n)" for n
  proof (induction n)
    case (Suc n)
    then show ?case
      using pages_bound[OF S2 L(1), of "Suc n"] small[of n] small[of "Suc n"]
      by (simp add: power_Suc2 div_mult2_eq del: power_Suc)
  qed simp
  have "fold (\<lambda>l leafno. leafno * ?S mod 4294967296) [0..<level addr] (logpageno addr) = ?L"
    using leaf[of "level addr"] by (simp add: first_leaf_def)
  then have "fsm_logical_to_physical B addr =
      ((pages_before B ?L + FSM_TREE_DEPTH B + 4294967296 - level addr) mod 4294967296 + 4294967296 - 1)
        mod 4294967296"
    by (simp add: fsm_logical_to_physical_def Let_def pages[OF order_refl, simplified] pages_before_def)
  moreover have "pages_before B ?L + FSM_TREE_DEPTH B < 4294967296"
    using pages_bound[OF S2 L(1), of "FSM_TREE_DEPTH B"] by (simp add: pages_before_def)
  moreover from this have "(pages_before B ?L + FSM_TREE_DEPTH B + 4294967296 - level addr) mod 4294967296 =
      pages_before B ?L + FSM_TREE_DEPTH B - level addr" using L(2) by (intro sub_mod_32) auto
  ultimately have "fsm_logical_to_physical B addr = pages_before B ?L + FSM_TREE_DEPTH B - level addr - 1"
    using L(2) by (simp only:) (intro sub_mod_32, auto)
  then show ?thesis using L(2) by simp
qed

text \<open>The pages are stored in depth-first order: by first leaf, upper levels first.\<close>

lemma pages_before_less:
  assumes "0 < SlotsPerFSMPage B" "L < L'" "SlotsPerFSMPage B ^ k dvd L'" "k < FSM_TREE_DEPTH B"
  shows "pages_before B L + k + 1 \<le> pages_before B L'"
proof -
  let ?S = "SlotsPerFSMPage B" and ?D = "FSM_TREE_DEPTH B"
  have *: "L div ?S ^ l + (if l \<le> k then 1 else 0) \<le> L' div ?S ^ l" for l
  proof (cases "l \<le> k")
    case True
    then have "?S ^ l dvd L'" using assms(3) by (meson dvd_trans le_imp_power_dvd)
    then have "L div ?S ^ l < L' div ?S ^ l"
      using assms(1,2) by (auto simp: div_less_iff_less_mult mult.commute elim!: dvdE)
    then show ?thesis by simp
  qed (use assms(2) in \<open>simp add: div_le_mono\<close>)
  have "(\<Sum>l < n. (if l \<le> k then 1 else 0 :: nat)) = min n (k + 1)" for n
    by (induction n) auto
  then have "pages_before B L + (k + 1) = (\<Sum>l < ?D. L div ?S ^ l + (if l \<le> k then 1 else 0))"
    using assms(4) by (simp add: pages_before_def sum.distrib)
  also have "\<dots> \<le> pages_before B L'" unfolding pages_before_def by (rule sum_mono) (rule *)
  finally show ?thesis by simp
qed

lemma physical_less:
  assumes "fsm_blcksz B" "addr_ok B a" "addr_ok B b"
    "first_leaf B a < first_leaf B b \<or> (first_leaf B a = first_leaf B b \<and> level b < level a)"
  shows "fsm_logical_to_physical B a < fsm_logical_to_physical B b"
proof -
  have lev: "level a < FSM_TREE_DEPTH B" "level b < FSM_TREE_DEPTH B"
    using assms(2,3) by (simp_all add: addr_ok_def tree_depth(1))
  have "first_leaf B a < first_leaf B b \<Longrightarrow>
      pages_before B (first_leaf B a) + level b + 1 \<le> pages_before B (first_leaf B b)"
    using lev slots_pos[OF assms(1)] by (intro pages_before_less) (auto simp: first_leaf_def)
  moreover have "first_leaf B a = first_leaf B b \<Longrightarrow>
      pages_before B (first_leaf B a) = pages_before B (first_leaf B b)" by simp
  ultimately show ?thesis
    using physical_sum[OF assms(1,2)] physical_sum[OF assms(1,3)] lev assms(4) by linarith
qed

lemma physical_inj:
  assumes "fsm_blcksz B" "addr_ok B a" "addr_ok B b"
  shows "fsm_logical_to_physical B a = fsm_logical_to_physical B b \<longleftrightarrow> a = b"
proof
  assume eq: "fsm_logical_to_physical B a = fsm_logical_to_physical B b"
  have "first_leaf B a = first_leaf B b" "level a = level b"
    using physical_less[OF assms(1,2,3)] physical_less[OF assms(1,3,2)] eq
    by (metis less_irrefl nat_neq_iff)+
  then show "a = b" using slots_pos[OF assms(1)] by (cases a; cases b) (simp add: first_leaf_def)
qed simp

lemma location_props:
  assumes "0 < SlotsPerFSMPage B" "fsm_get_location B h = (addr, slot)"
  shows "slot < SlotsPerFSMPage B" "level addr = 0" "logpageno addr = h div SlotsPerFSMPage B"
    "logpageno addr * SlotsPerFSMPage B + slot = h"
  using assms by (auto simp: fsm_get_location_def)

lemma location_heap_blk:
  "fsm_get_location B h = (addr, slot) \<Longrightarrow> h < 4294967296 \<Longrightarrow> fsm_get_heap_blk B addr slot = h"
  by (auto simp: fsm_get_location_def fsm_get_heap_blk_def)

lemma location_addr_ok:
  assumes "fsm_blcksz B" "h < 4294967296"
  shows "addr_ok B (fst (fsm_get_location B h))"
proof -
  have "h div SlotsPerFSMPage B \<le> h div 2" using slots_ge[OF assms(1)] by (intro div_le_mono2) auto
  then show ?thesis using assms(2) by (simp add: addr_ok_def first_leaf_def fsm_get_location_def)
qed

lemma heap_blk_location:
  "slot < SlotsPerFSMPage B \<Longrightarrow> level addr = 0 \<Longrightarrow> logpageno addr * SlotsPerFSMPage B + slot < 4294967296 \<Longrightarrow>
     fsm_get_location B (fsm_get_heap_blk B addr slot) = (addr, slot)"
  by (cases addr) (simp add: fsm_get_location_def fsm_get_heap_blk_def)

lemma child_eq:
  assumes "fsm_blcksz B" "addr_ok B addr" "0 < level addr" "slot < SlotsPerFSMPage B"
  shows "fsm_get_child B addr slot =
    \<lparr>level = level addr - 1, logpageno = logpageno addr * SlotsPerFSMPage B + slot\<rparr>"
  using addr_ok_logpageno[OF assms(1,2), of 1] assms(3,4) fsm_layout(5)[OF assms(1)]
  by (simp add: fsm_get_child_def)

lemma parent_eq:
  assumes "fsm_blcksz B" "addr_ok B addr"
  shows "fsm_get_parent B addr =
    (\<lparr>level = level addr + 1, logpageno = logpageno addr div SlotsPerFSMPage B\<rparr>,
     logpageno addr mod SlotsPerFSMPage B)"
proof -
  have "logpageno addr < 2147483648" using addr_ok_logpageno[OF assms, of 0] by simp
  moreover from this have "logpageno addr div SlotsPerFSMPage B < 4294967296"
    by (intro order_le_less_trans[OF div_le_dividend]) simp
  ultimately show ?thesis by (simp add: fsm_get_parent_def)
qed

lemma parent_child:
  assumes "fsm_blcksz B" "addr_ok B addr" "0 < level addr" "slot < SlotsPerFSMPage B"
    "addr_ok B (fsm_get_child B addr slot)"
  shows "fsm_get_parent B (fsm_get_child B addr slot) = (addr, slot)"
  using parent_eq[OF assms(1,5)] child_eq[OF assms(1-4)] assms(3,4) by (cases addr) simp

lemma parent_props:
  assumes "fsm_get_parent B addr = (p, slot)" "fsm_blcksz B" "addr_ok B addr"
  shows "level p = level addr + 1" "slot < SlotsPerFSMPage B"
    "level addr < FSM_ROOT_LEVEL B \<Longrightarrow> addr_ok B p"
    "in_tree B addr \<Longrightarrow> level addr < FSM_ROOT_LEVEL B \<Longrightarrow> in_tree B p"
proof -
  let ?S = "SlotsPerFSMPage B"
  have p: "p = \<lparr>level = level addr + 1, logpageno = logpageno addr div ?S\<rparr>" "slot = logpageno addr mod ?S"
    using assms(1) parent_eq[OF assms(2,3)] by simp_all
  show "level p = level addr + 1" "slot < ?S" using p slots_pos[OF assms(2)] by simp_all
  have "logpageno addr div ?S * ?S ^ (level addr + 1) = logpageno addr div ?S * ?S * ?S ^ level addr" by simp
  also have "\<dots> \<le> first_leaf B addr" unfolding first_leaf_def by (intro mult_right_mono) simp_all
  finally have "first_leaf B p \<le> first_leaf B addr" unfolding p(1) by (simp add: first_leaf_def)
  then show "level addr < FSM_ROOT_LEVEL B \<Longrightarrow> addr_ok B p"
    using assms(3) p(1) by (simp add: addr_ok_def)
  show "in_tree B p" if "in_tree B addr" "level addr < FSM_ROOT_LEVEL B"
  proof -
    have "FSM_ROOT_LEVEL B - level addr = Suc (FSM_ROOT_LEVEL B - (level addr + 1))" using that(2) by simp
    then show ?thesis
      using that p(1) slots_pos[OF assms(2)]
      by (simp add: in_tree_def div_less_iff_less_mult mult.commute)
  qed
qed

lemma child_parent:
  assumes "fsm_get_parent B addr = (p, slot)" "fsm_blcksz B" "addr_ok B addr" "level addr < FSM_ROOT_LEVEL B"
  shows "fsm_get_child B p slot = addr"
  using child_eq[OF assms(2) parent_props(3)[OF assms(1-4)], of slot] parent_props(1,2)[OF assms(1-3)]
    parent_eq[OF assms(2,3)] assms(1) by (cases addr) auto

lemma child_in_tree:
  assumes "fs_blcksz B" "in_tree B addr" "0 < level addr" "slot < SlotsPerFSMPage B"
  shows "in_tree B (fsm_get_child B addr slot)"
proof -
  let ?S = "SlotsPerFSMPage B" and ?k = "FSM_ROOT_LEVEL B - level addr"
  have "logpageno addr * ?S + slot < (logpageno addr + 1) * ?S" using assms(4) by simp
  also have "\<dots> \<le> ?S ^ ?k * ?S" using assms(2) by (intro mult_right_mono) (simp_all add: in_tree_def)
  also have "\<dots> = ?S ^ (FSM_ROOT_LEVEL B - (level addr - 1))"
    using assms(2,3) by (simp add: in_tree_def Suc_diff_le flip: power_Suc2)
  finally show ?thesis
    using assms(2,3) child_eq[OF fs_blcksz_fsm[OF assms(1)] in_tree_addr_ok[OF assms(1,2)] assms(3,4)]
    by (auto simp: in_tree_def)
qed

lemma root_in_tree [simp]: "0 < SlotsPerFSMPage B \<Longrightarrow> in_tree B (g_fsm_root_address B)"
  by (simp add: in_tree_def g_fsm_root_address_def)

section \<open>The fork as a family of pages\<close>

definition fsm_logical_page :: "nat \<Rightarrow> fsm_buffer \<Rightarrow> FSMPageData" where
  "fsm_logical_page B buf = (if page_is_new buf then page_contents (PageInit B) else page_contents buf)"

text \<open>A block beyond the end of the fork reads as an empty page.\<close>

definition fsm_blk_page :: "nat \<Rightarrow> fsm_relation \<Rightarrow> BlockNumber \<Rightarrow> FSMPageData" where
  "fsm_blk_page B rel n =
     (if n < length (fork_pages rel) then fsm_logical_page B (fork_pages rel ! n)
      else page_contents (PageInit B))"

definition fork_wf :: "nat \<Rightarrow> fsm_relation \<Rightarrow> bool" where
  "fork_wf B rel \<longleftrightarrow> (\<forall>buf \<in> set (fork_pages rel). fsm_page_wf B (page_contents buf)) \<and>
     (smgr_fsm_nblocks rel = InvalidBlockNumber \<or> smgr_fsm_nblocks rel \<le> length (fork_pages rel))"

lemma PageInit_simps [simp]:
  "\<not> page_is_new (PageInit B)" "fsm_page_wf B (page_contents (PageInit B))"
  "fsm_logical_page B (PageInit B) = page_contents (PageInit B)"
  "fsm_logical_page B (ZeroPage B) = page_contents (PageInit B)"
  "fsm_page_wf B (page_contents (ZeroPage B))"
  by (simp_all add: PageInit_def ZeroPage_def fsm_page_wf_def fsm_logical_page_def)

lemma PageInit_slots: "fsm_slots B (page_contents (PageInit B)) = replicate (LeafNodesPerPage B) 0"
  by (simp add: PageInit_def fsm_slots_def LeafNodesPerPage_def)

lemma PageInit_consistent:
  "fsm_blcksz B \<Longrightarrow> fsm_consistent B (page_contents (PageInit B))"
  using fsm_layout(2)[of B]
  by (auto simp: fsm_consistent_def fsm_page_wf_def PageInit_def fsm_node_value_def Let_def)

lemma fsm_blk_page_wf:
  "fork_wf B rel \<Longrightarrow> fsm_page_wf B (fsm_blk_page B rel n)"
  by (auto simp: fork_wf_def fsm_blk_page_def fsm_logical_page_def)

lemma fold_append_replicate:
  "fold (\<lambda>_ ps. ps @ [x]) [m..<n] ps = ps @ replicate (n - m) x"
  by (induction n) (auto simp: Suc_diff_le replicate_append_same)

lemma fsm_extend_props:
  assumes "fork_wf B rel" "smgr_fsm_nblocks rel \<le> length (fork_pages rel)" "length (fork_pages rel) \<le> n"
  shows "fork_wf B (fsm_extend B rel n)" "fsm_blk_page B (fsm_extend B rel n) = fsm_blk_page B rel"
    "length (fork_pages (fsm_extend B rel n)) = n"
proof -
  define pg where "pg = (if is_segment rel then ZeroPage B else PageInit B)"
  have ext: "fork_pages (fsm_extend B rel n) = fork_pages rel @ replicate (n - length (fork_pages rel)) pg"
    "smgr_fsm_nblocks (fsm_extend B rel n) = n"
    using assms(2,3) fork_pages_None[of rel]
    by (auto simp: fsm_extend_def Let_def smgrnblocks_def fold_append_replicate pg_def max_def)
  have pg: "fsm_logical_page B pg = page_contents (PageInit B)" "fsm_page_wf B (page_contents pg)"
    by (simp_all add: pg_def)
  show "length (fork_pages (fsm_extend B rel n)) = n" using ext(1) assms(3) by simp
  then show "fork_wf B (fsm_extend B rel n)"
    using assms(1) pg(2) unfolding fork_wf_def ext by auto
  show "fsm_blk_page B (fsm_extend B rel n) = fsm_blk_page B rel"
    unfolding fsm_blk_page_def ext using assms(3) pg(1) by (auto simp: nth_append)
qed

lemma fsm_blk_page_nblocks [simp]:
  "fsm_blk_page B (rel\<lparr>smgr_fsm_nblocks := n\<rparr>) = fsm_blk_page B rel"
  by (simp add: fsm_blk_page_def fun_eq_iff)

text \<open>Initialising a new page when it is read does not change what the fork holds.\<close>

lemma fsm_init_buffer:
  assumes "fork_wf B rel" "b < length (fork_pages rel)"
    "rel' = (if page_is_new (fork_pages rel ! b)
       then rel\<lparr>fsm_fork := Some ((fork_pages rel)[b := PageInit B])\<rparr> else rel)"
  shows "fork_wf B rel'" "fsm_blk_page B rel' = fsm_blk_page B rel"
    "length (fork_pages rel') = length (fork_pages rel)"
    "buffer_page rel' b = fsm_blk_page B rel b" "\<not> page_is_new (fork_pages rel' ! b)"
proof -
  have "fsm_page_wf B (page_contents buf)" if "buf \<in> set ((fork_pages rel)[b := PageInit B])" for buf
    using that set_update_subset_insert[of "fork_pages rel" b "PageInit B"] assms(1)
    by (auto simp: fork_wf_def)
  then show "fork_wf B rel'" using assms by (simp add: fork_wf_def)
  show "fsm_blk_page B rel' = fsm_blk_page B rel"
    using assms by (auto simp: fsm_blk_page_def fsm_logical_page_def nth_list_update fun_eq_iff)
  show "length (fork_pages rel') = length (fork_pages rel)" "\<not> page_is_new (fork_pages rel' ! b)"
    using assms by auto
  show "buffer_page rel' b = fsm_blk_page B rel b"
    using assms by (auto simp: buffer_page_def fsm_blk_page_def fsm_logical_page_def)
qed

definition buffer_ok :: "nat \<Rightarrow> fsm_relation \<Rightarrow> BlockNumber \<Rightarrow> bool" where
  "buffer_ok B rel b \<longleftrightarrow> fork_wf B rel \<and> b < length (fork_pages rel) \<and> \<not> page_is_new (fork_pages rel ! b)"

lemma buffer_page_blk: "buffer_ok B rel b \<Longrightarrow> buffer_page rel b = fsm_blk_page B rel b"
  by (simp add: buffer_ok_def buffer_page_def fsm_blk_page_def fsm_logical_page_def)

lemma fsm_readbuf_cases:
  assumes "fork_wf B rel" "fsm_readbuf B rel addr ext = (r, rel')"
  shows "fork_wf B rel'" "fsm_blk_page B rel' = fsm_blk_page B rel"
    "r = (if ext \<or> fsm_logical_to_physical B addr < length (fork_pages rel)
          then Some (fsm_logical_to_physical B addr) else None)"
    "r = Some b \<Longrightarrow> buffer_ok B rel' b"
    "length (fork_pages rel') = (if ext then max (length (fork_pages rel)) (fsm_logical_to_physical B addr + 1)
        else length (fork_pages rel))"
proof -
  let ?b = "fsm_logical_to_physical B addr"
  define rel1 where "rel1 = (if smgr_fsm_nblocks rel = InvalidBlockNumber \<or> ?b \<ge> smgr_fsm_nblocks rel
      then rel\<lparr>smgr_fsm_nblocks := (if fsm_fork rel \<noteq> None then smgrnblocks rel else 0)\<rparr> else rel)"
  have r1: "fork_wf B rel1" "fsm_blk_page B rel1 = fsm_blk_page B rel" "fork_pages rel1 = fork_pages rel"
    "smgr_fsm_nblocks rel1 \<le> length (fork_pages rel)"
    "smgr_fsm_nblocks rel1 \<le> ?b \<longleftrightarrow> length (fork_pages rel) \<le> ?b"
    using assms(1) fork_pages_None[of rel] by (auto simp: rel1_def fork_wf_def smgrnblocks_def)
  define rel2 where "rel2 = (if ?b \<ge> smgr_fsm_nblocks rel1 then fsm_extend B rel1 (?b + 1) else rel1)"
  have r2: "fork_wf B rel2 \<and> fsm_blk_page B rel2 = fsm_blk_page B rel \<and>
      length (fork_pages rel2) = max (length (fork_pages rel)) (?b + 1)"
  proof (cases "?b \<ge> smgr_fsm_nblocks rel1")
    case True
    then show ?thesis using fsm_extend_props[of B rel1 "?b + 1"] r1 by (simp add: rel2_def max_def)
  next
    case False
    then show ?thesis using r1 by (simp add: rel2_def max_def)
  qed
  let ?rel3 = "if page_is_new (fork_pages rel2 ! ?b)
      then rel2\<lparr>fsm_fork := Some ((fork_pages rel2)[?b := PageInit B])\<rparr> else rel2"
  have read: "fsm_readbuf B rel addr ext =
      (if ?b \<ge> smgr_fsm_nblocks rel1 \<and> \<not> ext then (None, rel1) else (Some ?b, ?rel3))"
    unfolding fsm_readbuf_def Let_def rel1_def[symmetric] rel2_def[symmetric] ..
  have "?b < length (fork_pages rel2)" using r2 by simp
  note init = fsm_init_buffer[OF conjunct1[OF r2] this refl]
  show "fork_wf B rel'" "fsm_blk_page B rel' = fsm_blk_page B rel"
    using assms(2) read init r1 r2 by (auto split: if_splits)
  show "r = (if ext \<or> ?b < length (fork_pages rel) then Some ?b else None)"
    using assms(2) read r1(5) by (auto split: if_splits)
  show "r = Some b \<Longrightarrow> buffer_ok B rel' b"
    using assms(2) read init r2 unfolding buffer_ok_def by (auto split: if_splits)
  show "length (fork_pages rel') = (if ext then max (length (fork_pages rel)) (?b + 1)
        else length (fork_pages rel))"
    using assms(2) read init(3) r1(3,5) r2 by (auto split: if_splits)
qed

lemma set_buffer_page_props:
  assumes "buffer_ok B rel b" "fsm_page_wf B page"
  shows "buffer_ok B (set_buffer_page rel b page) b"
    "fsm_blk_page B (set_buffer_page rel b page) = (fsm_blk_page B rel)(b := page)"
    "length (fork_pages (set_buffer_page rel b page)) = length (fork_pages rel)"
    "fork_wf B (set_buffer_page rel b page)"
proof -
  let ?r = "set_buffer_page rel b page"
  have pages: "fork_pages ?r = (fork_pages rel)[b := (fork_pages rel ! b)\<lparr>page_contents := page\<rparr>]"
    "smgr_fsm_nblocks ?r = smgr_fsm_nblocks rel" by (simp_all add: set_buffer_page_def)
  show "length (fork_pages ?r) = length (fork_pages rel)" by (simp add: pages)
  show wf: "fork_wf B ?r"
    unfolding fork_wf_def pages
  proof (intro conjI ballI)
    fix buf
    assume "buf \<in> set ((fork_pages rel)[b := (fork_pages rel ! b)\<lparr>page_contents := page\<rparr>])"
    then have "buf = (fork_pages rel ! b)\<lparr>page_contents := page\<rparr> \<or> buf \<in> set (fork_pages rel)"
      using set_update_subset_insert by fastforce
    then show "fsm_page_wf B (page_contents buf)"
      using assms by (auto simp: buffer_ok_def fork_wf_def)
  qed (use assms in \<open>auto simp: buffer_ok_def fork_wf_def\<close>)
  then show "buffer_ok B ?r b" using assms by (simp add: buffer_ok_def pages)
  show "fsm_blk_page B ?r = (fsm_blk_page B rel)(b := page)"
    using assms by (auto simp: fun_eq_iff fsm_blk_page_def pages fsm_logical_page_def buffer_ok_def
        nth_list_update)
qed

section \<open>Recording\<close>

abbreviation fsm_phys :: "nat \<Rightarrow> FSMAddress \<Rightarrow> BlockNumber" where
  "fsm_phys B addr \<equiv> fsm_logical_to_physical B addr"

definition fsm_page_of :: "nat \<Rightarrow> fsm_relation \<Rightarrow> FSMAddress \<Rightarrow> FSMPageData" where
  "fsm_page_of B rel addr = fsm_blk_page B rel (fsm_phys B addr)"

text \<open>The category that the map holds at a logical address and slot.\<close>

definition fsm_view :: "nat \<Rightarrow> fsm_relation \<Rightarrow> FSMAddress \<Rightarrow> nat \<Rightarrow> uint8" where
  "fsm_view B rel addr slot = fsm_slots B (fsm_page_of B rel addr) ! slot"

text \<open>The category recorded for a heap block.\<close>

definition fsm_heap_cat :: "nat \<Rightarrow> fsm_relation \<Rightarrow> BlockNumber \<Rightarrow> uint8" where
  "fsm_heap_cat B rel h = (case fsm_get_location B h of (addr, slot) \<Rightarrow>
     if addr_ok B addr then fsm_view B rel addr slot else 0)"

text \<open>
  A well-formed map: its pages have the right size, and no slot that belongs to no block number
  of 32 bits (the rest of the leaf page of the last block, and what follows it) is in use.
\<close>

definition fsm_rel_wf :: "nat \<Rightarrow> fsm_relation \<Rightarrow> bool" where
  "fsm_rel_wf B rel \<longleftrightarrow> fork_wf B rel \<and> (\<forall>h. fsm_heap_cat B rel h \<noteq> 0 \<longrightarrow> h < 4294967296)"

lemma fsm_rel_wf_fork: "fsm_rel_wf B rel \<Longrightarrow> fork_wf B rel"
  by (simp add: fsm_rel_wf_def)

lemma fsm_rel_wf_cong:
  "fsm_rel_wf B rel \<Longrightarrow> fork_wf B rel' \<Longrightarrow> fsm_heap_cat B rel' = fsm_heap_cat B rel \<Longrightarrow> fsm_rel_wf B rel'"
  by (simp add: fsm_rel_wf_def)

text \<open>A slot of a leaf page that is in use belongs to the block whose number the code computes.\<close>

lemma leaf_slot_heap_cat:
  assumes "fsm_blcksz B" "fsm_rel_wf B rel" "addr_ok B addr" "level addr = 0" "slot < SlotsPerFSMPage B"
    "m \<le> fsm_view B rel addr slot"
  shows "m \<le> fsm_heap_cat B rel (fsm_get_heap_blk B addr slot)"
proof (cases "logpageno addr * SlotsPerFSMPage B + slot < 4294967296")
  case True
  then show ?thesis
    using heap_blk_location[OF assms(5,4) True] assms(3,6) by (simp add: fsm_heap_cat_def)
next
  case False
  let ?h = "logpageno addr * SlotsPerFSMPage B + slot"
  have "fsm_get_location B ?h = (addr, slot)" using assms(4,5) by (cases addr) (simp add: fsm_get_location_def)
  then have "fsm_heap_cat B rel ?h = fsm_view B rel addr slot" using assms(3) by (simp add: fsm_heap_cat_def)
  then have "m = 0" using False assms(2,6) unfolding fsm_rel_wf_def by (metis word_le_0_iff)
  then show ?thesis by simp
qed

lemma fsm_page_of_wf: "fork_wf B rel \<Longrightarrow> fsm_page_wf B (fsm_page_of B rel addr)"
  by (simp add: fsm_page_of_def fsm_blk_page_wf)

lemma length_fsm_slots_of [simp]:
  "fork_wf B rel \<Longrightarrow> length (fsm_slots B (fsm_page_of B rel addr)) = SlotsPerFSMPage B"
  using fsm_page_of_wf length_fsm_slots by blast

lemma fsm_page_of_upd:
  assumes "fsm_blcksz B" "fsm_blk_page B rel' = (fsm_blk_page B rel)(fsm_phys B a := page)"
    "addr_ok B a" "addr_ok B b"
  shows "fsm_page_of B rel' b = (if b = a then page else fsm_page_of B rel b)"
  using physical_inj[OF assms(1), of b a] assms by (simp add: fsm_page_of_def)

lemma fsm_set_and_search_props:
  assumes "fsm_blcksz B" "fork_wf B rel" "slot < SlotsPerFSMPage B"
  obtains r rel' page where
    "fsm_set_and_search B rel addr slot v m search = Some (r, rel')"
    "fork_wf B rel'" "fsm_blk_page B rel' = (fsm_blk_page B rel)(fsm_phys B addr := page)"
    "fsm_page_wf B page" "fsm_slots B page = (fsm_slots B (fsm_page_of B rel addr))[slot := v]"
    "fsm_consistent B (fsm_page_of B rel addr) \<Longrightarrow> fsm_consistent B page"
    "length (fork_pages rel') = max (length (fork_pages rel)) (fsm_phys B addr + 1)"
    "if m \<noteq> 0 \<and> search
     then (r \<noteq> - 1 \<longrightarrow> 0 \<le> r \<and> nat r < SlotsPerFSMPage B \<and> m \<le> fsm_slots B page ! nat r) \<and>
       (m \<le> v \<longrightarrow> r \<noteq> - 1)
     else r = - 1"
proof -
  obtain rb rel1 where rd: "fsm_readbuf B rel addr True = (rb, rel1)" by force
  note rc = fsm_readbuf_cases[OF assms(2) rd]
  let ?b = "fsm_phys B addr"
  have rb: "rb = Some ?b" using rc(3) by simp
  have buf: "buffer_ok B rel1 ?b" using rc(4)[OF rb] .
  have page: "buffer_page rel1 ?b = fsm_page_of B rel addr"
    using buffer_page_blk[OF buf] rc(2) by (simp add: fsm_page_of_def)
  have pwf: "fsm_page_wf B (fsm_page_of B rel addr)" by (rule fsm_page_of_wf[OF assms(2)])
  obtain c p where s: "fsm_set_avail B (fsm_page_of B rel addr) slot v = (c, p)" by force
  note sp = fsm_set_avail_wf[OF assms(1) pwf assms(3) s]
  let ?r1 = "set_buffer_page rel1 ?b p"
  note b1 = set_buffer_page_props[OF buf sp(1)]
  show ?thesis
  proof (cases "m \<noteq> 0 \<and> search")
    case False
    have "fsm_set_and_search B rel addr slot v m search = Some (- 1, ?r1)"
      unfolding fsm_set_and_search_def rd rb page s using False page s by (auto simp: Let_def)
    then show ?thesis
      using b1 sp rc False
      by (intro that[of "- 1" ?r1 p]) auto
  next
    case True
    let ?adv = "level addr = FSM_BOTTOM_LEVEL"
    obtain r p' where q: "fsm_search_avail B p m ?adv = Some (r, p')" "fsm_page_wf B p'"
      "fsm_slots B p' = fsm_slots B p" "fsm_consistent B p \<longrightarrow> fsm_consistent B p'"
      "if r = - 1 then fp_nodes p ! 0 < m \<or> (\<forall>slot < SlotsPerFSMPage B. fsm_slots B p ! slot < m)
       else 0 \<le> r \<and> nat r < SlotsPerFSMPage B \<and> m \<le> fsm_slots B p ! nat r"
      using fsm_search_avail_ok[OF assms(1) sp(1)] by blast
    have found: "m \<le> v \<longrightarrow> r \<noteq> - 1"
      using fsm.search_after_set[OF conjI[OF assms(1) pwf] assms(3) s, of m ?adv] q(1) by auto
    note b2 = set_buffer_page_props[OF b1(1) q(2)]
    have "fsm_set_and_search B rel addr slot v m search = Some (r, set_buffer_page ?r1 ?b p')"
      unfolding fsm_set_and_search_def rd rb page s using True page s q(1) by (auto simp: Let_def)
    then show ?thesis
      using b2 b1 sp rc True q found
      by (intro that[of r "set_buffer_page ?r1 ?b p'" p']) (auto split: if_splits)
  qed
qed

lemma fsm_record_heap_cat:
  assumes "fsm_blcksz B" "fork_wf B rel" "fsm_get_location B h = (addr, slot)" "h < 4294967296"
    "fsm_blk_page B rel' = (fsm_blk_page B rel)(fsm_phys B addr := page)"
    "fsm_slots B page = (fsm_slots B (fsm_page_of B rel addr))[slot := v]"
  shows "fsm_heap_cat B rel' = (fsm_heap_cat B rel)(h := v)"
proof
  fix h'
  note S = slots_pos[OF assms(1)]
  note ls = location_props[OF S assms(3)]
  have ok: "addr_ok B addr" using location_addr_ok[OF assms(1,4)] assms(3) by simp
  obtain addr' slot' where loc': "fsm_get_location B h' = (addr', slot')" by force
  note ls' = location_props[OF S loc']
  have "h' = h \<longleftrightarrow> addr' = addr \<and> slot' = slot" using assms(3) loc' ls(4) ls'(4) by (metis prod.inject)
  then show "fsm_heap_cat B rel' h' = ((fsm_heap_cat B rel)(h := v)) h'"
    using fsm_page_of_upd[OF assms(1,5) ok, of addr'] ls ls' assms(2,3,6) loc' ok
    by (auto simp: fsm_heap_cat_def fsm_view_def)
qed

lemma fsm_rel_wf_record:
  "fsm_rel_wf B rel \<Longrightarrow> h < 4294967296 \<Longrightarrow> fork_wf B rel' \<Longrightarrow>
   fsm_heap_cat B rel' = (fsm_heap_cat B rel)(h := v) \<Longrightarrow> fsm_rel_wf B rel'"
  by (simp add: fsm_rel_wf_def)

lemma RecordPageWithFreeSpace_props:
  assumes "fsm_blcksz B" "fsm_rel_wf B rel" "h < 4294967296"
  shows "\<exists>rel'. RecordPageWithFreeSpace B rel h a = Some rel' \<and> fsm_rel_wf B rel' \<and>
    fsm_heap_cat B rel' = (fsm_heap_cat B rel)(h := fsm_space_avail_to_cat B a) \<and>
    (\<forall>addr. addr_ok B addr \<and> addr \<noteq> fst (fsm_get_location B h) \<longrightarrow>
       fsm_page_of B rel' addr = fsm_page_of B rel addr)"
proof -
  note wf = fsm_rel_wf_fork[OF assms(2)]
  obtain addr slot where loc: "fsm_get_location B h = (addr, slot)" by force
  note ls = location_props[OF slots_pos[OF assms(1)] loc]
  have ok: "addr_ok B addr" using location_addr_ok[OF assms(1,3)] loc by simp
  obtain r rel' page where s: "fsm_set_and_search B rel addr slot (fsm_space_avail_to_cat B a) 0 True = Some (r, rel')"
    "fork_wf B rel'" "fsm_blk_page B rel' = (fsm_blk_page B rel)(fsm_phys B addr := page)"
    "fsm_slots B page = (fsm_slots B (fsm_page_of B rel addr))[slot := fsm_space_avail_to_cat B a]"
    using fsm_set_and_search_props[OF assms(1) wf ls(1), of addr "fsm_space_avail_to_cat B a" 0 True] by metis
  have upd: "fsm_page_of B rel' b = (if b = addr then page else fsm_page_of B rel b)"
    if "addr_ok B b" for b
    using fsm_page_of_upd[OF assms(1) s(3) ok that] by simp
  have cat: "fsm_heap_cat B rel' = (fsm_heap_cat B rel)(h := fsm_space_avail_to_cat B a)"
    by (rule fsm_record_heap_cat[OF assms(1) wf loc assms(3) s(3,4)])
  then show ?thesis
    using s(1) loc upd fsm_rel_wf_record[OF assms(2,3) s(2)] by (auto simp: RecordPageWithFreeSpace_def)
qed

lemma GetRecordedFreeSpace_props:
  assumes "fsm_blcksz B" "fork_wf B rel" "GetRecordedFreeSpace B rel h = (n, rel')" "h < 4294967296"
  shows "n = fsm_space_cat_to_avail B (fsm_heap_cat B rel h)" "fork_wf B rel'"
    "fsm_blk_page B rel' = fsm_blk_page B rel"
proof -
  obtain addr slot where loc: "fsm_get_location B h = (addr, slot)" by force
  obtain rb rel1 where rd: "fsm_readbuf B rel addr False = (rb, rel1)" by force
  note rc = fsm_readbuf_cases[OF assms(2) rd]
  note slot = location_props(1)[OF slots_pos[OF assms(1)] loc]
  have "n = fsm_space_cat_to_avail B (fsm_view B rel addr slot) \<and> rel' = rel1"
  proof (cases rb)
    case None
    then have "length (fork_pages rel) \<le> fsm_phys B addr" using rc(3) by (auto split: if_splits)
    then have "fsm_page_of B rel addr = page_contents (PageInit B)"
      by (simp add: fsm_page_of_def fsm_blk_page_def)
    then show ?thesis
      using assms(3) None slot
      by (simp add: GetRecordedFreeSpace_def loc rd fsm_view_def PageInit_slots fsm_space_cat_to_avail_def)
  next
    case (Some b)
    have "buffer_page rel1 b = fsm_page_of B rel addr"
      using buffer_page_blk[OF rc(4)[OF Some]] rc(2,3) Some by (simp add: fsm_page_of_def split: if_splits)
    then show ?thesis
      using assms(3) Some fsm_get_avail_slots[OF assms(1) fsm_page_of_wf[OF assms(2)] slot]
      by (simp add: GetRecordedFreeSpace_def loc rd fsm_view_def)
  qed
  then show "n = fsm_space_cat_to_avail B (fsm_heap_cat B rel h)" "fork_wf B rel'"
    "fsm_blk_page B rel' = fsm_blk_page B rel"
    using rc location_addr_ok[OF assms(1,4)] by (auto simp: fsm_heap_cat_def loc)
qed

section \<open>Searching\<close>

lemma fsm_search_page_props:
  assumes "fsm_blcksz B" "fork_wf B rel"
  obtains slot ma rel' page where
    "fsm_search_page B rel addr m = Some (slot, ma, rel')"
    "fork_wf B rel'" "fsm_blk_page B rel' = (fsm_blk_page B rel)(fsm_phys B addr := page)"
    "fsm_page_wf B page" "fsm_slots B page = fsm_slots B (fsm_page_of B rel addr)"
    "fsm_consistent B (fsm_page_of B rel addr) \<Longrightarrow> fsm_consistent B page"
    "if slot = - 1 then fsm_consistent B (fsm_page_of B rel addr) \<longrightarrow> m \<noteq> 0 \<longrightarrow>
         (\<forall>s < SlotsPerFSMPage B. fsm_view B rel addr s < m)
     else 0 \<le> slot \<and> nat slot < SlotsPerFSMPage B \<and> m \<le> fsm_view B rel addr (nat slot)"
proof -
  obtain rb rel1 where rd: "fsm_readbuf B rel addr False = (rb, rel1)" by force
  note rc = fsm_readbuf_cases[OF assms(2) rd]
  let ?p = "fsm_page_of B rel addr"
  have pwf: "fsm_page_wf B ?p" by (rule fsm_page_of_wf[OF assms(2)])
  show ?thesis
  proof (cases rb)
    case None
    then have "length (fork_pages rel) \<le> fsm_phys B addr" using rc(3) by (auto split: if_splits)
    then have pg: "?p = page_contents (PageInit B)" by (simp add: fsm_page_of_def fsm_blk_page_def)
    have "fsm_search_page B rel addr m = Some (- 1, 0, rel1)"
      using None by (simp add: fsm_search_page_def rd)
    then show ?thesis
    proof (rule that)
      show "fork_wf B rel1" by (rule rc(1))
      show "fsm_blk_page B rel1 = (fsm_blk_page B rel)(fsm_phys B addr := ?p)"
        unfolding rc(2) by (simp add: fsm_page_of_def)
      show "if - 1 = - 1 then fsm_consistent B ?p \<longrightarrow> m \<noteq> 0 \<longrightarrow>
            (\<forall>s < SlotsPerFSMPage B. fsm_view B rel addr s < m)
          else 0 \<le> (- 1 :: int) \<and> nat (- 1) < SlotsPerFSMPage B \<and> m \<le> fsm_view B rel addr (nat (- 1))"
        using pg by (simp add: fsm_view_def PageInit_slots word_neq_0_conv)
    qed (use pwf in simp_all)
  next
    case (Some b)
    then have b: "b = fsm_phys B addr" using rc(3) by (auto split: if_splits)
    have buf: "buffer_ok B rel1 b" by (rule rc(4)[OF Some])
    have page: "buffer_page rel1 b = ?p"
      using buffer_page_blk[OF buf] rc(2) b by (simp add: fsm_page_of_def)
    let ?adv = "level addr = FSM_BOTTOM_LEVEL"
    obtain r p' where q: "fsm_search_avail B ?p m ?adv = Some (r, p')" "fsm_page_wf B p'"
      "fsm_slots B p' = fsm_slots B ?p" "fsm_consistent B ?p \<longrightarrow> fsm_consistent B p'"
      "if r = - 1 then fp_nodes ?p ! 0 < m \<or> (\<forall>slot < SlotsPerFSMPage B. fsm_slots B ?p ! slot < m)
       else 0 \<le> r \<and> nat r < SlotsPerFSMPage B \<and> m \<le> fsm_slots B ?p ! nat r"
      using fsm_search_avail_ok[OF assms(1) pwf] by blast
    note b2 = set_buffer_page_props[OF buf q(2)]
    have "fsm_search_page B rel addr m =
        Some (r, if r = - 1 then fsm_get_max_avail p' else 0, set_buffer_page rel1 b p')"
      using Some q(1) page by (simp add: fsm_search_page_def rd)
    then show ?thesis
    proof (rule that)
      show "fsm_blk_page B (set_buffer_page rel1 b p') = (fsm_blk_page B rel)(fsm_phys B addr := p')"
        using b2(2) rc(2) b by simp
      have "fp_nodes ?p ! 0 < m \<Longrightarrow> fsm_consistent B ?p \<Longrightarrow> s < SlotsPerFSMPage B \<Longrightarrow>
          fsm_slots B ?p ! s < m" for s
        using fsm_slot_le_root[OF assms(1)] order_le_less_trans by blast
      then show "if r = - 1 then fsm_consistent B ?p \<longrightarrow> m \<noteq> 0 \<longrightarrow>
            (\<forall>s < SlotsPerFSMPage B. fsm_view B rel addr s < m)
          else 0 \<le> r \<and> nat r < SlotsPerFSMPage B \<and> m \<le> fsm_view B rel addr (nat r)"
        using q(5) by (auto simp: fsm_view_def)
    qed (use b2(4) q in simp_all)
  qed
qed

text \<open>
  The search returns on every map, however stale its upper levels are: each restart counts,
  each descent goes down a level. It leaves the categories of all heap blocks alone, and a
  block that it returns has the category that was asked for.
\<close>

definition fsm_search_result :: "nat \<Rightarrow> fsm_relation \<Rightarrow> uint8 \<Rightarrow> (BlockNumber \<times> fsm_relation) option \<Rightarrow> bool" where
  "fsm_search_result B rel m res \<longleftrightarrow> (\<exists>blk rel'. res = Some (blk, rel') \<and> fsm_rel_wf B rel' \<and>
     fsm_heap_cat B rel' = fsm_heap_cat B rel \<and>
     (blk \<noteq> InvalidBlockNumber \<longrightarrow> m \<le> fsm_heap_cat B rel blk))"

lemma fsm_heap_cat_cong:
  assumes "fsm_blcksz B"
    "\<And>addr. addr_ok B addr \<Longrightarrow> level addr = 0 \<Longrightarrow>
       fsm_slots B (fsm_page_of B rel' addr) = fsm_slots B (fsm_page_of B rel addr)"
  shows "fsm_heap_cat B rel' = fsm_heap_cat B rel"
proof (rule ext)
  fix h
  obtain addr slot where loc: "fsm_get_location B h = (addr, slot)" by force
  then have "level addr = 0" using location_props(2)[OF slots_pos[OF assms(1)]] by blast
  then show "fsm_heap_cat B rel' h = fsm_heap_cat B rel h"
    using assms(2) loc by (simp add: fsm_heap_cat_def fsm_view_def)
qed

lemma fsm_search_result_trans:
  "fsm_heap_cat B rel1 = fsm_heap_cat B rel \<Longrightarrow> fsm_search_result B rel1 m res \<Longrightarrow> fsm_search_result B rel m res"
  by (simp add: fsm_search_result_def)

lemma fsm_search_page_heap_cat:
  assumes "fsm_blcksz B" "addr_ok B addr"
    "fsm_blk_page B rel' = (fsm_blk_page B rel)(fsm_phys B addr := page)"
    "fsm_slots B page = fsm_slots B (fsm_page_of B rel addr)"
  shows "fsm_heap_cat B rel' = fsm_heap_cat B rel"
  using fsm_page_of_upd[OF assms(1,3,2)] assms(4) by (intro fsm_heap_cat_cong[OF assms(1)]) simp

lemma fsm_search_loop_result:
  "fs_blcksz B \<Longrightarrow> fsm_rel_wf B rel \<Longrightarrow> in_tree B addr \<Longrightarrow>
   fsm_search_result B rel m (fsm_search_loop B m restarts addr rel)"
proof (induction B m restarts addr rel rule: fsm_search_loop.induct)
  case (1 B m restarts addr rel)
  note fs = 1(3) and wf = 1(4) and tree = 1(5)
  note B = fs_blcksz_fsm[OF fs] and ok = in_tree_addr_ok[OF fs tree]
  obtain slot ma rel1 page where s: "fsm_search_page B rel addr m = Some (slot, ma, rel1)"
    "fork_wf B rel1" "fsm_blk_page B rel1 = (fsm_blk_page B rel)(fsm_phys B addr := page)"
    "fsm_slots B page = fsm_slots B (fsm_page_of B rel addr)"
    "slot \<noteq> - 1 \<longrightarrow> 0 \<le> slot \<and> nat slot < SlotsPerFSMPage B \<and> m \<le> fsm_view B rel addr (nat slot)"
    by (rule fsm_search_page_props[OF B fsm_rel_wf_fork[OF wf], of addr m]) (auto split: if_splits)
  have cat1: "fsm_heap_cat B rel1 = fsm_heap_cat B rel"
    by (rule fsm_search_page_heap_cat[OF B ok s(3,4)])
  note wf1 = fsm_rel_wf_cong[OF wf s(2) cat1]
  show ?case
  proof (cases "slot = - 1")
    case False
    show ?thesis
    proof (cases "level addr = 0")
      case True
      have "m \<le> fsm_heap_cat B rel (fsm_get_heap_blk B addr (nat slot))"
        using leaf_slot_heap_cat[OF B wf ok True] s(5) False by blast
      moreover have "fsm_search_loop B m restarts addr rel = Some (fsm_get_heap_blk B addr (nat slot), rel1)"
        using s(1) False True by (simp add: fsm_search_loop.simps)
      ultimately show ?thesis using wf1 cat1 by (auto simp: fsm_search_result_def)
    next
      case lv: False
      have "in_tree B (fsm_get_child B addr (nat slot))"
        using child_in_tree[OF fs tree] lv s(5) False by blast
      then have "fsm_search_result B rel1 m (fsm_search_loop B m restarts (fsm_get_child B addr (nat slot)) rel1)"
        using 1(1)[OF s(1) refl refl False lv fs wf1] by blast
      moreover have "fsm_search_loop B m restarts addr rel =
          fsm_search_loop B m restarts (fsm_get_child B addr (nat slot)) rel1"
        using s(1) False lv by (subst fsm_search_loop.simps) simp
      ultimately show ?thesis using fsm_search_result_trans[OF cat1] by simp
    qed
  next
    case True
    show ?thesis
    proof (cases "level addr = FSM_ROOT_LEVEL B")
      case root: True
      then have "fsm_search_loop B m restarts addr rel = Some (InvalidBlockNumber, rel1)"
        using s(1) True by (subst fsm_search_loop.simps) simp
      then show ?thesis using wf1 cat1 by (simp add: fsm_search_result_def)
    next
      case nroot: False
      obtain parent ps where par: "fsm_get_parent B addr = (parent, ps)" by force
      have pp: "level parent = level addr + 1" "ps < SlotsPerFSMPage B" "addr_ok B parent"
        using parent_props[OF par B ok] addr_ok_level[OF ok] nroot by auto
      obtain r rel2 page2 where u: "fsm_set_and_search B rel1 parent ps ma 0 True = Some (r, rel2)"
        "fork_wf B rel2" "fsm_blk_page B rel2 = (fsm_blk_page B rel1)(fsm_phys B parent := page2)"
        using fsm_set_and_search_props[OF B s(2) pp(2), of parent ma 0 True] by metis
      have "fsm_page_of B rel2 a = fsm_page_of B rel1 a" if "addr_ok B a" "level a = 0" for a
        using fsm_page_of_upd[OF B u(3) pp(3) that(1)] pp(1) that(2) by auto
      then have cat2: "fsm_heap_cat B rel2 = fsm_heap_cat B rel"
        using fsm_heap_cat_cong[OF B, of rel2 rel1] cat1 by simp
      note wf2 = fsm_rel_wf_cong[OF wf u(2) cat2]
      show ?thesis
      proof (cases "restarts > 10000")
        case stop: True
        then have "fsm_search_loop B m restarts addr rel = Some (InvalidBlockNumber, rel2)"
          using s(1) True nroot par u(1) by (subst fsm_search_loop.simps) simp
        then show ?thesis using wf2 cat2 by (simp add: fsm_search_result_def)
      next
        case go: False
        have "fsm_search_result B rel2 m (fsm_search_loop B m (restarts + 1) (g_fsm_root_address B) rel2)"
          by (rule 1(2)[OF s(1) refl refl _ nroot par[symmetric] u(1) refl go fs wf2])
            (simp_all add: True slots_pos[OF B])
        moreover have "fsm_search_loop B m restarts addr rel =
            fsm_search_loop B m (restarts + 1) (g_fsm_root_address B) rel2"
          using s(1) True nroot par u(1) go by (subst fsm_search_loop.simps) simp
        ultimately show ?thesis using fsm_search_result_trans[OF cat2] by simp
      qed
    qed
  qed
qed

end
