(* ===== verification/Fsm_Vacuum.thy ===== *)
theory Fsm_Vacuum
  imports Free_Space
begin

text \<open>
  The upper levels of the free space map. \<open>fsm_tree_ok\<close> says that every slot of an upper
  page holds the maximum of the page below it; \<open>FreeSpaceMapVacuum\<close> establishes it, and on
  such a map \<open>fsm_search\<close> finds a block whenever there is one. Then the public operations:
  recording and reading back, recommending a block, truncation and the index map.
\<close>

section \<open>Subtrees of logical addresses\<close>

definition below :: "nat \<Rightarrow> FSMAddress \<Rightarrow> FSMAddress \<Rightarrow> bool" where
  "below B addr a \<longleftrightarrow> level a \<le> level addr \<and>
     logpageno a div SlotsPerFSMPage B ^ (level addr - level a) = logpageno addr"

lemma below_refl [simp]: "below B addr addr"
  by (simp add: below_def)

lemma below_level: "below B addr a \<Longrightarrow> level a \<le> level addr"
  by (simp add: below_def)

lemma level_child [simp]: "level (fsm_get_child B addr s) = level addr - 1"
  by (simp add: fsm_get_child_def)

lemma below_child_iff:
  assumes "fsm_blcksz B" "addr_ok B addr" "0 < level addr" "s < SlotsPerFSMPage B"
  shows "below B (fsm_get_child B addr s) a \<longleftrightarrow> below B addr a \<and> level a < level addr \<and>
    logpageno a div SlotsPerFSMPage B ^ (level addr - 1 - level a) mod SlotsPerFSMPage B = s"
proof (cases "level a < level addr")
  case True
  let ?S = "SlotsPerFSMPage B" and ?q = "logpageno a div SlotsPerFSMPage B ^ (level addr - 1 - level a)"
  have "logpageno a div ?S ^ (level addr - level a) = ?q div ?S"
  proof -
    have "level addr - level a = Suc (level addr - 1 - level a)" using True by simp
    then show ?thesis by (simp add: div_mult2_eq[symmetric] mult.commute)
  qed
  moreover have "?q = logpageno addr * ?S + s \<longleftrightarrow> ?q div ?S = logpageno addr \<and> ?q mod ?S = s"
  proof
    assume "?q = logpageno addr * ?S + s"
    then show "?q div ?S = logpageno addr \<and> ?q mod ?S = s" using assms(4) by simp
  next
    assume "?q div ?S = logpageno addr \<and> ?q mod ?S = s"
    then show "?q = logpageno addr * ?S + s" using div_mult_mod_eq[of ?q ?S] by simp
  qed
  ultimately show ?thesis using True by (auto simp: below_def child_eq[OF assms])
next
  case False
  then show ?thesis using assms(3) by (auto simp: below_def)
qed

lemma below_child:
  "below B (fsm_get_child B addr s) a \<Longrightarrow> fsm_blcksz B \<Longrightarrow> addr_ok B addr \<Longrightarrow> 0 < level addr \<Longrightarrow>
   s < SlotsPerFSMPage B \<Longrightarrow> below B addr a"
  by (simp add: below_child_iff)

lemma below_child_disjoint:
  "below B (fsm_get_child B addr s) a \<Longrightarrow> below B (fsm_get_child B addr t) a \<Longrightarrow> fsm_blcksz B \<Longrightarrow>
   addr_ok B addr \<Longrightarrow> 0 < level addr \<Longrightarrow> s < SlotsPerFSMPage B \<Longrightarrow> t < SlotsPerFSMPage B \<Longrightarrow> s = t"
  by (simp add: below_child_iff)

lemma below_cases:
  assumes "below B addr a" "a \<noteq> addr" "fsm_blcksz B" "addr_ok B addr"
  obtains s where "s < SlotsPerFSMPage B" "below B (fsm_get_child B addr s) a" "0 < level addr"
proof -
  have "level a < level addr"
  proof (rule ccontr)
    assume "\<not> level a < level addr"
    then have "level a = level addr" using below_level[OF assms(1)] by simp
    then have "a = addr" using assms(1) by (cases a; cases addr) (simp add: below_def)
    then show False using assms(2) by simp
  qed
  then show ?thesis
    using assms that[of "logpageno a div SlotsPerFSMPage B ^ (level addr - 1 - level a) mod SlotsPerFSMPage B"]
      slots_pos[OF assms(3)] by (simp add: below_child_iff)
qed

lemma below_trans_child:
  assumes "below B addr a" "0 < level a" "s < SlotsPerFSMPage B" "fsm_blcksz B" "addr_ok B a"
  shows "below B addr (fsm_get_child B a s)"
proof -
  have l: "level addr - (level a - 1) = Suc (level addr - level a)"
    using assms(2) below_level[OF assms(1)] by simp
  have "(logpageno a * SlotsPerFSMPage B + s) div SlotsPerFSMPage B = logpageno a" using assms(3) by simp
  then have "(logpageno a * SlotsPerFSMPage B + s) div SlotsPerFSMPage B ^ (level addr - (level a - 1)) =
      logpageno a div SlotsPerFSMPage B ^ (level addr - level a)"
    unfolding l power_Suc by (simp only: div_mult2_eq)
  then show ?thesis
    using assms(1) below_level[OF assms(1)] child_eq[OF assms(4,5,2,3)] by (simp add: below_def)
qed

text \<open>What is below a page of the tree belongs to the tree.\<close>

lemma below_in_tree:
  assumes "below B addr a" "in_tree B addr" "0 < SlotsPerFSMPage B"
  shows "in_tree B a"
proof -
  let ?S = "SlotsPerFSMPage B" and ?r = "FSM_ROOT_LEVEL B"
  have l: "level a \<le> level addr" "level addr \<le> ?r" using assms(1,2) by (simp_all add: below_def in_tree_def)
  have "logpageno a div ?S ^ (level addr - level a) < ?S ^ (?r - level addr)"
    using assms(1,2) by (simp add: below_def in_tree_def)
  then have "logpageno a < ?S ^ (?r - level addr) * ?S ^ (level addr - level a)"
    using assms(3) by (simp add: div_less_iff_less_mult)
  also have "\<dots> = ?S ^ (?r - level a)" using l by (simp add: power_add[symmetric])
  finally show ?thesis using l by (simp add: in_tree_def)
qed

lemma in_tree_below: "in_tree B a \<longleftrightarrow> below B (g_fsm_root_address B) a" if "0 < SlotsPerFSMPage B"
  using that by (auto simp: in_tree_def below_def g_fsm_root_address_def div_eq_0_iff)

text \<open>A page precedes everything below it in the fork.\<close>

lemma below_first_leaf:
  assumes "below B addr a"
  shows "first_leaf B addr \<le> first_leaf B a"
proof -
  let ?S = "SlotsPerFSMPage B"
  have "first_leaf B addr =
      logpageno a div ?S ^ (level addr - level a) * ?S ^ (level addr - level a) * ?S ^ level a"
    using assms by (simp add: first_leaf_def below_def power_add[symmetric] mult.assoc)
  also have "\<dots> \<le> logpageno a * ?S ^ level a" by (intro mult_right_mono) simp_all
  finally show ?thesis by (simp add: first_leaf_def)
qed

lemma below_physical_le:
  assumes "fsm_blcksz B" "below B addr a" "addr_ok B addr" "addr_ok B a"
  shows "fsm_phys B addr \<le> fsm_phys B a"
proof (cases "a = addr")
  case False
  have "first_leaf B addr < first_leaf B a \<or> (first_leaf B addr = first_leaf B a \<and> level a < level addr)"
  proof (cases "level a = level addr")
    case True
    then have "a = addr" using assms(2) by (cases a; cases addr) (simp add: below_def)
    then show ?thesis using False by simp
  qed (use below_first_leaf[OF assms(2)] below_level[OF assms(2)] in auto)
  then show ?thesis using physical_less[OF assms(1,3,4)] by simp
qed simp

lemma child_physical_mono:
  assumes "fs_blcksz B" "in_tree B addr" "0 < level addr" "s \<le> t" "t < SlotsPerFSMPage B"
  shows "fsm_phys B (fsm_get_child B addr s) \<le> fsm_phys B (fsm_get_child B addr t)"
proof (cases "s = t")
  case False
  note B = fs_blcksz_fsm[OF assms(1)] and ok = in_tree_addr_ok[OF assms(1)]
  have "first_leaf B (fsm_get_child B addr s) < first_leaf B (fsm_get_child B addr t)"
    using False assms(4,5) slots_pos[OF B] child_eq[OF B ok[OF assms(2)] assms(3)]
    by (simp add: first_leaf_def)
  moreover have "addr_ok B (fsm_get_child B addr s)" "addr_ok B (fsm_get_child B addr t)"
    using ok child_in_tree[OF assms(1-3)] assms(4,5) by auto
  ultimately show ?thesis using physical_less[OF B] by (simp add: less_imp_le)
qed simp

section \<open>The tree invariant\<close>

definition fsm_max :: "nat \<Rightarrow> fsm_relation \<Rightarrow> FSMAddress \<Rightarrow> uint8" where
  "fsm_max B rel addr = Max (set (fsm_slots B (fsm_page_of B rel addr)))"

definition fork_ok :: "nat \<Rightarrow> fsm_relation \<Rightarrow> bool" where
  "fork_ok B rel \<longleftrightarrow> fork_wf B rel \<and> (\<forall>n. fsm_consistent B (fsm_blk_page B rel n))"

definition sub_ok :: "nat \<Rightarrow> fsm_relation \<Rightarrow> FSMAddress \<Rightarrow> bool" where
  "sub_ok B rel addr \<longleftrightarrow> (\<forall>a s. below B addr a \<and> 0 < level a \<and> s < SlotsPerFSMPage B \<longrightarrow>
     fsm_view B rel a s = fsm_max B rel (fsm_get_child B a s))"

lemma fork_ok_upd:
  "fork_ok B rel \<Longrightarrow> fork_wf B rel' \<Longrightarrow> fsm_blk_page B rel' = (fsm_blk_page B rel)(n := page) \<Longrightarrow>
   fsm_consistent B page \<Longrightarrow> fork_ok B rel'"
  by (simp add: fork_ok_def)

lemma fork_ok_page: "fork_ok B rel \<Longrightarrow> fsm_consistent B (fsm_page_of B rel addr)"
  by (simp add: fork_ok_def fsm_page_of_def)

lemma fsm_max_cong:
  "fsm_slots B (fsm_page_of B rel' a) = fsm_slots B (fsm_page_of B rel a) \<Longrightarrow> fsm_max B rel' a = fsm_max B rel a"
  by (simp add: fsm_max_def)

lemma fsm_view_le_max:
  "fork_wf B rel \<Longrightarrow> s < SlotsPerFSMPage B \<Longrightarrow> fsm_view B rel a s \<le> fsm_max B rel a"
  unfolding fsm_view_def fsm_max_def by (intro Max_ge) simp_all

lemma fsm_max_root:
  "fsm_blcksz B \<Longrightarrow> fork_ok B rel \<Longrightarrow> fsm_max B rel a = fsm_get_max_avail (fsm_page_of B rel a)"
  using fsm_root_is_max fork_ok_page by (simp add: fsm_max_def fsm_get_max_avail_def)

lemma sub_ok_cong:
  assumes "fs_blcksz B" "in_tree B addr" "sub_ok B rel addr"
    "\<And>a. below B addr a \<Longrightarrow> fsm_slots B (fsm_page_of B rel' a) = fsm_slots B (fsm_page_of B rel a)"
  shows "sub_ok B rel' addr"
  unfolding sub_ok_def
proof (intro allI impI)
  fix a s
  assume a: "below B addr a \<and> 0 < level a \<and> s < SlotsPerFSMPage B"
  note B = fs_blcksz_fsm[OF assms(1)]
  have "addr_ok B a" using below_in_tree[OF _ assms(2) slots_pos[OF B]] a in_tree_addr_ok[OF assms(1)] by blast
  then have "below B addr (fsm_get_child B a s)" using below_trans_child[OF _ _ _ B] a by blast
  then show "fsm_view B rel' a s = fsm_max B rel' (fsm_get_child B a s)"
    using assms(3) a fsm_max_cong[OF assms(4)] assms(4)[of a] by (simp add: sub_ok_def fsm_view_def)
qed

lemma sub_ok_children:
  assumes "fsm_blcksz B" "addr_ok B addr" "0 < level addr"
    "\<And>s. s < SlotsPerFSMPage B \<Longrightarrow> fsm_view B rel addr s = fsm_max B rel (fsm_get_child B addr s) \<and>
      sub_ok B rel (fsm_get_child B addr s)"
  shows "sub_ok B rel addr"
  unfolding sub_ok_def
proof (intro allI impI)
  fix a s
  assume a: "below B addr a \<and> 0 < level a \<and> s < SlotsPerFSMPage B"
  show "fsm_view B rel a s = fsm_max B rel (fsm_get_child B a s)"
  proof (cases "a = addr")
    case False
    then obtain t where "t < SlotsPerFSMPage B" "below B (fsm_get_child B addr t) a"
      using below_cases a assms(1,2) by metis
    then show ?thesis using assms(4) a unfolding sub_ok_def by blast
  qed (use assms(4) a in simp)
qed

text \<open>Beyond the end of the fork everything is zero.\<close>

lemma fsm_beyond_eof:
  assumes "fsm_blcksz B" "length (fork_pages rel) \<le> fsm_phys B addr"
  shows "fsm_slots B (fsm_page_of B rel addr) = replicate (SlotsPerFSMPage B) 0" "fsm_max B rel addr = 0"
proof -
  show "fsm_slots B (fsm_page_of B rel addr) = replicate (SlotsPerFSMPage B) 0"
    using assms(2) by (simp add: fsm_page_of_def fsm_blk_page_def PageInit_slots)
  then show "fsm_max B rel addr = 0" using slots_pos[OF assms(1)] by (simp add: fsm_max_def)
qed

lemma sub_ok_eof:
  assumes "fs_blcksz B" "length (fork_pages rel) \<le> fsm_phys B addr" "in_tree B addr"
  shows "sub_ok B rel addr"
  unfolding sub_ok_def
proof (intro allI impI)
  fix a s
  assume a: "below B addr a \<and> 0 < level a \<and> s < SlotsPerFSMPage B"
  note B = fs_blcksz_fsm[OF assms(1)] and ok = in_tree_addr_ok[OF assms(1)]
  have tree: "in_tree B a" using below_in_tree[OF _ assms(3) slots_pos[OF B]] a by blast
  then have "below B addr (fsm_get_child B a s)" using below_trans_child[OF _ _ _ B ok] a by blast
  then have "length (fork_pages rel) \<le> fsm_phys B a" "length (fork_pages rel) \<le> fsm_phys B (fsm_get_child B a s)"
    using below_physical_le[OF B _ ok[OF assms(3)]] a assms(2) ok[OF tree] ok[OF child_in_tree[OF assms(1) tree]]
    by (meson order_trans)+
  then show "fsm_view B rel a s = fsm_max B rel (fsm_get_child B a s)"
    using fsm_beyond_eof[OF B] a by (simp add: fsm_view_def)
qed

section \<open>Vacuum\<close>

text \<open>What vacuuming a subtree promises.\<close>

definition vacuum_post :: "nat \<Rightarrow> fsm_relation \<Rightarrow> FSMAddress \<Rightarrow> uint8 \<times> bool \<times> fsm_relation \<Rightarrow> bool" where
  "vacuum_post B rel addr res \<longleftrightarrow> (case res of (m, eof, rel') \<Rightarrow>
     fork_ok B rel' \<and> length (fork_pages rel') = length (fork_pages rel) \<and>
     (eof \<longleftrightarrow> length (fork_pages rel) \<le> fsm_phys B addr) \<and> m = fsm_max B rel' addr \<and>
     sub_ok B rel' addr \<and>
     (\<forall>a. addr_ok B a \<and> \<not> below B addr a \<longrightarrow> fsm_page_of B rel' a = fsm_page_of B rel a) \<and>
     (\<forall>a. addr_ok B a \<and> level a = 0 \<longrightarrow> fsm_slots B (fsm_page_of B rel' a) = fsm_slots B (fsm_page_of B rel a)) \<and>
     (\<forall>b. buffer_ok B rel b \<longrightarrow> buffer_ok B rel' b))"

lemma readbuf_buffer_ok:
  assumes "fork_wf B rel" "fsm_readbuf B rel addr False = (r, rel')" "buffer_ok B rel b"
  shows "buffer_ok B rel' b"
proof -
  let ?b = "fsm_phys B addr"
  have "fork_pages rel' = fork_pages rel \<or>
      (page_is_new (fork_pages rel ! ?b) \<and> fork_pages rel' = (fork_pages rel)[?b := PageInit B])"
    using assms(1,2)
    by (auto simp: fsm_readbuf_def Let_def fork_wf_def smgrnblocks_def fork_pages_None split: if_splits)
  then show ?thesis
    using assms(3) fsm_readbuf_cases(1)[OF assms(1,2)]
    by (cases "b = ?b") (auto simp: buffer_ok_def)
qed

lemma set_buffer_page_buffer_ok:
  "buffer_ok B rel b \<Longrightarrow> fsm_page_wf B page \<Longrightarrow> buffer_ok B rel c \<Longrightarrow> buffer_ok B (set_buffer_page rel b page) c"
  using set_buffer_page_props(4)[of B rel b page]
  by (auto simp: buffer_ok_def set_buffer_page_def nth_list_update)

text \<open>The two ends of a vacuum call: reading the page, and resetting its next-slot pointer.\<close>

lemma vacuum_eof:
  assumes "fs_blcksz B" "fork_ok B rel" "in_tree B addr"
    "fsm_readbuf B rel addr False = (None, rel')"
  shows "vacuum_post B rel addr (0, True, rel')"
proof -
  have wf: "fork_wf B rel" using assms(2) by (simp add: fork_ok_def)
  note rc = fsm_readbuf_cases[OF wf assms(4)]
  have len: "length (fork_pages rel') = length (fork_pages rel)" using rc(5) by simp
  have eof: "length (fork_pages rel') \<le> fsm_phys B addr" using rc(3) len by (simp split: if_splits)
  show ?thesis
    using rc(1,2) assms(2) len eof fsm_beyond_eof(2)[OF fs_blcksz_fsm[OF assms(1)] eof] sub_ok_eof[OF assms(1) eof assms(3)]
      readbuf_buffer_ok[OF wf assms(4)]
    by (auto simp: vacuum_post_def fork_ok_def fsm_page_of_def)
qed

lemma vacuum_finish:
  assumes "fs_blcksz B" "fork_ok B rel2" "in_tree B addr"
    "buffer_ok B rel2 (fsm_phys B addr)" "sub_ok B rel2 addr"
    "length (fork_pages rel2) = length (fork_pages rel)"
    "\<And>a. addr_ok B a \<Longrightarrow> \<not> below B addr a \<Longrightarrow> fsm_page_of B rel2 a = fsm_page_of B rel a"
    "\<And>a. addr_ok B a \<Longrightarrow> level a = 0 \<Longrightarrow> fsm_slots B (fsm_page_of B rel2 a) = fsm_slots B (fsm_page_of B rel a)"
    "\<And>b. buffer_ok B rel b \<Longrightarrow> buffer_ok B rel2 b"
    "page = buffer_page rel2 (fsm_phys B addr)"
  shows "vacuum_post B rel addr (fsm_get_max_avail page, False,
    set_buffer_page rel2 (fsm_phys B addr) (page\<lparr>fp_next_slot := 0\<rparr>))"
proof -
  let ?r = "set_buffer_page rel2 (fsm_phys B addr) (page\<lparr>fp_next_slot := 0\<rparr>)"
  note B = fs_blcksz_fsm[OF assms(1)] and ok = in_tree_addr_ok[OF assms(1)]
  have page: "page = fsm_page_of B rel2 addr"
    using buffer_page_blk[OF assms(4)] assms(10) by (simp add: fsm_page_of_def)
  have cons: "fsm_consistent B (page\<lparr>fp_next_slot := 0\<rparr>)"
    using fork_ok_page[OF assms(2)] page by simp
  note sp = set_buffer_page_props[OF assms(4) fsm_consistent_wf[OF cons]]
  have upd: "fsm_page_of B ?r a = (if a = addr then page\<lparr>fp_next_slot := 0\<rparr> else fsm_page_of B rel2 a)"
    if "addr_ok B a" for a
    using fsm_page_of_upd[OF B sp(2) ok[OF assms(3)] that] .
  then have slots: "fsm_slots B (fsm_page_of B ?r a) = fsm_slots B (fsm_page_of B rel2 a)"
    if "addr_ok B a" for a
    using that page by simp
  have "sub_ok B ?r addr"
    by (rule sub_ok_cong[OF assms(1,3,5) slots[OF ok]]) (rule below_in_tree[OF _ assms(3) slots_pos[OF B]])
  moreover have "fsm_get_max_avail page = fsm_max B ?r addr"
    using fsm_max_cong[OF slots[OF ok[OF assms(3)]]] fsm_max_root[OF B assms(2)] page by simp
  moreover have "\<not> length (fork_pages rel) \<le> fsm_phys B addr"
    using assms(4,6) by (simp add: buffer_ok_def)
  moreover have "buffer_ok B ?r b" if "buffer_ok B rel b" for b
    using set_buffer_page_buffer_ok[OF assms(4) fsm_consistent_wf[OF cons] assms(9)[OF that]] .
  ultimately show ?thesis
    using fork_ok_upd[OF assms(2) sp(4,2) cons] sp(3) assms(6-8) upd slots
    by (auto simp: vacuum_post_def)
qed

text \<open>The invariant of the loop over the children of a page.\<close>

definition vacuum_inv :: "nat \<Rightarrow> fsm_relation \<Rightarrow> FSMAddress \<Rightarrow> nat \<Rightarrow> bool \<times> fsm_relation \<Rightarrow> bool" where
  "vacuum_inv B rel addr j st \<longleftrightarrow> (case st of (eof, rel') \<Rightarrow>
     fork_ok B rel' \<and> buffer_ok B rel' (fsm_phys B addr) \<and>
     length (fork_pages rel') = length (fork_pages rel) \<and>
     (eof \<longrightarrow> (\<forall>s. j \<le> s \<and> s < SlotsPerFSMPage B \<longrightarrow> length (fork_pages rel) \<le> fsm_phys B (fsm_get_child B addr s))) \<and>
     (\<forall>s < j. fsm_view B rel' addr s = fsm_max B rel' (fsm_get_child B addr s) \<and>
        sub_ok B rel' (fsm_get_child B addr s)) \<and>
     (\<forall>a. addr_ok B a \<and> \<not> below B addr a \<longrightarrow> fsm_page_of B rel' a = fsm_page_of B rel a) \<and>
     (\<forall>a. addr_ok B a \<and> level a = 0 \<longrightarrow> fsm_slots B (fsm_page_of B rel' a) = fsm_slots B (fsm_page_of B rel a)) \<and>
     (\<forall>b. buffer_ok B rel b \<longrightarrow> buffer_ok B rel' b))"

text \<open>Storing the child's maximum in its slot, whether or not the slot already holds it.\<close>

lemma vacuum_store:
  assumes "fsm_blcksz B" "fork_ok B rel1" "buffer_ok B rel1 (fsm_phys B addr)" "j < SlotsPerFSMPage B"
    "rel2 = (let page = buffer_page rel1 (fsm_phys B addr) in
       if fsm_get_avail B page j \<noteq> v
       then set_buffer_page rel1 (fsm_phys B addr) (snd (fsm_set_avail B page j v)) else rel1)"
  shows "fork_ok B rel2" "length (fork_pages rel2) = length (fork_pages rel1)"
    "\<And>b. buffer_ok B rel1 b \<Longrightarrow> buffer_ok B rel2 b"
    "\<exists>page. fsm_blk_page B rel2 = (fsm_blk_page B rel1)(fsm_phys B addr := page) \<and>
       fsm_slots B page = (fsm_slots B (fsm_page_of B rel1 addr))[j := v]"
proof -
  let ?p = "fsm_page_of B rel1 addr"
  have page: "buffer_page rel1 (fsm_phys B addr) = ?p"
    using buffer_page_blk[OF assms(3)] by (simp add: fsm_page_of_def)
  have cons: "fsm_consistent B ?p" by (rule fork_ok_page[OF assms(2)])
  have get: "fsm_get_avail B ?p j = fsm_slots B ?p ! j"
    by (rule fsm_get_avail_slots[OF assms(1) fsm_consistent_wf[OF cons] assms(4)])
  obtain c q where s: "fsm_set_avail B ?p j v = (c, q)" by force
  note sp = fsm_set_avail_wf[OF assms(1) fsm_consistent_wf[OF cons] assms(4) s]
  note bp = set_buffer_page_props[OF assms(3) sp(1)]
  have r: "rel2 = (if fsm_slots B ?p ! j \<noteq> v then set_buffer_page rel1 (fsm_phys B addr) q else rel1)"
    unfolding assms(5) Let_def page get s by simp
  show "fork_ok B rel2"
    using fork_ok_upd[OF assms(2) bp(4,2) sp(5)[OF cons]] assms(2) by (simp add: r)
  show "length (fork_pages rel2) = length (fork_pages rel1)" using bp(3) by (simp add: r)
  show "buffer_ok B rel1 b \<Longrightarrow> buffer_ok B rel2 b" for b
    using set_buffer_page_buffer_ok[OF assms(3) sp(1)] by (simp add: r)
  show "\<exists>page. fsm_blk_page B rel2 = (fsm_blk_page B rel1)(fsm_phys B addr := page) \<and>
       fsm_slots B page = (fsm_slots B ?p)[j := v]"
  proof (cases "fsm_slots B ?p ! j = v")
    case True
    then have "(fsm_slots B ?p)[j := v] = fsm_slots B ?p" by auto
    then show ?thesis using True r by (intro exI[of _ ?p]) (auto simp: fsm_page_of_def)
  next
    case False
    then show ?thesis using bp(2) sp(2) r by auto
  qed
qed

text \<open>One iteration of the loop, given that the call on the child keeps its promise.\<close>

lemma vacuum_step:
  assumes "fs_blcksz B" "0 < level addr" "in_tree B addr" "j < SlotsPerFSMPage B"
    and child: "\<And>r. fork_ok B r \<Longrightarrow>
      vacuum_post B r (fsm_get_child B addr j) (vacuum_child r (fsm_get_child B addr j))"
    and inv: "vacuum_inv B rel addr j st"
  shows "vacuum_inv B rel addr (Suc j) (fsm_vacuum_slot B vacuum_child addr (fsm_phys B addr) j st)"
proof -
  let ?c = "fsm_get_child B addr"
  note B = fs_blcksz_fsm[OF assms(1)] and in_ok = in_tree_addr_ok[OF assms(1)]
  note ok = in_ok[OF assms(3)] and ctree = child_in_tree[OF assms(1,3,2)]
  obtain eof0 rel0 where st: "st = (eof0, rel0)" by force
  have I: "fork_ok B rel0" "buffer_ok B rel0 (fsm_phys B addr)"
    "length (fork_pages rel0) = length (fork_pages rel)"
    "eof0 \<Longrightarrow> s \<ge> j \<Longrightarrow> s < SlotsPerFSMPage B \<Longrightarrow> length (fork_pages rel) \<le> fsm_phys B (?c s)"
    "s < j \<Longrightarrow> fsm_view B rel0 addr s = fsm_max B rel0 (?c s)" "s < j \<Longrightarrow> sub_ok B rel0 (?c s)"
    "addr_ok B a \<Longrightarrow> \<not> below B addr a \<Longrightarrow> fsm_page_of B rel0 a = fsm_page_of B rel a"
    "addr_ok B a \<Longrightarrow> level a = 0 \<Longrightarrow> fsm_slots B (fsm_page_of B rel0 a) = fsm_slots B (fsm_page_of B rel a)"
    "buffer_ok B rel b \<Longrightarrow> buffer_ok B rel0 b" for s a b
    using inv by (auto simp: vacuum_inv_def st)
  obtain v eof1 rel1 where c: "(if \<not> eof0 then vacuum_child rel0 (?c j) else (0, eof0, rel0)) = (v, eof1, rel1)"
    by (metis prod_cases3)
  have post: "fork_ok B rel1" "length (fork_pages rel1) = length (fork_pages rel)"
    "eof1 \<longleftrightarrow> length (fork_pages rel) \<le> fsm_phys B (?c j)" "v = fsm_max B rel1 (?c j)"
    "sub_ok B rel1 (?c j)" "buffer_ok B rel0 b \<Longrightarrow> buffer_ok B rel1 b"
    "addr_ok B a \<Longrightarrow> \<not> below B (?c j) a \<Longrightarrow> fsm_page_of B rel1 a = fsm_page_of B rel0 a"
    "addr_ok B a \<Longrightarrow> level a = 0 \<Longrightarrow> fsm_slots B (fsm_page_of B rel1 a) = fsm_slots B (fsm_page_of B rel0 a)" for a b
  proof (atomize (full), cases eof0, goal_cases)
    case 1
    then have "v = 0" "eof1" "rel1 = rel0" using c by auto
    moreover have "length (fork_pages rel0) \<le> fsm_phys B (?c j)" using I(3,4) 1 assms(4) by simp
    ultimately show ?case
      using 1 I(1,3) fsm_beyond_eof(2)[OF B] sub_ok_eof[OF assms(1) _ ctree[OF assms(4)]] by simp
  next
    case 2
    then have "vacuum_post B rel0 (?c j) (v, eof1, rel1)" using child[OF I(1)] c by simp
    then show ?case using I(3) by (simp add: vacuum_post_def)
  qed
  define rel2 where "rel2 = (let page = buffer_page rel1 (fsm_phys B addr) in
       if fsm_get_avail B page j \<noteq> v
       then set_buffer_page rel1 (fsm_phys B addr) (snd (fsm_set_avail B page j v)) else rel1)"
  have res: "fsm_vacuum_slot B vacuum_child addr (fsm_phys B addr) j st = (eof1, rel2)"
    unfolding fsm_vacuum_slot_def st rel2_def by (simp add: c Let_def)
  note vs = vacuum_store[OF B post(1) post(6)[OF I(2)] assms(4) rel2_def]
  obtain page where pg: "fsm_blk_page B rel2 = (fsm_blk_page B rel1)(fsm_phys B addr := page)"
    "fsm_slots B page = (fsm_slots B (fsm_page_of B rel1 addr))[j := v]" using vs(4) by blast
  have upd: "fsm_page_of B rel2 a = (if a = addr then page else fsm_page_of B rel1 a)"
    if "addr_ok B a" for a
    by (rule fsm_page_of_upd[OF B pg(1) ok that])
  have not_below: "\<not> below B (?c s) addr" for s using assms(2) by (auto dest: below_level)
  have sub: "fsm_slots B (fsm_page_of B rel2 a) = fsm_slots B (fsm_page_of B (if s = j then rel1 else rel0) a)"
    if "s \<le> j" "below B (?c s) a" for s a
  proof -
    have s: "s < SlotsPerFSMPage B" using that(1) assms(4) by simp
    have lev: "addr_ok B a" using in_ok[OF below_in_tree[OF that(2) ctree[OF s] slots_pos[OF B]]] .
    have "a \<noteq> addr" using that(2) not_below by blast
    moreover have "s \<noteq> j \<Longrightarrow> \<not> below B (?c j) a"
      using below_child_disjoint[OF that(2) _ B ok assms(2) s] assms(4) by auto
    ultimately show ?thesis using upd[OF lev] post(7)[OF lev] by simp
  qed
  have child_max: "fsm_max B rel2 (?c s) = fsm_max B (if s = j then rel1 else rel0) (?c s)" if "s \<le> j" for s
    by (rule fsm_max_cong[OF sub[OF that below_refl]])
  have "fsm_view B rel2 addr s = fsm_max B rel2 (?c s) \<and> sub_ok B rel2 (?c s)" if "s < Suc j" for s
  proof -
    have s: "s \<le> j" using that by simp
    have len: "j < length (fsm_slots B (fsm_page_of B rel1 addr))"
      using assms(4) post(1) by (simp add: fork_ok_def)
    have v: "fsm_view B rel2 addr s = (if s = j then v else fsm_view B rel0 addr s)"
      using upd[OF ok] pg(2) len post(7)[OF ok not_below] by (simp add: fsm_view_def)
    have "sub_ok B rel2 (?c s)"
      by (rule sub_ok_cong[of B _ "if s = j then rel1 else rel0"])
        (use assms(1,4) ctree post(5) I(6) s sub in auto)
    then show ?thesis using v child_max[OF s] post(4) I(5) s by (cases "s = j") simp_all
  qed
  moreover have "eof1 \<longrightarrow> (\<forall>s. Suc j \<le> s \<and> s < SlotsPerFSMPage B \<longrightarrow>
      length (fork_pages rel) \<le> fsm_phys B (?c s))"
    using post(3) child_physical_mono[OF assms(1,3,2), of j] by (meson Suc_leD order_trans)
  moreover have "fsm_page_of B rel2 a = fsm_page_of B rel a"
    if "addr_ok B a" "\<not> below B addr a" for a
    using upd[OF that(1)] post(7)[OF that(1)] I(7)[OF that] that(2) below_child[OF _ B ok assms(2,4)] by auto
  moreover have "fsm_slots B (fsm_page_of B rel2 a) = fsm_slots B (fsm_page_of B rel a)" if "addr_ok B a" "level a = 0" for a
    using upd[of a] post(8)[OF that] I(8)[OF that] that assms(2) by auto
  ultimately show ?thesis
    unfolding vacuum_inv_def res
    using vs(1-3) post(2,6) I(2,9) by auto
qed

lemma fsm_vacuum_level_post:
  "fs_blcksz B \<Longrightarrow> fork_ok B rel \<Longrightarrow> level addr = l \<Longrightarrow> in_tree B addr \<Longrightarrow>
   vacuum_post B rel addr (fsm_vacuum_level B l rel addr)"
proof (induction l arbitrary: rel addr)
  case (0 rel addr)
  obtain r rel1 where rd: "fsm_readbuf B rel addr False = (r, rel1)" by force
  have wf: "fork_wf B rel" using 0 by (simp add: fork_ok_def)
  note rc = fsm_readbuf_cases[OF wf rd]
  show ?case
  proof (cases r)
    case None
    then show ?thesis using vacuum_eof[OF 0(1,2)] 0 rd by simp
  next
    case (Some b)
    then have b: "b = fsm_phys B addr" using rc(3) by (simp split: if_splits)
    have "vacuum_post B rel addr (fsm_get_max_avail (buffer_page rel1 b), False,
        set_buffer_page rel1 b (buffer_page rel1 b\<lparr>fp_next_slot := 0\<rparr>))"
      unfolding b
    proof (rule vacuum_finish[OF 0(1)])
      show "fork_ok B rel1" using rc(1,2) 0(2) by (simp add: fork_ok_def)
      show "buffer_ok B rel1 (fsm_phys B addr)" using rc(4) Some b by simp
      show "sub_ok B rel1 addr" using 0(3) by (auto simp: sub_ok_def dest: below_level)
    qed (use 0 rc rd readbuf_buffer_ok[OF wf rd] in \<open>auto simp: fsm_page_of_def\<close>)
    then show ?thesis using Some rd by (simp add: Let_def)
  qed
next
  case (Suc l rel addr)
  obtain r rel1 where rd: "fsm_readbuf B rel addr False = (r, rel1)" by force
  have wf: "fork_wf B rel" using Suc.prems by (simp add: fork_ok_def)
  note rc = fsm_readbuf_cases[OF wf rd]
  show ?case
  proof (cases r)
    case None
    then show ?thesis using vacuum_eof[OF Suc.prems(1,2)] Suc.prems rd by simp
  next
    case (Some b)
    then have b: "b = fsm_phys B addr" using rc(3) by (simp split: if_splits)
    let ?step = "fsm_vacuum_slot B (fsm_vacuum_level B l) addr b"
    obtain eof rel2 where f: "fold ?step [0..<SlotsPerFSMPage B] (False, rel1) = (eof, rel2)" by force
    have "vacuum_inv B rel addr (SlotsPerFSMPage B) (fold ?step [0..<SlotsPerFSMPage B] (False, rel1))"
    proof (rule fold_upt_rule)
      show "vacuum_inv B rel addr 0 (False, rel1)"
        using rc Some b Suc.prems(2) readbuf_buffer_ok[OF wf rd]
        by (simp add: vacuum_inv_def fork_ok_def fsm_page_of_def)
      show "vacuum_inv B rel addr (Suc j) (?step j st)"
        if "j < SlotsPerFSMPage B" "vacuum_inv B rel addr j st" for j st
        using vacuum_step[OF Suc.prems(1) _ _ that(1) _ that(2), of "fsm_vacuum_level B l"] Suc.prems
          Suc.IH[OF Suc.prems(1)] child_in_tree[OF Suc.prems(1,4) _ that(1)] b by simp
    qed simp
    then have inv: "vacuum_inv B rel addr (SlotsPerFSMPage B) (eof, rel2)" by (simp add: f)
    have "sub_ok B rel2 addr"
      using inv Suc.prems(3)
      by (intro sub_ok_children[OF fs_blcksz_fsm[OF Suc.prems(1)] in_tree_addr_ok[OF Suc.prems(1,4)]])
        (auto simp: vacuum_inv_def)
    then have "vacuum_post B rel addr (fsm_get_max_avail (buffer_page rel2 b), False,
        set_buffer_page rel2 b (buffer_page rel2 b\<lparr>fp_next_slot := 0\<rparr>))"
      unfolding b using inv Suc.prems(3,4)
      by (intro vacuum_finish[OF Suc.prems(1)]) (auto simp: vacuum_inv_def)
    then show ?thesis using Some rd f by (simp add: Let_def)
  qed
qed

text \<open>A consistent map; one whose upper slots all hold the maxima of the pages below them.\<close>

definition fsm_pages_ok :: "nat \<Rightarrow> fsm_relation \<Rightarrow> bool" where
  "fsm_pages_ok B rel \<longleftrightarrow> fsm_rel_wf B rel \<and> (\<forall>n. fsm_consistent B (fsm_blk_page B rel n))"

definition fsm_tree_ok :: "nat \<Rightarrow> fsm_relation \<Rightarrow> bool" where
  "fsm_tree_ok B rel \<longleftrightarrow> fsm_pages_ok B rel \<and> sub_ok B rel (g_fsm_root_address B)"

lemma fsm_pages_ok_wf: "fsm_pages_ok B rel \<Longrightarrow> fsm_rel_wf B rel"
  by (simp add: fsm_pages_ok_def)

lemma fsm_pages_ok_fork: "fsm_pages_ok B rel \<Longrightarrow> fork_ok B rel"
  by (simp add: fsm_pages_ok_def fork_ok_def fsm_rel_wf_fork)

lemma fsm_tree_ok_fork:
  assumes "fsm_tree_ok B rel"
  shows "fsm_rel_wf B rel" "fork_ok B rel" "fork_wf B rel"
  using assms fsm_pages_ok_wf fsm_pages_ok_fork fsm_rel_wf_fork by (auto simp: fsm_tree_ok_def)

lemma fsm_pages_ok_cong:
  "fsm_pages_ok B rel \<Longrightarrow> fork_ok B rel' \<Longrightarrow> fsm_heap_cat B rel' = fsm_heap_cat B rel \<Longrightarrow> fsm_pages_ok B rel'"
  using fsm_rel_wf_cong by (auto simp: fsm_pages_ok_def fork_ok_def)

lemma FreeSpaceMapVacuum_ok:
  assumes "fs_blcksz B" "fsm_pages_ok B rel"
  shows "fsm_tree_ok B (FreeSpaceMapVacuum B rel)"
    "fsm_heap_cat B (FreeSpaceMapVacuum B rel) = fsm_heap_cat B rel"
proof -
  let ?root = "g_fsm_root_address B"
  note B = fs_blcksz_fsm[OF assms(1)]
  obtain m eof rel' where v: "fsm_vacuum_page B rel ?root = (m, eof, rel')" by (metis prod_cases3)
  have post: "vacuum_post B rel ?root (m, eof, rel')"
    using fsm_vacuum_level_post[OF assms(1) fsm_pages_ok_fork[OF assms(2)] refl root_in_tree[OF slots_pos[OF B]]] v
    by (simp add: fsm_vacuum_page_def)
  have r: "FreeSpaceMapVacuum B rel = rel'" by (simp add: FreeSpaceMapVacuum_def v)
  have cat: "fsm_heap_cat B rel' = fsm_heap_cat B rel"
    using post by (intro fsm_heap_cat_cong[OF B]) (simp add: vacuum_post_def)
  then show "fsm_heap_cat B (FreeSpaceMapVacuum B rel) = fsm_heap_cat B rel" by (simp add: r)
  have "fork_ok B rel'" "sub_ok B rel' ?root" using post by (simp_all add: vacuum_post_def)
  then show "fsm_tree_ok B (FreeSpaceMapVacuum B rel)"
    using fsm_pages_ok_cong[OF assms(2) _ cat] by (simp add: r fsm_tree_ok_def)
qed

section \<open>Searching a map whose upper levels are up to date\<close>

lemma fsm_tree_ok_upd:
  assumes "fs_blcksz B" "fsm_tree_ok B rel" "in_tree B addr" "fork_wf B rel'"
    "fsm_blk_page B rel' = (fsm_blk_page B rel)(fsm_phys B addr := page)"
    "fsm_slots B page = fsm_slots B (fsm_page_of B rel addr)" "fsm_consistent B page"
  shows "fsm_tree_ok B rel'"
proof -
  note B = fs_blcksz_fsm[OF assms(1)] and ok = in_tree_addr_ok[OF assms(1)]
  note root = root_in_tree[OF slots_pos[OF B]]
  have slots: "fsm_slots B (fsm_page_of B rel' a) = fsm_slots B (fsm_page_of B rel a)" if "addr_ok B a" for a
    using fsm_page_of_upd[OF B assms(5) ok[OF assms(3)] that] assms(6) by simp
  have "sub_ok B rel' (g_fsm_root_address B)"
  proof (rule sub_ok_cong[OF assms(1) root])
    show "sub_ok B rel (g_fsm_root_address B)" using assms(2) by (simp add: fsm_tree_ok_def)
  qed (use slots ok below_in_tree[OF _ root slots_pos[OF B]] in blast)
  moreover have "fsm_heap_cat B rel' = fsm_heap_cat B rel"
    using slots by (intro fsm_heap_cat_cong[OF B]) simp
  moreover have "fork_ok B rel'" by (rule fork_ok_upd[OF fsm_tree_ok_fork(2)[OF assms(2)] assms(4,5,7)])
  ultimately show ?thesis using assms(2) fsm_pages_ok_cong by (auto simp: fsm_tree_ok_def)
qed

lemma fsm_max_slot:
  assumes "fsm_blcksz B" "fork_wf B rel"
  obtains s where "s < SlotsPerFSMPage B" "fsm_view B rel a s = fsm_max B rel a"
proof -
  have "fsm_slots B (fsm_page_of B rel a) \<noteq> []"
    using slots_pos[OF assms(1)] length_fsm_slots_of[OF assms(2), of a] by (metis length_greater_0_conv)
  then have "fsm_max B rel a \<in> set (fsm_slots B (fsm_page_of B rel a))"
    unfolding fsm_max_def by (intro Max_in) simp_all
  then show ?thesis using that assms(2) by (auto simp: in_set_conv_nth fsm_view_def)
qed

text \<open>Searching one page that promises enough: a slot is found, and the map stays as it is.\<close>

lemma fsm_search_page_finds:
  assumes "fs_blcksz B" "m \<noteq> 0" "fsm_tree_ok B rel" "in_tree B addr" "m \<le> fsm_max B rel addr"
  obtains slot ma rel1 where "fsm_search_page B rel addr m = Some (slot, ma, rel1)" "slot \<noteq> - 1"
    "nat slot < SlotsPerFSMPage B" "m \<le> fsm_view B rel addr (nat slot)" "fsm_tree_ok B rel1"
    "fsm_heap_cat B rel1 = fsm_heap_cat B rel" "\<And>a. addr_ok B a \<Longrightarrow> fsm_max B rel1 a = fsm_max B rel a"
proof -
  note B = fs_blcksz_fsm[OF assms(1)] and ok = in_tree_addr_ok[OF assms(1,4)]
  note fork = fsm_tree_ok_fork[OF assms(3)]
  obtain slot ma rel1 page where s: "fsm_search_page B rel addr m = Some (slot, ma, rel1)"
    "fork_wf B rel1" "fsm_blk_page B rel1 = (fsm_blk_page B rel)(fsm_phys B addr := page)"
    "fsm_slots B page = fsm_slots B (fsm_page_of B rel addr)" "fsm_consistent B page"
    "if slot = - 1 then \<forall>s < SlotsPerFSMPage B. fsm_view B rel addr s < m
     else 0 \<le> slot \<and> nat slot < SlotsPerFSMPage B \<and> m \<le> fsm_view B rel addr (nat slot)"
    using fsm_search_page_props[OF B fork(3), of addr m] fork_ok_page[OF fork(2)] assms(2) by metis
  obtain t where "t < SlotsPerFSMPage B" "m \<le> fsm_view B rel addr t"
    using fsm_max_slot[OF B fork(3), of addr] assms(5) by metis
  then have slot: "slot \<noteq> - 1" using s(6) by (metis linorder_not_less)
  have "fsm_max B rel1 a = fsm_max B rel a" if "addr_ok B a" for a
    using fsm_page_of_upd[OF B s(3) ok that] s(4) by (intro fsm_max_cong) simp
  then show ?thesis
    using that[OF s(1) slot _ _ fsm_tree_ok_upd[OF assms(1,3,4) s(2-5)] fsm_search_page_heap_cat[OF B ok s(3,4)]]
      s(6) slot by simp
qed

lemma fsm_search_loop_finds:
  assumes "fs_blcksz B" "m \<noteq> 0"
  shows "fsm_tree_ok B rel \<Longrightarrow> in_tree B addr \<Longrightarrow> m \<le> fsm_max B rel addr \<Longrightarrow>
    \<exists>blk rel'. fsm_search_loop B m restarts addr rel = Some (blk, rel') \<and> fsm_tree_ok B rel' \<and>
      m \<le> fsm_heap_cat B rel blk"
proof (induction "level addr" arbitrary: addr rel)
  case 0
  obtain slot ma rel1 where s: "fsm_search_page B rel addr m = Some (slot, ma, rel1)" "slot \<noteq> - 1"
    "nat slot < SlotsPerFSMPage B" "m \<le> fsm_view B rel addr (nat slot)" "fsm_tree_ok B rel1"
    using fsm_search_page_finds[OF assms 0(2-4)] by metis
  have "m \<le> fsm_heap_cat B rel (fsm_get_heap_blk B addr (nat slot))"
    using leaf_slot_heap_cat[OF fs_blcksz_fsm[OF assms(1)] fsm_tree_ok_fork(1)[OF 0(2)]
        in_tree_addr_ok[OF assms(1) 0(3)] 0(1)[symmetric] s(3,4)] .
  moreover have "fsm_search_loop B m restarts addr rel = Some (fsm_get_heap_blk B addr (nat slot), rel1)"
    using s(1,2) 0(1) by (simp add: fsm_search_loop.simps)
  ultimately show ?case using s(5) by simp
next
  case (Suc l)
  note B = fs_blcksz_fsm[OF assms(1)]
  obtain slot ma rel1 where s: "fsm_search_page B rel addr m = Some (slot, ma, rel1)" "slot \<noteq> - 1"
    "nat slot < SlotsPerFSMPage B" "m \<le> fsm_view B rel addr (nat slot)" "fsm_tree_ok B rel1"
    "fsm_heap_cat B rel1 = fsm_heap_cat B rel" "\<And>a. addr_ok B a \<Longrightarrow> fsm_max B rel1 a = fsm_max B rel a"
    using fsm_search_page_finds[OF assms Suc.prems] by metis
  let ?c = "fsm_get_child B addr (nat slot)"
  have pos: "0 < level addr" using Suc.hyps(2) by simp
  note tree = child_in_tree[OF assms(1) Suc.prems(2) pos s(3)]
  have "fsm_view B rel addr (nat slot) = fsm_max B rel ?c"
    using Suc.prems(1,2) pos s(3) in_tree_below[OF slots_pos[OF B], of addr]
    unfolding fsm_tree_ok_def sub_ok_def by simp
  then have "m \<le> fsm_max B rel1 ?c" using s(4) s(7)[OF in_tree_addr_ok[OF assms(1) tree]] by simp
  then obtain blk rel' where r: "fsm_search_loop B m restarts ?c rel1 = Some (blk, rel')"
    "fsm_tree_ok B rel'" "m \<le> fsm_heap_cat B rel1 blk"
    using Suc.hyps(1)[of ?c rel1] s(5) tree by (metis Suc.hyps(2) diff_Suc_1 level_child)
  moreover have "fsm_search_loop B m restarts addr rel = fsm_search_loop B m restarts ?c rel1"
    using s(1,2) pos by (subst fsm_search_loop.simps) simp
  ultimately show ?case using s(6) by simp
qed

text \<open>On such a map the maximum of the root page bounds every category below.\<close>

lemma fsm_max_le_root:
  assumes "fs_blcksz B" "fsm_tree_ok B rel"
  shows "in_tree B addr \<Longrightarrow> fsm_max B rel addr \<le> fsm_max B rel (g_fsm_root_address B)"
proof (induction "FSM_ROOT_LEVEL B - level addr" arbitrary: addr)
  case 0
  then have "addr = g_fsm_root_address B"
    by (cases addr) (simp add: in_tree_def g_fsm_root_address_def)
  then show ?case by simp
next
  case (Suc n)
  note B = fs_blcksz_fsm[OF assms(1)] and ok = in_tree_addr_ok[OF assms(1) Suc.prems]
  obtain p s where par: "fsm_get_parent B addr = (p, s)" by force
  have lev: "level addr < FSM_ROOT_LEVEL B" using Suc.hyps(2) by simp
  note ps = parent_props[OF par B ok]
  note tree = ps(4)[OF Suc.prems lev]
  have "fsm_view B rel p s = fsm_max B rel addr"
    using assms(2) ps(1,2) tree child_parent[OF par B ok lev] in_tree_below[OF slots_pos[OF B], of p]
    unfolding fsm_tree_ok_def sub_ok_def by auto
  moreover have "fsm_view B rel p s \<le> fsm_max B rel p"
    by (rule fsm_view_le_max[OF fsm_tree_ok_fork(3)[OF assms(2)] ps(2)])
  moreover have "n = FSM_ROOT_LEVEL B - level p" using Suc.hyps(2) ps(1) by simp
  ultimately show ?case using Suc.hyps(1)[of p] tree by simp
qed

text \<open>The heap blocks that the tree can address.\<close>

lemma in_tree_location:
  assumes "fsm_blcksz B" "h < SlotsPerFSMPage B ^ FSM_TREE_DEPTH B"
  shows "in_tree B (fst (fsm_get_location B h))"
proof -
  have "h div SlotsPerFSMPage B < SlotsPerFSMPage B ^ FSM_ROOT_LEVEL B"
    using assms(2) slots_pos[OF assms(1)] tree_depth(1)[of B]
    by (simp add: div_less_iff_less_mult mult.commute)
  then show ?thesis by (simp add: in_tree_def fsm_get_location_def)
qed

lemma fsm_search_finds:
  assumes "fs_blcksz B" "fsm_tree_ok B rel" "m \<noteq> 0" "h < SlotsPerFSMPage B ^ FSM_TREE_DEPTH B"
    "m \<le> fsm_heap_cat B rel h"
  shows "\<exists>blk rel'. fsm_search B rel m = Some (blk, rel') \<and> fsm_tree_ok B rel' \<and> m \<le> fsm_heap_cat B rel blk"
proof -
  note B = fs_blcksz_fsm[OF assms(1)]
  obtain addr slot where loc: "fsm_get_location B h = (addr, slot)" by force
  have "slot < SlotsPerFSMPage B" by (rule location_props(1)[OF slots_pos[OF B] loc])
  moreover have tree: "in_tree B addr" using in_tree_location[OF B assms(4)] loc by simp
  ultimately have "m \<le> fsm_max B rel addr"
    using assms(5) loc fsm_view_le_max[OF fsm_tree_ok_fork(3)[OF assms(2)], of slot addr]
      in_tree_addr_ok[OF assms(1)] by (auto simp: fsm_heap_cat_def)
  also have "\<dots> \<le> fsm_max B rel (g_fsm_root_address B)" by (rule fsm_max_le_root[OF assms(1,2) tree])
  finally show ?thesis
    unfolding fsm_search_def
    by (intro fsm_search_loop_finds[OF assms(1,3,2)]) (simp_all add: slots_pos[OF B])
qed

section \<open>Truncation\<close>

lemma fsm_blk_page_take:
  "fsm_blk_page B (smgrtruncate rel k) n =
     (if n < k then fsm_blk_page B rel n else page_contents (PageInit B))"
  by (simp add: fsm_blk_page_def smgrtruncate_def)

lemma fork_wf_take:
  "fork_wf B rel \<Longrightarrow> k \<le> length (fork_pages rel) \<Longrightarrow>
   fork_wf B ((smgrtruncate rel k)\<lparr>smgr_fsm_nblocks := k\<rparr>)"
  by (auto simp: fork_wf_def smgrtruncate_def dest: in_set_takeD)

text \<open>Bottom-level pages are stored in the order of their heap blocks.\<close>

lemma bottom_physical_less:
  assumes "fsm_blcksz B" "addr_ok B a" "addr_ok B b" "level a = 0" "level b = 0"
  shows "fsm_phys B a < fsm_phys B b \<longleftrightarrow> logpageno a < logpageno b"
proof -
  have *: "logpageno a < logpageno b \<Longrightarrow> fsm_phys B a < fsm_phys B b"
    if "addr_ok B a" "addr_ok B b" "level a = 0" "level b = 0" for a b
    using physical_less[OF assms(1) that(1,2)] that(3,4) by (simp add: first_leaf_def)
  show ?thesis
    using *[OF assms(2,3,4,5)] *[OF assms(3,2,5,4)] assms(4,5)
    by (cases "logpageno a" "logpageno b" rule: linorder_cases) (auto, cases a, cases b, auto)
qed

lemma location_less:
  fixes B h n
  defines "a \<equiv> fst (fsm_get_location B h)" and "f \<equiv> fst (fsm_get_location B n)"
  assumes "0 < SlotsPerFSMPage B"
  shows "h < n \<longleftrightarrow> logpageno a < logpageno f \<or>
    (a = f \<and> snd (fsm_get_location B h) < snd (fsm_get_location B n))"
proof -
  let ?S = "SlotsPerFSMPage B"
  have "h < n \<longleftrightarrow> h div ?S < n div ?S \<or> (h div ?S = n div ?S \<and> h mod ?S < n mod ?S)"
    by (metis div_le_mono div_mult_mod_eq leD le_neq_implies_less less_le_not_le linorder_not_less
        nat_add_left_cancel_less)
  then show ?thesis by (simp add: a_def f_def fsm_get_location_def)
qed

lemma FreeSpaceMapTruncateRel_cat:
  assumes "fsm_blcksz B" "fork_wf B rel" "n < 4294967296"
  shows "fork_wf B (FreeSpaceMapTruncateRel B rel n)"
    "addr_ok B (fst (fsm_get_location B h)) \<Longrightarrow>
     fsm_heap_cat B (FreeSpaceMapTruncateRel B rel n) h = (if h < n then fsm_heap_cat B rel h else 0)"
proof -
  let ?r = "FreeSpaceMapTruncateRel B rel n"
  note S = slots_pos[OF assms(1)]
  obtain f fs where locn: "fsm_get_location B n = (f, fs)" by force
  obtain a s where loch: "fsm_get_location B h = (a, s)" by force
  note f = location_props[OF S locn] and a = location_props[OF S loch]
  have fok: "addr_ok B f" using location_addr_ok[OF assms(1,3)] locn by simp
  have lt: "h < n \<longleftrightarrow> logpageno a < logpageno f \<or> (a = f \<and> s < fs)"
    using location_less[OF S, of h n] locn loch by simp
  have ph: "fsm_phys B a < fsm_phys B f \<longleftrightarrow> logpageno a < logpageno f"
    "fsm_phys B a = fsm_phys B f \<longleftrightarrow> a = f" if "addr_ok B a"
    using bottom_physical_less[OF assms(1) that fok a(2) f(2)] physical_inj[OF assms(1) that fok] by auto
  have zero: "fsm_slots B (page_contents (PageInit B)) ! s = 0" using a(1) by (simp add: PageInit_slots)
  have cat: "fsm_heap_cat B r h = fsm_slots B (fsm_blk_page B r (fsm_phys B a)) ! s" if "addr_ok B a" for r
    using that by (simp add: fsm_heap_cat_def loch fsm_view_def fsm_page_of_def)
  have small: "fsm_heap_cat B rel h = 0" if "length (fork_pages rel) \<le> fsm_phys B f" "\<not> h < n" "addr_ok B a"
    using that lt ph zero by (auto simp: cat fsm_blk_page_def)
  have "fork_wf B ?r \<and> (addr_ok B a \<longrightarrow> fsm_heap_cat B ?r h = (if h < n then fsm_heap_cat B rel h else 0))"
  proof (cases "fsm_fork rel")
    case None
    then show ?thesis
      using assms(2) zero by (simp add: FreeSpaceMapTruncateRel_def cat fsm_blk_page_def fork_pages_None)
  next
    case fork: (Some pages)
    show ?thesis
    proof (cases "fs > 0")
      case False
      let ?k = "fsm_phys B f"
      have r: "?r = (if length (fork_pages rel) \<le> ?k then rel else (smgrtruncate rel ?k)\<lparr>smgr_fsm_nblocks := ?k\<rparr>)"
        using fork False by (simp add: FreeSpaceMapTruncateRel_def locn Let_def smgrnblocks_def)
      have "addr_ok B a \<Longrightarrow> fsm_phys B a < ?k \<longleftrightarrow> h < n" using lt ph False by auto
      then show ?thesis
        using r assms(2) fork_wf_take[OF assms(2), of ?k] small zero
        by (auto simp: cat fsm_blk_page_take)
    next
      case True
      obtain rb rel1 where rd: "fsm_readbuf B rel f False = (rb, rel1)" by force
      note rc = fsm_readbuf_cases[OF assms(2) rd]
      show ?thesis
      proof (cases rb)
        case None
        then have "?r = rel1" "length (fork_pages rel) \<le> fsm_phys B f"
          using fork True rd rc(3) by (auto simp: FreeSpaceMapTruncateRel_def locn Let_def split: if_splits)
        then show ?thesis using rc(1,2) small by (auto simp: cat)
      next
        case (Some b)
        then have b: "b = fsm_phys B f" using rc(3) by (simp split: if_splits)
        have buf: "buffer_ok B rel1 b" by (rule rc(4)[OF Some])
        let ?p = "fsm_blk_page B rel b"
        have page: "buffer_page rel1 b = ?p" using buffer_page_blk[OF buf] rc(2) by simp
        obtain c q where t: "fsm_truncate_avail B ?p fs = (c, q)" by force
        note tp = fsm_truncate_avail_props[OF assms(1) fsm_blk_page_wf[OF assms(2)] f(1) t]
        note bp = set_buffer_page_props[OF buf tp(1)]
        let ?r2 = "set_buffer_page rel1 b q"
        have r: "?r = (smgrtruncate ?r2 (b + 1))\<lparr>smgr_fsm_nblocks := b + 1\<rparr>"
          using fork True rd Some page t b by (simp add: FreeSpaceMapTruncateRel_def locn Let_def)
        have wf: "fork_wf B ?r"
          unfolding r using fork_wf_take[OF bp(4), of "b + 1"] bp(3) buf by (simp add: buffer_ok_def)
        have "fsm_slots B q ! s = (if s < fs then fsm_slots B ?p ! s else 0)"
          using tp(2) a(1) f(1) fsm_blk_page_wf[OF assms(2)] by (simp add: nth_append)
        moreover have "fsm_blk_page B ?r k =
            (if k < b + 1 then ((fsm_blk_page B rel)(b := q)) k else page_contents (PageInit B))" for k
          unfolding r fsm_blk_page_nblocks fsm_blk_page_take bp(2) rc(2) by simp
        ultimately have "addr_ok B a \<Longrightarrow> fsm_heap_cat B ?r h = (if h < n then fsm_heap_cat B rel h else 0)"
          using lt ph b zero cat by auto
        then show ?thesis using wf by simp
      qed
    qed
  qed
  then show "fork_wf B ?r" "addr_ok B (fst (fsm_get_location B h)) \<Longrightarrow>
      fsm_heap_cat B ?r h = (if h < n then fsm_heap_cat B rel h else 0)" by (auto simp: loch)
qed

lemma FreeSpaceMapTruncateRel_ok:
  assumes "fsm_blcksz B" "fsm_rel_wf B rel" "n < 4294967296"
  shows "fsm_rel_wf B (FreeSpaceMapTruncateRel B rel n)"
    "fsm_heap_cat B (FreeSpaceMapTruncateRel B rel n) h = (if h < n then fsm_heap_cat B rel h else 0)"
proof -
  have cat: "fsm_heap_cat B (FreeSpaceMapTruncateRel B rel n) h =
      (if h < n then fsm_heap_cat B rel h else 0)" for h
    using FreeSpaceMapTruncateRel_cat(2)[OF assms(1) fsm_rel_wf_fork[OF assms(2)] assms(3), of h]
    by (cases "addr_ok B (fst (fsm_get_location B h))") (auto simp: fsm_heap_cat_def case_prod_beta)
  then show "fsm_heap_cat B (FreeSpaceMapTruncateRel B rel n) h = (if h < n then fsm_heap_cat B rel h else 0)" .
  show "fsm_rel_wf B (FreeSpaceMapTruncateRel B rel n)"
    using FreeSpaceMapTruncateRel_cat(1)[OF assms(1) fsm_rel_wf_fork[OF assms(2)] assms(3)] assms(2)
    unfolding fsm_rel_wf_def cat by auto
qed

section \<open>Updating the upper levels after a bulk extension\<close>

text \<open>The slots on the path from an address up to the root.\<close>

definition on_path :: "nat \<Rightarrow> FSMAddress \<Rightarrow> FSMAddress \<Rightarrow> nat \<Rightarrow> bool" where
  "on_path B addr a s \<longleftrightarrow> level addr < level a \<and> level a \<le> FSM_ROOT_LEVEL B \<and>
     s < SlotsPerFSMPage B \<and> below B (fsm_get_child B a s) addr"

lemma below_parent:
  assumes "fsm_get_parent B addr = (p, ps)" "fsm_blcksz B" "addr_ok B addr" "level p < level a"
    "addr_ok B a" "s < SlotsPerFSMPage B"
  shows "below B (fsm_get_child B a s) addr \<longleftrightarrow> below B (fsm_get_child B a s) p"
proof -
  have p: "level p = level addr + 1" "logpageno p = logpageno addr div SlotsPerFSMPage B"
    using assms(1) parent_eq[OF assms(2,3)] by auto
  have "level a - 1 - level addr = Suc (level a - 1 - level p)" using p assms(4) by simp
  then show ?thesis
    using p assms(4) child_eq[OF assms(2,5) _ assms(6)] by (auto simp: below_def div_mult2_eq[symmetric])
qed

lemma on_path_parent:
  assumes "fsm_get_parent B addr = (p, ps)" "fsm_blcksz B" "addr_ok B addr" "level addr < FSM_ROOT_LEVEL B"
    "addr_ok B a"
  shows "on_path B addr a s \<longleftrightarrow> (a = p \<and> s = ps) \<or> on_path B p a s"
proof -
  note p = parent_props[OF assms(1-3)] and cp = child_parent[OF assms(1-4)]
  consider "level a \<le> level addr" | "level a = level p" | "level p < level a" using p(1) by linarith
  then show ?thesis
  proof cases
    case 2
    have "below B (fsm_get_child B a s) addr \<longleftrightarrow> fsm_get_child B a s = addr"
      using 2 p(1) by (cases addr) (auto simp: below_def fsm_get_child_def)
    moreover have "fsm_get_child B a s = addr \<Longrightarrow> s < SlotsPerFSMPage B \<Longrightarrow> a = p \<and> s = ps"
      using parent_child[OF assms(2,5), of s] assms(1,3) 2 p(1) by auto
    ultimately show ?thesis using 2 p(1,2) cp assms(4) by (auto simp: on_path_def)
  next
    case 3
    then show ?thesis using below_parent[OF assms(1-3) 3 assms(5), of s] p(1) by (auto simp: on_path_def)
  qed (use p(1) in \<open>auto simp: on_path_def\<close>)
qed

lemma fsm_update_recursive_ok:
  assumes "fsm_blcksz B"
  shows "fork_wf B rel \<Longrightarrow> addr_ok B addr \<Longrightarrow>
    \<exists>rel'. fsm_update_recursive B rel addr v search = Some rel' \<and> fork_wf B rel' \<and>
      (\<forall>a s. addr_ok B a \<and> s < SlotsPerFSMPage B \<longrightarrow>
         fsm_view B rel' a s = (if on_path B addr a s then v else fsm_view B rel a s))"
proof (induction "FSM_ROOT_LEVEL B - level addr" arbitrary: addr rel)
  case 0
  then have "level addr = FSM_ROOT_LEVEL B" by (simp add: addr_ok_def)
  then show ?case using 0 by (subst fsm_update_recursive.simps) (auto simp: on_path_def)
next
  case (Suc n)
  obtain p ps where par: "fsm_get_parent B addr = (p, ps)" by force
  note p = parent_props[OF par assms Suc.prems(2)]
  have lev: "level addr < FSM_ROOT_LEVEL B" using Suc.hyps(2) by simp
  note pok = p(3)[OF lev]
  obtain r rel1 page where u: "fsm_set_and_search B rel p ps v 0 search = Some (r, rel1)"
    "fork_wf B rel1" "fsm_blk_page B rel1 = (fsm_blk_page B rel)(fsm_phys B p := page)"
    "fsm_slots B page = (fsm_slots B (fsm_page_of B rel p))[ps := v]"
    using fsm_set_and_search_props[OF assms Suc.prems(1) p(2), of p v 0 search] by metis
  have v1: "fsm_view B rel1 a s = (if a = p \<and> s = ps then v else fsm_view B rel a s)"
    if "addr_ok B a" "s < SlotsPerFSMPage B" for a s
    using fsm_page_of_upd[OF assms u(3) pok that(1)] u(4) p(2) Suc.prems(1) that(2)
    by (auto simp: fsm_view_def)
  obtain rel' where r: "fsm_update_recursive B rel1 p v search = Some rel'" "fork_wf B rel'"
    "\<And>a s. addr_ok B a \<Longrightarrow> s < SlotsPerFSMPage B \<Longrightarrow>
       fsm_view B rel' a s = (if on_path B p a s then v else fsm_view B rel1 a s)"
  proof -
    have "n = FSM_ROOT_LEVEL B - level p" using Suc.hyps(2) p(1) by simp
    from Suc.hyps(1)[OF this u(2) pok] that show ?thesis by blast
  qed
  have "fsm_update_recursive B rel addr v search = Some rel'"
    using Suc.hyps(2) par u(1) r(1) by (subst fsm_update_recursive.simps) simp
  then show ?case using r(2,3) v1 on_path_parent[OF par assms Suc.prems(2) lev] by auto
qed

text \<open>
  The slots that a bulk update of a range of blocks is to set: those on the paths of the pages of
  these blocks. One iteration of the loop does the page of its first block.
\<close>

definition on_paths :: "nat \<Rightarrow> BlockNumber \<Rightarrow> BlockNumber \<Rightarrow> FSMAddress \<Rightarrow> nat \<Rightarrow> bool" where
  "on_paths B startblk endblk a s \<longleftrightarrow>
     (\<exists>b \<in> {startblk..endblk}. on_path B (fst (fsm_get_location B b)) a s)"

lemma on_paths_step:
  assumes "blk \<le> endblk" "0 < SlotsPerFSMPage B" "lst = blk div SlotsPerFSMPage B * SlotsPerFSMPage B + (SlotsPerFSMPage B - 1)"
  shows "on_paths B blk endblk a s \<longleftrightarrow> on_path B (fst (fsm_get_location B blk)) a s \<or>
    (lst < endblk \<and> on_paths B (lst + 1) endblk a s)"
proof -
  let ?S = "SlotsPerFSMPage B"
  have "blk < lst + 1" using assms(2,3) dividend_less_div_times[OF assms(2), of blk] by simp
  have same: "fst (fsm_get_location B b) = fst (fsm_get_location B blk)" if "blk \<le> b" "b \<le> lst" for b
  proof -
    have "b div ?S \<le> lst div ?S" using that(2) by (rule div_le_mono)
    also have "lst div ?S = blk div ?S"
      unfolding assms(3) using assms(2) by (subst div_mult_self3) auto
    finally have "b div ?S = blk div ?S" using div_le_mono[OF that(1), of ?S] by simp
    then show ?thesis by (simp add: fsm_get_location_def)
  qed
  have "{blk..endblk} = {b. blk \<le> b \<and> b \<le> lst \<and> b \<le> endblk} \<union> {lst + 1..endblk}"
    using \<open>blk < lst + 1\<close> by auto
  then have "on_paths B blk endblk a s \<longleftrightarrow> (\<exists>b. blk \<le> b \<and> b \<le> lst \<and> b \<le> endblk \<and>
      on_path B (fst (fsm_get_location B b)) a s) \<or> on_paths B (lst + 1) endblk a s"
    by (auto simp: on_paths_def)
  moreover have "on_paths B (lst + 1) endblk a s \<Longrightarrow> lst < endblk" by (auto simp: on_paths_def)
  ultimately show ?thesis using same assms(1) \<open>blk < lst + 1\<close> by (metis Suc_eq_plus1 less_Suc_eq_le order_refl)
qed

lemma lastblckno_eq:
  assumes "fsm_get_location B blk = (addr, slot)"
  shows "fsm_get_lastblckno B addr =
    (blk div SlotsPerFSMPage B * SlotsPerFSMPage B + (SlotsPerFSMPage B - 1)) mod 4294967296"
  using assms by (auto simp: fsm_get_lastblckno_def fsm_get_heap_blk_def fsm_get_location_def)

lemma UpdateFreeSpaceMap_loop_ok:
  assumes "fsm_blcksz B" "endblk < 4294967296 div SlotsPerFSMPage B * SlotsPerFSMPage B"
  shows "fork_wf B rel \<Longrightarrow>
    \<exists>rel'. UpdateFreeSpaceMap_loop B rel blk endblk v search = Some rel' \<and> fork_wf B rel' \<and>
      (\<forall>a s. addr_ok B a \<and> s < SlotsPerFSMPage B \<longrightarrow>
         fsm_view B rel' a s = (if on_paths B blk endblk a s then v else fsm_view B rel a s))"
proof (induction "endblk + 1 - blk" arbitrary: blk rel rule: less_induct)
  case less
  let ?S = "SlotsPerFSMPage B"
  note S = slots_pos[OF assms(1)]
  show ?case
  proof (cases "blk \<le> endblk")
    case False
    then show ?thesis
      using less.prems by (subst UpdateFreeSpaceMap_loop.simps) (auto simp: on_paths_def)
  next
    case True
    define lst where "lst = blk div ?S * ?S + (?S - 1)"
    have "blk div ?S < 4294967296 div ?S"
      using assms(2) True S by (meson div_less_iff_less_mult order_le_less_trans)
    then have "(blk div ?S + 1) * ?S \<le> 4294967296 div ?S * ?S" by (intro mult_right_mono) auto
    also have "\<dots> \<le> 4294967296" by simp
    finally have small: "lst < 4294967296" using S by (simp add: lst_def)
    have le: "blk \<le> lst" using dividend_less_div_times[OF S, of blk] by (simp add: lst_def)
    obtain addr slot where loc: "fsm_get_location B blk = (addr, slot)" by force
    have lastblk: "fsm_get_lastblckno B addr = lst" using lastblckno_eq[OF loc] small by (simp add: lst_def)
    have "addr_ok B addr" using location_addr_ok[OF assms(1), of blk] le small loc by simp
    then obtain rel1 where u: "fsm_update_recursive B rel addr v search = Some rel1" "fork_wf B rel1"
      "\<And>a s. addr_ok B a \<Longrightarrow> s < ?S \<Longrightarrow>
         fsm_view B rel1 a s = (if on_path B addr a s then v else fsm_view B rel a s)"
      using fsm_update_recursive_ok[OF assms(1) less.prems] by blast
    note step = on_paths_step[OF True S lst_def, unfolded loc fst_conv]
    show ?thesis
    proof (cases "lst < endblk")
      case go: True
      then have "endblk + 1 - (lst + 1) < endblk + 1 - blk" using le by linarith
      from less.hyps[OF this u(2)] show ?thesis
        using True go loc u(1,3) step lastblk by (subst UpdateFreeSpaceMap_loop.simps) (auto simp: Let_def)
    next
      case False
      then show ?thesis
        using True loc u step lastblk by (subst UpdateFreeSpaceMap_loop.simps) (auto simp: Let_def)
    qed
  qed
qed

text \<open>
  When the last block of the range lies on the last leaf page, the one that block numbers of 32
  bits fill only partly, the number of the last block on that page wraps around: the loop goes
  back to the start of the relation, and never ends.
\<close>

lemma wrapped_lastblckno:
  assumes "fsm_blcksz B" "endblk < 4294967296" "4294967296 div SlotsPerFSMPage B * SlotsPerFSMPage B \<le> endblk"
    "blk \<le> endblk" "fsm_get_location B blk = (addr, slot)"
  shows "fsm_get_lastblckno B addr < endblk"
proof -
  let ?S = "SlotsPerFSMPage B" and ?W = "4294967296 :: nat"
  note S = slots_pos[OF assms(1)] and S16 = fsm_layout(5)[OF assms(1)]
  have "blk div ?S \<le> ?W div ?S" using assms(2,4) by (intro div_le_mono) simp
  then consider "blk div ?S < ?W div ?S" | "blk div ?S = ?W div ?S" by linarith
  then show ?thesis
  proof cases
    case 1
    then have "(blk div ?S + 1) * ?S \<le> ?W div ?S * ?S" by (intro mult_right_mono) auto
    then have "blk div ?S * ?S + (?S - 1) < endblk" using assms(3) S by simp
    then show ?thesis
      using lastblckno_eq[OF assms(5)] mod_less_eq_dividend order_le_less_trans by metis
  next
    case 2
    have "?W < ?W div ?S * ?S + ?S" using dividend_less_div_times[OF S] by (simp add: add.commute)
    moreover have "?W div ?S * ?S \<le> ?W" by simp
    ultimately have "?W \<le> ?W div ?S * ?S + (?S - 1)" "?W div ?S * ?S + (?S - 1) - ?W < ?S"
      using S by linarith+
    then have "(?W div ?S * ?S + (?S - 1)) mod ?W < ?S"
      by (metis le_mod_geq mod_less_eq_dividend order_le_less_trans)
    moreover have "1 \<le> ?W div ?S" using S S16 by (simp add: Suc_le_eq div_greater_zero_iff)
    moreover from this have "1 * ?S \<le> ?W div ?S * ?S" by (intro mult_right_mono) auto
    ultimately show ?thesis unfolding lastblckno_eq[OF assms(5)] 2 using assms(3) by linarith
  qed
qed

lemma UpdateFreeSpaceMap_loop_diverges:
  assumes "fsm_blcksz B" "endblk < 4294967296" "4294967296 div SlotsPerFSMPage B * SlotsPerFSMPage B \<le> endblk"
    "blk \<le> endblk"
  shows "UpdateFreeSpaceMap_loop B rel blk endblk v search = None"
proof (rule ccontr)
  let ?P = "\<lambda>B endblk blk. fsm_blcksz B \<and> endblk < 4294967296 \<and>
      4294967296 div SlotsPerFSMPage B * SlotsPerFSMPage B \<le> endblk \<and> blk \<le> endblk"
  assume "UpdateFreeSpaceMap_loop B rel blk endblk v search \<noteq> None"
  then obtain y where "UpdateFreeSpaceMap_loop B rel blk endblk v search = Some y" by blast
  moreover have "UpdateFreeSpaceMap_loop B rel blk endblk v search = Some y \<Longrightarrow> \<not> ?P B endblk blk"
  proof (rule UpdateFreeSpaceMap_loop.raw_induct[where P = "\<lambda>B rel blk endblk v search y. \<not> ?P B endblk blk"])
    fix loop B rel blk endblk v search y
    assume hyp: "\<And>B rel blk endblk v search y. loop B rel blk endblk v search = Some y \<Longrightarrow> \<not> ?P B endblk blk"
      and body: "(if blk \<le> endblk then case fsm_get_location B blk of (addr, slot) \<Rightarrow>
        (case fsm_update_recursive B rel addr v search of None \<Rightarrow> None
         | Some rel \<Rightarrow> (let lastBlkOnPage = fsm_get_lastblckno B addr
             in if lastBlkOnPage \<ge> endblk then Some rel
                else loop B rel (lastBlkOnPage + 1) endblk v search))
        else Some rel) = Some y"
    obtain addr slot where loc: "fsm_get_location B blk = (addr, slot)" by force
    show "\<not> ?P B endblk blk"
    proof
      assume e: "?P B endblk blk"
      have "fsm_get_lastblckno B addr < endblk" using wrapped_lastblckno e loc by blast
      then show False using body e loc hyp[of B _ "fsm_get_lastblckno B addr + 1" endblk v search y]
        by (auto simp: Let_def split: option.splits)
    qed
  qed
  ultimately show False using assms by blast
qed

section \<open>Public operations\<close>

lemma RecordPageWithFreeSpace_pages_ok:
  assumes "fsm_blcksz B" "fsm_pages_ok B rel" "RecordPageWithFreeSpace B rel h a = Some rel'" "h < 4294967296"
  shows "fsm_pages_ok B rel'"
proof -
  note fork = fsm_pages_ok_fork[OF assms(2)]
  obtain addr slot where loc: "fsm_get_location B h = (addr, slot)" by force
  have slot: "slot < SlotsPerFSMPage B" by (rule location_props(1)[OF slots_pos[OF assms(1)] loc])
  obtain r rel1 page where s: "fsm_set_and_search B rel addr slot (fsm_space_avail_to_cat B a) 0 True = Some (r, rel1)"
    "fork_wf B rel1" "fsm_blk_page B rel1 = (fsm_blk_page B rel)(fsm_phys B addr := page)"
    "fsm_consistent B page"
    using fsm_set_and_search_props[OF assms(1) fsm_rel_wf_fork[OF fsm_pages_ok_wf[OF assms(2)]] slot, of addr
        "fsm_space_avail_to_cat B a" 0 True] fork_ok_page[OF fork] by metis
  have "rel' = rel1" using assms(3) s(1) by (simp add: RecordPageWithFreeSpace_def loc)
  then have "fork_ok B rel'" using fork_ok_upd[OF fork s(2-4)] by simp
  moreover have "fsm_rel_wf B rel'"
    using RecordPageWithFreeSpace_props[OF assms(1) fsm_pages_ok_wf[OF assms(2)] assms(4), of a] assms(3) by auto
  ultimately show ?thesis by (simp add: fsm_pages_ok_def fork_ok_def)
qed

lemma fsm_search_ok:
  "fs_blcksz B \<Longrightarrow> fsm_rel_wf B rel \<Longrightarrow> fsm_search_result B rel m (fsm_search B rel m)"
  unfolding fsm_search_def by (rule fsm_search_loop_result) (simp_all add: slots_pos[OF fs_blcksz_fsm])

lemma needed_to_cat_ex: "n \<le> MaxFSMRequestSize B \<Longrightarrow> \<exists>c. fsm_space_needed_to_cat B n = Inr c"
  by (cases "n = 0") (simp_all add: fsm_space_needed_to_cat_def Let_def)

lemma needed_to_cat_nonzero: "fs_blcksz B \<Longrightarrow> fsm_space_needed_to_cat B n = Inr c \<Longrightarrow> c \<noteq> 0"
proof -
  assume "fs_blcksz B" "fsm_space_needed_to_cat B n = Inr c"
  then have "unat c \<noteq> 0" using cat_step(1)[of B]
    by (auto simp: needed_to_cat_Inr min_def div_greater_zero_iff split: if_splits)
  then show ?thesis by auto
qed

lemma GetFreeIndexPage_ok:
  assumes "fs_blcksz B" "fsm_rel_wf B rel"
  shows "\<exists>blk rel'. GetFreeIndexPage B rel = Inr (Some (blk, rel')) \<and> fsm_rel_wf B rel' \<and>
    (if blk = InvalidBlockNumber then fsm_heap_cat B rel' = fsm_heap_cat B rel
     else 0 < fsm_heap_cat B rel blk \<and> fsm_heap_cat B rel' = (fsm_heap_cat B rel)(blk := 0))"
proof -
  note B = fs_blcksz_fsm[OF assms(1)]
  have B512: "512 \<le> B" using assms(1) by (simp add: fs_blcksz_def)
  then have "B div 2 \<le> MaxFSMRequestSize B" by (simp add: MaxFSMRequestSize_def)
  then obtain c where c: "fsm_space_needed_to_cat B (B div 2) = Inr c"
    using needed_to_cat_ex by blast
  obtain blk rel1 where s: "fsm_search B rel c = Some (blk, rel1)" "fsm_rel_wf B rel1"
    "fsm_heap_cat B rel1 = fsm_heap_cat B rel" "blk \<noteq> InvalidBlockNumber \<longrightarrow> c \<le> fsm_heap_cat B rel blk"
    using fsm_search_ok[OF assms, of c] unfolding fsm_search_result_def by blast
  have "0 < c" using needed_to_cat_nonzero[OF assms(1) c] by (simp add: word_neq_0_conv)
  have used: "fsm_space_avail_to_cat B 0 = 0"
    using B512 by (simp add: fsm_space_avail_to_cat_def MaxFSMRequestSize_def)
  show ?thesis
  proof (cases "blk = InvalidBlockNumber")
    case True
    then show ?thesis using s c by (auto simp: GetFreeIndexPage_def GetPageWithFreeSpace_def)
  next
    case False
    then have pos: "0 < fsm_heap_cat B rel blk" using s(4) \<open>0 < c\<close> by simp
    then have "blk < 4294967296" using assms(2) unfolding fsm_rel_wf_def by (metis less_irrefl)
    then obtain rel2 where "RecordUsedIndexPage B rel1 blk = Some rel2" "fsm_rel_wf B rel2"
      "fsm_heap_cat B rel2 = (fsm_heap_cat B rel1)(blk := 0)"
      using RecordPageWithFreeSpace_props[OF B s(2), of blk 0] used by (auto simp: RecordUsedIndexPage_def)
    then show ?thesis using False s(1,3) c pos by (auto simp: GetFreeIndexPage_def GetPageWithFreeSpace_def)
  qed
qed

section \<open>Properties of the free space map\<close>

abbreviation fsm_none :: fsm_relation where
  "fsm_none \<equiv> \<lparr>is_segment = False, fsm_fork = None, smgr_fsm_nblocks = InvalidBlockNumber\<rparr>"

lemma fsm_none_ok: "fs_blcksz 512" "fsm_blcksz 512" "fsm_rel_wf 512 fsm_none" "fsm_pages_ok 512 fsm_none"
proof -
  show B: "fs_blcksz 512" by (rule fs_blcksz_powers) simp
  then show F: "fsm_blcksz 512" by (rule fs_blcksz_fsm)
  have "fsm_view 512 fsm_none a s = 0" if "s < SlotsPerFSMPage 512" for a s
    using that by (simp add: fsm_view_def fsm_page_of_def fsm_blk_page_def fork_pages_def PageInit_slots)
  then have "fsm_heap_cat 512 fsm_none h = 0" for h
    using slots_pos[OF F] by (simp add: fsm_heap_cat_def fsm_get_location_def)
  then show wf: "fsm_rel_wf 512 fsm_none" by (simp add: fsm_rel_wf_def fork_wf_def fork_pages_def)
  then show "fsm_pages_ok 512 fsm_none"
    using PageInit_consistent[OF F] by (simp add: fsm_pages_ok_def fsm_blk_page_def fork_pages_def)
qed

text \<open>C23: the categories are sound. A page whose category reaches the category of a request has
  at least the requested number of bytes; a category never promises more than was recorded; a
  page with exactly the largest request can serve it; larger requests are rejected.\<close>

theorem fsm_categories_sound:
  assumes "fs_blcksz B"
  shows "(\<forall>n a c. fsm_space_needed_to_cat B n = Inr c \<and> c \<le> fsm_space_avail_to_cat B a \<longrightarrow> n \<le> a)
    \<and> fsm_space_cat_to_avail B (fsm_space_avail_to_cat B a) \<le> a
    \<and> (\<forall>n c. MaxFSMRequestSize B \<le> a \<and> fsm_space_needed_to_cat B n = Inr c \<longrightarrow> c \<le> fsm_space_avail_to_cat B a)
    \<and> (fsm_space_needed_to_cat B n = Inl ERRCODE_DATATYPE_MISMATCH \<longleftrightarrow> MaxFSMRequestSize B < n)"
proof -
  have "c \<le> fsm_space_avail_to_cat B a" if "MaxFSMRequestSize B \<le> a" for c
    using that unsigned_less[where 'a = nat, of c] by (simp add: fsm_space_avail_to_cat_def word_le_nat_alt)
  moreover have "fsm_space_needed_to_cat B n = Inl ERRCODE_DATATYPE_MISMATCH \<longleftrightarrow> MaxFSMRequestSize B < n"
  proof (cases "MaxFSMRequestSize B < n")
    case True
    then show ?thesis by (simp add: fsm_space_needed_to_cat_def)
  next
    case False
    then obtain c where "fsm_space_needed_to_cat B n = Inr c" using needed_to_cat_ex by (metis not_less)
    then show ?thesis using False by simp
  qed
  ultimately show ?thesis using cat_sufficient[OF assms] cat_round_down[OF assms] by blast
qed

theorem fsm_categories_sound_witness:
  "fsm_space_cat_to_avail 512 (fsm_space_avail_to_cat 512 301) \<le> 301"
  using fsm_categories_sound[OF fsm_none_ok(1), of 301 0] by blast

text \<open>C24: logical addresses, with the 32-bit arithmetic of the code. As long as the number of the
  first leaf page below an address fits an \<open>int\<close>, distinct addresses are stored in distinct
  blocks and the parent of an address has it as its child. Every 32-bit block number has such an
  address, from which the block number is computed back. Every page below the root is at such an
  address, with its parent in the tree before it in the fork.\<close>

theorem fsm_addressing_correct:
  assumes "fs_blcksz B"
  shows "inj_on (fsm_logical_to_physical B)
        {addr. level addr \<le> FSM_ROOT_LEVEL B \<and> first_leaf B addr < 2147483648}
    \<and> (\<forall>addr. level addr < FSM_ROOT_LEVEL B \<and> first_leaf B addr < 2147483648 \<longrightarrow>
         fsm_get_child B (fst (fsm_get_parent B addr)) (snd (fsm_get_parent B addr)) = addr)
    \<and> (\<forall>h < 4294967296. first_leaf B (fst (fsm_get_location B h)) < 2147483648 \<and>
         fsm_get_heap_blk B (fst (fsm_get_location B h)) (snd (fsm_get_location B h)) = h)
    \<and> (\<forall>addr slot. 0 < level addr \<and> level addr \<le> FSM_ROOT_LEVEL B \<and>
         logpageno addr < SlotsPerFSMPage B ^ (FSM_ROOT_LEVEL B - level addr) \<and> slot < SlotsPerFSMPage B \<longrightarrow>
         first_leaf B (fsm_get_child B addr slot) < 2147483648 \<and>
         fsm_get_parent B (fsm_get_child B addr slot) = (addr, slot) \<and>
         fsm_logical_to_physical B addr < fsm_logical_to_physical B (fsm_get_child B addr slot))"
proof -
  note B = fs_blcksz_fsm[OF assms] and ok = in_tree_addr_ok[OF assms]
  have "first_leaf B (fsm_get_child B addr slot) < 2147483648 \<and>
      fsm_get_parent B (fsm_get_child B addr slot) = (addr, slot) \<and>
      fsm_phys B addr < fsm_phys B (fsm_get_child B addr slot)"
    if "0 < level addr" "in_tree B addr" "slot < SlotsPerFSMPage B" for addr slot
  proof -
    let ?c = "fsm_get_child B addr slot"
    have c: "addr_ok B ?c" by (rule ok[OF child_in_tree[OF assms that(2,1,3)]])
    have "below B addr ?c" by (rule below_trans_child[OF below_refl that(1,3) B ok[OF that(2)]])
    then have "fsm_phys B addr \<le> fsm_phys B ?c" by (rule below_physical_le[OF B _ ok[OF that(2)] c])
    moreover have "?c \<noteq> addr" using that(1) by (cases addr) (auto simp: fsm_get_child_def)
    ultimately have "fsm_phys B addr < fsm_phys B ?c"
      using physical_inj[OF B ok[OF that(2)] c] by (metis le_neq_implies_less)
    then show ?thesis using parent_child[OF B ok[OF that(2)] that(1,3) c] c by (simp add: addr_ok_def)
  qed
  moreover have "inj_on (fsm_phys B) {addr. addr_ok B addr}"
    using physical_inj[OF B] by (auto intro: inj_onI)
  moreover have "fsm_get_child B (fst (fsm_get_parent B addr)) (snd (fsm_get_parent B addr)) = addr"
    if "level addr < FSM_ROOT_LEVEL B" "addr_ok B addr" for addr
    by (rule child_parent[OF _ B that(2,1)]) simp
  moreover have "addr_ok B (fst (fsm_get_location B h)) \<and>
      fsm_get_heap_blk B (fst (fsm_get_location B h)) (snd (fsm_get_location B h)) = h" if "h < 4294967296" for h
    using location_addr_ok[OF B that] location_heap_blk[OF _ that] by simp
  ultimately show ?thesis by (intro conjI allI impI) (simp_all add: addr_ok_def in_tree_def)
qed

theorem fsm_addressing_correct_witness:
  "fsm_get_heap_blk 512 (fst (fsm_get_location 512 4294967295)) (snd (fsm_get_location 512 4294967295)) = 4294967295"
  using fsm_addressing_correct[OF fsm_none_ok(1)] by simp

text \<open>C16: recording succeeds, changes the category of that heap block only, whatever pages it had
  to create or rebuild, and reading it back gives the recorded space rounded down.\<close>

theorem fsm_record_then_get:
  assumes "fs_blcksz B" "fsm_rel_wf B rel" "h < 4294967296"
  shows "\<exists>rel'. RecordPageWithFreeSpace B rel h avail = Some rel' \<and> fsm_rel_wf B rel' \<and>
    fst (GetRecordedFreeSpace B rel' h) = fsm_space_cat_to_avail B (fsm_space_avail_to_cat B avail) \<and>
    fst (GetRecordedFreeSpace B rel' h) \<le> avail \<and>
    (\<forall>h' < 4294967296. h' \<noteq> h \<longrightarrow>
       fst (GetRecordedFreeSpace B rel' h') = fst (GetRecordedFreeSpace B rel h'))"
proof -
  note B = fs_blcksz_fsm[OF assms(1)]
  obtain rel' where r: "RecordPageWithFreeSpace B rel h avail = Some rel'" "fsm_rel_wf B rel'"
    "fsm_heap_cat B rel' = (fsm_heap_cat B rel)(h := fsm_space_avail_to_cat B avail)"
    using RecordPageWithFreeSpace_props[OF B assms(2,3)] by blast
  have get: "fst (GetRecordedFreeSpace B r h') = fsm_space_cat_to_avail B (fsm_heap_cat B r h')"
    if "fsm_rel_wf B r" "h' < 4294967296" for r h'
    using GetRecordedFreeSpace_props(1)[OF B fsm_rel_wf_fork[OF that(1)] _ that(2)] by (metis prod.collapse)
  show ?thesis
    using r get[OF r(2)] get[OF assms(2)] assms(3) cat_round_down[OF assms(1)] by (intro exI[of _ rel']) simp
qed

theorem fsm_record_then_get_witness:
  "\<exists>rel'. RecordPageWithFreeSpace 512 fsm_none 7 300 = Some rel' \<and>
     fst (GetRecordedFreeSpace 512 rel' 7) \<le> 300"
  using fsm_record_then_get[OF fsm_none_ok(1,3), of 7 300] by auto

text \<open>C25: asking for space always returns, within the restart limit, however stale the upper
  levels are; a request that is too large is an error; a recommended block is one whose
  recorded space covers the request, and no recorded category is changed by asking.\<close>

theorem GetPageWithFreeSpace_sound:
  assumes "fs_blcksz B" "fsm_rel_wf B rel"
  shows "if MaxFSMRequestSize B < needed
    then GetPageWithFreeSpace B rel needed = Inl ERRCODE_DATATYPE_MISMATCH
    else \<exists>blk rel'. GetPageWithFreeSpace B rel needed = Inr (Some (blk, rel')) \<and> fsm_rel_wf B rel' \<and>
      fsm_heap_cat B rel' = fsm_heap_cat B rel \<and>
      (\<forall>avail. blk \<noteq> InvalidBlockNumber \<and> fsm_heap_cat B rel blk = fsm_space_avail_to_cat B avail \<longrightarrow>
         needed \<le> avail)"
proof (cases "MaxFSMRequestSize B < needed")
  case True
  then show ?thesis by (simp add: GetPageWithFreeSpace_def fsm_space_needed_to_cat_def)
next
  case False
  then obtain c where c: "fsm_space_needed_to_cat B needed = Inr c"
    using needed_to_cat_ex by (metis not_less)
  have "fsm_search_result B rel c (fsm_search B rel c)"
    by (rule fsm_search_ok[OF assms])
  then show ?thesis
    using False c cat_sufficient[OF assms(1) c]
    by (auto simp: GetPageWithFreeSpace_def fsm_search_result_def)
qed

theorem GetPageWithFreeSpace_sound_witness:
  "\<exists>blk rel'. GetPageWithFreeSpace 512 fsm_none 100 = Inr (Some (blk, rel')) \<and>
     fsm_heap_cat 512 rel' = fsm_heap_cat 512 fsm_none"
  using GetPageWithFreeSpace_sound[OF fsm_none_ok(1,3), of 100] by (auto simp: MaxFSMRequestSize_def)

text \<open>C9: after a vacuum every upper slot holds the maximum of the page below it, no recorded
  category has changed, and a request that some addressable block can serve is served.\<close>

theorem vacuum_makes_search_complete:
  assumes "fs_blcksz B" "fsm_pages_ok B rel"
  shows "fsm_tree_ok B (FreeSpaceMapVacuum B rel)
    \<and> fsm_heap_cat B (FreeSpaceMapVacuum B rel) = fsm_heap_cat B rel
    \<and> (\<forall>h needed c. h < SlotsPerFSMPage B ^ FSM_TREE_DEPTH B \<and>
          fsm_space_needed_to_cat B needed = Inr c \<and> c \<le> fsm_heap_cat B rel h \<longrightarrow>
        (\<exists>blk rel'. GetPageWithFreeSpace B (FreeSpaceMapVacuum B rel) needed = Inr (Some (blk, rel')) \<and>
           fsm_tree_ok B rel' \<and> c \<le> fsm_heap_cat B rel blk))"
proof -
  note v = FreeSpaceMapVacuum_ok[OF assms]
  show ?thesis
    using v fsm_search_finds[OF assms(1) v(1)] needed_to_cat_nonzero[OF assms(1)]
    by (auto simp: GetPageWithFreeSpace_def)
qed

theorem vacuum_makes_search_complete_witness:
  "fsm_tree_ok 512 (FreeSpaceMapVacuum 512 fsm_none)"
  using vacuum_makes_search_complete[OF fsm_none_ok(1,4)] by blast

text \<open>truncating the map to a number of heap blocks forgets the removed blocks and keeps the
  categories of the others, whether or not the cut is at a page boundary.\<close>

theorem FreeSpaceMapTruncateRel_correct:
  assumes "fsm_blcksz B" "fsm_rel_wf B rel" "nblocks < 4294967296"
  shows "fsm_rel_wf B (FreeSpaceMapTruncateRel B rel nblocks) \<and>
    fsm_heap_cat B (FreeSpaceMapTruncateRel B rel nblocks) =
      (\<lambda>h. if h < nblocks then fsm_heap_cat B rel h else 0)"
  using FreeSpaceMapTruncateRel_ok[OF assms] by (simp add: fun_eq_iff)

theorem FreeSpaceMapTruncateRel_correct_witness:
  "fsm_heap_cat 512 (FreeSpaceMapTruncateRel 512 fsm_none 10) =
     (\<lambda>h. if h < 10 then fsm_heap_cat 512 fsm_none h else 0)"
  using FreeSpaceMapTruncateRel_correct[OF fsm_none_ok(2,3), of 10] by simp

text \<open>the combined operation records the old block's space and returns a block that the map
  believes large enough; when the old block itself still has enough space, the answer comes
  from the same map page and is a valid block.\<close>

theorem RecordAndGet_correct:
  assumes "fs_blcksz B" "fsm_rel_wf B rel" "needed \<le> MaxFSMRequestSize B" "old < 4294967296"
  shows "\<exists>blk rel' c. RecordAndGetPageWithFreeSpace B rel old avail needed = Inr (Some (blk, rel')) \<and>
    fsm_space_needed_to_cat B needed = Inr c \<and> fsm_rel_wf B rel' \<and>
    fsm_heap_cat B rel' = (fsm_heap_cat B rel)(old := fsm_space_avail_to_cat B avail) \<and>
    (blk \<noteq> InvalidBlockNumber \<longrightarrow> c \<le> fsm_heap_cat B rel' blk) \<and>
    (c \<le> fsm_space_avail_to_cat B avail \<longrightarrow> c \<le> fsm_heap_cat B rel' blk \<and>
       blk div SlotsPerFSMPage B = old div SlotsPerFSMPage B)"
proof -
  note B = fs_blcksz_fsm[OF assms(1)]
  let ?v = "fsm_space_avail_to_cat B avail"
  obtain c where c: "fsm_space_needed_to_cat B needed = Inr c"
    using assms(3) needed_to_cat_ex by blast
  have cnz: "c \<noteq> 0" by (rule needed_to_cat_nonzero[OF assms(1) c])
  obtain addr slot where loc: "fsm_get_location B old = (addr, slot)" by force
  note ls = location_props[OF slots_pos[OF B] loc]
  have ok: "addr_ok B addr" using location_addr_ok[OF B assms(4)] loc by simp
  obtain r rel1 page where s: "fsm_set_and_search B rel addr slot ?v c True = Some (r, rel1)"
    "fork_wf B rel1" "fsm_blk_page B rel1 = (fsm_blk_page B rel)(fsm_phys B addr := page)"
    "fsm_slots B page = (fsm_slots B (fsm_page_of B rel addr))[slot := ?v]"
    "r \<noteq> - 1 \<longrightarrow> 0 \<le> r \<and> nat r < SlotsPerFSMPage B \<and> c \<le> fsm_slots B page ! nat r" "c \<le> ?v \<longrightarrow> r \<noteq> - 1"
    using fsm_set_and_search_props[OF B fsm_rel_wf_fork[OF assms(2)] ls(1), of addr ?v c True] cnz by metis
  have cat: "fsm_heap_cat B rel1 = (fsm_heap_cat B rel)(old := ?v)"
    by (rule fsm_record_heap_cat[OF B fsm_rel_wf_fork[OF assms(2)] loc assms(4) s(3,4)])
  note wf1 = fsm_rel_wf_record[OF assms(2,4) s(2) cat]
  show ?thesis
  proof (cases "r = - 1")
    case True
    obtain blk rel2 where f: "fsm_search B rel1 c = Some (blk, rel2)" "fsm_rel_wf B rel2"
      "fsm_heap_cat B rel2 = fsm_heap_cat B rel1" "blk \<noteq> InvalidBlockNumber \<longrightarrow> c \<le> fsm_heap_cat B rel1 blk"
      using fsm_search_ok[OF assms(1) wf1, of c] unfolding fsm_search_result_def by blast
    then show ?thesis
      using True c s cat loc by (intro exI[of _ blk] exI[of _ rel2] exI[of _ c])
        (simp add: RecordAndGetPageWithFreeSpace_def)
  next
    case False
    let ?blk = "fsm_get_heap_blk B addr (nat r)"
    have view: "fsm_view B rel1 addr (nat r) = fsm_slots B page ! nat r"
      using fsm_page_of_upd[OF B s(3) ok ok] by (simp add: fsm_view_def)
    have "c \<le> fsm_heap_cat B rel1 ?blk"
      using leaf_slot_heap_cat[OF B wf1 ok ls(2)] s(5) False view by simp
    moreover have "?blk div SlotsPerFSMPage B = old div SlotsPerFSMPage B"
    proof -
      let ?h = "logpageno addr * SlotsPerFSMPage B + nat r"
      have "fsm_get_location B ?h = (addr, nat r)"
        using s(5) False ls(2) by (cases addr) (simp add: fsm_get_location_def)
      then have "c \<le> fsm_heap_cat B rel1 ?h" using s(5) False view ok by (simp add: fsm_heap_cat_def)
      then have "fsm_heap_cat B rel1 ?h \<noteq> 0" using cnz by auto
      then have "?h < 4294967296" using wf1 unfolding fsm_rel_wf_def by blast
      then show ?thesis using s(5) False ls(3) by (simp add: fsm_get_heap_blk_def)
    qed
    ultimately show ?thesis
      using False c s(1) wf1 cat loc by (intro exI[of _ ?blk] exI[of _ rel1] exI[of _ c])
        (simp add: RecordAndGetPageWithFreeSpace_def)
  qed
qed

theorem RecordAndGet_correct_witness:
  "\<exists>blk rel' c. RecordAndGetPageWithFreeSpace 512 fsm_none 3 300 100 = Inr (Some (blk, rel')) \<and>
     fsm_space_needed_to_cat 512 100 = Inr c \<and>
     (c \<le> fsm_space_avail_to_cat 512 300 \<longrightarrow> blk div SlotsPerFSMPage 512 = 3 div SlotsPerFSMPage 512)"
  using RecordAndGet_correct[OF fsm_none_ok(1,3), of 100 3 300] by (auto simp: MaxFSMRequestSize_def)

text \<open>C26: the index map hands out a block that was recorded as free and marks it used, so that the
  map no longer offers it; when it hands out nothing, the map is unchanged.\<close>

theorem GetFreeIndexPage_marks_used:
  assumes "fs_blcksz B" "fsm_rel_wf B rel"
  shows "\<exists>blk rel'. GetFreeIndexPage B rel = Inr (Some (blk, rel')) \<and> fsm_rel_wf B rel' \<and>
    (if blk = InvalidBlockNumber then fsm_heap_cat B rel' = fsm_heap_cat B rel
     else 0 < fsm_heap_cat B rel blk \<and> fsm_heap_cat B rel' = (fsm_heap_cat B rel)(blk := 0))"
  by (rule GetFreeIndexPage_ok[OF assms])

theorem GetFreeIndexPage_marks_used_witness:
  "\<exists>blk rel'. GetFreeIndexPage 512 fsm_none = Inr (Some (blk, rel')) \<and> fsm_rel_wf 512 rel'"
  using GetFreeIndexPage_marks_used[OF fsm_none_ok(1,3)] by blast

text \<open>C27: the bulk update of the upper levels. It returns unless the range ends on the last leaf
  page, the one that 32-bit block numbers do not fill; then it has stored the given category in
  every slot on the ways from the pages of the blocks to the root, whatever the pages below hold,
  and has left all other slots and the categories of the heap blocks alone. When the range does
  end there, the number of the page's last block wraps around and the loop never ends.\<close>

theorem UpdateFreeSpaceMap_correct:
  assumes "fs_blcksz B" "fsm_rel_wf B rel" "endblk < 4294967296"
  shows "if startblk \<le> endblk \<and> 4294967296 div SlotsPerFSMPage B * SlotsPerFSMPage B \<le> endblk
    then UpdateFreeSpaceMap B rel startblk endblk freespace search = None
    else \<exists>rel'. UpdateFreeSpaceMap B rel startblk endblk freespace search = Some rel' \<and>
      fsm_rel_wf B rel' \<and> fsm_heap_cat B rel' = fsm_heap_cat B rel \<and>
      (\<forall>a s. level a \<le> FSM_ROOT_LEVEL B \<and> first_leaf B a < 2147483648 \<and> s < SlotsPerFSMPage B \<longrightarrow>
         fsm_view B rel' a s = (if on_paths B startblk endblk a s then fsm_space_avail_to_cat B freespace
           else fsm_view B rel a s))"
proof (cases "startblk \<le> endblk \<and> 4294967296 div SlotsPerFSMPage B * SlotsPerFSMPage B \<le> endblk")
  case True
  then show ?thesis
    using UpdateFreeSpaceMap_loop_diverges[OF fs_blcksz_fsm[OF assms(1)] assms(3)]
    by (simp add: UpdateFreeSpaceMap_def)
next
  case False
  note B = fs_blcksz_fsm[OF assms(1)] and wf = fsm_rel_wf_fork[OF assms(2)]
  let ?v = "fsm_space_avail_to_cat B freespace"
  obtain rel' where r: "UpdateFreeSpaceMap_loop B rel startblk endblk ?v search = Some rel'" "fork_wf B rel'"
    "\<And>a s. addr_ok B a \<Longrightarrow> s < SlotsPerFSMPage B \<Longrightarrow>
       fsm_view B rel' a s = (if on_paths B startblk endblk a s then ?v else fsm_view B rel a s)"
  proof (cases "startblk \<le> endblk")
    case True
    then show ?thesis using UpdateFreeSpaceMap_loop_ok[OF B _ wf, of endblk startblk ?v search] False that by auto
  next
    case none: False
    then have "UpdateFreeSpaceMap_loop B rel startblk endblk ?v search = Some rel"
      by (subst UpdateFreeSpaceMap_loop.simps) simp
    then show ?thesis using that none wf by (auto simp: on_paths_def)
  qed
  have leaf: "\<not> on_paths B startblk endblk a s" if "level a = 0" for a s
    using that by (auto simp: on_paths_def on_path_def)
  have "fsm_heap_cat B rel' h = fsm_heap_cat B rel h" for h
    using location_props[OF slots_pos[OF B], of h] r(3) leaf
    by (cases "fsm_get_location B h") (simp add: fsm_heap_cat_def)
  then have cat: "fsm_heap_cat B rel' = fsm_heap_cat B rel" by blast
  show ?thesis
    using False r cat fsm_rel_wf_cong[OF assms(2) r(2) cat]
    by (auto simp: UpdateFreeSpaceMap_def addr_ok_def)
qed

theorem UpdateFreeSpaceMap_correct_witness:
  "(\<exists>rel'. UpdateFreeSpaceMap 512 fsm_none 5 900 200 True = Some rel' \<and>
      fsm_heap_cat 512 rel' = fsm_heap_cat 512 fsm_none) \<and>
   UpdateFreeSpaceMap 512 fsm_none 5 4294967294 200 True = None"
proof -
  have "SlotsPerFSMPage 512 = 229"
    by (simp add: LeafNodesPerPage_def NodesPerPage_def NonLeafNodesPerPage_def)
  then show ?thesis
    using UpdateFreeSpaceMap_correct[OF fsm_none_ok(1,3), of 900 5 200 True]
      UpdateFreeSpaceMap_correct[OF fsm_none_ok(1,3), of 4294967294 5 200 True] by auto
qed

text \<open>how many heap blocks the tree can address: all \<open>2^32 - 1\<close> of them for every block size
  from 1024 to 32768, but fewer for 512, the smallest size that the header says is supported.\<close>

theorem fsm_tree_capacity:
  "(\<forall>B \<in> {1024, 2048, 4096, 8192, 16384, 32768}.
      InvalidBlockNumber \<le> SlotsPerFSMPage B ^ FSM_TREE_DEPTH B) \<and>
   SlotsPerFSMPage 512 ^ FSM_TREE_DEPTH 512 < InvalidBlockNumber"
  by (simp add: InvalidBlockNumber_def FSM_TREE_DEPTH_def LeafNodesPerPage_def NodesPerPage_def
      NonLeafNodesPerPage_def)

theorem fsm_tree_capacity_witness:
  "InvalidBlockNumber \<le> SlotsPerFSMPage 8192 ^ FSM_TREE_DEPTH 8192"
  using fsm_tree_capacity by blast

end
