(* ===== verification/Sinval.thy ===== *)
theory Sinval
  imports Gauss_Prelude
begin

text \<open>
  The shared cache invalidation queue, \<open>src/gausskernel/storage/ipc/sinvaladt.cpp\<close>: a
  circular buffer of 4096 messages in shared memory, one cursor per backend, and a reset flag
  for the backends that fall too far behind. Each function that holds the queue's locks is one
  definition on the segment; the messages are opaque (a type parameter), the calling backend's
  thread-local variables are the record \<open>backend_ctx\<close>. \<open>int\<close> counters are integers of HOL,
  and their bounds are part of the invariant, so that the C \<open>int\<close>s do not overflow. Where
  \<open>SICleanupQueue\<close> releases its locks to send a signal, other backends may run: the step
  relation \<open>si_step\<close> interleaves the lock-protected sections in any order.
\<close>

section \<open>State\<close>

definition MAXNUMMESSAGES :: int where "MAXNUMMESSAGES = 4096"
definition MSGNUMWRAPAROUND :: int where "MSGNUMWRAPAROUND = MAXNUMMESSAGES * 262144"
definition CLEANUP_MIN :: int where "CLEANUP_MIN = MAXNUMMESSAGES div 2"
definition CLEANUP_QUANTUM :: int where "CLEANUP_QUANTUM = MAXNUMMESSAGES div 16"
definition SIG_THRESHOLD :: int where "SIG_THRESHOLD = MAXNUMMESSAGES div 2"
definition WRITE_QUANTUM :: nat where "WRITE_QUANTUM = 64"

type_synonym LocalTransactionId = uint64
type_synonym XLogRecPtr = nat

record ProcState =
  procPid :: nat
  proc :: "nat option"
  nextMsgNum :: int
  resetState :: bool
  signaled :: bool
  hasMessages :: bool
  sendOnly :: bool
  nextLXID :: LocalTransactionId

record 'm SISeg =
  minMsgNum :: int
  maxMsgNum :: int
  nextThreshold :: int
  lastBackend :: nat
  lastreserveBackend :: nat
  maxBackends :: nat
  maxreserveBackends :: nat
  buffer :: "('m \<times> XLogRecPtr) list"
  procState :: "ProcState list"

text \<open>The thread-local and session variables that the functions read and set.\<close>

record backend_ctx =
  MyBackendId :: int
  MyProcPid :: nat
  MyProc :: nat
  nextLocalTransactionId :: LocalTransactionId
  session_ctr_index :: nat
  is_thread_pool_worker :: bool
  enable_local_syscache :: bool

definition inactiveProcState :: ProcState where
  "inactiveProcState = \<lparr>procPid = 0, proc = None, nextMsgNum = 0, resetState = False, signaled = False,
     hasMessages = False, sendOnly = False, nextLXID = 0\<rparr>"

text \<open>\<open>buf\<close> is the uninitialised contents of the buffer.\<close>

definition CreateSharedInvalidationState :: "nat \<Rightarrow> nat \<Rightarrow> ('m \<times> XLogRecPtr) list \<Rightarrow> 'm SISeg" where
  "CreateSharedInvalidationState maxb maxreserve buf =
     \<lparr>minMsgNum = 0, maxMsgNum = 0, nextThreshold = CLEANUP_MIN, lastBackend = 0,
      lastreserveBackend = 0, maxBackends = maxb, maxreserveBackends = maxreserve,
      buffer = buf, procState = replicate maxb inactiveProcState\<rparr>"

section \<open>Backends come and go\<close>

definition mark_active :: "'m SISeg \<Rightarrow> backend_ctx \<Rightarrow> bool \<Rightarrow> nat \<Rightarrow> 'm SISeg" where
  "mark_active segP ctx sndOnly index =
     segP\<lparr>procState := (procState segP)[index := (procState segP ! index)\<lparr>procPid := MyProcPid ctx,
        proc := Some (MyProc ctx), nextMsgNum := maxMsgNum segP, resetState := False,
        signaled := False, hasMessages := False, sendOnly := sndOnly\<rparr>]\<rparr>"

definition SharedInvalReserveBackendInit :: "'m SISeg \<Rightarrow> backend_ctx \<Rightarrow> bool \<Rightarrow>
    ('m SISeg \<times> backend_ctx) result" where
  "SharedInvalReserveBackendInit segP ctx sndOnly =
     (case (case find (\<lambda>index. procPid (procState segP ! index) = 0) [0..<lastreserveBackend segP] of
              Some index \<Rightarrow> Inr (index, segP)
            | None \<Rightarrow>
                if lastreserveBackend segP < maxreserveBackends segP
                then Inr (lastreserveBackend segP, segP\<lparr>lastreserveBackend := lastreserveBackend segP + 1\<rparr>)
                else Inl ERRCODE_TOO_MANY_CONNECTIONS) of
        Inl e \<Rightarrow> Inl e
      | Inr (index, segP) \<Rightarrow>
          (let segP = (if lastreserveBackend segP > lastBackend segP
                       then segP\<lparr>lastBackend := lastreserveBackend segP\<rparr> else segP);
               ctx = ctx\<lparr>MyBackendId := int index + 1, nextLocalTransactionId := nextLXID (procState segP ! index)\<rparr>
           in Inr (mark_active segP ctx sndOnly index, ctx)))"

definition SharedInvalWorkSessionInit :: "'m SISeg \<Rightarrow> backend_ctx \<Rightarrow> bool \<Rightarrow>
    ('m SISeg \<times> backend_ctx) result" where
  "SharedInvalWorkSessionInit segP ctx sndOnly =
     (let index = session_ctr_index ctx
      in if index < maxreserveBackends segP \<or> index \<ge> maxBackends segP
         then Inl ERRCODE_TOO_MANY_CONNECTIONS
         else if procPid (procState segP ! index) \<noteq> 0 then Inl ERRCODE_TOO_MANY_CONNECTIONS
         else let segP = (if index + 1 > lastBackend segP then segP\<lparr>lastBackend := index + 1\<rparr> else segP);
                  ctx = ctx\<lparr>nextLocalTransactionId := nextLXID (procState segP ! index)\<rparr>
              in Inr (mark_active segP ctx sndOnly index, ctx))"

definition SharedInvalBackendInit :: "bool \<Rightarrow> 'm SISeg \<Rightarrow> backend_ctx \<Rightarrow> bool \<Rightarrow> bool \<Rightarrow>
    ('m SISeg \<times> backend_ctx) result" where
  "SharedInvalBackendInit enable_thread_pool segP ctx sndOnly worksession =
     (if enable_thread_pool \<and> worksession then SharedInvalWorkSessionInit segP ctx sndOnly
      else SharedInvalReserveBackendInit segP ctx sndOnly)"

text \<open>\<open>for (i = last; i > 0; i--) if (procState[i - 1].procPid != 0) break;\<close>\<close>

fun last_active :: "ProcState list \<Rightarrow> nat \<Rightarrow> nat" where
  "last_active procs 0 = 0"
| "last_active procs (Suc i) = (if procPid (procs ! i) \<noteq> 0 then Suc i else last_active procs i)"

definition mark_inactive :: "'m SISeg \<Rightarrow> backend_ctx \<Rightarrow> nat \<Rightarrow> 'm SISeg" where
  "mark_inactive segP ctx index =
     segP\<lparr>procState := (procState segP)[index := (procState segP ! index)\<lparr>
        nextLXID := nextLocalTransactionId ctx, procPid := 0, proc := None, nextMsgNum := 0,
        resetState := False, signaled := False\<rparr>]\<rparr>"

definition CleanupWorkSessionInvalidation :: "'m SISeg \<Rightarrow> backend_ctx \<Rightarrow> 'm SISeg" where
  "CleanupWorkSessionInvalidation segP ctx =
     (let segP = mark_inactive segP ctx (session_ctr_index ctx)
      in segP\<lparr>lastBackend := last_active (procState segP) (lastBackend segP)\<rparr>)"

definition CleanupInvalidationState :: "'m SISeg \<Rightarrow> backend_ctx \<Rightarrow> 'm SISeg" where
  "CleanupInvalidationState segP ctx =
     (let segP = (if is_thread_pool_worker ctx \<and> session_ctr_index ctx \<ge> maxreserveBackends segP
                  then CleanupWorkSessionInvalidation segP ctx else segP);
          segP = mark_inactive segP ctx (nat (MyBackendId ctx - 1));
          segP = segP\<lparr>lastBackend := last_active (procState segP) (lastBackend segP)\<rparr>
      in segP\<lparr>lastreserveBackend := last_active (procState segP) (lastreserveBackend segP)\<rparr>)"

definition BackendIdGetProc :: "'m SISeg \<Rightarrow> int \<Rightarrow> nat option" where
  "BackendIdGetProc segP backendID =
     (if backendID > 0 \<and> backendID \<le> int (lastreserveBackend segP)
      then proc (procState segP ! nat (backendID - 1)) else None)"

section \<open>Cleaning the queue\<close>

text \<open>One iteration of the scan: the entries, the minimum, the furthest-back unsignaled one.\<close>

record cleanup_scan =
  cs_procs :: "ProcState list"
  cs_min :: int
  cs_minsig :: int
  cs_needSig :: "nat option"

definition SICleanupQueue_step :: "nat \<Rightarrow> int \<Rightarrow> nat \<Rightarrow> cleanup_scan \<Rightarrow> cleanup_scan" where
  "SICleanupQueue_step maxreserve lowbound i s =
     (let stateP = cs_procs s ! i; n = nextMsgNum stateP
      in if procPid stateP = 0 \<or> resetState stateP \<or> sendOnly stateP then s
         else if n < lowbound then s\<lparr>cs_procs := (cs_procs s)[i := stateP\<lparr>resetState := True\<rparr>]\<rparr>
         else let s = (if n < cs_min s then s\<lparr>cs_min := n\<rparr> else s)
              in if i < maxreserve \<and> n < cs_minsig s \<and> \<not> signaled stateP
                 then s\<lparr>cs_minsig := n, cs_needSig := Some i\<rparr> else s)"

text \<open>The second component is the backend to signal, if any.\<close>

definition SICleanupQueue :: "'m SISeg \<Rightarrow> int \<Rightarrow> 'm SISeg \<times> nat option" where
  "SICleanupQueue segP minFree =
     (let min = maxMsgNum segP;
          lowbound = min - MAXNUMMESSAGES + minFree;
          s = fold (SICleanupQueue_step (maxreserveBackends segP) lowbound) [0..<lastBackend segP]
                \<lparr>cs_procs = procState segP, cs_min = min, cs_minsig = min - SIG_THRESHOLD, cs_needSig = None\<rparr>;
          segP = segP\<lparr>procState := cs_procs s, minMsgNum := cs_min s\<rparr>;
          segP = (if cs_min s \<ge> MSGNUMWRAPAROUND
                  then segP\<lparr>minMsgNum := minMsgNum segP - MSGNUMWRAPAROUND,
                            maxMsgNum := maxMsgNum segP - MSGNUMWRAPAROUND,
                            procState := update_range (\<lambda>i stateP. if procPid stateP \<noteq> 0
                                then stateP\<lparr>nextMsgNum := nextMsgNum stateP - MSGNUMWRAPAROUND\<rparr>
                                else stateP) 0 (lastBackend segP) (procState segP)\<rparr>
                  else segP);
          numMsgs = maxMsgNum segP - minMsgNum segP;
          segP = segP\<lparr>nextThreshold := (if numMsgs < CLEANUP_MIN then CLEANUP_MIN
                                       else (numMsgs div CLEANUP_QUANTUM + 1) * CLEANUP_QUANTUM)\<rparr>
      in case cs_needSig s of
           None \<Rightarrow> (segP, None)
         | Some i \<Rightarrow> (segP\<lparr>procState := (procState segP)[i := (procState segP ! i)\<lparr>signaled := True\<rparr>]\<rparr>, Some i))"

section \<open>Sending and receiving\<close>

text \<open>The test of the inner \<open>for (;;)\<close> loop: whether the queue has to be cleaned first.\<close>

definition must_clean :: "'m SISeg \<Rightarrow> nat \<Rightarrow> bool" where
  "must_clean segP nthistime \<longleftrightarrow>
     (let numMsgs = maxMsgNum segP - minMsgNum segP
      in numMsgs + int nthistime > MAXNUMMESSAGES \<or> numMsgs \<ge> nextThreshold segP)"

partial_function (option) make_room :: "'m SISeg \<Rightarrow> nat \<Rightarrow> 'm SISeg option" where
  "make_room segP nthistime =
     (if must_clean segP nthistime then make_room (fst (SICleanupQueue segP (int nthistime))) nthistime
      else Some segP)"

text \<open>Writing one group of messages and giving every active backend its kick.\<close>

definition put_message :: "XLogRecPtr \<Rightarrow> 'm \<Rightarrow> ('m \<times> XLogRecPtr) list \<times> int \<Rightarrow> ('m \<times> XLogRecPtr) list \<times> int" where
  "put_message lsn d s = (case s of (buf, mx) \<Rightarrow> (buf[nat (mx mod MAXNUMMESSAGES) := (d, lsn)], mx + 1))"

definition insert_group :: "'m SISeg \<Rightarrow> 'm list \<Rightarrow> XLogRecPtr \<Rightarrow> 'm SISeg" where
  "insert_group segP msgs lsn =
     (case fold (put_message lsn) msgs (buffer segP, maxMsgNum segP) of (buf, mx) \<Rightarrow>
        segP\<lparr>buffer := buf, maxMsgNum := mx,
          procState := update_range (\<lambda>i stateP. if procPid stateP \<noteq> 0 then stateP\<lparr>hasMessages := True\<rparr> else stateP)
            0 (lastBackend segP) (procState segP)\<rparr>)"

function SIInsertDataEntries :: "'m SISeg \<Rightarrow> 'm list \<Rightarrow> XLogRecPtr \<Rightarrow> 'm SISeg option" where
  "SIInsertDataEntries segP data lsn =
     (if length data > 0 then
        (let nthistime = min (length data) WRITE_QUANTUM
         in case make_room segP nthistime of
              None \<Rightarrow> None
            | Some segP \<Rightarrow> SIInsertDataEntries (insert_group segP (take nthistime data) lsn)
                            (drop nthistime data) lsn)
      else Some segP)"
  by pat_completeness auto
termination
  by (relation "measure (\<lambda>(segP, data, lsn). length data)") (auto simp: WRITE_QUANTUM_def)

declare SIInsertDataEntries.simps [simp del]

text \<open>The slot of the calling backend or session.\<close>

definition my_slot :: "backend_ctx \<Rightarrow> bool \<Rightarrow> nat" where
  "my_slot ctx worksession =
     (if is_thread_pool_worker ctx then
        (if enable_local_syscache ctx \<and> \<not> worksession then nat (MyBackendId ctx - 1)
         else session_ctr_index ctx)
      else nat (MyBackendId ctx - 1))"

text \<open>
  The reading loop; \<open>read_lsn\<close> is 0 when the caller does not read at a fixed LSN. The fuel is
  the room left in the caller's array, \<open>datasize - n\<close>.
\<close>

fun read_messages :: "('m \<times> XLogRecPtr) list \<Rightarrow> XLogRecPtr \<Rightarrow> int \<Rightarrow> nat \<Rightarrow> int \<Rightarrow> 'm list \<times> int" where
  "read_messages buf read_lsn mx 0 nxt = ([], nxt)"
| "read_messages buf read_lsn mx (Suc room) nxt =
     (if nxt < mx then
        (let (msg, lsn) = buf ! nat (nxt mod MAXNUMMESSAGES)
         in if read_lsn \<noteq> 0 \<and> lsn \<noteq> 0 \<and> read_lsn < lsn then ([], nxt)
            else case read_messages buf read_lsn mx room (nxt + 1) of (data, nxt) \<Rightarrow> (msg # data, nxt))
      else ([], nxt))"

text \<open>The result code, the messages extracted and the segment.\<close>

definition SIGetDataEntries :: "'m SISeg \<Rightarrow> nat \<Rightarrow> XLogRecPtr \<Rightarrow> nat \<Rightarrow> int \<times> 'm list \<times> 'm SISeg" where
  "SIGetDataEntries segP me read_lsn datasize =
     (let stateP = procState segP ! me
      in if \<not> hasMessages stateP then (0, [], segP)
         else let stateP = stateP\<lparr>hasMessages := False\<rparr>; mx = maxMsgNum segP
              in if resetState stateP
                 then (- 1, [], segP\<lparr>procState := (procState segP)[me :=
                        stateP\<lparr>nextMsgNum := mx, resetState := False, signaled := False\<rparr>]\<rparr>)
                 else let (data, nxt) = read_messages (buffer segP) read_lsn mx datasize (nextMsgNum stateP);
                          stateP = stateP\<lparr>nextMsgNum := nxt\<rparr>;
                          stateP = (if nxt \<ge> mx then stateP\<lparr>signaled := False\<rparr> else stateP\<lparr>hasMessages := True\<rparr>)
                      in (int (length data), data, segP\<lparr>procState := (procState segP)[me := stateP]\<rparr>))"

text \<open>\<open>result = nextLocalTransactionId++\<close> until the result is valid.\<close>

partial_function (option) GetNextLocalTransactionId :: "backend_ctx \<Rightarrow> (LocalTransactionId \<times> backend_ctx) option" where
  "GetNextLocalTransactionId ctx =
     (let result = nextLocalTransactionId ctx;
          ctx = ctx\<lparr>nextLocalTransactionId := nextLocalTransactionId ctx + 1\<rparr>
      in if result = 0 then GetNextLocalTransactionId ctx else Some (result, ctx))"

section \<open>The invariant\<close>

abbreviation active :: "ProcState \<Rightarrow> bool" where
  "active p \<equiv> procPid p \<noteq> 0"

text \<open>A backend that is to be given every message: active, receiving, and not in reset state.\<close>

definition listening :: "ProcState \<Rightarrow> bool" where
  "listening p \<longleftrightarrow> procPid p \<noteq> 0 \<and> \<not> resetState p \<and> \<not> sendOnly p"

definition si_shape :: "'m SISeg \<Rightarrow> bool" where
  "si_shape segP \<longleftrightarrow> length (buffer segP) = 4096 \<and> length (procState segP) = maxBackends segP \<and>
     lastBackend segP \<le> maxBackends segP \<and> lastreserveBackend segP \<le> maxreserveBackends segP \<and>
     maxreserveBackends segP \<le> maxBackends segP \<and>
     (\<forall>i < maxBackends segP. active (procState segP ! i) \<longrightarrow> i < lastBackend segP) \<and>
     (\<forall>i < maxreserveBackends segP. active (procState segP ! i) \<longrightarrow> i < lastreserveBackend segP)"

definition si_numbers :: "'m SISeg \<Rightarrow> bool" where
  "si_numbers segP \<longleftrightarrow> 0 \<le> minMsgNum segP \<and> minMsgNum segP \<le> maxMsgNum segP \<and>
     maxMsgNum segP \<le> minMsgNum segP + MAXNUMMESSAGES \<and> minMsgNum segP < MSGNUMWRAPAROUND"

definition si_proc_ok :: "int \<Rightarrow> int \<Rightarrow> ProcState \<Rightarrow> bool" where
  "si_proc_ok mn mx p \<longleftrightarrow> (listening p \<longrightarrow> mn \<le> nextMsgNum p \<and> nextMsgNum p \<le> mx) \<and>
     (active p \<and> \<not> hasMessages p \<longrightarrow> \<not> resetState p \<and> nextMsgNum p = mx)"

definition si_inv :: "'m SISeg \<Rightarrow> bool" where
  "si_inv segP \<longleftrightarrow> si_shape segP \<and> si_numbers segP \<and>
     (\<forall>i < maxBackends segP. si_proc_ok (minMsgNum segP) (maxMsgNum segP) (procState segP ! i))"

text \<open>
  The log of all messages ever sent, as the queue holds its tail: message number \<open>k\<close> is entry
  \<open>k + base\<close> of the log, \<open>base\<close> being what the wrap-arounds have subtracted so far.
\<close>

definition tracks :: "'m SISeg \<Rightarrow> ('m \<times> XLogRecPtr) list \<Rightarrow> int \<Rightarrow> bool" where
  "tracks segP lg base \<longleftrightarrow> 0 \<le> base \<and> MAXNUMMESSAGES dvd base \<and> int (length lg) = maxMsgNum segP + base \<and>
     (\<forall>k. minMsgNum segP \<le> k \<and> k < maxMsgNum segP \<longrightarrow>
        buffer segP ! nat (k mod MAXNUMMESSAGES) = lg ! nat (k + base))"

section \<open>Cleaning\<close>

definition drop_laggard :: "int \<Rightarrow> ProcState \<Rightarrow> ProcState" where
  "drop_laggard lowbound p = (if listening p \<and> nextMsgNum p < lowbound then p\<lparr>resetState := True\<rparr> else p)"

lemma drop_laggard_simps [simp]:
  "procPid (drop_laggard l p) = procPid p" "sendOnly (drop_laggard l p) = sendOnly p"
  "nextMsgNum (drop_laggard l p) = nextMsgNum p" "hasMessages (drop_laggard l p) = hasMessages p"
  "listening (drop_laggard l p) \<longleftrightarrow> listening p \<and> l \<le> nextMsgNum p"
  by (auto simp: drop_laggard_def listening_def)

lemma cleanup_scan:
  assumes "k \<le> length procs" "s = fold (SICleanupQueue_step mr low) [0..<k]
      \<lparr>cs_procs = procs, cs_min = mx, cs_minsig = ms, cs_needSig = None\<rparr>"
  shows "cs_procs s = update_range (\<lambda>i. drop_laggard low) 0 k procs \<and> cs_min s \<le> mx \<and>
    (\<forall>i < k. listening (procs ! i) \<and> low \<le> nextMsgNum (procs ! i) \<longrightarrow> cs_min s \<le> nextMsgNum (procs ! i)) \<and>
    (cs_min s = mx \<or> (\<exists>i < k. listening (procs ! i) \<and> low \<le> nextMsgNum (procs ! i) \<and>
        cs_min s = nextMsgNum (procs ! i))) \<and>
    (\<forall>i. cs_needSig s = Some i \<longrightarrow> i < k \<and> listening (procs ! i) \<and> low \<le> nextMsgNum (procs ! i) \<and>
        nextMsgNum (procs ! i) < ms)"
    (is "?P s k")
proof -
  let ?Q = "\<lambda>k s. ?P s k \<and> cs_minsig s \<le> ms"
  have "?Q k s"
    unfolding assms(2)
  proof (rule fold_upt_rule)
    fix j s'
    assume j: "j < k" and I: "?Q j s'"
    have at: "cs_procs s' ! j = procs ! j" using I j assms(1) by simp
    have upd: "update_range (\<lambda>i. drop_laggard low) 0 (Suc j) procs =
        (update_range (\<lambda>i. drop_laggard low) 0 j procs)[j := drop_laggard low (procs ! j)]"
      using j assms(1) by (intro nth_equalityI) (auto simp: nth_list_update less_Suc_eq)
    have same: "\<not> (listening (procs ! j) \<and> nextMsgNum (procs ! j) < low) \<Longrightarrow>
        (update_range (\<lambda>i. drop_laggard low) 0 j procs)[j := drop_laggard low (procs ! j)] =
        update_range (\<lambda>i. drop_laggard low) 0 j procs"
      using j assms(1) by (intro nth_equalityI) (auto simp: nth_list_update drop_laggard_def)
    consider (skip) "\<not> listening (procs ! j)"
      | (reset) "listening (procs ! j)" "nextMsgNum (procs ! j) < low"
      | (keep) "listening (procs ! j)" "low \<le> nextMsgNum (procs ! j)" by linarith
    then show "?Q (Suc j) (SICleanupQueue_step mr low j s')"
    proof cases
      case skip
      then have "SICleanupQueue_step mr low j s' = s'"
        by (auto simp: SICleanupQueue_step_def at Let_def listening_def)
      then show ?thesis using I skip same upd by (auto simp: less_Suc_eq)
    next
      case reset
      then have "SICleanupQueue_step mr low j s' =
          s'\<lparr>cs_procs := (cs_procs s')[j := (procs ! j)\<lparr>resetState := True\<rparr>]\<rparr>"
        by (auto simp: SICleanupQueue_step_def at Let_def listening_def)
      moreover have "drop_laggard low (procs ! j) = (procs ! j)\<lparr>resetState := True\<rparr>"
        using reset by (simp add: drop_laggard_def)
      ultimately show ?thesis using I reset upd by (auto simp: less_Suc_eq)
    next
      case keep
      then have st: "SICleanupQueue_step mr low j s' =
         (let s = (if nextMsgNum (procs ! j) < cs_min s' then s'\<lparr>cs_min := nextMsgNum (procs ! j)\<rparr> else s')
          in if j < mr \<and> nextMsgNum (procs ! j) < cs_minsig s \<and> \<not> signaled (procs ! j)
             then s\<lparr>cs_minsig := nextMsgNum (procs ! j), cs_needSig := Some j\<rparr> else s)"
        by (simp add: SICleanupQueue_step_def at Let_def listening_def)
      show ?thesis using I keep same upd unfolding st Let_def by (auto simp: less_Suc_eq split: if_splits)
    qed
  qed (simp_all add: update_range_def)
  then show ?thesis by simp
qed

lemmas si_constants = MAXNUMMESSAGES_def MSGNUMWRAPAROUND_def CLEANUP_MIN_def CLEANUP_QUANTUM_def
  SIG_THRESHOLD_def WRITE_QUANTUM_def

text \<open>What a cleanup does: \<open>d\<close> is what is subtracted from all the message numbers.\<close>

definition cleaned :: "'m SISeg \<Rightarrow> int \<Rightarrow> int \<Rightarrow> 'm SISeg \<Rightarrow> bool" where
  "cleaned segP minFree d segP' \<longleftrightarrow>
     (let low = maxMsgNum segP - MAXNUMMESSAGES + minFree
      in d \<in> {0, MSGNUMWRAPAROUND} \<and> buffer segP' = buffer segP \<and> maxMsgNum segP' = maxMsgNum segP - d \<and>
         minMsgNum segP \<le> minMsgNum segP' + d \<and> low \<le> minMsgNum segP' + d \<and>
         lastBackend segP' = lastBackend segP \<and> lastreserveBackend segP' = lastreserveBackend segP \<and>
         maxBackends segP' = maxBackends segP \<and> maxreserveBackends segP' = maxreserveBackends segP \<and>
         length (procState segP') = length (procState segP) \<and>
         (\<forall>i < maxBackends segP. let p = procState segP ! i; p' = procState segP' ! i
            in procPid p' = procPid p \<and> sendOnly p' = sendOnly p \<and> hasMessages p' = hasMessages p \<and>
               (resetState p' \<longleftrightarrow> resetState p \<or> (listening p \<and> nextMsgNum p < low)) \<and>
               (active p \<longrightarrow> nextMsgNum p' = nextMsgNum p - d)))"

lemma SICleanupQueue_cleaned:
  assumes inv: "si_inv segP" and mf: "0 \<le> minFree" "minFree \<le> MAXNUMMESSAGES"
    and res: "SICleanupQueue segP minFree = (segP', sig)"
  obtains d where "cleaned segP minFree d segP'" "si_numbers segP'" "\<not> must_clean segP' (nat minFree)"
    "\<And>i. i < maxBackends segP \<Longrightarrow> listening (procState segP' ! i) \<Longrightarrow>
       minMsgNum segP' \<le> nextMsgNum (procState segP' ! i)"
proof -
  let ?low = "maxMsgNum segP - MAXNUMMESSAGES + minFree" and ?n = "lastBackend segP"
  define s where "s = fold (SICleanupQueue_step (maxreserveBackends segP) ?low) [0..<?n]
      \<lparr>cs_procs = procState segP, cs_min = maxMsgNum segP, cs_minsig = maxMsgNum segP - SIG_THRESHOLD,
       cs_needSig = None\<rparr>"
  define d where "d = (if cs_min s \<ge> MSGNUMWRAPAROUND then MSGNUMWRAPAROUND else 0)"
  have shape: "length (procState segP) = maxBackends segP" "?n \<le> maxBackends segP"
    "\<And>i. i < maxBackends segP \<Longrightarrow> active (procState segP ! i) \<Longrightarrow> i < ?n"
    and num: "0 \<le> minMsgNum segP" "minMsgNum segP \<le> maxMsgNum segP"
    "maxMsgNum segP \<le> minMsgNum segP + MAXNUMMESSAGES" "minMsgNum segP < MSGNUMWRAPAROUND"
    and ok: "\<And>i. i < maxBackends segP \<Longrightarrow> si_proc_ok (minMsgNum segP) (maxMsgNum segP) (procState segP ! i)"
    using inv by (auto simp: si_inv_def si_shape_def si_numbers_def)
  note scan = cleanup_scan[OF _ s_def]
  have procs: "cs_procs s = update_range (\<lambda>i. drop_laggard ?low) 0 ?n (procState segP)"
    and mn: "cs_min s \<le> maxMsgNum segP"
      "\<And>i. i < ?n \<Longrightarrow> listening (procState segP ! i) \<Longrightarrow> ?low \<le> nextMsgNum (procState segP ! i) \<Longrightarrow>
         cs_min s \<le> nextMsgNum (procState segP ! i)"
      "minMsgNum segP \<le> cs_min s" "?low \<le> cs_min s"
    using scan shape num mf ok by (auto simp: si_proc_ok_def)
  have wrap: "minMsgNum segP' = cs_min s - d" "maxMsgNum segP' = maxMsgNum segP - d" "buffer segP' = buffer segP"
      "lastBackend segP' = ?n" "lastreserveBackend segP' = lastreserveBackend segP"
      "maxBackends segP' = maxBackends segP" "maxreserveBackends segP' = maxreserveBackends segP"
      "nextThreshold segP' = (let numMsgs = maxMsgNum segP' - minMsgNum segP' in
         if numMsgs < CLEANUP_MIN then CLEANUP_MIN else (numMsgs div CLEANUP_QUANTUM + 1) * CLEANUP_QUANTUM)"
      "length (procState segP') = length (procState segP)"
    using res[symmetric] procs
    by (auto simp: SICleanupQueue_def Let_def s_def[symmetric] d_def split: option.splits)
  have entry: "procPid (procState segP' ! i) = procPid (procState segP ! i) \<and>
      sendOnly (procState segP' ! i) = sendOnly (procState segP ! i) \<and>
      hasMessages (procState segP' ! i) = hasMessages (procState segP ! i) \<and>
      (resetState (procState segP' ! i) \<longleftrightarrow> resetState (procState segP ! i) \<or>
         (listening (procState segP ! i) \<and> nextMsgNum (procState segP ! i) < ?low)) \<and>
      (active (procState segP ! i) \<longrightarrow> nextMsgNum (procState segP' ! i) = nextMsgNum (procState segP ! i) - d)"
    if i: "i < maxBackends segP" for i
  proof -
    let ?p = "procState segP ! i"
    let ?p1 = "if i < ?n then drop_laggard ?low ?p else ?p"
    let ?p2 = "if d \<noteq> 0 \<and> i < ?n \<and> active ?p then ?p1\<lparr>nextMsgNum := nextMsgNum ?p1 - d\<rparr> else ?p1"
    have d0: "d \<noteq> 0 \<longleftrightarrow> MSGNUMWRAPAROUND \<le> cs_min s" by (auto simp: d_def si_constants)
    have "procState segP' ! i = ?p2 \<or> procState segP' ! i = ?p2\<lparr>signaled := True\<rparr>"
      using res[symmetric] procs i shape(1) d0
      by (auto simp: SICleanupQueue_def Let_def s_def[symmetric] d_def index_simps split: option.splits)
    moreover have "resetState (drop_laggard ?low ?p) \<longleftrightarrow> resetState ?p \<or> (listening ?p \<and> nextMsgNum ?p < ?low)"
      by (auto simp: drop_laggard_def)
    moreover have "listening ?p \<Longrightarrow> i < ?n" using shape(3)[OF i] by (simp add: listening_def)
    ultimately show ?thesis using shape(3)[OF i] by (auto split: if_splits)
  qed
  have nums: "si_numbers segP'"
    using num mn mf wrap(1,2) by (auto simp: si_numbers_def d_def si_constants)
  have "\<not> must_clean segP' (nat minFree)"
  proof -
    have q: "x < (x div 256 + 1) * 256" for x :: int by presburger
    show ?thesis
      using mn(4) mf wrap(1,2) q[of "maxMsgNum segP' - minMsgNum segP'"]
      by (auto simp: must_clean_def Let_def wrap(8) si_constants)
  qed
  moreover have "minMsgNum segP' \<le> nextMsgNum (procState segP' ! i)"
    if "i < maxBackends segP" "listening (procState segP' ! i)" for i
    using entry[OF that(1)] that mn(2)[of i] shape(3)[of i] wrap(1) by (auto simp: listening_def not_less)
  moreover have "cleaned segP minFree d segP'"
    unfolding cleaned_def Let_def using entry wrap mn(3,4) by (auto simp: d_def)
  ultimately show ?thesis using that nums by blast
qed

lemma cleaned_inv:
  assumes "si_inv segP" "minFree \<le> MAXNUMMESSAGES" "cleaned segP minFree d segP'" "si_numbers segP'"
    "\<And>i. i < maxBackends segP \<Longrightarrow> listening (procState segP' ! i) \<Longrightarrow>
       minMsgNum segP' \<le> nextMsgNum (procState segP' ! i)"
  shows "si_inv segP'"
proof -
  have c: "buffer segP' = buffer segP" "maxMsgNum segP' = maxMsgNum segP - d"
    "lastBackend segP' = lastBackend segP" "lastreserveBackend segP' = lastreserveBackend segP"
    "maxBackends segP' = maxBackends segP" "maxreserveBackends segP' = maxreserveBackends segP"
    "length (procState segP') = length (procState segP)"
    and e: "\<And>i. i < maxBackends segP \<Longrightarrow> procPid (procState segP' ! i) = procPid (procState segP ! i) \<and>
      sendOnly (procState segP' ! i) = sendOnly (procState segP ! i) \<and>
      hasMessages (procState segP' ! i) = hasMessages (procState segP ! i) \<and>
      (resetState (procState segP' ! i) \<longleftrightarrow> resetState (procState segP ! i) \<or> (listening (procState segP ! i) \<and>
         nextMsgNum (procState segP ! i) < maxMsgNum segP - MAXNUMMESSAGES + minFree)) \<and>
      (active (procState segP ! i) \<longrightarrow> nextMsgNum (procState segP' ! i) = nextMsgNum (procState segP ! i) - d)"
    using assms(3) by (auto simp: cleaned_def Let_def)
  have "si_proc_ok (minMsgNum segP') (maxMsgNum segP') (procState segP' ! i)" if i: "i < maxBackends segP" for i
  proof -
    have ok: "si_proc_ok (minMsgNum segP) (maxMsgNum segP) (procState segP ! i)"
      using assms(1) i by (simp add: si_inv_def)
    have "\<not> resetState (procState segP' ! i) \<and> nextMsgNum (procState segP' ! i) = maxMsgNum segP'"
      if a: "active (procState segP' ! i)" "\<not> hasMessages (procState segP' ! i)"
    proof -
      have n: "nextMsgNum (procState segP ! i) = maxMsgNum segP" "\<not> resetState (procState segP ! i)"
        using a e[OF i] ok by (auto simp: si_proc_ok_def)
      then show ?thesis using e[OF i] a assms(2) c(2) by auto
    qed
    moreover have "nextMsgNum (procState segP' ! i) \<le> maxMsgNum segP'" if "listening (procState segP' ! i)"
      using that e[OF i] ok c(2) by (auto simp: si_proc_ok_def listening_def)
    ultimately show ?thesis using assms(5)[OF i] by (auto simp: si_proc_ok_def)
  qed
  moreover have "si_shape segP'" using assms(1) c e by (auto simp: si_inv_def si_shape_def)
  ultimately show ?thesis using assms(4) c(5) by (simp add: si_inv_def)
qed

lemma cleaned_tracks:
  assumes "cleaned segP minFree d segP'" "tracks segP lg base"
  shows "tracks segP' lg (base + d)"
proof -
  have d: "d \<in> {0, MSGNUMWRAPAROUND}" and c: "buffer segP' = buffer segP" "maxMsgNum segP' = maxMsgNum segP - d"
    "minMsgNum segP \<le> minMsgNum segP' + d"
    using assms(1) by (auto simp: cleaned_def Let_def)
  have dvd: "MAXNUMMESSAGES dvd d" using d by (auto simp: MSGNUMWRAPAROUND_def)
  have "buffer segP' ! nat (k mod MAXNUMMESSAGES) = lg ! nat (k + (base + d))"
    if "minMsgNum segP' \<le> k" "k < maxMsgNum segP'" for k
  proof -
    have "(k + d) mod MAXNUMMESSAGES = k mod MAXNUMMESSAGES" using dvd by (auto elim: dvdE)
    moreover have "buffer segP ! nat ((k + d) mod MAXNUMMESSAGES) = lg ! nat (k + d + base)"
      using that c assms(2) by (simp add: tracks_def)
    ultimately show ?thesis using c(1) by (simp add: ac_simps)
  qed
  then show ?thesis
    using assms(2) c(2) d dvd by (auto simp: tracks_def si_constants)
qed

lemma make_room_returns:
  assumes "si_inv segP" "int n \<le> MAXNUMMESSAGES"
  shows "make_room segP n = Some (if must_clean segP n then fst (SICleanupQueue segP (int n)) else segP)"
proof (cases "must_clean segP n")
  case True
  obtain segP' sig where r: "SICleanupQueue segP (int n) = (segP', sig)" by force
  have "\<not> must_clean segP' n"
    by (rule SICleanupQueue_cleaned[OF assms(1) _ assms(2) r]) simp_all
  then show ?thesis using True r by (simp add: make_room.simps)
qed (simp add: make_room.simps)

section \<open>Inserting\<close>

lemma slot_distinct:
  fixes k m :: int
  assumes "k < m" "m < k + MAXNUMMESSAGES"
  shows "nat (k mod MAXNUMMESSAGES) \<noteq> nat (m mod MAXNUMMESSAGES)"
proof
  assume "nat (k mod MAXNUMMESSAGES) = nat (m mod MAXNUMMESSAGES)"
  then have "k mod MAXNUMMESSAGES = m mod MAXNUMMESSAGES" by (simp add: MAXNUMMESSAGES_def)
  then have "MAXNUMMESSAGES dvd m - k" by (metis mod_eq_dvd_iff)
  then show False using assms by (auto dest: zdvd_imp_le)
qed

lemma put_messages:
  assumes "tracks segP lg base" "si_inv segP"
    "maxMsgNum segP - minMsgNum segP + int (length msgs) \<le> MAXNUMMESSAGES"
    "fold (put_message lsn) msgs (buffer segP, maxMsgNum segP) = (buf, mx)"
  shows "length buf = 4096 \<and> mx = maxMsgNum segP + int (length msgs) \<and>
    (\<forall>k. minMsgNum segP \<le> k \<and> k < mx \<longrightarrow>
       buf ! nat (k mod MAXNUMMESSAGES) = (lg @ map (\<lambda>m. (m, lsn)) msgs) ! nat (k + base))"
proof -
  let ?e = "\<lambda>m. (m, lsn)"
  have b: "0 \<le> base" "int (length lg) = maxMsgNum segP + base" "0 \<le> minMsgNum segP" "length (buffer segP) = 4096"
    "minMsgNum segP \<le> maxMsgNum segP"
    and bb: "\<And>k. minMsgNum segP \<le> k \<Longrightarrow> k < maxMsgNum segP \<Longrightarrow>
        buffer segP ! nat (k mod MAXNUMMESSAGES) = lg ! nat (k + base)"
    using assms(1,2) by (auto simp: tracks_def si_inv_def si_shape_def si_numbers_def)
  let ?I = "\<lambda>xs (buf, mx). length buf = 4096 \<and> mx = maxMsgNum segP + int (length xs) \<and>
    (\<forall>k. minMsgNum segP \<le> k \<and> k < mx \<longrightarrow>
       buf ! nat (k mod MAXNUMMESSAGES) = (lg @ map ?e msgs) ! nat (k + base))"
  have "?I msgs (fold (put_message lsn) msgs (buffer segP, maxMsgNum segP))"
  proof (rule fold_rule[where I = ?I])
    show "?I [] (buffer segP, maxMsgNum segP)" using b bb by (auto simp: nth_append nat_less_iff)
  next
    fix xs x s
    assume I: "?I xs s" and "\<exists>ys. msgs = xs @ x # ys"
    then obtain ys where ys: "msgs = xs @ x # ys" by blast
    obtain buf mx where s: "s = (buf, mx)" by force
    have mx: "mx = maxMsgNum segP + int (length xs)" and len: "length buf = 4096" using I by (auto simp: s)
    let ?i = "nat (mx mod MAXNUMMESSAGES)"
    have i: "?i < 4096" by (simp add: MAXNUMMESSAGES_def nat_less_iff)
    have x: "(lg @ map ?e msgs) ! nat (mx + base) = (x, lsn)"
    proof -
      have "nat (mx + base) = length lg + length xs" using b mx by linarith
      then show ?thesis by (simp add: ys nth_append)
    qed
    have "buf[?i := (x, lsn)] ! nat (k mod MAXNUMMESSAGES) = (lg @ map ?e msgs) ! nat (k + base)"
      if k: "minMsgNum segP \<le> k" "k < mx + 1" for k
    proof (cases "k = mx")
      case True
      then show ?thesis using x i len by simp
    next
      case False
      then have "k < mx" "mx < k + MAXNUMMESSAGES" using k mx assms(3) ys by auto
      then show ?thesis using slot_distinct[of k mx] I k by (simp add: s)
    qed
    then show "?I (xs @ [x]) (put_message lsn x s)" using len mx by (auto simp: s put_message_def)
  qed
  then show ?thesis unfolding assms(4) by simp
qed

lemma insert_group_ok:
  assumes "si_inv segP" "tracks segP lg base" "\<not> must_clean segP (length msgs)"
  shows "si_inv (insert_group segP msgs lsn)"
    "tracks (insert_group segP msgs lsn) (lg @ map (\<lambda>m. (m, lsn)) msgs) base"
    "\<And>i. i < maxBackends segP \<Longrightarrow> procState (insert_group segP msgs lsn) ! i =
       (if active (procState segP ! i) then (procState segP ! i)\<lparr>hasMessages := True\<rparr> else procState segP ! i)"
    "maxBackends (insert_group segP msgs lsn) = maxBackends segP"
proof -
  let ?s = "insert_group segP msgs lsn"
  obtain buf mx where f: "fold (put_message lsn) msgs (buffer segP, maxMsgNum segP) = (buf, mx)" by force
  have room: "maxMsgNum segP - minMsgNum segP + int (length msgs) \<le> MAXNUMMESSAGES"
    using assms(3) by (auto simp: must_clean_def Let_def)
  note put = put_messages[OF assms(2,1) room f]
  have shape: "length (procState segP) = maxBackends segP"
    "\<And>i. i < maxBackends segP \<Longrightarrow> active (procState segP ! i) \<Longrightarrow> i < lastBackend segP"
    using assms(1) by (auto simp: si_inv_def si_shape_def)
  show e: "procState ?s ! i =
      (if active (procState segP ! i) then (procState segP ! i)\<lparr>hasMessages := True\<rparr> else procState segP ! i)"
    if "i < maxBackends segP" for i
    using that shape by (auto simp: insert_group_def f)
  have fields: "buffer ?s = buf" "maxMsgNum ?s = mx" "minMsgNum ?s = minMsgNum segP"
    "lastBackend ?s = lastBackend segP" "lastreserveBackend ?s = lastreserveBackend segP"
    "maxBackends ?s = maxBackends segP" "maxreserveBackends ?s = maxreserveBackends segP"
    "length (procState ?s) = length (procState segP)"
    by (simp_all add: insert_group_def f)
  then show "maxBackends ?s = maxBackends segP" by simp
  have "si_proc_ok (minMsgNum ?s) (maxMsgNum ?s) (procState ?s ! i)" if i: "i < maxBackends segP" for i
  proof -
    have "si_proc_ok (minMsgNum segP) (maxMsgNum segP) (procState segP ! i)"
      using assms(1) i by (simp add: si_inv_def)
    then show ?thesis
      using e[OF i] put by (auto simp: si_proc_ok_def fields listening_def)
  qed
  moreover have "si_shape ?s" using assms(1) put e shape(1) by (auto simp: si_inv_def si_shape_def fields)
  moreover have "si_numbers ?s" using assms(1) put room by (auto simp: si_inv_def si_numbers_def fields)
  ultimately show "si_inv ?s" by (simp add: si_inv_def fields)
  show "tracks ?s (lg @ map (\<lambda>m. (m, lsn)) msgs) base"
    using assms(2) put by (auto simp: tracks_def fields)
qed

section \<open>Receiving\<close>

lemma read_messages_ok:
  assumes "tracks segP lg base" "si_numbers segP"
  shows "minMsgNum segP \<le> nxt \<Longrightarrow> nxt \<le> maxMsgNum segP \<Longrightarrow>
    read_messages (buffer segP) rl (maxMsgNum segP) room nxt = (data, nxt') \<Longrightarrow>
    nxt \<le> nxt' \<and> nxt' \<le> maxMsgNum segP \<and> int (length data) = nxt' - nxt \<and> length data \<le> room \<and>
    data = map fst (take (length data) (drop (nat (nxt + base)) lg)) \<and>
    (rl = 0 \<and> length data < room \<longrightarrow> nxt' = maxMsgNum segP)"
proof (induction room arbitrary: nxt data)
  case (Suc room)
  show ?case
  proof (cases "nxt < maxMsgNum segP")
    case True
    obtain msg lsn where m: "buffer segP ! nat (nxt mod MAXNUMMESSAGES) = (msg, lsn)" by force
    show ?thesis
    proof (cases "rl \<noteq> 0 \<and> lsn \<noteq> 0 \<and> rl < lsn")
      case stop: True
      then show ?thesis using Suc.prems True m by simp
    next
      case False
      obtain data1 where r: "read_messages (buffer segP) rl (maxMsgNum segP) room (nxt + 1) = (data1, nxt')"
        "data = msg # data1"
        using Suc.prems(3) True m False by (auto split: prod.splits)
      note IH = Suc.IH[OF _ _ r(1)]
      have pos: "nat (nxt + base) < length lg" "0 \<le> nxt + base"
        using True Suc.prems(1) assms by (auto simp: tracks_def si_numbers_def)
      have "drop (nat (nxt + base)) lg = (msg, lsn) # drop (nat (nxt + 1 + base)) lg"
      proof -
        have "lg ! nat (nxt + base) = (msg, lsn)"
          using assms(1) Suc.prems(1) True m by (simp add: tracks_def)
        moreover have "nat (nxt + 1 + base) = Suc (nat (nxt + base))" using pos(2) by simp
        ultimately show ?thesis using Cons_nth_drop_Suc[OF pos(1)] by simp
      qed
      then show ?thesis using IH True Suc.prems r by auto
    qed
  qed (use Suc.prems in auto)
qed simp

text \<open>Replacing one entry of the array by one that is still active.\<close>

lemma si_inv_update_entry:
  assumes "si_inv segP" "i < maxBackends segP" "procPid p = procPid (procState segP ! i)"
    "si_proc_ok (minMsgNum segP) (maxMsgNum segP) p"
  shows "si_inv (segP\<lparr>procState := (procState segP)[i := p]\<rparr>)"
  using assms by (auto simp: si_inv_def si_shape_def si_numbers_def index_simps)

lemma SIGetDataEntries_ok:
  assumes "si_inv segP" "tracks segP lg base" "i < maxBackends segP"
    "SIGetDataEntries segP i rl datasize = (r, data, segP')"
    "active (procState segP ! i)" "\<not> sendOnly (procState segP ! i)"
  shows "si_inv segP'" "tracks segP' lg base" "maxBackends segP' = maxBackends segP"
    "\<And>j. j < maxBackends segP \<Longrightarrow> j \<noteq> i \<Longrightarrow> procState segP' ! j = procState segP ! j"
    "listening (procState segP' ! i)"
    "r = - 1 \<longleftrightarrow> resetState (procState segP ! i)"
    "r = - 1 \<Longrightarrow> nextMsgNum (procState segP' ! i) = maxMsgNum segP \<and> data = []"
    "r \<noteq> - 1 \<Longrightarrow> r = int (length data) \<and> length data \<le> datasize \<and>
       nextMsgNum (procState segP' ! i) = nextMsgNum (procState segP ! i) + int (length data) \<and>
       data = map fst (take (length data) (drop (nat (nextMsgNum (procState segP ! i) + base)) lg)) \<and>
       (rl = 0 \<and> length data < datasize \<longrightarrow> nextMsgNum (procState segP' ! i) = maxMsgNum segP)"
proof -
  let ?p = "procState segP ! i"
  have ok: "si_proc_ok (minMsgNum segP) (maxMsgNum segP) ?p" and num: "si_numbers segP"
    and len: "length (procState segP) = maxBackends segP"
    using assms(1,3) by (auto simp: si_inv_def si_shape_def)
  obtain p' where s: "segP' = segP\<lparr>procState := (procState segP)[i := p']\<rparr>"
    and p': "procPid p' = procPid ?p" "si_proc_ok (minMsgNum segP) (maxMsgNum segP) p'" "listening p'"
      "r = - 1 \<longleftrightarrow> resetState ?p" "r = - 1 \<Longrightarrow> nextMsgNum p' = maxMsgNum segP \<and> data = []"
      "r \<noteq> - 1 \<Longrightarrow> r = int (length data) \<and> length data \<le> datasize \<and>
         nextMsgNum p' = nextMsgNum ?p + int (length data) \<and>
         data = map fst (take (length data) (drop (nat (nextMsgNum ?p + base)) lg)) \<and>
         (rl = 0 \<and> length data < datasize \<longrightarrow> nextMsgNum p' = maxMsgNum segP)"
  proof (cases "\<not> hasMessages ?p")
    case True
    then have "r = 0" "data = []" "segP' = segP" using assms(4) by (auto simp: SIGetDataEntries_def)
    moreover have "\<not> resetState ?p" "nextMsgNum ?p = maxMsgNum segP"
      using ok True assms(5) by (auto simp: si_proc_ok_def)
    ultimately show ?thesis
      using ok assms(5,6) by (intro that[of ?p]) (auto simp: listening_def)
  next
    case has: False
    show ?thesis
    proof (cases "resetState ?p")
      case True
      then show ?thesis
        using assms(4-6) has num
        by (intro that[of "?p\<lparr>hasMessages := False, nextMsgNum := maxMsgNum segP, resetState := False, signaled := False\<rparr>"])
          (auto simp: SIGetDataEntries_def Let_def si_proc_ok_def si_numbers_def listening_def)
    next
      case False
      have bounds: "minMsgNum segP \<le> nextMsgNum ?p" "nextMsgNum ?p \<le> maxMsgNum segP"
        using ok False assms(5,6) by (auto simp: si_proc_ok_def listening_def)
      obtain dt nxt where rd: "read_messages (buffer segP) rl (maxMsgNum segP) datasize (nextMsgNum ?p) = (dt, nxt)"
        by force
      note ro = read_messages_ok[OF assms(2) num bounds rd]
      let ?q = "?p\<lparr>hasMessages := False, nextMsgNum := nxt\<rparr>"
      let ?r = "if nxt \<ge> maxMsgNum segP then ?q\<lparr>signaled := False\<rparr> else ?q\<lparr>hasMessages := True\<rparr>"
      have res: "r = int (length data)" "data = dt" "segP' = segP\<lparr>procState := (procState segP)[i := ?r]\<rparr>"
        using assms(4) has False rd by (auto simp: SIGetDataEntries_def Let_def)
      show ?thesis
        using ro bounds False assms(5,6) num res
        by (intro that[of ?r]) (auto simp: si_proc_ok_def listening_def)
    qed
  qed
  have at: "procState segP' ! j = (if j = i then p' else procState segP ! j)" if "j < maxBackends segP" for j
    using s that len by (simp add: index_simps)
  show "si_inv segP'" using si_inv_update_entry[OF assms(1,3) p'(1,2)] s by simp
  show "tracks segP' lg base" using assms(2) by (simp add: s tracks_def)
  show "maxBackends segP' = maxBackends segP" by (simp add: s)
  show "j < maxBackends segP \<Longrightarrow> j \<noteq> i \<Longrightarrow> procState segP' ! j = procState segP ! j" for j using at by simp
  show "listening (procState segP' ! i)" using at[OF assms(3)] p' by simp
  show "r = - 1 \<longleftrightarrow> resetState ?p" by (rule p'(4))
  show "r = - 1 \<Longrightarrow> nextMsgNum (procState segP' ! i) = maxMsgNum segP \<and> data = []"
    using at[OF assms(3)] p'(5) by simp
  show "r \<noteq> - 1 \<Longrightarrow> r = int (length data) \<and> length data \<le> datasize \<and>
       nextMsgNum (procState segP' ! i) = nextMsgNum ?p + int (length data) \<and>
       data = map fst (take (length data) (drop (nat (nextMsgNum ?p + base)) lg)) \<and>
       (rl = 0 \<and> length data < datasize \<longrightarrow> nextMsgNum (procState segP' ! i) = maxMsgNum segP)"
    using at[OF assms(3)] p'(6) by (metis (full_types))
qed

section \<open>Backends come and go: the invariant\<close>

lemma last_active_props:
  "last_active procs n \<le> n" "\<And>i. last_active procs n \<le> i \<Longrightarrow> i < n \<Longrightarrow> procPid (procs ! i) = 0"
  by (induction n) (auto simp: less_Suc_eq split: if_splits)

lemma mark_active_ok:
  assumes "si_inv segP" "i < maxBackends segP" "i < lastBackend segP"
    "i < maxreserveBackends segP \<Longrightarrow> i < lastreserveBackend segP" "MyProcPid ctx \<noteq> 0"
  shows "si_inv (mark_active segP ctx so i)"
  using assms by (auto simp: mark_active_def si_inv_def si_shape_def si_numbers_def index_simps
      si_proc_ok_def listening_def)

lemma si_inv_extend:
  assumes "si_inv segP" "lastBackend segP \<le> n" "n \<le> maxBackends segP"
    "lastreserveBackend segP \<le> m" "m \<le> maxreserveBackends segP"
  shows "si_inv (segP\<lparr>lastBackend := n, lastreserveBackend := m\<rparr>)"
  using assms by (force simp: si_inv_def si_shape_def si_numbers_def)

definition joined :: "'m SISeg \<Rightarrow> backend_ctx \<Rightarrow> bool \<Rightarrow> nat \<Rightarrow> 'm SISeg \<Rightarrow> bool" where
  "joined segP ctx so i segP' \<longleftrightarrow> i < maxBackends segP \<and> procPid (procState segP ! i) = 0 \<and>
     (\<exists>n m. lastBackend segP \<le> n \<and> n \<le> maxBackends segP \<and> lastreserveBackend segP \<le> m \<and>
        m \<le> maxreserveBackends segP \<and> i < n \<and> (i < maxreserveBackends segP \<longrightarrow> i < m) \<and>
        segP' = mark_active (segP\<lparr>lastBackend := n, lastreserveBackend := m\<rparr>) ctx so i)"

lemma ReserveBackendInit_joined:
  assumes "si_inv segP" "SharedInvalReserveBackendInit segP ctx so = Inr (segP', ctx')"
  shows "\<exists>i. joined segP ctx so i segP' \<and> MyBackendId ctx' = int i + 1 \<and> i < maxreserveBackends segP \<and>
    nextLocalTransactionId ctx' = nextLXID (procState segP ! i)"
proof -
  have sh: "lastBackend segP \<le> maxBackends segP" "lastreserveBackend segP \<le> maxreserveBackends segP"
    "maxreserveBackends segP \<le> maxBackends segP"
    "\<And>i. i < maxreserveBackends segP \<Longrightarrow> active (procState segP ! i) \<Longrightarrow> i < lastreserveBackend segP"
    using assms(1) by (auto simp: si_inv_def si_shape_def)
  obtain i m where i: "i < m" "lastreserveBackend segP \<le> m" "m \<le> maxreserveBackends segP"
    "procPid (procState segP ! i) = 0"
    "segP' = mark_active (segP\<lparr>lastBackend := max (lastBackend segP) m, lastreserveBackend := m\<rparr>) ctx so i"
    "MyBackendId ctx' = int i + 1" "nextLocalTransactionId ctx' = nextLXID (procState segP ! i)"
  proof (cases "find (\<lambda>index. procPid (procState segP ! index) = 0) [0..<lastreserveBackend segP]")
    case (Some i)
    then have "i < lastreserveBackend segP" "procPid (procState segP ! i) = 0"
      by (auto simp: find_Some_iff)
    then show ?thesis using Some assms(2) sh
      by (intro that[of i "lastreserveBackend segP"])
        (auto simp: SharedInvalReserveBackendInit_def Let_def mark_active_def max_def split: if_splits)
  next
    case None
    then have lt: "lastreserveBackend segP < maxreserveBackends segP"
      using assms(2) by (auto simp: SharedInvalReserveBackendInit_def split: if_splits)
    then have "procPid (procState segP ! lastreserveBackend segP) = 0" using sh(4) by blast
    then show ?thesis using None assms(2) lt
      by (intro that[of "lastreserveBackend segP" "lastreserveBackend segP + 1"])
        (auto simp: SharedInvalReserveBackendInit_def Let_def mark_active_def max_def split: if_splits)
  qed
  then show ?thesis
    using sh unfolding joined_def
    by (intro exI[of _ i] conjI exI[of _ "max (lastBackend segP) m"] exI[of _ m]) auto
qed

lemma WorkSessionInit_joined:
  assumes "si_inv segP" "SharedInvalWorkSessionInit segP ctx so = Inr (segP', ctx')"
  shows "joined segP ctx so (session_ctr_index ctx) segP' \<and>
    nextLocalTransactionId ctx' = nextLXID (procState segP ! session_ctr_index ctx)"
proof -
  let ?i = "session_ctr_index ctx"
  have sh: "lastBackend segP \<le> maxBackends segP" "lastreserveBackend segP \<le> maxreserveBackends segP"
    using assms(1) by (auto simp: si_inv_def si_shape_def)
  have i: "\<not> ?i < maxreserveBackends segP" "?i < maxBackends segP" "procPid (procState segP ! ?i) = 0"
    using assms(2) by (auto simp: SharedInvalWorkSessionInit_def Let_def split: if_splits)
  have "segP' = mark_active (segP\<lparr>lastBackend := max (lastBackend segP) (?i + 1),
      lastreserveBackend := lastreserveBackend segP\<rparr>) ctx so ?i"
    "nextLocalTransactionId ctx' = nextLXID (procState segP ! ?i)"
    using assms(2) i by (auto simp: SharedInvalWorkSessionInit_def Let_def mark_active_def max_def split: if_splits)
  then show ?thesis
    using i sh unfolding joined_def
    by (intro conjI exI[of _ "max (lastBackend segP) (?i + 1)"] exI[of _ "lastreserveBackend segP"]) auto
qed

lemma joined_ok:
  assumes "si_inv segP" "joined segP ctx so i segP'" "MyProcPid ctx \<noteq> 0"
  shows "si_inv segP'" "tracks segP lg base \<Longrightarrow> tracks segP' lg base" "maxBackends segP' = maxBackends segP"
    "\<And>j. j < maxBackends segP \<Longrightarrow> j \<noteq> i \<Longrightarrow> procState segP' ! j = procState segP ! j"
    "nextMsgNum (procState segP' ! i) = maxMsgNum segP" "maxMsgNum segP' = maxMsgNum segP"
    "i < maxBackends segP"
proof -
  obtain n m where j: "i < maxBackends segP" "lastBackend segP \<le> n" "n \<le> maxBackends segP"
    "lastreserveBackend segP \<le> m" "m \<le> maxreserveBackends segP" "i < n" "i < maxreserveBackends segP \<longrightarrow> i < m"
    "segP' = mark_active (segP\<lparr>lastBackend := n, lastreserveBackend := m\<rparr>) ctx so i"
    using assms(2) unfolding joined_def by blast
  show "si_inv segP'"
    unfolding j(8) by (rule mark_active_ok) (use si_inv_extend[OF assms(1) j(2-5)] j assms(3) in auto)
  have len: "length (procState segP) = maxBackends segP" using assms(1) by (simp add: si_inv_def si_shape_def)
  show "tracks segP lg base \<Longrightarrow> tracks segP' lg base" by (simp add: j(8) mark_active_def tracks_def)
  show "maxBackends segP' = maxBackends segP" "maxMsgNum segP' = maxMsgNum segP" "i < maxBackends segP"
    using j(1) by (simp_all add: j(8) mark_active_def)
  show "k < maxBackends segP \<Longrightarrow> k \<noteq> i \<Longrightarrow> procState segP' ! k = procState segP ! k" for k
    using len by (simp add: j(8) mark_active_def index_simps)
  show "nextMsgNum (procState segP' ! i) = maxMsgNum segP"
    using len j(1) by (simp add: j(8) mark_active_def index_simps)
qed

definition leave_slot :: "'m SISeg \<Rightarrow> 'm SISeg \<Rightarrow> bool" where
  "leave_slot segP segP' \<longleftrightarrow> buffer segP' = buffer segP \<and> minMsgNum segP' = minMsgNum segP \<and>
     maxMsgNum segP' = maxMsgNum segP \<and> maxBackends segP' = maxBackends segP \<and>
     (\<forall>i < maxBackends segP. procState segP' ! i = procState segP ! i \<or> procPid (procState segP' ! i) = 0)"

lemma si_inv_leave:
  assumes "si_inv segP" "leave_slot segP segP'" "maxreserveBackends segP' = maxreserveBackends segP"
    "length (procState segP') = length (procState segP)"
    "lastBackend segP' = last_active (procState segP') (lastBackend segP)"
    "lastreserveBackend segP' = lastreserveBackend segP \<or>
     lastreserveBackend segP' = last_active (procState segP') (lastreserveBackend segP)"
  shows "si_inv segP'"
proof -
  note la = last_active_props
  have a: "active (procState segP' ! i) \<Longrightarrow> procState segP' ! i = procState segP ! i" if "i < maxBackends segP" for i
    using assms(2) that by (auto simp: leave_slot_def)
  have sh: "si_shape segP" "si_numbers segP" using assms(1) by (simp_all add: si_inv_def)
  have "lastBackend segP' \<le> lastBackend segP" using assms(5) la(1) by simp
  moreover have "lastreserveBackend segP' \<le> lastreserveBackend segP"
    using assms(6) la(1)[of "procState segP'" "lastreserveBackend segP"] by auto
  moreover have "i < lastBackend segP'" if "i < maxBackends segP" "active (procState segP' ! i)" for i
    using la(2)[of "procState segP'" "lastBackend segP" i] a[OF that] that sh(1) assms(5)
    by (rule_tac ccontr) (auto simp: si_shape_def not_less)
  moreover have "i < lastreserveBackend segP'" if "i < maxreserveBackends segP" "active (procState segP' ! i)" for i
    using la(2)[of "procState segP'" "lastreserveBackend segP" i] a[of i] that sh(1) assms(6)
    by (rule_tac ccontr) (auto simp: si_shape_def not_less)
  ultimately have "si_shape segP'"
    using sh(1) assms(2,3,4) by (auto simp: si_shape_def leave_slot_def)
  moreover have "si_proc_ok (minMsgNum segP) (maxMsgNum segP) (procState segP' ! i)" if "i < maxBackends segP" for i
  proof (cases "active (procState segP' ! i)")
    case True
    then show ?thesis using a[OF that] assms(1) that by (simp add: si_inv_def)
  qed (simp add: si_proc_ok_def listening_def)
  ultimately show ?thesis using sh(2) assms(2) by (simp add: si_inv_def leave_slot_def si_numbers_def)
qed

lemma CleanupWorkSession_ok:
  assumes "si_inv segP"
  shows "si_inv (CleanupWorkSessionInvalidation segP ctx)" "leave_slot segP (CleanupWorkSessionInvalidation segP ctx)"
proof -
  let ?s = "CleanupWorkSessionInvalidation segP ctx"
  have len: "length (procState segP) = maxBackends segP" using assms by (simp add: si_inv_def si_shape_def)
  show l: "leave_slot segP ?s"
    using len by (auto simp: leave_slot_def CleanupWorkSessionInvalidation_def Let_def mark_inactive_def index_simps)
  show "si_inv ?s"
    by (rule si_inv_leave[OF assms l])
      (simp_all add: CleanupWorkSessionInvalidation_def Let_def mark_inactive_def)
qed

lemma CleanupInvalidationState_ok:
  assumes "si_inv segP"
  shows "si_inv (CleanupInvalidationState segP ctx)" "leave_slot segP (CleanupInvalidationState segP ctx)"
proof -
  let ?c = "is_thread_pool_worker ctx \<and> session_ctr_index ctx \<ge> maxreserveBackends segP"
  define s1 where "s1 = (if ?c then CleanupWorkSessionInvalidation segP ctx else segP)"
  define s2 where "s2 = mark_inactive s1 ctx (nat (MyBackendId ctx - 1))"
  let ?s = "CleanupInvalidationState segP ctx"
  have s: "?s = s2\<lparr>lastBackend := last_active (procState s2) (lastBackend s2),
      lastreserveBackend := last_active (procState s2) (lastreserveBackend s2)\<rparr>"
    by (simp add: CleanupInvalidationState_def Let_def s1_def s2_def)
  have s1: "si_inv s1" "leave_slot segP s1"
    using assms CleanupWorkSession_ok[OF assms] by (auto simp: s1_def leave_slot_def)
  then have len: "length (procState s1) = maxBackends segP"
    by (simp add: si_inv_def si_shape_def leave_slot_def)
  have l: "leave_slot s1 ?s"
    using len s1(2) by (auto simp: s s2_def leave_slot_def mark_inactive_def index_simps)
  then show "leave_slot segP ?s" using s1(2) unfolding leave_slot_def by metis
  show "si_inv ?s"
    by (rule si_inv_leave[OF s1(1) l]) (simp_all add: s s2_def mark_inactive_def)
qed

section \<open>Interleavings\<close>

text \<open>
  A world is the shared segment together with what has happened so far: the log of all
  messages sent (\<open>lg\<close>, with the offset \<open>base\<close> of the message numbers), and for every
  slot the position in the log where its holder started to listen (or was last reset) and the
  messages that it has received since. A step is one lock-protected section: the inner loop of
  \<open>SIInsertDataEntries\<close> is a sequence of cleanups followed by the writing of a group, between
  which any other step may happen.
\<close>

record 'm world =
  seg :: "'m SISeg"
  lg :: "('m \<times> XLogRecPtr) list"
  base :: int
  start :: "nat \<Rightarrow> nat"
  got :: "nat \<Rightarrow> 'm list"

inductive si_step :: "'m world \<Rightarrow> 'm world \<Rightarrow> bool" where
  clean: "\<lbrakk>0 \<le> minFree; minFree \<le> int WRITE_QUANTUM; SICleanupQueue (seg w) minFree = (segP, sig);
      maxMsgNum segP = maxMsgNum (seg w) - d\<rbrakk> \<Longrightarrow> si_step w (w\<lparr>seg := segP, base := base w + d\<rparr>)"
| put: "\<lbrakk>length msgs \<le> WRITE_QUANTUM; \<not> must_clean (seg w) (length msgs)\<rbrakk> \<Longrightarrow>
    si_step w (w\<lparr>seg := insert_group (seg w) msgs lsn, lg := lg w @ map (\<lambda>m. (m, lsn)) msgs\<rparr>)"
| get: "\<lbrakk>i < maxBackends (seg w); procPid (procState (seg w) ! i) \<noteq> 0; \<not> sendOnly (procState (seg w) ! i);
      SIGetDataEntries (seg w) i read_lsn datasize = (r, data, segP)\<rbrakk> \<Longrightarrow>
    si_step w (w\<lparr>seg := segP,
       start := (start w)(i := if r = - 1 then length (lg w) else start w i),
       got := (got w)(i := if r = - 1 then [] else got w i @ data)\<rparr>)"
| join_reserve: "\<lbrakk>MyProcPid ctx \<noteq> 0; SharedInvalReserveBackendInit (seg w) ctx so = Inr (segP, ctx');
      i = nat (MyBackendId ctx' - 1)\<rbrakk> \<Longrightarrow>
    si_step w (w\<lparr>seg := segP, start := (start w)(i := length (lg w)), got := (got w)(i := [])\<rparr>)"
| join_session: "\<lbrakk>MyProcPid ctx \<noteq> 0; SharedInvalWorkSessionInit (seg w) ctx so = Inr (segP, ctx');
      i = session_ctr_index ctx\<rbrakk> \<Longrightarrow>
    si_step w (w\<lparr>seg := segP, start := (start w)(i := length (lg w)), got := (got w)(i := [])\<rparr>)"
| leave: "si_step w (w\<lparr>seg := CleanupInvalidationState (seg w) ctx\<rparr>)"
| leave_session: "si_step w (w\<lparr>seg := CleanupWorkSessionInvalidation (seg w) ctx\<rparr>)"

inductive si_reach :: "'m world \<Rightarrow> bool" where
  init: "\<lbrakk>length buf = 4096; maxreserve \<le> maxb\<rbrakk> \<Longrightarrow>
    si_reach \<lparr>seg = CreateSharedInvalidationState maxb maxreserve buf, lg = [], base = 0,
      start = \<lambda>_. 0, got = \<lambda>_. []\<rparr>"
| step: "\<lbrakk>si_reach w; si_step w w'\<rbrakk> \<Longrightarrow> si_reach w'"

inductive_cases si_stepE: "si_step w w'"

text \<open>A listener has received exactly the part of the log between its start and its cursor.\<close>

definition delivered :: "'m world \<Rightarrow> nat \<Rightarrow> bool" where
  "delivered w i \<longleftrightarrow> (let pos = nat (nextMsgNum (procState (seg w) ! i) + base w)
     in start w i \<le> pos \<and> pos \<le> length (lg w) \<and>
        got w i = map fst (take (pos - start w i) (drop (start w i) (lg w))))"

definition world_inv :: "'m world \<Rightarrow> bool" where
  "world_inv w \<longleftrightarrow> si_inv (seg w) \<and> tracks (seg w) (lg w) (base w) \<and>
     (\<forall>i < maxBackends (seg w). listening (procState (seg w) ! i) \<longrightarrow> delivered w i)"

lemma delivered_keep:
  assumes "delivered w i" "nextMsgNum (procState (seg w') ! i) + base w' = nextMsgNum (procState (seg w) ! i) + base w"
    "start w' i = start w i" "got w' i = got w i" "lg w' = lg w @ new"
  shows "delivered w' i"
  using assms by (simp add: delivered_def Let_def)

lemma tracks_pos:
  assumes "si_inv segP" "tracks segP lg0 bs" "listening (procState segP ! i)" "i < maxBackends segP"
  shows "0 \<le> nextMsgNum (procState segP ! i) + bs" "nat (nextMsgNum (procState segP ! i) + bs) \<le> length lg0"
proof -
  have "si_proc_ok (minMsgNum segP) (maxMsgNum segP) (procState segP ! i)" "si_numbers segP"
    using assms(1,4) by (simp_all add: si_inv_def)
  then show "0 \<le> nextMsgNum (procState segP ! i) + bs" "nat (nextMsgNum (procState segP ! i) + bs) \<le> length lg0"
    using assms(2,3) by (auto simp: tracks_def si_proc_ok_def si_numbers_def)
qed

lemma slice_append:
  "s \<le> p \<Longrightarrow> take (p - s) (drop s xs) @ take n (drop p xs) = take (p + n - s) (drop s xs)"
proof -
  assume "s \<le> p"
  then have "p + n - s = (p - s) + n" "drop (p - s) (drop s xs) = drop p xs" by simp_all
  then show ?thesis by (simp add: take_add)
qed

lemma world_inv_clean:
  assumes "world_inv w" "0 \<le> minFree" "minFree \<le> int WRITE_QUANTUM"
    "SICleanupQueue (seg w) minFree = (segP, sig)" "maxMsgNum segP = maxMsgNum (seg w) - d"
  shows "world_inv (w\<lparr>seg := segP, base := base w + d\<rparr>)"
proof -
  have inv: "si_inv (seg w)" and tr: "tracks (seg w) (lg w) (base w)" using assms(1) by (simp_all add: world_inv_def)
  have mf: "minFree \<le> MAXNUMMESSAGES" using assms(3) by (simp add: si_constants)
  obtain d' where c: "cleaned (seg w) minFree d' segP" "si_numbers segP"
    "\<And>i. i < maxBackends (seg w) \<Longrightarrow> listening (procState segP ! i) \<Longrightarrow>
       minMsgNum segP \<le> nextMsgNum (procState segP ! i)"
    using SICleanupQueue_cleaned[OF inv assms(2) mf assms(4)] by blast
  have d: "d' = d" using c(1) assms(5) by (simp add: cleaned_def Let_def)
  have mb: "maxBackends segP = maxBackends (seg w)" using c(1) by (simp add: cleaned_def Let_def)
  have "delivered (w\<lparr>seg := segP, base := base w + d\<rparr>) i"
    if i: "i < maxBackends (seg w)" "listening (procState segP ! i)" for i
  proof -
    have e: "listening (procState (seg w) ! i)" "nextMsgNum (procState segP ! i) = nextMsgNum (procState (seg w) ! i) - d"
      using c(1) d i by (auto simp: cleaned_def Let_def listening_def)
    then have "delivered w i" using assms(1) i by (simp add: world_inv_def)
    then show ?thesis by (rule delivered_keep[where new = "[]"]) (use e in simp_all)
  qed
  then show ?thesis
    using cleaned_inv[OF inv mf c] cleaned_tracks[OF c(1) tr] d mb by (simp add: world_inv_def)
qed

lemma world_inv_put:
  assumes "world_inv w" "\<not> must_clean (seg w) (length msgs)"
  shows "world_inv (w\<lparr>seg := insert_group (seg w) msgs lsn, lg := lg w @ map (\<lambda>m. (m, lsn)) msgs\<rparr>)"
    (is "world_inv ?w")
proof -
  have inv: "si_inv (seg w)" and tr: "tracks (seg w) (lg w) (base w)" using assms(1) by (simp_all add: world_inv_def)
  note ig = insert_group_ok[OF inv tr assms(2)]
  have "delivered ?w i" if i: "i < maxBackends (seg w)" "listening (procState (insert_group (seg w) msgs lsn) ! i)" for i
  proof -
    have "listening (procState (seg w) ! i)" using ig(3)[OF i(1)] i(2) by (auto simp: listening_def split: if_splits)
    then have "delivered w i" using assms(1) i by (simp add: world_inv_def)
    then show ?thesis by (rule delivered_keep) (use ig(3)[OF i(1)] in simp_all)
  qed
  then show ?thesis using ig by (simp add: world_inv_def)
qed

lemma world_inv_get:
  assumes "world_inv w" "i < maxBackends (seg w)" "active (procState (seg w) ! i)"
    "\<not> sendOnly (procState (seg w) ! i)" "SIGetDataEntries (seg w) i read_lsn datasize = (r, data, segP)"
  shows "world_inv (w\<lparr>seg := segP, start := (start w)(i := if r = - 1 then length (lg w) else start w i),
       got := (got w)(i := if r = - 1 then [] else got w i @ data)\<rparr>)" (is "world_inv ?w")
proof -
  have inv: "si_inv (seg w)" and tr: "tracks (seg w) (lg w) (base w)" using assms(1) by (simp_all add: world_inv_def)
  note g = SIGetDataEntries_ok[OF inv tr assms(2,5,3,4)]
  have "delivered ?w i"
  proof (cases "r = - 1")
    case reset: True
    have "nat (maxMsgNum (seg w) + base w) = length (lg w)" using tr by (metis tracks_def nat_int)
    then show ?thesis using g(7)[OF reset] reset by (simp add: delivered_def Let_def)
  next
    case nr: False
    then have li: "listening (procState (seg w) ! i)" using assms(3,4) g(6) by (simp add: listening_def)
    then have dl: "delivered w i" using assms(1,2) by (simp add: world_inv_def)
    let ?pos = "nat (nextMsgNum (procState (seg w) ! i) + base w)"
    have d: "nextMsgNum (procState segP ! i) = nextMsgNum (procState (seg w) ! i) + int (length data)"
      "data = map fst (take (length data) (drop ?pos (lg w)))" using g(8)[OF nr] by auto
    have p: "nat (nextMsgNum (procState segP ! i) + base w) = ?pos + length data"
      using d(1) tracks_pos(1)[OF inv tr li assms(2)] by linarith
    have le: "?pos + length data \<le> length (lg w)"
      using tracks_pos(2)[OF g(1,2) g(5)] assms(2) g(3) p by simp
    have "got w i @ data = map fst (take (?pos + length data - start w i) (drop (start w i) (lg w)))"
      using dl d(2) slice_append[of "start w i" ?pos "lg w" "length data"] unfolding delivered_def Let_def
      by (metis map_append)
    then show ?thesis using dl nr p le by (simp add: delivered_def Let_def)
  qed
  moreover have "delivered ?w j" if j: "j < maxBackends (seg w)" "listening (procState segP ! j)" "j \<noteq> i" for j
  proof -
    have "delivered w j" using g(4)[OF j(1,3)] j assms(1) by (simp add: world_inv_def)
    then show ?thesis by (rule delivered_keep[where new = "[]"]) (use g(4)[OF j(1,3)] j(3) in simp_all)
  qed
  ultimately have "delivered ?w j" if "j < maxBackends (seg w)" "listening (procState segP ! j)" for j
    using that by blast
  then show ?thesis using g(1-3) by (simp add: world_inv_def)
qed

lemma world_inv_join:
  assumes "world_inv w" "joined (seg w) ctx so i segP" "MyProcPid ctx \<noteq> 0"
  shows "world_inv (w\<lparr>seg := segP, start := (start w)(i := length (lg w)), got := (got w)(i := [])\<rparr>)"
    (is "world_inv ?w")
proof -
  have inv: "si_inv (seg w)" and tr: "tracks (seg w) (lg w) (base w)" using assms(1) by (simp_all add: world_inv_def)
  note j = joined_ok[OF inv assms(2,3)]
  have "nat (maxMsgNum (seg w) + base w) = length (lg w)" using tr by (metis tracks_def nat_int)
  then have "delivered ?w i" using j(5) by (simp add: delivered_def Let_def)
  moreover have "delivered ?w k" if k: "k < maxBackends (seg w)" "listening (procState segP ! k)" "k \<noteq> i" for k
  proof -
    have "delivered w k" using j(4)[OF k(1,3)] k assms(1) by (simp add: world_inv_def)
    then show ?thesis by (rule delivered_keep[where new = "[]"]) (use j(4)[OF k(1,3)] k(3) in simp_all)
  qed
  ultimately have "delivered ?w k" if "k < maxBackends (seg w)" "listening (procState segP ! k)" for k
    using that by blast
  then show ?thesis using j(1-3) tr by (simp add: world_inv_def)
qed

lemma world_inv_leave:
  assumes "world_inv w" "si_inv segP" "leave_slot (seg w) segP"
  shows "world_inv (w\<lparr>seg := segP\<rparr>)"
proof -
  have "delivered (w\<lparr>seg := segP\<rparr>) i" if i: "i < maxBackends (seg w)" "listening (procState segP ! i)" for i
  proof -
    have e: "procState segP ! i = procState (seg w) ! i"
      using assms(3) i by (auto simp: leave_slot_def listening_def)
    then have "delivered w i" using assms(1) i by (simp add: world_inv_def)
    then show ?thesis by (rule delivered_keep[where new = "[]"]) (use e in simp_all)
  qed
  moreover have "tracks segP (lg w) (base w)" using assms(1,3) by (simp add: world_inv_def tracks_def leave_slot_def)
  ultimately show ?thesis using assms by (simp add: world_inv_def leave_slot_def)
qed

lemma world_inv_step: "si_step w w' \<Longrightarrow> world_inv w \<Longrightarrow> world_inv w'"
proof (induction rule: si_step.induct)
  case (clean minFree w segP sig d)
  then show ?case by (intro world_inv_clean) auto
next
  case (put msgs w lsn)
  then show ?case by (intro world_inv_put)
next
  case (get i w read_lsn datasize r data segP)
  then show ?case by (intro world_inv_get) auto
next
  case (join_reserve ctx w so segP ctx' i)
  have "\<exists>k. joined (seg w) ctx so k segP \<and> MyBackendId ctx' = int k + 1"
    using ReserveBackendInit_joined[OF _ join_reserve(2)] join_reserve(4) by (auto simp: world_inv_def)
  then have "joined (seg w) ctx so i segP" using join_reserve(3) by auto
  then show ?case using world_inv_join join_reserve by blast
next
  case (join_session ctx w so segP ctx' i)
  then show ?case using WorkSessionInit_joined world_inv_join by (metis world_inv_def)
next
  case (leave w ctx)
  then show ?case using CleanupInvalidationState_ok world_inv_leave by (metis world_inv_def)
next
  case (leave_session w ctx)
  then show ?case using CleanupWorkSession_ok world_inv_leave by (metis world_inv_def)
qed

lemma world_inv_init:
  assumes "length buf = 4096" "maxreserve \<le> maxb"
  shows "world_inv \<lparr>seg = CreateSharedInvalidationState maxb maxreserve buf, lg = [], base = 0,
      start = \<lambda>_. 0, got = \<lambda>_. []\<rparr>"
  using assms by (auto simp: world_inv_def CreateSharedInvalidationState_def si_inv_def si_shape_def
      si_numbers_def si_proc_ok_def listening_def tracks_def inactiveProcState_def si_constants)

lemma si_reach_inv: "si_reach w \<Longrightarrow> world_inv w"
  by (induction rule: si_reach.induct) (blast intro: world_inv_init world_inv_step)+

section \<open>Sending is a sequence of steps\<close>

lemma world_inv_steps: "si_step\<^sup>*\<^sup>* w w' \<Longrightarrow> world_inv w \<Longrightarrow> world_inv w'"
  by (induction rule: rtranclp_induct) (auto intro: world_inv_step)

text \<open>What a call of a sender leaves of the state of a backend, the numbers being reduced by \<open>d\<close>.\<close>

definition kept :: "int \<Rightarrow> ProcState \<Rightarrow> ProcState \<Rightarrow> bool" where
  "kept d p p' \<longleftrightarrow> procPid p' = procPid p \<and> sendOnly p' = sendOnly p \<and> (resetState p \<longrightarrow> resetState p') \<and>
     (hasMessages p \<longrightarrow> hasMessages p') \<and> (active p \<longrightarrow> nextMsgNum p' = nextMsgNum p - d)"

definition all_kept :: "'m SISeg \<Rightarrow> int \<Rightarrow> 'm SISeg \<Rightarrow> bool" where
  "all_kept segP d segP' \<longleftrightarrow> maxBackends segP' = maxBackends segP \<and> minMsgNum segP \<le> minMsgNum segP' + d \<and>
     (\<forall>i < maxBackends segP. kept d (procState segP ! i) (procState segP' ! i))"

lemma all_kept_refl [simp]: "all_kept segP 0 segP"
  by (simp add: all_kept_def kept_def)

lemma all_kept_trans: "all_kept s d s' \<Longrightarrow> all_kept s' d' s'' \<Longrightarrow> all_kept s (d + d') s''"
  by (auto simp: all_kept_def kept_def)

lemma make_room_steps:
  assumes "world_inv w" "n \<le> WRITE_QUANTUM"
  obtains segP d where "make_room (seg w) n = Some segP" "si_step\<^sup>*\<^sup>* w (w\<lparr>seg := segP, base := base w + d\<rparr>)"
    "\<not> must_clean segP n" "world_inv (w\<lparr>seg := segP, base := base w + d\<rparr>)" "all_kept (seg w) d segP"
proof (cases "must_clean (seg w) n")
  case False
  then have "make_room (seg w) n = Some (seg w)" by (simp add: make_room.simps)
  moreover have "w\<lparr>seg := seg w, base := base w + 0\<rparr> = w" by simp
  ultimately show ?thesis using that[of "seg w" 0] False assms(1) by simp
next
  case True
  have inv: "si_inv (seg w)" using assms(1) by (simp add: world_inv_def)
  have n: "int n \<le> MAXNUMMESSAGES" using assms(2) by (simp add: si_constants)
  obtain segP sig where r: "SICleanupQueue (seg w) (int n) = (segP, sig)" by force
  have mr: "make_room (seg w) n = Some segP" using make_room_returns[OF inv n] True r by simp
  obtain d where c: "cleaned (seg w) (int n) d segP" and nc: "\<not> must_clean segP n"
    by (rule SICleanupQueue_cleaned[OF inv _ n r]) simp_all
  have "si_step w (w\<lparr>seg := segP, base := base w + d\<rparr>)"
    by (rule si_step.clean[OF _ _ r]) (use assms(2) c in \<open>simp_all add: cleaned_def Let_def\<close>)
  moreover have "all_kept (seg w) d segP" using c by (simp add: cleaned_def all_kept_def kept_def Let_def)
  ultimately show ?thesis using that[OF mr] nc world_inv_step assms(1) by blast
qed

lemma insert_group_kept:
  assumes "si_inv segP" "tracks segP l b" "\<not> must_clean segP (length msgs)"
  shows "all_kept segP 0 (insert_group segP msgs lsn)"
    "maxMsgNum (insert_group segP msgs lsn) = maxMsgNum segP + int (length msgs)"
    "minMsgNum (insert_group segP msgs lsn) = minMsgNum segP"
proof -
  note g = insert_group_ok[OF assms, where lsn = lsn]
  show min: "minMsgNum (insert_group segP msgs lsn) = minMsgNum segP"
    by (simp add: insert_group_def split: prod.splits)
  show "maxMsgNum (insert_group segP msgs lsn) = maxMsgNum segP + int (length msgs)"
    using g(2) assms(2) by (simp add: tracks_def)
  show "all_kept segP 0 (insert_group segP msgs lsn)" using g(3,4) min by (simp add: all_kept_def kept_def)
qed

text \<open>Sending, as steps and as what it does to the segment.\<close>

definition sent :: "'m world \<Rightarrow> 'm list \<Rightarrow> XLogRecPtr \<Rightarrow> int \<Rightarrow> 'm SISeg \<Rightarrow> bool" where
  "sent w data lsn d segP \<longleftrightarrow>
     si_step\<^sup>*\<^sup>* w (w\<lparr>seg := segP, base := base w + d, lg := lg w @ map (\<lambda>m. (m, lsn)) data\<rparr>) \<and>
     all_kept (seg w) d segP \<and> (data \<noteq> [] \<longrightarrow> minMsgNum segP < maxMsgNum segP \<and>
       (\<forall>i < maxBackends segP. active (procState segP ! i) \<longrightarrow> hasMessages (procState segP ! i)))"

lemma insert_group_sent:
  assumes "world_inv w" "msgs \<noteq> []" "length msgs \<le> WRITE_QUANTUM" "\<not> must_clean (seg w) (length msgs)"
  shows "sent w msgs lsn 0 (insert_group (seg w) msgs lsn)"
proof -
  have inv: "si_inv (seg w)" "tracks (seg w) (lg w) (base w)" using assms(1) by (simp_all add: world_inv_def)
  note k = insert_group_kept[OF inv assms(4), of lsn] and g = insert_group_ok[OF inv assms(4), where lsn = lsn]
  have "minMsgNum (seg w) \<le> maxMsgNum (seg w)" using inv(1) by (simp add: si_inv_def si_numbers_def)
  moreover have "0 < int (length msgs)" using assms(2) by simp
  ultimately have "minMsgNum (insert_group (seg w) msgs lsn) < maxMsgNum (insert_group (seg w) msgs lsn)"
    using k(2,3) by linarith
  then show ?thesis
    using k(1) g(3,4) si_step.put[OF assms(3,4), of lsn] by (auto simp: sent_def)
qed

lemma sent_append:
  assumes "sent w xs lsn d segP" "sent (w\<lparr>seg := segP, base := base w + d, lg := lg w @ map (\<lambda>m. (m, lsn)) xs\<rparr>) ys lsn d' segP'"
    "ys \<noteq> []"
  shows "sent w (xs @ ys) lsn (d + d') segP'"
proof -
  have "all_kept (seg w) (d + d') segP'" using assms all_kept_trans by (fastforce simp: sent_def)
  moreover have "si_step\<^sup>*\<^sup>* w (w\<lparr>seg := segP', base := base w + (d + d'), lg := lg w @ map (\<lambda>m. (m, lsn)) (xs @ ys)\<rparr>)"
    using assms by (auto simp: sent_def add.assoc intro: rtranclp_trans)
  ultimately show ?thesis using assms(2,3) by (simp add: sent_def)
qed

text \<open>Where the messages are, new and old, when the counters have moved by \<open>d\<close>.\<close>

lemma queued_messages:
  assumes "tracks seg0 l b" "tracks segP (l @ map (\<lambda>m. (m, lsn)) data) (b + d)" "all_kept seg0 d segP"
    "MAXNUMMESSAGES dvd d" "maxMsgNum segP = maxMsgNum seg0 + int (length data) - d"
    "0 \<le> minMsgNum seg0" "minMsgNum segP \<le> k" "k < maxMsgNum segP"
  shows "buffer segP ! nat (k mod MAXNUMMESSAGES) =
    (if k < maxMsgNum segP - int (length data) then buffer seg0 ! nat (k mod MAXNUMMESSAGES)
     else (data ! nat (k - (maxMsgNum segP - int (length data))), lsn))"
proof -
  have len: "int (length l) = maxMsgNum seg0 + b" and b0: "0 \<le> b" using assms(1) by (simp_all add: tracks_def)
  have buf: "buffer segP ! nat (k mod MAXNUMMESSAGES) = (l @ map (\<lambda>m. (m, lsn)) data) ! nat (k + (b + d))"
    using assms(2,7,8) by (simp add: tracks_def)
  show ?thesis
  proof (cases "k < maxMsgNum segP - int (length data)")
    case True
    have "(k + d) mod MAXNUMMESSAGES = k mod MAXNUMMESSAGES" using assms(4) by (auto elim!: dvdE)
    moreover have "buffer seg0 ! nat ((k + d) mod MAXNUMMESSAGES) = l ! nat (k + d + b)"
      using assms(1,3,5,7) True by (auto simp: tracks_def all_kept_def)
    moreover have "0 \<le> k + d" using assms(3,6,7) by (simp add: all_kept_def)
    then have "nat (k + (b + d)) < length l" using True assms(5) len b0 by linarith
    ultimately show ?thesis using buf True by (simp add: nth_append ac_simps)
  next
    case False
    then have "nat (k + (b + d)) = length l + nat (k - (maxMsgNum segP - int (length data)))"
      "nat (k - (maxMsgNum segP - int (length data))) < length data"
      using assms(5,8) len by linarith+
    then show ?thesis using buf False by (simp add: nth_append)
  qed
qed

lemma SIInsertDataEntries_sent:
  "world_inv w \<Longrightarrow> \<exists>segP d. SIInsertDataEntries (seg w) data lsn = Some segP \<and> sent w data lsn d segP"
proof (induction "length data" arbitrary: data w rule: less_induct)
  case less
  show ?case
  proof (cases "data = []")
    case True
    then show ?thesis
      by (intro exI[of _ "seg w"] exI[of _ 0]) (simp add: SIInsertDataEntries.simps sent_def)
  next
    case False
    let ?n = "min (length data) WRITE_QUANTUM"
    obtain segP d where m: "make_room (seg w) ?n = Some segP"
      "si_step\<^sup>*\<^sup>* w (w\<lparr>seg := segP, base := base w + d\<rparr>)" "\<not> must_clean segP ?n"
      "world_inv (w\<lparr>seg := segP, base := base w + d\<rparr>)" "all_kept (seg w) d segP"
      using make_room_steps[OF less.prems, of ?n] by auto
    let ?w1 = "w\<lparr>seg := segP, base := base w + d\<rparr>" and ?g = "take ?n data"
    let ?seg2 = "insert_group segP ?g lsn"
    have g: "?g \<noteq> []" "length ?g \<le> WRITE_QUANTUM" "\<not> must_clean (seg ?w1) (length ?g)"
      using False m(3) by (simp_all add: WRITE_QUANTUM_def min_def split: if_splits)
    have s1: "sent ?w1 ?g lsn 0 ?seg2" using insert_group_sent[OF m(4) g] by simp
    have s2: "sent w ?g lsn d ?seg2"
      using s1 m(2,5) all_kept_trans[OF m(5), of 0 ?seg2] by (auto simp: sent_def intro: rtranclp_trans)
    let ?w2 = "w\<lparr>seg := ?seg2, base := base w + d, lg := lg w @ map (\<lambda>m. (m, lsn)) ?g\<rparr>"
    have inv2: "world_inv ?w2"
      using world_inv_put[OF m(4) g(3), of lsn] by (cases w) simp
    have r0: "SIInsertDataEntries (seg w) data lsn = SIInsertDataEntries ?seg2 (drop ?n data) lsn"
      using m(1) False by (subst SIInsertDataEntries.simps) (simp add: Let_def)
    show ?thesis
    proof (cases "drop ?n data = []")
      case True
      then have "?g = data" by simp
      then have "sent w data lsn d ?seg2" using s2 by simp
      moreover have "SIInsertDataEntries (seg w) data lsn = Some ?seg2"
        unfolding r0 True by (simp add: SIInsertDataEntries.simps)
      ultimately show ?thesis by blast
    next
      case more: False
      have "length (drop ?n data) < length data" using False by (simp add: WRITE_QUANTUM_def)
      from less.hyps[OF this inv2] obtain segP' d' where r: "SIInsertDataEntries ?seg2 (drop ?n data) lsn = Some segP'"
        "sent ?w2 (drop ?n data) lsn d' segP'" by auto
      then have "sent w (?g @ drop ?n data) lsn (d + d') segP'" by (intro sent_append[OF s2 r(2) more])
      then show ?thesis using r0 r(1) unfolding append_take_drop_id by auto
    qed
  qed
qed

section \<open>Properties of the invalidation queue\<close>

abbreviation si_world0 :: "nat world" where
  "si_world0 \<equiv> \<lparr>seg = CreateSharedInvalidationState 2 2 (replicate 4096 (0, 0)), lg = [], base = 0,
     start = \<lambda>_. 0, got = \<lambda>_. []\<rparr>"

lemma si_world0_reach: "si_reach si_world0"
  by (rule si_reach.init) simp_all

lemma si_world1:
  "\<exists>w :: nat world. si_reach w \<and> 0 < maxBackends (seg w) \<and> listening (procState (seg w) ! 0)"
proof -
  let ?ctx = "\<lparr>MyBackendId = - 1, MyProcPid = 7, MyProc = 1, nextLocalTransactionId = 0, session_ctr_index = 0,
    is_thread_pool_worker = False, enable_local_syscache = False\<rparr>"
  obtain segP ctx' where r: "SharedInvalReserveBackendInit (seg si_world0) ?ctx False = Inr (segP, ctx')"
    "MyBackendId ctx' = 1" "maxBackends segP = 2" "listening (procState segP ! 0)"
    by (simp add: SharedInvalReserveBackendInit_def CreateSharedInvalidationState_def mark_active_def
        inactiveProcState_def listening_def numeral_2_eq_2)
  let ?w = "si_world0\<lparr>seg := segP, start := (start si_world0)(0 := length (lg si_world0)), got := (got si_world0)(0 := [])\<rparr>"
  have "si_step si_world0 ?w"
    by (rule si_step.join_reserve[OF _ r(1)]) (simp_all add: r(2))
  then have "si_reach ?w" using si_world0_reach si_reach.step by blast
  then show ?thesis using r by (intro exI[of _ ?w]) simp
qed

text \<open>C15: in every state that any interleaving of sends, receives, cleanups, arrivals and departures
  reaches, the queue holds at most 4096 messages, every listening backend's cursor is between
  the two ends of the queue, a backend without the has-messages flag is caught up, and no
  message number exceeds the range of a 32-bit integer.\<close>

theorem si_queue_invariant:
  assumes "si_reach w"
  shows "0 \<le> minMsgNum (seg w) \<and> minMsgNum (seg w) \<le> maxMsgNum (seg w) \<and>
    maxMsgNum (seg w) - minMsgNum (seg w) \<le> MAXNUMMESSAGES \<and> maxMsgNum (seg w) < 2 ^ 31 \<and>
    (\<forall>i < maxBackends (seg w). let p = procState (seg w) ! i in
       (listening p \<longrightarrow> minMsgNum (seg w) \<le> nextMsgNum p \<and> nextMsgNum p \<le> maxMsgNum (seg w)) \<and>
       (procPid p \<noteq> 0 \<longrightarrow> i < lastBackend (seg w)) \<and>
       (procPid p \<noteq> 0 \<and> \<not> hasMessages p \<longrightarrow> \<not> resetState p \<and> nextMsgNum p = maxMsgNum (seg w)))"
  using si_reach_inv[OF assms]
  by (auto simp: world_inv_def si_inv_def si_shape_def si_numbers_def si_proc_ok_def Let_def si_constants)

theorem si_queue_invariant_witness:
  "maxMsgNum (seg si_world0) - minMsgNum (seg si_world0) \<le> MAXNUMMESSAGES"
  using si_queue_invariant[OF si_world0_reach] by blast

text \<open>C8: delivery. Whatever the interleaving, a backend that is listening has received, since it
  joined or was last reset, exactly the messages of the log from that point up to its cursor:
  none lost, none repeated, in the order they were sent.\<close>

theorem si_delivery:
  assumes "si_reach w" "i < maxBackends (seg w)" "listening (procState (seg w) ! i)"
  shows "\<exists>pos \<le> length (lg w). start w i \<le> pos \<and> int pos = nextMsgNum (procState (seg w) ! i) + base w \<and>
    got w i = map fst (take (pos - start w i) (drop (start w i) (lg w)))"
proof -
  have inv: "world_inv w" by (rule si_reach_inv[OF assms(1)])
  then have "delivered w i" using assms(2,3) by (simp add: world_inv_def)
  moreover have "0 \<le> nextMsgNum (procState (seg w) ! i) + base w"
    using inv tracks_pos(1)[OF _ _ assms(3,2)] by (auto simp: world_inv_def)
  ultimately show ?thesis unfolding delivered_def Let_def by (metis nat_0_le)
qed

theorem si_delivery_witness:
  "\<exists>w :: nat world. \<exists>i pos. listening (procState (seg w) ! i) \<and> start w i \<le> pos \<and> pos \<le> length (lg w) \<and>
     got w i = map fst (take (pos - start w i) (drop (start w i) (lg w)))"
proof -
  obtain w :: "nat world" where w: "si_reach w" "0 < maxBackends (seg w)" "listening (procState (seg w) ! 0)"
    using si_world1 by blast
  from si_delivery[OF w] w(3) show ?thesis by blast
qed

text \<open>C28: sending any number of messages returns. The messages are then in the ring buffer, in
  order and with their LSN, at the last message numbers, as far as they are still in the queue
  (the last one always is), and the older ones still in the queue are where they were. Every
  active backend is told that there are messages, keeps its position (all numbers are reduced by
  the same multiple of the buffer size when they wrap around), and what it has not read is still
  in the queue unless it is put into reset state. The call amounts to steps that append the
  messages to the log.\<close>

theorem SIInsertDataEntries_appends:
  assumes "si_reach w"
  shows "\<exists>segP d. SIInsertDataEntries (seg w) data lsn = Some segP \<and>
    MAXNUMMESSAGES dvd d \<and> maxMsgNum segP = maxMsgNum (seg w) + int (length data) - d \<and>
    (data \<noteq> [] \<longrightarrow> minMsgNum segP < maxMsgNum segP) \<and>
    (\<forall>k. minMsgNum segP \<le> k \<and> k < maxMsgNum segP \<longrightarrow> buffer segP ! nat (k mod MAXNUMMESSAGES) =
       (if k < maxMsgNum segP - int (length data) then buffer (seg w) ! nat (k mod MAXNUMMESSAGES)
        else (data ! nat (k - (maxMsgNum segP - int (length data))), lsn))) \<and>
    (\<forall>i < maxBackends (seg w). active (procState (seg w) ! i) \<longrightarrow>
       procPid (procState segP ! i) = procPid (procState (seg w) ! i) \<and>
       nextMsgNum (procState segP ! i) = nextMsgNum (procState (seg w) ! i) - d \<and>
       (data \<noteq> [] \<longrightarrow> hasMessages (procState segP ! i)) \<and>
       (listening (procState segP ! i) \<longrightarrow> minMsgNum segP \<le> nextMsgNum (procState segP ! i))) \<and>
    si_step\<^sup>*\<^sup>* w (w\<lparr>seg := segP, base := base w + d, lg := lg w @ map (\<lambda>m. (m, lsn)) data\<rparr>)"
proof -
  note inv = si_reach_inv[OF assms]
  obtain segP d where r: "SIInsertDataEntries (seg w) data lsn = Some segP" "sent w data lsn d segP"
    using SIInsertDataEntries_sent[OF inv] by blast
  let ?w = "w\<lparr>seg := segP, base := base w + d, lg := lg w @ map (\<lambda>m. (m, lsn)) data\<rparr>"
  have inv': "world_inv ?w"
    using r(2) inv world_inv_steps by (auto simp: sent_def)
  have tr: "tracks (seg w) (lg w) (base w)" "tracks segP (lg w @ map (\<lambda>m. (m, lsn)) data) (base w + d)"
    and si: "si_inv segP" using inv inv' by (simp_all add: world_inv_def)
  have kept: "all_kept (seg w) d segP" using r(2) by (simp add: sent_def)
  have dvd: "MAXNUMMESSAGES dvd d" using tr by (auto simp: tracks_def dvd_add_right_iff)
  have mx: "maxMsgNum segP = maxMsgNum (seg w) + int (length data) - d" using tr by (simp add: tracks_def)
  have "buffer segP ! nat (k mod MAXNUMMESSAGES) =
      (if k < maxMsgNum segP - int (length data) then buffer (seg w) ! nat (k mod MAXNUMMESSAGES)
       else (data ! nat (k - (maxMsgNum segP - int (length data))), lsn))"
    if "minMsgNum segP \<le> k" "k < maxMsgNum segP" for k
    using queued_messages[OF tr kept dvd mx _ that] inv by (simp add: world_inv_def si_inv_def si_numbers_def)
  moreover have "procPid (procState segP ! i) = procPid (procState (seg w) ! i) \<and>
      nextMsgNum (procState segP ! i) = nextMsgNum (procState (seg w) ! i) - d \<and>
      (data \<noteq> [] \<longrightarrow> hasMessages (procState segP ! i)) \<and>
      (listening (procState segP ! i) \<longrightarrow> minMsgNum segP \<le> nextMsgNum (procState segP ! i))"
    if i: "i < maxBackends (seg w)" "active (procState (seg w) ! i)" for i
  proof -
    have k: "kept d (procState (seg w) ! i) (procState segP ! i)" and m: "i < maxBackends segP"
      using kept i(1) by (simp_all add: all_kept_def)
    have "si_proc_ok (minMsgNum segP) (maxMsgNum segP) (procState segP ! i)" using si m by (simp add: si_inv_def)
    then have "listening (procState segP ! i) \<longrightarrow> minMsgNum segP \<le> nextMsgNum (procState segP ! i)"
      by (simp add: si_proc_ok_def)
    then show ?thesis using k i(2) m r(2) by (simp add: kept_def sent_def)
  qed
  moreover have "data \<noteq> [] \<longrightarrow> minMsgNum segP < maxMsgNum segP"
    "si_step\<^sup>*\<^sup>* w (w\<lparr>seg := segP, base := base w + d, lg := lg w @ map (\<lambda>m. (m, lsn)) data\<rparr>)"
    using r(2) by (simp_all add: sent_def)
  ultimately show ?thesis using r(1) dvd mx by blast
qed

theorem SIInsertDataEntries_appends_witness:
  "\<exists>segP d. SIInsertDataEntries (seg si_world0) [1, 2, 3] 0 = Some segP \<and> maxMsgNum segP = 3 - d \<and>
     buffer segP ! nat ((2 - d) mod MAXNUMMESSAGES) = (3, 0)"
proof -
  obtain segP d where s: "SIInsertDataEntries (seg si_world0) [1, 2, 3] 0 = Some segP"
    "maxMsgNum segP = maxMsgNum (seg si_world0) + 3 - d" "minMsgNum segP < maxMsgNum segP"
    "\<forall>k. minMsgNum segP \<le> k \<and> k < maxMsgNum segP \<longrightarrow> buffer segP ! nat (k mod MAXNUMMESSAGES) =
       (if k < maxMsgNum segP - 3 then buffer (seg si_world0) ! nat (k mod MAXNUMMESSAGES)
        else ([1, 2, 3] ! nat (k - (maxMsgNum segP - 3)), 0))"
    using SIInsertDataEntries_appends[OF si_world0_reach, of "[1, 2, 3]" 0] by auto
  moreover have "maxMsgNum (seg si_world0) = 0" by (simp add: CreateSharedInvalidationState_def)
  moreover from calculation have "buffer segP ! nat ((2 - d) mod MAXNUMMESSAGES) = ([1, 2, 3] ! nat 2, 0)"
    using spec[OF s(4), of "2 - d"] by auto
  ultimately show ?thesis by (intro exI[of _ segP] exI[of _ d]) (simp add: eval_nat_numeral)
qed

text \<open>C29: receiving. A backend in reset state is told so and skips to the end of the log; any other
  call extracts the next messages of the log in order, at most \<open>datasize\<close> of them, and a
  call that does not fill the array (and does not read at a fixed LSN) leaves the backend
  caught up, the shortcut without messages included.\<close>

theorem SIGetDataEntries_correct:
  assumes "si_reach w" "i < maxBackends (seg w)" "procPid (procState (seg w) ! i) \<noteq> 0"
    "\<not> sendOnly (procState (seg w) ! i)" "SIGetDataEntries (seg w) i read_lsn datasize = (r, data, segP)"
  shows "listening (procState segP ! i) \<and>
    (if resetState (procState (seg w) ! i)
     then r = - 1 \<and> nextMsgNum (procState segP ! i) = maxMsgNum (seg w)
     else r = int (length data) \<and> length data \<le> datasize \<and>
       nextMsgNum (procState segP ! i) = nextMsgNum (procState (seg w) ! i) + r \<and>
       data = map fst (take (length data) (drop (nat (nextMsgNum (procState (seg w) ! i) + base w)) (lg w))) \<and>
       (read_lsn = 0 \<and> length data < datasize \<longrightarrow> nextMsgNum (procState segP ! i) = maxMsgNum (seg w)))"
proof -
  have inv: "si_inv (seg w)" "tracks (seg w) (lg w) (base w)"
    using si_reach_inv[OF assms(1)] by (auto simp: world_inv_def)
  note g = SIGetDataEntries_ok[OF inv assms(2,5,3,4)]
  show ?thesis
  proof (cases "r = - 1")
    case True
    then show ?thesis using g(5,6) g(7)[OF True] by simp
  next
    case False
    have "r = int (length data)" using g(8)[OF False] by blast
    then show ?thesis using g(5,6) g(8)[OF False] False by (metis (no_types, lifting))
  qed
qed

theorem SIGetDataEntries_correct_witness:
  "\<exists>w :: nat world. \<exists>r data segP. SIGetDataEntries (seg w) 0 0 5 = (r, data, segP) \<and>
     listening (procState segP ! 0)"
proof -
  obtain w :: "nat world" where w: "si_reach w" "0 < maxBackends (seg w)" "listening (procState (seg w) ! 0)"
    using si_world1 by blast
  obtain r data segP where g: "SIGetDataEntries (seg w) 0 0 5 = (r, data, segP)" by (metis prod_cases3)
  have "procPid (procState (seg w) ! 0) \<noteq> 0" "\<not> sendOnly (procState (seg w) ! 0)"
    using w(3) by (simp_all add: listening_def)
  from SIGetDataEntries_correct[OF w(1,2) this g] g show ?thesis by blast
qed

text \<open>a cleanup frees the requested room and only affects laggards: afterwards there is room for
  the messages to be written and the threshold is not reached; a listener is put into reset
  state exactly when it is further behind than the buffer allows.\<close>

theorem SICleanupQueue_correct:
  assumes "si_reach w" "0 \<le> minFree" "minFree \<le> int WRITE_QUANTUM"
    "SICleanupQueue (seg w) minFree = (segP, sig)"
  shows "\<not> must_clean segP (nat minFree) \<and>
    maxMsgNum segP - minMsgNum segP = maxMsgNum (seg w) - (minMsgNum segP + (maxMsgNum (seg w) - maxMsgNum segP)) \<and>
    (\<forall>i < maxBackends (seg w). let p = procState (seg w) ! i; p' = procState segP ! i in
       (listening p' \<longleftrightarrow> listening p \<and> maxMsgNum (seg w) - MAXNUMMESSAGES + minFree \<le> nextMsgNum p) \<and>
       (listening p' \<longrightarrow> maxMsgNum segP - nextMsgNum p' = maxMsgNum (seg w) - nextMsgNum p \<and>
          minMsgNum segP \<le> nextMsgNum p'))"
proof -
  have inv: "si_inv (seg w)" using si_reach_inv[OF assms(1)] by (simp add: world_inv_def)
  have mf: "minFree \<le> MAXNUMMESSAGES" using assms(3) by (simp add: si_constants)
  obtain d where c: "cleaned (seg w) minFree d segP" "\<not> must_clean segP (nat minFree)"
    "\<And>i. i < maxBackends (seg w) \<Longrightarrow> listening (procState segP ! i) \<Longrightarrow>
       minMsgNum segP \<le> nextMsgNum (procState segP ! i)"
    using SICleanupQueue_cleaned[OF inv assms(2) mf assms(4)] by blast
  have "(listening (procState segP ! i) \<longleftrightarrow> listening (procState (seg w) ! i) \<and>
        maxMsgNum (seg w) - MAXNUMMESSAGES + minFree \<le> nextMsgNum (procState (seg w) ! i)) \<and>
      (listening (procState segP ! i) \<longrightarrow> maxMsgNum segP - nextMsgNum (procState segP ! i) =
        maxMsgNum (seg w) - nextMsgNum (procState (seg w) ! i))" if "i < maxBackends (seg w)" for i
    using c(1) that by (auto simp: cleaned_def Let_def listening_def)
  then show ?thesis using c(2,3) by (auto simp: Let_def)
qed

theorem SICleanupQueue_correct_witness:
  "\<exists>segP sig. SICleanupQueue (seg si_world0) 10 = (segP, sig) \<and> \<not> must_clean segP 10"
proof -
  obtain segP sig where r: "SICleanupQueue (seg si_world0) 10 = (segP, sig)" by force
  then show ?thesis using SICleanupQueue_correct[OF si_world0_reach _ _ r] by (simp add: WRITE_QUANTUM_def)
qed

text \<open>a local transaction identifier is never the invalid one, the counter moves past it, and the
  allocation ends after at most one wrap-around.\<close>

theorem GetNextLocalTransactionId_valid:
  "\<exists>lxid ctx'. GetNextLocalTransactionId ctx = Some (lxid, ctx') \<and> lxid \<noteq> 0 \<and>
     nextLocalTransactionId ctx' = lxid + 1 \<and>
     lxid = (if nextLocalTransactionId ctx = 0 then 1 else nextLocalTransactionId ctx)"
proof (cases "nextLocalTransactionId ctx = 0")
  case True
  then have "GetNextLocalTransactionId ctx = Some (1, ctx\<lparr>nextLocalTransactionId := 2\<rparr>)"
    by (subst GetNextLocalTransactionId.simps) (simp add: GetNextLocalTransactionId.simps)
  then show ?thesis using True by simp
next
  case False
  then show ?thesis by (subst GetNextLocalTransactionId.simps) (simp add: Let_def)
qed

end
