(* ===== verification/Binary_Heap.thy ===== *)
theory Binary_Heap
  imports Gauss_Prelude "HOL-Library.Multiset"
begin

text \<open>
  The binary heap library, \<open>src/common/backend/lib/binaryheap.cpp\<close>: a max-heap in an array
  of fixed capacity, ordered by a comparator that the caller supplies (with its argument
  already applied). The contract of a comparator is the locale \<open>heap_comparator\<close>, in which the
  library is proved correct once; it is interpreted on two comparators of the server, the one
  by which logical decoding merges transactions in LSN order and the one by which a consistent
  read page is rolled back in CSN order.
\<close>

section \<open>The heap\<close>

record 'a binaryheap =
  bh_size :: nat
  bh_space :: nat
  bh_has_heap_property :: bool
  bh_compare :: "'a \<Rightarrow> 'a \<Rightarrow> int"
  bh_nodes :: "'a list"

text \<open>\<open>nodes\<close> is the uninitialised array.\<close>

definition binaryheap_allocate :: "nat \<Rightarrow> ('a \<Rightarrow> 'a \<Rightarrow> int) \<Rightarrow> 'a list \<Rightarrow> 'a binaryheap" where
  "binaryheap_allocate capacity compare nodes =
     \<lparr>bh_size = 0, bh_space = capacity, bh_has_heap_property = True, bh_compare = compare, bh_nodes = nodes\<rparr>"

definition binaryheap_reset :: "'a binaryheap \<Rightarrow> 'a binaryheap" where
  "binaryheap_reset heap = heap\<lparr>bh_size := 0, bh_has_heap_property := True\<rparr>"

definition left_offset :: "nat \<Rightarrow> nat" where
  "left_offset i = 2 * i + 1"

definition right_offset :: "nat \<Rightarrow> nat" where
  "right_offset i = 2 * i + 2"

definition parent_offset :: "nat \<Rightarrow> nat" where
  "parent_offset i = (i - 1) div 2"

definition swap_nodes :: "'a binaryheap \<Rightarrow> nat \<Rightarrow> nat \<Rightarrow> 'a binaryheap" where
  "swap_nodes heap a b =
     (let swap = bh_nodes heap ! a; nodes = (bh_nodes heap)[a := bh_nodes heap ! b]
      in heap\<lparr>bh_nodes := nodes[b := swap]\<rparr>)"

function sift_up :: "'a binaryheap \<Rightarrow> nat \<Rightarrow> 'a binaryheap" where
  "sift_up heap node_off =
     (if node_off \<noteq> 0 then
        (let parent_off = parent_offset node_off;
             cmp = bh_compare heap (bh_nodes heap ! node_off) (bh_nodes heap ! parent_off)
         in if cmp \<le> 0 then heap
            else sift_up (swap_nodes heap node_off parent_off) parent_off)
      else heap)"
  by pat_completeness auto
termination
  by (relation "measure snd") (auto simp: parent_offset_def)

text \<open>The choice of \<open>swap_off\<close> in one round of \<open>sift_down\<close>; 0 is no swap.\<close>

definition swap_offset :: "'a binaryheap \<Rightarrow> nat \<Rightarrow> nat" where
  "swap_offset heap node_off =
     (let left_off = left_offset node_off; right_off = right_offset node_off;
          cmp = (\<lambda>a b. bh_compare heap (bh_nodes heap ! a) (bh_nodes heap ! b));
          swap_off = (if left_off < bh_size heap \<and> cmp node_off left_off < 0 then left_off else 0)
      in if right_off < bh_size heap \<and> cmp node_off right_off < 0
         then if swap_off = 0 \<or> cmp left_off right_off < 0 then right_off else swap_off
         else swap_off)"

lemma swap_offset_bounds:
  "swap_offset heap node_off \<noteq> 0 \<Longrightarrow> node_off < swap_offset heap node_off \<and> swap_offset heap node_off < bh_size heap"
  by (auto simp: swap_offset_def Let_def left_offset_def right_offset_def split: if_splits)

function sift_down :: "'a binaryheap \<Rightarrow> nat \<Rightarrow> 'a binaryheap" where
  "sift_down heap node_off =
     (let swap_off = swap_offset heap node_off
      in if swap_off = 0 then heap else sift_down (swap_nodes heap swap_off node_off) swap_off)"
  by pat_completeness auto
termination
proof (relation "measure (\<lambda>(heap, node_off). bh_size heap - node_off)", goal_cases)
  case (2 heap node_off x)
  then have "node_off < swap_offset heap node_off" "swap_offset heap node_off < bh_size heap"
    using swap_offset_bounds[of heap node_off] by simp_all
  then show ?case using 2 by (simp add: swap_nodes_def Let_def diff_less_mono2)
qed simp

declare sift_up.simps [simp del] sift_down.simps [simp del]

definition binaryheap_add_unordered :: "'a binaryheap \<Rightarrow> 'a \<Rightarrow> 'a binaryheap result" where
  "binaryheap_add_unordered heap d =
     (if bh_size heap \<ge> bh_space heap then Inl ERRCODE_INTERNAL_ERROR
      else Inr (heap\<lparr>bh_has_heap_property := False, bh_nodes := (bh_nodes heap)[bh_size heap := d],
                     bh_size := bh_size heap + 1\<rparr>))"

text \<open>
  The loop starts at \<open>parent_offset(bh_size - 1)\<close>, which C's truncating division makes 0 for a
  heap of one node and -1, no iteration, for an empty one.
\<close>

definition binaryheap_build :: "'a binaryheap \<Rightarrow> 'a binaryheap" where
  "binaryheap_build heap =
     (let n = (if bh_size heap = 0 then 0 else parent_offset (bh_size heap - 1) + 1)
      in (fold (\<lambda>i heap. sift_down heap i) (rev [0..<n]) heap)\<lparr>bh_has_heap_property := True\<rparr>)"

definition binaryheap_add :: "'a binaryheap \<Rightarrow> 'a \<Rightarrow> 'a binaryheap result" where
  "binaryheap_add heap d =
     (if bh_size heap \<ge> bh_space heap then Inl ERRCODE_INTERNAL_ERROR
      else let heap = heap\<lparr>bh_nodes := (bh_nodes heap)[bh_size heap := d], bh_size := bh_size heap + 1\<rparr>
           in Inr (sift_up heap (bh_size heap - 1)))"

definition binaryheap_first :: "'a binaryheap \<Rightarrow> 'a" where
  "binaryheap_first heap = bh_nodes heap ! 0"

definition binaryheap_remove_first :: "'a binaryheap \<Rightarrow> 'a \<times> 'a binaryheap" where
  "binaryheap_remove_first heap =
     (if bh_size heap = 1 then (bh_nodes heap ! 0, heap\<lparr>bh_size := bh_size heap - 1\<rparr>)
      else let heap = swap_nodes heap 0 (bh_size heap - 1);
               heap = heap\<lparr>bh_size := bh_size heap - 1\<rparr>;
               heap = sift_down heap 0
           in (bh_nodes heap ! bh_size heap, heap))"

definition binaryheap_replace_first :: "'a binaryheap \<Rightarrow> 'a \<Rightarrow> 'a binaryheap" where
  "binaryheap_replace_first heap d =
     (let heap = heap\<lparr>bh_nodes := (bh_nodes heap)[0 := d]\<rparr>
      in if bh_size heap > 1 then sift_down heap 0 else heap)"

section \<open>Invariant\<close>

definition bh_wf :: "'a binaryheap \<Rightarrow> bool" where
  "bh_wf heap \<longleftrightarrow> length (bh_nodes heap) = bh_space heap \<and> bh_size heap \<le> bh_space heap"

definition bh_mset :: "'a binaryheap \<Rightarrow> 'a multiset" where
  "bh_mset heap = mset (take (bh_size heap) (bh_nodes heap))"

text \<open>The node at \<open>j\<close> does not exceed its parent.\<close>

definition edge_ok :: "'a binaryheap \<Rightarrow> nat \<Rightarrow> bool" where
  "edge_ok heap j \<longleftrightarrow> bh_compare heap (bh_nodes heap ! j) (bh_nodes heap ! parent_offset j) \<le> 0"

definition bh_heap :: "'a binaryheap \<Rightarrow> bool" where
  "bh_heap heap \<longleftrightarrow> bh_wf heap \<and> (\<forall>j. 0 < j \<and> j < bh_size heap \<longrightarrow> edge_ok heap j)"

lemma swap_nodes_simps [simp]:
  "bh_size (swap_nodes heap a b) = bh_size heap" "bh_space (swap_nodes heap a b) = bh_space heap"
  "bh_compare (swap_nodes heap a b) = bh_compare heap"
  "bh_has_heap_property (swap_nodes heap a b) = bh_has_heap_property heap"
  "length (bh_nodes (swap_nodes heap a b)) = length (bh_nodes heap)"
  by (simp_all add: swap_nodes_def Let_def)

lemma swap_nodes_nth:
  "i < length (bh_nodes heap) \<Longrightarrow> a < length (bh_nodes heap) \<Longrightarrow> b < length (bh_nodes heap) \<Longrightarrow>
   bh_nodes (swap_nodes heap a b) ! i =
     (if i = b then bh_nodes heap ! a else if i = a then bh_nodes heap ! b else bh_nodes heap ! i)"
  by (auto simp: swap_nodes_def Let_def nth_list_update)

lemma swap_nodes_wf [simp]: "bh_wf (swap_nodes heap a b) \<longleftrightarrow> bh_wf heap"
  by (simp add: bh_wf_def)

lemma swap_nodes_mset:
  assumes "bh_wf heap" "a < bh_size heap" "b < bh_size heap"
  shows "bh_mset (swap_nodes heap a b) = bh_mset heap"
proof -
  let ?t = "take (bh_size heap) (bh_nodes heap)"
  have len: "a < length ?t" "b < length ?t" using assms by (auto simp: bh_wf_def)
  have "take (bh_size heap) (bh_nodes (swap_nodes heap a b)) = ?t[a := ?t ! b, b := ?t ! a]"
    using assms by (simp add: swap_nodes_def Let_def take_update_swap bh_wf_def)
  then show ?thesis using mset_swap[OF len(2) len(1)] by (simp add: bh_mset_def)
qed

lemma parent_offset_less: "0 < j \<Longrightarrow> parent_offset j < j"
  by (auto simp: parent_offset_def)

lemma parent_offset_iff: "0 < j \<Longrightarrow> parent_offset j = i \<longleftrightarrow> j = left_offset i \<or> j = right_offset i"
  by (auto simp: parent_offset_def left_offset_def right_offset_def)

text \<open>What the two sifting loops leave as it was.\<close>

definition sift_frame :: "'a binaryheap \<Rightarrow> 'a binaryheap \<Rightarrow> bool" where
  "sift_frame heap heap' \<longleftrightarrow>
     bh_size heap' = bh_size heap \<and> bh_space heap' = bh_space heap \<and> bh_compare heap' = bh_compare heap \<and>
     bh_has_heap_property heap' = bh_has_heap_property heap \<and> bh_wf heap' \<and> bh_mset heap' = bh_mset heap \<and>
     drop (bh_size heap) (bh_nodes heap') = drop (bh_size heap) (bh_nodes heap)"

lemma sift_frame_refl: "bh_wf heap \<Longrightarrow> sift_frame heap heap"
  by (simp add: sift_frame_def)

lemma sift_frame_trans: "sift_frame a b \<Longrightarrow> sift_frame b c \<Longrightarrow> sift_frame a c"
  by (simp add: sift_frame_def)

lemma swap_nodes_frame:
  "bh_wf heap \<Longrightarrow> a < bh_size heap \<Longrightarrow> b < bh_size heap \<Longrightarrow> sift_frame heap (swap_nodes heap a b)"
  by (simp add: sift_frame_def swap_nodes_mset) (simp add: swap_nodes_def Let_def)

lemma sift_up_frame: "bh_wf heap \<Longrightarrow> node_off < bh_size heap \<Longrightarrow> sift_frame heap (sift_up heap node_off)"
proof (induction heap node_off rule: sift_up.induct)
  case (1 heap i)
  show ?case
  proof (cases "i \<noteq> 0 \<and> \<not> bh_compare heap (bh_nodes heap ! i) (bh_nodes heap ! parent_offset i) \<le> 0")
    case True
    have p: "parent_offset i < bh_size heap" using 1(3) by (auto simp: parent_offset_def)
    have "sift_frame (swap_nodes heap i (parent_offset i)) (sift_up (swap_nodes heap i (parent_offset i)) (parent_offset i))"
      by (rule 1(1)) (use True p 1(2) in auto)
    with swap_nodes_frame[OF 1(2,3) p] show ?thesis
      using True by (subst sift_up.simps) (auto simp: Let_def intro: sift_frame_trans)
  qed (subst sift_up.simps, auto simp: Let_def sift_frame_refl 1(2))
qed

lemma sift_down_frame: "bh_wf heap \<Longrightarrow> node_off < bh_size heap \<Longrightarrow> sift_frame heap (sift_down heap node_off)"
proof (induction heap node_off rule: sift_down.induct)
  case (1 heap i)
  show ?case
  proof (cases "swap_offset heap i = 0")
    case False
    note s = swap_offset_bounds[OF False, THEN conjunct2]
    have "sift_frame (swap_nodes heap (swap_offset heap i) i)
        (sift_down (swap_nodes heap (swap_offset heap i) i) (swap_offset heap i))"
      by (rule 1(1)) (use False s 1(2) in auto)
    with swap_nodes_frame[OF 1(2) s 1(3)] show ?thesis
      using False by (subst sift_down.simps) (auto simp: Let_def intro: sift_frame_trans)
  qed (subst sift_down.simps, simp add: Let_def sift_frame_refl 1(2))
qed

section \<open>Correctness for every lawful comparator\<close>

locale heap_comparator =
  fixes cmp :: "'a \<Rightarrow> 'a \<Rightarrow> int"
  assumes cmp_swap: "cmp a b < 0 \<longleftrightarrow> 0 < cmp b a"
    and cmp_trans: "cmp a b \<le> 0 \<Longrightarrow> cmp b c \<le> 0 \<Longrightarrow> cmp a c \<le> 0"
begin

lemma cmp_refl: "cmp a a \<le> 0"
  using cmp_swap[of a a] by linarith

lemma cmp_total: "cmp a b \<le> 0 \<or> cmp b a \<le> 0"
  using cmp_swap[of a b] by linarith

text \<open>
  The invariant of \<open>sift_down\<close>, above the root \<open>k\<close> of the subtree it works in: only the edges
  below the current node may be broken, and its children do not exceed its parent.
\<close>

definition below_ok :: "nat \<Rightarrow> 'a binaryheap \<Rightarrow> nat \<Rightarrow> bool" where
  "below_ok k heap i \<longleftrightarrow>
     (\<forall>j. 0 < j \<and> j < bh_size heap \<and> k \<le> parent_offset j \<and> parent_offset j \<noteq> i \<longrightarrow> edge_ok heap j) \<and>
     (\<forall>j. 0 < j \<and> j < bh_size heap \<and> parent_offset j = i \<and> 0 < i \<and> k \<le> parent_offset i \<longrightarrow>
        cmp (bh_nodes heap ! j) (bh_nodes heap ! parent_offset i) \<le> 0)"

definition sub_heap :: "nat \<Rightarrow> 'a binaryheap \<Rightarrow> bool" where
  "sub_heap k heap \<longleftrightarrow> (\<forall>j. 0 < j \<and> j < bh_size heap \<and> k \<le> parent_offset j \<longrightarrow> edge_ok heap j)"

text \<open>The chosen child exceeds the node and no child exceeds the chosen one.\<close>

lemma swap_offset_child:
  assumes "bh_compare heap = cmp" "swap_offset heap i \<noteq> 0"
  shows "parent_offset (swap_offset heap i) = i"
    "cmp (bh_nodes heap ! i) (bh_nodes heap ! swap_offset heap i) < 0"
    "0 < j \<Longrightarrow> j < bh_size heap \<Longrightarrow> parent_offset j = i \<Longrightarrow>
       cmp (bh_nodes heap ! j) (bh_nodes heap ! swap_offset heap i) \<le> 0"
proof -
  show "parent_offset (swap_offset heap i) = i"
    using assms(2) by (auto simp: swap_offset_def Let_def parent_offset_def left_offset_def right_offset_def split: if_splits)
  show "cmp (bh_nodes heap ! i) (bh_nodes heap ! swap_offset heap i) < 0"
    using assms by (auto simp: swap_offset_def Let_def split: if_splits)
  have flip: "cmp a b \<le> 0" if "\<not> cmp b a < 0" for a b
    using that cmp_swap[of b a] by linarith
  have weak: "cmp a b \<le> 0" if "\<not> cmp x a < 0" "cmp x b < 0" for a b x
    using cmp_trans[OF flip[OF that(1)], of b] that(2) by simp
  assume "0 < j" "j < bh_size heap" "parent_offset j = i"
  then show "cmp (bh_nodes heap ! j) (bh_nodes heap ! swap_offset heap i) \<le> 0"
    using assms cmp_refl flip weak
    by (auto simp: swap_offset_def Let_def parent_offset_iff split: if_splits)
qed

lemma swap_offset_0:
  assumes "bh_compare heap = cmp" "swap_offset heap i = 0" "0 < j" "j < bh_size heap" "parent_offset j = i"
  shows "edge_ok heap j"
proof -
  have flip: "cmp a b \<le> 0" if "\<not> cmp b a < 0" for a b
    using that cmp_swap[of b a] by linarith
  have nz: "left_offset i \<noteq> 0" "right_offset i \<noteq> 0" by (simp_all add: left_offset_def right_offset_def)
  consider "j = left_offset i" | "j = right_offset i" using assms(3,5) parent_offset_iff by blast
  then have "\<not> cmp (bh_nodes heap ! i) (bh_nodes heap ! j) < 0"
    using assms(1,2,4) nz by cases (auto simp: swap_offset_def Let_def split: if_splits)
  then show ?thesis using flip assms(1,5) by (simp add: edge_ok_def)
qed

lemma below_ok_swap:
  assumes wf: "bh_wf heap" "bh_compare heap = cmp" and inv: "below_ok k heap i" and s: "swap_offset heap i \<noteq> 0"
  shows "below_ok k (swap_nodes heap (swap_offset heap i) i) (swap_offset heap i)"
proof -
  let ?s = "swap_offset heap i" and ?h = "swap_nodes heap (swap_offset heap i) i" and ?n = "bh_nodes heap"
  note sb = swap_offset_bounds[OF s] and sc = swap_offset_child[OF wf(2) s]
  have nth: "bh_nodes ?h ! j = (if j = i then ?n ! ?s else if j = ?s then ?n ! i else ?n ! j)"
    if "j < bh_size heap" for j
    by (rule swap_nodes_nth) (use that sb wf in \<open>auto simp: bh_wf_def\<close>)
  have par: "parent_offset j < bh_size heap" if "j < bh_size heap" for j
    using that by (auto simp: parent_offset_def)
  have edges: "edge_ok heap j" if "0 < j" "j < bh_size heap" "k \<le> parent_offset j" "parent_offset j \<noteq> i" for j
    using inv that by (auto simp: below_ok_def)
  have "edge_ok ?h j" if j: "0 < j" "j < bh_size heap" "k \<le> parent_offset j" "parent_offset j \<noteq> ?s" for j
  proof (cases "parent_offset j = i")
    case True
    then show ?thesis
      using sc(2) sc(3)[OF j(1,2) True] wf j parent_offset_less[OF j(1)] sb
      by (auto simp: edge_ok_def nth par)
  next
    case False
    show ?thesis
    proof (cases "j = i")
      case True
      then have "cmp (?n ! ?s) (?n ! parent_offset i) \<le> 0"
        using inv sc(1) sb j by (auto simp: below_ok_def)
      then show ?thesis using True j False wf by (auto simp: edge_ok_def nth par)
    next
      case neq: False
      have "j \<noteq> ?s" using False sc(1) by auto
      then show ?thesis using edges[OF j(1-3) False] neq False j wf by (auto simp: edge_ok_def nth par)
    qed
  qed
  moreover have "cmp (bh_nodes ?h ! j) (bh_nodes ?h ! i) \<le> 0"
    if j: "0 < j" "j < bh_size heap" "parent_offset j = ?s" "k \<le> i" for j
  proof -
    have "edge_ok heap j" using edges[OF j(1,2)] j sb by simp
    moreover have "j \<noteq> i" "j \<noteq> ?s" using j(3) sb parent_offset_less[OF j(1)] by auto
    ultimately show ?thesis using j sb wf by (simp add: edge_ok_def nth)
  qed
  ultimately show ?thesis using sc(1) by (auto simp: below_ok_def)
qed

lemma sift_down_sub_heap:
  "bh_wf heap \<Longrightarrow> bh_compare heap = cmp \<Longrightarrow> i < bh_size heap \<Longrightarrow> below_ok k heap i \<Longrightarrow>
   sub_heap k (sift_down heap i)"
proof (induction heap i rule: sift_down.induct)
  case (1 heap i)
  show ?case
  proof (cases "swap_offset heap i = 0")
    case True
    then have "edge_ok heap j" if "0 < j" "j < bh_size heap" "k \<le> parent_offset j" for j
      using that 1 swap_offset_0[OF 1(3) True] by (cases "parent_offset j = i") (auto simp: below_ok_def)
    then show ?thesis using True by (subst sift_down.simps) (simp add: Let_def sub_heap_def)
  next
    case False
    have "sub_heap k (sift_down (swap_nodes heap (swap_offset heap i) i) (swap_offset heap i))"
      by (rule 1(1)) (use False 1(2-5) below_ok_swap[OF 1(2,3,5) False] swap_offset_bounds[OF False] in simp_all)
    then show ?thesis using False by (subst sift_down.simps) (simp add: Let_def)
  qed
qed

text \<open>The invariant of \<open>sift_up\<close>: only the edge above the current node may be broken.\<close>

definition above_ok :: "'a binaryheap \<Rightarrow> nat \<Rightarrow> bool" where
  "above_ok heap i \<longleftrightarrow>
     (\<forall>j. 0 < j \<and> j < bh_size heap \<and> j \<noteq> i \<longrightarrow> edge_ok heap j) \<and>
     (\<forall>j. 0 < j \<and> j < bh_size heap \<and> parent_offset j = i \<and> 0 < i \<longrightarrow>
        cmp (bh_nodes heap ! j) (bh_nodes heap ! parent_offset i) \<le> 0)"

lemma above_ok_swap:
  assumes wf: "bh_wf heap" "bh_compare heap = cmp" and inv: "above_ok heap i" and i: "0 < i" "i < bh_size heap"
    and gt: "0 < cmp (bh_nodes heap ! i) (bh_nodes heap ! parent_offset i)"
  shows "above_ok (swap_nodes heap i (parent_offset i)) (parent_offset i)"
proof -
  let ?p = "parent_offset i" and ?h = "swap_nodes heap i (parent_offset i)" and ?n = "bh_nodes heap"
  have p: "?p < i" using i parent_offset_less by simp
  have nth: "bh_nodes ?h ! j = (if j = ?p then ?n ! i else if j = i then ?n ! ?p else ?n ! j)"
    if "j < bh_size heap" for j
    by (rule swap_nodes_nth) (use that p i wf in \<open>auto simp: bh_wf_def\<close>)
  have par: "parent_offset j < bh_size heap" if "j < bh_size heap" for j
    using that by (auto simp: parent_offset_def)
  have le: "cmp (?n ! ?p) (?n ! i) \<le> 0" using gt cmp_swap by (simp add: less_imp_le)
  have edges: "cmp (?n ! j) (?n ! parent_offset j) \<le> 0" if "0 < j" "j < bh_size heap" "j \<noteq> i" for j
    using inv that wf by (auto simp: above_ok_def edge_ok_def)
  have "edge_ok ?h j" if j: "0 < j" "j < bh_size heap" "j \<noteq> ?p" for j
  proof -
    consider "j = i" | "j \<noteq> i" "parent_offset j = ?p" | "j \<noteq> i" "parent_offset j = i"
      | "j \<noteq> i" "parent_offset j \<noteq> ?p" "parent_offset j \<noteq> i" by blast
    then show ?thesis
    proof cases
      case 2
      then show ?thesis using cmp_trans[OF edges[OF j(1,2)] , of "?n ! i"] le j wf nth[of ?p] p i
        by (simp add: edge_ok_def nth par)
    next
      case 3
      then show ?thesis using inv j i wf p by (auto simp: above_ok_def edge_ok_def nth par)
    next
      case 4
      then show ?thesis using edges[OF j(1,2)] j wf by (simp add: edge_ok_def nth par)
    qed (use j le p wf in \<open>simp add: edge_ok_def nth par\<close>)
  qed
  moreover have "cmp (bh_nodes ?h ! j) (bh_nodes ?h ! parent_offset ?p) \<le> 0"
    if j: "0 < j" "j < bh_size heap" "parent_offset j = ?p" "0 < ?p" for j
  proof -
    have up: "cmp (?n ! ?p) (?n ! parent_offset ?p) \<le> 0" using edges[of ?p] j(4) p i by simp
    have pp: "parent_offset ?p < ?p" "j \<noteq> ?p" using j parent_offset_less[of j] parent_offset_less[of ?p] by auto
    have "bh_nodes ?h ! parent_offset ?p = ?n ! parent_offset ?p" using pp(1) p i by (simp add: nth)
    then show ?thesis
      using up cmp_trans[OF edges[OF j(1,2)], of "?n ! parent_offset ?p"] j pp by (simp add: nth)
  qed
  ultimately show ?thesis by (auto simp: above_ok_def)
qed

lemma sift_up_heap:
  "bh_wf heap \<Longrightarrow> bh_compare heap = cmp \<Longrightarrow> i < bh_size heap \<Longrightarrow> above_ok heap i \<Longrightarrow> bh_heap (sift_up heap i)"
proof (induction heap i rule: sift_up.induct)
  case (1 heap i)
  show ?case
  proof (cases "i \<noteq> 0 \<and> \<not> bh_compare heap (bh_nodes heap ! i) (bh_nodes heap ! parent_offset i) \<le> 0")
    case True
    then have i: "0 < i" and gt: "0 < cmp (bh_nodes heap ! i) (bh_nodes heap ! parent_offset i)"
      using 1(3) by auto
    have "bh_heap (sift_up (swap_nodes heap i (parent_offset i)) (parent_offset i))"
      by (rule 1(1))
        (use True 1(2-4) above_ok_swap[OF 1(2,3,5) i 1(4) gt] parent_offset_less[OF i] in simp_all)
    then show ?thesis using True by (subst sift_up.simps) (simp add: Let_def)
  next
    case False
    then have "edge_ok heap j" if "0 < j" "j < bh_size heap" for j
      using that 1(5) by (cases "j = i") (auto simp: above_ok_def edge_ok_def)
    then show ?thesis using False 1(2) by (subst sift_up.simps) (auto simp: Let_def bh_heap_def)
  qed
qed

subsection \<open>The operations\<close>

lemma sub_heap_0: "bh_heap heap \<longleftrightarrow> bh_wf heap \<and> sub_heap 0 heap"
  by (simp add: bh_heap_def sub_heap_def)

lemma sift_down_root:
  assumes "bh_wf heap" "bh_compare heap = cmp" "0 < bh_size heap"
    "\<And>j. 0 < j \<Longrightarrow> j < bh_size heap \<Longrightarrow> parent_offset j \<noteq> 0 \<Longrightarrow> edge_ok heap j"
  shows "bh_heap (sift_down heap 0)"
proof -
  have "below_ok 0 heap 0" using assms(4) by (auto simp: below_ok_def)
  then show ?thesis
    using sift_down_sub_heap[OF assms(1-3)] sift_down_frame[OF assms(1,3)] by (simp add: sub_heap_0 sift_frame_def)
qed

lemma heap_first_max:
  assumes "bh_heap heap" "bh_compare heap = cmp" "j < bh_size heap"
  shows "cmp (bh_nodes heap ! j) (binaryheap_first heap) \<le> 0"
  using assms(3)
proof (induction j rule: less_induct)
  case (less j)
  show ?case
  proof (cases "j = 0")
    case False
    then have "parent_offset j < j" by (simp add: parent_offset_less)
    with less have "cmp (bh_nodes heap ! parent_offset j) (binaryheap_first heap) \<le> 0" by simp
    moreover have "cmp (bh_nodes heap ! j) (bh_nodes heap ! parent_offset j) \<le> 0"
      using assms(1,2) less.prems False by (auto simp: bh_heap_def edge_ok_def)
    ultimately show ?thesis by (rule cmp_trans[rotated])
  qed (simp add: binaryheap_first_def cmp_refl)
qed

lemma first_is_max:
  assumes "bh_heap heap" "bh_compare heap = cmp" "0 < bh_size heap"
  shows "binaryheap_first heap \<in># bh_mset heap \<and> (\<forall>x \<in># bh_mset heap. cmp x (binaryheap_first heap) \<le> 0)"
proof
  have len: "bh_size heap \<le> length (bh_nodes heap)" using assms(1) by (simp add: bh_heap_def bh_wf_def)
  have nth: "take (bh_size heap) (bh_nodes heap) ! j = bh_nodes heap ! j" if "j < bh_size heap" for j
    using that by simp
  show "binaryheap_first heap \<in># bh_mset heap"
    using assms(3) len nth_mem[of 0 "take (bh_size heap) (bh_nodes heap)"] by (simp add: bh_mset_def binaryheap_first_def)
  show "\<forall>x \<in># bh_mset heap. cmp x (binaryheap_first heap) \<le> 0"
    using heap_first_max[OF assms(1,2)] len by (auto simp: bh_mset_def in_set_conv_nth)
qed

lemma build_correct:
  assumes "bh_wf heap" "bh_compare heap = cmp"
  shows "bh_heap (binaryheap_build heap) \<and> bh_has_heap_property (binaryheap_build heap) \<and>
    bh_compare (binaryheap_build heap) = cmp \<and> bh_mset (binaryheap_build heap) = bh_mset heap \<and>
    bh_size (binaryheap_build heap) = bh_size heap \<and> bh_space (binaryheap_build heap) = bh_space heap"
proof -
  let ?n = "if bh_size heap = 0 then 0 else parent_offset (bh_size heap - 1) + 1"
  let ?I = "\<lambda>k h. sift_frame heap h \<and> sub_heap k h"
  have n: "?n \<le> bh_size heap" by (auto simp: parent_offset_def)
  have start: "?I ?n heap"
    using assms(1) by (auto simp: sift_frame_refl sub_heap_def parent_offset_def)
  have step: "?I k (sift_down h k)" if "?I (Suc k) h" "k < ?n" for k h
  proof -
    have h: "bh_wf h" "bh_compare h = cmp" "k < bh_size h"
      using that n assms(2) by (auto simp: sift_frame_def)
    have "below_ok k h k"
      using that(1) parent_offset_less[of k] by (fastforce simp: below_ok_def sub_heap_def)
    then show ?thesis
      using sift_down_sub_heap[OF h] sift_down_frame[OF h(1,3)] that(1) sift_frame_trans by blast
  qed
  have "?I 0 (fold (\<lambda>i heap. sift_down heap i) (rev [0..<?n]) heap)"
    by (rule fold_rev_upt_rule[where I = ?I]) (use start step in auto)
  moreover define g where "g = fold (\<lambda>i heap. sift_down heap i) (rev [0..<?n]) heap"
  ultimately have "sift_frame heap g" "sub_heap 0 g" by simp_all
  then show ?thesis
    unfolding binaryheap_build_def Let_def g_def[symmetric] using assms(2)
    by (auto simp: sub_heap_0 sift_frame_def sub_heap_def bh_wf_def edge_ok_def bh_mset_def)
qed

lemma add_correct:
  assumes "bh_heap heap" "bh_compare heap = cmp" "bh_size heap < bh_space heap"
  obtains heap' where "binaryheap_add heap d = Inr heap'" "bh_heap heap'" "bh_compare heap' = cmp"
    "bh_mset heap' = add_mset d (bh_mset heap)" "bh_size heap' = Suc (bh_size heap)"
    "bh_space heap' = bh_space heap" "bh_has_heap_property heap' = bh_has_heap_property heap"
proof -
  let ?h = "heap\<lparr>bh_nodes := (bh_nodes heap)[bh_size heap := d], bh_size := bh_size heap + 1\<rparr>"
  have len: "length (bh_nodes heap) = bh_space heap" using assms(1) by (simp add: bh_heap_def bh_wf_def)
  have wf: "bh_wf ?h" using assms(3) len by (simp add: bh_wf_def)
  have par: "parent_offset j < bh_size heap" if "0 < j" "j < Suc (bh_size heap)" for j
    using that parent_offset_less[of j] by linarith
  have "above_ok ?h (bh_size heap)"
    unfolding above_ok_def
  proof (intro conjI allI impI; elim conjE)
    fix j assume j: "0 < j" "j < bh_size ?h" "j \<noteq> bh_size heap"
    then have "edge_ok heap j" using assms(1) by (simp add: bh_heap_def)
    then show "edge_ok ?h j" using j par[of j] len assms(3) by (simp add: edge_ok_def)
  next
    fix j assume "0 < j" "j < bh_size ?h" "parent_offset j = bh_size heap"
    then show "cmp (bh_nodes ?h ! j) (bh_nodes ?h ! parent_offset (bh_size heap)) \<le> 0" using par[of j] by simp
  qed
  then have "bh_heap (sift_up ?h (bh_size heap))" "sift_frame ?h (sift_up ?h (bh_size heap))"
    using sift_up_heap[of ?h "bh_size heap"] sift_up_frame[of ?h "bh_size heap"] wf assms(2) by simp_all
  moreover have "bh_mset ?h = add_mset d (bh_mset heap)"
    using len assms(3) by (simp add: bh_mset_def take_Suc_conv_app_nth)
  ultimately show ?thesis
    using that[of "sift_up ?h (bh_size heap)"] assms by (simp add: binaryheap_add_def sift_frame_def Let_def)
qed

lemma remove_first_correct:
  assumes heap: "bh_heap heap" "bh_compare heap = cmp" "0 < bh_size heap"
  obtains heap' where "binaryheap_remove_first heap = (binaryheap_first heap, heap')" "bh_heap heap'"
    "bh_compare heap' = cmp" "bh_mset heap = add_mset (binaryheap_first heap) (bh_mset heap')"
    "bh_size heap = Suc (bh_size heap')" "bh_space heap' = bh_space heap"
    "bh_has_heap_property heap' = bh_has_heap_property heap"
proof (cases "bh_size heap = 1")
  case True
  have "take (Suc 0) (bh_nodes heap) = [bh_nodes heap ! 0]"
    using heap(1) True by (cases "bh_nodes heap") (auto simp: bh_heap_def bh_wf_def)
  then show ?thesis
    using that[of "heap\<lparr>bh_size := 0\<rparr>"] heap True
    by (simp add: binaryheap_remove_first_def bh_heap_def bh_wf_def bh_mset_def binaryheap_first_def)
next
  case False
  let ?m = "bh_size heap - 1"
  let ?s = "swap_nodes heap 0 ?m"
  let ?h = "?s\<lparr>bh_size := ?m\<rparr>"
  have wf: "bh_wf heap" and len: "bh_size heap \<le> length (bh_nodes heap)"
    using heap(1) by (auto simp: bh_heap_def bh_wf_def)
  have m: "0 < ?m" "?m < bh_size heap" using False heap(3) by auto
  have nth: "bh_nodes ?s ! j = (if j = ?m then bh_nodes heap ! 0 else if j = 0 then bh_nodes heap ! ?m else bh_nodes heap ! j)"
    if "j < bh_size heap" for j
    by (rule swap_nodes_nth) (use that m len in auto)
  have wf': "bh_wf ?h" using wf m by (auto simp: bh_wf_def)
  have "edge_ok ?h j" if "0 < j" "j < bh_size ?h" "parent_offset j \<noteq> 0" for j
  proof -
    have "edge_ok heap j" using heap(1) that(1,2) by (simp add: bh_heap_def)
    then show ?thesis using that parent_offset_less[OF that(1)] nth[of j] nth[of "parent_offset j"]
      by (simp add: edge_ok_def)
  qed
  then have h: "bh_heap (sift_down ?h 0)" "sift_frame ?h (sift_down ?h 0)"
    using sift_down_root[of ?h] sift_down_frame[of ?h 0] wf' heap(2) m by simp_all
  have nodes: "bh_nodes (sift_down ?h 0) ! ?m = bh_nodes ?s ! ?m"
  proof -
    have "drop ?m (bh_nodes (sift_down ?h 0)) = drop ?m (bh_nodes ?s)" using h(2) by (simp add: sift_frame_def)
    moreover have "?m < length (bh_nodes (sift_down ?h 0))" "?m < length (bh_nodes ?s)"
      using h(2) len m wf by (auto simp: sift_frame_def bh_wf_def)
    ultimately show ?thesis by (metis Cons_nth_drop_Suc list.inject)
  qed
  have "bh_mset heap = bh_mset ?s" using swap_nodes_mset[OF wf] m by simp
  also have "\<dots> = add_mset (bh_nodes ?s ! ?m) (bh_mset ?h)"
    using m len take_Suc_conv_app_nth[of ?m "bh_nodes ?s"] by (simp add: bh_mset_def)
  finally have "bh_mset heap = add_mset (binaryheap_first heap) (bh_mset (sift_down ?h 0))"
    using h(2) m nth[of ?m] by (simp add: sift_frame_def binaryheap_first_def)
  then show ?thesis
    using that[of "sift_down ?h 0"] h heap(2) m False nodes nth[of ?m]
    by (simp add: binaryheap_remove_first_def Let_def sift_frame_def binaryheap_first_def)
qed

lemma replace_first_correct:
  assumes wf: "bh_wf heap" and cmp: "bh_compare heap = cmp" and sz: "0 < bh_size heap"
    and edges: "\<And>j. 0 < j \<Longrightarrow> j < bh_size heap \<Longrightarrow> parent_offset j \<noteq> 0 \<Longrightarrow> edge_ok heap j"
  shows "bh_heap (binaryheap_replace_first heap d)"
    "sift_frame (heap\<lparr>bh_nodes := (bh_nodes heap)[0 := d]\<rparr>) (binaryheap_replace_first heap d)"
    "add_mset (binaryheap_first heap) (bh_mset (binaryheap_replace_first heap d)) = add_mset d (bh_mset heap)"
proof -
  let ?h = "heap\<lparr>bh_nodes := (bh_nodes heap)[0 := d]\<rparr>"
  have len: "bh_size heap \<le> length (bh_nodes heap)" using wf by (auto simp: bh_wf_def)
  have wf': "bh_wf ?h" using wf by (simp add: bh_wf_def)
  have "edge_ok ?h j" if "0 < j" "j < bh_size ?h" "parent_offset j \<noteq> 0" for j
    using edges[of j] that by (auto simp: edge_ok_def)
  then have h: "bh_heap (sift_down ?h 0)" "sift_frame ?h (sift_down ?h 0)"
    using sift_down_root[of ?h] sift_down_frame[of ?h 0] wf' cmp sz by simp_all
  moreover have "bh_heap ?h" if "\<not> 1 < bh_size heap"
    using that wf' by (auto simp: bh_heap_def)
  ultimately show 1: "bh_heap (binaryheap_replace_first heap d)"
    and 2: "sift_frame ?h (binaryheap_replace_first heap d)"
    using wf' by (auto simp: binaryheap_replace_first_def Let_def sift_frame_refl)
  obtain x xs where "bh_nodes heap = x # xs" using sz len by (cases "bh_nodes heap") auto
  then have "add_mset (binaryheap_first heap) (bh_mset ?h) = add_mset d (bh_mset heap)"
    using sz by (cases "bh_size heap") (auto simp: bh_mset_def binaryheap_first_def)
  then show "add_mset (binaryheap_first heap) (bh_mset (binaryheap_replace_first heap d)) = add_mset d (bh_mset heap)"
    using 2 by (simp add: sift_frame_def)
qed

end

section \<open>Clients: the heap as a sorter\<close>

text \<open>Fill an allocated heap without ordering it, assemble it, then take the first node until it is empty.\<close>

primrec add_all_unordered :: "'a list \<Rightarrow> 'a binaryheap \<Rightarrow> 'a binaryheap result" where
  "add_all_unordered [] heap = Inr heap"
| "add_all_unordered (d # ds) heap =
     (case binaryheap_add_unordered heap d of Inl e \<Rightarrow> Inl e | Inr heap \<Rightarrow> add_all_unordered ds heap)"

primrec drain :: "nat \<Rightarrow> 'a binaryheap \<Rightarrow> 'a list" where
  "drain 0 heap = []"
| "drain (Suc n) heap = (let (d, heap) = binaryheap_remove_first heap in d # drain n heap)"

lemma add_unordered_Inr:
  assumes "bh_wf heap" "bh_size heap < bh_space heap"
  obtains heap' where "binaryheap_add_unordered heap d = Inr heap'" "bh_wf heap'"
    "bh_compare heap' = bh_compare heap" "bh_mset heap' = add_mset d (bh_mset heap)"
    "bh_size heap' = Suc (bh_size heap)" "bh_space heap' = bh_space heap"
  using assms
  by (simp add: binaryheap_add_unordered_def bh_wf_def bh_mset_def take_Suc_conv_app_nth)

lemma add_all_unordered_Inr:
  assumes "bh_wf heap" "bh_size heap + length ds \<le> bh_space heap"
  obtains heap' where "add_all_unordered ds heap = Inr heap'" "bh_wf heap'"
    "bh_compare heap' = bh_compare heap" "bh_mset heap' = mset ds + bh_mset heap"
    "bh_size heap' = bh_size heap + length ds" "bh_space heap' = bh_space heap"
  using assms
proof (induction ds arbitrary: heap thesis)
  case (Cons d ds)
  obtain h where h: "binaryheap_add_unordered heap d = Inr h" "bh_wf h" "bh_compare h = bh_compare heap"
    "bh_mset h = add_mset d (bh_mset heap)" "bh_size h = Suc (bh_size heap)" "bh_space h = bh_space heap"
    using add_unordered_Inr[of heap d] Cons.prems by auto
  show ?case
    by (rule Cons.IH[of h]) (use h Cons.prems in auto)
qed simp

context heap_comparator
begin

lemma drain_sorted:
  assumes "bh_heap heap" "bh_compare heap = cmp"
  shows "mset (drain (bh_size heap) heap) = bh_mset heap \<and>
    sorted_wrt (\<lambda>a b. cmp b a \<le> 0) (drain (bh_size heap) heap)"
  using assms
proof (induction "bh_size heap" arbitrary: heap)
  case 0
  then show ?case by (simp add: bh_mset_def flip: 0(1))
next
  case (Suc n)
  obtain h where h: "binaryheap_remove_first heap = (binaryheap_first heap, h)" "bh_heap h" "bh_compare h = cmp"
    "bh_mset heap = add_mset (binaryheap_first heap) (bh_mset h)" "bh_size heap = Suc (bh_size h)"
    "bh_space h = bh_space heap" "bh_has_heap_property h = bh_has_heap_property heap"
  proof (rule remove_first_correct[OF Suc.prems])
    show "0 < bh_size heap" using Suc.hyps(2) by simp
  qed
  have IH: "mset (drain n h) = bh_mset h" "sorted_wrt (\<lambda>a b. cmp b a \<le> 0) (drain n h)"
    using Suc.hyps(1)[of h] Suc.hyps(2) h by auto
  have "cmp x (binaryheap_first heap) \<le> 0" if "x \<in># bh_mset h" for x
    using first_is_max[of heap] Suc that h(4) by simp
  then have "\<forall>x \<in> set (drain n h). cmp x (binaryheap_first heap) \<le> 0"
    using IH(1) by (metis set_mset_mset)
  moreover have "drain (bh_size heap) heap = binaryheap_first heap # drain n h"
    using h(1) by (simp flip: Suc.hyps(2))
  ultimately show ?case using IH h(4) by simp
qed

end

section \<open>The comparator of the consistent-read page builder\<close>

text \<open>
  \<open>BuildCRPage\<close> of the UB-tree orders the transaction directory slots of a page by commit
  sequence number, newest first. The slots are the array after the page header, numbered from 1.
\<close>

record UBTreeTDData =
  td_xid :: uint64
  td_csn :: uint64

definition UBTreePCRGetTD :: "UBTreeTDData list \<Rightarrow> nat \<Rightarrow> UBTreeTDData" where
  "UBTreePCRGetTD crPage tdid = crPage ! (tdid - 1)"

definition TDCompare :: "UBTreeTDData list \<Rightarrow> nat \<Rightarrow> nat \<Rightarrow> int" where
  "TDCompare crPage a b =
     (let tdA = UBTreePCRGetTD crPage a; tdB = UBTreePCRGetTD crPage b
      in if td_csn tdA > td_csn tdB then 1 else if td_csn tdA = td_csn tdB then 0 else - 1)"

lemma TDCompare_le: "TDCompare crPage a b \<le> 0 \<longleftrightarrow> td_csn (UBTreePCRGetTD crPage a) \<le> td_csn (UBTreePCRGetTD crPage b)"
  by (auto simp: TDCompare_def Let_def)

interpretation td_heap: heap_comparator "TDCompare crPage" for crPage
proof
  fix a b c
  show "TDCompare crPage a b < 0 \<longleftrightarrow> 0 < TDCompare crPage b a" by (auto simp: TDCompare_def Let_def)
  show "TDCompare crPage a b \<le> 0 \<Longrightarrow> TDCompare crPage b c \<le> 0 \<Longrightarrow> TDCompare crPage a c \<le> 0"
    by (simp add: TDCompare_le)
qed

section \<open>Properties\<close>

text \<open>
  C11: for every comparator that is a total preorder, the operations keep the heap invariant
  and act on the nodes as on a multiset: \<open>binaryheap_first\<close> is a node that no node exceeds,
  \<open>binaryheap_add\<close> adds its node or, in a full heap, raises an error, \<open>binaryheap_remove_first\<close>
  returns and takes away the first node and \<open>binaryheap_replace_first\<close> exchanges it.
\<close>

theorem binaryheap_operations:
  fixes cmp :: "'a \<Rightarrow> 'a \<Rightarrow> int"
  assumes "heap_comparator cmp" "bh_heap heap" "bh_compare heap = cmp"
  shows "(0 < bh_size heap \<longrightarrow> binaryheap_first heap \<in># bh_mset heap \<and>
      (\<forall>x \<in># bh_mset heap. cmp x (binaryheap_first heap) \<le> 0)) \<and>
    (case binaryheap_add heap d of
        Inl e \<Rightarrow> e = ERRCODE_INTERNAL_ERROR \<and> bh_size heap = bh_space heap
      | Inr heap' \<Rightarrow> bh_size heap < bh_space heap \<and> bh_heap heap' \<and> bh_compare heap' = cmp \<and>
          bh_mset heap' = add_mset d (bh_mset heap)) \<and>
    (0 < bh_size heap \<longrightarrow> (case binaryheap_remove_first heap of (x, heap') \<Rightarrow>
      x = binaryheap_first heap \<and> bh_heap heap' \<and> bh_compare heap' = cmp \<and>
      bh_mset heap = add_mset x (bh_mset heap'))) \<and>
    (0 < bh_size heap \<longrightarrow> bh_heap (binaryheap_replace_first heap d) \<and>
      bh_compare (binaryheap_replace_first heap d) = cmp \<and>
      bh_mset (binaryheap_replace_first heap d) = add_mset d (bh_mset heap) - {#binaryheap_first heap#})"
proof (intro conjI impI)
  note laws = heap_comparator.first_is_max[OF assms] heap_comparator.add_correct[OF assms]
    heap_comparator.remove_first_correct[OF assms]
  show "case binaryheap_add heap d of
        Inl e \<Rightarrow> e = ERRCODE_INTERNAL_ERROR \<and> bh_size heap = bh_space heap
      | Inr heap' \<Rightarrow> bh_size heap < bh_space heap \<and> bh_heap heap' \<and> bh_compare heap' = cmp \<and>
          bh_mset heap' = add_mset d (bh_mset heap)"
  proof (cases "bh_size heap < bh_space heap")
    case True
    show ?thesis by (rule laws(2)[OF True, where d = d]) (use True in simp)
  next
    case False
    then show ?thesis using assms(2) by (simp add: binaryheap_add_def bh_heap_def bh_wf_def)
  qed
  assume sz: "0 < bh_size heap"
  show "binaryheap_first heap \<in># bh_mset heap" "\<forall>x \<in># bh_mset heap. cmp x (binaryheap_first heap) \<le> 0"
    using laws(1)[OF sz] by simp_all
  show "case binaryheap_remove_first heap of (x, heap') \<Rightarrow>
      x = binaryheap_first heap \<and> bh_heap heap' \<and> bh_compare heap' = cmp \<and>
      bh_mset heap = add_mset x (bh_mset heap')"
    by (rule laws(3)[OF sz]) simp
  note rep = heap_comparator.replace_first_correct[OF assms(1) _ assms(3) sz, of d]
  have heap: "bh_wf heap" "\<And>j. 0 < j \<Longrightarrow> j < bh_size heap \<Longrightarrow> parent_offset j \<noteq> 0 \<Longrightarrow> edge_ok heap j"
    using assms(2) by (simp_all add: bh_heap_def)
  show "bh_heap (binaryheap_replace_first heap d)" "bh_compare (binaryheap_replace_first heap d) = cmp"
    "bh_mset (binaryheap_replace_first heap d) = add_mset d (bh_mset heap) - {#binaryheap_first heap#}"
    using rep(1)[OF heap] rep(2)[OF heap] rep(3)[OF heap, symmetric] assms(3) by (simp_all add: sift_frame_def)
qed

definition sample_page :: "UBTreeTDData list" where
  "sample_page = map (\<lambda>csn. \<lparr>td_xid = 7, td_csn = csn\<rparr>) [40, 90, 10, 70]"

definition sample_heap :: "nat binaryheap" where
  "sample_heap = \<lparr>bh_size = 3, bh_space = 4, bh_has_heap_property = True, bh_compare = TDCompare sample_page,
     bh_nodes = [2, 1, 4, 0]\<rparr>"

lemma less_3: "j < 3 \<longleftrightarrow> j = 0 \<or> j = 1 \<or> j = (2::nat)"
  by auto

lemma sample_heap_ok: "bh_heap sample_heap"
  by (auto simp: sample_heap_def bh_heap_def bh_wf_def edge_ok_def less_3 parent_offset_def
      TDCompare_def UBTreePCRGetTD_def sample_page_def)

theorem binaryheap_operations_witness:
  "bh_heap sample_heap \<and> binaryheap_first sample_heap = 2 \<and> binaryheap_first sample_heap \<in># bh_mset sample_heap \<and>
   (case binaryheap_remove_first sample_heap of (x, heap') \<Rightarrow>
      x = 2 \<and> bh_heap heap' \<and> bh_mset sample_heap = add_mset 2 (bh_mset heap'))"
  using binaryheap_operations[OF td_heap.heap_comparator_axioms[of sample_page] sample_heap_ok, of 3] sample_heap_ok
  by (simp add: sample_heap_def binaryheap_first_def split: prod.splits)

text \<open>
  C30: a heap allocated for the data, filled by \<open>binaryheap_add_unordered\<close> and assembled by
  \<open>binaryheap_build\<close> yields the data from the largest to the smallest under
  \<open>binaryheap_remove_first\<close>; a heap that is too small raises an error instead.
\<close>

theorem binaryheap_sorts:
  fixes cmp :: "'a \<Rightarrow> 'a \<Rightarrow> int"
  assumes "heap_comparator cmp" "length nodes = capacity"
  shows "case add_all_unordered ds (binaryheap_allocate capacity cmp nodes) of
      Inl e \<Rightarrow> e = ERRCODE_INTERNAL_ERROR \<and> capacity < length ds
    | Inr heap \<Rightarrow> length ds \<le> capacity \<and> mset (drain (length ds) (binaryheap_build heap)) = mset ds \<and>
        sorted_wrt (\<lambda>a b. cmp b a \<le> 0) (drain (length ds) (binaryheap_build heap))"
proof (cases "length ds \<le> capacity")
  case True
  let ?h = "binaryheap_allocate capacity cmp nodes"
  have h: "bh_wf ?h" "bh_size ?h + length ds \<le> bh_space ?h" "bh_compare ?h = cmp" "bh_mset ?h = {#}" "bh_size ?h = 0"
    using assms(2) True by (simp_all add: binaryheap_allocate_def bh_wf_def bh_mset_def)
  obtain h' where h': "add_all_unordered ds ?h = Inr h'" "bh_wf h'" "bh_compare h' = cmp" "bh_mset h' = mset ds"
    "bh_size h' = length ds"
    using add_all_unordered_Inr[OF h(1,2)] h(3-5) by auto
  note built = heap_comparator.build_correct[OF assms(1) h'(2,3)]
  show ?thesis
    using heap_comparator.drain_sorted[OF assms(1), of "binaryheap_build h'"] built h' True by simp
next
  case False
  have "add_all_unordered ds heap = Inl ERRCODE_INTERNAL_ERROR" if "bh_space heap < bh_size heap + length ds"
    "bh_size heap \<le> bh_space heap" for heap :: "'a binaryheap"
    using that by (induction ds arbitrary: heap) (auto simp: binaryheap_add_unordered_def)
  from this[of "binaryheap_allocate capacity cmp nodes"] show ?thesis
    using False by (simp add: binaryheap_allocate_def)
qed

theorem binaryheap_sorts_witness:
  "add_all_unordered [1, 2, 3, 4] (binaryheap_allocate 4 (TDCompare sample_page) [0, 0, 0, 0]) \<noteq> Inl ERRCODE_INTERNAL_ERROR \<and>
   (case add_all_unordered [1, 2, 3, 4] (binaryheap_allocate 4 (TDCompare sample_page) [0, 0, 0, 0]) of
      Inl e \<Rightarrow> False
    | Inr heap \<Rightarrow> mset (drain 4 (binaryheap_build heap)) = {#1, 2, 3, 4#} \<and>
        sorted_wrt (\<lambda>a b. TDCompare sample_page b a \<le> 0) (drain 4 (binaryheap_build heap)))"
proof -
  have len: "length [1, 2, 3, 4 :: nat] = 4" "length [0, 0, 0, 0 :: nat] = 4" by simp_all
  show ?thesis
    using binaryheap_sorts[OF td_heap.heap_comparator_axioms[of sample_page] len(2), of "[1, 2, 3, 4]"]
    unfolding len by (auto simp del: add_all_unordered.simps split: sum.splits)
qed

end
