(* ===== verification/Reorder_Buffer.thy ===== *)
theory Reorder_Buffer
  imports Binary_Heap "HOL-Library.Monad_Syntax"
begin

text \<open>
  The reorder buffer of logical decoding,
  \<open>src/gausskernel/storage/replication/logical/reorderbuffer.cpp\<close>: the operations. Changes
  read from the WAL are queued per transaction, spilled to disk when a transaction has too
  many of them in memory, and at commit merged over a transaction and its subtransactions in
  LSN order through a binary heap.

  A pointer to a transaction is its xid, which \<open>by_txn\<close> resolves. A spill file is named by the
  xid and the WAL segment and holds the changes appended to it; the byte image of a change is
  not modelled and file operations succeed. \<open>None\<close> as the outcome of an operation is leaving
  the defined behaviour of the code: a pointer to a transaction that is gone, the head of an
  empty list, or a recursion deeper than the two levels that the code asserts.
\<close>

section \<open>Data\<close>

type_synonym XLogRecPtr = nat
type_synonym XLogSegNo = nat
type_synonym TransactionId = nat

record Snapshot =
  snap_xmin :: TransactionId
  xcnt :: nat
  subxcnt :: nat

record 'd tuplebuf =
  t_len :: nat
  t_data :: 'd

text \<open>The members \<open>tp\<close> and \<open>utp\<close> of the union: the tuples of a row change.\<close>

record 'd row_change =
  relnode :: 'd
  clear_toast_afterwards :: bool
  oldtuple :: "'d tuplebuf option"
  newtuple :: "'d tuplebuf option"
  snapshotcsn :: nat

text \<open>The tagged union of \<open>ReorderBufferChange\<close>: the action and its data; a DDL message has its prefix, text, relation and command type.\<close>

datatype 'd ReorderBufferChangeData =
    REORDER_BUFFER_CHANGE_INSERT "'d row_change"
  | REORDER_BUFFER_CHANGE_UPDATE "'d row_change"
  | REORDER_BUFFER_CHANGE_DELETE "'d row_change"
  | REORDER_BUFFER_CHANGE_INTERNAL_SNAPSHOT Snapshot
  | REORDER_BUFFER_CHANGE_INTERNAL_COMMAND_ID nat
  | REORDER_BUFFER_CHANGE_INTERNAL_TUPLECID 'd
  | REORDER_BUFFER_CHANGE_DDL string string nat nat
  | REORDER_BUFFER_CHANGE_TRUNCATE 'd
  | REORDER_BUFFER_CHANGE_UINSERT "'d row_change"
  | REORDER_BUFFER_CHANGE_UUPDATE "'d row_change"
  | REORDER_BUFFER_CHANGE_UDELETE "'d row_change"

record 'd ReorderBufferChange =
  chg_lsn :: XLogRecPtr
  chg_txn :: TransactionId
  origin_id :: nat
  chg_data :: "'d ReorderBufferChangeData"

record 'd ReorderBufferTXN =
  xid :: TransactionId
  has_catalog_changes :: bool
  is_known_as_subxact :: bool
  toplevel_xid :: TransactionId
  first_lsn :: XLogRecPtr
  final_lsn :: XLogRecPtr
  end_lsn :: XLogRecPtr
  restart_decoding_lsn :: XLogRecPtr
  base_snapshot :: "Snapshot option"
  base_snapshot_lsn :: XLogRecPtr
  nentries :: nat
  nentries_mem :: nat
  serialized :: bool
  changes :: "'d ReorderBufferChange list"
  tuplecids :: "'d ReorderBufferChange list"
  ntuplecids :: nat
  subtxns :: "TransactionId list"
  nsubtxns :: nat
  invalidations :: "'d list"
  txn_size :: uint64

record 'd ReorderBuffer =
  by_txn :: "TransactionId \<rightharpoonup> 'd ReorderBufferTXN"
  toplevel_by_lsn :: "TransactionId list"
  txns_by_base_snapshot_lsn :: "TransactionId list"
  by_txn_last_xid :: TransactionId
  by_txn_last_txn :: "TransactionId option"
  current_restart_decoding_lsn :: XLogRecPtr
  rb_size :: uint64
  spill :: "TransactionId \<times> XLogSegNo \<rightharpoonup> 'd ReorderBufferChange list"

text \<open>
  The settings the code reads: the GUC \<open>max_changes_in_memory\<close>, the two limits of the output
  plugin (\<open>None\<close> while it has no private data), the WAL segment size, and the sizes of the
  C structures.
\<close>

record decoding_config =
  max_changes_in_memory :: nat
  plugin_limits :: "(nat \<times> nat) option"
  XLogSegSize :: nat
  sizeof_Change :: nat
  sizeof_HeapTupleData :: nat
  sizeof_UHeapTupleData :: nat
  sizeof_SnapshotData :: nat
  sizeof_TransactionId :: nat
  sizeof_Size :: nat
  sizeof_Oid :: nat
  sizeof_CommandType :: nat

definition sizeMB :: nat where "sizeMB = 1024 * 1024"

definition sizeGB :: nat where "sizeGB = 1024 * 1024 * 1024"

definition InvalidTransactionId :: TransactionId where "InvalidTransactionId = 0"

definition InvalidXLogRecPtr :: XLogRecPtr where "InvalidXLogRecPtr = 0"

definition upd_txn ::
  "TransactionId \<Rightarrow> ('d ReorderBufferTXN \<Rightarrow> 'd ReorderBufferTXN) \<Rightarrow> 'd ReorderBuffer \<Rightarrow> 'd ReorderBuffer" where
  "upd_txn x f rb = rb\<lparr>by_txn := (by_txn rb)(x := map_option f (by_txn rb x))\<rparr>"

section \<open>Transactions and memory accounting\<close>

definition ReorderBufferAllocate :: "'d ReorderBuffer" where
  "ReorderBufferAllocate =
     \<lparr>by_txn = (\<lambda>_. None), toplevel_by_lsn = [], txns_by_base_snapshot_lsn = [],
      by_txn_last_xid = InvalidTransactionId, by_txn_last_txn = None,
      current_restart_decoding_lsn = InvalidXLogRecPtr, rb_size = 0, spill = (\<lambda>_. None)\<rparr>"

definition ReorderBufferGetTXN :: "'d ReorderBufferTXN" where
  "ReorderBufferGetTXN =
     \<lparr>xid = 0, has_catalog_changes = False, is_known_as_subxact = False, toplevel_xid = 0, first_lsn = 0,
      final_lsn = 0, end_lsn = 0, restart_decoding_lsn = 0, base_snapshot = None, base_snapshot_lsn = 0,
      nentries = 0, nentries_mem = 0, serialized = False, changes = [], tuplecids = [], ntuplecids = 0,
      subtxns = [], nsubtxns = 0, invalidations = [], txn_size = 0\<rparr>"

definition ReorderBufferReturnTXN :: "'d ReorderBuffer \<Rightarrow> TransactionId \<Rightarrow> 'd ReorderBuffer" where
  "ReorderBufferReturnTXN rb x =
     (if by_txn_last_xid rb = x
      then rb\<lparr>by_txn_last_xid := InvalidTransactionId, by_txn_last_txn := None\<rparr> else rb)"

definition tuple_size :: "nat \<Rightarrow> 'd tuplebuf option \<Rightarrow> nat" where
  "tuple_size header t = (case t of None \<Rightarrow> 0 | Some t \<Rightarrow> header + t_len t)"

definition ReorderBufferChangeSize :: "decoding_config \<Rightarrow> 'd ReorderBufferChange \<Rightarrow> uint64" where
  "ReorderBufferChangeSize cfg change =
     (let heap = tuple_size (sizeof_HeapTupleData cfg); uheap = tuple_size (sizeof_UHeapTupleData cfg);
          sz = (case chg_data change of
              REORDER_BUFFER_CHANGE_INSERT r \<Rightarrow> heap (newtuple r) + heap (oldtuple r)
            | REORDER_BUFFER_CHANGE_UPDATE r \<Rightarrow> heap (newtuple r) + heap (oldtuple r)
            | REORDER_BUFFER_CHANGE_DELETE r \<Rightarrow> heap (newtuple r) + heap (oldtuple r)
            | REORDER_BUFFER_CHANGE_INTERNAL_SNAPSHOT snap \<Rightarrow>
                sizeof_SnapshotData cfg + sizeof_TransactionId cfg * xcnt snap + sizeof_TransactionId cfg * subxcnt snap
            | REORDER_BUFFER_CHANGE_INTERNAL_COMMAND_ID _ \<Rightarrow> 0
            | REORDER_BUFFER_CHANGE_INTERNAL_TUPLECID _ \<Rightarrow> 0
            | REORDER_BUFFER_CHANGE_UINSERT r \<Rightarrow> uheap (newtuple r) + uheap (oldtuple r)
            | REORDER_BUFFER_CHANGE_UUPDATE r \<Rightarrow> uheap (newtuple r) + uheap (oldtuple r)
            | REORDER_BUFFER_CHANGE_UDELETE r \<Rightarrow> uheap (newtuple r) + uheap (oldtuple r)
            | REORDER_BUFFER_CHANGE_DDL prefix message _ _ \<Rightarrow>
                (length prefix + 1) + length message + sizeof_Size cfg + sizeof_Size cfg + sizeof_Oid cfg
                  + sizeof_CommandType cfg
            | REORDER_BUFFER_CHANGE_TRUNCATE _ \<Rightarrow> 0)
      in of_nat (sizeof_Change cfg + sz))"

definition is_tuplecid :: "'d ReorderBufferChange \<Rightarrow> bool" where
  "is_tuplecid change =
     (case chg_data change of REORDER_BUFFER_CHANGE_INTERNAL_TUPLECID _ \<Rightarrow> True | _ \<Rightarrow> False)"

definition ReorderBufferUpdateMemory ::
  "decoding_config \<Rightarrow> 'd ReorderBuffer \<Rightarrow> 'd ReorderBufferChange \<Rightarrow> bool \<Rightarrow> 'd ReorderBuffer" where
  "ReorderBufferUpdateMemory cfg rb change add =
     (let sz = ReorderBufferChangeSize cfg change
      in if is_tuplecid change then rb
         else if add
         then (upd_txn (chg_txn change) (\<lambda>t. t\<lparr>txn_size := txn_size t + sz\<rparr>) rb)\<lparr>rb_size := rb_size rb + sz\<rparr>
         else (upd_txn (chg_txn change) (\<lambda>t. t\<lparr>txn_size := txn_size t - sz\<rparr>) rb)\<lparr>rb_size := rb_size rb - sz\<rparr>)"

definition ReorderBufferReturnChange ::
  "decoding_config \<Rightarrow> 'd ReorderBuffer \<Rightarrow> 'd ReorderBufferChange \<Rightarrow> 'd ReorderBuffer" where
  "ReorderBufferReturnChange cfg rb change = ReorderBufferUpdateMemory cfg rb change False"

text \<open>The result is the buffer, the transaction found or created (NULL is \<open>None\<close>) and \<open>is_new\<close>.\<close>

definition ReorderBufferTXNByXid ::
  "'d ReorderBuffer \<Rightarrow> TransactionId \<Rightarrow> bool \<Rightarrow> XLogRecPtr \<Rightarrow> bool \<Rightarrow> 'd ReorderBuffer \<times> TransactionId option \<times> bool" where
  "ReorderBufferTXNByXid rb x create lsn create_as_top =
     (let hit = (by_txn_last_xid rb \<noteq> InvalidTransactionId \<and> by_txn_last_xid rb = x)
      in if hit \<and> by_txn_last_txn rb \<noteq> None then (rb, by_txn_last_txn rb, False)
         else if hit \<and> \<not> create then (rb, None, False)
         else
           let found = (by_txn rb x \<noteq> None);
               rb' = (if \<not> found \<and> create
                  then let rb' = rb\<lparr>by_txn := (by_txn rb)(x \<mapsto>
                         ReorderBufferGetTXN\<lparr>xid := x, first_lsn := lsn,
                           restart_decoding_lsn := current_restart_decoding_lsn rb\<rparr>)\<rparr>
                       in if create_as_top then rb'\<lparr>toplevel_by_lsn := toplevel_by_lsn rb' @ [x]\<rparr> else rb'
                  else rb);
               txn = (if found \<or> create then Some x else None)
           in (rb'\<lparr>by_txn_last_xid := x, by_txn_last_txn := txn\<rparr>, txn, \<not> found))"

section \<open>Spilling to disk\<close>

text \<open>\<open>open\<close> with \<open>O_CREAT | O_APPEND\<close>.\<close>

definition open_append :: "'d ReorderBuffer \<Rightarrow> TransactionId \<times> XLogSegNo \<Rightarrow> 'd ReorderBuffer" where
  "open_append rb f = (if spill rb f = None then rb\<lparr>spill := (spill rb)(f \<mapsto> [])\<rparr> else rb)"

definition ReorderBufferSerializeChange ::
  "'d ReorderBuffer \<Rightarrow> TransactionId \<Rightarrow> XLogSegNo \<Rightarrow> 'd ReorderBufferChange \<Rightarrow> 'd ReorderBuffer" where
  "ReorderBufferSerializeChange rb x fd change =
     upd_txn x (\<lambda>t. if final_lsn t < chg_lsn change then t\<lparr>final_lsn := chg_lsn change\<rparr> else t)
       (rb\<lparr>spill := (spill rb)((x, fd) := map_option (\<lambda>f. f @ [change]) (spill rb (x, fd)))\<rparr>)"

text \<open>One change of the change stream; \<open>fd\<close> is the segment whose file is open, \<open>None\<close> for -1.\<close>

definition serialize_step ::
  "decoding_config \<Rightarrow> TransactionId \<Rightarrow> 'd ReorderBufferChange \<Rightarrow>
   'd ReorderBuffer \<times> XLogSegNo option \<Rightarrow> 'd ReorderBuffer \<times> XLogSegNo option" where
  "serialize_step cfg x change s =
     (case s of (rb, fd) \<Rightarrow>
        let curOpenSegNo = chg_lsn change div XLogSegSize cfg;
            rb = (if fd = None \<or> fd \<noteq> Some curOpenSegNo then open_append rb (x, curOpenSegNo) else rb);
            rb = ReorderBufferSerializeChange rb x curOpenSegNo change;
            rb = upd_txn x (\<lambda>t. t\<lparr>changes := tl (changes t)\<rparr>) rb
        in (ReorderBufferReturnChange cfg rb change, Some curOpenSegNo))"

definition serialize_changes :: "decoding_config \<Rightarrow> 'd ReorderBuffer \<Rightarrow> TransactionId \<Rightarrow> 'd ReorderBuffer option" where
  "serialize_changes cfg rb x =
     (case by_txn rb x of None \<Rightarrow> None
      | Some t \<Rightarrow> Some (upd_txn x (\<lambda>t. t\<lparr>serialized := True, nentries_mem := 0\<rparr>)
                     (fst (fold (serialize_step cfg x) (changes t) (rb, None)))))"

fun serialize_txn :: "nat \<Rightarrow> decoding_config \<Rightarrow> TransactionId \<Rightarrow> 'd ReorderBuffer \<Rightarrow> 'd ReorderBuffer option" where
  "serialize_txn 0 cfg x rb = None"
| "serialize_txn (Suc depth) cfg x rb =
     do { t \<leftarrow> by_txn rb x;
          rb \<leftarrow> foldM (serialize_txn depth cfg) (subtxns t) rb;
          serialize_changes cfg rb x }"

definition ReorderBufferSerializeTXN :: "decoding_config \<Rightarrow> 'd ReorderBuffer \<Rightarrow> TransactionId \<Rightarrow> 'd ReorderBuffer option" where
  "ReorderBufferSerializeTXN cfg rb x = serialize_txn 2 cfg x rb"

definition must_serialize :: "decoding_config \<Rightarrow> 'd ReorderBuffer \<Rightarrow> 'd ReorderBufferTXN \<Rightarrow> bool" where
  "must_serialize cfg rb t \<longleftrightarrow>
     nentries_mem t \<ge> max_changes_in_memory cfg \<or>
     (case plugin_limits cfg of None \<Rightarrow> False
      | Some (max_txn_in_memory, max_reorderbuffer_in_memory) \<Rightarrow>
          (max_txn_in_memory > 0 \<and> txn_size t \<ge> of_nat (max_txn_in_memory * sizeMB)) \<or>
          (max_reorderbuffer_in_memory > 0 \<and> rb_size rb \<ge> of_nat (max_reorderbuffer_in_memory * sizeGB)))"

definition ReorderBufferCheckSerializeTXN ::
  "decoding_config \<Rightarrow> 'd ReorderBuffer \<Rightarrow> TransactionId \<Rightarrow> 'd ReorderBuffer option" where
  "ReorderBufferCheckSerializeTXN cfg rb x =
     do { t \<leftarrow> by_txn rb x;
          if must_serialize cfg rb t then ReorderBufferSerializeTXN cfg rb x else Some rb }"

text \<open>
  \<open>ReorderBufferRestoreChange\<close> puts a change read from disk at the tail of the list. The file
  descriptor of an open spill file is the number of changes read from it, \<open>None\<close> for -1; the
  file is the one of the current segment.
\<close>

definition ReorderBufferRestoreChange ::
  "decoding_config \<Rightarrow> 'd ReorderBuffer \<Rightarrow> TransactionId \<Rightarrow> 'd ReorderBufferChange \<Rightarrow> 'd ReorderBuffer" where
  "ReorderBufferRestoreChange cfg rb x change =
     ReorderBufferUpdateMemory cfg
       (upd_txn x (\<lambda>t. t\<lparr>changes := changes t @ [change], nentries_mem := nentries_mem t + 1\<rparr>) rb) change True"

function restore_loop ::
  "decoding_config \<Rightarrow> TransactionId \<Rightarrow> XLogSegNo \<Rightarrow> XLogSegNo \<Rightarrow> 'd ReorderBuffer \<Rightarrow> nat \<Rightarrow> nat option \<Rightarrow> XLogSegNo \<Rightarrow>
   'd ReorderBuffer \<times> nat \<times> nat option \<times> XLogSegNo" where
  "restore_loop cfg x first_segno last_segno rb restored fd segno =
     (if restored < max_changes_in_memory cfg \<and> segno \<le> last_segno then
        let segno' = (if fd = None \<and> segno = 0 then first_segno else segno)
        in if fd = None \<and> spill rb (x, segno') = None
           then restore_loop cfg x first_segno last_segno rb restored None (segno' + 1)
           else
             let pos = (case fd of None \<Rightarrow> 0 | Some pos \<Rightarrow> pos);
                 file = (case spill rb (x, segno') of None \<Rightarrow> [] | Some file \<Rightarrow> file)
             in if length file \<le> pos
                then restore_loop cfg x first_segno last_segno rb restored None (segno' + 1)
                else restore_loop cfg x first_segno last_segno
                       (ReorderBufferRestoreChange cfg rb x (file ! pos)) (restored + 1) (Some (pos + 1)) segno'
      else (rb, restored, fd, segno))"
  by pat_completeness auto
termination
  by (relation "measure (\<lambda>(cfg, x, first, last, rb, restored, fd, segno).
        (max_changes_in_memory cfg - restored) + (Suc last - segno))") (auto split: if_splits)

declare restore_loop.simps [simp del]

definition ReorderBufferRestoreChanges ::
  "decoding_config \<Rightarrow> 'd ReorderBuffer \<Rightarrow> TransactionId \<Rightarrow> nat option \<Rightarrow> XLogSegNo \<Rightarrow>
   ('d ReorderBuffer \<times> nat \<times> nat option \<times> XLogSegNo) option" where
  "ReorderBufferRestoreChanges cfg rb x fd segno =
     (case by_txn rb x of None \<Rightarrow> None
      | Some t \<Rightarrow>
          let rb = fold (\<lambda>c rb. ReorderBufferReturnChange cfg (upd_txn x (\<lambda>t. t\<lparr>changes := tl (changes t)\<rparr>) rb) c)
                     (changes t) rb;
              rb = upd_txn x (\<lambda>t. t\<lparr>nentries_mem := 0\<rparr>) rb
          in Some (restore_loop cfg x (first_lsn t div XLogSegSize cfg) (final_lsn t div XLogSegSize cfg) rb 0 fd segno))"

section \<open>Queueing changes\<close>

definition ReorderBufferQueueChange ::
  "decoding_config \<Rightarrow> 'd ReorderBuffer \<Rightarrow> TransactionId \<Rightarrow> XLogRecPtr \<Rightarrow> 'd ReorderBufferChange \<Rightarrow> 'd ReorderBuffer option" where
  "ReorderBufferQueueChange cfg rb x lsn change =
     (case ReorderBufferTXNByXid rb x True lsn True of
        (rb, Some txn, _) \<Rightarrow>
          let change = change\<lparr>chg_lsn := lsn, chg_txn := txn\<rparr>;
              rb = upd_txn txn (\<lambda>t. t\<lparr>changes := changes t @ [change], nentries := nentries t + 1,
                                      nentries_mem := nentries_mem t + 1\<rparr>) rb;
              rb = ReorderBufferUpdateMemory cfg rb change True
          in ReorderBufferCheckSerializeTXN cfg rb txn
      | (rb, None, _) \<Rightarrow> None)"

text \<open>The last change is unlinked and freed; the memory counters are left as they are.\<close>

definition ReorderBufferRemoveChangeForUpsert ::
  "'d ReorderBuffer \<Rightarrow> TransactionId \<Rightarrow> XLogRecPtr \<Rightarrow> 'd ReorderBuffer option" where
  "ReorderBufferRemoveChangeForUpsert rb x lsn =
     (case ReorderBufferTXNByXid rb x True lsn True of
        (rb, Some txn, _) \<Rightarrow>
          do { t \<leftarrow> by_txn rb txn;
               if changes t = [] then None
               else Some (upd_txn txn (\<lambda>t. t\<lparr>changes := butlast (changes t), nentries := nentries t - 1,
                                             nentries_mem := nentries_mem t - 1\<rparr>) rb) }
      | (rb, None, _) \<Rightarrow> None)"

definition new_change :: "'d ReorderBufferChangeData \<Rightarrow> 'd ReorderBufferChange" where
  "new_change data = \<lparr>chg_lsn = 0, chg_txn = 0, origin_id = 0, chg_data = data\<rparr>"

definition ReorderBufferQueueDDLMessage ::
  "decoding_config \<Rightarrow> 'd ReorderBuffer \<Rightarrow> TransactionId \<Rightarrow> XLogRecPtr \<Rightarrow> string \<Rightarrow> string \<Rightarrow> nat \<Rightarrow> nat \<Rightarrow> 'd ReorderBuffer option" where
  "ReorderBufferQueueDDLMessage cfg rb x lsn prefix message relid cmdtype =
     ReorderBufferQueueChange cfg rb x lsn (new_change (REORDER_BUFFER_CHANGE_DDL prefix message relid cmdtype))"

definition ReorderBufferAddSnapshot ::
  "decoding_config \<Rightarrow> 'd ReorderBuffer \<Rightarrow> TransactionId \<Rightarrow> XLogRecPtr \<Rightarrow> Snapshot \<Rightarrow> 'd ReorderBuffer option" where
  "ReorderBufferAddSnapshot cfg rb x lsn snap =
     ReorderBufferQueueChange cfg rb x lsn (new_change (REORDER_BUFFER_CHANGE_INTERNAL_SNAPSHOT snap))"

definition ReorderBufferAddNewCommandId ::
  "decoding_config \<Rightarrow> 'd ReorderBuffer \<Rightarrow> TransactionId \<Rightarrow> XLogRecPtr \<Rightarrow> nat \<Rightarrow> 'd ReorderBuffer option" where
  "ReorderBufferAddNewCommandId cfg rb x lsn cid =
     ReorderBufferQueueChange cfg rb x lsn (new_change (REORDER_BUFFER_CHANGE_INTERNAL_COMMAND_ID cid))"

definition ReorderBufferAddNewTupleCids ::
  "'d ReorderBuffer \<Rightarrow> TransactionId \<Rightarrow> XLogRecPtr \<Rightarrow> 'd \<Rightarrow> 'd ReorderBuffer option" where
  "ReorderBufferAddNewTupleCids rb x lsn tuplecid =
     (case ReorderBufferTXNByXid rb x True lsn True of
        (rb, Some txn, _) \<Rightarrow>
          let change = \<lparr>chg_lsn = lsn, chg_txn = txn, origin_id = 0, chg_data = REORDER_BUFFER_CHANGE_INTERNAL_TUPLECID tuplecid\<rparr>
          in Some (upd_txn txn (\<lambda>t. t\<lparr>tuplecids := tuplecids t @ [change], ntuplecids := ntuplecids t + 1\<rparr>) rb)
      | (rb, None, _) \<Rightarrow> None)"

definition ReorderBufferProcessXid :: "'d ReorderBuffer \<Rightarrow> TransactionId \<Rightarrow> XLogRecPtr \<Rightarrow> 'd ReorderBuffer" where
  "ReorderBufferProcessXid rb x lsn =
     (if x \<noteq> InvalidTransactionId then fst (ReorderBufferTXNByXid rb x True lsn True) else rb)"

definition ReorderBufferAddInvalidations ::
  "'d ReorderBuffer \<Rightarrow> TransactionId \<Rightarrow> XLogRecPtr \<Rightarrow> 'd list \<Rightarrow> 'd ReorderBuffer result option" where
  "ReorderBufferAddInvalidations rb x lsn msgs =
     (case ReorderBufferTXNByXid rb x True lsn True of
        (rb, Some txn, _) \<Rightarrow>
          do { t \<leftarrow> by_txn rb txn;
               if length (invalidations t) \<noteq> 0 then Some (Inl ERRCODE_FEATURE_NOT_SUPPORTED)
               else Some (Inr (upd_txn txn (\<lambda>t. t\<lparr>invalidations := msgs\<rparr>) rb)) }
      | (rb, None, _) \<Rightarrow> None)"

definition ReorderBufferXidSetCatalogChanges ::
  "'d ReorderBuffer \<Rightarrow> TransactionId \<Rightarrow> XLogRecPtr \<Rightarrow> 'd ReorderBuffer option" where
  "ReorderBufferXidSetCatalogChanges rb x lsn =
     (case ReorderBufferTXNByXid rb x True lsn True of
        (rb, Some txn, _) \<Rightarrow> Some (upd_txn txn (\<lambda>t. t\<lparr>has_catalog_changes := True\<rparr>) rb)
      | (rb, None, _) \<Rightarrow> None)"

definition ReorderBufferXidHasCatalogChanges ::
  "'d ReorderBuffer \<Rightarrow> TransactionId \<Rightarrow> ('d ReorderBuffer \<times> bool) option" where
  "ReorderBufferXidHasCatalogChanges rb x =
     (case ReorderBufferTXNByXid rb x False InvalidXLogRecPtr False of
        (rb, Some txn, _) \<Rightarrow> do { t \<leftarrow> by_txn rb txn; Some (rb, has_catalog_changes t) }
      | (rb, None, _) \<Rightarrow> Some (rb, False))"

section \<open>Snapshots and subtransactions\<close>

text \<open>The two list walks of \<open>AssertTXNLsnOrder\<close>.\<close>

fun toplevel_order_ok :: "'d ReorderBuffer \<Rightarrow> XLogRecPtr \<Rightarrow> TransactionId list \<Rightarrow> bool" where
  "toplevel_order_ok rb prev_first_lsn [] \<longleftrightarrow> True"
| "toplevel_order_ok rb prev_first_lsn (x # xs) \<longleftrightarrow>
     (case by_txn rb x of None \<Rightarrow> False
      | Some cur_txn \<Rightarrow>
          first_lsn cur_txn \<noteq> InvalidXLogRecPtr \<and>
          (end_lsn cur_txn \<noteq> InvalidXLogRecPtr \<longrightarrow> first_lsn cur_txn \<le> end_lsn cur_txn) \<and>
          (prev_first_lsn \<noteq> InvalidXLogRecPtr \<longrightarrow> prev_first_lsn \<le> first_lsn cur_txn) \<and>
          \<not> is_known_as_subxact cur_txn \<and> toplevel_order_ok rb (first_lsn cur_txn) xs)"

fun base_snapshot_order_ok :: "'d ReorderBuffer \<Rightarrow> XLogRecPtr \<Rightarrow> TransactionId list \<Rightarrow> bool" where
  "base_snapshot_order_ok rb prev_base_snap_lsn [] \<longleftrightarrow> True"
| "base_snapshot_order_ok rb prev_base_snap_lsn (x # xs) \<longleftrightarrow>
     (case by_txn rb x of None \<Rightarrow> False
      | Some cur_txn \<Rightarrow>
          base_snapshot cur_txn \<noteq> None \<and> base_snapshot_lsn cur_txn \<noteq> InvalidXLogRecPtr \<and>
          (prev_base_snap_lsn \<noteq> InvalidXLogRecPtr \<longrightarrow> prev_base_snap_lsn < base_snapshot_lsn cur_txn) \<and>
          \<not> is_known_as_subxact cur_txn \<and> base_snapshot_order_ok rb (base_snapshot_lsn cur_txn) xs)"

definition AssertTXNLsnOrder :: "'d ReorderBuffer \<Rightarrow> bool" where
  "AssertTXNLsnOrder rb \<longleftrightarrow>
     toplevel_order_ok rb InvalidXLogRecPtr (toplevel_by_lsn rb) \<and>
     base_snapshot_order_ok rb InvalidXLogRecPtr (txns_by_base_snapshot_lsn rb)"

definition ReorderBufferGetOldestTXN :: "'d ReorderBuffer \<Rightarrow> TransactionId option" where
  "ReorderBufferGetOldestTXN rb = (case toplevel_by_lsn rb of [] \<Rightarrow> None | x # _ \<Rightarrow> Some x)"

definition ReorderBufferGetOldestXmin :: "'d ReorderBuffer \<Rightarrow> TransactionId option" where
  "ReorderBufferGetOldestXmin rb =
     (case txns_by_base_snapshot_lsn rb of [] \<Rightarrow> Some InvalidTransactionId
      | x # _ \<Rightarrow> do { t \<leftarrow> by_txn rb x; snap \<leftarrow> base_snapshot t; Some (snap_xmin snap) })"

definition ReorderBufferSetRestartPoint :: "'d ReorderBuffer \<Rightarrow> XLogRecPtr \<Rightarrow> 'd ReorderBuffer" where
  "ReorderBufferSetRestartPoint rb ptr = rb\<lparr>current_restart_decoding_lsn := ptr\<rparr>"

definition ReorderBufferSetBaseSnapshot ::
  "'d ReorderBuffer \<Rightarrow> TransactionId \<Rightarrow> XLogRecPtr \<Rightarrow> Snapshot \<Rightarrow> 'd ReorderBuffer result option" where
  "ReorderBufferSetBaseSnapshot rb x lsn snap =
     (case ReorderBufferTXNByXid rb x True lsn True of
        (rb, None, _) \<Rightarrow> Some (Inl ERRCODE_FEATURE_NOT_SUPPORTED)
      | (rb, Some txn, _) \<Rightarrow>
          do { t \<leftarrow> by_txn rb txn;
               (case (if is_known_as_subxact t
                      then ReorderBufferTXNByXid rb (toplevel_xid t) False InvalidXLogRecPtr False
                      else (rb, Some txn, False)) of
                  (rb, None, _) \<Rightarrow> Some (Inl ERRCODE_FEATURE_NOT_SUPPORTED)
                | (rb, Some txn, _) \<Rightarrow>
                    Some (Inr ((upd_txn txn (\<lambda>t. t\<lparr>base_snapshot := Some snap, base_snapshot_lsn := lsn\<rparr>) rb)
                      \<lparr>txns_by_base_snapshot_lsn := txns_by_base_snapshot_lsn rb @ [txn]\<rparr>))) })"

definition ReorderBufferXidHasBaseSnapshot ::
  "'d ReorderBuffer \<Rightarrow> TransactionId \<Rightarrow> ('d ReorderBuffer \<times> bool) option" where
  "ReorderBufferXidHasBaseSnapshot rb x =
     (case ReorderBufferTXNByXid rb x False InvalidXLogRecPtr False of
        (rb, None, _) \<Rightarrow> Some (rb, False)
      | (rb, Some txn, _) \<Rightarrow>
          do { t \<leftarrow> by_txn rb txn;
               (case (if is_known_as_subxact t
                      then ReorderBufferTXNByXid rb (toplevel_xid t) False InvalidXLogRecPtr False
                      else (rb, Some txn, False)) of
                  (rb, None, _) \<Rightarrow> Some (rb, False)
                | (rb, Some txn, _) \<Rightarrow> do { t \<leftarrow> by_txn rb txn; Some (rb, base_snapshot t \<noteq> None) }) })"

text \<open>\<open>dlist_insert_before\<close>: a node goes in front of one that is in the list.\<close>

fun insert_before :: "'a \<Rightarrow> 'a \<Rightarrow> 'a list \<Rightarrow> 'a list" where
  "insert_before before x [] = []"
| "insert_before before x (y # ys) = (if y = before then x # y # ys else y # insert_before before x ys)"

definition ReorderBufferTransferSnapToParent ::
  "'d ReorderBuffer \<Rightarrow> TransactionId \<Rightarrow> TransactionId \<Rightarrow> 'd ReorderBuffer option" where
  "ReorderBufferTransferSnapToParent rb txn subtxn =
     do { t \<leftarrow> by_txn rb txn; sub \<leftarrow> by_txn rb subtxn;
          if base_snapshot sub = None then Some rb
          else if base_snapshot t = None \<or> base_snapshot_lsn sub < base_snapshot_lsn t
          then let snaps = txns_by_base_snapshot_lsn rb;
                   snaps = (if base_snapshot t \<noteq> None then remove1 txn snaps else snaps);
                   rb = upd_txn txn (\<lambda>t. t\<lparr>base_snapshot := base_snapshot sub, base_snapshot_lsn := base_snapshot_lsn sub\<rparr>) rb;
                   snaps = insert_before subtxn txn snaps;
                   rb = upd_txn subtxn (\<lambda>t. t\<lparr>base_snapshot := None, base_snapshot_lsn := InvalidXLogRecPtr\<rparr>) rb
               in Some (rb\<lparr>txns_by_base_snapshot_lsn := remove1 subtxn snaps\<rparr>)
          else let rb = upd_txn subtxn (\<lambda>t. t\<lparr>base_snapshot := None, base_snapshot_lsn := InvalidXLogRecPtr\<rparr>) rb
               in Some (rb\<lparr>txns_by_base_snapshot_lsn := remove1 subtxn (txns_by_base_snapshot_lsn rb)\<rparr>) }"

definition ReorderBufferAssignChild ::
  "'d ReorderBuffer \<Rightarrow> TransactionId \<Rightarrow> TransactionId \<Rightarrow> XLogRecPtr \<Rightarrow> 'd ReorderBuffer option" where
  "ReorderBufferAssignChild rb x subxid lsn =
     (case ReorderBufferTXNByXid rb x True lsn True of
        (rb, None, _) \<Rightarrow> None
      | (rb, Some txn, _) \<Rightarrow>
          (case ReorderBufferTXNByXid rb subxid True lsn False of
             (rb, None, _) \<Rightarrow> None
           | (rb, Some subtxn, new_sub) \<Rightarrow>
               do { sub \<leftarrow> by_txn rb subtxn;
                    if \<not> new_sub \<and> is_known_as_subxact sub then Some rb
                    else
                      let rb = (if new_sub then rb
                                else rb\<lparr>toplevel_by_lsn := remove1 subtxn (toplevel_by_lsn rb)\<rparr>);
                          rb = upd_txn subtxn (\<lambda>t. t\<lparr>is_known_as_subxact := True, toplevel_xid := x\<rparr>) rb;
                          rb = upd_txn txn (\<lambda>t. t\<lparr>subtxns := subtxns t @ [subtxn], nsubtxns := nsubtxns t + 1\<rparr>) rb
                      in ReorderBufferTransferSnapToParent rb txn subtxn }))"

definition ReorderBufferCommitChild ::
  "'d ReorderBuffer \<Rightarrow> TransactionId \<Rightarrow> TransactionId \<Rightarrow> XLogRecPtr \<Rightarrow> XLogRecPtr \<Rightarrow> 'd ReorderBuffer option" where
  "ReorderBufferCommitChild rb x subxid commit_lsn end_lsn' =
     (case ReorderBufferTXNByXid rb subxid False InvalidXLogRecPtr False of
        (rb, None, _) \<Rightarrow> Some rb
      | (rb, Some subtxn, _) \<Rightarrow>
          ReorderBufferAssignChild (upd_txn subtxn (\<lambda>t. t\<lparr>final_lsn := commit_lsn, end_lsn := end_lsn'\<rparr>) rb)
            x subxid InvalidXLogRecPtr)"

section \<open>The merging iterator\<close>

text \<open>\<open>ent_change\<close> is the position of the change in the list of its transaction.\<close>

record ReorderBufferIterTXNEntry =
  ent_lsn :: XLogRecPtr
  ent_change :: nat
  ent_txn :: TransactionId
  ent_fd :: "nat option"
  ent_segno :: XLogSegNo

record 'd ReorderBufferIterTXNState =
  iter_heap :: "nat binaryheap"
  nr_txns :: nat
  old_change :: "'d ReorderBufferChange list"
  entries :: "ReorderBufferIterTXNEntry list"

definition ReorderBufferIterCompare :: "ReorderBufferIterTXNEntry list \<Rightarrow> nat \<Rightarrow> nat \<Rightarrow> int" where
  "ReorderBufferIterCompare ents a b =
     (let pos_a = ent_lsn (ents ! a); pos_b = ent_lsn (ents ! b)
      in if pos_a < pos_b then 1 else if pos_a = pos_b then 0 else - 1)"

text \<open>The heap's comparator reads the iterator state its argument points to.\<close>

definition set_entry :: "nat \<Rightarrow> (ReorderBufferIterTXNEntry \<Rightarrow> ReorderBufferIterTXNEntry) \<Rightarrow>
   'd ReorderBufferIterTXNState \<Rightarrow> 'd ReorderBufferIterTXNState" where
  "set_entry off f state =
     (let ents = (entries state)[off := f (entries state ! off)]
      in state\<lparr>entries := ents, iter_heap := (iter_heap state)\<lparr>bh_compare := ReorderBufferIterCompare ents\<rparr>\<rparr>)"

definition iter_add_txn ::
  "decoding_config \<Rightarrow> TransactionId \<Rightarrow> 'd ReorderBuffer \<times> 'd ReorderBufferIterTXNState \<times> nat \<Rightarrow>
   ('d ReorderBuffer \<times> 'd ReorderBufferIterTXNState \<times> nat) option" where
  "iter_add_txn cfg x s =
     (case s of (rb, state, off) \<Rightarrow>
        do { t \<leftarrow> by_txn rb x;
             if nentries t > 0 then
               do { (rb, fd, segno) \<leftarrow>
                      (if serialized t then
                         do { rb \<leftarrow> ReorderBufferSerializeTXN cfg rb x;
                              (rb, _, fd, segno) \<leftarrow> ReorderBufferRestoreChanges cfg rb x
                                 (ent_fd (entries state ! off)) (ent_segno (entries state ! off));
                              Some (rb, fd, segno) }
                       else Some (rb, ent_fd (entries state ! off), ent_segno (entries state ! off)));
                    t \<leftarrow> by_txn rb x;
                    (case changes t of [] \<Rightarrow> None
                     | cur_change # _ \<Rightarrow>
                         let state = set_entry off (\<lambda>_. \<lparr>ent_lsn = chg_lsn cur_change, ent_change = 0, ent_txn = x,
                                                        ent_fd = fd, ent_segno = segno\<rparr>) state
                         in (case binaryheap_add_unordered (iter_heap state) off of
                               Inl _ \<Rightarrow> None
                             | Inr heap \<Rightarrow> Some (rb, state\<lparr>iter_heap := heap\<rparr>, off + 1))) }
             else Some (rb, state, off) })"

definition has_entries :: "'d ReorderBuffer \<Rightarrow> TransactionId \<Rightarrow> bool" where
  "has_entries rb x = (case by_txn rb x of None \<Rightarrow> False | Some t \<Rightarrow> nentries t > 0)"

definition iter_empty :: "nat \<Rightarrow> 'd ReorderBufferIterTXNState" where
  "iter_empty n =
     (let ents = replicate n \<lparr>ent_lsn = 0, ent_change = 0, ent_txn = 0, ent_fd = None, ent_segno = 0\<rparr>
      in \<lparr>iter_heap = binaryheap_allocate n (ReorderBufferIterCompare ents) (replicate n 0), nr_txns = n,
          old_change = [], entries = ents\<rparr>)"

definition ReorderBufferIterTXNInit ::
  "decoding_config \<Rightarrow> 'd ReorderBuffer \<Rightarrow> TransactionId \<Rightarrow> ('d ReorderBuffer \<times> 'd ReorderBufferIterTXNState) option" where
  "ReorderBufferIterTXNInit cfg rb x =
     do { t \<leftarrow> by_txn rb x;
          let n = length (filter (has_entries rb) (x # subtxns t));
          s \<leftarrow> iter_add_txn cfg x (rb, iter_empty n, 0);
          (rb, state, _) \<leftarrow> foldM (iter_add_txn cfg) (subtxns t) s;
          Some (rb, state\<lparr>iter_heap := binaryheap_build (iter_heap state)\<rparr>) }"

text \<open>The result is the change, \<open>None\<close> for NULL, and the state after the call.\<close>

definition ReorderBufferIterTXNNext ::
  "decoding_config \<Rightarrow> 'd ReorderBuffer \<Rightarrow> 'd ReorderBufferIterTXNState \<Rightarrow>
   ('d ReorderBufferChange option \<times> 'd ReorderBuffer \<times> 'd ReorderBufferIterTXNState) option" where
  "ReorderBufferIterTXNNext cfg rb state =
     (if bh_size (iter_heap state) = 0 then Some (None, rb, state)
      else
        let off = binaryheap_first (iter_heap state);
            entry = entries state ! off;
            (rb, state) = (case old_change state of [] \<Rightarrow> (rb, state)
              | change # rest \<Rightarrow> (ReorderBufferReturnChange cfg rb change, state\<lparr>old_change := rest\<rparr>))
        in do { t \<leftarrow> by_txn rb (ent_txn entry);
                let change = changes t ! ent_change entry;
                if ent_change entry + 1 < length (changes t) then
                  let state = set_entry off (\<lambda>e. e\<lparr>ent_lsn := chg_lsn (changes t ! (ent_change entry + 1)),
                                                  ent_change := ent_change entry + 1\<rparr>) state
                  in Some (Some change, rb, state\<lparr>iter_heap := binaryheap_replace_first (iter_heap state) off\<rparr>)
                else if nentries t \<noteq> nentries_mem t then
                  let n = ent_change entry;
                      rb = upd_txn (ent_txn entry) (\<lambda>t. t\<lparr>changes := take n (changes t) @ drop (n + 1) (changes t)\<rparr>) rb;
                      state = state\<lparr>old_change := old_change state @ [change]\<rparr>
                  in do { (rb, restored, fd, segno) \<leftarrow>
                            ReorderBufferRestoreChanges cfg rb (ent_txn entry) (ent_fd entry) (ent_segno entry);
                          let state = set_entry off (\<lambda>e. e\<lparr>ent_fd := fd, ent_segno := segno\<rparr>) state;
                          t \<leftarrow> by_txn rb (ent_txn entry);
                          (if restored > 0 then
                             (case changes t of [] \<Rightarrow> None
                              | next_change # _ \<Rightarrow>
                                  let state = set_entry off (\<lambda>e. e\<lparr>ent_lsn := chg_lsn next_change, ent_change := 0\<rparr>) state
                                  in Some (Some change, rb,
                                       state\<lparr>iter_heap := binaryheap_replace_first (iter_heap state) off\<rparr>))
                           else Some (Some change, rb,
                                  state\<lparr>iter_heap := snd (binaryheap_remove_first (iter_heap state))\<rparr>)) }
                else Some (Some change, rb, state\<lparr>iter_heap := snd (binaryheap_remove_first (iter_heap state))\<rparr>) })"

definition ReorderBufferIterTXNFinish ::
  "decoding_config \<Rightarrow> 'd ReorderBuffer \<Rightarrow> 'd ReorderBufferIterTXNState \<Rightarrow> 'd ReorderBuffer" where
  "ReorderBufferIterTXNFinish cfg rb state =
     (case old_change state of [] \<Rightarrow> rb | change # _ \<Rightarrow> ReorderBufferReturnChange cfg rb change)"

section \<open>Cleanup\<close>

definition ReorderBufferRestoreCleanup ::
  "decoding_config \<Rightarrow> 'd ReorderBuffer \<Rightarrow> 'd ReorderBufferTXN \<Rightarrow> XLogRecPtr \<Rightarrow> 'd ReorderBuffer" where
  "ReorderBufferRestoreCleanup cfg rb t lsn =
     (let final = (if final_lsn t = InvalidXLogRecPtr then lsn else final_lsn t);
          first_seg = first_lsn t div XLogSegSize cfg; last_seg = final div XLogSegSize cfg
      in fold (\<lambda>cur rb. rb\<lparr>spill := (spill rb)((xid t, cur) := None)\<rparr>) [first_seg..<Suc last_seg] rb)"

text \<open>\<open>dlist_delete(&txn->node)\<close>: the list that holds the node depends on \<open>is_known_as_subxact\<close>.\<close>

definition delete_txn_node :: "'d ReorderBuffer \<Rightarrow> 'd ReorderBufferTXN \<Rightarrow> 'd ReorderBuffer" where
  "delete_txn_node rb t =
     (if is_known_as_subxact t
      then upd_txn (toplevel_xid t) (\<lambda>p. p\<lparr>subtxns := remove1 (xid t) (subtxns p)\<rparr>) rb
      else rb\<lparr>toplevel_by_lsn := remove1 (xid t) (toplevel_by_lsn rb)\<rparr>)"

text \<open>What \<open>ReorderBufferCleanupTXN\<close> does for the transaction itself, after its subtransactions.\<close>

definition cleanup_node ::
  "decoding_config \<Rightarrow> XLogRecPtr \<Rightarrow> TransactionId \<Rightarrow> 'd ReorderBufferTXN \<Rightarrow> 'd ReorderBuffer \<Rightarrow> 'd ReorderBuffer" where
  "cleanup_node cfg lsn x t rb =
     (let rb = fold (\<lambda>c rb. ReorderBufferReturnChange cfg rb c) (changes t) rb;
          rb = fold (\<lambda>c rb. ReorderBufferReturnChange cfg rb c) (tuplecids t) rb;
          rb = (if base_snapshot t \<noteq> None
                then rb\<lparr>txns_by_base_snapshot_lsn := remove1 x (txns_by_base_snapshot_lsn rb)\<rparr> else rb);
          rb = delete_txn_node rb t;
          rb = rb\<lparr>by_txn := (by_txn rb)(x := None)\<rparr>;
          rb = (if serialized t then ReorderBufferRestoreCleanup cfg rb t lsn else rb)
      in ReorderBufferReturnTXN rb x)"

fun cleanup_txn ::
  "nat \<Rightarrow> decoding_config \<Rightarrow> XLogRecPtr \<Rightarrow> TransactionId \<Rightarrow> 'd ReorderBuffer \<Rightarrow> 'd ReorderBuffer option" where
  "cleanup_txn 0 cfg lsn x rb = None"
| "cleanup_txn (Suc depth) cfg lsn x rb =
     do { t \<leftarrow> by_txn rb x;
          rb \<leftarrow> foldM (cleanup_txn depth cfg lsn) (subtxns t) rb;
          Some (cleanup_node cfg lsn x t rb) }"

definition ReorderBufferCleanupTXN ::
  "decoding_config \<Rightarrow> 'd ReorderBuffer \<Rightarrow> TransactionId \<Rightarrow> XLogRecPtr \<Rightarrow> 'd ReorderBuffer option" where
  "ReorderBufferCleanupTXN cfg rb x lsn = cleanup_txn 2 cfg lsn x rb"

definition ReorderBufferAbort ::
  "decoding_config \<Rightarrow> 'd ReorderBuffer \<Rightarrow> TransactionId \<Rightarrow> XLogRecPtr \<Rightarrow> 'd ReorderBuffer option" where
  "ReorderBufferAbort cfg rb x lsn =
     (case ReorderBufferTXNByXid rb x False InvalidXLogRecPtr False of
        (rb, None, _) \<Rightarrow> Some rb
      | (rb, Some txn, _) \<Rightarrow>
          ReorderBufferCleanupTXN cfg (upd_txn txn (\<lambda>t. t\<lparr>final_lsn := lsn\<rparr>) rb) txn InvalidXLogRecPtr)"

fun abort_old_loop ::
  "decoding_config \<Rightarrow> TransactionId \<Rightarrow> XLogRecPtr \<Rightarrow> TransactionId list \<Rightarrow> 'd ReorderBuffer \<Rightarrow> 'd ReorderBuffer option" where
  "abort_old_loop cfg oldestRunningXid lsn [] rb = Some rb"
| "abort_old_loop cfg oldestRunningXid lsn (x # xs) rb =
     (if x < oldestRunningXid
      then do { rb \<leftarrow> ReorderBufferCleanupTXN cfg rb x lsn; abort_old_loop cfg oldestRunningXid lsn xs rb }
      else Some rb)"

definition ReorderBufferAbortOld ::
  "decoding_config \<Rightarrow> 'd ReorderBuffer \<Rightarrow> TransactionId \<Rightarrow> XLogRecPtr \<Rightarrow> 'd ReorderBuffer option" where
  "ReorderBufferAbortOld cfg rb oldestRunningXid lsn = abort_old_loop cfg oldestRunningXid lsn (toplevel_by_lsn rb) rb"

text \<open>The result carries the invalidation messages that \<open>ReorderBufferForget\<close> executes.\<close>

definition ReorderBufferForget ::
  "decoding_config \<Rightarrow> 'd ReorderBuffer \<Rightarrow> TransactionId \<Rightarrow> XLogRecPtr \<Rightarrow> ('d ReorderBuffer \<times> 'd list) option" where
  "ReorderBufferForget cfg rb x lsn =
     (case ReorderBufferTXNByXid rb x False InvalidXLogRecPtr False of
        (rb, None, _) \<Rightarrow> Some (rb, [])
      | (rb, Some txn, _) \<Rightarrow>
          do { let rb = upd_txn txn (\<lambda>t. t\<lparr>final_lsn := lsn\<rparr>) rb;
               t \<leftarrow> by_txn rb txn;
               let executed = (if base_snapshot t \<noteq> None \<and> length (invalidations t) > 0 then invalidations t else []);
               rb \<leftarrow> ReorderBufferCleanupTXN cfg rb txn InvalidXLogRecPtr;
               Some (rb, executed) })"

end
