(* ===== verification/Reorder_Spill.thy ===== *)
theory Reorder_Spill
  imports Reorder_Buffer
begin

text \<open>
  Spilling and restoring of changes. The invariant \<open>txn_rel\<close> says that a transaction, its list
  in memory and its spill files hold a queue of changes in LSN order: the spilled part, which
  the files hold by WAL segment, followed by the part in memory. Serialising moves the part in
  memory to the end of the spilled part; restoring reads the spilled part in order, in batches
  of at most \<open>max_changes_in_memory\<close>.
\<close>

section \<open>The state without the memory counters\<close>

definition strip :: "'d ReorderBufferTXN \<Rightarrow> 'd ReorderBufferTXN" where
  "strip t = t\<lparr>txn_size := 0\<rparr>"

definition core :: "'d ReorderBuffer \<Rightarrow> TransactionId \<rightharpoonup> 'd ReorderBufferTXN" where
  "core rb x = map_option strip (by_txn rb x)"

lemma strip_simps [simp]:
  "xid (strip t) = xid t" "is_known_as_subxact (strip t) = is_known_as_subxact t"
  "toplevel_xid (strip t) = toplevel_xid t" "first_lsn (strip t) = first_lsn t"
  "final_lsn (strip t) = final_lsn t" "end_lsn (strip t) = end_lsn t"
  "restart_decoding_lsn (strip t) = restart_decoding_lsn t"
  "base_snapshot (strip t) = base_snapshot t" "base_snapshot_lsn (strip t) = base_snapshot_lsn t"
  "nentries (strip t) = nentries t" "nentries_mem (strip t) = nentries_mem t"
  "serialized (strip t) = serialized t" "changes (strip t) = changes t" "tuplecids (strip t) = tuplecids t"
  "subtxns (strip t) = subtxns t" "nsubtxns (strip t) = nsubtxns t" "invalidations (strip t) = invalidations t"
  "has_catalog_changes (strip t) = has_catalog_changes t" "ntuplecids (strip t) = ntuplecids t"
  by (simp_all add: strip_def)

lemma strip_size [simp]: "strip (t\<lparr>txn_size := n\<rparr>) = strip t"
  by (simp add: strip_def)

lemma core_Some: "by_txn rb x = Some t \<Longrightarrow> core rb x = Some (strip t)"
  by (simp add: core_def)

lemma core_eq_Some: "core rb x = Some t \<longleftrightarrow> (\<exists>t'. by_txn rb x = Some t' \<and> t = strip t')"
  by (auto simp: core_def)

lemma core_eq_None: "core rb x = None \<longleftrightarrow> by_txn rb x = None"
  by (simp add: core_def)

lemma core_upd_txn:
  "(\<And>t. strip (f t) = f (strip t)) \<Longrightarrow> core (upd_txn x f rb) = (core rb)(x := map_option f (core rb x))"
  by (auto simp: core_def upd_txn_def option.map_comp comp_def fun_eq_iff)

lemma upd_txn_rest [simp]:
  "spill (upd_txn x f rb) = spill rb" "toplevel_by_lsn (upd_txn x f rb) = toplevel_by_lsn rb"
  "txns_by_base_snapshot_lsn (upd_txn x f rb) = txns_by_base_snapshot_lsn rb"
  "by_txn_last_xid (upd_txn x f rb) = by_txn_last_xid rb" "by_txn_last_txn (upd_txn x f rb) = by_txn_last_txn rb"
  "current_restart_decoding_lsn (upd_txn x f rb) = current_restart_decoding_lsn rb" "rb_size (upd_txn x f rb) = rb_size rb"
  by (simp_all add: upd_txn_def)

lemma core_update_memory [simp]: "core (ReorderBufferUpdateMemory cfg rb c add) = core rb"
  by (auto simp: core_def fun_eq_iff ReorderBufferUpdateMemory_def Let_def upd_txn_def option.map_comp comp_def)

lemma update_memory_rest [simp]:
  "spill (ReorderBufferUpdateMemory cfg rb c add) = spill rb"
  "toplevel_by_lsn (ReorderBufferUpdateMemory cfg rb c add) = toplevel_by_lsn rb"
  "txns_by_base_snapshot_lsn (ReorderBufferUpdateMemory cfg rb c add) = txns_by_base_snapshot_lsn rb"
  "by_txn_last_xid (ReorderBufferUpdateMemory cfg rb c add) = by_txn_last_xid rb"
  "by_txn_last_txn (ReorderBufferUpdateMemory cfg rb c add) = by_txn_last_txn rb"
  "current_restart_decoding_lsn (ReorderBufferUpdateMemory cfg rb c add) = current_restart_decoding_lsn rb"
  by (simp_all add: ReorderBufferUpdateMemory_def Let_def)

lemma return_change_rest [simp]:
  "core (ReorderBufferReturnChange cfg rb c) = core rb" "spill (ReorderBufferReturnChange cfg rb c) = spill rb"
  "toplevel_by_lsn (ReorderBufferReturnChange cfg rb c) = toplevel_by_lsn rb"
  "txns_by_base_snapshot_lsn (ReorderBufferReturnChange cfg rb c) = txns_by_base_snapshot_lsn rb"
  "by_txn_last_xid (ReorderBufferReturnChange cfg rb c) = by_txn_last_xid rb"
  "by_txn_last_txn (ReorderBufferReturnChange cfg rb c) = by_txn_last_txn rb"
  "current_restart_decoding_lsn (ReorderBufferReturnChange cfg rb c) = current_restart_decoding_lsn rb"
  by (simp_all add: ReorderBufferReturnChange_def)

text \<open>Everything but transactions, files and memory counters.\<close>

definition same_lists :: "'d ReorderBuffer \<Rightarrow> 'd ReorderBuffer \<Rightarrow> bool" where
  "same_lists rb rb' \<longleftrightarrow>
     toplevel_by_lsn rb' = toplevel_by_lsn rb \<and> txns_by_base_snapshot_lsn rb' = txns_by_base_snapshot_lsn rb \<and>
     by_txn_last_xid rb' = by_txn_last_xid rb \<and> by_txn_last_txn rb' = by_txn_last_txn rb \<and>
     current_restart_decoding_lsn rb' = current_restart_decoding_lsn rb"

lemma same_lists_refl [simp]: "same_lists rb rb"
  by (simp add: same_lists_def)

lemma same_lists_trans: "same_lists a b \<Longrightarrow> same_lists b c \<Longrightarrow> same_lists a c"
  by (simp add: same_lists_def)

section \<open>Spill files\<close>

definition spill_file :: "(TransactionId \<times> XLogSegNo \<rightharpoonup> 'd ReorderBufferChange list) \<Rightarrow> TransactionId \<Rightarrow> XLogSegNo \<Rightarrow>
    'd ReorderBufferChange list" where
  "spill_file sp x s = (case sp (x, s) of None \<Rightarrow> [] | Some f \<Rightarrow> f)"

definition seg_of :: "decoding_config \<Rightarrow> 'd ReorderBufferChange \<Rightarrow> XLogSegNo" where
  "seg_of cfg c = chg_lsn c div XLogSegSize cfg"

lemma spill_file_upd: "spill_file (sp((x, s) := v)) y r = (if y = x \<and> r = s then (case v of None \<Rightarrow> [] | Some f \<Rightarrow> f) else spill_file sp y r)"
  by (simp add: spill_file_def)

text \<open>A list sorted by a key is the concatenation of its groups.\<close>

lemma filter_less_eq_append:
  fixes key :: "'a \<Rightarrow> nat"
  assumes "sorted (map key L)"
  shows "filter (\<lambda>c. key c < n) L @ filter (\<lambda>c. key c = n) L = filter (\<lambda>c. key c < Suc n) L"
  using assms
proof (induction L)
  case (Cons c L)
  have "filter (\<lambda>c. key c < n) L = []" if "n \<le> key c"
    using Cons.prems that by (force simp: filter_empty_conv)
  with Cons show ?case by (auto simp: less_Suc_eq)
qed simp

lemma concat_groups:
  fixes key :: "'a \<Rightarrow> nat"
  assumes "sorted (map key L)" "\<forall>c \<in> set L. lo \<le> key c" "lo \<le> n"
  shows "concat (map (\<lambda>s. filter (\<lambda>c. key c = s) L) [lo..<n]) = filter (\<lambda>c. key c < n) L"
  using assms(3)
proof (induction n rule: dec_induct)
  case base
  have "filter (\<lambda>c. key c < lo) L = []" using assms(2) by (auto simp: filter_empty_conv not_less)
  then show ?case by simp
next
  case (step n)
  then show ?case by (simp add: filter_less_eq_append[OF assms(1)])
qed

lemma sorted_seg: "sorted (map chg_lsn L) \<Longrightarrow> sorted (map (seg_of cfg) L)"
  by (induction L) (auto simp: seg_of_def div_le_mono)

section \<open>The queue of a transaction\<close>

text \<open>\<open>L\<close> is the spilled part of the queue.\<close>

definition txn_rel ::
  "decoding_config \<Rightarrow> (TransactionId \<times> XLogSegNo \<rightharpoonup> 'd ReorderBufferChange list) \<Rightarrow> TransactionId \<Rightarrow>
   'd ReorderBufferTXN \<Rightarrow> 'd ReorderBufferChange list \<Rightarrow> bool" where
  "txn_rel cfg sp x t L \<longleftrightarrow>
     xid t = x \<and> nentries_mem t = length (changes t) \<and> nentries t = length L + length (changes t) \<and>
     sorted (map chg_lsn (L @ changes t)) \<and>
     (\<forall>c \<in> set (L @ changes t). first_lsn t \<le> chg_lsn c \<and> chg_txn c = x) \<and>
     (\<forall>c \<in> set L. chg_lsn c \<le> final_lsn t) \<and>
     (\<forall>s. spill_file sp x s = filter (\<lambda>c. seg_of cfg c = s) L) \<and>
     (\<not> serialized t \<longrightarrow> L = [])"

lemma serialize_step_effect:
  assumes t: "core rb x = Some t" and fd: "fd \<noteq> None \<Longrightarrow> spill rb (x, the fd) \<noteq> None"
  shows "core (fst (serialize_step cfg x c (rb, fd))) =
      (core rb)(x \<mapsto> t\<lparr>final_lsn := max (final_lsn t) (chg_lsn c), changes := tl (changes t)\<rparr>)"
    and "spill_file (spill (fst (serialize_step cfg x c (rb, fd)))) y s =
      spill_file (spill rb) y s @ (if y = x \<and> seg_of cfg c = s then [c] else [])"
    and "same_lists rb (fst (serialize_step cfg x c (rb, fd)))"
    and "snd (serialize_step cfg x c (rb, fd)) = Some (seg_of cfg c)"
    and "spill (fst (serialize_step cfg x c (rb, fd))) (x, seg_of cfg c) \<noteq> None"
proof -
  let ?f = "\<lambda>t. if final_lsn t < chg_lsn c then t\<lparr>final_lsn := chg_lsn c\<rparr> else t"
  have strip: "strip (?f t) = ?f (strip t)" "strip (t\<lparr>changes := tl (changes t)\<rparr>) = strip t\<lparr>changes := tl (changes (strip t))\<rparr>"
    for t :: "'a ReorderBufferTXN" by (simp_all add: strip_def)
  have core_open: "core (open_append rb f) = core rb" "core (rb\<lparr>spill := sp\<rparr>) = core rb" for f rb and sp :: "_ \<rightharpoonup> 'a ReorderBufferChange list"
    by (auto simp: open_append_def core_def fun_eq_iff)
  show "core (fst (serialize_step cfg x c (rb, fd))) =
      (core rb)(x \<mapsto> t\<lparr>final_lsn := max (final_lsn t) (chg_lsn c), changes := tl (changes t)\<rparr>)"
    using t by (simp add: serialize_step_def Let_def core_upd_txn strip ReorderBufferSerializeChange_def core_open max_def)
  show "spill_file (spill (fst (serialize_step cfg x c (rb, fd)))) y s =
      spill_file (spill rb) y s @ (if y = x \<and> seg_of cfg c = s then [c] else [])"
    using fd by (auto simp: serialize_step_def Let_def ReorderBufferSerializeChange_def open_append_def spill_file_def seg_of_def
        split: option.splits)
  show "same_lists rb (fst (serialize_step cfg x c (rb, fd)))"
    by (simp add: serialize_step_def Let_def same_lists_def ReorderBufferSerializeChange_def open_append_def)
  show "snd (serialize_step cfg x c (rb, fd)) = Some (seg_of cfg c)"
    by (simp add: serialize_step_def Let_def seg_of_def)
  show "spill (fst (serialize_step cfg x c (rb, fd))) (x, seg_of cfg c) \<noteq> None"
    using fd by (auto simp: serialize_step_def Let_def ReorderBufferSerializeChange_def open_append_def seg_of_def)
qed

lemma serialize_fold:
  assumes "core rb x = Some t" "fd \<noteq> None \<Longrightarrow> spill rb (x, the fd) \<noteq> None"
    "rb' = fst (fold (serialize_step cfg x) cs (rb, fd))"
  shows "core rb' = (core rb)(x \<mapsto> t\<lparr>final_lsn := fold max (map chg_lsn cs) (final_lsn t),
           changes := drop (length cs) (changes t)\<rparr>) \<and>
    (\<forall>y s. spill_file (spill rb') y s = spill_file (spill rb) y s @ (if y = x then filter (\<lambda>c. seg_of cfg c = s) cs else [])) \<and>
    same_lists rb rb'"
  using assms(1,2) unfolding assms(3)
proof (induction cs arbitrary: rb fd t)
  case (Cons c cs)
  let ?s = "serialize_step cfg x c (rb, fd)"
  note step = serialize_step_effect[of rb x t fd cfg c, OF Cons.prems]
  have s: "?s = (fst ?s, Some (seg_of cfg c))" using step(4) by (metis prod.collapse)
  have "core (fst ?s) x = Some (t\<lparr>final_lsn := max (final_lsn t) (chg_lsn c), changes := tl (changes t)\<rparr>)"
    using step(1) by simp
  note IH = Cons.IH[OF this, of "Some (seg_of cfg c)"]
  have "fold (serialize_step cfg x) (c # cs) (rb, fd) = fold (serialize_step cfg x) cs (fst ?s, Some (seg_of cfg c))"
    using s by simp
  then show ?case
    using IH step s by (auto simp: drop_Suc max.commute intro: same_lists_trans)
qed (auto simp: same_lists_def fun_upd_idem)

text \<open>Serialising the changes of a transaction appends them to the spilled part.\<close>

lemma fold_max_ge: "a \<le> fold max cs (a :: nat)"
proof (induction cs arbitrary: a)
  case (Cons c cs)
  from Cons[of "max c a"] show ?case by simp
qed simp

lemma fold_max_le: "c \<in> set cs \<Longrightarrow> c \<le> fold max cs (a :: nat)"
proof (induction cs arbitrary: a)
  case (Cons b cs)
  then show ?case using fold_max_ge[of "max b a" cs] by auto
qed simp

lemma serialize_changes_correct:
  assumes t: "core rb x = Some t" and rel: "txn_rel cfg (spill rb) x t L"
  obtains rb' t' where "serialize_changes cfg rb x = Some rb'" "core rb' = (core rb)(x \<mapsto> t')"
    "txn_rel cfg (spill rb') x t' (L @ changes t)" "changes t' = []" "serialized t'"
    "\<exists>f. t' = t\<lparr>final_lsn := f, changes := [], serialized := True, nentries_mem := 0\<rparr>"
    "\<And>y s. y \<noteq> x \<Longrightarrow> spill_file (spill rb') y s = spill_file (spill rb) y s" "same_lists rb rb'"
proof -
  obtain t0 where t0: "by_txn rb x = Some t0" "t = strip t0" using t by (auto simp: core_eq_Some)
  let ?rb = "fst (fold (serialize_step cfg x) (changes t) (rb, None))"
  let ?rb' = "upd_txn x (\<lambda>t. t\<lparr>serialized := True, nentries_mem := 0\<rparr>) ?rb"
  let ?f = "fold max (map chg_lsn (changes t)) (final_lsn t)"
  let ?t' = "t\<lparr>final_lsn := ?f, changes := [], serialized := True, nentries_mem := 0\<rparr>"
  note eff = serialize_fold[OF t _ refl, of None cfg "changes t"]
  have core: "core ?rb' = (core rb)(x \<mapsto> ?t')"
    using eff by (subst core_upd_txn) (auto simp: strip_def)
  have "chg_lsn c \<le> ?f" if "c \<in> set (L @ changes t)" for c
    using that rel fold_max_le[of "chg_lsn c" "map chg_lsn (changes t)" "final_lsn t"]
      fold_max_ge[of "final_lsn t" "map chg_lsn (changes t)"] by (fastforce simp: txn_rel_def)
  moreover have "spill_file (spill ?rb) x s = filter (\<lambda>c. seg_of cfg c = s) (L @ changes t)" for s
    using rel eff by (simp add: txn_rel_def)
  ultimately have rel': "txn_rel cfg (spill ?rb') x ?t' (L @ changes t)"
    using rel by (simp add: txn_rel_def)
  show ?thesis
  proof (rule that)
    show "serialize_changes cfg rb x = Some ?rb'" using t0 by (simp add: serialize_changes_def)
    show "core ?rb' = (core rb)(x \<mapsto> ?t')" by (fact core)
    show "txn_rel cfg (spill ?rb') x ?t' (L @ changes t)" by (fact rel')
    show "same_lists rb ?rb'" using eff by (simp add: same_lists_def)
    show "spill_file (spill ?rb') y s = spill_file (spill rb) y s" if "y \<noteq> x" for y s
      using eff that by simp
  qed auto
qed

section \<open>Restoring\<close>

text \<open>What is left to read from the files of a transaction at a read position.\<close>

definition disk_rest ::
  "(XLogSegNo \<Rightarrow> 'c list) \<Rightarrow> XLogSegNo \<Rightarrow> XLogSegNo \<Rightarrow> nat option \<Rightarrow> XLogSegNo \<Rightarrow> 'c list" where
  "disk_rest F first_seg last_seg fd segno =
     (case fd of
        None \<Rightarrow> concat (map F [(if segno = 0 then first_seg else segno)..<Suc last_seg])
      | Some pos \<Rightarrow> drop pos (F segno) @ concat (map F [Suc segno..<Suc last_seg]))"

lemma disk_rest_None_Suc: "disk_rest F a b None (Suc s) = concat (map F [Suc s..<Suc b])"
  by (simp add: disk_rest_def)

lemma concat_upt_Cons: "\<lbrakk>\<And>r. b < r \<Longrightarrow> F r = []\<rbrakk> \<Longrightarrow> concat (map F [s..<Suc b]) = F s @ concat (map F [Suc s..<Suc b])"
  by (cases "s \<le> b") (auto simp: upt_conv_Cons simp del: upt_Suc)

lemma disk_rest_open:
  assumes "\<And>r. b < r \<Longrightarrow> F r = []"
  shows "disk_rest F a b fd segno =
    drop (case fd of None \<Rightarrow> 0 | Some pos \<Rightarrow> pos) (F (if fd = None \<and> segno = 0 then a else segno)) @
    concat (map F [Suc (if fd = None \<and> segno = 0 then a else segno)..<Suc b])"
  using concat_upt_Cons[of b F "if segno = 0 then a else segno", OF assms]
  by (cases fd) (simp_all add: disk_rest_def del: upt_Suc)

text \<open>The effect of the loop: \<open>k\<close> changes at most are moved from the rest on disk to the list.\<close>

definition restore_effect ::
  "TransactionId \<Rightarrow> XLogSegNo \<Rightarrow> XLogSegNo \<Rightarrow> 'd ReorderBuffer \<Rightarrow> 'd ReorderBufferTXN \<Rightarrow> 'd ReorderBufferChange list \<Rightarrow>
   nat \<Rightarrow> nat \<Rightarrow> 'd ReorderBuffer \<times> nat \<times> nat option \<times> XLogSegNo \<Rightarrow> bool" where
  "restore_effect x first_seg last_seg rb t R k restored r =
     (case r of (rb', restored', fd', segno') \<Rightarrow>
        restored' = restored + length (take k R) \<and> spill rb' = spill rb \<and> same_lists rb rb' \<and>
        core rb' = (core rb)(x \<mapsto> t\<lparr>changes := changes t @ take k R, nentries_mem := nentries_mem t + length (take k R)\<rparr>) \<and>
        disk_rest (spill_file (spill rb) x) first_seg last_seg fd' segno' = drop k R)"

lemma restore_effect_step:
  assumes "spill rb1 = spill rb" "same_lists rb rb1"
    "core rb1 = (core rb)(x \<mapsto> t\<lparr>changes := changes t @ [c], nentries_mem := nentries_mem t + 1\<rparr>)"
    "restore_effect x a b rb1 (t\<lparr>changes := changes t @ [c], nentries_mem := nentries_mem t + 1\<rparr>) R k (restored + 1) r"
  shows "restore_effect x a b rb t (c # R) (Suc k) restored r"
  using assms same_lists_trans[OF assms(2)] by (cases r) (simp add: restore_effect_def)

lemma restore_loop_correct:
  assumes "core rb x = Some t" "\<And>r. last_seg < r \<Longrightarrow> spill_file (spill rb) x r = []"
  shows "restore_effect x first_seg last_seg rb t (disk_rest (spill_file (spill rb) x) first_seg last_seg fd segno)
    (max_changes_in_memory cfg - restored) restored (restore_loop cfg x first_seg last_seg rb restored fd segno)"
  using assms
proof (induction cfg x first_seg last_seg rb restored fd segno arbitrary: t rule: restore_loop.induct)
  case (1 cfg x first_seg last_seg rb restored fd segno)
  let ?F = "spill_file (spill rb) x"
  define seg where "seg = (if fd = None \<and> segno = 0 then first_seg else segno)"
  define pos where "pos = (case fd of None \<Rightarrow> 0 | Some pos \<Rightarrow> pos)"
  have F_def: "(case spill rb (x, r) of None \<Rightarrow> [] | Some f \<Rightarrow> f) = ?F r" for r
    by (simp add: spill_file_def)
  have rest: "disk_rest ?F first_seg last_seg fd segno = drop pos (?F seg) @ concat (map ?F [Suc seg..<Suc last_seg])"
    unfolding seg_def pos_def by (rule disk_rest_open) (rule "1.prems"(2))
  have loop: "restore_loop cfg x first_seg last_seg rb restored fd segno =
     (if restored < max_changes_in_memory cfg \<and> segno \<le> last_seg then
        if (fd = None \<and> spill rb (x, seg) = None) \<or> length (?F seg) \<le> pos
        then restore_loop cfg x first_seg last_seg rb restored None (seg + 1)
        else restore_loop cfg x first_seg last_seg
               (ReorderBufferRestoreChange cfg rb x (?F seg ! pos)) (restored + 1) (Some (pos + 1)) seg
      else (rb, restored, fd, segno))"
    unfolding restore_loop.simps[of cfg x first_seg last_seg rb restored fd segno] Let_def
      seg_def[symmetric] pos_def[symmetric] F_def by simp
  consider (stop) "\<not> (restored < max_changes_in_memory cfg \<and> segno \<le> last_seg)"
    | (eof) "restored < max_changes_in_memory cfg" "segno \<le> last_seg" "length (?F seg) \<le> pos"
    | (read) "restored < max_changes_in_memory cfg" "segno \<le> last_seg" "pos < length (?F seg)"
    by linarith
  then show ?case
  proof cases
    case stop
    have "disk_rest ?F first_seg last_seg fd segno = []" if "last_seg < segno"
      using that "1.prems"(2) by (auto simp: rest seg_def)
    then have none: "max_changes_in_memory cfg \<le> restored \<or> disk_rest ?F first_seg last_seg fd segno = []"
      using stop by auto
    have "restore_loop cfg x first_seg last_seg rb restored fd segno = (rb, restored, fd, segno)"
      using stop by (simp only: loop if_False)
    with none "1.prems"(1) show ?thesis by (elim disjE) (simp_all add: restore_effect_def fun_upd_idem)
  next
    case eof
    have "disk_rest ?F first_seg last_seg fd segno = disk_rest ?F first_seg last_seg None (seg + 1)"
      using eof by (simp add: rest disk_rest_None_Suc)
    moreover have "restore_effect x first_seg last_seg rb t (disk_rest ?F first_seg last_seg None (seg + 1))
        (max_changes_in_memory cfg - restored) restored (restore_loop cfg x first_seg last_seg rb restored None (seg + 1))"
    proof (cases "fd = None \<and> spill rb (x, seg) = None")
      case True
      show ?thesis by (rule "1.IH"(1)[OF _ seg_def True "1.prems"]) (use eof in auto)
    next
      case False
      show ?thesis by (rule "1.IH"(2)[OF _ seg_def False pos_def refl _ "1.prems"]) (use eof in \<open>auto simp: F_def\<close>)
    qed
    ultimately show ?thesis using eof by (subst loop) simp
  next
    case read
    let ?c = "?F seg ! pos"
    let ?rb = "ReorderBufferRestoreChange cfg rb x ?c"
    let ?t = "t\<lparr>changes := changes t @ [?c], nentries_mem := nentries_mem t + 1\<rparr>"
    have some: "\<not> (fd = None \<and> spill rb (x, seg) = None)" using read(3) by (auto simp: spill_file_def)
    have sp: "spill ?rb = spill rb" "same_lists rb ?rb" by (simp_all add: ReorderBufferRestoreChange_def same_lists_def)
    have core: "core ?rb = (core rb)(x \<mapsto> ?t)"
      using "1.prems"(1) by (simp add: ReorderBufferRestoreChange_def core_upd_txn strip_def)
    have R: "disk_rest ?F first_seg last_seg fd segno = ?c # disk_rest ?F first_seg last_seg (Some (pos + 1)) seg"
      unfolding rest using Cons_nth_drop_Suc[OF read(3)] by (simp add: disk_rest_def del: upt_Suc)
    have k: "max_changes_in_memory cfg - restored = Suc (max_changes_in_memory cfg - (restored + 1))"
      using read(1) by simp
    have "restore_effect x first_seg last_seg ?rb ?t (disk_rest (spill_file (spill ?rb) x) first_seg last_seg (Some (pos + 1)) seg)
        (max_changes_in_memory cfg - (restored + 1)) (restored + 1)
        (restore_loop cfg x first_seg last_seg ?rb (restored + 1) (Some (pos + 1)) seg)"
      unfolding F_def[of seg, symmetric]
      by (rule "1.IH"(3)[OF _ seg_def some pos_def refl])
        (use read "1.prems"(2) sp core in \<open>auto simp: F_def\<close>)
    from restore_effect_step[OF sp core this[unfolded sp(1)]]
    have "restore_effect x first_seg last_seg rb t (disk_rest ?F first_seg last_seg fd segno)
        (max_changes_in_memory cfg - restored) restored
        (restore_loop cfg x first_seg last_seg ?rb (restored + 1) (Some (pos + 1)) seg)"
      unfolding R k .
    moreover have "restore_loop cfg x first_seg last_seg rb restored fd segno =
        restore_loop cfg x first_seg last_seg ?rb (restored + 1) (Some (pos + 1)) seg"
      unfolding loop using read some by (metis not_le)
    ultimately show ?thesis by simp
  qed
qed

text \<open>Freeing the list in memory.\<close>

lemma free_changes:
  assumes "core rb x = Some t"
  shows "core (fold (\<lambda>c rb. ReorderBufferReturnChange cfg (upd_txn x (\<lambda>t. t\<lparr>changes := tl (changes t)\<rparr>) rb) c) cs rb) =
      (core rb)(x \<mapsto> t\<lparr>changes := drop (length cs) (changes t)\<rparr>) \<and>
    spill (fold (\<lambda>c rb. ReorderBufferReturnChange cfg (upd_txn x (\<lambda>t. t\<lparr>changes := tl (changes t)\<rparr>) rb) c) cs rb) = spill rb \<and>
    same_lists rb (fold (\<lambda>c rb. ReorderBufferReturnChange cfg (upd_txn x (\<lambda>t. t\<lparr>changes := tl (changes t)\<rparr>) rb) c) cs rb)"
  using assms
proof (induction cs arbitrary: rb t)
  case (Cons c cs)
  let ?rb = "ReorderBufferReturnChange cfg (upd_txn x (\<lambda>t. t\<lparr>changes := tl (changes t)\<rparr>) rb) c"
  have core: "core ?rb = (core rb)(x \<mapsto> t\<lparr>changes := tl (changes t)\<rparr>)"
    using Cons.prems by (simp add: core_upd_txn strip_def)
  then have "core ?rb x = Some (t\<lparr>changes := tl (changes t)\<rparr>)" by simp
  note IH = Cons.IH[OF this]
  have "same_lists rb ?rb" by (simp add: same_lists_def)
  with IH core show ?case using same_lists_trans by (auto simp: drop_Suc)
qed (auto simp: fun_upd_idem)

text \<open>
  One call of \<open>ReorderBufferRestoreChanges\<close>: the list in memory becomes the next batch of the
  rest on disk.
\<close>

lemma restore_changes_correct:
  fixes fd :: "nat option" and segno :: XLogSegNo
  assumes t: "core rb x = Some t"
    and empty: "\<And>r. final_lsn t div XLogSegSize cfg < r \<Longrightarrow> spill_file (spill rb) x r = []"
  defines "rest \<equiv> disk_rest (spill_file (spill rb) x) (first_lsn t div XLogSegSize cfg) (final_lsn t div XLogSegSize cfg)"
  defines "batch \<equiv> take (max_changes_in_memory cfg) (rest fd segno)"
  obtains rb' fd' segno' where
    "ReorderBufferRestoreChanges cfg rb x fd segno = Some (rb', length batch, fd', segno')"
    "core rb' = (core rb)(x \<mapsto> t\<lparr>changes := batch, nentries_mem := length batch\<rparr>)"
    "spill rb' = spill rb" "same_lists rb rb'" "rest fd' segno' = drop (max_changes_in_memory cfg) (rest fd segno)"
proof -
  obtain t0 where t0: "by_txn rb x = Some t0" "t = strip t0" using t by (auto simp: core_eq_Some)
  let ?rb = "fold (\<lambda>c rb. ReorderBufferReturnChange cfg (upd_txn x (\<lambda>t. t\<lparr>changes := tl (changes t)\<rparr>) rb) c) (changes t0) rb"
  define rb1 where "rb1 = upd_txn x (\<lambda>t. t\<lparr>nentries_mem := 0\<rparr>) ?rb"
  note free = free_changes[OF t, of cfg "changes t0"]
  have core1: "core rb1 = (core rb)(x \<mapsto> t\<lparr>changes := [], nentries_mem := 0\<rparr>)"
    unfolding rb1_def using free t0(2) by (subst core_upd_txn) (auto simp: strip_def)
  have rest1: "spill rb1 = spill rb" "same_lists rb rb1" unfolding rb1_def using free by (simp_all add: same_lists_def)
  obtain rb' restored' fd' segno' where loop: "restore_loop cfg x (first_lsn t0 div XLogSegSize cfg) (final_lsn t0 div XLogSegSize cfg)
      rb1 0 fd segno = (rb', restored', fd', segno')" using prod_cases4 by blast
  have "core rb1 x = Some (t\<lparr>changes := [], nentries_mem := 0\<rparr>)" using core1 by simp
  from restore_loop_correct[OF this, of "final_lsn t0 div XLogSegSize cfg" "first_lsn t0 div XLogSegSize cfg" fd segno cfg 0]
  have eff: "restore_effect x (first_lsn t0 div XLogSegSize cfg) (final_lsn t0 div XLogSegSize cfg) rb1
      (t\<lparr>changes := [], nentries_mem := 0\<rparr>) (rest fd segno) (max_changes_in_memory cfg) 0 (rb', restored', fd', segno')"
    using empty t0(2) by (simp add: rest1(1) loop rest_def)
  show ?thesis
  proof (rule that)
    show "ReorderBufferRestoreChanges cfg rb x fd segno = Some (rb', length batch, fd', segno')"
      using loop eff t0(1) by (simp add: ReorderBufferRestoreChanges_def Let_def restore_effect_def batch_def rb1_def)
    show "core rb' = (core rb)(x \<mapsto> t\<lparr>changes := batch, nentries_mem := length batch\<rparr>)"
      using eff core1 by (simp add: restore_effect_def batch_def)
    show "spill rb' = spill rb" "same_lists rb rb'" using eff rest1 same_lists_trans by (auto simp: restore_effect_def)
    show "rest fd' segno' = drop (max_changes_in_memory cfg) (rest fd segno)"
      using eff rest1(1) t0(2) by (simp add: restore_effect_def rest_def)
  qed
qed

lemma restore_changes_ex:
  fixes fd :: "nat option" and segno :: XLogSegNo
  assumes "core rb x = Some t" "\<And>r. last_seg < r \<Longrightarrow> spill_file (spill rb) x r = []"
    "first_seg = first_lsn t div XLogSegSize cfg" "last_seg = final_lsn t div XLogSegSize cfg"
    "R = disk_rest (spill_file (spill rb) x) first_seg last_seg fd segno"
    "batch = take (max_changes_in_memory cfg) R"
  shows "\<exists>rb' fd' segno'. ReorderBufferRestoreChanges cfg rb x fd segno = Some (rb', length batch, fd', segno') \<and>
    core rb' = (core rb)(x \<mapsto> t\<lparr>changes := batch, nentries_mem := length batch\<rparr>) \<and>
    spill rb' = spill rb \<and> same_lists rb rb' \<and>
    disk_rest (spill_file (spill rb) x) first_seg last_seg fd' segno' = drop (max_changes_in_memory cfg) R"
  unfolding assms(3-6) by (rule restore_changes_correct[OF assms(1,2)[unfolded assms(4)]]) blast+

text \<open>From the start, the rest on disk is the spilled part of the queue.\<close>

lemma rest_from_start:
  assumes "txn_rel cfg sp x t L" "L \<noteq> [] \<or> serialized t"
  shows "disk_rest (spill_file sp x) (first_lsn t div XLogSegSize cfg) (final_lsn t div XLogSegSize cfg) None 0 = L"
proof (cases "L = []")
  case True
  then show ?thesis using assms(1) by (auto simp: disk_rest_def txn_rel_def)
next
  case False
  let ?lo = "first_lsn t div XLogSegSize cfg" and ?hi = "Suc (final_lsn t div XLogSegSize cfg)"
  have seg: "sorted (map (seg_of cfg) L)" using assms(1) by (auto simp: txn_rel_def sorted_append intro: sorted_seg)
  have bounds: "\<forall>c \<in> set L. ?lo \<le> seg_of cfg c" "\<forall>c \<in> set L. seg_of cfg c < ?hi"
    using assms(1) by (auto simp: txn_rel_def seg_of_def div_le_mono less_Suc_eq_le)
  then have "?lo \<le> ?hi" using False by (cases L) auto
  then have "concat (map (\<lambda>s. filter (\<lambda>c. seg_of cfg c = s) L) [?lo..<?hi]) = filter (\<lambda>c. seg_of cfg c < ?hi) L"
    by (rule concat_groups[OF seg bounds(1)])
  also have "\<dots> = L" using bounds(2) by (simp add: filter_True)
  finally have "concat (map (\<lambda>s. filter (\<lambda>c. seg_of cfg c = s) L) [?lo..<?hi]) = L" .
  moreover have "spill_file sp x = (\<lambda>s. filter (\<lambda>c. seg_of cfg c = s) L)"
    using assms(1) by (simp add: txn_rel_def fun_eq_iff)
  ultimately show ?thesis by (simp add: disk_rest_def del: upt_Suc)
qed

lemma txn_rel_beyond:
  "txn_rel cfg sp x t L \<Longrightarrow> final_lsn t div XLogSegSize cfg < r \<Longrightarrow> spill_file sp x r = []"
  by (fastforce simp: txn_rel_def seg_of_def filter_empty_conv dest: div_le_mono[of _ "final_lsn t" "XLogSegSize cfg"])

end
