(* ===== verification/Reorder_Queue.thy ===== *)
theory Reorder_Queue
  imports Reorder_Spill
begin

text \<open>
  The reorder buffer as a map from transactions to queues of changes. \<open>rb_rel\<close> relates a buffer,
  with its lists in memory and its spill files, to such a map; queueing a change refines
  appending to a queue, whatever is spilled on the way.
\<close>

section \<open>The refinement relation\<close>

definition rb_struct :: "'d ReorderBuffer \<Rightarrow> bool" where
  "rb_struct rb \<longleftrightarrow>
     (\<forall>x t. core rb x = Some t \<longrightarrow> distinct (subtxns t) \<and>
        (\<forall>s \<in> set (subtxns t). \<exists>u. core rb s = Some u \<and> is_known_as_subxact u \<and> toplevel_xid u = x) \<and>
        (is_known_as_subxact t \<longrightarrow> subtxns t = [] \<and> (\<exists>p. core rb (toplevel_xid t) = Some p \<and> x \<in> set (subtxns p))))"

lemma rb_structD:
  assumes "rb_struct rb" "core rb x = Some t"
  shows "distinct (subtxns t)"
    "s \<in> set (subtxns t) \<Longrightarrow> \<exists>u. core rb s = Some u \<and> is_known_as_subxact u \<and> toplevel_xid u = x \<and> subtxns u = []"
    "is_known_as_subxact t \<Longrightarrow> subtxns t = []"
    "is_known_as_subxact t \<Longrightarrow> \<exists>p. core rb (toplevel_xid t) = Some p \<and> x \<in> set (subtxns p) \<and> \<not> is_known_as_subxact p"
    "x \<notin> set (subtxns t)"
proof -
  have all: "distinct (subtxns t)" "\<And>s. s \<in> set (subtxns t) \<Longrightarrow> \<exists>u. core rb s = Some u \<and> is_known_as_subxact u \<and> toplevel_xid u = x"
    "is_known_as_subxact t \<longrightarrow> subtxns t = [] \<and> (\<exists>p. core rb (toplevel_xid t) = Some p \<and> x \<in> set (subtxns p))"
    if "core rb x = Some t" for x t
    using assms(1) that unfolding rb_struct_def by metis+
  show "distinct (subtxns t)" "is_known_as_subxact t \<Longrightarrow> subtxns t = []" using all[OF assms(2)] by simp_all
  show "x \<notin> set (subtxns t)" using all(2,3)[OF assms(2)] assms(2) by fastforce
  show "\<exists>u. core rb s = Some u \<and> is_known_as_subxact u \<and> toplevel_xid u = x \<and> subtxns u = []" if "s \<in> set (subtxns t)"
    using all(2)[OF assms(2) that] all(3)[of s] by auto
  show "\<exists>p. core rb (toplevel_xid t) = Some p \<and> x \<in> set (subtxns p) \<and> \<not> is_known_as_subxact p" if "is_known_as_subxact t"
    using all(3)[OF assms(2)] all(3)[of "toplevel_xid t"] that by fastforce
qed

lemma rb_structI:
  assumes "\<And>x t. core rb x = Some t \<Longrightarrow> distinct (subtxns t)"
    "\<And>x t s. core rb x = Some t \<Longrightarrow> s \<in> set (subtxns t) \<Longrightarrow> \<exists>u. core rb s = Some u \<and> is_known_as_subxact u \<and> toplevel_xid u = x"
    "\<And>x t. core rb x = Some t \<Longrightarrow> is_known_as_subxact t \<Longrightarrow> subtxns t = []"
    "\<And>x t. core rb x = Some t \<Longrightarrow> is_known_as_subxact t \<Longrightarrow> \<exists>p. core rb (toplevel_xid t) = Some p \<and> x \<in> set (subtxns p)"
  shows "rb_struct rb"
  using assms unfolding rb_struct_def by blast

definition cache_ok :: "'d ReorderBuffer \<Rightarrow> bool" where
  "cache_ok rb \<longleftrightarrow> by_txn_last_xid rb \<noteq> InvalidTransactionId \<longrightarrow>
     by_txn_last_txn rb = (if core rb (by_txn_last_xid rb) = None then None else Some (by_txn_last_xid rb))"

definition queue_rel ::
  "decoding_config \<Rightarrow> (TransactionId \<times> XLogSegNo \<rightharpoonup> 'd ReorderBufferChange list) \<Rightarrow> TransactionId \<Rightarrow>
   'd ReorderBufferTXN option \<Rightarrow> 'd ReorderBufferChange list \<Rightarrow> bool" where
  "queue_rel cfg sp x ot q =
     (case ot of None \<Rightarrow> q = [] \<and> (\<forall>s. spill_file sp x s = [])
      | Some t \<Rightarrow> \<exists>L. q = L @ changes t \<and> txn_rel cfg sp x t L)"

text \<open>The relation for the transactions of a set, and for all of them.\<close>

definition rb_rel_on ::
  "decoding_config \<Rightarrow> TransactionId set \<Rightarrow> 'd ReorderBuffer \<Rightarrow> (TransactionId \<Rightarrow> 'd ReorderBufferChange list) \<Rightarrow> bool" where
  "rb_rel_on cfg S rb Q \<longleftrightarrow>
     rb_struct rb \<and> cache_ok rb \<and> (\<forall>x \<in> S. queue_rel cfg (spill rb) x (core rb x) (Q x))"

definition rb_rel ::
  "decoding_config \<Rightarrow> 'd ReorderBuffer \<Rightarrow> (TransactionId \<Rightarrow> 'd ReorderBufferChange list) \<Rightarrow> bool" where
  "rb_rel cfg rb Q \<longleftrightarrow> rb_struct rb \<and> cache_ok rb \<and> (\<forall>x. queue_rel cfg (spill rb) x (core rb x) (Q x))"

lemma rb_rel_on_UNIV: "rb_rel cfg rb Q \<longleftrightarrow> rb_rel_on cfg UNIV rb Q"
  by (simp add: rb_rel_def rb_rel_on_def)

lemma txn_rel_cong:
  "(\<And>s. spill_file sp x s = spill_file sp' x s) \<Longrightarrow> txn_rel cfg sp x t L = txn_rel cfg sp' x t L"
  by (simp add: txn_rel_def)

lemma queue_rel_cong:
  "(\<And>s. spill_file sp x s = spill_file sp' x s) \<Longrightarrow> queue_rel cfg sp x ot q = queue_rel cfg sp' x ot q"
  by (simp add: queue_rel_def txn_rel_def split: option.split)

lemma rb_rel_onD:
  assumes "rb_rel_on cfg S rb Q" "x \<in> S" "core rb x = Some t"
  obtains L where "Q x = L @ changes t" "txn_rel cfg (spill rb) x t L"
proof -
  have "queue_rel cfg (spill rb) x (core rb x) (Q x)" using assms(1,2) by (simp add: rb_rel_on_def)
  then show ?thesis using assms(3) that by (auto simp: queue_rel_def)
qed

lemmas rb_relD = rb_rel_onD[OF rb_rel_on_UNIV[THEN iffD1] UNIV_I]

lemma rb_rel_None:
  assumes "rb_rel cfg rb Q" "core rb x = None"
  shows "Q x = []" "spill_file (spill rb) x s = []"
proof -
  have "queue_rel cfg (spill rb) x (core rb x) (Q x)" using assms(1) by (simp add: rb_rel_def)
  then show "Q x = []" "spill_file (spill rb) x s = []" using assms(2) by (simp_all add: queue_rel_def)
qed

text \<open>The tree of transactions depends on three fields only.\<close>

definition same_tree :: "'d ReorderBufferTXN option \<Rightarrow> 'd ReorderBufferTXN option \<Rightarrow> bool" where
  "same_tree a b \<longleftrightarrow>
     map_option (\<lambda>t. (subtxns t, is_known_as_subxact t, toplevel_xid t)) a =
     map_option (\<lambda>t. (subtxns t, is_known_as_subxact t, toplevel_xid t)) b"

lemma same_tree_Some: "same_tree (Some t) b \<longleftrightarrow>
    (\<exists>u. b = Some u \<and> subtxns u = subtxns t \<and> is_known_as_subxact u = is_known_as_subxact t \<and> toplevel_xid u = toplevel_xid t)"
  by (cases b) (auto simp: same_tree_def)

lemma rb_struct_same_tree:
  assumes "rb_struct rb" "\<And>y. same_tree (core rb y) (core rb' y)"
  shows "rb_struct rb'"
proof (rule rb_structI)
  fix x t assume t: "core rb' x = Some t"
  with assms(2)[of x] obtain u where u: "core rb x = Some u" "subtxns u = subtxns t"
    "is_known_as_subxact u = is_known_as_subxact t" "toplevel_xid u = toplevel_xid t"
    by (cases "core rb x") (auto simp: same_tree_def)
  note D = rb_structD[OF assms(1) u(1)]
  show "distinct (subtxns t)" "is_known_as_subxact t \<Longrightarrow> subtxns t = []" using D(1,3) u by simp_all
  show "\<exists>u. core rb' s = Some u \<and> is_known_as_subxact u \<and> toplevel_xid u = x" if "s \<in> set (subtxns t)" for s
    using D(2)[of s] u(2) that assms(2)[of s] by (auto simp: same_tree_Some)
  show "\<exists>p. core rb' (toplevel_xid t) = Some p \<and> x \<in> set (subtxns p)" if "is_known_as_subxact t"
    using D(4) u(3,4) that assms(2)[of "toplevel_xid t"] by (auto simp: same_tree_Some)
qed

lemma cache_ok_same:
  "cache_ok rb \<Longrightarrow> same_lists rb rb' \<Longrightarrow> (\<And>y. core rb' y = None \<longleftrightarrow> core rb y = None) \<Longrightarrow> cache_ok rb'"
  by (simp add: cache_ok_def same_lists_def)

section \<open>Serialising\<close>

text \<open>What serialising does to the transactions of a set.\<close>

definition spilled :: "'d ReorderBufferTXN \<Rightarrow> 'd ReorderBufferTXN \<Rightarrow> bool" where
  "spilled t t' \<longleftrightarrow> (\<exists>f. t' = t\<lparr>final_lsn := f, changes := [], serialized := True, nentries_mem := 0\<rparr>)"

definition serialized_at :: "TransactionId set \<Rightarrow> 'd ReorderBuffer \<Rightarrow> 'd ReorderBuffer \<Rightarrow> bool" where
  "serialized_at S rb rb' \<longleftrightarrow> same_lists rb rb' \<and>
     (\<forall>y s. y \<notin> S \<longrightarrow> spill_file (spill rb') y s = spill_file (spill rb) y s) \<and>
     (\<forall>y. if y \<in> S \<and> core rb y \<noteq> None then \<exists>t t'. core rb y = Some t \<and> core rb' y = Some t' \<and> spilled t t'
          else core rb' y = core rb y)"

lemma spilled_trans: "spilled a b \<Longrightarrow> spilled b c \<Longrightarrow> spilled a c"
  by (auto simp: spilled_def)

lemma spilled_simps:
  assumes "spilled t t'"
  shows "subtxns t' = subtxns t" "is_known_as_subxact t' = is_known_as_subxact t" "toplevel_xid t' = toplevel_xid t"
    "xid t' = xid t" "first_lsn t' = first_lsn t" "nentries t' = nentries t" "changes t' = []" "serialized t'"
    "nentries_mem t' = 0" "base_snapshot t' = base_snapshot t" "base_snapshot_lsn t' = base_snapshot_lsn t"
    "end_lsn t' = end_lsn t"
  using assms by (auto simp: spilled_def)

lemma serialized_at_None: "serialized_at S rb rb' \<Longrightarrow> core rb' y = None \<longleftrightarrow> core rb y = None"
  unfolding serialized_at_def by (metis option.discI)

lemma serialized_at_out: "serialized_at S rb rb' \<Longrightarrow> y \<notin> S \<Longrightarrow> core rb' y = core rb y"
  by (auto simp: serialized_at_def)

lemma serialized_at_file: "serialized_at S rb rb' \<Longrightarrow> y \<notin> S \<Longrightarrow> spill_file (spill rb') y s = spill_file (spill rb) y s"
  by (simp add: serialized_at_def)

lemma serialized_at_in:
  "serialized_at S rb rb' \<Longrightarrow> y \<in> S \<Longrightarrow> core rb y = Some t \<Longrightarrow> \<exists>t'. core rb' y = Some t' \<and> spilled t t'"
  unfolding serialized_at_def by (metis option.discI option.inject)

lemma serialized_at_empty: "serialized_at {} rb rb"
  by (simp add: serialized_at_def)

lemma serialized_at_trans:
  assumes "serialized_at S a b" "serialized_at T b c"
  shows "serialized_at (S \<union> T) a c"
  unfolding serialized_at_def
proof (intro conjI allI)
  show "same_lists a c" using assms same_lists_trans by (auto simp: serialized_at_def)
  show "y \<notin> S \<union> T \<longrightarrow> spill_file (spill c) y s = spill_file (spill a) y s" for y s
    using serialized_at_file[OF assms(1), of y s] serialized_at_file[OF assms(2), of y s] by simp
  fix y
  show "if y \<in> S \<union> T \<and> core a y \<noteq> None then \<exists>t t'. core a y = Some t \<and> core c y = Some t' \<and> spilled t t'
        else core c y = core a y"
  proof (cases "core a y")
    case None
    then show ?thesis using serialized_at_None[OF assms(1), of y] serialized_at_None[OF assms(2), of y] by simp
  next
    case (Some t)
    show ?thesis
    proof (cases "y \<in> S")
      case True
      then obtain t' where t': "core b y = Some t'" "spilled t t'" using serialized_at_in[OF assms(1)] Some by blast
      show ?thesis
      proof (cases "y \<in> T")
        case yT: True
        from serialized_at_in[OF assms(2) yT t'(1)] t'(2) Some True show ?thesis using spilled_trans by auto
      next
        case False
        then show ?thesis using serialized_at_out[OF assms(2)] t' Some True by simp
      qed
    next
      case False
      then have "core b y = Some t" using serialized_at_out[OF assms(1)] Some by simp
      then show ?thesis using serialized_at_in[OF assms(2), of y t] serialized_at_out[OF assms(2), of y] Some False by auto
    qed
  qed
qed

lemma serialized_at_same_tree: "serialized_at S rb rb' \<Longrightarrow> same_tree (core rb y) (core rb' y)"
  by (cases "core rb y"; cases "y \<in> S")
    (auto simp: same_tree_Some spilled_simps serialized_at_out serialized_at_None same_tree_def dest: serialized_at_in)

lemma serialize_changes_rel:
  assumes rel: "rb_rel_on cfg S rb Q" and x: "x \<in> S" and t: "core rb x = Some t"
  shows "\<exists>rb'. serialize_changes cfg rb x = Some rb' \<and> rb_rel_on cfg S rb' Q \<and> serialized_at {x} rb rb'"
proof -
  obtain L where L: "Q x = L @ changes t" "txn_rel cfg (spill rb) x t L" using rb_rel_onD[OF rel x t] .
  obtain rb' t' where r: "serialize_changes cfg rb x = Some rb'" "core rb' = (core rb)(x \<mapsto> t')"
    "txn_rel cfg (spill rb') x t' (L @ changes t)" "changes t' = []"
    "\<exists>f. t' = t\<lparr>final_lsn := f, changes := [], serialized := True, nentries_mem := 0\<rparr>"
    "\<And>y s. y \<noteq> x \<Longrightarrow> spill_file (spill rb') y s = spill_file (spill rb) y s" "same_lists rb rb'"
    by (rule serialize_changes_correct[OF t L(2)]) blast
  have at: "serialized_at {x} rb rb'" using r(2,5,6,7) t by (auto simp: serialized_at_def spilled_def)
  have "queue_rel cfg (spill rb') y (core rb' y) (Q y)" if "y \<in> S" for y
  proof (cases "y = x")
    case True
    then show ?thesis using r(2,3,4) L(1) by (auto simp: queue_rel_def)
  next
    case False
    then show ?thesis
      using rel that r(2) queue_rel_cong[of "spill rb'" y "spill rb" cfg "core rb y" "Q y"] r(6) by (simp add: rb_rel_on_def)
  qed
  moreover have "rb_struct rb'"
    using rel rb_struct_same_tree[of rb rb'] serialized_at_same_tree[OF at] by (auto simp: rb_rel_on_def)
  moreover have "cache_ok rb'"
    using rel cache_ok_same[of rb rb'] r(7) serialized_at_None[OF at] by (auto simp: rb_rel_on_def)
  ultimately show ?thesis using r(1) at by (auto simp: rb_rel_on_def)
qed

text \<open>Two levels are enough, since a subtransaction has no subtransactions.\<close>

lemma serialize_txn_correct:
  assumes rel: "rb_rel_on cfg S rb Q" and t: "core rb x = Some t" and S: "insert x (set (subtxns t)) \<subseteq> S"
  shows "\<exists>rb'. ReorderBufferSerializeTXN cfg rb x = Some rb' \<and> rb_rel_on cfg S rb' Q \<and>
    serialized_at (insert x (set (subtxns t))) rb rb'"
proof -
  have sub: "\<exists>u. core rb s = Some u \<and> subtxns u = []" if "s \<in> set (subtxns t)" for s
    using rel t that unfolding rb_rel_on_def rb_struct_def by metis
  have "\<exists>rb'. foldM (serialize_txn 1 cfg) (subtxns t) rb = Some rb' \<and>
      (rb_rel_on cfg S rb' Q \<and> serialized_at (set (subtxns t)) rb rb')"
  proof (rule foldM_rule[where I = "\<lambda>xs rb'. rb_rel_on cfg S rb' Q \<and> serialized_at (set xs) rb rb'"])
    show "rb_rel_on cfg S rb Q \<and> serialized_at (set []) rb rb" using rel by (simp add: serialized_at_empty)
    fix xs s rb1
    assume I: "rb_rel_on cfg S rb1 Q \<and> serialized_at (set xs) rb rb1" and "\<exists>ys. subtxns t = xs @ s # ys"
    then have s: "s \<in> set (subtxns t)" by auto
    with sub obtain u where u: "core rb s = Some u" "subtxns u = []" by blast
    with I obtain u' where u': "core rb1 s = Some u'" "subtxns u' = []"
      by (cases "s \<in> set xs") (auto simp: serialized_at_out spilled_simps dest: serialized_at_in)
    then obtain b where b: "by_txn rb1 s = Some b" "subtxns b = []" by (auto simp: core_eq_Some)
    obtain rb2 where "serialize_changes cfg rb1 s = Some rb2" "rb_rel_on cfg S rb2 Q" "serialized_at {s} rb1 rb2"
      using serialize_changes_rel[OF _ _ u'(1)] I s S by blast
    then show "\<exists>rb2. serialize_txn 1 cfg s rb1 = Some rb2 \<and> rb_rel_on cfg S rb2 Q \<and> serialized_at (set (xs @ [s])) rb rb2"
      using b I serialized_at_trans[of "set xs" rb rb1 "{s}" rb2] by (auto simp: One_nat_def Un_commute)
  qed
  then obtain rb1 where rb1: "foldM (serialize_txn 1 cfg) (subtxns t) rb = Some rb1" "rb_rel_on cfg S rb1 Q"
    "serialized_at (set (subtxns t)) rb rb1" by blast
  have "core rb1 x \<noteq> None" using serialized_at_None[OF rb1(3)] t by simp
  then obtain t1 where t1: "core rb1 x = Some t1" by auto
  obtain rb2 where rb2: "serialize_changes cfg rb1 x = Some rb2" "rb_rel_on cfg S rb2 Q" "serialized_at {x} rb1 rb2"
    using serialize_changes_rel[OF rb1(2) _ t1] S by blast
  obtain b where b: "by_txn rb x = Some b" "t = strip b" using t by (auto simp: core_eq_Some)
  have "ReorderBufferSerializeTXN cfg rb x = Some rb2"
    using b rb1(1) rb2(1) by (simp add: ReorderBufferSerializeTXN_def numeral_2_eq_2)
  then show ?thesis using rb2(2) serialized_at_trans[OF rb1(3) rb2(3)] by (simp add: Un_commute)
qed

section \<open>Looking up and creating transactions\<close>

definition fresh_txn :: "TransactionId \<Rightarrow> XLogRecPtr \<Rightarrow> XLogRecPtr \<Rightarrow> 'd ReorderBufferTXN" where
  "fresh_txn x lsn restart = ReorderBufferGetTXN\<lparr>xid := x, first_lsn := lsn, restart_decoding_lsn := restart\<rparr>"

lemma fresh_txn_simps [simp]:
  "xid (fresh_txn x lsn r) = x" "first_lsn (fresh_txn x lsn r) = lsn" "final_lsn (fresh_txn x lsn r) = 0"
  "changes (fresh_txn x lsn r) = []" "nentries (fresh_txn x lsn r) = 0" "nentries_mem (fresh_txn x lsn r) = 0"
  "serialized (fresh_txn x lsn r) = False" "subtxns (fresh_txn x lsn r) = []" "nsubtxns (fresh_txn x lsn r) = 0"
  "is_known_as_subxact (fresh_txn x lsn r) = False" "base_snapshot (fresh_txn x lsn r) = None"
  "base_snapshot_lsn (fresh_txn x lsn r) = 0" "txn_size (fresh_txn x lsn r) = 0"
  "end_lsn (fresh_txn x lsn r) = 0" "strip (fresh_txn x lsn r) = fresh_txn x lsn r"
  by (simp_all add: fresh_txn_def ReorderBufferGetTXN_def strip_def)

text \<open>The cache only saves the search: the function is determined by the table.\<close>

lemma txn_by_xid_eq:
  assumes "cache_ok rb"
  shows "ReorderBufferTXNByXid rb x create lsn as_top =
    (if by_txn rb x \<noteq> None then (rb\<lparr>by_txn_last_xid := x, by_txn_last_txn := Some x\<rparr>, Some x, False)
     else if create then
       (rb\<lparr>by_txn := (by_txn rb)(x \<mapsto> fresh_txn x lsn (current_restart_decoding_lsn rb)),
           toplevel_by_lsn := toplevel_by_lsn rb @ (if as_top then [x] else []),
           by_txn_last_xid := x, by_txn_last_txn := Some x\<rparr>, Some x, True)
     else (rb\<lparr>by_txn_last_xid := x, by_txn_last_txn := None\<rparr>, None,
           \<not> (by_txn_last_xid rb \<noteq> InvalidTransactionId \<and> by_txn_last_xid rb = x)))"
  using assms
  by (cases rb) (auto simp: ReorderBufferTXNByXid_def Let_def cache_ok_def fresh_txn_def core_eq_None split: if_splits)

lemma core_by_txn_upd: "core (rb\<lparr>by_txn := (by_txn rb)(x \<mapsto> t)\<rparr>) = (core rb)(x \<mapsto> strip t)"
  by (auto simp: core_def fun_eq_iff)

lemma core_more [simp]:
  "core (rb\<lparr>by_txn_last_xid := a\<rparr>) = core rb" "core (rb\<lparr>by_txn_last_txn := b\<rparr>) = core rb"
  "core (rb\<lparr>toplevel_by_lsn := c\<rparr>) = core rb" "core (rb\<lparr>txns_by_base_snapshot_lsn := d\<rparr>) = core rb"
  "core (rb\<lparr>current_restart_decoding_lsn := e\<rparr>) = core rb" "core (rb\<lparr>rb_size := g\<rparr>) = core rb"
  "core (rb\<lparr>spill := h\<rparr>) = core rb"
  by (auto simp: core_def fun_eq_iff)

lemma rb_struct_fresh:
  assumes "rb_struct rb" "core rb x = None" "core rb' = (core rb)(x \<mapsto> t)" "subtxns t = []" "\<not> is_known_as_subxact t"
  shows "rb_struct rb'"
proof (rule rb_structI)
  fix y u assume u: "core rb' y = Some u"
  have old: "core rb y = Some u" if "y \<noteq> x" using u assms(3) that by simp
  have new: "core rb' z = core rb z" if "z \<noteq> x" for z using assms(3) that by simp
  have none: "z \<noteq> x" if "core rb z = Some v" for z v using assms(2) that by auto
  have t: "y = x \<Longrightarrow> u = t" using u assms(3) by simp
  show "distinct (subtxns u)" "is_known_as_subxact u \<Longrightarrow> subtxns u = []"
    using t assms(4) rb_structD(1,3)[OF assms(1) old] by (cases "y = x"; simp)+
  show "\<exists>v. core rb' s = Some v \<and> is_known_as_subxact v \<and> toplevel_xid v = y" if s: "s \<in> set (subtxns u)" for s
  proof -
    have "y \<noteq> x" using s t assms(4) by auto
    from rb_structD(2)[OF assms(1) old[OF this] s] show ?thesis using new none by fastforce
  qed
  show "\<exists>p. core rb' (toplevel_xid u) = Some p \<and> y \<in> set (subtxns p)" if k: "is_known_as_subxact u"
  proof -
    have "y \<noteq> x" using k t assms(5) by auto
    from rb_structD(4)[OF assms(1) old[OF this] k] show ?thesis using new none by fastforce
  qed
qed

lemma txn_by_xid_create:
  assumes rel: "rb_rel cfg rb Q"
  obtains rb1 where "ReorderBufferTXNByXid rb x True lsn as_top = (rb1, Some x, core rb x = None)"
    "rb_rel cfg rb1 Q" "spill rb1 = spill rb"
    "core rb1 = (if core rb x = None then (core rb)(x \<mapsto> fresh_txn x lsn (current_restart_decoding_lsn rb)) else core rb)"
    "toplevel_by_lsn rb1 = toplevel_by_lsn rb @ (if core rb x = None \<and> as_top then [x] else [])"
    "txns_by_base_snapshot_lsn rb1 = txns_by_base_snapshot_lsn rb"
    "by_txn rb1 = (if core rb x = None then (by_txn rb)(x \<mapsto> fresh_txn x lsn (current_restart_decoding_lsn rb)) else by_txn rb)"
proof (cases "core rb x = None")
  case True
  let ?t = "fresh_txn x lsn (current_restart_decoding_lsn rb) :: 'a ReorderBufferTXN"
  let ?rb = "rb\<lparr>by_txn := (by_txn rb)(x \<mapsto> ?t), toplevel_by_lsn := toplevel_by_lsn rb @ (if as_top then [x] else []),
           by_txn_last_xid := x, by_txn_last_txn := Some x\<rparr>"
  have core: "core ?rb = (core rb)(x \<mapsto> ?t)" by (simp add: core_by_txn_upd)
  have "queue_rel cfg (spill rb) x (Some ?t) (Q x)" using rb_rel_None[OF rel True] by (simp add: queue_rel_def txn_rel_def)
  then have "rb_rel cfg ?rb Q"
    using rel rb_struct_fresh[OF _ True core] core by (auto simp: rb_rel_def cache_ok_def)
  moreover have "ReorderBufferTXNByXid rb x True lsn as_top = (?rb, Some x, True)"
    using rel True by (subst txn_by_xid_eq) (auto simp: rb_rel_def core_eq_None)
  ultimately show ?thesis using that[of ?rb] True core by simp
next
  case False
  let ?rb = "rb\<lparr>by_txn_last_xid := x, by_txn_last_txn := Some x\<rparr>"
  have "rb_rel cfg ?rb Q" using rel False by (auto simp: rb_rel_def cache_ok_def rb_struct_def)
  moreover have "ReorderBufferTXNByXid rb x True lsn as_top = (?rb, Some x, False)"
    using rel False by (subst txn_by_xid_eq) (auto simp: rb_rel_def core_eq_None)
  ultimately show ?thesis using that[of ?rb] False by simp
qed

section \<open>Queueing\<close>

text \<open>The fields the two lists depend on.\<close>

definition same_order :: "'d ReorderBufferTXN option \<Rightarrow> 'd ReorderBufferTXN option \<Rightarrow> bool" where
  "same_order a b \<longleftrightarrow>
     map_option (\<lambda>t. (first_lsn t, end_lsn t, is_known_as_subxact t, base_snapshot t, base_snapshot_lsn t)) a =
     map_option (\<lambda>t. (first_lsn t, end_lsn t, is_known_as_subxact t, base_snapshot t, base_snapshot_lsn t)) b"

lemma same_order_Some: "same_order (Some t) b \<longleftrightarrow>
    (\<exists>u. b = Some u \<and> first_lsn u = first_lsn t \<and> end_lsn u = end_lsn t \<and> is_known_as_subxact u = is_known_as_subxact t \<and>
       base_snapshot u = base_snapshot t \<and> base_snapshot_lsn u = base_snapshot_lsn t)"
  by (cases b) (auto simp: same_order_def)

lemma same_order_refl [simp]: "same_order a a"
  by (simp add: same_order_def)

definition ordered_like :: "'d ReorderBuffer \<Rightarrow> 'd ReorderBuffer \<Rightarrow> bool" where
  "ordered_like rb rb' \<longleftrightarrow> toplevel_by_lsn rb' = toplevel_by_lsn rb \<and>
     txns_by_base_snapshot_lsn rb' = txns_by_base_snapshot_lsn rb \<and> (\<forall>y. same_order (core rb y) (core rb' y))"

lemma serialized_at_ordered: "serialized_at S rb rb' \<Longrightarrow> ordered_like rb rb'"
  unfolding ordered_like_def
proof (intro conjI allI)
  fix y assume at: "serialized_at S rb rb'"
  show "same_order (core rb y) (core rb' y)"
    by (cases "core rb y"; cases "y \<in> S")
      (use at in \<open>auto simp: same_order_Some spilled_simps serialized_at_out serialized_at_None[THEN iffD2] dest: serialized_at_in\<close>)
qed (simp_all add: serialized_at_def same_lists_def)

lemma ordered_like_trans: "ordered_like a b \<Longrightarrow> ordered_like b c \<Longrightarrow> ordered_like a c"
  by (simp add: ordered_like_def same_order_def)


lemma check_serialize_correct:
  assumes rel: "rb_rel cfg rb Q" and t: "core rb x = Some t"
  shows "\<exists>rb'. ReorderBufferCheckSerializeTXN cfg rb x = Some rb' \<and> rb_rel cfg rb' Q \<and>
    (rb' = rb \<or> serialized_at (insert x (set (subtxns t))) rb rb')"
proof -
  obtain b where "by_txn rb x = Some b" using t by (auto simp: core_eq_Some)
  then show ?thesis
    using serialize_txn_correct[OF rel[unfolded rb_rel_on_UNIV] t] rel
    by (auto simp: ReorderBufferCheckSerializeTXN_def rb_rel_on_UNIV)
qed

lemma rb_rel_append:
  assumes rel: "rb_rel cfg rb Q" and t: "core rb x = Some t"
    and c: "chg_txn c = x" "first_lsn t \<le> chg_lsn c" "\<And>d. d \<in> set (Q x) \<Longrightarrow> chg_lsn d \<le> chg_lsn c"
    and rb': "core rb' = (core rb)(x \<mapsto> t\<lparr>changes := changes t @ [c], nentries := nentries t + 1, nentries_mem := nentries_mem t + 1\<rparr>)"
      "spill rb' = spill rb" "same_lists rb rb'"
  shows "rb_rel cfg rb' (Q(x := Q x @ [c]))"
proof -
  let ?t = "t\<lparr>changes := changes t @ [c], nentries := nentries t + 1, nentries_mem := nentries_mem t + 1\<rparr>"
  obtain L where L: "Q x = L @ changes t" "txn_rel cfg (spill rb) x t L" using rb_relD[OF rel t] .
  have "txn_rel cfg (spill rb) x ?t L" using L c by (auto simp: txn_rel_def sorted_append)
  then have "queue_rel cfg (spill rb) x (Some ?t) (Q x @ [c])" using L(1) by (auto simp: queue_rel_def)
  moreover have "queue_rel cfg (spill rb) y (core rb y) (Q y)" for y using rel by (simp add: rb_rel_def)
  ultimately have "queue_rel cfg (spill rb') y (core rb' y) ((Q(x := Q x @ [c])) y)" for y
    using rb'(1,2) by (cases "y = x") simp_all
  moreover have "same_tree (core rb y) (core rb' y)" for y
    unfolding rb'(1) using t by (simp add: same_tree_def)
  then have "rb_struct rb'" using rel rb_struct_same_tree by (auto simp only: rb_rel_def)
  moreover have "core rb' y = None \<longleftrightarrow> core rb y = None" for y
    unfolding rb'(1) using t by simp
  then have "cache_ok rb'" using rel cache_ok_same[OF _ rb'(3)] by (auto simp only: rb_rel_def)
  ultimately show ?thesis by (simp add: rb_rel_def)
qed

lemma queue_change_correct:
  assumes rel: "rb_rel cfg rb Q" and first: "\<And>t. core rb x = Some t \<Longrightarrow> first_lsn t \<le> lsn"
    and last: "\<And>d. d \<in> set (Q x) \<Longrightarrow> chg_lsn d \<le> lsn"
  shows "\<exists>rb'. ReorderBufferQueueChange cfg rb x lsn change = Some rb' \<and>
    rb_rel cfg rb' (Q(x := Q x @ [change\<lparr>chg_lsn := lsn, chg_txn := x\<rparr>])) \<and>
    ordered_like (fst (ReorderBufferTXNByXid rb x True lsn True)) rb'"
proof -
  let ?c = "change\<lparr>chg_lsn := lsn, chg_txn := x\<rparr>"
  let ?f = "\<lambda>t. t\<lparr>changes := changes t @ [?c], nentries := nentries t + 1, nentries_mem := nentries_mem t + 1\<rparr>"
  obtain rb1 where rb1: "ReorderBufferTXNByXid rb x True lsn True = (rb1, Some x, core rb x = None)" "rb_rel cfg rb1 Q"
    "core rb1 = (if core rb x = None then (core rb)(x \<mapsto> fresh_txn x lsn (current_restart_decoding_lsn rb)) else core rb)"
    using txn_by_xid_create[OF rel, where x = x and lsn = lsn and as_top = True] by metis
  obtain t where t: "core rb1 x = Some t" "first_lsn t \<le> lsn"
    using rb1(3) first by (cases "core rb x") auto
  let ?rb2 = "ReorderBufferUpdateMemory cfg (upd_txn x ?f rb1) ?c True"
  have core2: "core ?rb2 = (core rb1)(x \<mapsto> ?f t)" using t(1) by (simp add: core_upd_txn strip_def)
  have rel2: "rb_rel cfg ?rb2 (Q(x := Q x @ [?c]))"
    by (rule rb_rel_append[OF rb1(2) t(1)]) (use t last core2 in \<open>auto simp: same_lists_def\<close>)
  have "core ?rb2 x = Some (?f t)" using core2 by simp
  from check_serialize_correct[OF rel2 this]
  obtain rb' where rb': "ReorderBufferCheckSerializeTXN cfg ?rb2 x = Some rb'" "rb_rel cfg rb' (Q(x := Q x @ [?c]))"
    "rb' = ?rb2 \<or> serialized_at (insert x (set (subtxns (?f t)))) ?rb2 rb'" by blast
  have "ordered_like rb1 ?rb2" unfolding ordered_like_def core2 using t(1) by (simp add: same_order_Some)
  then have "ordered_like rb1 rb'" using rb'(3) serialized_at_ordered ordered_like_trans by blast
  then show ?thesis using rb1(1) rb'(1,2) by (simp add: ReorderBufferQueueChange_def Let_def)
qed

end
