(* ===== verification/Reorder_Order.thy ===== *)
theory Reorder_Order
  imports Reorder_Queue
begin

text \<open>
  The two LSN-ordered lists of the reorder buffer, the tree of subtransactions and the base
  snapshots. \<open>order_inv\<close> contains what \<open>AssertTXNLsnOrder\<close> checks and what it relies on: which
  transactions are in which list.
\<close>

section \<open>The lists\<close>

definition first_of :: "'d ReorderBuffer \<Rightarrow> TransactionId \<Rightarrow> XLogRecPtr" where
  "first_of rb x = (case core rb x of None \<Rightarrow> 0 | Some t \<Rightarrow> first_lsn t)"

definition snap_lsn_of :: "'d ReorderBuffer \<Rightarrow> TransactionId \<Rightarrow> XLogRecPtr" where
  "snap_lsn_of rb x = (case core rb x of None \<Rightarrow> 0 | Some t \<Rightarrow> base_snapshot_lsn t)"

definition top_ok :: "'d ReorderBufferTXN option \<Rightarrow> bool" where
  "top_ok ot = (case ot of None \<Rightarrow> False
     | Some t \<Rightarrow> first_lsn t \<noteq> 0 \<and> (end_lsn t \<noteq> 0 \<longrightarrow> first_lsn t \<le> end_lsn t) \<and> \<not> is_known_as_subxact t)"

definition snap_ok :: "'d ReorderBufferTXN option \<Rightarrow> bool" where
  "snap_ok ot = (case ot of None \<Rightarrow> False
     | Some t \<Rightarrow> base_snapshot t \<noteq> None \<and> base_snapshot_lsn t \<noteq> 0 \<and> \<not> is_known_as_subxact t)"

lemma toplevel_order_iff:
  "toplevel_order_ok rb p xs \<longleftrightarrow>
     (\<forall>x \<in> set xs. top_ok (core rb x)) \<and> sorted (map (first_of rb) xs) \<and> (\<forall>x \<in> set xs. p \<le> first_of rb x)"
proof (induction xs arbitrary: p)
  case (Cons x xs)
  show ?case
  proof (cases "by_txn rb x")
    case None
    then show ?thesis by (simp add: top_ok_def core_def)
  next
    case (Some t)
    then have "core rb x = Some (strip t)" by (rule core_Some)
    with Some Cons[of "first_lsn t"] show ?thesis
      by (auto simp: top_ok_def first_of_def InvalidXLogRecPtr_def intro: order_trans)
  qed
qed simp

lemma snapshot_order_iff:
  "base_snapshot_order_ok rb p xs \<longleftrightarrow>
     (\<forall>x \<in> set xs. snap_ok (core rb x)) \<and> sorted_wrt (<) (map (snap_lsn_of rb) xs) \<and>
     (p \<noteq> 0 \<longrightarrow> (\<forall>x \<in> set xs. p < snap_lsn_of rb x))"
proof (induction xs arbitrary: p)
  case (Cons x xs)
  show ?case
  proof (cases "by_txn rb x")
    case None
    then show ?thesis by (simp add: snap_ok_def core_def)
  next
    case (Some t)
    then have "core rb x = Some (strip t)" by (rule core_Some)
    with Some Cons[of "base_snapshot_lsn t"] show ?thesis
      by (auto simp: snap_ok_def snap_lsn_of_def InvalidXLogRecPtr_def intro: less_trans)
  qed
qed simp

text \<open>A list that holds the elements with a property, each once, in the order of their keys.\<close>

definition listed :: "(XLogRecPtr \<Rightarrow> XLogRecPtr \<Rightarrow> bool) \<Rightarrow> (TransactionId \<Rightarrow> XLogRecPtr) \<Rightarrow> (TransactionId \<Rightarrow> bool) \<Rightarrow>
    TransactionId list \<Rightarrow> bool" where
  "listed R key has l \<longleftrightarrow> distinct l \<and> sorted_wrt R (map key l) \<and> (\<forall>z. z \<in> set l \<longleftrightarrow> has z)"

lemma listed_cong:
  assumes "listed R key has l" "\<And>z. z \<in> set l \<Longrightarrow> key' z = key z" "\<And>z. has' z = has z"
  shows "listed R key' has' l"
proof -
  have "map key' l = map key l" using assms(2) by simp
  then show ?thesis using assms(1,3) unfolding listed_def by metis
qed

lemma listed_remove:
  assumes l: "listed R key has l" and "\<And>z. z \<noteq> s \<Longrightarrow> key' z = key z" "\<And>z. has' z \<longleftrightarrow> z \<noteq> s \<and> has z"
  shows "listed R key' has' (remove1 s l)"
proof -
  have eq: "remove1 s l = filter (\<lambda>z. z \<noteq> s) l" using l by (simp add: listed_def distinct_remove1_removeAll removeAll_filter_not_eq eq_commute)
  have "sorted_wrt R (map key (filter (\<lambda>z. z \<noteq> s) l))"
    using l by (auto simp: listed_def sorted_wrt_map intro: sorted_wrt_filter)
  then have "listed R key has' (filter (\<lambda>z. z \<noteq> s) l)" using l assms(3) by (auto simp: listed_def)
  then show ?thesis unfolding eq by (rule listed_cong) (use assms(2) in auto)
qed

lemma listed_append:
  assumes l: "listed R key has l" and x: "\<not> has x" "\<And>z. z \<in> set l \<Longrightarrow> R (key z) (key' x)"
    and "\<And>z. z \<noteq> x \<Longrightarrow> key' z = key z" "\<And>z. has' z \<longleftrightarrow> z = x \<or> has z"
  shows "listed R key' has' (l @ [x])"
proof -
  have "key' z = key z" if "z \<in> set l" for z using that l x(1) assms(4)[of z] by (auto simp: listed_def)
  then have "map key' l = map key l" by simp
  moreover have "sorted_wrt R (map key l @ [key' x])" using l x(2) by (auto simp: listed_def sorted_wrt_append)
  ultimately show ?thesis using l x(1) assms(5) by (auto simp: listed_def simp del: map_eq_conv)
qed

lemma replace_in_list:
  "\<lbrakk>distinct l; s \<in> set l; x \<notin> set l\<rbrakk> \<Longrightarrow> remove1 s (insert_before s x l) = map (\<lambda>z. if z = s then x else z) l"
proof (induction l)
  case (Cons z l)
  then have "z = s \<Longrightarrow> map (\<lambda>z. if z = s then x else z) l = l" by (auto intro: map_idI)
  with Cons show ?case by auto
qed simp

lemma listed_replace:
  assumes l: "listed R key has l" and s: "has s" "\<not> has x" and key: "key' x = key s" "\<And>z. z \<noteq> s \<Longrightarrow> z \<noteq> x \<Longrightarrow> key' z = key z"
    and has: "\<And>z. has' z \<longleftrightarrow> z = x \<or> has z \<and> z \<noteq> s"
  shows "listed R key' has' (remove1 s (insert_before s x l))"
proof -
  let ?l = "map (\<lambda>z. if z = s then x else z) l"
  have sl: "s \<in> set l" "x \<notin> set l" using l s by (auto simp: listed_def)
  have "map key' ?l = map key l" using key sl(2) by auto
  then have "sorted_wrt R (map key' ?l)" using l by (simp only: listed_def)
  moreover have "set ?l = {z. has' z}" using l s has by (auto simp: listed_def)
  moreover have "distinct ?l" using l sl(2) by (auto simp: listed_def distinct_map inj_on_def)
  ultimately show ?thesis using replace_in_list[of l s x] l sl by (auto simp: listed_def)
qed

definition is_top :: "'d ReorderBuffer \<Rightarrow> TransactionId \<Rightarrow> bool" where
  "is_top rb x \<longleftrightarrow> (\<exists>t. core rb x = Some t \<and> \<not> is_known_as_subxact t)"

definition has_snap :: "'d ReorderBuffer \<Rightarrow> TransactionId \<Rightarrow> bool" where
  "has_snap rb x \<longleftrightarrow> (\<exists>t. core rb x = Some t \<and> base_snapshot t \<noteq> None)"

definition times_ok :: "XLogRecPtr \<Rightarrow> 'd ReorderBufferTXN \<Rightarrow> bool" where
  "times_ok lsn t \<longleftrightarrow> 0 < first_lsn t \<and> first_lsn t \<le> lsn \<and> (end_lsn t \<noteq> 0 \<longrightarrow> first_lsn t \<le> end_lsn t) \<and>
     (base_snapshot t \<noteq> None \<longrightarrow> 0 < base_snapshot_lsn t \<and> base_snapshot_lsn t \<le> lsn \<and> \<not> is_known_as_subxact t)"

definition order_inv :: "'d ReorderBuffer \<Rightarrow> XLogRecPtr \<Rightarrow> bool" where
  "order_inv rb lsn \<longleftrightarrow>
     listed (\<le>) (first_of rb) (is_top rb) (toplevel_by_lsn rb) \<and>
     listed (<) (snap_lsn_of rb) (has_snap rb) (txns_by_base_snapshot_lsn rb) \<and>
     (\<forall>x t. core rb x = Some t \<longrightarrow> times_ok lsn t)"

lemma order_invD:
  assumes "order_inv rb lsn"
  shows "listed (\<le>) (first_of rb) (is_top rb) (toplevel_by_lsn rb)"
    "listed (<) (snap_lsn_of rb) (has_snap rb) (txns_by_base_snapshot_lsn rb)"
    "core rb x = Some t \<Longrightarrow> times_ok lsn t" "x \<in> set (toplevel_by_lsn rb) \<longleftrightarrow> is_top rb x"
    "x \<in> set (txns_by_base_snapshot_lsn rb) \<longleftrightarrow> has_snap rb x"
  using assms by (auto simp: order_inv_def listed_def)

text \<open>The invariant implies what the code asserts.\<close>

lemma order_inv_assert:
  assumes "order_inv rb lsn"
  shows "AssertTXNLsnOrder rb"
proof -
  have "top_ok (core rb x)" if "x \<in> set (toplevel_by_lsn rb)" for x
    using order_invD(3,4)[OF assms, of x] that by (auto simp: is_top_def top_ok_def times_ok_def)
  moreover have "snap_ok (core rb x)" if "x \<in> set (txns_by_base_snapshot_lsn rb)" for x
    using order_invD(3,5)[OF assms, of x] that by (fastforce simp: has_snap_def snap_ok_def times_ok_def)
  moreover have "sorted (map (first_of rb) (toplevel_by_lsn rb))"
    "sorted_wrt (<) (map (snap_lsn_of rb) (txns_by_base_snapshot_lsn rb))"
    using order_invD(1,2)[OF assms] by (simp_all add: listed_def)
  ultimately show ?thesis by (simp add: AssertTXNLsnOrder_def toplevel_order_iff snapshot_order_iff InvalidXLogRecPtr_def)
qed

lemma order_inv_same:
  assumes inv: "order_inv rb lsn" and like: "ordered_like rb rb'" and le: "lsn \<le> lsn'"
  shows "order_inv rb' lsn'"
proof -
  have same: "same_order (core rb y) (core rb' y)" for y using like by (simp add: ordered_like_def)
  have keys: "first_of rb' y = first_of rb y" "snap_lsn_of rb' y = snap_lsn_of rb y" "is_top rb' y = is_top rb y"
    "has_snap rb' y = has_snap rb y" for y
    using same[of y]
    by (cases "core rb y"; cases "core rb' y"; simp add: first_of_def snap_lsn_of_def is_top_def has_snap_def same_order_def)+
  have "times_ok lsn' t" if "core rb' y = Some t" for y t
    using same[of y] order_invD(3)[OF inv, of y] that le
    by (cases "core rb y") (auto simp: same_order_def times_ok_def)
  moreover have "first_of rb' = first_of rb" "snap_lsn_of rb' = snap_lsn_of rb" "is_top rb' = is_top rb" "has_snap rb' = has_snap rb"
    using keys by (simp_all add: fun_eq_iff)
  ultimately show ?thesis
    using like order_invD(1,2)[OF inv] by (simp add: order_inv_def ordered_like_def)
qed

text \<open>The fields the queue of a transaction depends on.\<close>

definition same_queue :: "'d ReorderBufferTXN option \<Rightarrow> 'd ReorderBufferTXN option \<Rightarrow> bool" where
  "same_queue a b \<longleftrightarrow>
     map_option (\<lambda>t. (xid t, nentries_mem t, nentries t, changes t, first_lsn t, final_lsn t, serialized t)) a =
     map_option (\<lambda>t. (xid t, nentries_mem t, nentries t, changes t, first_lsn t, final_lsn t, serialized t)) b"

lemma queue_rel_same:
  assumes "queue_rel cfg sp x a q" "same_queue a b"
  shows "queue_rel cfg sp x b q"
proof (cases a)
  case None
  then show ?thesis using assms by (cases b) (simp_all add: queue_rel_def same_queue_def)
next
  case (Some t)
  then obtain u where u: "b = Some u" "xid u = xid t" "nentries_mem u = nentries_mem t" "nentries u = nentries t"
    "changes u = changes t" "first_lsn u = first_lsn t" "final_lsn u = final_lsn t" "serialized u = serialized t"
    using assms(2) by (cases b) (simp_all add: same_queue_def)
  then show ?thesis using assms(1) Some by (simp add: queue_rel_def txn_rel_def)
qed

lemma rb_rel_same:
  assumes rel: "rb_rel cfg rb Q" and "rb_struct rb'" "cache_ok rb'" "spill rb' = spill rb"
    "\<And>y. same_queue (core rb y) (core rb' y)"
  shows "rb_rel cfg rb' Q"
  using assms queue_rel_same[of cfg "spill rb" _ "core rb _"] unfolding rb_rel_def by metis

lemma same_refl [simp]: "same_queue a a" "same_tree a a"
  by (simp_all add: same_queue_def same_tree_def)

text \<open>An update of one transaction that leaves all of these fields alone.\<close>

lemma upd_txn_neutral:
  assumes rel: "rb_rel cfg rb Q" and ord: "order_inv rb lsn"
    and f: "\<And>t. strip (f t) = f (strip t)" "\<And>t. same_queue (Some t) (Some (f t))" "\<And>t. same_tree (Some t) (Some (f t))"
      "\<And>t. same_order (Some t) (Some (f t))"
  shows "rb_rel cfg (upd_txn x f rb) Q \<and> order_inv (upd_txn x f rb) lsn"
proof
  let ?rb = "upd_txn x f rb"
  have core: "core ?rb y = (if y = x then map_option f (core rb x) else core rb y)" for y
    by (simp add: core_upd_txn[of f, OF f(1)])
  have same: "same_queue (core rb y) (core ?rb y)" "same_tree (core rb y) (core ?rb y)" "same_order (core rb y) (core ?rb y)" for y
    unfolding core by (cases "y = x"; cases "core rb x"; simp add: f(2-4))+
  have none: "core ?rb y = None \<longleftrightarrow> core rb y = None" for y by (simp add: core)
  have "rb_struct rb" "cache_ok rb" using rel by (simp_all add: rb_rel_def)
  then have "rb_struct ?rb" "cache_ok ?rb"
    using rb_struct_same_tree[OF _ same(2)] cache_ok_same[OF _ _ none] by (simp_all add: same_lists_def)
  then show "rb_rel cfg ?rb Q" by (rule rb_rel_same[OF rel _ _ _ same(1)]) simp
  show "order_inv ?rb lsn" by (rule order_inv_same[OF ord]) (use same(3) in \<open>simp_all add: ordered_like_def\<close>)
qed

section \<open>Creating a transaction\<close>

lemma create_top_order:
  assumes ord: "order_inv rb lsn" and le: "lsn \<le> lsn'" "0 < lsn'"
    and core1: "core rb1 = (if core rb x = None then (core rb)(x \<mapsto> fresh_txn x lsn' r) else core rb)"
    and lists: "toplevel_by_lsn rb1 = toplevel_by_lsn rb @ (if core rb x = None then [x] else [])"
      "txns_by_base_snapshot_lsn rb1 = txns_by_base_snapshot_lsn rb"
  shows "order_inv rb1 lsn'"
proof (cases "core rb x = None")
  case False
  then show ?thesis using core1 lists by (intro order_inv_same[OF ord _ le(1)]) (auto simp: ordered_like_def)
next
  case True
  have core: "core rb1 y = (if y = x then Some (fresh_txn x lsn' r) else core rb y)" for y using core1 True by simp
  note defs = first_of_def snap_lsn_of_def is_top_def has_snap_def core
  have "first_of rb z \<le> lsn'" if "z \<in> set (toplevel_by_lsn rb)" for z
    using that order_invD(3,4)[OF ord, of z] le by (auto simp: is_top_def first_of_def times_ok_def)
  then have "listed (\<le>) (first_of rb1) (is_top rb1) (toplevel_by_lsn rb @ [x])"
    by (intro listed_append[OF order_invD(1)[OF ord]]) (auto simp: defs True)
  moreover have "listed (<) (snap_lsn_of rb1) (has_snap rb1) (txns_by_base_snapshot_lsn rb)"
    using order_invD(5)[OF ord, of x] True by (intro listed_cong[OF order_invD(2)[OF ord]]) (auto simp: defs)
  moreover have "times_ok lsn' t" if "core rb1 y = Some t" for y t
    using that order_invD(3)[OF ord, of y t] le by (cases "y = x") (auto simp: core times_ok_def)
  ultimately show ?thesis using lists True by (simp add: order_inv_def)
qed

lemma create_top:
  assumes rel: "rb_rel cfg rb Q" and ord: "order_inv rb lsn" and le: "lsn \<le> lsn'" "0 < lsn'"
  obtains rb1 t where "ReorderBufferTXNByXid rb x True lsn' True = (rb1, Some x, core rb x = None)"
    "rb_rel cfg rb1 Q" "order_inv rb1 lsn'" "core rb1 x = Some t" "spill rb1 = spill rb"
    "core rb1 = (if core rb x = None then (core rb)(x \<mapsto> fresh_txn x lsn' (current_restart_decoding_lsn rb)) else core rb)"
    "\<And>u. core rb x = Some u \<Longrightarrow> t = u"
proof -
  obtain rb1 where rb1: "ReorderBufferTXNByXid rb x True lsn' True = (rb1, Some x, core rb x = None)" "rb_rel cfg rb1 Q"
    "spill rb1 = spill rb"
    "core rb1 = (if core rb x = None then (core rb)(x \<mapsto> fresh_txn x lsn' (current_restart_decoding_lsn rb)) else core rb)"
    "toplevel_by_lsn rb1 = toplevel_by_lsn rb @ (if core rb x = None \<and> True then [x] else [])"
    "txns_by_base_snapshot_lsn rb1 = txns_by_base_snapshot_lsn rb"
    using txn_by_xid_create[OF rel, where x = x and lsn = lsn' and as_top = True] by metis
  have "order_inv rb1 lsn'" by (rule create_top_order[OF ord le rb1(4)]) (use rb1(5,6) in simp_all)
  moreover obtain t where "core rb1 x = Some t" "\<And>u. core rb x = Some u \<Longrightarrow> t = u" using rb1(4) by (cases "core rb x") auto
  ultimately show ?thesis using that[OF rb1(1,2)] rb1(3,4) by blast
qed

end
