(* ===== verification/Reorder_Assign.thy ===== *)
theory Reorder_Assign
  imports Reorder_Order
begin

text \<open>
  What the operations of the reorder buffer keep. \<open>rb_inv\<close> collects the refinement relation, the
  order of the lists and that no queued change is newer than the WAL position read so far. The
  operations on a single transaction, the base snapshots and the assignment of subtransactions
  are treated here.
\<close>

definition rb_inv ::
  "decoding_config \<Rightarrow> 'd ReorderBuffer \<Rightarrow> (TransactionId \<Rightarrow> 'd ReorderBufferChange list) \<Rightarrow> XLogRecPtr \<Rightarrow> bool" where
  "rb_inv cfg rb Q lsn \<longleftrightarrow> rb_rel cfg rb Q \<and> order_inv rb lsn \<and> (\<forall>x. \<forall>c \<in> set (Q x). chg_lsn c \<le> lsn)"

lemma rb_invD:
  assumes "rb_inv cfg rb Q lsn"
  shows "rb_rel cfg rb Q" "rb_struct rb" "cache_ok rb" "order_inv rb lsn" "c \<in> set (Q x) \<Longrightarrow> chg_lsn c \<le> lsn"
    "core rb x = Some t \<Longrightarrow> times_ok lsn t"
  using assms order_invD(3) by (auto simp: rb_inv_def rb_rel_def)

lemma rb_inv_init: "rb_inv cfg ReorderBufferAllocate (\<lambda>_. []) 0"
  by (simp add: rb_inv_def rb_rel_def rb_struct_def cache_ok_def queue_rel_def order_inv_def listed_def is_top_def core_def
      has_snap_def spill_file_def ReorderBufferAllocate_def InvalidTransactionId_def)

section \<open>Operations on one transaction\<close>

lemma create_inv:
  assumes inv: "rb_inv cfg rb Q lsn" and le: "lsn \<le> lsn'" "0 < lsn'"
  obtains rb1 t where "ReorderBufferTXNByXid rb x True lsn' True = (rb1, Some x, core rb x = None)"
    "rb_inv cfg rb1 Q lsn'" "core rb1 x = Some t" "spill rb1 = spill rb"
    "core rb1 = (if core rb x = None then (core rb)(x \<mapsto> fresh_txn x lsn' (current_restart_decoding_lsn rb)) else core rb)"
    "\<And>u. core rb x = Some u \<Longrightarrow> t = u"
proof -
  obtain rb1 t where rb1: "ReorderBufferTXNByXid rb x True lsn' True = (rb1, Some x, core rb x = None)"
    "rb_rel cfg rb1 Q" "order_inv rb1 lsn'" "core rb1 x = Some t" "spill rb1 = spill rb"
    "core rb1 = (if core rb x = None then (core rb)(x \<mapsto> fresh_txn x lsn' (current_restart_decoding_lsn rb)) else core rb)"
    "\<And>u. core rb x = Some u \<Longrightarrow> t = u"
    by (rule create_top[OF rb_invD(1,4)[OF inv] le, of x]) blast
  have "rb_inv cfg rb1 Q lsn'" using rb1(2,3) rb_invD(5)[OF inv] le by (fastforce simp: rb_inv_def)
  then show ?thesis using that rb1 by blast
qed

lemma queue_inv:
  assumes inv: "rb_inv cfg rb Q lsn" and le: "lsn \<le> lsn'" "0 < lsn'"
  shows "\<exists>rb'. ReorderBufferQueueChange cfg rb x lsn' change = Some rb' \<and>
    rb_inv cfg rb' (Q(x := Q x @ [change\<lparr>chg_lsn := lsn', chg_txn := x\<rparr>])) lsn'"
proof -
  obtain rb1 t where rb1: "ReorderBufferTXNByXid rb x True lsn' True = (rb1, Some x, core rb x = None)" "rb_inv cfg rb1 Q lsn'"
    by (rule create_inv[OF inv le, of x]) blast
  have "first_lsn t \<le> lsn'" if "core rb x = Some t" for t using rb_invD(6)[OF inv that] le by (simp add: times_ok_def)
  moreover have old: "chg_lsn d \<le> lsn'" if "d \<in> set (Q y)" for d y using rb_invD(5)[OF inv that] le by simp
  ultimately obtain rb' where rb': "ReorderBufferQueueChange cfg rb x lsn' change = Some rb'"
    "rb_rel cfg rb' (Q(x := Q x @ [change\<lparr>chg_lsn := lsn', chg_txn := x\<rparr>]))"
    "ordered_like (fst (ReorderBufferTXNByXid rb x True lsn' True)) rb'"
    using queue_change_correct[OF rb_invD(1)[OF inv], of x lsn' change] by blast
  then have "order_inv rb' lsn'" using order_inv_same[OF rb_invD(4)[OF rb1(2)]] rb1(1) by simp
  then show ?thesis using rb' old by (auto simp: rb_inv_def)
qed

text \<open>The fields that no list, no queue and no file depends on.\<close>

definition neutral :: "('d ReorderBufferTXN \<Rightarrow> 'd ReorderBufferTXN) \<Rightarrow> bool" where
  "neutral f \<longleftrightarrow> (\<forall>t. strip (f t) = f (strip t) \<and> same_queue (Some t) (Some (f t)) \<and> same_tree (Some t) (Some (f t)) \<and>
     same_order (Some t) (Some (f t)))"

lemma neutral_inv:
  assumes inv: "rb_inv cfg rb Q lsn" and f: "neutral f"
  shows "rb_inv cfg (upd_txn x f rb) Q lsn"
  using upd_txn_neutral[OF rb_invD(1,4)[OF inv], of f x] f rb_invD(5)[OF inv] by (auto simp: rb_inv_def neutral_def)

lemma neutral_updates:
  "neutral (\<lambda>t. t\<lparr>has_catalog_changes := b\<rparr>)" "neutral (\<lambda>t. t\<lparr>invalidations := msgs\<rparr>)"
  "neutral (\<lambda>t. t\<lparr>tuplecids := g (tuplecids t), ntuplecids := h (ntuplecids t)\<rparr>)"
  by (simp_all add: neutral_def same_queue_def same_tree_def same_order_def strip_def)

lemma process_xid_inv:
  assumes inv: "rb_inv cfg rb Q lsn" and le: "lsn \<le> lsn'" "0 < lsn'"
  shows "rb_inv cfg (ReorderBufferProcessXid rb x lsn') Q lsn'"
proof (cases "x = InvalidTransactionId")
  case True
  then show ?thesis using inv le order_inv_same[of rb lsn rb lsn']
    by (auto simp: ReorderBufferProcessXid_def rb_inv_def ordered_like_def intro: order_trans)
next
  case False
  obtain rb1 where "ReorderBufferTXNByXid rb x True lsn' True = (rb1, Some x, core rb x = None)" "rb_inv cfg rb1 Q lsn'"
    by (rule create_inv[OF inv le, of x]) blast
  then show ?thesis using False by (simp add: ReorderBufferProcessXid_def)
qed

lemma set_catalog_changes_inv:
  assumes inv: "rb_inv cfg rb Q lsn" and le: "lsn \<le> lsn'" "0 < lsn'"
  shows "\<exists>rb'. ReorderBufferXidSetCatalogChanges rb x lsn' = Some rb' \<and> rb_inv cfg rb' Q lsn'"
proof -
  obtain rb1 where "ReorderBufferTXNByXid rb x True lsn' True = (rb1, Some x, core rb x = None)" "rb_inv cfg rb1 Q lsn'"
    by (rule create_inv[OF inv le, of x]) blast
  then show ?thesis by (simp add: ReorderBufferXidSetCatalogChanges_def neutral_inv neutral_updates)
qed

lemma add_tuplecids_inv:
  assumes inv: "rb_inv cfg rb Q lsn" and le: "lsn \<le> lsn'" "0 < lsn'"
  shows "\<exists>rb'. ReorderBufferAddNewTupleCids rb x lsn' tc = Some rb' \<and> rb_inv cfg rb' Q lsn'"
proof -
  obtain rb1 where "ReorderBufferTXNByXid rb x True lsn' True = (rb1, Some x, core rb x = None)" "rb_inv cfg rb1 Q lsn'"
    by (rule create_inv[OF inv le, of x]) blast
  then show ?thesis
    using neutral_inv[OF _ neutral_updates(3)[where g = "\<lambda>l. l @ [_]" and h = "\<lambda>n. n + 1"]]
    by (simp add: ReorderBufferAddNewTupleCids_def Let_def)
qed

lemma add_invalidations_inv:
  assumes inv: "rb_inv cfg rb Q lsn" and le: "lsn \<le> lsn'" "0 < lsn'"
  shows "\<exists>r. ReorderBufferAddInvalidations rb x lsn' msgs = Some r \<and>
    (case r of Inl e \<Rightarrow> (\<exists>t. core rb x = Some t \<and> invalidations t \<noteq> []) | Inr rb' \<Rightarrow> rb_inv cfg rb' Q lsn')"
proof -
  obtain rb1 t where rb1: "ReorderBufferTXNByXid rb x True lsn' True = (rb1, Some x, core rb x = None)" "rb_inv cfg rb1 Q lsn'"
    "core rb1 x = Some t" "\<And>u. core rb x = Some u \<Longrightarrow> t = u" 
    "core rb1 = (if core rb x = None then (core rb)(x \<mapsto> fresh_txn x lsn' (current_restart_decoding_lsn rb)) else core rb)"
    by (rule create_inv[OF inv le, of x]) blast
  obtain b where b: "by_txn rb1 x = Some b" "invalidations b = invalidations t" using rb1(3) by (auto simp: core_eq_Some)
  have "invalidations t \<noteq> [] \<Longrightarrow> core rb x = Some t"
    using rb1(3,5) by (cases "core rb x = None") (auto simp: fresh_txn_def ReorderBufferGetTXN_def)
  then show ?thesis
    using rb1(1) b neutral_inv[OF rb1(2) neutral_updates(2)] by (simp add: ReorderBufferAddInvalidations_def)
qed

section \<open>Base snapshots\<close>

lemma find_inv:
  assumes inv: "rb_inv cfg rb Q lsn"
  obtains rb1 n where "ReorderBufferTXNByXid rb x False l b = (rb1, if core rb x = None then None else Some x, n)"
    "rb_inv cfg rb1 Q lsn" "core rb1 = core rb" "by_txn rb1 = by_txn rb" "spill rb1 = spill rb"
    "toplevel_by_lsn rb1 = toplevel_by_lsn rb" "txns_by_base_snapshot_lsn rb1 = txns_by_base_snapshot_lsn rb"
proof -
  let ?rb = "rb\<lparr>by_txn_last_xid := x, by_txn_last_txn := if core rb x = None then None else Some x\<rparr>"
  have core: "core ?rb = core rb" by simp
  have "rb_struct ?rb" using rb_invD(2)[OF inv] by (simp add: rb_struct_def)
  then have "rb_rel cfg ?rb Q" using rb_invD(1)[OF inv] by (simp add: rb_rel_def cache_ok_def)
  moreover have "order_inv ?rb lsn" by (rule order_inv_same[OF rb_invD(4)[OF inv]]) (simp_all add: ordered_like_def)
  ultimately have "rb_inv cfg ?rb Q lsn" using rb_invD(5)[OF inv] by (simp add: rb_inv_def)
  moreover have "\<exists>n. ReorderBufferTXNByXid rb x False l b = (?rb, if core rb x = None then None else Some x, n)"
    using rb_invD(3)[OF inv] by (subst txn_by_xid_eq) (auto simp: core_eq_None)
  ultimately show ?thesis using that[of ?rb] by auto
qed

lemma rb_rel_like:
  assumes rel: "rb_rel cfg rb Q" and same: "\<And>y. same_queue (core rb y) (core rb' y)" and struct: "rb_struct rb'"
    and rest: "spill rb' = spill rb" "by_txn_last_xid rb' = by_txn_last_xid rb" "by_txn_last_txn rb' = by_txn_last_txn rb"
  shows "rb_rel cfg rb' Q"
proof (rule rb_rel_same[OF rel struct _ rest(1) same])
  have "core rb' y = None \<longleftrightarrow> core rb y = None" for y using same[of y] by (auto simp: same_queue_def)
  then show "cache_ok rb'" using rel rest by (simp add: rb_rel_def cache_ok_def)
qed

lemma core_set_snapshot:
  "core (upd_txn y (\<lambda>t. t\<lparr>base_snapshot := a, base_snapshot_lsn := b\<rparr>) rb) =
     (core rb)(y := map_option (\<lambda>t. t\<lparr>base_snapshot := a, base_snapshot_lsn := b\<rparr>) (core rb y))"
  by (rule core_upd_txn) (simp add: strip_def)

lemma set_snapshot_inv:
  assumes inv: "rb_inv cfg rb Q lsn" and lsn: "0 < lsn" and t: "core rb y = Some t" "\<not> is_known_as_subxact t" "base_snapshot t = None"
    and newest: "\<And>z u. core rb z = Some u \<Longrightarrow> base_snapshot u \<noteq> None \<Longrightarrow> base_snapshot_lsn u < lsn"
  shows "rb_inv cfg ((upd_txn y (\<lambda>t. t\<lparr>base_snapshot := Some snap, base_snapshot_lsn := lsn\<rparr>) rb)
    \<lparr>txns_by_base_snapshot_lsn := txns_by_base_snapshot_lsn rb @ [y]\<rparr>) Q lsn" (is "rb_inv cfg ?rb Q lsn")
proof -
  note defs = first_of_def snap_lsn_of_def is_top_def has_snap_def core_set_snapshot
  have "rb_struct ?rb" by (rule rb_struct_same_tree[OF rb_invD(2)[OF inv]]) (simp add: core_set_snapshot t same_tree_def)
  then have "rb_rel cfg ?rb Q" by (intro rb_rel_like[OF rb_invD(1)[OF inv]]) (simp_all add: core_set_snapshot t same_queue_def)
  moreover have "listed (\<le>) (first_of ?rb) (is_top ?rb) (toplevel_by_lsn rb)"
    by (rule listed_cong[OF order_invD(1)[OF rb_invD(4)[OF inv]]]) (use t in \<open>auto simp: defs\<close>)
  moreover have "snap_lsn_of rb z < lsn" if "z \<in> set (txns_by_base_snapshot_lsn rb)" for z
    using that newest[of z] order_invD(5)[OF rb_invD(4)[OF inv], of z] by (auto simp: has_snap_def snap_lsn_of_def)
  then have "listed (<) (snap_lsn_of ?rb) (has_snap ?rb) (txns_by_base_snapshot_lsn rb @ [y])"
    by (intro listed_append[OF order_invD(2)[OF rb_invD(4)[OF inv]]]) (use t in \<open>auto simp: defs\<close>)
  moreover have "times_ok lsn u" if u: "core ?rb z = Some u" for z u
  proof (cases "z = y")
    case True
    then have "u = t\<lparr>base_snapshot := Some snap, base_snapshot_lsn := lsn\<rparr>" using u by (simp add: core_set_snapshot t(1))
    then show ?thesis using rb_invD(6)[OF inv t(1)] t(2) lsn by (simp add: times_ok_def)
  next
    case False
    then have "core rb z = Some u" using u by (simp add: core_set_snapshot)
    then show ?thesis by (rule rb_invD(6)[OF inv])
  qed
  ultimately show ?thesis using rb_invD(5)[OF inv] by (auto simp: rb_inv_def order_inv_def)
qed

text \<open>The transaction that carries the base snapshot: the parent of a known subtransaction.\<close>

definition owner :: "'d ReorderBuffer \<Rightarrow> TransactionId \<Rightarrow> TransactionId" where
  "owner rb x = (case core rb x of None \<Rightarrow> x | Some t \<Rightarrow> if is_known_as_subxact t then toplevel_xid t else x)"

lemma set_base_snapshot_inv:
  assumes inv: "rb_inv cfg rb Q lsn" and le: "lsn \<le> lsn'" "0 < lsn'"
    and newest: "\<And>z u. core rb z = Some u \<Longrightarrow> base_snapshot u \<noteq> None \<Longrightarrow> base_snapshot_lsn u < lsn'"
    and none: "\<not> has_snap rb (owner rb x)"
  shows "\<exists>rb'. ReorderBufferSetBaseSnapshot rb x lsn' snap = Some (Inr rb') \<and> rb_inv cfg rb' Q lsn' \<and> has_snap rb' (owner rb x)"
proof -
  obtain rb1 t where rb1: "ReorderBufferTXNByXid rb x True lsn' True = (rb1, Some x, core rb x = None)" "rb_inv cfg rb1 Q lsn'"
    "core rb1 x = Some t"
    "core rb1 = (if core rb x = None then (core rb)(x \<mapsto> fresh_txn x lsn' (current_restart_decoding_lsn rb)) else core rb)"
    by (rule create_inv[OF inv le, of x]) blast
  have own: "owner rb x = (if is_known_as_subxact t then toplevel_xid t else x)"
    using rb1(3,4) by (cases "core rb x = None") (auto simp: owner_def)
  have newest1: "base_snapshot_lsn u < lsn'" if "core rb1 z = Some u" "base_snapshot u \<noteq> None" for z u
    using that newest[of z u] rb1(4) by (cases "core rb x = None"; cases "z = x") auto
  have none1: "base_snapshot u = None" if "core rb1 (owner rb x) = Some u" for u
    using that none rb1(4) by (cases "core rb x = None"; cases "owner rb x = x") (auto simp: has_snap_def)
  obtain b where b: "by_txn rb1 x = Some b" "is_known_as_subxact b = is_known_as_subxact t" "toplevel_xid b = toplevel_xid t"
    using rb1(3) by (auto simp: core_eq_Some)
  have "\<exists>p. core rb1 (owner rb x) = Some p \<and> \<not> is_known_as_subxact p"
    using rb_structD(4)[OF rb_invD(2)[OF rb1(2)] rb1(3)] rb1(3) own by auto
  then obtain p where p: "core rb1 (owner rb x) = Some p" "\<not> is_known_as_subxact p" by blast
  obtain rb2 n where rb2: "(if is_known_as_subxact b then ReorderBufferTXNByXid rb1 (toplevel_xid b) False InvalidXLogRecPtr False
      else (rb1, Some x, False)) = (rb2, Some (owner rb x), n)" "rb_inv cfg rb2 Q lsn'" "core rb2 = core rb1"
  proof (cases "is_known_as_subxact b")
    case True
    obtain rb2 n where "ReorderBufferTXNByXid rb1 (toplevel_xid b) False InvalidXLogRecPtr False =
        (rb2, if core rb1 (toplevel_xid b) = None then None else Some (toplevel_xid b), n)" "rb_inv cfg rb2 Q lsn'" "core rb2 = core rb1"
      by (rule find_inv[OF rb1(2)]) blast
    then show ?thesis using that True p own b by simp
  next
    case False
    then show ?thesis using that rb1(2) own b by simp
  qed
  let ?rb = "(upd_txn (owner rb x) (\<lambda>t. t\<lparr>base_snapshot := Some snap, base_snapshot_lsn := lsn'\<rparr>) rb2)
    \<lparr>txns_by_base_snapshot_lsn := txns_by_base_snapshot_lsn rb2 @ [owner rb x]\<rparr>"
  have "rb_inv cfg ?rb Q lsn'"
    by (rule set_snapshot_inv[OF rb2(2) le(2)]) (use p none1 newest1 rb2(3) in auto)
  moreover have "has_snap ?rb (owner rb x)" using p rb2(3) by (simp add: has_snap_def core_set_snapshot)
  moreover have "ReorderBufferSetBaseSnapshot rb x lsn' snap = Some (Inr ?rb)"
    using rb1(1) b(1) rb2(1) by (simp add: ReorderBufferSetBaseSnapshot_def)
  ultimately show ?thesis by blast
qed

end
