(* ===== verification/Reorder_Child.thy ===== *)
theory Reorder_Child
  imports Reorder_Assign
begin

text \<open>
  Assigning a subtransaction to its top-level transaction: the subtransaction leaves the list of
  top-level transactions and its base snapshot, when it is the older one, moves to the parent
  at its place in the ordered list.
\<close>

lemma rb_struct_assign:
  assumes struct: "rb_struct rb" and x: "core rb x = Some t" "\<not> is_known_as_subxact t"
    and s: "core rb sub = Some s" "\<not> is_known_as_subxact s" "subtxns s = []" and ne: "x \<noteq> sub"
    and core: "core rb' = (core rb)(sub \<mapsto> s', x \<mapsto> t')"
    and s': "is_known_as_subxact s'" "toplevel_xid s' = x" "subtxns s' = []"
    and t': "subtxns t' = subtxns t @ [sub]" "\<not> is_known_as_subxact t'"
  shows "rb_struct rb'"
proof -
  have c: "core rb' y = (if y = x then Some t' else if y = sub then Some s' else core rb y)" for y using core ne by simp
  have child: "u \<noteq> sub \<and> u \<noteq> x" if "core rb y = Some v" "u \<in> set (subtxns v)" for y v u
    using rb_structD(2)[OF struct that] x s by auto
  have kept: "\<exists>u. core rb' z = Some u \<and> is_known_as_subxact u \<and> toplevel_xid u = y"
    if "core rb y = Some v" "z \<in> set (subtxns v)" for y v z
    using rb_structD(2)[OF struct that] child[OF that] by (auto simp: c)
  show ?thesis
  proof (rule rb_structI)
    fix y v assume v: "core rb' y = Some v"
    consider "y = x" "v = t'" | "y = sub" "v = s'" | "y \<noteq> x" "y \<noteq> sub" "core rb y = Some v" using v by (auto simp: c split: if_splits)
    note cases = this
    show "distinct (subtxns v)"
      by (rule cases) (use child[OF x(1)] rb_structD(1)[OF struct] x(1) s' t' in auto)
    show "\<exists>u. core rb' z = Some u \<and> is_known_as_subxact u \<and> toplevel_xid u = y" if z: "z \<in> set (subtxns v)" for z
      by (rule cases) (use z kept[of y _ z] x(1) s' t' ne in \<open>auto simp: c\<close>)
    show "subtxns v = []" if "is_known_as_subxact v"
      by (rule cases) (use that rb_structD(3)[OF struct, of y v] s' t' in auto)
    show "\<exists>p. core rb' (toplevel_xid v) = Some p \<and> y \<in> set (subtxns p)" if k: "is_known_as_subxact v"
    proof (rule cases)
      assume "y \<noteq> x" "y \<noteq> sub" "core rb y = Some v"
      from rb_structD(4)[OF struct this(3) k] show ?thesis using x s t' by (auto simp: c)
    qed (use k s' t' in \<open>auto simp: c\<close>)
  qed
qed

text \<open>Where the base snapshot ends up: the snapshot and LSN of the parent and the ordered list.\<close>

definition transferred ::
  "TransactionId \<Rightarrow> TransactionId \<Rightarrow> 'd ReorderBufferTXN \<Rightarrow> 'd ReorderBufferTXN \<Rightarrow> TransactionId list \<Rightarrow>
   Snapshot option \<times> XLogRecPtr \<times> TransactionId list" where
  "transferred x sub t s snaps =
     (if base_snapshot s \<noteq> None \<and> (base_snapshot t = None \<or> base_snapshot_lsn s < base_snapshot_lsn t)
      then (base_snapshot s, base_snapshot_lsn s, remove1 sub (insert_before sub x (remove1 x snaps)))
      else (base_snapshot t, base_snapshot_lsn t, if base_snapshot s = None then snaps else remove1 sub snaps))"

lemma transferred_listed:
  assumes l: "listed (<) key has snaps" and ne: "x \<noteq> sub"
    and key: "has x \<Longrightarrow> key x = base_snapshot_lsn t" "has sub \<Longrightarrow> key sub = base_snapshot_lsn s"
    and has: "has x \<longleftrightarrow> base_snapshot t \<noteq> None" "has sub \<longleftrightarrow> base_snapshot s \<noteq> None"
    and r: "transferred x sub t s snaps = (bs, bl, snaps')"
    and key': "key' x = bl" "\<And>z. z \<noteq> x \<Longrightarrow> z \<noteq> sub \<Longrightarrow> key' z = key z"
    and has': "has' x \<longleftrightarrow> bs \<noteq> None" "\<not> has' sub" "\<And>z. z \<noteq> x \<Longrightarrow> z \<noteq> sub \<Longrightarrow> has' z = has z"
  shows "listed (<) key' has' snaps'"
proof (cases "base_snapshot s \<noteq> None \<and> (base_snapshot t = None \<or> base_snapshot_lsn s < base_snapshot_lsn t)")
  case True
  have "listed (<) key (\<lambda>z. z \<noteq> x \<and> has z) (remove1 x snaps)" by (rule listed_remove[OF l]) simp_all
  then have "listed (<) key' has' (remove1 sub (insert_before sub x (remove1 x snaps)))"
    by (rule listed_replace) (use True r key(2) key' has has' ne in \<open>auto simp: transferred_def\<close>)
  then show ?thesis using True r by (simp add: transferred_def)
next
  case False
  then have eq: "bs = base_snapshot t" "bl = base_snapshot_lsn t" "snaps' = (if base_snapshot s = None then snaps else remove1 sub snaps)"
    using r by (auto simp: transferred_def)
  have "sub \<notin> set snaps \<Longrightarrow> remove1 sub snaps = snaps" by (simp add: remove1_idem)
  then have snaps': "snaps' = remove1 sub snaps" using eq(3) l has(2) by (auto simp: listed_def)
  have keys: "key' z = key z" if "z \<in> set (remove1 sub snaps)" for z
    using that l key' key(1) eq(2) by (cases "z = x") (auto simp: listed_def)
  have "listed (<) key has' (remove1 sub snaps)"
    by (rule listed_remove[OF l]) (use has has' eq(1) ne in \<open>metis\<close>)+
  then show ?thesis unfolding snaps' by (rule listed_cong) (use keys in auto)
qed

lemma assigned_inv:
  assumes inv: "rb_inv cfg rb1 Q lsn" and lsn: "0 < lsn" and rel2: "rb_rel cfg rb2 Q" and ne: "x \<noteq> sub"
    and t: "core rb1 x = Some t" "\<not> is_known_as_subxact t"
    and s: "core rb1 sub = Some s \<or> core rb1 sub = None \<and> s = fresh_txn sub lsn r" "\<not> is_known_as_subxact s" "subtxns s = []"
    and core2: "core rb2 = (core rb1)(sub \<mapsto> s)"
    and core: "core rb' = (core rb1)(sub \<mapsto> s\<lparr>is_known_as_subxact := True, toplevel_xid := x, base_snapshot := None, base_snapshot_lsn := l\<rparr>,
        x \<mapsto> t\<lparr>subtxns := subtxns t @ [sub], nsubtxns := n, base_snapshot := bs, base_snapshot_lsn := bl\<rparr>)"
    and snaps: "transferred x sub t s (txns_by_base_snapshot_lsn rb1) = (bs, bl, txns_by_base_snapshot_lsn rb')"
    and lists: "toplevel_by_lsn rb' = remove1 sub (toplevel_by_lsn rb1)" "spill rb' = spill rb2" "cache_ok rb'"
  shows "rb_inv cfg rb' Q lsn"
proof -
  let ?s = "s\<lparr>is_known_as_subxact := True, toplevel_xid := x, base_snapshot := None, base_snapshot_lsn := l\<rparr>"
  let ?t = "t\<lparr>subtxns := subtxns t @ [sub], nsubtxns := n, base_snapshot := bs, base_snapshot_lsn := bl\<rparr>"
  have c: "core rb' y = (if y = x then Some ?t else if y = sub then Some ?s else core rb1 y)" for y using core ne by simp
  have c2: "core rb2 y = (if y = sub then Some s else core rb1 y)" for y using core2 by simp
  note defs = first_of_def snap_lsn_of_def is_top_def has_snap_def c
  have "rb_struct rb2" using rel2 by (simp add: rb_rel_def)
  then have "rb_struct rb'"
    by (rule rb_struct_assign[where x = x and t = t and sub = sub and s = s and s' = ?s and t' = ?t])
      (use t s ne core core2 in simp_all)
  then have rel: "rb_rel cfg rb' Q"
    by (rule rb_rel_same[OF rel2 _ lists(3,2)]) (use t(1) ne in \<open>simp add: c c2 same_queue_def\<close>)
  note ord = rb_invD(4)[OF inv]
  have top: "listed (\<le>) (first_of rb') (is_top rb') (toplevel_by_lsn rb')"
    unfolding lists(1) by (rule listed_remove[OF order_invD(1)[OF ord]]) (use t ne in \<open>auto simp: defs\<close>)
  have hs: "has_snap rb1 sub \<longleftrightarrow> base_snapshot s \<noteq> None" "has_snap rb1 sub \<Longrightarrow> snap_lsn_of rb1 sub = base_snapshot_lsn s"
    using s(1) by (auto simp: has_snap_def snap_lsn_of_def)
  have snap: "listed (<) (snap_lsn_of rb') (has_snap rb') (txns_by_base_snapshot_lsn rb')"
    by (rule transferred_listed[OF order_invD(2)[OF ord] ne _ _ _ _ snaps]) (use t ne hs in \<open>auto simp: defs\<close>)
  have ts: "times_ok lsn t" "times_ok lsn s" using rb_invD(6)[OF inv] t(1) s(1) lsn by (auto simp: times_ok_def)
  have "times_ok lsn ?s" using ts(2) by (simp add: times_ok_def)
  moreover have "times_ok lsn ?t" using ts snaps t(2) by (auto simp: times_ok_def transferred_def split: if_splits)
  ultimately have "times_ok lsn u" if "core rb' y = Some u" for y u
    using that rb_invD(6)[OF inv, of y u] by (auto simp: c split: if_splits)
  then show ?thesis using rel top snap rb_invD(5)[OF inv] by (auto simp: rb_inv_def order_inv_def)
qed

section \<open>The code\<close>

lemma core_tree_updates:
  "core (upd_txn y (\<lambda>t. t\<lparr>is_known_as_subxact := k, toplevel_xid := p\<rparr>) rb) =
     (core rb)(y := map_option (\<lambda>t. t\<lparr>is_known_as_subxact := k, toplevel_xid := p\<rparr>) (core rb y))"
  "core (upd_txn y (\<lambda>t. t\<lparr>subtxns := g t, nsubtxns := h t\<rparr>) rb) =
     (core rb)(y := map_option (\<lambda>t. t\<lparr>subtxns := g t, nsubtxns := h t\<rparr>) (core rb y))"
  if "\<And>t. g (strip t) = g t" "\<And>t. h (strip t) = h t"
  using that by (intro core_upd_txn; simp add: strip_def)+

lemma transfer_correct:
  assumes x: "core rb x = Some t" and sub: "core rb sub = Some s" and ne: "x \<noteq> sub"
    and none: "base_snapshot t = None \<Longrightarrow> x \<notin> set (txns_by_base_snapshot_lsn rb)"
    and r: "transferred x sub t s (txns_by_base_snapshot_lsn rb) = (bs, bl, snaps)"
  obtains rb' l where "ReorderBufferTransferSnapToParent rb x sub = Some rb'"
    "core rb' = (core rb)(sub \<mapsto> s\<lparr>base_snapshot := None, base_snapshot_lsn := l\<rparr>, x \<mapsto> t\<lparr>base_snapshot := bs, base_snapshot_lsn := bl\<rparr>)"
    "txns_by_base_snapshot_lsn rb' = snaps" "toplevel_by_lsn rb' = toplevel_by_lsn rb" "spill rb' = spill rb"
    "by_txn_last_xid rb' = by_txn_last_xid rb" "by_txn_last_txn rb' = by_txn_last_txn rb"
proof -
  obtain t0 s0 where b: "by_txn rb x = Some t0" "by_txn rb sub = Some s0" "t = strip t0" "s = strip s0"
    using x sub by (auto simp: core_eq_Some)
  note code = ReorderBufferTransferSnapToParent_def Let_def
  have idem: "base_snapshot t = None \<Longrightarrow> remove1 x (txns_by_base_snapshot_lsn rb) = txns_by_base_snapshot_lsn rb"
    using none by (simp add: remove1_idem)
  consider (keep) "base_snapshot s = None"
    | (move) "base_snapshot s \<noteq> None" "base_snapshot t = None \<or> base_snapshot_lsn s < base_snapshot_lsn t"
    | (drop) "base_snapshot s \<noteq> None" "\<not> (base_snapshot t = None \<or> base_snapshot_lsn s < base_snapshot_lsn t)" by blast
  then show ?thesis
  proof cases
    case keep
    then have eq: "bs = base_snapshot t" "bl = base_snapshot_lsn t" "snaps = txns_by_base_snapshot_lsn rb"
      using r by (auto simp: transferred_def)
    have "s\<lparr>base_snapshot := None, base_snapshot_lsn := base_snapshot_lsn s\<rparr> = s"
      "t\<lparr>base_snapshot := base_snapshot t, base_snapshot_lsn := base_snapshot_lsn t\<rparr> = t" using keep by (cases s; simp)+
    then show ?thesis using that[of rb "base_snapshot_lsn s"] keep b x sub eq by (simp add: code fun_upd_idem)
  next
    case move
    let ?rb = "(upd_txn sub (\<lambda>t. t\<lparr>base_snapshot := None, base_snapshot_lsn := InvalidXLogRecPtr\<rparr>)
      (upd_txn x (\<lambda>t. t\<lparr>base_snapshot := base_snapshot s0, base_snapshot_lsn := base_snapshot_lsn s0\<rparr>) rb))
      \<lparr>txns_by_base_snapshot_lsn := snaps\<rparr>"
    have eq: "bs = base_snapshot s" "bl = base_snapshot_lsn s" "snaps = remove1 sub (insert_before sub x (remove1 x (txns_by_base_snapshot_lsn rb)))"
      using r move by (auto simp: transferred_def)
    have "ReorderBufferTransferSnapToParent rb x sub = Some ?rb"
      using move b eq idem by (auto simp: code)
    moreover have "core ?rb = (core rb)(sub \<mapsto> s\<lparr>base_snapshot := None, base_snapshot_lsn := InvalidXLogRecPtr\<rparr>,
        x \<mapsto> t\<lparr>base_snapshot := bs, base_snapshot_lsn := bl\<rparr>)"
      using x sub ne eq b(4) by (simp add: core_set_snapshot fun_upd_twist)
    ultimately show ?thesis using that[of ?rb] by simp
  next
    case drop
    let ?rb = "(upd_txn sub (\<lambda>t. t\<lparr>base_snapshot := None, base_snapshot_lsn := InvalidXLogRecPtr\<rparr>) rb)
      \<lparr>txns_by_base_snapshot_lsn := snaps\<rparr>"
    have eq: "bs = base_snapshot t" "bl = base_snapshot_lsn t" "snaps = remove1 sub (txns_by_base_snapshot_lsn rb)"
      using r drop by (auto simp: transferred_def)
    have "ReorderBufferTransferSnapToParent rb x sub = Some ?rb" using drop b eq by (auto simp: code)
    moreover have "t\<lparr>base_snapshot := base_snapshot t, base_snapshot_lsn := base_snapshot_lsn t\<rparr> = t" by simp
    then have "core ?rb = (core rb)(sub \<mapsto> s\<lparr>base_snapshot := None, base_snapshot_lsn := InvalidXLogRecPtr\<rparr>,
        x \<mapsto> t\<lparr>base_snapshot := bs, base_snapshot_lsn := bl\<rparr>)"
      using x sub ne eq(1,2) by (simp add: core_set_snapshot fun_upd_idem fun_upd_other)
    ultimately show ?thesis using that[of ?rb] by simp
  qed
qed

text \<open>
  The callers' side of the contract: a transaction is not its own child, the parent is no
  subtransaction, and the child has no children of its own.
\<close>

definition may_assign :: "'d ReorderBuffer \<Rightarrow> TransactionId \<Rightarrow> TransactionId \<Rightarrow> bool" where
  "may_assign rb x sub \<longleftrightarrow> x \<noteq> sub \<and> (\<forall>t. core rb x = Some t \<longrightarrow> \<not> is_known_as_subxact t) \<and>
     (\<forall>s. core rb sub = Some s \<longrightarrow> subtxns s = [])"

lemma link_child:
  assumes x: "core rb x = Some t" and sub: "core rb sub = Some s" and ne: "x \<noteq> sub"
  shows "core (upd_txn x (\<lambda>t. t\<lparr>subtxns := subtxns t @ [sub], nsubtxns := nsubtxns t + 1\<rparr>)
      (upd_txn sub (\<lambda>t. t\<lparr>is_known_as_subxact := True, toplevel_xid := x\<rparr>) rb)) =
    (core rb)(sub \<mapsto> s\<lparr>is_known_as_subxact := True, toplevel_xid := x\<rparr>, x \<mapsto> t\<lparr>subtxns := subtxns t @ [sub], nsubtxns := nsubtxns t + 1\<rparr>)"
  using assms by (simp add: core_tree_updates)

text \<open>The effect: the older of the two base snapshots ends up with the parent.\<close>

definition snap_of :: "'d ReorderBufferTXN option \<Rightarrow> Snapshot option \<times> XLogRecPtr" where
  "snap_of ot = (case ot of None \<Rightarrow> (None, 0) | Some t \<Rightarrow> (base_snapshot t, base_snapshot_lsn t))"

definition older_snap :: "Snapshot option \<times> XLogRecPtr \<Rightarrow> Snapshot option \<times> XLogRecPtr \<Rightarrow> Snapshot option \<times> XLogRecPtr" where
  "older_snap a b = (if fst b \<noteq> None \<and> (fst a = None \<or> snd b < snd a) then b else a)"

definition assigned_to :: "'d ReorderBuffer \<Rightarrow> TransactionId \<Rightarrow> TransactionId \<Rightarrow> 'd ReorderBuffer \<Rightarrow> bool" where
  "assigned_to rb x sub rb' \<longleftrightarrow>
     (if \<exists>s. core rb sub = Some s \<and> is_known_as_subxact s then core rb' sub = core rb sub
      else \<exists>t s. core rb' x = Some t \<and> core rb' sub = Some s \<and> sub \<in> set (subtxns t) \<and> is_known_as_subxact s \<and>
        toplevel_xid s = x \<and> base_snapshot s = None \<and> snap_of (Some t) = older_snap (snap_of (core rb x)) (snap_of (core rb sub)))"

lemma assign_child_inv:
  assumes inv: "rb_inv cfg rb Q lsn" and le: "lsn \<le> lsn'" "0 < lsn'" and may: "may_assign rb x sub"
  shows "\<exists>rb'. ReorderBufferAssignChild rb x sub lsn' = Some rb' \<and> rb_inv cfg rb' Q lsn' \<and> assigned_to rb x sub rb'"
proof -
  have ne: "x \<noteq> sub" using may by (simp add: may_assign_def)
  obtain rb1 t where rb1: "ReorderBufferTXNByXid rb x True lsn' True = (rb1, Some x, core rb x = None)" "rb_inv cfg rb1 Q lsn'"
    "core rb1 x = Some t"
    "core rb1 = (if core rb x = None then (core rb)(x \<mapsto> fresh_txn x lsn' (current_restart_decoding_lsn rb)) else core rb)"
    by (rule create_inv[OF inv le, of x]) blast
  have t: "\<not> is_known_as_subxact t" using may rb1(3,4) by (cases "core rb x = None") (auto simp: may_assign_def)
  have sub1: "core rb1 sub = core rb sub" using rb1(4) ne by simp
  obtain rb2 where rb2: "ReorderBufferTXNByXid rb1 sub True lsn' False = (rb2, Some sub, core rb1 sub = None)" "rb_rel cfg rb2 Q"
    "spill rb2 = spill rb1"
    "core rb2 = (if core rb1 sub = None then (core rb1)(sub \<mapsto> fresh_txn sub lsn' (current_restart_decoding_lsn rb1)) else core rb1)"
    "toplevel_by_lsn rb2 = toplevel_by_lsn rb1" "txns_by_base_snapshot_lsn rb2 = txns_by_base_snapshot_lsn rb1"
    by (rule txn_by_xid_create[OF rb_invD(1)[OF rb1(2)], where x = sub and lsn = lsn' and as_top = False]) simp
  obtain s where s: "core rb2 sub = Some s" "core rb2 = (core rb1)(sub \<mapsto> s)"
    "core rb1 sub = Some s \<or> core rb1 sub = None \<and> s = fresh_txn sub lsn' (current_restart_decoding_lsn rb1)"
    using rb2(4) by (cases "core rb1 sub") (auto simp: fun_upd_idem)
  have subs: "subtxns s = []" using may s(3) sub1 by (auto simp: may_assign_def)
  obtain b where b: "by_txn rb2 sub = Some b" "is_known_as_subxact b = is_known_as_subxact s" using s(1) by (auto simp: core_eq_Some)
  note code = ReorderBufferAssignChild_def Let_def
  show ?thesis
  proof (cases "is_known_as_subxact s")
    case True
    then have "core rb1 sub \<noteq> None" using s(3) by auto
    then have "ordered_like rb1 rb2" using rb2(4-6) by (auto simp: ordered_like_def)
    then have "rb_inv cfg rb2 Q lsn'" using rb2(2) order_inv_same[OF rb_invD(4)[OF rb1(2)]] rb_invD(5)[OF rb1(2)] by (simp add: rb_inv_def)
    moreover have "ReorderBufferAssignChild rb x sub lsn' = Some rb2"
      using rb1(1) rb2(1) b True \<open>core rb1 sub \<noteq> None\<close> by (simp add: code)
    moreover have "assigned_to rb x sub rb2"
      using True s(1,3) sub1 \<open>core rb1 sub \<noteq> None\<close> by (auto simp: assigned_to_def)
    ultimately show ?thesis by blast
  next
    case False
    note ord1 = rb_invD(4)[OF rb1(2)]
    have "core rb1 sub = None \<Longrightarrow> sub \<notin> set (toplevel_by_lsn rb1)" using order_invD(4)[OF ord1, of sub] by (simp add: is_top_def)
    then have top: "(if core rb1 sub = None then rb2 else rb2\<lparr>toplevel_by_lsn := remove1 sub (toplevel_by_lsn rb2)\<rparr>) =
        rb2\<lparr>toplevel_by_lsn := remove1 sub (toplevel_by_lsn rb1)\<rparr>" (is "_ = ?rb2") using rb2(5) by (simp add: remove1_idem)
    define rb3 where "rb3 = upd_txn x (\<lambda>t. t\<lparr>subtxns := subtxns t @ [sub], nsubtxns := nsubtxns t + 1\<rparr>)
      (upd_txn sub (\<lambda>t. t\<lparr>is_known_as_subxact := True, toplevel_xid := x\<rparr>) ?rb2)"
    let ?s = "s\<lparr>is_known_as_subxact := True, toplevel_xid := x\<rparr>"
    let ?t = "t\<lparr>subtxns := subtxns t @ [sub], nsubtxns := nsubtxns t + 1\<rparr>"
    have x2: "core ?rb2 x = Some t" "core ?rb2 sub = Some s" using s(1,2) rb1(3) ne by simp_all
    have core3: "core rb3 = (core rb1)(sub \<mapsto> ?s, x \<mapsto> ?t)" unfolding rb3_def using link_child[OF x2 ne] s(2) by simp
    have rest3: "spill rb3 = spill rb2" "txns_by_base_snapshot_lsn rb3 = txns_by_base_snapshot_lsn rb1"
      "toplevel_by_lsn rb3 = remove1 sub (toplevel_by_lsn rb1)" "by_txn_last_xid rb3 = by_txn_last_xid rb2" "by_txn_last_txn rb3 = by_txn_last_txn rb2"
      using rb2(6) by (simp_all add: rb3_def)
    obtain bs bl snaps where tr: "transferred x sub t s (txns_by_base_snapshot_lsn rb1) = (bs, bl, snaps)" by (metis prod_cases3)
    have none3: "base_snapshot ?t = None \<Longrightarrow> x \<notin> set (txns_by_base_snapshot_lsn rb3)"
      using order_invD(5)[OF ord1, of x] rb1(3) rest3(2) by (auto simp: has_snap_def)
    have tr3: "transferred x sub ?t ?s (txns_by_base_snapshot_lsn rb3) = (bs, bl, snaps)"
      unfolding rest3(2) tr[symmetric] by (simp add: transferred_def)
    have x3: "core rb3 x = Some ?t" "core rb3 sub = Some ?s" using core3 ne by simp_all
    obtain rb4 l where rb4: "ReorderBufferTransferSnapToParent rb3 x sub = Some rb4"
      "core rb4 = (core rb3)(sub \<mapsto> ?s\<lparr>base_snapshot := None, base_snapshot_lsn := l\<rparr>, x \<mapsto> ?t\<lparr>base_snapshot := bs, base_snapshot_lsn := bl\<rparr>)"
      "txns_by_base_snapshot_lsn rb4 = snaps" "toplevel_by_lsn rb4 = toplevel_by_lsn rb3" "spill rb4 = spill rb3"
      "by_txn_last_xid rb4 = by_txn_last_xid rb3" "by_txn_last_txn rb4 = by_txn_last_txn rb3"
      by (rule transfer_correct[OF x3 ne none3 tr3]) blast+
    have core4: "core rb4 = (core rb1)(sub \<mapsto> s\<lparr>is_known_as_subxact := True, toplevel_xid := x, base_snapshot := None, base_snapshot_lsn := l\<rparr>,
        x \<mapsto> t\<lparr>subtxns := subtxns t @ [sub], nsubtxns := nsubtxns t + 1, base_snapshot := bs, base_snapshot_lsn := bl\<rparr>)"
      using rb4(2) core3 ne by (simp add: fun_upd_twist)
    have "cache_ok rb2" using rb2(2) by (simp add: rb_rel_def)
    then have "cache_ok rb4" using rb4(6,7) rest3(4,5) rb1(3) s(1,2) ne by (auto simp: cache_ok_def core4 split: if_splits)
    then have "rb_inv cfg rb4 Q lsn'"
      by (intro assigned_inv[OF rb1(2) le(2) rb2(2) ne rb1(3) t s(3) False subs s(2) core4])
        (use tr rb4 rest3 in simp_all)
    moreover have "ReorderBufferAssignChild rb x sub lsn' = Some rb4"
      using rb1(1) rb2(1) b False rb4(1) top unfolding rb3_def by (simp add: code)
    moreover have "snap_of (core rb x) = (base_snapshot t, base_snapshot_lsn t)" "snap_of (core rb sub) = (base_snapshot s, base_snapshot_lsn s)"
      using rb1(3,4) s(3) sub1 by (cases "core rb x = None"; auto simp: snap_of_def)+
    then have "(bs, bl) = older_snap (snap_of (core rb x)) (snap_of (core rb sub))"
      using tr by (auto simp: older_snap_def transferred_def split: if_splits)
    then have "assigned_to rb x sub rb4"
      using False s(3) sub1 ne unfolding assigned_to_def core4 by (auto simp: snap_of_def[of "Some _"])
    ultimately show ?thesis by blast
  qed
qed

end
