(* ===== verification/Reorder_Cleanup.thy ===== *)
theory Reorder_Cleanup
  imports Reorder_Child
begin

text \<open>
  Discarding transactions: cleaning up removes a transaction, its subtransactions, their changes
  in memory and on disk, and leaves every other queue as it is.
\<close>

section \<open>One transaction\<close>

lemma fold_return_change [simp]:
  "core (fold (\<lambda>c rb. ReorderBufferReturnChange cfg rb c) cs rb) = core rb"
  "spill (fold (\<lambda>c rb. ReorderBufferReturnChange cfg rb c) cs rb) = spill rb"
  "toplevel_by_lsn (fold (\<lambda>c rb. ReorderBufferReturnChange cfg rb c) cs rb) = toplevel_by_lsn rb"
  "txns_by_base_snapshot_lsn (fold (\<lambda>c rb. ReorderBufferReturnChange cfg rb c) cs rb) = txns_by_base_snapshot_lsn rb"
  "by_txn_last_xid (fold (\<lambda>c rb. ReorderBufferReturnChange cfg rb c) cs rb) = by_txn_last_xid rb"
  "by_txn_last_txn (fold (\<lambda>c rb. ReorderBufferReturnChange cfg rb c) cs rb) = by_txn_last_txn rb"
  by (induction cs arbitrary: rb) simp_all

lemma core_remove [simp]: "core (rb\<lparr>by_txn := (by_txn rb)(x := None)\<rparr>) = (core rb)(x := None)"
  by (simp add: core_def fun_eq_iff)

lemma unlink_files:
  "spill (fold (\<lambda>cur rb. rb\<lparr>spill := (spill rb)((x, cur) := None)\<rparr>) ss rb) =
     (\<lambda>(y, s). if y = x \<and> s \<in> set ss then None else spill rb (y, s))"
  by (induction ss arbitrary: rb) (auto simp: fun_eq_iff)

lemma restore_cleanup_rest [simp]:
  "core (ReorderBufferRestoreCleanup cfg rb t lsn) = core rb"
  "toplevel_by_lsn (ReorderBufferRestoreCleanup cfg rb t lsn) = toplevel_by_lsn rb"
  "txns_by_base_snapshot_lsn (ReorderBufferRestoreCleanup cfg rb t lsn) = txns_by_base_snapshot_lsn rb"
  "by_txn_last_xid (ReorderBufferRestoreCleanup cfg rb t lsn) = by_txn_last_xid rb"
  "by_txn_last_txn (ReorderBufferRestoreCleanup cfg rb t lsn) = by_txn_last_txn rb"
proof -
  have "core (fold (\<lambda>cur rb. rb\<lparr>spill := (spill rb)((xid t, cur) := None)\<rparr>) ss rb) = core rb"
    "toplevel_by_lsn (fold (\<lambda>cur rb. rb\<lparr>spill := (spill rb)((xid t, cur) := None)\<rparr>) ss rb) = toplevel_by_lsn rb"
    "txns_by_base_snapshot_lsn (fold (\<lambda>cur rb. rb\<lparr>spill := (spill rb)((xid t, cur) := None)\<rparr>) ss rb) = txns_by_base_snapshot_lsn rb"
    "by_txn_last_xid (fold (\<lambda>cur rb. rb\<lparr>spill := (spill rb)((xid t, cur) := None)\<rparr>) ss rb) = by_txn_last_xid rb"
    "by_txn_last_txn (fold (\<lambda>cur rb. rb\<lparr>spill := (spill rb)((xid t, cur) := None)\<rparr>) ss rb) = by_txn_last_txn rb" for ss
    by (induction ss arbitrary: rb) simp_all
  then show "core (ReorderBufferRestoreCleanup cfg rb t lsn) = core rb"
    "toplevel_by_lsn (ReorderBufferRestoreCleanup cfg rb t lsn) = toplevel_by_lsn rb"
    "txns_by_base_snapshot_lsn (ReorderBufferRestoreCleanup cfg rb t lsn) = txns_by_base_snapshot_lsn rb"
    "by_txn_last_xid (ReorderBufferRestoreCleanup cfg rb t lsn) = by_txn_last_xid rb"
    "by_txn_last_txn (ReorderBufferRestoreCleanup cfg rb t lsn) = by_txn_last_txn rb"
    by (simp_all add: ReorderBufferRestoreCleanup_def Let_def del: upt_Suc)
qed

lemma restore_cleanup_files:
  assumes rel: "txn_rel cfg (spill rb) x t L" and first: "0 < first_lsn t"
  shows "spill_file (spill (ReorderBufferRestoreCleanup cfg rb t lsn)) y s = (if y = x then [] else spill_file (spill rb) y s)"
proof -
  let ?lo = "first_lsn t div XLogSegSize cfg" and ?hi = "final_lsn t div XLogSegSize cfg"
  have x: "xid t = x" using rel by (simp add: txn_rel_def)
  have outside: "spill_file (spill rb) x s = []" if "\<not> (?lo \<le> s \<and> s \<le> ?hi)" for s
    using rel that by (auto simp: txn_rel_def seg_of_def filter_empty_conv div_le_mono)
  have "spill_file (spill rb) x s = []" if "final_lsn t = 0" for s
  proof -
    have "first_lsn t \<le> final_lsn t" if "c \<in> set L" for c
    proof -
      have "first_lsn t \<le> chg_lsn c" "chg_lsn c \<le> final_lsn t" using that rel by (simp_all add: txn_rel_def)
      then show ?thesis by simp
    qed
    then have "L = []" using first that by (cases L) fastforce+
    then show ?thesis using rel by (simp add: txn_rel_def)
  qed
  moreover have "spill_file (spill rb) x s = []" if "s < ?lo" for s using outside that by simp
  ultimately show ?thesis
    using outside x by (auto simp: ReorderBufferRestoreCleanup_def Let_def unlink_files spill_file_def InvalidXLogRecPtr_def
        simp del: upt_Suc split: if_splits)
qed

definition unlinked :: "'d ReorderBufferTXN \<Rightarrow> TransactionId \<Rightarrow> (TransactionId \<rightharpoonup> 'd ReorderBufferTXN) \<Rightarrow> TransactionId \<rightharpoonup> 'd ReorderBufferTXN" where
  "unlinked t x c = (\<lambda>y. if y = x then None
     else if is_known_as_subxact t \<and> y = toplevel_xid t then map_option (\<lambda>p. p\<lparr>subtxns := remove1 x (subtxns p)\<rparr>) (c y)
     else c y)"

lemma cleanup_node_effect:
  assumes rel: "rb_inv cfg rb Q lsn" and t: "core rb x = Some (strip t)"
  shows "core (cleanup_node cfg l x t rb) = unlinked t x (core rb)"
    "toplevel_by_lsn (cleanup_node cfg l x t rb) =
       (if is_known_as_subxact t then toplevel_by_lsn rb else remove1 x (toplevel_by_lsn rb))"
    "txns_by_base_snapshot_lsn (cleanup_node cfg l x t rb) =
       (if base_snapshot t = None then txns_by_base_snapshot_lsn rb else remove1 x (txns_by_base_snapshot_lsn rb))"
    "spill_file (spill (cleanup_node cfg l x t rb)) y s = (if y = x then [] else spill_file (spill rb) y s)"
    "by_txn_last_xid (cleanup_node cfg l x t rb) = (if by_txn_last_xid rb = x then InvalidTransactionId else by_txn_last_xid rb)"
    "by_txn_last_txn (cleanup_node cfg l x t rb) = (if by_txn_last_xid rb = x then None else by_txn_last_txn rb)"
proof -
  obtain L where L: "Q x = L @ changes (strip t)" "txn_rel cfg (spill rb) x (strip t) L" using rb_relD[OF rb_invD(1)[OF rel] t] .
  have x: "xid t = x" using L(2) by (simp add: txn_rel_def)
  have first: "0 < first_lsn t" using rb_invD(6)[OF rel t] by (simp add: times_ok_def)
  have core: "core (upd_txn y (\<lambda>p. p\<lparr>subtxns := remove1 z (subtxns p)\<rparr>) r) =
      (core r)(y := map_option (\<lambda>p. p\<lparr>subtxns := remove1 z (subtxns p)\<rparr>) (core r y))" for y z and r :: "'a ReorderBuffer"
    by (rule core_upd_txn) (simp add: strip_def)
  note code = cleanup_node_def Let_def ReorderBufferReturnTXN_def delete_txn_node_def
  show "core (cleanup_node cfg l x t rb) = unlinked t x (core rb)"
    by (auto simp: code core unlinked_def x fun_eq_iff)
  show "toplevel_by_lsn (cleanup_node cfg l x t rb) = (if is_known_as_subxact t then toplevel_by_lsn rb else remove1 x (toplevel_by_lsn rb))"
    by (simp add: code x)
  show "txns_by_base_snapshot_lsn (cleanup_node cfg l x t rb) =
       (if base_snapshot t = None then txns_by_base_snapshot_lsn rb else remove1 x (txns_by_base_snapshot_lsn rb))"
    by (simp add: code)
  show "by_txn_last_xid (cleanup_node cfg l x t rb) = (if by_txn_last_xid rb = x then InvalidTransactionId else by_txn_last_xid rb)"
    "by_txn_last_txn (cleanup_node cfg l x t rb) = (if by_txn_last_xid rb = x then None else by_txn_last_txn rb)"
    by (simp_all add: code)
  have rel': "txn_rel cfg sp x t L" if "sp = spill rb" for sp using L(2) that by (simp add: txn_rel_def)
  have "spill_file (spill rb) x s = []" if "\<not> serialized t" for s using L(2) that by (simp add: txn_rel_def)
  then show "spill_file (spill (cleanup_node cfg l x t rb)) y s = (if y = x then [] else spill_file (spill rb) y s)"
    by (simp add: code restore_cleanup_files[OF rel' first])
qed

lemma unlinked_simps:
  "unlinked t x c x = None"
  "y \<noteq> x \<Longrightarrow> unlinked t x c y = None \<longleftrightarrow> c y = None"
  "unlinked t x c y = Some u \<Longrightarrow> y \<noteq> x \<and> (\<exists>v. c y = Some v \<and>
     u = v\<lparr>subtxns := if is_known_as_subxact t \<and> y = toplevel_xid t then remove1 x (subtxns v) else subtxns v\<rparr>)"
  by (auto simp: unlinked_def split: if_splits)

lemma unlinked_Some:
  "y \<noteq> x \<Longrightarrow> c y = Some v \<Longrightarrow> \<exists>u. unlinked t x c y = Some u \<and>
     u = v\<lparr>subtxns := if is_known_as_subxact t \<and> y = toplevel_xid t then remove1 x (subtxns v) else subtxns v\<rparr>"
  by (auto simp: unlinked_def)

lemma rb_struct_unlinked:
  assumes struct: "rb_struct rb" and t: "core rb x = Some t" "subtxns t = []" and core: "core rb' = unlinked t x (core rb)"
  shows "rb_struct rb'"
proof (rule rb_structI)
  fix y u assume "core rb' y = Some u"
  then obtain v where v: "y \<noteq> x" "core rb y = Some v"
    "u = v\<lparr>subtxns := if is_known_as_subxact t \<and> y = toplevel_xid t then remove1 x (subtxns v) else subtxns v\<rparr>"
    unfolding core using unlinked_simps(3) by blast
  note D = rb_structD[OF struct v(2)]
  show "distinct (subtxns u)" "is_known_as_subxact u \<Longrightarrow> subtxns u = []" using D(1,3) v(3) by auto
  show "\<exists>w. core rb' s = Some w \<and> is_known_as_subxact w \<and> toplevel_xid w = y" if s: "s \<in> set (subtxns u)" for s
  proof -
    have sv: "s \<in> set (subtxns v)" using s v(3) set_remove1_subset[of x "subtxns v"] by (auto split: if_splits)
    then obtain w where w: "core rb s = Some w" "is_known_as_subxact w" "toplevel_xid w = y" using D(2) by blast
    have "s \<noteq> x"
    proof
      assume "s = x"
      then have "is_known_as_subxact t" "y = toplevel_xid t" using w t by auto
      then show False using s \<open>s = x\<close> v(3) D(1) by simp
    qed
    then show ?thesis using unlinked_Some[of s x "core rb" w t] w unfolding core by auto
  qed
  show "\<exists>p. core rb' (toplevel_xid u) = Some p \<and> y \<in> set (subtxns p)" if k: "is_known_as_subxact u"
  proof -
    obtain p where p: "core rb (toplevel_xid v) = Some p" "y \<in> set (subtxns p)" using D(4) k v(3) by auto
    then have "toplevel_xid v \<noteq> x" using t by auto
    then show ?thesis using unlinked_Some[of "toplevel_xid v" x "core rb" p t] p v(1,3) unfolding core by auto
  qed
qed

lemma cleanup_node_inv:
  assumes inv: "rb_inv cfg rb Q lsn" and t: "core rb x = Some (strip t)" and leaf: "subtxns t = []"
  shows "rb_inv cfg (cleanup_node cfg l x t rb) (Q(x := [])) lsn"
proof -
  let ?rb = "cleanup_node cfg l x t rb"
  note eff = cleanup_node_effect[OF inv t, of l]
  note ord = rb_invD(4)[OF inv]
  have core: "core ?rb = unlinked t x (core rb)" by (rule eff(1))
  have keep: "core ?rb y = None \<longleftrightarrow> core rb y = None" if "y \<noteq> x" for y unfolding core by (rule unlinked_simps(2)[OF that])
  have gone: "core ?rb x = None" by (simp add: core unlinked_simps(1))
  have "unlinked (strip t) x (core rb) = unlinked t x (core rb)" by (auto simp: unlinked_def fun_eq_iff)
  then have struct: "rb_struct ?rb" using rb_struct_unlinked[OF rb_invD(2)[OF inv] t] leaf core by simp
  have cache: "cache_ok ?rb" using rb_invD(3)[OF inv] keep[of "by_txn_last_xid rb"] by (cases "by_txn_last_xid rb = x") (simp_all add: cache_ok_def eff(5,6))
  have same: "same_queue (core rb y) (core ?rb y)" if "y \<noteq> x" for y
    using that unlinked_Some[of y x "core rb" _ t] keep[OF that] unfolding core by (cases "core rb y") (auto simp: same_queue_def)
  have "queue_rel cfg (spill ?rb) y (core ?rb y) ((Q(x := [])) y)" for y
  proof (cases "y = x")
    case False
    have "queue_rel cfg (spill rb) y (core rb y) (Q y)" using rb_invD(1)[OF inv] by (simp add: rb_rel_def)
    then have "queue_rel cfg (spill rb) y (core ?rb y) (Q y)" by (rule queue_rel_same[OF _ same[OF False]])
    then show ?thesis using queue_rel_cong[of "spill ?rb" y "spill rb"] eff(4) False by simp
  qed (simp add: gone queue_rel_def eff(4))
  then have rel: "rb_rel cfg ?rb (Q(x := []))" using struct cache by (simp add: rb_rel_def)
  have attr: "first_of ?rb y = first_of rb y" "snap_lsn_of ?rb y = snap_lsn_of rb y" "is_top ?rb y = is_top rb y"
    "has_snap ?rb y = has_snap rb y" if "y \<noteq> x" for y
    using unlinked_Some[of y x "core rb" _ t] keep[OF that] that unfolding core
    by (cases "core rb y"; auto simp: first_of_def snap_lsn_of_def is_top_def has_snap_def core)+
  have notx: "\<not> is_top ?rb x" "\<not> has_snap ?rb x" by (simp_all add: is_top_def has_snap_def gone)
  have tops: "toplevel_by_lsn ?rb = remove1 x (toplevel_by_lsn rb)"
    using order_invD(4)[OF ord, of x] t by (auto simp: eff(2) is_top_def remove1_idem)
  have snaps: "txns_by_base_snapshot_lsn ?rb = remove1 x (txns_by_base_snapshot_lsn rb)"
    using order_invD(5)[OF ord, of x] t by (auto simp: eff(3) has_snap_def remove1_idem)
  have "listed (\<le>) (first_of ?rb) (is_top ?rb) (toplevel_by_lsn ?rb)"
    unfolding tops by (rule listed_remove[OF order_invD(1)[OF ord]]) (use attr notx in metis)+
  moreover have "listed (<) (snap_lsn_of ?rb) (has_snap ?rb) (txns_by_base_snapshot_lsn ?rb)"
    unfolding snaps by (rule listed_remove[OF order_invD(2)[OF ord]]) (use attr notx in metis)+
  moreover have "times_ok lsn u" if "core ?rb y = Some u" for y u
    using unlinked_simps(3)[OF that[unfolded core]] rb_invD(6)[OF inv, of y] by (auto simp: times_ok_def)
  ultimately show ?thesis using rel rb_invD(5)[OF inv] by (auto simp: rb_inv_def order_inv_def)
qed

section \<open>A transaction with its subtransactions\<close>

text \<open>The transactions that cleaning up removes.\<close>

definition doomed :: "'d ReorderBuffer \<Rightarrow> TransactionId \<Rightarrow> TransactionId set" where
  "doomed rb x = (case core rb x of None \<Rightarrow> {} | Some t \<Rightarrow> insert x (set (subtxns t)))"

text \<open>What cleaning up the subtransactions \<open>xs\<close> of \<open>x\<close> leaves.\<close>

definition children_cleaned ::
  "decoding_config \<Rightarrow> 'd ReorderBuffer \<Rightarrow> (TransactionId \<Rightarrow> 'd ReorderBufferChange list) \<Rightarrow> XLogRecPtr \<Rightarrow> TransactionId \<Rightarrow>
   'd ReorderBufferTXN \<Rightarrow> TransactionId list \<Rightarrow> 'd ReorderBuffer \<Rightarrow> bool" where
  "children_cleaned cfg rb Q lsn x t xs rb' \<longleftrightarrow>
     rb_inv cfg rb' (\<lambda>y. if y \<in> set xs then [] else Q y) lsn \<and> toplevel_by_lsn rb' = toplevel_by_lsn rb \<and>
     core rb' = (\<lambda>y. if y \<in> set xs then None
       else if y = x then Some (t\<lparr>subtxns := drop (length xs) (subtxns t)\<rparr>) else core rb y)"

lemma cleanup_children:
  assumes inv: "rb_inv cfg rb Q lsn" and t: "core rb x = Some t"
  shows "\<exists>rb'. foldM (cleanup_txn 1 cfg l) (subtxns t) rb = Some rb' \<and> children_cleaned cfg rb Q lsn x t (subtxns t) rb'"
proof (rule foldM_rule[where I = "children_cleaned cfg rb Q lsn x t"])
  note D = rb_structD[OF rb_invD(2)[OF inv] t]
  show "children_cleaned cfg rb Q lsn x t [] rb" using inv t by (auto simp: children_cleaned_def fun_eq_iff)
  fix xs s rb1
  assume I: "children_cleaned cfg rb Q lsn x t xs rb1" and "\<exists>ys. subtxns t = xs @ s # ys"
  then obtain ys where ys: "subtxns t = xs @ s # ys" by blast
  then obtain u where u: "core rb s = Some u" "is_known_as_subxact u" "toplevel_xid u = x" "subtxns u = []" using D(2)[of s] by auto
  have s: "s \<notin> set xs" "s \<noteq> x" "x \<notin> set xs" using D(1,5) unfolding ys by auto
  have core1: "core rb1 = (\<lambda>y. if y \<in> set xs then None else if y = x then Some (t\<lparr>subtxns := s # ys\<rparr>) else core rb y)"
    and inv1: "rb_inv cfg rb1 (\<lambda>y. if y \<in> set xs then [] else Q y) lsn" and top1: "toplevel_by_lsn rb1 = toplevel_by_lsn rb"
    using I ys by (auto simp: children_cleaned_def fun_eq_iff)
  obtain b where b: "by_txn rb1 s = Some b" "strip b = u" using u(1) s core1 by (metis core_eq_Some)
  have fields: "is_known_as_subxact b" "toplevel_xid b = x" "subtxns b = []" using u(2-4) b(2) by auto
  have cs: "core rb1 s = Some (strip b)" using b by (simp add: core_Some)
  have "core (cleanup_node cfg l s b rb1) = (\<lambda>y. if y \<in> set (xs @ [s]) then None
      else if y = x then Some (t\<lparr>subtxns := ys\<rparr>) else core rb y)"
    unfolding cleanup_node_effect(1)[OF inv1 cs] core1 using fields s by (auto simp: unlinked_def fun_eq_iff)
  moreover have "(\<lambda>y. if y \<in> set xs then [] else Q y)(s := []) = (\<lambda>y. if y \<in> set (xs @ [s]) then [] else Q y)" by auto
  then have "rb_inv cfg (cleanup_node cfg l s b rb1) (\<lambda>y. if y \<in> set (xs @ [s]) then [] else Q y) lsn"
    using cleanup_node_inv[OF inv1 cs fields(3), of l] by (simp only:)
  moreover have "toplevel_by_lsn (cleanup_node cfg l s b rb1) = toplevel_by_lsn rb"
    using fields(1) top1 by (simp add: cleanup_node_effect(2)[OF inv1 cs])
  ultimately have "children_cleaned cfg rb Q lsn x t (xs @ [s]) (cleanup_node cfg l s b rb1)"
    using ys by (auto simp: children_cleaned_def fun_eq_iff)
  then show "\<exists>rb2. cleanup_txn 1 cfg l s rb1 = Some rb2 \<and> children_cleaned cfg rb Q lsn x t (xs @ [s]) rb2"
    using b(1) fields(3) by (simp add: One_nat_def)
qed

lemma cleanup_subtxns:
  "delete_txn_node rb (t\<lparr>subtxns := a\<rparr>) = delete_txn_node rb t"
  "ReorderBufferRestoreCleanup cfg rb (t\<lparr>subtxns := a\<rparr>) l = ReorderBufferRestoreCleanup cfg rb t l"
  by (auto simp: delete_txn_node_def ReorderBufferRestoreCleanup_def Let_def)

lemma cleanup_inv:
  assumes inv: "rb_inv cfg rb Q lsn" and t: "core rb x = Some t"
  shows "\<exists>rb'. ReorderBufferCleanupTXN cfg rb x l = Some rb' \<and>
    rb_inv cfg rb' (\<lambda>y. if y \<in> doomed rb x then [] else Q y) lsn \<and>
    toplevel_by_lsn rb' = (if is_known_as_subxact t then toplevel_by_lsn rb else remove1 x (toplevel_by_lsn rb)) \<and>
    core rb' = (\<lambda>y. if y \<in> doomed rb x then None
      else if is_known_as_subxact t \<and> y = toplevel_xid t then map_option (\<lambda>p. p\<lparr>subtxns := remove1 x (subtxns p)\<rparr>) (core rb y)
      else core rb y)"
proof -
  note D = rb_structD[OF rb_invD(2)[OF inv] t]
  obtain b where b: "by_txn rb x = Some b" "t = strip b" using t by (auto simp: core_eq_Some)
  obtain rb1 where rb1: "foldM (cleanup_txn 1 cfg l) (subtxns t) rb = Some rb1" "children_cleaned cfg rb Q lsn x t (subtxns t) rb1"
    using cleanup_children[OF inv t] by blast
  let ?b = "b\<lparr>subtxns := []\<rparr>"
  have inv1: "rb_inv cfg rb1 (\<lambda>y. if y \<in> set (subtxns t) then [] else Q y) lsn"
    and top1: "toplevel_by_lsn rb1 = toplevel_by_lsn rb"
    and core1: "core rb1 = (\<lambda>y. if y \<in> set (subtxns t) then None else if y = x then Some (t\<lparr>subtxns := []\<rparr>) else core rb y)"
    using rb1(2) by (auto simp: children_cleaned_def fun_eq_iff)
  have cx: "core rb1 x = Some (strip ?b)" using core1 D(5) b(2) by (simp add: strip_def)
  have node: "cleanup_node cfg l x b rb1 = cleanup_node cfg l x ?b rb1"
    by (cases "serialized b") (simp_all add: cleanup_node_def cleanup_subtxns)
  have dom: "doomed rb x = insert x (set (subtxns t))" by (simp add: doomed_def t)
  have "(\<lambda>y. if y \<in> set (subtxns t) then [] else Q y)(x := []) = (\<lambda>y. if y \<in> doomed rb x then [] else Q y)"
    by (auto simp: dom fun_eq_iff)
  then have "rb_inv cfg (cleanup_node cfg l x b rb1) (\<lambda>y. if y \<in> doomed rb x then [] else Q y) lsn"
    using cleanup_node_inv[OF inv1 cx, of l] node by (simp only:) simp
  moreover have "core (cleanup_node cfg l x b rb1) = (\<lambda>y. if y \<in> doomed rb x then None
      else if is_known_as_subxact t \<and> y = toplevel_xid t then map_option (\<lambda>p. p\<lparr>subtxns := remove1 x (subtxns p)\<rparr>) (core rb y)
      else core rb y)"
    unfolding node cleanup_node_effect(1)[OF inv1 cx] core1 using b(2) by (auto simp: unlinked_def dom fun_eq_iff)
  moreover have "toplevel_by_lsn (cleanup_node cfg l x b rb1) = (if is_known_as_subxact t then toplevel_by_lsn rb else remove1 x (toplevel_by_lsn rb))"
    unfolding node cleanup_node_effect(2)[OF inv1 cx] using b(2) top1 by simp
  moreover have "ReorderBufferCleanupTXN cfg rb x l = Some (cleanup_node cfg l x b rb1)"
    using b rb1(1) by (simp add: ReorderBufferCleanupTXN_def numeral_2_eq_2)
  ultimately show ?thesis by blast
qed

section \<open>Aborting\<close>

definition without :: "TransactionId set \<Rightarrow> (TransactionId \<Rightarrow> 'd ReorderBufferChange list) \<Rightarrow> TransactionId \<Rightarrow> 'd ReorderBufferChange list" where
  "without D Q = (\<lambda>y. if y \<in> D then [] else Q y)"

lemma without_simps [simp]: "without {} Q = Q" "without D (without E Q) = without (D \<union> E) Q"
  by (auto simp: without_def)

lemma rb_inv_mono: "rb_inv cfg rb Q lsn \<Longrightarrow> lsn \<le> lsn' \<Longrightarrow> rb_inv cfg rb Q lsn'"
  using order_inv_same[of rb lsn rb lsn'] by (fastforce simp: rb_inv_def ordered_like_def)

lemma set_final_inv:
  assumes inv: "rb_inv cfg rb Q lsn" and f: "lsn \<le> f" and g: "\<And>t. core rb x = Some t \<Longrightarrow> g t = 0 \<or> first_lsn t \<le> g t" "\<And>t. g (strip t) = g t"
  shows "rb_inv cfg (upd_txn x (\<lambda>t. t\<lparr>final_lsn := f, end_lsn := g t\<rparr>) rb) Q lsn" (is "rb_inv cfg ?rb Q lsn")
    and "core (upd_txn x (\<lambda>t. t\<lparr>final_lsn := f, end_lsn := g t\<rparr>) rb) =
      (core rb)(x := map_option (\<lambda>t. t\<lparr>final_lsn := f, end_lsn := g t\<rparr>) (core rb x))"
proof -
  have core: "core ?rb = (core rb)(x := map_option (\<lambda>t. t\<lparr>final_lsn := f, end_lsn := g t\<rparr>) (core rb x))"
    by (rule core_upd_txn) (use g(2) in \<open>simp add: strip_def\<close>)
  then show "core (upd_txn x (\<lambda>t. t\<lparr>final_lsn := f, end_lsn := g t\<rparr>) rb) =
      (core rb)(x := map_option (\<lambda>t. t\<lparr>final_lsn := f, end_lsn := g t\<rparr>) (core rb x))" .
  have c: "core ?rb y = (if y = x then map_option (\<lambda>t. t\<lparr>final_lsn := f, end_lsn := g t\<rparr>) (core rb x) else core rb y)" for y
    by (simp add: core)
  have "rb_struct ?rb" by (rule rb_struct_same_tree[OF rb_invD(2)[OF inv]]) (auto simp: c same_tree_def option.map_comp comp_def)
  moreover have "cache_ok ?rb" using rb_invD(3)[OF inv] by (auto simp: cache_ok_def c)
  moreover have "queue_rel cfg (spill ?rb) y (core ?rb y) (Q y)" for y
  proof (cases "y = x")
    case True
    show ?thesis
    proof (cases "core rb x")
      case (Some t)
      obtain L where L: "Q x = L @ changes t" "txn_rel cfg (spill rb) x t L" using rb_relD[OF rb_invD(1)[OF inv] Some] .
      have "chg_lsn d \<le> f" if "d \<in> set L" for d using rb_invD(5)[OF inv, of d x] that L(1) f by auto
      then show ?thesis using L Some True by (auto simp: c queue_rel_def txn_rel_def)
    qed (use rb_rel_None[OF rb_invD(1)[OF inv]] True in \<open>simp add: c queue_rel_def\<close>)
  qed (use rb_invD(1)[OF inv] in \<open>simp add: c rb_rel_def\<close>)
  ultimately have rel: "rb_rel cfg ?rb Q" by (simp add: rb_rel_def)
  note ord = rb_invD(4)[OF inv]
  have attr: "first_of ?rb = first_of rb" "snap_lsn_of ?rb = snap_lsn_of rb" "is_top ?rb = is_top rb" "has_snap ?rb = has_snap rb"
    by (auto simp: fun_eq_iff first_of_def snap_lsn_of_def is_top_def has_snap_def c split: option.split)
  have "times_ok lsn u" if "core ?rb y = Some u" for y u
    using that rb_invD(6)[OF inv, of y] g(1) by (auto simp: c times_ok_def split: if_splits)
  then have "order_inv ?rb lsn" using order_invD(1,2)[OF ord] by (simp add: order_inv_def attr)
  then show "rb_inv cfg ?rb Q lsn" using rel rb_invD(5)[OF inv] by (simp add: rb_inv_def)
qed

text \<open>Only the parent of an aborted subtransaction changes, by losing it.\<close>

definition removed_from :: "'d ReorderBuffer \<Rightarrow> TransactionId set \<Rightarrow> 'd ReorderBuffer \<Rightarrow> bool" where
  "removed_from rb D rb' \<longleftrightarrow>
     (\<forall>y. if y \<in> D then core rb' y = None
          else core rb' y = map_option (\<lambda>p. p\<lparr>subtxns := filter (\<lambda>s. s \<notin> D) (subtxns p)\<rparr>) (core rb y))"

lemma filter_no_change: "(\<And>s. s \<in> set l \<Longrightarrow> s \<notin> D) \<Longrightarrow> filter (\<lambda>s. s \<notin> D) l = l"
  by (simp add: filter_id_conv)

lemma cleanup_removed:
  assumes inv: "rb_inv cfg rb Q lsn" and t: "core rb x = Some t"
  obtains rb' where "ReorderBufferCleanupTXN cfg rb x l = Some rb'" "rb_inv cfg rb' (without (doomed rb x) Q) lsn"
    "removed_from rb (doomed rb x) rb'"
proof -
  obtain rb' where rb': "ReorderBufferCleanupTXN cfg rb x l = Some rb'" "rb_inv cfg rb' (without (doomed rb x) Q) lsn"
    "core rb' = (\<lambda>y. if y \<in> doomed rb x then None
      else if is_known_as_subxact t \<and> y = toplevel_xid t then map_option (\<lambda>p. p\<lparr>subtxns := remove1 x (subtxns p)\<rparr>) (core rb y)
      else core rb y)"
    using cleanup_inv[OF inv t, of l] unfolding without_def by blast
  note D = rb_structD[OF rb_invD(2)[OF inv] t]
  have dom: "doomed rb x = insert x (set (subtxns t))" by (simp add: doomed_def t)
  have subs: "filter (\<lambda>s. s \<notin> doomed rb x) (subtxns p) = (if is_known_as_subxact t \<and> y = toplevel_xid t then remove1 x (subtxns p) else subtxns p)"
    if y: "y \<notin> doomed rb x" and p: "core rb y = Some p" for y p
  proof (cases "is_known_as_subxact t \<and> y = toplevel_xid t")
    case True
    then have "doomed rb x = {x}" using D(3) by (simp add: dom)
    then show ?thesis using True rb_structD(1)[OF rb_invD(2)[OF inv] p]
      by (simp add: distinct_remove1_removeAll removeAll_filter_not_eq eq_commute)
  next
    case False
    have "s \<notin> doomed rb x" if s: "s \<in> set (subtxns p)" for s
    proof
      obtain v where v: "core rb s = Some v" "is_known_as_subxact v" "toplevel_xid v = y" using rb_structD(2)[OF rb_invD(2)[OF inv] p s] by blast
      assume "s \<in> doomed rb x"
      then consider "s = x" | "s \<in> set (subtxns t)" by (auto simp: dom)
      then show False using v False D(2)[of s] y t by cases (auto simp: dom)
    qed
    then show ?thesis using False by (auto simp: filter_no_change)
  qed
  have "removed_from rb (doomed rb x) rb'"
    unfolding removed_from_def rb'(3) using subs by (auto simp: map_option_case split: option.split)
  then show ?thesis using that rb'(1,2) by blast
qed

lemma removed_from_none: "removed_from rb {} rb' \<longleftrightarrow> core rb' = core rb"
  by (auto simp: removed_from_def fun_eq_iff option.map_ident)

lemma removed_from_fields:
  assumes "core rb = (core rb0)(x := map_option (\<lambda>t. t\<lparr>final_lsn := f, end_lsn := g t\<rparr>) (core rb0 x))" "x \<in> D" "removed_from rb D rb'"
  shows "removed_from rb0 D rb'"
  using assms by (auto simp: removed_from_def)

lemma abort_inv:
  assumes inv: "rb_inv cfg rb Q lsn" and le: "lsn \<le> lsn'"
  shows "\<exists>rb'. ReorderBufferAbort cfg rb x lsn' = Some rb' \<and> rb_inv cfg rb' (without (doomed rb x) Q) lsn' \<and>
    removed_from rb (doomed rb x) rb'"
proof -
  obtain rb1 n where rb1: "ReorderBufferTXNByXid rb x False InvalidXLogRecPtr False = (rb1, if core rb x = None then None else Some x, n)"
    "rb_inv cfg rb1 Q lsn" "core rb1 = core rb"
    by (rule find_inv[OF inv]) blast
  show ?thesis
  proof (cases "core rb x")
    case None
    then have "doomed rb x = {}" by (simp add: doomed_def)
    then show ?thesis using rb1 None rb_inv_mono[OF rb1(2) le] by (simp add: ReorderBufferAbort_def removed_from_none)
  next
    case (Some t)
    let ?rb = "upd_txn x (\<lambda>t. t\<lparr>final_lsn := lsn'\<rparr>) rb1"
    have ends: "end_lsn t = 0 \<or> first_lsn t \<le> end_lsn t" if "core rb1 x = Some t" for t
      using rb_invD(6)[OF rb1(2) that] by (auto simp: times_ok_def)
    have f: "rb_inv cfg ?rb Q lsn" "core ?rb = (core rb1)(x := map_option (\<lambda>t. t\<lparr>final_lsn := lsn', end_lsn := end_lsn t\<rparr>) (core rb1 x))"
      using set_final_inv[OF rb1(2) le, of x end_lsn] ends by simp_all
    have cx: "core ?rb x = Some (t\<lparr>final_lsn := lsn'\<rparr>)" using f(2) Some rb1(3) by simp
    then have dom: "doomed ?rb x = doomed rb x" by (simp add: doomed_def Some)
    obtain rb' where rb': "ReorderBufferCleanupTXN cfg ?rb x InvalidXLogRecPtr = Some rb'" "rb_inv cfg rb' (without (doomed rb x) Q) lsn"
      "removed_from ?rb (doomed rb x) rb'"
      using cleanup_removed[OF f(1) cx, of InvalidXLogRecPtr] dom by metis
    have "removed_from rb (doomed rb x) rb'"
      by (rule removed_from_fields[OF f(2)[unfolded rb1(3)] _ rb'(3)]) (simp add: doomed_def Some)
    then show ?thesis using rb' rb1(1) Some rb_inv_mono[OF rb'(2) le] by (simp add: ReorderBufferAbort_def)
  qed
qed

section \<open>Aborting the transactions of a crashed server\<close>

text \<open>The transactions below the horizon at the front of the list, with their subtransactions.\<close>

definition doomed_old :: "'d ReorderBuffer \<Rightarrow> TransactionId \<Rightarrow> TransactionId set" where
  "doomed_old rb oldest = (\<Union>x \<in> set (takeWhile (\<lambda>x. x < oldest) (toplevel_by_lsn rb)). doomed rb x)"

lemma cleanup_top:
  assumes inv: "rb_inv cfg rb Q lsn" and x: "toplevel_by_lsn rb = x # xs"
  obtains rb' where "ReorderBufferCleanupTXN cfg rb x l = Some rb'" "rb_inv cfg rb' (without (doomed rb x) Q) lsn"
    "toplevel_by_lsn rb' = xs" "\<And>y. y \<in> set xs \<Longrightarrow> doomed rb' y = doomed rb y"
proof -
  note ord = rb_invD(4)[OF inv]
  obtain t where t: "core rb x = Some t" "\<not> is_known_as_subxact t" using order_invD(4)[OF ord, of x] x by (auto simp: is_top_def)
  obtain rb' where rb': "ReorderBufferCleanupTXN cfg rb x l = Some rb'" "rb_inv cfg rb' (without (doomed rb x) Q) lsn"
    "toplevel_by_lsn rb' = (if is_known_as_subxact t then toplevel_by_lsn rb else remove1 x (toplevel_by_lsn rb))"
    "core rb' = (\<lambda>y. if y \<in> doomed rb x then None
      else if is_known_as_subxact t \<and> y = toplevel_xid t then map_option (\<lambda>p. p\<lparr>subtxns := remove1 x (subtxns p)\<rparr>) (core rb y)
      else core rb y)"
    using cleanup_inv[OF inv t(1), of l] unfolding without_def by blast
  have "y \<notin> doomed rb x" if "y \<in> set xs" for y
  proof -
    have "\<exists>u. core rb y = Some u \<and> \<not> is_known_as_subxact u" "y \<noteq> x"
      using that order_invD(4)[OF ord, of y] order_invD(1)[OF ord] x by (auto simp: is_top_def listed_def)
    then show ?thesis using rb_structD(2)[OF rb_invD(2)[OF inv] t(1), of y] by (auto simp: doomed_def t(1))
  qed
  then have "doomed rb' y = doomed rb y" if "y \<in> set xs" for y using that t(2) by (simp add: doomed_def rb'(4))
  then show ?thesis using that rb'(1-3) t(2) x by simp
qed

lemma abort_old_inv:
  assumes inv: "rb_inv cfg rb Q lsn"
  shows "\<exists>rb'. ReorderBufferAbortOld cfg rb oldest l = Some rb' \<and> rb_inv cfg rb' (without (doomed_old rb oldest) Q) lsn \<and>
    toplevel_by_lsn rb' = dropWhile (\<lambda>x. x < oldest) (toplevel_by_lsn rb)"
proof -
  have "\<exists>rb'. abort_old_loop cfg oldest l xs rb = Some rb' \<and>
      rb_inv cfg rb' (without (\<Union>x \<in> set (takeWhile (\<lambda>x. x < oldest) xs). doomed rb x) Q) lsn \<and>
      toplevel_by_lsn rb' = dropWhile (\<lambda>x. x < oldest) xs" if "rb_inv cfg rb Q lsn" "toplevel_by_lsn rb = xs" for rb Q xs
    using that
  proof (induction xs arbitrary: rb Q)
    case (Cons x xs)
    show ?case
    proof (cases "x < oldest")
      case True
      obtain rb1 where rb1: "ReorderBufferCleanupTXN cfg rb x l = Some rb1" "rb_inv cfg rb1 (without (doomed rb x) Q) lsn"
        "toplevel_by_lsn rb1 = xs" "\<And>y. y \<in> set xs \<Longrightarrow> doomed rb1 y = doomed rb y"
        by (rule cleanup_top[OF Cons.prems, of l]) blast
      have "(\<Union>x \<in> set (takeWhile (\<lambda>x. x < oldest) xs). doomed rb1 x) = (\<Union>x \<in> set (takeWhile (\<lambda>x. x < oldest) xs). doomed rb x)"
        using rb1(4) by (auto dest: set_takeWhileD)
      then show ?thesis using Cons.IH[OF rb1(2,3)] rb1(1) True by (auto simp: Un_commute)
    qed (use Cons.prems in simp)
  qed simp
  from this[OF inv refl] show ?thesis by (simp add: ReorderBufferAbortOld_def doomed_old_def)
qed

lemma forget_inv:
  assumes inv: "rb_inv cfg rb Q lsn" and le: "lsn \<le> lsn'"
  shows "\<exists>rb' msgs. ReorderBufferForget cfg rb x lsn' = Some (rb', msgs) \<and> rb_inv cfg rb' (without (doomed rb x) Q) lsn' \<and>
    removed_from rb (doomed rb x) rb' \<and> msgs = (if has_snap rb x then invalidations (the (core rb x)) else [])"
proof -
  obtain rb1 n where rb1: "ReorderBufferTXNByXid rb x False InvalidXLogRecPtr False = (rb1, if core rb x = None then None else Some x, n)"
    "by_txn rb1 = by_txn rb"
    by (rule find_inv[OF inv]) blast
  obtain rb' where rb': "ReorderBufferAbort cfg rb x lsn' = Some rb'" "rb_inv cfg rb' (without (doomed rb x) Q) lsn'"
    "removed_from rb (doomed rb x) rb'" using abort_inv[OF inv le] by blast
  show ?thesis
  proof (cases "core rb x")
    case None
    then show ?thesis using rb' rb1 by (auto simp: ReorderBufferAbort_def ReorderBufferForget_def has_snap_def)
  next
    case (Some t)
    then obtain b where b: "by_txn rb x = Some b" "t = strip b" by (auto simp: core_eq_Some)
    then show ?thesis using rb' rb1 Some
      by (auto simp: ReorderBufferAbort_def ReorderBufferForget_def has_snap_def upd_txn_def Let_def)
  qed
qed

section \<open>Committing a subtransaction\<close>

lemma assign_child_lsn:
  assumes "cache_ok rb" "core rb x \<noteq> None" "core rb sub \<noteq> None"
  shows "ReorderBufferAssignChild rb x sub l = ReorderBufferAssignChild rb x sub l'"
proof -
  let ?rb = "rb\<lparr>by_txn_last_xid := x, by_txn_last_txn := Some x\<rparr>"
  have "cache_ok ?rb" using assms(2) by (auto simp: cache_ok_def)
  then show ?thesis
    using assms by (simp add: ReorderBufferAssignChild_def txn_by_xid_eq core_eq_None)
qed

lemma commit_child_inv:
  assumes inv: "rb_inv cfg rb Q lsn" and le: "lsn \<le> commit_lsn" "0 < lsn" "lsn \<le> e" and may: "may_assign rb x sub"
    and x: "core rb x \<noteq> None"
  shows "\<exists>rb'. ReorderBufferCommitChild rb x sub commit_lsn e = Some rb' \<and> rb_inv cfg rb' Q lsn"
proof -
  obtain rb1 n where rb1: "ReorderBufferTXNByXid rb sub False InvalidXLogRecPtr False = (rb1, if core rb sub = None then None else Some sub, n)"
    "rb_inv cfg rb1 Q lsn" "core rb1 = core rb"
    by (rule find_inv[OF inv]) blast
  show ?thesis
  proof (cases "core rb sub")
    case None
    then show ?thesis using rb1 by (simp add: ReorderBufferCommitChild_def)
  next
    case (Some s)
    let ?rb = "upd_txn sub (\<lambda>t. t\<lparr>final_lsn := commit_lsn, end_lsn := e\<rparr>) rb1"
    have "first_lsn t \<le> e" if "core rb1 sub = Some t" for t using rb_invD(6)[OF rb1(2) that] le by (simp add: times_ok_def)
    then have f: "rb_inv cfg ?rb Q lsn" "core ?rb = (core rb1)(sub := map_option (\<lambda>t. t\<lparr>final_lsn := commit_lsn, end_lsn := e\<rparr>) (core rb1 sub))"
      using set_final_inv[OF rb1(2) le(1), of sub "\<lambda>_. e"] by simp_all
    have "may_assign ?rb x sub" using may Some by (auto simp: may_assign_def f(2) rb1(3))
    then obtain rb' where rb': "ReorderBufferAssignChild ?rb x sub lsn = Some rb'" "rb_inv cfg rb' Q lsn"
      using assign_child_inv[OF f(1) order_refl le(2)] by blast
    have "core ?rb x \<noteq> None" "core ?rb sub \<noteq> None" using x Some by (simp_all add: f(2) rb1(3))
    then have "ReorderBufferAssignChild ?rb x sub InvalidXLogRecPtr = Some rb'"
      using assign_child_lsn[OF rb_invD(3)[OF f(1)], of x sub InvalidXLogRecPtr lsn] rb'(1) by simp
    then show ?thesis using rb1(1) Some rb'(2) by (simp add: ReorderBufferCommitChild_def)
  qed
qed

end
