(* ===== verification/Reorder_Merge.thy ===== *)
theory Reorder_Merge
  imports Reorder_Queue
begin

text \<open>
  The iterator of the reorder buffer as a k-way merge. Each active entry stands for a stream: the
  changes from its position in memory on, followed by what its spill files still hold. One call of
  \<open>ReorderBufferIterTXNNext\<close> takes the head of the stream with the least LSN.
\<close>

section \<open>The comparator\<close>

lemma IterCompare_le: "ReorderBufferIterCompare ents a b \<le> 0 \<longleftrightarrow> ent_lsn (ents ! b) \<le> ent_lsn (ents ! a)"
  by (auto simp: ReorderBufferIterCompare_def Let_def)

interpretation lsn_heap: heap_comparator "ReorderBufferIterCompare ents" for ents
proof
  fix a b c
  show "ReorderBufferIterCompare ents a b < 0 \<longleftrightarrow> 0 < ReorderBufferIterCompare ents b a"
    by (auto simp: ReorderBufferIterCompare_def Let_def)
  show "ReorderBufferIterCompare ents a b \<le> 0 \<Longrightarrow> ReorderBufferIterCompare ents b c \<le> 0 \<Longrightarrow>
    ReorderBufferIterCompare ents a c \<le> 0" by (simp add: IterCompare_le)
qed

lemma IterCompare_same_lsn:
  "ent_lsn e = ent_lsn (ents ! off) \<Longrightarrow> ReorderBufferIterCompare (ents[off := e]) = ReorderBufferIterCompare ents"
proof -
  assume "ent_lsn e = ent_lsn (ents ! off)"
  then have "ent_lsn (ents[off := e] ! i) = ent_lsn (ents ! i)" for i
    by (cases "i = off"; cases "off < length ents") (auto simp: not_less list_update_beyond)
  then show ?thesis by (simp add: ReorderBufferIterCompare_def fun_eq_iff)
qed

section \<open>Streams\<close>

definition txn_rest :: "decoding_config \<Rightarrow> (TransactionId \<times> XLogSegNo \<rightharpoonup> 'd ReorderBufferChange list) \<Rightarrow>
    'd ReorderBufferTXN \<Rightarrow> ReorderBufferIterTXNEntry \<Rightarrow> 'd ReorderBufferChange list" where
  "txn_rest cfg sp t e = disk_rest (spill_file sp (ent_txn e)) (first_lsn t div XLogSegSize cfg)
     (final_lsn t div XLogSegSize cfg) (ent_fd e) (ent_segno e)"

definition entry_stream :: "decoding_config \<Rightarrow> 'd ReorderBuffer \<Rightarrow> ReorderBufferIterTXNEntry \<Rightarrow> 'd ReorderBufferChange list" where
  "entry_stream cfg rb e =
     (case core rb (ent_txn e) of None \<Rightarrow> []
      | Some t \<Rightarrow> drop (ent_change e) (changes t) @ txn_rest cfg (spill rb) t e)"

definition entry_ok :: "decoding_config \<Rightarrow> 'd ReorderBuffer \<Rightarrow> ReorderBufferIterTXNEntry \<Rightarrow> bool" where
  "entry_ok cfg rb e \<longleftrightarrow>
     (\<exists>t. core rb (ent_txn e) = Some t \<and> ent_change e < length (changes t) \<and>
        ent_lsn e = chg_lsn (changes t ! ent_change e) \<and> nentries_mem t = length (changes t) \<and>
        length (changes t) + length (txn_rest cfg (spill rb) t e) \<le> nentries t \<and>
        (\<forall>r > final_lsn t div XLogSegSize cfg. spill_file (spill rb) (ent_txn e) r = [])) \<and>
     sorted (map chg_lsn (entry_stream cfg rb e))"

text \<open>A stream depends on its transaction and on its files only.\<close>

lemma entry_cong:
  assumes "core rb' (ent_txn e) = core rb (ent_txn e)"
    "\<And>s. spill_file (spill rb') (ent_txn e) s = spill_file (spill rb) (ent_txn e) s"
  shows "entry_stream cfg rb' e = entry_stream cfg rb e" "entry_ok cfg rb' e = entry_ok cfg rb e"
proof -
  have "spill_file (spill rb') (ent_txn e) = spill_file (spill rb) (ent_txn e)" using assms(2) by (simp add: fun_eq_iff)
  then have rest: "txn_rest cfg (spill rb') t e = txn_rest cfg (spill rb) t e" for t by (simp add: txn_rest_def)
  then show stream: "entry_stream cfg rb' e = entry_stream cfg rb e"
    by (simp add: entry_stream_def assms(1) split: option.split)
  show "entry_ok cfg rb' e = entry_ok cfg rb e"
    by (simp add: entry_ok_def assms rest stream)
qed

lemma entry_stream_Cons:
  assumes "entry_ok cfg rb e" "core rb (ent_txn e) = Some t"
  shows "entry_stream cfg rb e = changes t ! ent_change e # drop (Suc (ent_change e)) (changes t) @ txn_rest cfg (spill rb) t e"
  using assms by (simp add: entry_ok_def entry_stream_def Cons_nth_drop_Suc)

lemma entry_lsn_least: "entry_ok cfg rb e \<Longrightarrow> c \<in> set (entry_stream cfg rb e) \<Longrightarrow> ent_lsn e \<le> chg_lsn c"
proof -
  assume ok: "entry_ok cfg rb e" and c: "c \<in> set (entry_stream cfg rb e)"
  then obtain t where t: "core rb (ent_txn e) = Some t" "ent_lsn e = chg_lsn (changes t ! ent_change e)"
    by (auto simp: entry_ok_def)
  from ok have "sorted (map chg_lsn (entry_stream cfg rb e))" by (simp add: entry_ok_def)
  with c show ?thesis using entry_stream_Cons[OF ok t(1)] t(2) by auto
qed

section \<open>The iterator invariant\<close>

text \<open>\<open>S\<close> gives for every transaction the changes that the iterator has still to return.\<close>

definition iter_inv :: "decoding_config \<Rightarrow> 'd ReorderBuffer \<Rightarrow> 'd ReorderBufferIterTXNState \<Rightarrow>
    (TransactionId \<Rightarrow> 'd ReorderBufferChange list) \<Rightarrow> bool" where
  "iter_inv cfg rb st S \<longleftrightarrow>
     bh_heap (iter_heap st) \<and> bh_compare (iter_heap st) = ReorderBufferIterCompare (entries st) \<and>
     (\<exists>A. finite A \<and> bh_mset (iter_heap st) = mset_set A \<and> A \<subseteq> {..<length (entries st)} \<and>
        inj_on (\<lambda>off. ent_txn (entries st ! off)) A \<and> (\<forall>off \<in> A. entry_ok cfg rb (entries st ! off)) \<and>
        (\<forall>off \<in> A. S (ent_txn (entries st ! off)) = entry_stream cfg rb (entries st ! off)) \<and>
        (\<forall>z. z \<notin> (\<lambda>off. ent_txn (entries st ! off)) ` A \<longrightarrow> S z = []))"

text \<open>Replacing the entry at the top of the heap: the edges that do not touch it stay as they are.\<close>

lemma heap_nodes_distinct:
  assumes "bh_wf heap" "bh_mset heap = mset_set A" "finite A"
  shows "distinct (take (bh_size heap) (bh_nodes heap))"
  using assms by (metis bh_mset_def count_mset_set(1,3) distinct_count_atmost_1 finite_set_mset_mset_set set_mset_mset)

lemma replace_top_entry:
  fixes e :: ReorderBufferIterTXNEntry
  assumes heap: "bh_heap heap" "bh_compare heap = ReorderBufferIterCompare ents" "bh_mset heap = mset_set A" "finite A"
    and size: "0 < bh_size heap"
  defines "off \<equiv> binaryheap_first heap"
  defines "heap' \<equiv> binaryheap_replace_first (heap\<lparr>bh_compare := ReorderBufferIterCompare (ents[off := e])\<rparr>) off"
  shows "bh_heap heap' \<and> bh_compare heap' = ReorderBufferIterCompare (ents[off := e]) \<and> bh_mset heap' = mset_set A"
proof -
  let ?h = "heap\<lparr>bh_compare := ReorderBufferIterCompare (ents[off := e])\<rparr>"
  have wf: "bh_wf heap" "bh_wf ?h" using heap(1) by (simp_all add: bh_heap_def bh_wf_def)
  have len: "bh_size heap \<le> length (bh_nodes heap)" using wf by (simp add: bh_wf_def)
  have dist: "distinct (take (bh_size heap) (bh_nodes heap))" by (rule heap_nodes_distinct[OF wf(1) heap(3,4)])
  have neq: "bh_nodes heap ! j \<noteq> off" if "0 < j" "j < bh_size heap" for j
    using nth_eq_iff_index_eq[OF dist, of j 0] that size len by (simp add: off_def binaryheap_first_def)
  have "edge_ok ?h j" if j: "0 < j" "j < bh_size ?h" "parent_offset j \<noteq> 0" for j
  proof -
    have "edge_ok heap j" using heap(1) j by (simp add: bh_heap_def)
    moreover have "parent_offset j < bh_size heap" using parent_offset_less[OF j(1)] j(2) by simp
    ultimately show ?thesis using neq[of j] neq[of "parent_offset j"] j heap(2) by (simp add: edge_ok_def IterCompare_le)
  qed
  note rep = lsn_heap.replace_first_correct[OF wf(2) _ _ this, of "ents[off := e]" off]
  have "bh_heap heap'" "sift_frame (?h\<lparr>bh_nodes := (bh_nodes ?h)[0 := off]\<rparr>) heap'"
    "add_mset (binaryheap_first ?h) (bh_mset heap') = add_mset off (bh_mset ?h)"
    unfolding heap'_def using rep size by simp_all
  moreover have "binaryheap_first ?h = off" "bh_mset ?h = mset_set A"
    using heap(3) by (simp_all add: off_def binaryheap_first_def bh_mset_def)
  ultimately show ?thesis by (simp add: sift_frame_def)
qed

section \<open>One step\<close>

text \<open>The two ways a step leaves the heap: the top entry moves on, or it is exhausted.\<close>

lemma iter_invD:
  assumes "iter_inv cfg rb st S"
  obtains A where "bh_heap (iter_heap st)" "bh_compare (iter_heap st) = ReorderBufferIterCompare (entries st)"
    "finite A" "bh_mset (iter_heap st) = mset_set A" "A \<subseteq> {..<length (entries st)}"
    "inj_on (\<lambda>off. ent_txn (entries st ! off)) A" "\<And>off. off \<in> A \<Longrightarrow> entry_ok cfg rb (entries st ! off)"
    "\<And>off. off \<in> A \<Longrightarrow> S (ent_txn (entries st ! off)) = entry_stream cfg rb (entries st ! off)"
    "\<And>z. z \<notin> (\<lambda>off. ent_txn (entries st ! off)) ` A \<Longrightarrow> S z = []"
  using assms unfolding iter_inv_def by blast

lemma first_in_heap:
  assumes "bh_heap (iter_heap st)" "bh_compare (iter_heap st) = ReorderBufferIterCompare (entries st)"
    "finite A" "bh_mset (iter_heap st) = mset_set A" "0 < bh_size (iter_heap st)"
  shows "binaryheap_first (iter_heap st) \<in> A \<and>
    (\<forall>i \<in> A. ent_lsn (entries st ! binaryheap_first (iter_heap st)) \<le> ent_lsn (entries st ! i))"
  using lsn_heap.first_is_max[OF assms(1,2,5)] assms(3,4) by (auto simp: IterCompare_le)

lemma advance_top:
  assumes inv: "iter_inv cfg rb st S" and size: "0 < bh_size (iter_heap st)"
    and off: "off = binaryheap_first (iter_heap st)" and e: "e = entries st ! off"
    and e': "ent_txn e' = ent_txn e" "entry_ok cfg rb' e'" "entry_stream cfg rb e = c # entry_stream cfg rb' e'"
    and frame: "\<And>y. y \<noteq> ent_txn e \<Longrightarrow> core rb' y = core rb y"
      "\<And>y s. y \<noteq> ent_txn e \<Longrightarrow> spill_file (spill rb') y s = spill_file (spill rb) y s"
    and st': "entries st' = (entries st)[off := e']"
      "iter_heap st' = binaryheap_replace_first ((iter_heap st)\<lparr>bh_compare := ReorderBufferIterCompare (entries st')\<rparr>) off"
  shows "S (ent_txn e) = c # entry_stream cfg rb' e'" "iter_inv cfg rb' st' (S(ent_txn e := entry_stream cfg rb' e'))"
proof -
  obtain A where A: "bh_heap (iter_heap st)" "bh_compare (iter_heap st) = ReorderBufferIterCompare (entries st)"
    "finite A" "bh_mset (iter_heap st) = mset_set A" "A \<subseteq> {..<length (entries st)}"
    "inj_on (\<lambda>off. ent_txn (entries st ! off)) A" "\<And>off. off \<in> A \<Longrightarrow> entry_ok cfg rb (entries st ! off)"
    "\<And>off. off \<in> A \<Longrightarrow> S (ent_txn (entries st ! off)) = entry_stream cfg rb (entries st ! off)"
    "\<And>z. z \<notin> (\<lambda>off. ent_txn (entries st ! off)) ` A \<Longrightarrow> S z = []"
    by (rule iter_invD[OF inv]) blast
  have offA: "off \<in> A" "off < length (entries st)" using first_in_heap[OF A(1-4) size] A(5) off by auto
  have heap: "bh_heap (iter_heap st')" "bh_compare (iter_heap st') = ReorderBufferIterCompare (entries st')"
    "bh_mset (iter_heap st') = mset_set A"
    using replace_top_entry[OF A(1,2,4,3) size, of e'] off st' by simp_all
  have ents: "entries st' ! i = (if i = off then e' else entries st ! i)" if "i \<in> A" for i
    using that A(5) offA st'(1) by auto
  have other: "entry_stream cfg rb' (entries st ! i) = entry_stream cfg rb (entries st ! i)"
    "entry_ok cfg rb' (entries st ! i) = entry_ok cfg rb (entries st ! i)" if "i \<in> A" "i \<noteq> off" for i
  proof -
    have "ent_txn (entries st ! i) \<noteq> ent_txn e" using inj_onD[OF A(6), of i off] that offA(1) e by blast
    then show "entry_stream cfg rb' (entries st ! i) = entry_stream cfg rb (entries st ! i)"
      "entry_ok cfg rb' (entries st ! i) = entry_ok cfg rb (entries st ! i)"
      using frame by (auto intro!: entry_cong)
  qed
  have same: "ent_txn (entries st' ! i) = ent_txn (entries st ! i)" if "i \<in> A" for i
    using ents[OF that] e'(1) e by simp
  then have inj: "inj_on (\<lambda>i. ent_txn (entries st' ! i)) A" using A(6) by (simp cong: inj_on_cong)
  have img: "(\<lambda>i. ent_txn (entries st' ! i)) ` A = (\<lambda>i. ent_txn (entries st ! i)) ` A" using same by (rule image_cong[OF refl])
  show "S (ent_txn e) = c # entry_stream cfg rb' e'" using A(8)[OF offA(1)] e e'(3) by simp
  have "entry_ok cfg rb' (entries st' ! i)" if "i \<in> A" for i
    using ents[OF that] e'(2) other(2)[OF that] A(7)[OF that] by auto
  moreover have "(S(ent_txn e := entry_stream cfg rb' e')) (ent_txn (entries st' ! i)) = entry_stream cfg rb' (entries st' ! i)"
    if "i \<in> A" for i
  proof (cases "i = off")
    case False
    then have "ent_txn (entries st ! i) \<noteq> ent_txn e" using inj_onD[OF A(6), of i off] that offA(1) e by blast
    then show ?thesis using ents[OF that] other(1)[OF that False] A(8)[OF that] False by simp
  qed (use ents[OF that] e'(1) in simp)
  moreover have "(S(ent_txn e := entry_stream cfg rb' e')) z = []" if "z \<notin> (\<lambda>i. ent_txn (entries st' ! i)) ` A" for z
    using that A(9)[of z] offA(1) e unfolding img by auto
  ultimately show "iter_inv cfg rb' st' (S(ent_txn e := entry_stream cfg rb' e'))"
    unfolding iter_inv_def using heap A(3,5) inj st'(1) by (intro conjI exI[of _ A]) auto
qed

lemma remove_top:
  assumes inv: "iter_inv cfg rb st S" and size: "0 < bh_size (iter_heap st)"
    and off: "off = binaryheap_first (iter_heap st)" and e: "e = entries st ! off"
    and stream: "entry_stream cfg rb e = [c]" and e': "ent_lsn e' = ent_lsn e" "ent_txn e' = ent_txn e"
    and frame: "\<And>y. y \<noteq> ent_txn e \<Longrightarrow> core rb' y = core rb y"
      "\<And>y s. y \<noteq> ent_txn e \<Longrightarrow> spill_file (spill rb') y s = spill_file (spill rb) y s"
    and st': "entries st' = (entries st)[off := e']"
      "iter_heap st' = snd (binaryheap_remove_first ((iter_heap st)\<lparr>bh_compare := ReorderBufferIterCompare (entries st')\<rparr>))"
  shows "S (ent_txn e) = [c]" "iter_inv cfg rb' st' (S(ent_txn e := []))"
proof -
  obtain A where A: "bh_heap (iter_heap st)" "bh_compare (iter_heap st) = ReorderBufferIterCompare (entries st)"
    "finite A" "bh_mset (iter_heap st) = mset_set A" "A \<subseteq> {..<length (entries st)}"
    "inj_on (\<lambda>off. ent_txn (entries st ! off)) A" "\<And>off. off \<in> A \<Longrightarrow> entry_ok cfg rb (entries st ! off)"
    "\<And>off. off \<in> A \<Longrightarrow> S (ent_txn (entries st ! off)) = entry_stream cfg rb (entries st ! off)"
    "\<And>z. z \<notin> (\<lambda>off. ent_txn (entries st ! off)) ` A \<Longrightarrow> S z = []"
    by (rule iter_invD[OF inv]) blast
  have offA: "off \<in> A" "off < length (entries st)" using first_in_heap[OF A(1-4) size] A(5) off by auto
  have same: "ReorderBufferIterCompare (entries st') = ReorderBufferIterCompare (entries st)"
    unfolding st'(1) by (rule IterCompare_same_lsn) (use e'(1) e in simp)
  have heap_eq: "iter_heap st' = snd (binaryheap_remove_first (iter_heap st))"
    unfolding st'(2) same A(2)[symmetric] by simp
  have heap: "bh_heap (iter_heap st')" "bh_compare (iter_heap st') = ReorderBufferIterCompare (entries st')"
    "bh_mset (iter_heap st) = add_mset off (bh_mset (iter_heap st'))"
    unfolding heap_eq off same by (rule lsn_heap.remove_first_correct[OF A(1,2) size]; simp)+
  have m: "bh_mset (iter_heap st') = mset_set (A - {off})"
    using heap(3) A(4) mset_set.remove[OF A(3) offA(1)] by simp
  have ents: "entries st' ! i = entries st ! i" if "i \<noteq> off" for i using that st'(1) by simp
  have other: "entry_stream cfg rb' (entries st ! i) = entry_stream cfg rb (entries st ! i)"
    "entry_ok cfg rb' (entries st ! i) = entry_ok cfg rb (entries st ! i)" if "i \<in> A - {off}" for i
  proof -
    have "ent_txn (entries st ! i) \<noteq> ent_txn e" using inj_onD[OF A(6), of i off] that offA(1) e by blast
    then show "entry_stream cfg rb' (entries st ! i) = entry_stream cfg rb (entries st ! i)"
      "entry_ok cfg rb' (entries st ! i) = entry_ok cfg rb (entries st ! i)"
      using frame by (auto intro!: entry_cong)
  qed
  show "S (ent_txn e) = [c]" using A(8)[OF offA(1)] e stream by simp
  have inj: "inj_on (\<lambda>i. ent_txn (entries st' ! i)) (A - {off})"
    using A(6) by (auto simp: inj_on_def ents)
  have ne: "ent_txn (entries st ! i) \<noteq> ent_txn e" if "i \<in> A - {off}" for i
    using inj_onD[OF A(6), of i off] that offA(1) e by blast
  have "entry_ok cfg rb' (entries st' ! i)" if "i \<in> A - {off}" for i using that ents other(2) A(7) by simp
  moreover have "(S(ent_txn e := [])) (ent_txn (entries st' ! i)) = entry_stream cfg rb' (entries st' ! i)" if "i \<in> A - {off}" for i
    using ne[OF that] that A(8)[of i] other(1)[OF that] ents[of i] by simp
  moreover have "(S(ent_txn e := [])) z = []" if z: "z \<notin> (\<lambda>i. ent_txn (entries st' ! i)) ` (A - {off})" for z
  proof (cases "z = ent_txn e")
    case False
    then have "z \<notin> (\<lambda>i. ent_txn (entries st ! i)) ` A" using z e by (auto simp: ents)
    then show ?thesis using A(9) False by simp
  qed simp
  ultimately show "iter_inv cfg rb' st' (S(ent_txn e := []))"
    unfolding iter_inv_def using heap(1,2) m A(3,5) inj st'(1) by (intro conjI exI[of _ "A - {off}"]) auto
qed

text \<open>Freeing the change of the previous call does not touch the streams.\<close>

definition free_old ::
  "decoding_config \<Rightarrow> 'd ReorderBuffer \<Rightarrow> 'd ReorderBufferIterTXNState \<Rightarrow> 'd ReorderBuffer \<times> 'd ReorderBufferIterTXNState" where
  "free_old cfg rb st = (case old_change st of [] \<Rightarrow> (rb, st)
     | change # rest \<Rightarrow> (ReorderBufferReturnChange cfg rb change, st\<lparr>old_change := rest\<rparr>))"

lemma free_old_same:
  assumes "free_old cfg rb st = (rb1, st1)"
  shows "core rb1 = core rb" "spill rb1 = spill rb" "same_lists rb rb1" "entries st1 = entries st" "iter_heap st1 = iter_heap st"
    "iter_inv cfg rb1 st1 S = iter_inv cfg rb st S"
proof -
  show c: "core rb1 = core rb" "spill rb1 = spill rb" "same_lists rb rb1" "entries st1 = entries st" "iter_heap st1 = iter_heap st"
    using assms by (auto simp: free_old_def same_lists_def split: list.splits)
  have "entry_stream cfg rb1 e = entry_stream cfg rb e" "entry_ok cfg rb1 e = entry_ok cfg rb e" for e
    by (rule entry_cong; simp add: c(1,2))+
  then show "iter_inv cfg rb1 st1 S = iter_inv cfg rb st S"
    using c by (simp add: iter_inv_def)
qed

lemma set_entry_simps [simp]:
  "entries (set_entry off f st) = (entries st)[off := f (entries st ! off)]"
  "old_change (set_entry off f st) = old_change st"
  "iter_heap (set_entry off f st) =
     (iter_heap st)\<lparr>bh_compare := ReorderBufferIterCompare ((entries st)[off := f (entries st ! off)])\<rparr>"
  by (simp_all add: set_entry_def Let_def)

lemma next_eq:
  assumes "bh_size (iter_heap st) \<noteq> 0" "free_old cfg rb st = (rb1, st1)"
    "off = binaryheap_first (iter_heap st)" "e = entries st ! off" "by_txn rb1 (ent_txn e) = Some b"
    "c = changes b ! ent_change e"
  shows "ReorderBufferIterTXNNext cfg rb st =
      (if ent_change e + 1 < length (changes b) then
         let st2 = set_entry off (\<lambda>e'. e'\<lparr>ent_lsn := chg_lsn (changes b ! (ent_change e + 1)), ent_change := ent_change e + 1\<rparr>) st1
         in Some (Some c, rb1, st2\<lparr>iter_heap := binaryheap_replace_first (iter_heap st2) off\<rparr>)
       else if nentries b \<noteq> nentries_mem b then
         let rb2 = upd_txn (ent_txn e) (\<lambda>t. t\<lparr>changes := take (ent_change e) (changes t) @ drop (ent_change e + 1) (changes t)\<rparr>) rb1;
             st2 = st1\<lparr>old_change := old_change st1 @ [c]\<rparr>
         in do { (rb3, restored, fd, segno) \<leftarrow> ReorderBufferRestoreChanges cfg rb2 (ent_txn e) (ent_fd e) (ent_segno e);
                 let st3 = set_entry off (\<lambda>e. e\<lparr>ent_fd := fd, ent_segno := segno\<rparr>) st2;
                 t \<leftarrow> by_txn rb3 (ent_txn e);
                 (if restored > 0 then
                    (case changes t of [] \<Rightarrow> None
                     | next_change # _ \<Rightarrow>
                         let st4 = set_entry off (\<lambda>e. e\<lparr>ent_lsn := chg_lsn next_change, ent_change := 0\<rparr>) st3
                         in Some (Some c, rb3, st4\<lparr>iter_heap := binaryheap_replace_first (iter_heap st4) off\<rparr>))
                  else Some (Some c, rb3, st3\<lparr>iter_heap := snd (binaryheap_remove_first (iter_heap st3))\<rparr>)) }
       else Some (Some c, rb1, st1\<lparr>iter_heap := snd (binaryheap_remove_first (iter_heap st1))\<rparr>))"
proof -
  have if_False': "(if bh_size (iter_heap st) = 0 then u else v) = v" for u v :: 'x using assms(1) by simp
  show ?thesis
    unfolding ReorderBufferIterTXNNext_def if_False' Let_def assms(3)[symmetric] assms(4)[symmetric]
      free_old_def[symmetric] assms(2) prod.case
    by (simp only: assms(5,6) Option.bind.simps)
qed

text \<open>
  The change returned is the least one left, and what is left afterwards is everything else. The
  three branches of the code are the next change in memory, the next batch from disk, and the end
  of the stream.
\<close>

text \<open>The iterator only changes which part of a transaction is in memory.\<close>

definition reads :: "'d ReorderBuffer \<Rightarrow> 'd ReorderBuffer \<Rightarrow> bool" where
  "reads rb rb' \<longleftrightarrow> spill rb' = spill rb \<and> same_lists rb rb' \<and>
     (\<forall>y. map_option (\<lambda>t. t\<lparr>changes := [], nentries_mem := 0\<rparr>) (core rb' y) =
          map_option (\<lambda>t. t\<lparr>changes := [], nentries_mem := 0\<rparr>) (core rb y))"

lemma reads_refl: "reads rb rb"
  by (simp add: reads_def)

lemma reads_trans: "reads a b \<Longrightarrow> reads b c \<Longrightarrow> reads a c"
  using same_lists_trans[of a b c] by (simp add: reads_def)

text \<open>One call delivers the change \<open>c\<close>: it takes it off the front of the stream of \<open>x\<close>.\<close>

definition delivers ::
  "decoding_config \<Rightarrow> 'd ReorderBuffer \<Rightarrow> (TransactionId \<Rightarrow> 'd ReorderBufferChange list) \<Rightarrow> TransactionId \<Rightarrow>
   'd ReorderBufferChange \<Rightarrow> ('d ReorderBufferChange option \<times> 'd ReorderBuffer \<times> 'd ReorderBufferIterTXNState) option \<Rightarrow> bool" where
  "delivers cfg rb S x c r \<longleftrightarrow> (\<exists>rb' st' cs. r = Some (Some c, rb', st') \<and> S x = c # cs \<and>
     iter_inv cfg rb' st' (S(x := cs)) \<and> reads rb rb')"

lemma deliversI:
  assumes "S x = c # cs" "iter_inv cfg rb' st' (S(x := cs))" "reads rb rb'"
  shows "delivers cfg rb S x c (Some (Some c, rb', st'))"
  using assms by (auto simp: delivers_def)

text \<open>The entry at the top of the heap: it is valid, and its change is the least one left.\<close>

definition top_entry ::
  "decoding_config \<Rightarrow> 'd ReorderBuffer \<Rightarrow> 'd ReorderBufferIterTXNState \<Rightarrow> (TransactionId \<Rightarrow> 'd ReorderBufferChange list) \<Rightarrow>
   nat \<Rightarrow> ReorderBufferIterTXNEntry \<Rightarrow> 'd ReorderBufferTXN \<Rightarrow> bool" where
  "top_entry cfg rb st S off e t \<longleftrightarrow> iter_inv cfg rb st S \<and> 0 < bh_size (iter_heap st) \<and>
     off = binaryheap_first (iter_heap st) \<and> e = entries st ! off \<and> off < length (entries st) \<and>
     entry_ok cfg rb e \<and> core rb (ent_txn e) = Some t"

lemma top_entryD:
  assumes "top_entry cfg rb st S off e t"
  shows "iter_inv cfg rb st S" "0 < bh_size (iter_heap st)" "off = binaryheap_first (iter_heap st)" "e = entries st ! off"
    "off < length (entries st)" "entry_ok cfg rb e" "core rb (ent_txn e) = Some t"
  using assms unfolding top_entry_def by blast+

lemma top_entry_fields:
  assumes "top_entry cfg rb st S off e t"
  shows "ent_lsn e = chg_lsn (changes t ! ent_change e)" "ent_change e < length (changes t)"
    "nentries_mem t = length (changes t)" "length (changes t) + length (txn_rest cfg (spill rb) t e) \<le> nentries t"
    "final_lsn t div XLogSegSize cfg < r \<Longrightarrow> spill_file (spill rb) (ent_txn e) r = []"
    "sorted (map chg_lsn (entry_stream cfg rb e))"
    "entry_stream cfg rb e = changes t ! ent_change e # drop (Suc (ent_change e)) (changes t) @ txn_rest cfg (spill rb) t e"
  using top_entryD(6,7)[OF assms] entry_stream_Cons[OF top_entryD(6,7)[OF assms]] by (auto simp: entry_ok_def)

lemma top_entry_ex:
  assumes inv: "iter_inv cfg rb st S" and size: "0 < bh_size (iter_heap st)"
    and off: "off = binaryheap_first (iter_heap st)" and e: "e = entries st ! off"
  shows "\<exists>t. top_entry cfg rb st S off e t \<and> (\<forall>y. \<forall>d \<in> set (S y). chg_lsn (changes t ! ent_change e) \<le> chg_lsn d)"
proof -
  obtain A where A: "bh_heap (iter_heap st)" "bh_compare (iter_heap st) = ReorderBufferIterCompare (entries st)"
    "finite A" "bh_mset (iter_heap st) = mset_set A" "A \<subseteq> {..<length (entries st)}"
    "\<And>off. off \<in> A \<Longrightarrow> entry_ok cfg rb (entries st ! off)"
    "\<And>off. off \<in> A \<Longrightarrow> S (ent_txn (entries st ! off)) = entry_stream cfg rb (entries st ! off)"
    "\<And>z. z \<notin> (\<lambda>off. ent_txn (entries st ! off)) ` A \<Longrightarrow> S z = []" by (rule iter_invD[OF inv]) blast
  have first: "off \<in> A" "\<And>i. i \<in> A \<Longrightarrow> ent_lsn e \<le> ent_lsn (entries st ! i)"
    using first_in_heap[OF A(1-4) size] by (simp_all add: off e)
  have ok: "entry_ok cfg rb e" using A(6) first(1) e by simp
  then obtain t where t: "core rb (ent_txn e) = Some t" "ent_lsn e = chg_lsn (changes t ! ent_change e)"
    by (auto simp: entry_ok_def)
  have "chg_lsn (changes t ! ent_change e) \<le> chg_lsn d" if d: "d \<in> set (S y)" for d y
  proof -
    obtain i where "i \<in> A" "d \<in> set (entry_stream cfg rb (entries st ! i))" using d A(7) A(8)[of y] by fastforce
    then show ?thesis using entry_lsn_least[OF A(6)] first(2) t(2) by fastforce
  qed
  then show ?thesis using inv size off e ok t(1) first(1) A(5) by (auto simp: top_entry_def)
qed

text \<open>The next change of the transaction is in memory.\<close>

lemma deliver_memory:
  assumes top: "top_entry cfg rb st S off e t" and more: "ent_change e + 1 < length (changes t)"
    and st2: "st2 = set_entry off (\<lambda>e'. e'\<lparr>ent_lsn := chg_lsn (changes t ! (ent_change e + 1)), ent_change := ent_change e + 1\<rparr>) st"
  shows "delivers cfg rb S (ent_txn e) (changes t ! ent_change e)
    (Some (Some (changes t ! ent_change e), rb, st2\<lparr>iter_heap := binaryheap_replace_first (iter_heap st2) off\<rparr>))"
proof (rule deliversI[OF _ _ reads_refl])
  note D = top_entryD[OF top] and F = top_entry_fields[OF top]
  let ?e = "e\<lparr>ent_lsn := chg_lsn (changes t ! (ent_change e + 1)), ent_change := ent_change e + 1\<rparr>"
  let ?st = "st2\<lparr>iter_heap := binaryheap_replace_first (iter_heap st2) off\<rparr>"
  have s: "entry_stream cfg rb e = changes t ! ent_change e # entry_stream cfg rb ?e"
    unfolding F(7) by (simp add: entry_stream_def D(7) txn_rest_def)
  have "entry_ok cfg rb ?e"
    using F D(7) more unfolding s by (simp add: entry_ok_def txn_rest_def)
  note advance = advance_top[OF D(1-4) _ this s, of ?st]
  show "S (ent_txn e) = changes t ! ent_change e # entry_stream cfg rb ?e"
    "iter_inv cfg rb ?st (S(ent_txn e := entry_stream cfg rb ?e))"
    using advance by (simp_all add: st2 D(4))
qed

text \<open>It was the last change of a transaction that is wholly in memory.\<close>

lemma deliver_last:
  assumes top: "top_entry cfg rb st S off e t" and last: "\<not> ent_change e + 1 < length (changes t)"
    and mem: "nentries t = nentries_mem t"
  shows "delivers cfg rb S (ent_txn e) (changes t ! ent_change e)
    (Some (Some (changes t ! ent_change e), rb, st\<lparr>iter_heap := snd (binaryheap_remove_first (iter_heap st))\<rparr>))"
proof (rule deliversI[OF _ _ reads_refl])
  note D = top_entryD[OF top] and F = top_entry_fields[OF top]
  have s: "entry_stream cfg rb e = [changes t ! ent_change e]" using F(3,4,7) last mem by simp
  have cmp: "bh_compare (iter_heap st) = ReorderBufferIterCompare (entries st)" by (rule iter_invD[OF D(1)]) blast
  have hc: "(iter_heap st)\<lparr>bh_compare := ReorderBufferIterCompare (entries st)\<rparr> = iter_heap st"
    unfolding cmp[symmetric] by simp
  note remove = remove_top[OF D(1-4), where e' = e and rb' = rb and
      st' = "st\<lparr>iter_heap := snd (binaryheap_remove_first (iter_heap st))\<rparr>"]
  show "S (ent_txn e) = [changes t ! ent_change e]"
    "iter_inv cfg rb (st\<lparr>iter_heap := snd (binaryheap_remove_first (iter_heap st))\<rparr>) (S(ent_txn e := []))"
    using remove s by (simp_all add: D(4) hc)
qed

text \<open>
  Otherwise the transaction was spilled: the last change is taken out of it and the next batch is read
  back, which may turn out to be empty.
\<close>

lemma restore_next_batch:
  assumes top: "top_entry cfg rb st S off e t" and x: "x = ent_txn e"
    and rb2: "rb2 = upd_txn x (\<lambda>t. t\<lparr>changes := take (ent_change e) (changes t) @ drop (ent_change e + 1) (changes t)\<rparr>) rb"
    and rest: "rest = txn_rest cfg (spill rb) t e" and mx: "mx = max_changes_in_memory cfg"
  obtains rb3 fd segno t3 where
    "ReorderBufferRestoreChanges cfg rb2 x (ent_fd e) (ent_segno e) = Some (rb3, length (take mx rest), fd, segno)"
    "t3 = t\<lparr>changes := take mx rest, nentries_mem := length (take mx rest)\<rparr>"
    "core rb3 = (core rb)(x \<mapsto> t3)" "spill rb3 = spill rb" "reads rb rb3"
    "txn_rest cfg (spill rb) t3 (e\<lparr>ent_fd := fd, ent_segno := segno\<rparr>) = drop mx rest"
proof -
  note D = top_entryD[OF top] and F = top_entry_fields[OF top]
  define t2 where "t2 = t\<lparr>changes := take (ent_change e) (changes t) @ drop (ent_change e + 1) (changes t)\<rparr>"
  have core2: "core rb2 = (core rb)(x \<mapsto> t2)" using D(7) by (simp add: x rb2 t2_def core_upd_txn strip_def)
  then have c2: "core rb2 (ent_txn e) = Some t2" by (simp add: x)
  have spill2: "spill rb2 = spill rb" by (simp add: rb2)
  have flds: "first_lsn t2 = first_lsn t" "final_lsn t2 = final_lsn t" by (simp_all add: t2_def)
  note ex = restore_changes_ex[OF c2 _ refl refl refl refl, of cfg "ent_fd e" "ent_segno e",
      unfolded flds spill2 txn_rest_def[symmetric], OF F(5), folded rest mx x]
  obtain rb3 fd segno where r: "ReorderBufferRestoreChanges cfg rb2 x (ent_fd e) (ent_segno e) = Some (rb3, length (take mx rest), fd, segno)"
    "core rb3 = (core rb2)(x \<mapsto> t2\<lparr>changes := take mx rest, nentries_mem := length (take mx rest)\<rparr>)" "spill rb3 = spill rb2"
    "same_lists rb2 rb3"
    "disk_rest (spill_file (spill rb) x) (first_lsn t div XLogSegSize cfg) (final_lsn t div XLogSegSize cfg) fd segno = drop mx rest"
    using ex unfolding spill2 by blast
  define t3 where "t3 = t\<lparr>changes := take mx rest, nentries_mem := length (take mx rest)\<rparr>"
  have core3: "core rb3 = (core rb)(x \<mapsto> t3)" using r(2) core2 by (simp add: t2_def t3_def)
  have "same_lists rb rb2" by (simp add: rb2 same_lists_def)
  then have "reads rb rb3"
    using r(3,4) spill2 same_lists_trans D(7) unfolding reads_def core3 by (auto simp: t3_def x)
  then show thesis using that[OF r(1) t3_def core3] r(3,5) spill2 by (simp add: txn_rest_def t3_def x)
qed

lemma deliver_exhausted:
  assumes top: "top_entry cfg rb st S off e t" and last: "\<not> ent_change e + 1 < length (changes t)"
    and rest: "txn_rest cfg (spill rb) t e = []"
    and rb3: "core rb3 = (core rb)(ent_txn e \<mapsto> t3)" "spill rb3 = spill rb" "reads rb rb3"
    and st3: "st3 = set_entry off (\<lambda>e. e\<lparr>ent_fd := fd, ent_segno := segno\<rparr>) (st\<lparr>old_change := old\<rparr>)"
  shows "delivers cfg rb S (ent_txn e) (changes t ! ent_change e)
    (Some (Some (changes t ! ent_change e), rb3, st3\<lparr>iter_heap := snd (binaryheap_remove_first (iter_heap st3))\<rparr>))"
proof (rule deliversI[OF _ _ rb3(3)])
  note D = top_entryD[OF top] and F = top_entry_fields[OF top]
  have s: "entry_stream cfg rb e = [changes t ! ent_change e]" using F(7) last rest by simp
  let ?st = "st3\<lparr>iter_heap := snd (binaryheap_remove_first (iter_heap st3))\<rparr>"
  note remove = remove_top[OF D(1-4), where e' = "e\<lparr>ent_fd := fd, ent_segno := segno\<rparr>" and rb' = rb3 and st' = ?st]
  show "S (ent_txn e) = [changes t ! ent_change e]" "iter_inv cfg rb3 ?st (S(ent_txn e := []))"
    by (rule remove; use s rb3 in \<open>simp add: st3 D(4)\<close>)+
qed

lemma deliver_batch:
  assumes top: "top_entry cfg rb st S off e t" and last: "\<not> ent_change e + 1 < length (changes t)"
    and batch: "take mx (txn_rest cfg (spill rb) t e) = n # ns"
    and t3: "t3 = t\<lparr>changes := n # ns, nentries_mem := length (n # ns)\<rparr>"
    and rb3: "core rb3 = (core rb)(ent_txn e \<mapsto> t3)" "spill rb3 = spill rb" "reads rb rb3"
    and rest3: "txn_rest cfg (spill rb) t3 (e\<lparr>ent_fd := fd, ent_segno := segno\<rparr>) = drop mx (txn_rest cfg (spill rb) t e)"
    and st3: "st3 = set_entry off (\<lambda>e. e\<lparr>ent_fd := fd, ent_segno := segno\<rparr>) (st\<lparr>old_change := old\<rparr>)"
    and st4: "st4 = set_entry off (\<lambda>e. e\<lparr>ent_lsn := chg_lsn n, ent_change := 0\<rparr>) st3"
  shows "delivers cfg rb S (ent_txn e) (changes t ! ent_change e)
    (Some (Some (changes t ! ent_change e), rb3, st4\<lparr>iter_heap := binaryheap_replace_first (iter_heap st4) off\<rparr>))"
proof (rule deliversI[OF _ _ rb3(3)])
  note D = top_entryD[OF top] and F = top_entry_fields[OF top]
  let ?rest = "txn_rest cfg (spill rb) t e"
  let ?e = "e\<lparr>ent_fd := fd, ent_segno := segno, ent_lsn := chg_lsn n, ent_change := 0\<rparr>"
  let ?st = "st4\<lparr>iter_heap := binaryheap_replace_first (iter_heap st4) off\<rparr>"
  have rest4: "txn_rest cfg (spill rb3) t3 ?e = drop mx ?rest" using rest3 rb3(2) by (simp add: txn_rest_def)
  have "entry_stream cfg rb3 ?e = take mx ?rest @ drop mx ?rest"
    using rb3(1) rest4 batch by (simp add: entry_stream_def t3)
  then have stream4: "entry_stream cfg rb3 ?e = ?rest" by simp
  have s: "entry_stream cfg rb e = changes t ! ent_change e # ?rest" using F(7) last by simp
  have len: "length (n # ns) + length (drop mx ?rest) = length ?rest"
    unfolding batch[symmetric] by (simp flip: length_append)
  have "entry_ok cfg rb3 ?e"
    unfolding entry_ok_def stream4 using rb3 rest4 len F(3-6) s by (auto simp: t3)
  then show "S (ent_txn e) = changes t ! ent_change e # ?rest" "iter_inv cfg rb3 ?st (S(ent_txn e := ?rest))"
    unfolding stream4[symmetric]
    by (intro advance_top[OF D(1-4), where e' = ?e and rb' = rb3 and st' = ?st];
        use s stream4 rb3 D(5) in \<open>auto simp: st4 st3 D(4)\<close>)+
qed

lemma next_step:
  assumes inv: "iter_inv cfg rb st S" and size: "0 < bh_size (iter_heap st)" and mx: "0 < max_changes_in_memory cfg"
  shows "\<exists>c cs z rb' st'. ReorderBufferIterTXNNext cfg rb st = Some (Some c, rb', st') \<and> S z = c # cs \<and>
    iter_inv cfg rb' st' (S(z := cs)) \<and> (\<forall>y. \<forall>d \<in> set (S y). chg_lsn c \<le> chg_lsn d) \<and> reads rb rb'"
proof -
  obtain rb1 st1 where old: "free_old cfg rb st = (rb1, st1)" by fastforce
  note same = free_old_same[OF old]
  define off e where "off = binaryheap_first (iter_heap st)" and "e = entries st ! off"
  obtain t where top: "top_entry cfg rb1 st1 S off e t"
    and least: "\<And>y d. d \<in> set (S y) \<Longrightarrow> chg_lsn (changes t ! ent_change e) \<le> chg_lsn d"
    using top_entry_ex[of cfg rb1 st1 S off e] inv size same off_def e_def by auto
  obtain b where b: "by_txn rb1 (ent_txn e) = Some b" "t = strip b"
    using top_entryD(7)[OF top] by (auto simp: core_eq_Some)
  let ?c = "changes t ! ent_change e" and ?rest = "txn_rest cfg (spill rb1) t e" and ?mx = "max_changes_in_memory cfg"
  have c: "?c = changes b ! ent_change e" using b(2) by simp
  have nz: "bh_size (iter_heap st) \<noteq> 0" using size by simp
  note next_eq = next_eq[OF nz old off_def e_def b(1) c]
  have "delivers cfg rb1 S (ent_txn e) ?c (ReorderBufferIterTXNNext cfg rb st)"
  proof (cases "ent_change e + 1 < length (changes t)")
    case True
    then show ?thesis using deliver_memory[OF top True refl] b(2) unfolding next_eq by (simp add: Let_def)
  next
    case last: False
    show ?thesis
    proof (cases "nentries t = nentries_mem t")
      case True
      then show ?thesis using deliver_last[OF top last] last b(2) unfolding next_eq by simp
    next
      case spilled: False
      obtain rb3 fd segno t3 where r: "ReorderBufferRestoreChanges cfg (upd_txn (ent_txn e) (\<lambda>t. t\<lparr>changes :=
              take (ent_change e) (changes t) @ drop (ent_change e + 1) (changes t)\<rparr>) rb1) (ent_txn e) (ent_fd e) (ent_segno e) =
            Some (rb3, length (take ?mx ?rest), fd, segno)"
        "t3 = t\<lparr>changes := take ?mx ?rest, nentries_mem := length (take ?mx ?rest)\<rparr>"
        and rb3: "core rb3 = (core rb1)(ent_txn e \<mapsto> t3)" "spill rb3 = spill rb1" "reads rb1 rb3"
        and rest3: "txn_rest cfg (spill rb1) t3 (e\<lparr>ent_fd := fd, ent_segno := segno\<rparr>) = drop ?mx ?rest"
        by (rule restore_next_batch[OF top refl refl refl refl])
      obtain b3 where b3: "by_txn rb3 (ent_txn e) = Some b3" "t3 = strip b3" using rb3(1) by (metis core_eq_Some fun_upd_same)
      show ?thesis
      proof (cases "?rest = []")
        case True
        then show ?thesis
          using deliver_exhausted[OF top last True rb3 refl] last spilled b(2) r(1) b3(1) unfolding next_eq by (simp add: Let_def)
      next
        case False
        then obtain n ns where batch: "take ?mx ?rest = n # ns" using mx by (cases ?rest; cases ?mx) auto
        have t3: "t3 = t\<lparr>changes := n # ns, nentries_mem := length (n # ns)\<rparr>" using r(2) batch by simp
        have "changes b3 = n # ns" using arg_cong[OF b3(2), of changes] t3 by simp
        then show ?thesis
          using deliver_batch[OF top last batch t3 rb3 rest3 refl refl] last spilled b(2) r(1)[unfolded batch] b3(1)
          unfolding next_eq by (simp add: Let_def)
      qed
    qed
  qed
  moreover have "reads rb rb1" using same(1-3) by (simp add: reads_def)
  ultimately show ?thesis using least reads_trans unfolding delivers_def by blast
qed

end
