(* ===== verification/Reorder_Iterate.thy ===== *)
theory Reorder_Iterate
  imports Reorder_Merge
begin

text \<open>
  Setting the iterator up and running it to the end: the changes of a transaction and its
  subtransactions come out once each, in LSN order, whatever part of them was spilled.
\<close>

section \<open>Adding a transaction to the iterator\<close>

text \<open>\<open>frame_out\<close>: nothing happens to the transactions outside a set, and the tree is kept.\<close>

definition frame_out :: "TransactionId set \<Rightarrow> 'd ReorderBuffer \<Rightarrow> 'd ReorderBuffer \<Rightarrow> bool" where
  "frame_out S rb rb' \<longleftrightarrow>
     (\<forall>y. y \<notin> S \<longrightarrow> core rb' y = core rb y \<and> (\<forall>s. spill_file (spill rb') y s = spill_file (spill rb) y s)) \<and>
     (\<forall>y. same_tree (core rb y) (core rb' y)) \<and> (\<forall>y. map_option nentries (core rb' y) = map_option nentries (core rb y))"

lemma frame_out_refl: "frame_out S rb rb"
  by (simp add: frame_out_def same_tree_def)

lemma frame_out_trans: "frame_out S a b \<Longrightarrow> frame_out S b c \<Longrightarrow> frame_out S a c"
  by (auto simp: frame_out_def same_tree_def)

lemma frame_out_mono: "frame_out S a b \<Longrightarrow> S \<subseteq> T \<Longrightarrow> frame_out T a b"
  by (auto simp: frame_out_def)

lemma serialized_at_frame: "serialized_at S rb rb' \<Longrightarrow> frame_out S rb rb'"
  unfolding frame_out_def
proof (intro conjI allI impI)
  fix y assume at: "serialized_at S rb rb'"
  show "same_tree (core rb y) (core rb' y)" by (rule serialized_at_same_tree[OF at])
  show "map_option nentries (core rb' y) = map_option nentries (core rb y)"
  proof (cases "core rb y")
    case (Some t)
    show ?thesis
    proof (cases "y \<in> S")
      case True
      from serialized_at_in[OF at True Some] show ?thesis using Some by (auto simp: spilled_simps)
    next
      case False
      then show ?thesis using serialized_at_out[OF at] by simp
    qed
  qed (use serialized_at_None[OF at] in simp)
qed (auto simp: serialized_at_out serialized_at_file)

definition blank_entry :: ReorderBufferIterTXNEntry where
  "blank_entry = \<lparr>ent_lsn = 0, ent_change = 0, ent_txn = 0, ent_fd = None, ent_segno = 0\<rparr>"

text \<open>An entry that stands at the start of the queue of its transaction.\<close>

definition entry_for :: "decoding_config \<Rightarrow> 'd ReorderBuffer \<Rightarrow> (TransactionId \<Rightarrow> 'd ReorderBufferChange list) \<Rightarrow>
    TransactionId \<Rightarrow> ReorderBufferIterTXNEntry \<Rightarrow> bool" where
  "entry_for cfg rb Q x e \<longleftrightarrow> ent_txn e = x \<and> entry_ok cfg rb e \<and> entry_stream cfg rb e = Q x"

lemma entry_in_memory:
  assumes rel: "rb_rel_on cfg S rb Q" "x \<in> S" and t: "core rb x = Some t" "\<not> serialized t" "0 < nentries t"
  obtains c cs where "changes t = c # cs"
    "entry_for cfg rb Q x \<lparr>ent_lsn = chg_lsn c, ent_change = 0, ent_txn = x, ent_fd = None, ent_segno = 0\<rparr>"
proof -
  obtain L where L: "Q x = L @ changes t" "txn_rel cfg (spill rb) x t L" using rb_rel_onD[OF rel t(1)] .
  have nil: "L = []" using L(2) t(2) by (simp add: txn_rel_def)
  then obtain c cs where c: "changes t = c # cs" using L(2) t(3) by (cases "changes t") (auto simp: txn_rel_def)
  let ?e = "\<lparr>ent_lsn = chg_lsn c, ent_change = 0, ent_txn = x, ent_fd = None, ent_segno = 0\<rparr>"
  have empty: "spill_file (spill rb) x s = []" for s using L(2) nil by (simp add: txn_rel_def)
  have rest: "txn_rest cfg (spill rb) t ?e = []" by (simp add: txn_rest_def disk_rest_def empty)
  have stream: "entry_stream cfg rb ?e = Q x" using t(1) rest L(1) nil by (simp add: entry_stream_def)
  have "entry_ok cfg rb ?e"
    unfolding entry_ok_def stream using t(1) rest L nil c empty by (auto simp: txn_rel_def)
  then show ?thesis using that[OF c] stream by (simp add: entry_for_def)
qed

lemma entry_from_disk:
  assumes rel: "rb_rel_on cfg S rb Q" "x \<in> S" and t: "core rb x = Some t" "serialized t" "0 < nentries t"
    and S: "set (subtxns t) \<subseteq> S" and mx: "0 < max_changes_in_memory cfg"
  obtains rb1 rb2 n fd segno t2 c cs where "ReorderBufferSerializeTXN cfg rb x = Some rb1"
    "ReorderBufferRestoreChanges cfg rb1 x None 0 = Some (rb2, n, fd, segno)" "core rb2 x = Some t2" "changes t2 = c # cs"
    "entry_for cfg rb2 Q x \<lparr>ent_lsn = chg_lsn c, ent_change = 0, ent_txn = x, ent_fd = fd, ent_segno = segno\<rparr>"
    "rb_rel_on cfg (S - {x}) rb2 Q" "frame_out (insert x (set (subtxns t))) rb rb2" "same_lists rb rb2"
proof -
  obtain rb1 where rb1: "ReorderBufferSerializeTXN cfg rb x = Some rb1" "rb_rel_on cfg S rb1 Q"
    "serialized_at (insert x (set (subtxns t))) rb rb1"
    using serialize_txn_correct[OF rel(1) t(1)] rel(2) S by blast
  obtain t1 where t1: "core rb1 x = Some t1" "spilled t t1" using serialized_at_in[OF rb1(3) _ t(1)] by blast
  obtain L where L: "Q x = L" "txn_rel cfg (spill rb1) x t1 L"
    using rb_rel_onD[OF rb1(2) rel(2) t1(1)] spilled_simps(7)[OF t1(2)] by force
  let ?mx = "max_changes_in_memory cfg" and ?a = "first_lsn t1 div XLogSegSize cfg" and ?b = "final_lsn t1 div XLogSegSize cfg"
  have start: "disk_rest (spill_file (spill rb1) x) ?a ?b None 0 = Q x"
    using rest_from_start[OF L(2)] spilled_simps(8)[OF t1(2)] L(1) by simp
  obtain rb2 fd segno where r: "ReorderBufferRestoreChanges cfg rb1 x None 0 = Some (rb2, length (take ?mx (Q x)), fd, segno)"
    "core rb2 = (core rb1)(x \<mapsto> t1\<lparr>changes := take ?mx (Q x), nentries_mem := length (take ?mx (Q x))\<rparr>)"
    "spill rb2 = spill rb1" "same_lists rb1 rb2"
    "disk_rest (spill_file (spill rb1) x) ?a ?b fd segno = drop ?mx (Q x)"
    using restore_changes_ex[OF t1(1) txn_rel_beyond[OF L(2)] refl refl refl refl, where fd = None and segno = 0 and cfg = cfg, unfolded start] by blast
  define t2 where "t2 = t1\<lparr>changes := take ?mx (Q x), nentries_mem := length (take ?mx (Q x))\<rparr>"
  have core2: "core rb2 = (core rb1)(x \<mapsto> t2)" using r(2) by (simp add: t2_def)
  have "length (Q x) = nentries t1" using L spilled_simps(7)[OF t1(2)] by (simp add: txn_rel_def)
  then have n: "nentries t2 = length (Q x)" "0 < length (Q x)" using t(3) spilled_simps(6)[OF t1(2)] by (simp_all add: t2_def)
  obtain c cs where c: "take ?mx (Q x) = c # cs" using n(2) mx by (cases "Q x"; cases ?mx) auto
  let ?e = "\<lparr>ent_lsn = chg_lsn c, ent_change = 0, ent_txn = x, ent_fd = fd, ent_segno = segno\<rparr>"
  have rest: "txn_rest cfg (spill rb2) t2 ?e = drop ?mx (Q x)" using r(3,5) by (simp add: txn_rest_def t2_def)
  have stream: "entry_stream cfg rb2 ?e = Q x" using core2 rest by (simp add: entry_stream_def t2_def)
  have "sorted (map chg_lsn (Q x))" using L by (simp add: txn_rel_def sorted_append)
  moreover have "length (take ?mx (Q x)) + length (drop ?mx (Q x)) = length (Q x)" by simp
  moreover have "\<forall>r > final_lsn t2 div XLogSegSize cfg. spill_file (spill rb2) x r = []"
    using txn_rel_beyond[OF L(2)] r(3) by (simp add: t2_def)
  ultimately have "entry_ok cfg rb2 ?e"
    unfolding entry_ok_def stream using core2 rest c n by (auto simp: t2_def)
  then have "entry_for cfg rb2 Q x ?e" using stream by (simp add: entry_for_def)
  moreover have "changes t2 = c # cs" using c by (simp add: t2_def)
  moreover have "frame_out {x} rb1 rb2"
    using core2 r(3) t1(1) by (auto simp: frame_out_def same_tree_def t2_def)
  then have fr: "frame_out (insert x (set (subtxns t))) rb rb2"
    using frame_out_trans[OF serialized_at_frame[OF rb1(3)] frame_out_mono[of "{x}" rb1 rb2]] by blast
  moreover have "same_lists rb rb2" using same_lists_trans r(4) rb1(3) by (auto simp: serialized_at_def)
  moreover have "rb_rel_on cfg (S - {x}) rb2 Q"
    unfolding rb_rel_on_def
  proof (intro conjI ballI)
    show "rb_struct rb2" using rb_struct_same_tree[of rb1 rb2] rb1(2) \<open>frame_out {x} rb1 rb2\<close> by (auto simp: rb_rel_on_def frame_out_def)
    show "cache_ok rb2" using cache_ok_same[OF _ r(4)] rb1(2) core2 t1(1) by (auto simp: rb_rel_on_def)
    fix y assume "y \<in> S - {x}"
    then show "queue_rel cfg (spill rb2) y (core rb2 y) (Q y)" using rb1(2) r(3) core2 by (auto simp: rb_rel_on_def)
  qed
  ultimately show ?thesis using that[OF rb1(1) r(1), of t2 c cs] core2 by simp
qed

text \<open>The state of the set-up after the transactions \<open>D\<close> have been looked at.\<close>

definition init_inv :: "decoding_config \<Rightarrow> 'd ReorderBuffer \<Rightarrow> (TransactionId \<Rightarrow> 'd ReorderBufferChange list) \<Rightarrow> nat \<Rightarrow>
    TransactionId list \<Rightarrow> 'd ReorderBuffer \<times> 'd ReorderBufferIterTXNState \<times> nat \<Rightarrow> bool" where
  "init_inv cfg rb0 Q n D s =
     (case s of (rb, st, off) \<Rightarrow> let offs = filter (\<lambda>z. Q z \<noteq> []) D; heap = iter_heap st in
        off = length offs \<and> rb_rel_on cfg (- set D) rb Q \<and> (\<forall>y. same_tree (core rb0 y) (core rb y)) \<and>
        bh_wf heap \<and> bh_space heap = n \<and> bh_size heap = off \<and> bh_mset heap = mset_set {..<off} \<and>
        bh_compare heap = ReorderBufferIterCompare (entries st) \<and> length (entries st) = n \<and>
        (\<forall>i. off \<le> i \<and> i < n \<longrightarrow> entries st ! i = blank_entry) \<and>
        (\<forall>i < off. entry_for cfg rb Q (offs ! i) (entries st ! i)))"

lemma entry_for_frame:
  assumes "frame_out S rb rb'" "entry_for cfg rb Q x e" "x \<notin> S"
  shows "entry_for cfg rb' Q x e"
proof -
  have "core rb' (ent_txn e) = core rb (ent_txn e)" "\<And>s. spill_file (spill rb') (ent_txn e) s = spill_file (spill rb) (ent_txn e) s"
    using assms by (auto simp: frame_out_def entry_for_def)
  then show ?thesis using assms(2) entry_cong[of rb' e rb] by (simp add: entry_for_def)
qed

lemma nentries_queue: "rb_rel_on cfg S rb Q \<Longrightarrow> x \<in> S \<Longrightarrow> core rb x = Some t \<Longrightarrow> nentries t = length (Q x)"
  by (erule (2) rb_rel_onD) (simp add: txn_rel_def)

lemma iter_add_prepare:
  assumes rel: "rb_rel_on cfg S rb Q" "x \<in> S" and t: "core rb x = Some t" "Q x \<noteq> []"
    and S: "set (subtxns t) \<subseteq> S" and mx: "0 < max_changes_in_memory cfg"
    and blank: "entries st ! off = blank_entry"
  obtains rb' e where
    "iter_add_txn cfg x (rb, st, off) =
       (case binaryheap_add_unordered ((iter_heap st)\<lparr>bh_compare := ReorderBufferIterCompare ((entries st)[off := e])\<rparr>) off of
          Inl _ \<Rightarrow> None | Inr heap \<Rightarrow> Some (rb', (set_entry off (\<lambda>_. e) st)\<lparr>iter_heap := heap\<rparr>, off + 1))"
    "entry_for cfg rb' Q x e" "rb_rel_on cfg (S - {x}) rb' Q" "frame_out (insert x (set (subtxns t))) rb rb'"
proof -
  obtain b where b: "by_txn rb x = Some b" "t = strip b" using t(1) by (auto simp: core_eq_Some)
  have n: "0 < nentries t" using nentries_queue[OF rel t(1)] t(2) by simp
  have fd: "ent_fd (entries st ! off) = None" "ent_segno (entries st ! off) = 0" using blank by (simp_all add: blank_entry_def)
  show ?thesis
  proof (cases "serialized t")
    case True
    obtain rb1 rb2 k fd segno t2 c cs where r: "ReorderBufferSerializeTXN cfg rb x = Some rb1"
      "ReorderBufferRestoreChanges cfg rb1 x None 0 = Some (rb2, k, fd, segno)" "core rb2 x = Some t2" "changes t2 = c # cs"
      "entry_for cfg rb2 Q x \<lparr>ent_lsn = chg_lsn c, ent_change = 0, ent_txn = x, ent_fd = fd, ent_segno = segno\<rparr>"
      "rb_rel_on cfg (S - {x}) rb2 Q" "frame_out (insert x (set (subtxns t))) rb rb2"
      by (rule entry_from_disk[OF rel t(1) True n S mx]) blast
    obtain b2 where b2: "by_txn rb2 x = Some b2" "t2 = strip b2" using r(3) by (auto simp: core_eq_Some)
    show ?thesis
    proof (rule that[OF _ r(5-7)])
      show "iter_add_txn cfg x (rb, st, off) =
        (case binaryheap_add_unordered ((iter_heap st)\<lparr>bh_compare := ReorderBufferIterCompare ((entries st)[off :=
            \<lparr>ent_lsn = chg_lsn c, ent_change = 0, ent_txn = x, ent_fd = fd, ent_segno = segno\<rparr>])\<rparr>) off of
          Inl _ \<Rightarrow> None | Inr heap \<Rightarrow> Some (rb2, (set_entry off (\<lambda>_.
            \<lparr>ent_lsn = chg_lsn c, ent_change = 0, ent_txn = x, ent_fd = fd, ent_segno = segno\<rparr>) st)\<lparr>iter_heap := heap\<rparr>, off + 1))"
        using b n True fd r(1,2,4) b2 by (simp add: iter_add_txn_def Let_def)
    qed
  next
    case False
    obtain c cs where c: "changes t = c # cs"
      "entry_for cfg rb Q x \<lparr>ent_lsn = chg_lsn c, ent_change = 0, ent_txn = x, ent_fd = None, ent_segno = 0\<rparr>"
      by (rule entry_in_memory[OF rel t(1) False n])
    have rel': "rb_rel_on cfg (S - {x}) rb Q" using rel(1) by (simp add: rb_rel_on_def)
    show ?thesis
    proof (rule that[OF _ c(2) rel' frame_out_refl])
      show "iter_add_txn cfg x (rb, st, off) =
        (case binaryheap_add_unordered ((iter_heap st)\<lparr>bh_compare := ReorderBufferIterCompare ((entries st)[off :=
            \<lparr>ent_lsn = chg_lsn c, ent_change = 0, ent_txn = x, ent_fd = None, ent_segno = 0\<rparr>])\<rparr>) off of
          Inl _ \<Rightarrow> None | Inr heap \<Rightarrow> Some (rb, (set_entry off (\<lambda>_.
            \<lparr>ent_lsn = chg_lsn c, ent_change = 0, ent_txn = x, ent_fd = None, ent_segno = 0\<rparr>) st)\<lparr>iter_heap := heap\<rparr>, off + 1))"
        using b n False fd c(1) by (simp add: iter_add_txn_def Let_def split: sum.split)
    qed
  qed
qed

lemma iter_add_step:
  assumes inv: "init_inv cfg rb0 Q n D (rb, st, off)" and x: "x \<notin> set D" "core rb0 x = Some t"
    "set (subtxns t) \<inter> set D = {}" and room: "length (filter (\<lambda>z. Q z \<noteq> []) (D @ [x])) \<le> n"
    and mx: "0 < max_changes_in_memory cfg"
  shows "\<exists>s. iter_add_txn cfg x (rb, st, off) = Some s \<and> init_inv cfg rb0 Q n (D @ [x]) s"
proof -
  let ?offs = "filter (\<lambda>z. Q z \<noteq> []) D"
  have I: "off = length ?offs" "rb_rel_on cfg (- set D) rb Q" "\<And>y. same_tree (core rb0 y) (core rb y)"
    "bh_wf (iter_heap st)" "bh_space (iter_heap st) = n" "bh_size (iter_heap st) = off" "bh_mset (iter_heap st) = mset_set {..<off}"
    "bh_compare (iter_heap st) = ReorderBufferIterCompare (entries st)" "length (entries st) = n"
    "\<And>i. off \<le> i \<Longrightarrow> i < n \<Longrightarrow> entries st ! i = blank_entry"
    "\<And>i. i < off \<Longrightarrow> entry_for cfg rb Q (?offs ! i) (entries st ! i)"
    using inv by (simp_all add: init_inv_def Let_def)
  obtain u where u: "core rb x = Some u" "subtxns u = subtxns t" using I(3)[of x] x(2) by (auto simp: same_tree_Some)
  show ?thesis
  proof (cases "Q x = []")
    case True
    have "nentries u = 0" using nentries_queue[OF I(2) _ u(1)] x(1) True by simp
    then have "iter_add_txn cfg x (rb, st, off) = Some (rb, st, off)"
      using u(1) by (auto simp: iter_add_txn_def core_eq_Some)
    moreover have "rb_rel_on cfg (- set (D @ [x])) rb Q" using I(2) by (simp add: rb_rel_on_def)
    ultimately show ?thesis using inv True by (simp add: init_inv_def Let_def)
  next
    case False
    then have offn: "off < n" using room I(1) by simp
    obtain rb' e where r: "iter_add_txn cfg x (rb, st, off) =
       (case binaryheap_add_unordered ((iter_heap st)\<lparr>bh_compare := ReorderBufferIterCompare ((entries st)[off := e])\<rparr>) off of
          Inl _ \<Rightarrow> None | Inr heap \<Rightarrow> Some (rb', (set_entry off (\<lambda>_. e) st)\<lparr>iter_heap := heap\<rparr>, off + 1))"
      "entry_for cfg rb' Q x e" "rb_rel_on cfg (- set D - {x}) rb' Q" "frame_out (insert x (set (subtxns u))) rb rb'"
      by (rule iter_add_prepare[OF I(2) _ u(1) False _ mx I(10)[OF _ offn]]) (use x u(2) in auto)
    let ?h = "(iter_heap st)\<lparr>bh_compare := ReorderBufferIterCompare ((entries st)[off := e])\<rparr>"
    have "bh_wf ?h" "bh_size ?h < bh_space ?h" using I(4,5,6) offn by (simp_all add: bh_wf_def)
    then obtain heap where heap: "binaryheap_add_unordered ?h off = Inr heap" "bh_wf heap" "bh_compare heap = bh_compare ?h"
      "bh_mset heap = add_mset off (bh_mset ?h)" "bh_size heap = Suc (bh_size ?h)" "bh_space heap = bh_space ?h"
      using add_unordered_Inr[of ?h off] by metis
    let ?st = "(set_entry off (\<lambda>_. e) st)\<lparr>iter_heap := heap\<rparr>"
    have added: "iter_add_txn cfg x (rb, st, off) = Some (rb', ?st, off + 1)" using r(1) heap(1) by simp
    have "entry_for cfg rb' Q ((?offs @ [x]) ! i) (entries ?st ! i)" if i: "i < off + 1" for i
    proof (cases "i = off")
      case True
      then show ?thesis using r(2) I(1,9) offn by (simp add: nth_append)
    next
      case neq: False
      then have "i < off" using i by simp
      then have "?offs ! i \<in> set D" using I(1) nth_mem[of i ?offs] by auto
      then have "?offs ! i \<notin> insert x (set (subtxns u))" using x u(2) by auto
      then show ?thesis
        using entry_for_frame[OF r(4) I(11)[OF \<open>i < off\<close>]] \<open>i < off\<close> I(1) neq by (simp add: nth_append)
    qed
    moreover have "same_tree (core rb0 y) (core rb' y)" for y
      using I(3)[of y] r(4) by (auto simp: frame_out_def same_tree_def)
    moreover have "- set (D @ [x]) = - set D - {x}" by auto
    then have "rb_rel_on cfg (- set (D @ [x])) rb' Q" using r(3) by simp
    moreover have "bh_mset ?h = bh_mset (iter_heap st)" by (simp add: bh_mset_def)
    ultimately have "init_inv cfg rb0 Q n (D @ [x]) (rb', ?st, off + 1)"
      using heap I(1,5-7,9,10) False by (simp add: init_inv_def Let_def lessThan_Suc)
    then show ?thesis using added by blast
  qed
qed

section \<open>Setting the iterator up\<close>

text \<open>The queues of the transactions of a list.\<close>

definition queues_of :: "TransactionId list \<Rightarrow> (TransactionId \<Rightarrow> 'd ReorderBufferChange list) \<Rightarrow> TransactionId \<Rightarrow> 'd ReorderBufferChange list" where
  "queues_of D Q = (\<lambda>z. if z \<in> set D then Q z else [])"

lemma init_inv_start:
  "rb_rel cfg rb Q \<Longrightarrow> init_inv cfg rb Q n [] (rb, iter_empty n, 0)"
  by (simp add: init_inv_def Let_def iter_empty_def binaryheap_allocate_def bh_wf_def bh_mset_def rb_rel_on_UNIV
      same_tree_def blank_entry_def)

lemma init_inv_build:
  assumes inv: "init_inv cfg rb0 Q n D (rb, st, off)" and D: "distinct D"
  defines "st' \<equiv> st\<lparr>iter_heap := binaryheap_build (iter_heap st)\<rparr>"
  shows "iter_inv cfg rb st' (queues_of D Q)"
proof -
  let ?offs = "filter (\<lambda>z. Q z \<noteq> []) D"
  have I: "off = length ?offs" "bh_wf (iter_heap st)" "bh_space (iter_heap st) = n" "bh_size (iter_heap st) = off"
    "bh_mset (iter_heap st) = mset_set {..<off}" "bh_compare (iter_heap st) = ReorderBufferIterCompare (entries st)"
    "length (entries st) = n" "\<And>i. i < off \<Longrightarrow> entry_for cfg rb Q (?offs ! i) (entries st ! i)"
    using inv by (simp_all add: init_inv_def Let_def)
  have heap: "bh_heap (iter_heap st')" "bh_compare (iter_heap st') = ReorderBufferIterCompare (entries st')"
    "bh_mset (iter_heap st') = mset_set {..<off}" "entries st' = entries st"
    using lsn_heap.build_correct[OF I(2,6)] I(5) by (simp_all add: st'_def)
  have ent: "ent_txn (entries st ! i) = ?offs ! i" "entry_ok cfg rb (entries st ! i)"
    "entry_stream cfg rb (entries st ! i) = Q (?offs ! i)" if "i < off" for i
    using I(8)[OF that] by (simp_all add: entry_for_def)
  have "inj_on (\<lambda>i. ent_txn (entries st ! i)) {..<off}"
    using ent(1) D I(1) by (auto simp: inj_on_def nth_eq_iff_index_eq)
  moreover have "off \<le> n" using I(2,3,4) by (simp add: bh_wf_def)
  moreover have "queues_of D Q (ent_txn (entries st ! i)) = entry_stream cfg rb (entries st ! i)" if "i < off" for i
  proof -
    have "?offs ! i \<in> set ?offs" using that I(1) by (metis nth_mem)
    then show ?thesis using ent[OF that] by (simp add: queues_of_def)
  qed
  moreover have "queues_of D Q z = []" if z: "z \<notin> (\<lambda>i. ent_txn (entries st ! i)) ` {..<off}" for z
  proof -
    have "z \<notin> set ?offs"
    proof
      assume "z \<in> set ?offs"
      then obtain i where i: "i < off" "?offs ! i = z" using I(1) by (metis in_set_conv_nth)
      have "ent_txn (entries st ! i) \<in> (\<lambda>i. ent_txn (entries st ! i)) ` {..<off}" using i(1) by simp
      then show False using z i ent(1)[OF i(1)] by simp
    qed
    then show ?thesis by (auto simp: queues_of_def)
  qed
  ultimately show ?thesis
    unfolding iter_inv_def using heap ent(2) I(7) by (intro conjI exI[of _ "{..<off}"]) auto
qed

lemma iter_init_correct:
  assumes rel: "rb_rel cfg rb Q" and t: "core rb x = Some t" and mx: "0 < max_changes_in_memory cfg"
  shows "\<exists>rb' st. ReorderBufferIterTXNInit cfg rb x = Some (rb', st) \<and> iter_inv cfg rb' st (queues_of (x # subtxns t) Q)"
proof -
  let ?D = "x # subtxns t"
  have str: "distinct (subtxns t)" "\<And>s. s \<in> set (subtxns t) \<Longrightarrow> \<exists>u. core rb s = Some u \<and> is_known_as_subxact u"
    "is_known_as_subxact t \<longrightarrow> subtxns t = []" using rel t unfolding rb_rel_def rb_struct_def by metis+
  have "x \<notin> set (subtxns t)" using str(2,3) t by fastforce
  then have dist: "distinct ?D" using str(1) by simp
  have ex: "\<exists>u. core rb z = Some u" if "z \<in> set ?D" for z using that t str(2) by auto
  have has: "has_entries rb z \<longleftrightarrow> Q z \<noteq> []" if z: "z \<in> set ?D" for z
  proof -
    obtain u where u: "core rb z = Some u" using ex z by blast
    then have "nentries u = length (Q z)" using nentries_queue[OF rel[unfolded rb_rel_on_UNIV]] by simp
    then show ?thesis using u by (auto simp: has_entries_def core_eq_Some)
  qed
  define n where "n = length (filter (\<lambda>z. Q z \<noteq> []) ?D)"
  have "filter (has_entries rb) ?D = filter (\<lambda>z. Q z \<noteq> []) ?D" by (rule filter_cong) (use has in auto)
  then have n: "length (filter (has_entries rb) ?D) = n" by (simp add: n_def)
  have "\<exists>s. foldM (iter_add_txn cfg) ?D (rb, iter_empty n, 0) = Some s \<and> init_inv cfg rb Q n ?D s"
  proof (rule foldM_rule[where I = "\<lambda>D s. init_inv cfg rb Q n D s"])
    show "init_inv cfg rb Q n [] (rb, iter_empty n, 0)" by (rule init_inv_start[OF rel])
    fix xs z s
    assume inv: "init_inv cfg rb Q n xs s" and "\<exists>ys. ?D = xs @ z # ys"
    then obtain ys where D: "?D = xs @ z # ys" by blast
    obtain rb1 st off where s: "s = (rb1, st, off)" by (cases s)
    obtain u where u: "core rb z = Some u" using ex[of z] D by auto
    have "set (subtxns u) \<inter> set xs = {}"
    proof (cases "xs = []")
      case False
      then have "z \<in> set (subtxns t)" using D by (cases xs) auto
      then have "subtxns u = []" using rel u str(2) unfolding rb_rel_def rb_struct_def by (metis option.inject)
      then show ?thesis by simp
    qed simp
    moreover have "z \<notin> set xs" using dist unfolding D by simp
    moreover have "length (filter (\<lambda>z. Q z \<noteq> []) (xs @ [z])) \<le> n" unfolding n_def D by simp
    ultimately show "\<exists>s'. iter_add_txn cfg z s = Some s' \<and> init_inv cfg rb Q n (xs @ [z]) s'"
      using iter_add_step[OF inv[unfolded s] _ u _ _ mx] s by blast
  qed
  then obtain rb' st off where run: "foldM (iter_add_txn cfg) ?D (rb, iter_empty n, 0) = Some (rb', st, off)"
    "init_inv cfg rb Q n ?D (rb', st, off)" by (metis prod_cases3)
  obtain b where b: "by_txn rb x = Some b" "t = strip b" using t by (auto simp: core_eq_Some)
  have "ReorderBufferIterTXNInit cfg rb x = Some (rb', st\<lparr>iter_heap := binaryheap_build (iter_heap st)\<rparr>)"
    using run(1) b n by (auto simp: ReorderBufferIterTXNInit_def Let_def split: option.splits bind_splits)
  then show ?thesis using init_inv_build[OF run(2) dist] by blast
qed

section \<open>Running the iterator\<close>

text \<open>
  The loop of the callers, \<open>while ((change = ReorderBufferIterTXNNext(rb, iterstate)) != NULL)\<close>;
  \<open>None\<close> when the fuel runs out.
\<close>

primrec iter_run ::
  "nat \<Rightarrow> decoding_config \<Rightarrow> 'd ReorderBuffer \<Rightarrow> 'd ReorderBufferIterTXNState \<Rightarrow>
   ('d ReorderBufferChange list \<times> 'd ReorderBuffer \<times> 'd ReorderBufferIterTXNState) option" where
  "iter_run 0 cfg rb st = None"
| "iter_run (Suc n) cfg rb st =
     do { (c, rb, st) \<leftarrow> ReorderBufferIterTXNNext cfg rb st;
          (case c of None \<Rightarrow> Some ([], rb, st)
           | Some c \<Rightarrow> do { (cs, rb, st) \<leftarrow> iter_run n cfg rb st; Some (c # cs, rb, st) }) }"

text \<open>
  The outcome of a run: for each transaction its changes in the order of its queue, and all of
  them in LSN order.
\<close>

definition merged :: "(TransactionId \<Rightarrow> 'd ReorderBufferChange list) \<Rightarrow> 'd ReorderBufferChange list \<Rightarrow> bool" where
  "merged S out \<longleftrightarrow> sorted (map chg_lsn out) \<and> (\<forall>z. filter (\<lambda>c. chg_txn c = z) out = S z)"

lemma iter_run_correct:
  assumes "iter_inv cfg rb st S" "0 < max_changes_in_memory cfg" "finite D" "\<And>z. z \<notin> D \<Longrightarrow> S z = []"
    "(\<Sum>z \<in> D. length (S z)) < n" "\<And>z c. c \<in> set (S z) \<Longrightarrow> chg_txn c = z"
  shows "\<exists>out rb' st'. iter_run n cfg rb st = Some (out, rb', st') \<and> merged S out \<and> reads rb rb'"
  using assms
proof (induction n arbitrary: rb st S)
  case (Suc n)
  show ?case
  proof (cases "bh_size (iter_heap st) = 0")
    case True
    then have "bh_mset (iter_heap st) = {#}" by (simp add: bh_mset_def)
    then have "S z = []" for z using Suc.prems(1) by (auto simp: iter_inv_def mset_set_empty_iff)
    moreover have "ReorderBufferIterTXNNext cfg rb st = Some (None, rb, st)" using True by (simp add: ReorderBufferIterTXNNext_def)
    ultimately show ?thesis by (simp add: merged_def reads_refl)
  next
    case False
    obtain c cs z rb1 st1 where step: "ReorderBufferIterTXNNext cfg rb st = Some (Some c, rb1, st1)" "S z = c # cs"
      "iter_inv cfg rb1 st1 (S(z := cs))" "\<And>y d. d \<in> set (S y) \<Longrightarrow> chg_lsn c \<le> chg_lsn d" "reads rb rb1"
      using next_step[OF Suc.prems(1) _ Suc.prems(2)] False by blast
    let ?S = "S(z := cs)"
    have z: "z \<in> D" using Suc.prems(4)[of z] step(2) by auto
    have "(\<Sum>y \<in> D. length (S y)) = length (S z) + (\<Sum>y \<in> D - {z}. length (S y))" by (rule sum.remove[OF Suc.prems(3) z])
    moreover have "(\<Sum>y \<in> D. length (?S y)) = length (?S z) + (\<Sum>y \<in> D - {z}. length (?S y))" by (rule sum.remove[OF Suc.prems(3) z])
    moreover have "(\<Sum>y \<in> D - {z}. length (?S y)) = (\<Sum>y \<in> D - {z}. length (S y))" by (rule sum.cong) auto
    ultimately have "(\<Sum>y \<in> D. length (?S y)) < n" using Suc.prems(5) step(2) by simp
    moreover have "?S y = []" if "y \<notin> D" for y using that Suc.prems(4) z by auto
    moreover have "chg_txn d = y" if "d \<in> set (?S y)" for d y
      using that Suc.prems(6)[of d y] step(2) by (cases "y = z") auto
    ultimately obtain out rb' st' where IH: "iter_run n cfg rb1 st1 = Some (out, rb', st')" "merged ?S out" "reads rb1 rb'"
      using Suc.IH[OF step(3) Suc.prems(2,3)] by blast
    have cz: "chg_txn c = z" using Suc.prems(6)[of c z] step(2) by simp
    have "chg_lsn c \<le> chg_lsn d" if d: "d \<in> set out" for d
    proof -
      have "d \<in> set (filter (\<lambda>e. chg_txn e = chg_txn d) out)" using d by simp
      moreover have "filter (\<lambda>e. chg_txn e = chg_txn d) out = ?S (chg_txn d)" using IH(2) unfolding merged_def by blast
      ultimately have "d \<in> set (?S (chg_txn d))" by simp
      then have "d \<in> set (S (chg_txn d))" using step(2) by (cases "chg_txn d = z") auto
      then show ?thesis by (rule step(4))
    qed
    then have "merged S (c # out)" using IH(2) step(2) cz by (auto simp: merged_def)
    then show ?thesis using step(1) IH(1) reads_trans[OF step(5) IH(3)] by simp
  qed
qed simp

end
