(* ===== verification/Reorder_Trace.thy ===== *)
theory Reorder_Trace
  imports Reorder_Cleanup Reorder_Iterate
begin

text \<open>
  Histories of the reorder buffer. \<open>rb_reach\<close> generates the states that the decoder produces while
  it reads the WAL forwards, together with the queues a specification would keep: a list of
  changes per transaction to which changes are appended and which a discarded transaction loses.
  There is no step for a commit: \<open>ReorderBufferCommit\<close> is not modelled, of which only the iteration and
  the final \<open>ReorderBufferCleanupTXN\<close>, a step of its own in an abort, belong to the buffer.
\<close>

section \<open>Removing the insertion of an upsert\<close>

lemma upsert_inv:
  assumes inv: "rb_inv cfg rb Q lsn" and le: "lsn \<le> lsn'" "0 < lsn'" and r: "ReorderBufferRemoveChangeForUpsert rb x lsn' = Some rb'"
  shows "rb_inv cfg rb' (Q(x := butlast (Q x))) lsn'"
proof -
  obtain rb1 t where rb1: "ReorderBufferTXNByXid rb x True lsn' True = (rb1, Some x, core rb x = None)" "rb_inv cfg rb1 Q lsn'"
    "core rb1 x = Some t" by (rule create_inv[OF inv le, of x]) blast
  let ?f = "\<lambda>t. t\<lparr>changes := butlast (changes t), nentries := nentries t - 1, nentries_mem := nentries_mem t - 1\<rparr>"
  obtain b where b: "by_txn rb1 x = Some b" "t = strip b" using rb1(3) by (auto simp: core_eq_Some)
  have ne: "changes t \<noteq> []" and rb': "rb' = upd_txn x ?f rb1"
    using r rb1(1) b by (auto simp: ReorderBufferRemoveChangeForUpsert_def split: if_splits)
  have core: "core rb' = (core rb1)(x \<mapsto> ?f t)" unfolding rb' using rb1(3) by (subst core_upd_txn) (simp_all add: strip_def)
  have rest: "spill rb' = spill rb1" "toplevel_by_lsn rb' = toplevel_by_lsn rb1" "by_txn_last_xid rb' = by_txn_last_xid rb1"
    "txns_by_base_snapshot_lsn rb' = txns_by_base_snapshot_lsn rb1" "by_txn_last_txn rb' = by_txn_last_txn rb1"
    by (simp_all add: rb')
  obtain L where L: "Q x = L @ changes t" "txn_rel cfg (spill rb1) x t L" using rb_relD[OF rb_invD(1)[OF rb1(2)] rb1(3)] .
  obtain cs c where cs: "changes t = cs @ [c]" using ne by (cases "changes t" rule: rev_exhaust) auto
  have "txn_rel cfg (spill rb1) x (?f t) L" using L(2) by (auto simp: txn_rel_def cs sorted_append)
  then have "queue_rel cfg (spill rb1) x (Some (?f t)) (butlast (Q x))" using L(1) ne by (auto simp: queue_rel_def butlast_append)
  then have queues: "queue_rel cfg (spill rb') y (core rb' y) ((Q(x := butlast (Q x))) y)" for y
    using rb_invD(1)[OF rb1(2)] by (simp add: core rest rb_rel_def)
  have like: "ordered_like rb1 rb'" using rb1(3) unfolding ordered_like_def core by (simp add: rest same_order_def)
  have "rb_struct rb'" by (rule rb_struct_same_tree[OF rb_invD(2)[OF rb1(2)]]) (simp add: core rb1(3) same_tree_def)
  moreover have "cache_ok rb'" using rb_invD(3)[OF rb1(2)] rb1(3) by (auto simp: cache_ok_def core rest)
  ultimately show ?thesis
    using queues order_inv_same[OF rb_invD(4)[OF rb1(2)] like] rb_invD(5)[OF rb1(2)]
    by (auto simp: rb_inv_def rb_rel_def dest: in_set_butlastD)
qed

section \<open>Histories\<close>

text \<open>
  \<open>rb_reach cfg rb Q lsn\<close>: the state \<open>rb\<close> after records up to \<open>lsn\<close>, for which the specification
  has the queues \<open>Q\<close>.
\<close>

inductive rb_reach ::
  "decoding_config \<Rightarrow> 'd ReorderBuffer \<Rightarrow> (TransactionId \<Rightarrow> 'd ReorderBufferChange list) \<Rightarrow> XLogRecPtr \<Rightarrow> bool"
  for cfg where
  start: "rb_reach cfg ReorderBufferAllocate (\<lambda>_. []) 0"
| xid: "\<lbrakk>rb_reach cfg rb Q lsn; lsn \<le> lsn'; 0 < lsn'\<rbrakk> \<Longrightarrow> rb_reach cfg (ReorderBufferProcessXid rb x lsn') Q lsn'"
| queue: "\<lbrakk>rb_reach cfg rb Q lsn; lsn \<le> lsn'; 0 < lsn'; ReorderBufferQueueChange cfg rb x lsn' c = Some rb'\<rbrakk>
    \<Longrightarrow> rb_reach cfg rb' (Q(x := Q x @ [c\<lparr>chg_lsn := lsn', chg_txn := x\<rparr>])) lsn'"
| upsert: "\<lbrakk>rb_reach cfg rb Q lsn; lsn \<le> lsn'; 0 < lsn'; ReorderBufferRemoveChangeForUpsert rb x lsn' = Some rb'\<rbrakk>
    \<Longrightarrow> rb_reach cfg rb' (Q(x := butlast (Q x))) lsn'"
| catalog: "\<lbrakk>rb_reach cfg rb Q lsn; lsn \<le> lsn'; 0 < lsn'; ReorderBufferXidSetCatalogChanges rb x lsn' = Some rb'\<rbrakk>
    \<Longrightarrow> rb_reach cfg rb' Q lsn'"
| tuplecids: "\<lbrakk>rb_reach cfg rb Q lsn; lsn \<le> lsn'; 0 < lsn'; ReorderBufferAddNewTupleCids rb x lsn' tc = Some rb'\<rbrakk>
    \<Longrightarrow> rb_reach cfg rb' Q lsn'"
| invalidate: "\<lbrakk>rb_reach cfg rb Q lsn; lsn \<le> lsn'; 0 < lsn'; ReorderBufferAddInvalidations rb x lsn' msgs = Some (Inr rb')\<rbrakk>
    \<Longrightarrow> rb_reach cfg rb' Q lsn'"
| snapshot: "\<lbrakk>rb_reach cfg rb Q lsn; lsn \<le> lsn'; 0 < lsn'; \<not> has_snap rb (owner rb x);
      \<And>z u. core rb z = Some u \<Longrightarrow> base_snapshot u \<noteq> None \<Longrightarrow> base_snapshot_lsn u < lsn';
      ReorderBufferSetBaseSnapshot rb x lsn' snap = Some (Inr rb')\<rbrakk> \<Longrightarrow> rb_reach cfg rb' Q lsn'"
| assign: "\<lbrakk>rb_reach cfg rb Q lsn; lsn \<le> lsn'; 0 < lsn'; may_assign rb x sub; ReorderBufferAssignChild rb x sub lsn' = Some rb'\<rbrakk>
    \<Longrightarrow> rb_reach cfg rb' Q lsn'"
| commit_child: "\<lbrakk>rb_reach cfg rb Q lsn; 0 < lsn; lsn \<le> lsn'; lsn \<le> e; may_assign rb x sub; core rb x \<noteq> None;
      ReorderBufferCommitChild rb x sub lsn' e = Some rb'\<rbrakk> \<Longrightarrow> rb_reach cfg rb' Q lsn"
| abort: "\<lbrakk>rb_reach cfg rb Q lsn; lsn \<le> lsn'; ReorderBufferAbort cfg rb x lsn' = Some rb'\<rbrakk>
    \<Longrightarrow> rb_reach cfg rb' (without (doomed rb x) Q) lsn'"
| abort_old: "\<lbrakk>rb_reach cfg rb Q lsn; ReorderBufferAbortOld cfg rb oldest l = Some rb'\<rbrakk>
    \<Longrightarrow> rb_reach cfg rb' (without (doomed_old rb oldest) Q) lsn"
| forget: "\<lbrakk>rb_reach cfg rb Q lsn; lsn \<le> lsn'; ReorderBufferForget cfg rb x lsn' = Some (rb', msgs)\<rbrakk>
    \<Longrightarrow> rb_reach cfg rb' (without (doomed rb x) Q) lsn'"
| restart: "rb_reach cfg rb Q lsn \<Longrightarrow> rb_reach cfg (ReorderBufferSetRestartPoint rb ptr) Q lsn"

lemma restart_inv: "rb_inv cfg rb Q lsn \<Longrightarrow> rb_inv cfg (ReorderBufferSetRestartPoint rb ptr) Q lsn"
  using order_inv_same[of rb lsn "ReorderBufferSetRestartPoint rb ptr" lsn]
  by (auto simp: ReorderBufferSetRestartPoint_def rb_inv_def rb_rel_def rb_struct_def cache_ok_def ordered_like_def)

lemma rb_reach_inv: "rb_reach cfg rb Q lsn \<Longrightarrow> rb_inv cfg rb Q lsn"
proof (induction rule: rb_reach.induct)
  case start
  show ?case by (rule rb_inv_init)
next
  case (xid rb Q lsn lsn' x)
  then show ?case by (intro process_xid_inv)
next
  case (queue rb Q lsn lsn' x c rb')
  then show ?case using queue_inv[of cfg rb Q lsn lsn' x c] by (auto simp: fun_upd_def)
next
  case (upsert rb Q lsn lsn' x rb')
  then show ?case by (intro upsert_inv)
next
  case (catalog rb Q lsn lsn' x rb')
  then show ?case using set_catalog_changes_inv[of cfg rb Q lsn lsn' x] by auto
next
  case (tuplecids rb Q lsn lsn' x tc rb')
  then show ?case using add_tuplecids_inv[of cfg rb Q lsn lsn' x tc] by auto
next
  case (invalidate rb Q lsn lsn' x msgs rb')
  then show ?case using add_invalidations_inv[of cfg rb Q lsn lsn' x msgs] by auto
next
  case (snapshot rb Q lsn lsn' x snap rb')
  then show ?case using set_base_snapshot_inv[of cfg rb Q lsn lsn' x snap] by auto
next
  case (assign rb Q lsn lsn' x sub rb')
  then show ?case using assign_child_inv[of cfg rb Q lsn lsn' x sub] by auto
next
  case (commit_child rb Q lsn lsn' e x sub rb')
  then show ?case using commit_child_inv[of cfg rb Q lsn lsn' e x sub] by auto
next
  case (abort rb Q lsn lsn' x rb')
  then show ?case using abort_inv[of cfg rb Q lsn lsn' x] by auto
next
  case (abort_old rb Q lsn oldest l rb')
  then show ?case using abort_old_inv[of cfg rb Q lsn oldest l] by auto
next
  case (forget rb Q lsn lsn' x rb' msgs)
  then show ?case using forget_inv[of cfg rb Q lsn lsn' x] by auto
next
  case (restart rb Q lsn ptr)
  then show ?case by (intro restart_inv)
qed

end
