(* ===== verification/Reorder_Memory.thy ===== *)
theory Reorder_Memory
  imports Reorder_Trace
begin

text \<open>
  The memory counters of the reorder buffer. The drift of a transaction is its size counter less
  the sizes of its changes in memory, modulo \<open>2 ^ 64\<close>. Queueing and spilling keep the drift, so
  the assertion that a spilled transaction has size zero holds exactly when the drift is zero.
\<close>

definition counted :: "decoding_config \<Rightarrow> 'd ReorderBufferChange \<Rightarrow> uint64" where
  "counted cfg c = (if is_tuplecid c then 0 else ReorderBufferChangeSize cfg c)"

definition drift :: "decoding_config \<Rightarrow> 'd ReorderBufferTXN option \<Rightarrow> uint64" where
  "drift cfg ot = (case ot of None \<Rightarrow> 0 | Some t \<Rightarrow> txn_size t - sum_list (map (counted cfg) (changes t)))"

text \<open>Every change points back to the transaction that holds it.\<close>

definition own_changes :: "'d ReorderBuffer \<Rightarrow> bool" where
  "own_changes rb \<longleftrightarrow> (\<forall>x t. by_txn rb x = Some t \<longrightarrow> (\<forall>c \<in> set (changes t). chg_txn c = x))"

lemma own_changesI: "rb_rel cfg rb Q \<Longrightarrow> own_changes rb"
  unfolding own_changes_def
proof (intro allI impI ballI)
  fix x t c assume rel: "rb_rel cfg rb Q" and t: "by_txn rb x = Some t" and c: "c \<in> set (changes t)"
  obtain L where "txn_rel cfg (spill rb) x (strip t) L" using rb_relD[OF rel core_Some[OF t]] .
  then show "chg_txn c = x" using c by (auto simp: txn_rel_def)
qed

lemma update_memory_by_txn:
  "by_txn (ReorderBufferUpdateMemory cfg rb c add) =
     (by_txn rb)(chg_txn c := map_option (\<lambda>t. t\<lparr>txn_size := if add then txn_size t + counted cfg c else txn_size t - counted cfg c\<rparr>)
       (by_txn rb (chg_txn c)))"
  by (auto simp: ReorderBufferUpdateMemory_def counted_def upd_txn_def Let_def fun_eq_iff map_option_case split: option.split)

text \<open>What one step and the whole loop over the changes do to the table.\<close>

definition spill_of :: "decoding_config \<Rightarrow> 'd ReorderBufferTXN \<Rightarrow> 'd ReorderBufferTXN \<Rightarrow> 'd ReorderBufferChange list \<Rightarrow> bool" where
  "spill_of cfg t t' cs \<longleftrightarrow> changes t = cs @ changes t' \<and> txn_size t' = txn_size t - sum_list (map (counted cfg) cs)"

lemma serialize_step_size:
  assumes t: "by_txn rb x = Some t" "changes t = c # cs" and c: "chg_txn c = x"
  shows "\<exists>t' fd'. snd (serialize_step cfg x c (rb, fd)) = fd' \<and>
    by_txn (fst (serialize_step cfg x c (rb, fd))) = (by_txn rb)(x \<mapsto> t') \<and> spill_of cfg t t' [c]"
  using assms
  by (auto simp: serialize_step_def Let_def open_append_def ReorderBufferSerializeChange_def ReorderBufferReturnChange_def
      update_memory_by_txn upd_txn_def spill_of_def)

lemma spill_of_trans: "spill_of cfg a b cs \<Longrightarrow> spill_of cfg b c ds \<Longrightarrow> spill_of cfg a c (cs @ ds)"
  unfolding spill_of_def by (auto simp: diff_diff_eq)

lemma serialize_fold_size:
  assumes "by_txn rb x = Some t" "changes t = cs @ ds" "\<forall>c \<in> set cs. chg_txn c = x"
  shows "\<exists>t'. by_txn (fst (fold (serialize_step cfg x) cs (rb, fd))) = (by_txn rb)(x \<mapsto> t') \<and> spill_of cfg t t' cs"
  using assms
proof (induction cs arbitrary: rb t fd)
  case Nil
  then show ?case by (intro exI[of _ t]) (simp add: spill_of_def fun_upd_idem)
next
  case (Cons c cs)
  obtain t1 where t1: "by_txn (fst (serialize_step cfg x c (rb, fd))) = (by_txn rb)(x \<mapsto> t1)" "spill_of cfg t t1 [c]"
    using serialize_step_size[of rb x t c "cs @ ds" cfg fd] Cons.prems by auto
  have ch: "changes t1 = cs @ ds" using t1(2) Cons.prems(2) by (simp add: spill_of_def)
  obtain rb1 fd1 where s: "serialize_step cfg x c (rb, fd) = (rb1, fd1)" by (metis surj_pair)
  have "by_txn rb1 x = Some t1" "\<forall>c \<in> set cs. chg_txn c = x" using t1(1) s Cons.prems(3) by simp_all
  from Cons.IH[OF this(1) ch this(2), of fd1]
  obtain t2 where t2: "by_txn (fst (fold (serialize_step cfg x) cs (rb1, fd1))) = (by_txn rb1)(x \<mapsto> t2)" "spill_of cfg t1 t2 cs" by blast
  have "spill_of cfg t t2 (c # cs)" using spill_of_trans[OF t1(2) t2(2)] by simp
  then show ?case using t1(1) t2(1) s by auto
qed

lemma drift_spill_of: "spill_of cfg t t' cs \<Longrightarrow> drift cfg (Some t') = drift cfg (Some t)"
  by (simp add: spill_of_def drift_def algebra_simps)

text \<open>Spilling keeps every drift.\<close>

definition same_drift :: "decoding_config \<Rightarrow> 'd ReorderBuffer \<Rightarrow> 'd ReorderBuffer \<Rightarrow> bool" where
  "same_drift cfg rb rb' \<longleftrightarrow> own_changes rb' \<and> (\<forall>y. drift cfg (by_txn rb' y) = drift cfg (by_txn rb y))"

lemma serialize_changes_drift:
  assumes own: "own_changes rb" and r: "serialize_changes cfg rb x = Some rb'"
  shows "same_drift cfg rb rb' \<and> (\<exists>t. by_txn rb' x = Some t \<and> changes t = [])"
proof -
  obtain t where t: "by_txn rb x = Some t" using r by (auto simp: serialize_changes_def split: option.splits)
  have c: "\<forall>c \<in> set (changes t). chg_txn c = x" using own t by (simp add: own_changes_def)
  obtain t1 where t1: "by_txn (fst (fold (serialize_step cfg x) (changes t) (rb, None))) = (by_txn rb)(x \<mapsto> t1)" "spill_of cfg t t1 (changes t)"
    using serialize_fold_size[OF t, of "changes t" "[]" cfg None] c by auto
  have rb': "by_txn rb' = (by_txn rb)(x \<mapsto> t1\<lparr>serialized := True, nentries_mem := 0\<rparr>)"
    using r t t1(1) by (auto simp: serialize_changes_def upd_txn_def)
  have e: "changes t1 = []" using t1(2) by (simp add: spill_of_def)
  have "drift cfg (Some (t1\<lparr>serialized := True, nentries_mem := 0\<rparr>)) = drift cfg (Some t)"
    using drift_spill_of[OF t1(2)] by (simp add: drift_def)
  then show ?thesis using own t e by (auto simp: same_drift_def rb' own_changes_def)
qed

lemma same_drift_trans: "same_drift cfg a b \<Longrightarrow> same_drift cfg b c \<Longrightarrow> same_drift cfg a c"
  by (simp add: same_drift_def)

lemma foldM_invariant:
  assumes "foldM f xs s = Some s'" "I s" "\<And>x s s'. f x s = Some s' \<Longrightarrow> I s \<Longrightarrow> I s'"
  shows "I s'"
  using assms(1,2) by (induction xs arbitrary: s) (auto split: option.splits intro: assms(3))

lemma serialize_txn_drift:
  "own_changes rb \<Longrightarrow> serialize_txn n cfg x rb = Some rb' \<Longrightarrow>
     same_drift cfg rb rb' \<and> (\<exists>t. by_txn rb' x = Some t \<and> changes t = [])"
proof (induction n arbitrary: x rb rb')
  case (Suc n)
  obtain subs rb1 where t: "foldM (serialize_txn n cfg) subs rb = Some rb1" "serialize_changes cfg rb1 x = Some rb'"
    using Suc.prems(2) by (auto simp: Option.bind_eq_Some_conv)
  have "own_changes rb1 \<and> same_drift cfg rb rb1"
    by (rule foldM_invariant[OF t(1), where I = "\<lambda>s. own_changes s \<and> same_drift cfg rb s"])
      (use Suc in \<open>auto simp: same_drift_def\<close>)
  then show ?case using serialize_changes_drift[OF _ t(2)] same_drift_trans by blast
qed simp

lemma check_serialize_drift:
  assumes own: "own_changes rb" and r: "ReorderBufferCheckSerializeTXN cfg rb x = Some rb'"
  shows "same_drift cfg rb rb' \<and> (rb' = rb \<or> (\<exists>t. by_txn rb' x = Some t \<and> changes t = [] \<and> txn_size t = drift cfg (by_txn rb x)))"
proof -
  obtain t where t: "by_txn rb x = Some t" using r by (auto simp: ReorderBufferCheckSerializeTXN_def Option.bind_eq_Some_conv)
  show ?thesis
  proof (cases "must_serialize cfg rb t")
    case True
    then have "serialize_txn 2 cfg x rb = Some rb'" using r t by (simp add: ReorderBufferCheckSerializeTXN_def ReorderBufferSerializeTXN_def)
    from serialize_txn_drift[OF own this]
    obtain u where u: "same_drift cfg rb rb'" "by_txn rb' x = Some u" "changes u = []" by blast
    then have "txn_size u = drift cfg (by_txn rb' x)" by (simp add: drift_def)
    also have "\<dots> = drift cfg (by_txn rb x)" using u(1) by (simp add: same_drift_def)
    finally show ?thesis using u by blast
  qed (use r t own in \<open>simp add: ReorderBufferCheckSerializeTXN_def same_drift_def\<close>)
qed

section \<open>Queueing and removing\<close>

lemma queue_drift:
  assumes inv: "rb_inv cfg rb Q lsn" and le: "lsn \<le> lsn'" "0 < lsn'" and r: "ReorderBufferQueueChange cfg rb x lsn' change = Some rb'"
  shows "drift cfg (by_txn rb' y) = drift cfg (by_txn rb y)"
    "\<exists>t. by_txn rb' x = Some t \<and> (changes t = [] \<and> txn_size t = drift cfg (by_txn rb x) \<or>
       changes t \<noteq> [] \<and> last (changes t) = change\<lparr>chg_lsn := lsn', chg_txn := x\<rparr>)"
proof -
  let ?c = "change\<lparr>chg_lsn := lsn', chg_txn := x\<rparr>"
  let ?f = "\<lambda>t. t\<lparr>changes := changes t @ [?c], nentries := nentries t + 1, nentries_mem := nentries_mem t + 1\<rparr>"
  obtain rb1 where rb1: "ReorderBufferTXNByXid rb x True lsn' True = (rb1, Some x, core rb x = None)" "rb_rel cfg rb1 Q"
    "by_txn rb1 = (if core rb x = None then (by_txn rb)(x \<mapsto> fresh_txn x lsn' (current_restart_decoding_lsn rb)) else by_txn rb)"
    by (rule txn_by_xid_create[OF rb_invD(1)[OF inv], where x = x and lsn = lsn' and as_top = True]) blast
  have d1: "drift cfg (by_txn rb1 y) = drift cfg (by_txn rb y)" for y
    using rb1(3) by (cases "core rb x = None") (auto simp: drift_def core_eq_None)
  obtain t where t: "by_txn rb1 x = Some t" using rb1(3) by (cases "core rb x = None") (auto simp: core_eq_None)
  define rb2 where "rb2 = ReorderBufferUpdateMemory cfg (upd_txn x ?f rb1) ?c True"
  have b2: "by_txn rb2 = (by_txn rb1)(x \<mapsto> (?f t)\<lparr>txn_size := txn_size t + counted cfg ?c\<rparr>)"
    using t by (simp add: rb2_def update_memory_by_txn upd_txn_def)
  have d2: "drift cfg (by_txn rb2 y) = drift cfg (by_txn rb y)" for y
    using d1[of y] t by (auto simp: b2 drift_def)
  have own2: "own_changes rb2" using own_changesI[OF rb1(2)] t by (auto simp: own_changes_def b2)
  have "ReorderBufferCheckSerializeTXN cfg rb2 x = Some rb'" using r rb1(1) by (simp add: ReorderBufferQueueChange_def Let_def rb2_def)
  note chk = check_serialize_drift[OF own2 this]
  show "drift cfg (by_txn rb' y) = drift cfg (by_txn rb y)" using chk d2 by (simp add: same_drift_def)
  show "\<exists>t. by_txn rb' x = Some t \<and> (changes t = [] \<and> txn_size t = drift cfg (by_txn rb x) \<or> changes t \<noteq> [] \<and> last (changes t) = ?c)"
    using chk d2[of x] b2 by auto
qed

lemma upsert_drift:
  assumes inv: "rb_inv cfg rb Q lsn" and le: "lsn \<le> lsn'" "0 < lsn'" and r: "ReorderBufferRemoveChangeForUpsert rb x lsn' = Some rb'"
  shows "\<exists>t t'. by_txn rb x = Some t \<and> changes t \<noteq> [] \<and> by_txn rb' x = Some t' \<and> txn_size t' = txn_size t \<and> rb_size rb' = rb_size rb \<and>
    drift cfg (Some t') = drift cfg (Some t) + counted cfg (last (changes t))"
proof -
  obtain rb1 where rb1: "ReorderBufferTXNByXid rb x True lsn' True = (rb1, Some x, core rb x = None)" "rb_rel cfg rb1 Q"
    "by_txn rb1 = (if core rb x = None then (by_txn rb)(x \<mapsto> fresh_txn x lsn' (current_restart_decoding_lsn rb)) else by_txn rb)"
    by (rule txn_by_xid_create[OF rb_invD(1)[OF inv], where x = x and lsn = lsn' and as_top = True]) blast
  have size: "rb_size rb1 = rb_size rb" using rb1(1) rb_invD(3)[OF inv] by (simp add: txn_by_xid_eq split: if_splits) auto
  obtain t where t: "by_txn rb1 x = Some t" using rb1(3) by (cases "core rb x = None") (auto simp: core_eq_None)
  have ne: "changes t \<noteq> []"
    and rb': "rb' = upd_txn x (\<lambda>t. t\<lparr>changes := butlast (changes t), nentries := nentries t - 1, nentries_mem := nentries_mem t - 1\<rparr>) rb1"
    using r rb1(1) t by (auto simp: ReorderBufferRemoveChangeForUpsert_def split: if_splits)
  have old: "by_txn rb x = Some t" using rb1(3) t ne by (cases "core rb x = None") auto
  obtain cs c where cs: "changes t = cs @ [c]" using ne by (cases "changes t" rule: rev_exhaust) auto
  show ?thesis using old t ne by (auto simp: rb' upd_txn_def size drift_def cs)
qed

end
