(* ===== verification/Reorder_Correct.thy ===== *)
theory Reorder_Correct
  imports Reorder_Memory
begin

text \<open>
  The properties of the reorder buffer. They are stated for every state that a history of
  \<open>rb_reach\<close> produces; the sample history spills two changes into two WAL segments.
\<close>

section \<open>A sample history\<close>

definition sample_cfg :: decoding_config where
  "sample_cfg = \<lparr>max_changes_in_memory = 1, plugin_limits = None, XLogSegSize = 16, sizeof_Change = 96, sizeof_HeapTupleData = 24,
     sizeof_UHeapTupleData = 24, sizeof_SnapshotData = 120, sizeof_TransactionId = 8, sizeof_Size = 8, sizeof_Oid = 4,
     sizeof_CommandType = 4\<rparr>"

definition sample_change :: "nat ReorderBufferChange" where
  "sample_change = new_change (REORDER_BUFFER_CHANGE_INTERNAL_COMMAND_ID 1)"

definition sample_buffer :: "nat ReorderBuffer" where
  "sample_buffer = the (ReorderBufferQueueChange sample_cfg
     (the (ReorderBufferQueueChange sample_cfg ReorderBufferAllocate 7 20 sample_change)) 7 40 sample_change)"

definition sample_queues :: "TransactionId \<Rightarrow> nat ReorderBufferChange list" where
  "sample_queues = (\<lambda>_. [])(7 := [sample_change\<lparr>chg_lsn := 20, chg_txn := 7\<rparr>, sample_change\<lparr>chg_lsn := 40, chg_txn := 7\<rparr>])"

lemma sample_txn:
  "map_option (\<lambda>t. (xid t, subtxns t, changes t, serialized t)) (by_txn sample_buffer 7) = Some (7, [], [], True)"
  by code_simp

lemma sample_txnE:
  obtains t where "by_txn sample_buffer 7 = Some t" "xid t = 7" "subtxns t = []" "changes t = []" "serialized t"
  using sample_txn by auto

lemma queue_reach:
  assumes "rb_reach cfg rb Q lsn" "lsn \<le> lsn'" "0 < lsn'"
  shows "rb_reach cfg (the (ReorderBufferQueueChange cfg rb x lsn' c)) (Q(x := Q x @ [c\<lparr>chg_lsn := lsn', chg_txn := x\<rparr>])) lsn'"
  using queue_inv[OF rb_reach_inv[OF assms(1)] assms(2,3), of x c] rb_reach.queue[OF assms, of x c] by auto

lemma sample_reach: "rb_reach sample_cfg sample_buffer sample_queues 40"
proof -
  have "rb_reach sample_cfg (the (ReorderBufferQueueChange sample_cfg ReorderBufferAllocate 7 20 sample_change))
      ((\<lambda>_. [])(7 := [sample_change\<lparr>chg_lsn := 20, chg_txn := 7\<rparr>])) 20"
    using queue_reach[OF rb_reach.start, of 20 sample_cfg 7 sample_change] by simp
  from queue_reach[OF this, of 40 7 sample_change] show ?thesis
    by (simp add: sample_buffer_def sample_queues_def)
qed

section \<open>The invariant and the refinement\<close>

text \<open>
  C7: Every state of the reorder buffer that a history of records with non-decreasing LSNs
  produces represents the queues of the specification: the changes in the spill files of a
  transaction followed by those in memory are its queue, in LSN order, and the counters are the
  lengths. What \<open>AssertTXNLsnOrder\<close> checks of the two ordered lists holds.
\<close>

theorem reorder_reachable_invariant:
  assumes "rb_reach cfg rb Q lsn"
  shows "rb_rel cfg rb Q \<and> AssertTXNLsnOrder rb \<and>
    (\<forall>x t. by_txn rb x = Some t \<longrightarrow> nentries t = length (Q x) \<and> nentries_mem t = length (changes t) \<and> sorted (map chg_lsn (Q x)))"
proof (intro conjI allI impI)
  note inv = rb_reach_inv[OF assms]
  show "rb_rel cfg rb Q" "AssertTXNLsnOrder rb" using rb_invD(1,4)[OF inv] order_inv_assert by auto
  fix x t assume "by_txn rb x = Some t"
  then obtain L where L: "Q x = L @ changes (strip t)" "txn_rel cfg (spill rb) x (strip t) L"
    using rb_relD[OF rb_invD(1)[OF inv] core_Some] by metis
  show "nentries t = length (Q x)" "nentries_mem t = length (changes t)" "sorted (map chg_lsn (Q x))"
    using L by (simp_all add: txn_rel_def)
qed

theorem reorder_reachable_invariant_witness:
  "rb_rel sample_cfg sample_buffer sample_queues \<and> AssertTXNLsnOrder sample_buffer"
  using reorder_reachable_invariant[OF sample_reach] by blast

text \<open>
  C31: Queueing a change always returns and appends it, stamped with its LSN and transaction, to
  the queue of its transaction and to no other, whatever the call spills to disk.
\<close>

theorem reorder_queue_appends:
  assumes "rb_reach cfg rb Q lsn" "lsn \<le> lsn'" "0 < lsn'"
  shows "\<exists>rb'. ReorderBufferQueueChange cfg rb x lsn' change = Some rb' \<and>
    rb_rel cfg rb' (Q(x := Q x @ [change\<lparr>chg_lsn := lsn', chg_txn := x\<rparr>]))"
  using queue_inv[OF rb_reach_inv[OF assms(1)] assms(2,3), of x change] rb_invD(1) by blast

theorem reorder_queue_appends_witness:
  "\<exists>rb'. ReorderBufferQueueChange sample_cfg sample_buffer 8 41 sample_change = Some rb' \<and>
    rb_rel sample_cfg rb' (sample_queues(8 := sample_queues 8 @ [sample_change\<lparr>chg_lsn := 41, chg_txn := 8\<rparr>]))"
  using reorder_queue_appends[OF sample_reach, of 41 8 sample_change] by simp

section \<open>Replaying a transaction\<close>

text \<open>
  C6: Iterating over a transaction at commit returns, within as many calls as there are changes
  and one more, exactly the queued changes of the transaction and of its subtransactions, in
  memory or spilled: each transaction's changes in the order in which they were queued, and all
  of them merged in LSN order.
\<close>

theorem reorder_merge_delivers:
  assumes reach: "rb_reach cfg rb Q lsn" and t: "by_txn rb x = Some t" and mx: "0 < max_changes_in_memory cfg"
    and n: "(\<Sum>z \<in> insert x (set (subtxns t)). length (Q z)) < n"
  shows "\<exists>rb1 st out rb2 st2. ReorderBufferIterTXNInit cfg rb x = Some (rb1, st) \<and>
    iter_run n cfg rb1 st = Some (out, rb2, st2) \<and> sorted (map chg_lsn out) \<and>
    (\<forall>z. filter (\<lambda>c. chg_txn c = z) out = (if z \<in> insert x (set (subtxns t)) then Q z else []))"
proof -
  let ?D = "x # subtxns t"
  note rel = rb_invD(1)[OF rb_reach_inv[OF reach]]
  obtain rb1 st where init: "ReorderBufferIterTXNInit cfg rb x = Some (rb1, st)" "iter_inv cfg rb1 st (queues_of ?D Q)"
    using iter_init_correct[OF rel core_Some[OF t] mx] by auto
  have own: "chg_txn c = z" if c: "c \<in> set (Q z)" for z c
  proof (cases "core rb z")
    case None
    then show ?thesis using rb_rel_None(1)[OF rel] c by simp
  next
    case (Some u)
    obtain L where "Q z = L @ changes u" "txn_rel cfg (spill rb) z u L" using rb_relD[OF rel Some] .
    then show ?thesis using c unfolding txn_rel_def by metis
  qed
  have "(\<Sum>z \<in> set ?D. length (queues_of ?D Q z)) = (\<Sum>z \<in> insert x (set (subtxns t)). length (Q z))"
    by (rule sum.cong) (auto simp: queues_of_def)
  then obtain out rb2 st2 where "iter_run n cfg rb1 st = Some (out, rb2, st2)" "merged (queues_of ?D Q) out"
    using iter_run_correct[OF init(2) mx, of "set ?D" n] n own by (auto simp: queues_of_def)
  then show ?thesis using init(1) by (auto simp: merged_def queues_of_def)
qed

theorem reorder_merge_delivers_witness:
  "\<exists>rb1 st out rb2 st2. ReorderBufferIterTXNInit sample_cfg sample_buffer 7 = Some (rb1, st) \<and>
    iter_run 3 sample_cfg rb1 st = Some (out, rb2, st2) \<and> sorted (map chg_lsn out) \<and> filter (\<lambda>c. chg_txn c = 7) out = sample_queues 7"
proof -
  obtain t where t: "by_txn sample_buffer 7 = Some t" "subtxns t = []" by (rule sample_txnE) blast
  have "0 < max_changes_in_memory sample_cfg" "(\<Sum>z \<in> insert 7 (set (subtxns t)). length (sample_queues z)) < 3"
    using t(2) by (simp_all add: sample_cfg_def sample_queues_def)
  from reorder_merge_delivers[OF sample_reach t(1) this] show ?thesis by fastforce
qed

section \<open>Spilling and restoring\<close>

text \<open>Restoring \<open>k\<close> times in a row: the batches of changes that are in memory after each call.\<close>

primrec restore_batches ::
  "nat \<Rightarrow> decoding_config \<Rightarrow> 'd ReorderBuffer \<Rightarrow> TransactionId \<Rightarrow> nat option \<Rightarrow> XLogSegNo \<Rightarrow> 'd ReorderBufferChange list list option" where
  "restore_batches 0 cfg rb x fd segno = Some []"
| "restore_batches (Suc k) cfg rb x fd segno =
     do { (rb', _, fd', segno') \<leftarrow> ReorderBufferRestoreChanges cfg rb x fd segno;
          t \<leftarrow> by_txn rb' x;
          batches \<leftarrow> restore_batches k cfg rb' x fd' segno';
          Some (changes t # batches) }"

lemma restore_batches_correct:
  assumes "core rb x = Some t" "\<And>r. last_seg < r \<Longrightarrow> spill_file (spill rb) x r = []"
    "first_seg = first_lsn t div XLogSegSize cfg" "last_seg = final_lsn t div XLogSegSize cfg"
  shows "\<exists>batches. restore_batches k cfg rb x fd segno = Some batches \<and>
    concat batches = take (k * max_changes_in_memory cfg) (disk_rest (spill_file (spill rb) x) first_seg last_seg fd segno)"
  using assms
proof (induction k arbitrary: rb t fd segno)
  case (Suc k)
  let ?m = "max_changes_in_memory cfg" and ?R = "disk_rest (spill_file (spill rb) x) first_seg last_seg fd segno"
  obtain rb' fd' segno' where r: "ReorderBufferRestoreChanges cfg rb x fd segno = Some (rb', length (take ?m ?R), fd', segno')"
    "core rb' = (core rb)(x \<mapsto> t\<lparr>changes := take ?m ?R, nentries_mem := length (take ?m ?R)\<rparr>)" "spill rb' = spill rb"
    "disk_rest (spill_file (spill rb) x) first_seg last_seg fd' segno' = drop ?m ?R"
    using restore_changes_ex[OF Suc.prems refl refl] by blast
  let ?t = "t\<lparr>changes := take ?m ?R, nentries_mem := length (take ?m ?R)\<rparr>"
  have t': "core rb' x = Some ?t" using r(2) by simp
  then obtain b where b: "by_txn rb' x = Some b" "?t = strip b" by (auto simp: core_eq_Some)
  have batch: "changes b = take ?m ?R" using arg_cong[OF b(2), of changes] by simp
  obtain batches where "restore_batches k cfg rb' x fd' segno' = Some batches" "concat batches = take (k * ?m) (drop ?m ?R)"
    using Suc.IH[OF t', of fd' segno'] Suc.prems(2-4) r(3,4) by auto
  then show ?case using r(1) b(1) batch by (simp add: take_add)
qed simp

text \<open>
  C12: Spilling a transaction leaves none of its changes in memory, and restoring it from its
  files gives its whole queue back in order, in batches of at most \<open>max_changes_in_memory\<close>.
\<close>

theorem reorder_spill_roundtrip:
  assumes reach: "rb_reach cfg rb Q lsn" and t: "by_txn rb x = Some t"
  shows "\<exists>rb' u batches. ReorderBufferSerializeTXN cfg rb x = Some rb' \<and> by_txn rb' x = Some u \<and> changes u = [] \<and> nentries_mem u = 0 \<and>
    restore_batches k cfg rb' x None 0 = Some batches \<and> concat batches = take (k * max_changes_in_memory cfg) (Q x)"
proof -
  note rel = rb_invD(1)[OF rb_reach_inv[OF reach]]
  obtain rb' where rb': "ReorderBufferSerializeTXN cfg rb x = Some rb'" "rb_rel cfg rb' Q"
    "serialized_at (insert x (set (subtxns t))) rb rb'"
    using serialize_txn_correct[OF rel[unfolded rb_rel_on_UNIV] core_Some[OF t]] by (auto simp: rb_rel_on_UNIV)
  obtain u where u: "core rb' x = Some u" "spilled (strip t) u" using serialized_at_in[OF rb'(3) _ core_Some[OF t]] by auto
  then obtain b where b: "by_txn rb' x = Some b" "u = strip b" by (auto simp: core_eq_Some)
  obtain L where L: "Q x = L @ changes u" "txn_rel cfg (spill rb') x u L" using rb_relD[OF rb'(2) u(1)] .
  have "L = Q x" "serialized u" using L(1) spilled_simps[OF u(2)] by simp_all
  then have "disk_rest (spill_file (spill rb') x) (first_lsn u div XLogSegSize cfg) (final_lsn u div XLogSegSize cfg) None 0 = Q x"
    using rest_from_start[OF L(2)] by simp
  then obtain batches where "restore_batches k cfg rb' x None 0 = Some batches" "concat batches = take (k * max_changes_in_memory cfg) (Q x)"
    using restore_batches_correct[OF u(1) _ refl refl, where cfg = cfg and k = k and fd = None and segno = 0] txn_rel_beyond[OF L(2)]
    by auto
  moreover have "changes b = []" "nentries_mem b = 0" using spilled_simps(7,9)[OF u(2)] b(2) by simp_all
  ultimately show ?thesis using rb'(1) b(1) by blast
qed

theorem reorder_spill_roundtrip_witness:
  "\<exists>rb' u batches. ReorderBufferSerializeTXN sample_cfg sample_buffer 7 = Some rb' \<and> by_txn rb' 7 = Some u \<and> changes u = [] \<and>
    nentries_mem u = 0 \<and> restore_batches 2 sample_cfg rb' 7 None 0 = Some batches \<and> concat batches = sample_queues 7"
proof -
  obtain t where t: "by_txn sample_buffer 7 = Some t" by (rule sample_txnE) blast
  have "take (2 * max_changes_in_memory sample_cfg) (sample_queues 7) = sample_queues 7" by (simp add: sample_cfg_def sample_queues_def)
  then show ?thesis using reorder_spill_roundtrip[OF sample_reach t, of 2] by simp
qed

section \<open>Discarding transactions\<close>

text \<open>
  C13: Aborting a transaction returns and removes it and its subtransactions from the table, with
  everything they had in memory or in spill files; of the remaining transactions only the list of
  subtransactions changes, which loses an aborted subtransaction, and every other queue is kept.
  Aborting the transactions before a horizon removes those at the front of the list.
\<close>

theorem reorder_abort_removes:
  assumes "rb_reach cfg rb Q lsn" "lsn \<le> lsn'"
  shows "(\<exists>rb'. ReorderBufferAbort cfg rb x lsn' = Some rb' \<and> rb_rel cfg rb' (without (doomed rb x) Q) \<and> removed_from rb (doomed rb x) rb' \<and>
      (\<forall>y \<in> doomed rb x. by_txn rb' y = None \<and> (\<forall>s. spill_file (spill rb') y s = []))) \<and>
    (\<exists>rb'. ReorderBufferAbortOld cfg rb oldest lsn' = Some rb' \<and> rb_rel cfg rb' (without (doomed_old rb oldest) Q) \<and>
      toplevel_by_lsn rb' = dropWhile (\<lambda>x. x < oldest) (toplevel_by_lsn rb))"
proof
  note inv = rb_reach_inv[OF assms(1)]
  obtain rb' where rb': "ReorderBufferAbort cfg rb x lsn' = Some rb'" "rb_inv cfg rb' (without (doomed rb x) Q) lsn'"
    "removed_from rb (doomed rb x) rb'" using abort_inv[OF inv assms(2)] by blast
  have "by_txn rb' y = None \<and> (\<forall>s. spill_file (spill rb') y s = [])" if "y \<in> doomed rb x" for y
  proof -
    have "core rb' y = None" using rb'(3) that by (simp add: removed_from_def)
    then show ?thesis using rb_rel_None(2)[OF rb_invD(1)[OF rb'(2)]] by (simp add: core_eq_None)
  qed
  then show "\<exists>rb'. ReorderBufferAbort cfg rb x lsn' = Some rb' \<and> rb_rel cfg rb' (without (doomed rb x) Q) \<and> removed_from rb (doomed rb x) rb' \<and>
      (\<forall>y \<in> doomed rb x. by_txn rb' y = None \<and> (\<forall>s. spill_file (spill rb') y s = []))"
    using rb' rb_invD(1)[OF rb'(2)] by blast
  show "\<exists>rb'. ReorderBufferAbortOld cfg rb oldest lsn' = Some rb' \<and> rb_rel cfg rb' (without (doomed_old rb oldest) Q) \<and>
      toplevel_by_lsn rb' = dropWhile (\<lambda>x. x < oldest) (toplevel_by_lsn rb)"
    using abort_old_inv[OF inv, of oldest lsn'] rb_invD(1) by blast
qed

lemma sample_doomed: "doomed sample_buffer 7 = {7}"
  by (rule sample_txnE) (simp add: doomed_def core_def)

theorem reorder_abort_removes_witness:
  "\<exists>rb'. ReorderBufferAbort sample_cfg sample_buffer 7 50 = Some rb' \<and> by_txn rb' 7 = None \<and> spill_file (spill rb') 7 2 = [] \<and>
    rb_rel sample_cfg rb' (without {7} sample_queues)"
  using conjunct1[OF reorder_abort_removes[OF sample_reach, of 50 7]] by (auto simp: sample_doomed)

section \<open>The ordered lists\<close>

text \<open>
  The oldest transaction is a top-level transaction with the least first LSN, and there is
  none only when the buffer has no top-level transaction. The oldest xmin is the one of the
  transaction with the oldest base snapshot, and 0 when no transaction has a base snapshot.
\<close>

theorem reorder_oldest:
  assumes "rb_reach cfg rb Q lsn"
  shows "(case ReorderBufferGetOldestTXN rb of
       None \<Rightarrow> (\<forall>y u. by_txn rb y = Some u \<longrightarrow> is_known_as_subxact u)
     | Some x \<Rightarrow> \<exists>t. by_txn rb x = Some t \<and> \<not> is_known_as_subxact t \<and>
         (\<forall>y u. by_txn rb y = Some u \<longrightarrow> \<not> is_known_as_subxact u \<longrightarrow> first_lsn t \<le> first_lsn u)) \<and>
    (\<exists>xmin. ReorderBufferGetOldestXmin rb = Some xmin \<and>
      (if \<forall>y u. by_txn rb y = Some u \<longrightarrow> base_snapshot u = None then xmin = 0
       else \<exists>x t snap. by_txn rb x = Some t \<and> base_snapshot t = Some snap \<and> xmin = snap_xmin snap \<and>
         (\<forall>y u. by_txn rb y = Some u \<longrightarrow> base_snapshot u \<noteq> None \<longrightarrow> base_snapshot_lsn t \<le> base_snapshot_lsn u)))"
proof
  note ord = rb_invD(4)[OF rb_reach_inv[OF assms]]
  have top: "y \<in> set (toplevel_by_lsn rb)" if "by_txn rb y = Some u" "\<not> is_known_as_subxact u" for y u
    using that order_invD(4)[OF ord, of y] by (auto simp: is_top_def core_def)
  have snap: "y \<in> set (txns_by_base_snapshot_lsn rb)" if "by_txn rb y = Some u" "base_snapshot u \<noteq> None" for y u
    using that order_invD(5)[OF ord, of y] by (auto simp: has_snap_def core_def)
  have keys: "first_of rb y = first_lsn u" "snap_lsn_of rb y = base_snapshot_lsn u" if "by_txn rb y = Some u" for y u
    using that by (simp_all add: first_of_def snap_lsn_of_def core_def)
  show "case ReorderBufferGetOldestTXN rb of
       None \<Rightarrow> (\<forall>y u. by_txn rb y = Some u \<longrightarrow> is_known_as_subxact u)
     | Some x \<Rightarrow> \<exists>t. by_txn rb x = Some t \<and> \<not> is_known_as_subxact t \<and>
         (\<forall>y u. by_txn rb y = Some u \<longrightarrow> \<not> is_known_as_subxact u \<longrightarrow> first_lsn t \<le> first_lsn u)"
  proof (cases "toplevel_by_lsn rb")
    case Nil
    then show ?thesis using top by (auto simp: ReorderBufferGetOldestTXN_def)
  next
    case (Cons x xs)
    then obtain t where t: "by_txn rb x = Some t" "\<not> is_known_as_subxact t"
      using order_invD(4)[OF ord, of x] by (auto simp: is_top_def core_def)
    have "first_lsn t \<le> first_lsn u" if u: "by_txn rb y = Some u" "\<not> is_known_as_subxact u" for y u
    proof -
      have "y = x \<or> y \<in> set xs" using top[OF u] Cons by simp
      moreover have "sorted_wrt (\<le>) (map (first_of rb) (x # xs))" using order_invD(1)[OF ord] Cons unfolding listed_def by simp
      ultimately show ?thesis using keys(1)[OF t(1)] keys(1)[OF u(1)] t(1) u(1) by auto
    qed
    then show ?thesis using t Cons by (auto simp: ReorderBufferGetOldestTXN_def)
  qed
  show "\<exists>xmin. ReorderBufferGetOldestXmin rb = Some xmin \<and>
      (if \<forall>y u. by_txn rb y = Some u \<longrightarrow> base_snapshot u = None then xmin = 0
       else \<exists>x t snap. by_txn rb x = Some t \<and> base_snapshot t = Some snap \<and> xmin = snap_xmin snap \<and>
         (\<forall>y u. by_txn rb y = Some u \<longrightarrow> base_snapshot u \<noteq> None \<longrightarrow> base_snapshot_lsn t \<le> base_snapshot_lsn u))"
  proof (cases "txns_by_base_snapshot_lsn rb")
    case Nil
    then have "\<forall>y u. by_txn rb y = Some u \<longrightarrow> base_snapshot u = None" using snap by fastforce
    then show ?thesis using Nil by (simp add: ReorderBufferGetOldestXmin_def InvalidTransactionId_def)
  next
    case (Cons x xs)
    then obtain t s where t: "by_txn rb x = Some t" "base_snapshot t = Some s"
      using order_invD(5)[OF ord, of x] by (auto simp: has_snap_def core_def)
    have "base_snapshot_lsn t \<le> base_snapshot_lsn u" if u: "by_txn rb y = Some u" "base_snapshot u \<noteq> None" for y u
    proof -
      have "y = x \<or> y \<in> set xs" using snap[OF u] Cons by simp
      moreover have "sorted_wrt (<) (map (snap_lsn_of rb) (x # xs))" using order_invD(2)[OF ord] Cons unfolding listed_def by simp
      ultimately show ?thesis using keys(2)[OF t(1)] keys(2)[OF u(1)] t(1) u(1) by auto
    qed
    then show ?thesis using t Cons by (auto simp: ReorderBufferGetOldestXmin_def)
  qed
qed

theorem reorder_oldest_witness:
  "case ReorderBufferGetOldestTXN sample_buffer of None \<Rightarrow> False | Some x \<Rightarrow> by_txn sample_buffer x \<noteq> None"
proof -
  have "map_option is_known_as_subxact (by_txn sample_buffer 7) = Some False" by code_simp
  then show ?thesis using conjunct1[OF reorder_oldest[OF sample_reach]] by (auto split: option.splits)
qed

text \<open>
  C14: Assigning a subtransaction returns, keeps every queue and the order of both lists, and
  links the subtransaction to its parent: it is no longer a top-level transaction, it has no base
  snapshot of its own, and the parent has the older of the two base snapshots. A transaction
  that is already known to be a subtransaction is left alone.
\<close>

theorem reorder_assign_child:
  assumes "rb_reach cfg rb Q lsn" "lsn \<le> lsn'" "0 < lsn'" "may_assign rb x sub"
  shows "\<exists>rb'. ReorderBufferAssignChild rb x sub lsn' = Some rb' \<and> rb_rel cfg rb' Q \<and> AssertTXNLsnOrder rb' \<and> assigned_to rb x sub rb'"
  using assign_child_inv[OF rb_reach_inv[OF assms(1)] assms(2-4)] rb_invD(1,4) order_inv_assert by blast

lemma sample_may_assign: "may_assign sample_buffer 9 7"
proof -
  have "by_txn sample_buffer 9 = None" by code_simp
  then show ?thesis by (rule_tac sample_txnE) (simp add: may_assign_def core_def)
qed

theorem reorder_assign_child_witness:
  "\<exists>rb'. ReorderBufferAssignChild sample_buffer 9 7 41 = Some rb' \<and> rb_rel sample_cfg rb' sample_queues \<and> AssertTXNLsnOrder rb' \<and>
    assigned_to sample_buffer 9 7 rb'"
  using reorder_assign_child[OF sample_reach _ _ sample_may_assign, of 41] by simp

section \<open>Lookup, memory and the absence of undefined behaviour\<close>

text \<open>
  The one-entry cache of the transaction lookup is transparent: the lookup gives what the
  table alone determines, the transaction when it is there, a new one when it has to be created,
  and none otherwise.
\<close>

theorem reorder_lookup_cache_transparent:
  assumes "rb_reach cfg rb Q lsn"
  shows "ReorderBufferTXNByXid rb x create l as_top =
    (if by_txn rb x \<noteq> None then (rb\<lparr>by_txn_last_xid := x, by_txn_last_txn := Some x\<rparr>, Some x, False)
     else if create then
       (rb\<lparr>by_txn := (by_txn rb)(x \<mapsto> ReorderBufferGetTXN\<lparr>xid := x, first_lsn := l, restart_decoding_lsn := current_restart_decoding_lsn rb\<rparr>),
           toplevel_by_lsn := toplevel_by_lsn rb @ (if as_top then [x] else []),
           by_txn_last_xid := x, by_txn_last_txn := Some x\<rparr>, Some x, True)
     else (rb\<lparr>by_txn_last_xid := x, by_txn_last_txn := None\<rparr>, None,
           \<not> (by_txn_last_xid rb \<noteq> InvalidTransactionId \<and> by_txn_last_xid rb = x)))"
  using txn_by_xid_eq[OF rb_invD(3)[OF rb_reach_inv[OF assms]]] by (simp add: fresh_txn_def)

theorem reorder_lookup_cache_transparent_witness:
  "ReorderBufferTXNByXid sample_buffer 7 True 50 True =
     (sample_buffer\<lparr>by_txn_last_xid := 7, by_txn_last_txn := Some 7\<rparr>, Some 7, False)"
proof -
  obtain t where "by_txn sample_buffer 7 = Some t" by (rule sample_txnE) blast
  then show ?thesis using reorder_lookup_cache_transparent[OF sample_reach, of 7 True 50 True] by simp
qed

text \<open>
  C32: The size counter of a transaction follows its changes in memory: queueing, with whatever it
  spills, leaves the difference between the counter and the sizes of the changes in memory as it
  is for every transaction, modulo \<open>2 ^ 64\<close>. After the call the new change is the last one in
  memory, or the transaction was spilled and its counter is that difference. Removing the
  insertion of an upsert leaves both counters alone, so the difference grows by the size of the
  removed change.
\<close>

theorem reorder_memory_accounting:
  assumes "rb_reach cfg rb Q lsn" "lsn \<le> lsn'" "0 < lsn'"
  shows "(\<exists>rb' t. ReorderBufferQueueChange cfg rb x lsn' change = Some rb' \<and> (\<forall>y. drift cfg (by_txn rb' y) = drift cfg (by_txn rb y)) \<and>
      by_txn rb' x = Some t \<and> (changes t = [] \<and> txn_size t = drift cfg (by_txn rb x) \<or>
        changes t \<noteq> [] \<and> last (changes t) = change\<lparr>chg_lsn := lsn', chg_txn := x\<rparr>)) \<and>
    (\<forall>rb'. ReorderBufferRemoveChangeForUpsert rb x lsn' = Some rb' \<longrightarrow>
      (\<exists>t t'. by_txn rb x = Some t \<and> changes t \<noteq> [] \<and> by_txn rb' x = Some t' \<and> txn_size t' = txn_size t \<and> rb_size rb' = rb_size rb \<and>
        drift cfg (Some t') = drift cfg (Some t) + counted cfg (last (changes t))))"
proof
  note inv = rb_reach_inv[OF assms(1)]
  show "\<exists>rb' t. ReorderBufferQueueChange cfg rb x lsn' change = Some rb' \<and> (\<forall>y. drift cfg (by_txn rb' y) = drift cfg (by_txn rb y)) \<and>
      by_txn rb' x = Some t \<and> (changes t = [] \<and> txn_size t = drift cfg (by_txn rb x) \<or>
        changes t \<noteq> [] \<and> last (changes t) = change\<lparr>chg_lsn := lsn', chg_txn := x\<rparr>)"
    using queue_inv[OF inv assms(2,3), of x change] queue_drift[OF inv assms(2,3)] by blast
qed (use upsert_drift[OF rb_reach_inv[OF assms(1)] assms(2,3)] in blast)

theorem reorder_memory_accounting_witness:
  "\<exists>rb' t. ReorderBufferQueueChange sample_cfg sample_buffer 7 41 sample_change = Some rb' \<and> by_txn rb' 7 = Some t \<and>
    (changes t = [] \<and> txn_size t = drift sample_cfg (by_txn sample_buffer 7) \<or>
     changes t \<noteq> [] \<and> last (changes t) = sample_change\<lparr>chg_lsn := 41, chg_txn := 7\<rparr>)"
  using conjunct1[OF reorder_memory_accounting[OF sample_reach, of 41 7 sample_change]] by auto

text \<open>
  An insertion that the queueing call has spilled is out of reach of the removal: the list in
  memory is empty.
\<close>

lemma upsert_after_spill: "ReorderBufferRemoveChangeForUpsert sample_buffer 7 41 = None"
  by code_simp

text \<open>
  The entry of a transaction when it is looked up at a record: the one that the table has, or the
  one that is made for it, in a buffer that differs in nothing else.
\<close>

definition txn_entry :: "'d ReorderBuffer \<Rightarrow> TransactionId \<Rightarrow> XLogRecPtr \<Rightarrow> 'd ReorderBufferTXN" where
  "txn_entry rb x lsn =
     (case by_txn rb x of None \<Rightarrow> fresh_txn x lsn (current_restart_decoding_lsn rb) | Some t \<Rightarrow> t)"

lemma txn_by_xid_entry:
  assumes "cache_ok rb"
  shows "\<exists>rb1 n. ReorderBufferTXNByXid rb x True lsn as_top = (rb1, Some x, n) \<and>
    by_txn rb1 = (by_txn rb)(x \<mapsto> txn_entry rb x lsn) \<and> spill rb1 = spill rb \<and>
    txns_by_base_snapshot_lsn rb1 = txns_by_base_snapshot_lsn rb \<and> cache_ok rb1"
  using txn_by_xid_eq[OF assms, of x True lsn as_top]
  by (cases "by_txn rb x") (auto simp: txn_entry_def cache_ok_def fun_eq_iff core_by_txn_upd core_eq_None)

lemma by_txn_upd [simp]: "by_txn (upd_txn x f rb) = (by_txn rb)(x := map_option f (by_txn rb x))"
  by (simp add: upd_txn_def)

text \<open>What the operations on the entry of one transaction do to the table.\<close>

lemma set_catalog_changes_entry:
  assumes "cache_ok rb" "ReorderBufferXidSetCatalogChanges rb x lsn = Some rb'"
  shows "by_txn rb' = (by_txn rb)(x \<mapsto> (txn_entry rb x lsn)\<lparr>has_catalog_changes := True\<rparr>)"
  using txn_by_xid_entry[OF assms(1), of x lsn True] assms(2)
  by (auto simp: ReorderBufferXidSetCatalogChanges_def)

lemma add_tuplecids_entry:
  assumes "cache_ok rb" "ReorderBufferAddNewTupleCids rb x lsn tc = Some rb'"
  shows "by_txn rb' = (by_txn rb)(x \<mapsto> (txn_entry rb x lsn)\<lparr>
    tuplecids := tuplecids (txn_entry rb x lsn) @ [\<lparr>chg_lsn = lsn, chg_txn = x, origin_id = 0,
      chg_data = REORDER_BUFFER_CHANGE_INTERNAL_TUPLECID tc\<rparr>],
    ntuplecids := ntuplecids (txn_entry rb x lsn) + 1\<rparr>)"
  using txn_by_xid_entry[OF assms(1), of x lsn True] assms(2)
  by (auto simp: ReorderBufferAddNewTupleCids_def Let_def)

lemma add_invalidations_entry:
  assumes "cache_ok rb"
  shows "\<exists>rb'. ReorderBufferAddInvalidations rb x lsn msgs =
      Some (if invalidations (txn_entry rb x lsn) \<noteq> [] then Inl ERRCODE_FEATURE_NOT_SUPPORTED else Inr rb') \<and>
    by_txn rb' = (by_txn rb)(x \<mapsto> (txn_entry rb x lsn)\<lparr>invalidations := msgs\<rparr>)"
proof -
  obtain rb1 n where l: "ReorderBufferTXNByXid rb x True lsn True = (rb1, Some x, n)"
    "by_txn rb1 = (by_txn rb)(x \<mapsto> txn_entry rb x lsn)"
    using txn_by_xid_entry[OF assms, of x lsn True] by blast
  then show ?thesis
    by (intro exI[of _ "upd_txn x (\<lambda>t. t\<lparr>invalidations := msgs\<rparr>) rb1"])
      (simp add: ReorderBufferAddInvalidations_def)
qed

lemma set_base_snapshot_entry:
  assumes "cache_ok rb" "ReorderBufferSetBaseSnapshot rb x lsn snap = Some (Inr rb')"
  defines "tab \<equiv> (by_txn rb)(x \<mapsto> txn_entry rb x lsn)"
  shows "by_txn rb' = tab(owner rb x := map_option
      (\<lambda>t. t\<lparr>base_snapshot := Some snap, base_snapshot_lsn := lsn\<rparr>) (tab (owner rb x))) \<and>
    txns_by_base_snapshot_lsn rb' = txns_by_base_snapshot_lsn rb @ [owner rb x]"
proof -
  obtain rb1 n where l: "ReorderBufferTXNByXid rb x True lsn True = (rb1, Some x, n)" "by_txn rb1 = tab"
    "txns_by_base_snapshot_lsn rb1 = txns_by_base_snapshot_lsn rb" "cache_ok rb1"
    using txn_by_xid_entry[OF assms(1), of x lsn True] unfolding tab_def by blast
  have own: "owner rb x = (if is_known_as_subxact (txn_entry rb x lsn) then toplevel_xid (txn_entry rb x lsn) else x)"
    by (auto simp: owner_def core_def txn_entry_def fresh_txn_def ReorderBufferGetTXN_def split: option.splits)
  show ?thesis
  proof (cases "is_known_as_subxact (txn_entry rb x lsn)")
    case True
    then show ?thesis
      using assms(2) l own txn_by_xid_eq[OF l(4), of "owner rb x" False InvalidXLogRecPtr False]
      by (auto simp: ReorderBufferSetBaseSnapshot_def tab_def split: if_splits)
  next
    case False
    then show ?thesis using assms(2) l own by (auto simp: ReorderBufferSetBaseSnapshot_def tab_def)
  qed
qed

lemma forget_executed:
  assumes "cache_ok rb" "ReorderBufferForget cfg rb x lsn = Some (rb', executed)"
  shows "executed = (case by_txn rb x of None \<Rightarrow> [] | Some t \<Rightarrow> if base_snapshot t \<noteq> None then invalidations t else [])"
  using assms(2) txn_by_xid_eq[OF assms(1), of x False InvalidXLogRecPtr False]
  by (auto simp: ReorderBufferForget_def Let_def bind_eq_Some_conv split: option.splits if_splits)

text \<open>
  C33: The operations on the entry of one transaction do exactly what they are for. The entry is
  made if there is none; marking catalog changes sets the mark, a tuple cid is appended to the
  list and counted, a set of invalidations is stored, and it is an error if, and only if, there is
  one already; a base snapshot, when it is the newest one, goes to the top-level transaction and
  to the end of its list; forgetting a transaction executes its invalidations if it has a base
  snapshot, and removes it with its subtransactions. Nothing else changes in the table, and the buffer still
  represents the queues.
\<close>

theorem reorder_entry_operations:
  assumes "rb_reach cfg rb Q lsn" "lsn \<le> lsn'" "0 < lsn'"
  shows "(\<exists>rb'. ReorderBufferXidSetCatalogChanges rb x lsn' = Some rb' \<and> rb_rel cfg rb' Q \<and>
      by_txn rb' = (by_txn rb)(x \<mapsto> (txn_entry rb x lsn')\<lparr>has_catalog_changes := True\<rparr>)) \<and>
    (\<exists>rb'. ReorderBufferAddNewTupleCids rb x lsn' tc = Some rb' \<and> rb_rel cfg rb' Q \<and>
      by_txn rb' = (by_txn rb)(x \<mapsto> (txn_entry rb x lsn')\<lparr>
        tuplecids := tuplecids (txn_entry rb x lsn') @ [\<lparr>chg_lsn = lsn', chg_txn = x, origin_id = 0,
          chg_data = REORDER_BUFFER_CHANGE_INTERNAL_TUPLECID tc\<rparr>],
        ntuplecids := ntuplecids (txn_entry rb x lsn') + 1\<rparr>)) \<and>
    (if invalidations (txn_entry rb x lsn') \<noteq> []
     then ReorderBufferAddInvalidations rb x lsn' msgs = Some (Inl ERRCODE_FEATURE_NOT_SUPPORTED)
     else \<exists>rb'. ReorderBufferAddInvalidations rb x lsn' msgs = Some (Inr rb') \<and> rb_rel cfg rb' Q \<and>
       by_txn rb' = (by_txn rb)(x \<mapsto> (txn_entry rb x lsn')\<lparr>invalidations := msgs\<rparr>)) \<and>
    (\<not> has_snap rb (owner rb x) \<longrightarrow>
     (\<forall>z u. by_txn rb z = Some u \<longrightarrow> base_snapshot u \<noteq> None \<longrightarrow> base_snapshot_lsn u < lsn') \<longrightarrow>
      (\<exists>rb' tab. ReorderBufferSetBaseSnapshot rb x lsn' snap = Some (Inr rb') \<and> rb_rel cfg rb' Q \<and>
        has_snap rb' (owner rb x) \<and> tab = (by_txn rb)(x \<mapsto> txn_entry rb x lsn') \<and>
        by_txn rb' = tab(owner rb x := map_option
          (\<lambda>t. t\<lparr>base_snapshot := Some snap, base_snapshot_lsn := lsn'\<rparr>) (tab (owner rb x))) \<and>
        txns_by_base_snapshot_lsn rb' = txns_by_base_snapshot_lsn rb @ [owner rb x])) \<and>
    (\<exists>rb'. ReorderBufferForget cfg rb x lsn' = Some (rb', case by_txn rb x of None \<Rightarrow> []
        | Some t \<Rightarrow> if base_snapshot t \<noteq> None then invalidations t else []) \<and>
      rb_rel cfg rb' (without (doomed rb x) Q) \<and> removed_from rb (doomed rb x) rb')"
proof (intro conjI impI)
  note inv = rb_reach_inv[OF assms(1)]
  have cache: "cache_ok rb" using rb_invD(1)[OF inv] by (simp add: rb_rel_def)
  show "\<exists>rb'. ReorderBufferXidSetCatalogChanges rb x lsn' = Some rb' \<and> rb_rel cfg rb' Q \<and>
      by_txn rb' = (by_txn rb)(x \<mapsto> (txn_entry rb x lsn')\<lparr>has_catalog_changes := True\<rparr>)"
    using set_catalog_changes_inv[OF inv assms(2,3)] rb_invD(1) set_catalog_changes_entry[OF cache] by blast
  show "\<exists>rb'. ReorderBufferAddNewTupleCids rb x lsn' tc = Some rb' \<and> rb_rel cfg rb' Q \<and>
      by_txn rb' = (by_txn rb)(x \<mapsto> (txn_entry rb x lsn')\<lparr>
        tuplecids := tuplecids (txn_entry rb x lsn') @ [\<lparr>chg_lsn = lsn', chg_txn = x, origin_id = 0,
          chg_data = REORDER_BUFFER_CHANGE_INTERNAL_TUPLECID tc\<rparr>],
        ntuplecids := ntuplecids (txn_entry rb x lsn') + 1\<rparr>)"
    using add_tuplecids_inv[OF inv assms(2,3)] rb_invD(1) add_tuplecids_entry[OF cache] by blast
  obtain rb' where e: "ReorderBufferAddInvalidations rb x lsn' msgs =
      Some (if invalidations (txn_entry rb x lsn') \<noteq> [] then Inl ERRCODE_FEATURE_NOT_SUPPORTED else Inr rb')"
    "by_txn rb' = (by_txn rb)(x \<mapsto> (txn_entry rb x lsn')\<lparr>invalidations := msgs\<rparr>)"
    using add_invalidations_entry[OF cache] by blast
  moreover have "rb_rel cfg rb' Q" if "invalidations (txn_entry rb x lsn') = []"
    using add_invalidations_inv[OF inv assms(2,3), of x msgs] e(1) that by (auto dest: rb_invD(1))
  ultimately show "if invalidations (txn_entry rb x lsn') \<noteq> []
     then ReorderBufferAddInvalidations rb x lsn' msgs = Some (Inl ERRCODE_FEATURE_NOT_SUPPORTED)
     else \<exists>rb'. ReorderBufferAddInvalidations rb x lsn' msgs = Some (Inr rb') \<and> rb_rel cfg rb' Q \<and>
       by_txn rb' = (by_txn rb)(x \<mapsto> (txn_entry rb x lsn')\<lparr>invalidations := msgs\<rparr>)"
    by auto
  show "\<exists>rb'. ReorderBufferForget cfg rb x lsn' = Some (rb', case by_txn rb x of None \<Rightarrow> []
        | Some t \<Rightarrow> if base_snapshot t \<noteq> None then invalidations t else []) \<and>
      rb_rel cfg rb' (without (doomed rb x) Q) \<and> removed_from rb (doomed rb x) rb'"
  proof -
    obtain rb2 ex where "ReorderBufferForget cfg rb x lsn' = Some (rb2, ex)" "rb_inv cfg rb2 (without (doomed rb x) Q) lsn'"
      "removed_from rb (doomed rb x) rb2" using forget_inv[OF inv assms(2), of x] by blast
    then show ?thesis using forget_executed[OF cache] rb_invD(1) by blast
  qed
  assume "\<not> has_snap rb (owner rb x)"
    "\<forall>z u. by_txn rb z = Some u \<longrightarrow> base_snapshot u \<noteq> None \<longrightarrow> base_snapshot_lsn u < lsn'"
  then obtain rb2 where "ReorderBufferSetBaseSnapshot rb x lsn' snap = Some (Inr rb2)" "rb_rel cfg rb2 Q"
    "has_snap rb2 (owner rb x)"
    using set_base_snapshot_inv[OF inv assms(2,3), of x snap] rb_invD(1) by (fastforce simp: core_eq_Some)
  then show "\<exists>rb' tab. ReorderBufferSetBaseSnapshot rb x lsn' snap = Some (Inr rb') \<and> rb_rel cfg rb' Q \<and>
        has_snap rb' (owner rb x) \<and> tab = (by_txn rb)(x \<mapsto> txn_entry rb x lsn') \<and>
        by_txn rb' = tab(owner rb x := map_option
          (\<lambda>t. t\<lparr>base_snapshot := Some snap, base_snapshot_lsn := lsn'\<rparr>) (tab (owner rb x))) \<and>
        txns_by_base_snapshot_lsn rb' = txns_by_base_snapshot_lsn rb @ [owner rb x]"
    using set_base_snapshot_entry[OF cache] by blast
qed

theorem reorder_entry_operations_witness:
  "(\<exists>rb'. ReorderBufferXidSetCatalogChanges sample_buffer 7 41 = Some rb' \<and> rb_rel sample_cfg rb' sample_queues \<and>
      by_txn rb' = (by_txn sample_buffer)(7 \<mapsto> (txn_entry sample_buffer 7 41)\<lparr>has_catalog_changes := True\<rparr>))"
  by (rule conjunct1[OF reorder_entry_operations[OF sample_reach]]) simp_all

end
