(* ===== verification/Lock_Table.thy ===== *)
theory Lock_Table
  imports Gauss_Prelude
begin

text \<open>
  The shared lock table of the lock manager: \<open>gausskernel/storage/lmgr/lock.cpp\<close> (lock objects,
  the conflict test, granting, releasing, cleaning up) and the wait queues of \<open>proc.cpp\<close> in the same
  directory (going to sleep, waking up).

  A \<open>PGPROC\<close> pointer is its number, a \<open>LOCK\<close> pointer the lock tag that identifies it and a
  \<open>PROCLOCK\<close> pointer the pair of the two: both structures live in hash tables under these keys. The
  \<open>SHM_QUEUE\<close> lists are lists of such pointers in queue order. Fields of the thread context that an
  operation writes for a backend are kept with the backend's \<open>PGPROC\<close>. An operation runs under the
  partition lock of its lock tag and is therefore one state transformer.
\<close>

section \<open>Lock modes and lock methods\<close>

type_synonym procno = nat
type_synonym LOCKMASK = uint32
type_synonym LOCKMODE = nat

definition MAX_LOCKMODES :: nat where "MAX_LOCKMODES = 10"

definition AccessShareLock :: LOCKMODE where "AccessShareLock = 1"
definition RowShareLock :: LOCKMODE where "RowShareLock = 2"
definition RowExclusiveLock :: LOCKMODE where "RowExclusiveLock = 3"
definition ShareUpdateExclusiveLock :: LOCKMODE where "ShareUpdateExclusiveLock = 4"
definition ShareLock :: LOCKMODE where "ShareLock = 5"
definition ShareRowExclusiveLock :: LOCKMODE where "ShareRowExclusiveLock = 6"
definition ExclusiveLock :: LOCKMODE where "ExclusiveLock = 7"
definition AccessExclusiveLock :: LOCKMODE where "AccessExclusiveLock = 8"

lemmas lock_mode_defs = AccessShareLock_def RowShareLock_def RowExclusiveLock_def
  ShareUpdateExclusiveLock_def ShareLock_def ShareRowExclusiveLock_def ExclusiveLock_def
  AccessExclusiveLock_def

text \<open>
  A lock mode is at most \<open>AccessExclusiveLock\<close>. (Shifting by 32 or more, on which C makes no
  promise, does not occur.)
\<close>

definition LOCKBIT_ON :: "LOCKMODE \<Rightarrow> LOCKMASK" where
  "LOCKBIT_ON lockmode = push_bit lockmode 1"

definition LOCKBIT_OFF :: "LOCKMODE \<Rightarrow> LOCKMASK" where
  "LOCKBIT_OFF lockmode = NOT (push_bit lockmode 1)"

definition LockConflicts :: "LOCKMASK list" where
  "LockConflicts = [
     0,
     push_bit AccessExclusiveLock 1,
     push_bit ExclusiveLock 1 OR push_bit AccessExclusiveLock 1,
     push_bit ShareLock 1 OR push_bit ShareRowExclusiveLock 1 OR push_bit ExclusiveLock 1 OR
       push_bit AccessExclusiveLock 1,
     push_bit ShareUpdateExclusiveLock 1 OR push_bit ShareLock 1 OR push_bit ShareRowExclusiveLock 1 OR
       push_bit ExclusiveLock 1 OR push_bit AccessExclusiveLock 1,
     push_bit RowExclusiveLock 1 OR push_bit ShareUpdateExclusiveLock 1 OR
       push_bit ShareRowExclusiveLock 1 OR push_bit ExclusiveLock 1 OR push_bit AccessExclusiveLock 1,
     push_bit RowExclusiveLock 1 OR push_bit ShareUpdateExclusiveLock 1 OR push_bit ShareLock 1 OR
       push_bit ShareRowExclusiveLock 1 OR push_bit ExclusiveLock 1 OR push_bit AccessExclusiveLock 1,
     push_bit RowShareLock 1 OR push_bit RowExclusiveLock 1 OR push_bit ShareUpdateExclusiveLock 1 OR
       push_bit ShareLock 1 OR push_bit ShareRowExclusiveLock 1 OR push_bit ExclusiveLock 1 OR
       push_bit AccessExclusiveLock 1,
     push_bit AccessShareLock 1 OR push_bit RowShareLock 1 OR push_bit RowExclusiveLock 1 OR
       push_bit ShareUpdateExclusiveLock 1 OR push_bit ShareLock 1 OR push_bit ShareRowExclusiveLock 1 OR
       push_bit ExclusiveLock 1 OR push_bit AccessExclusiveLock 1]"

definition lock_mode_names :: "string list" where
  "lock_mode_names = [''INVALID'', ''AccessShareLock'', ''RowShareLock'', ''RowExclusiveLock'',
     ''ShareUpdateExclusiveLock'', ''ShareLock'', ''ShareRowExclusiveLock'', ''ExclusiveLock'',
     ''AccessExclusiveLock'']"

record LockMethodData =
  numLockModes :: nat
  conflictTab :: "LOCKMASK list"
  lockModeNames :: "string list"

definition default_lockmethod :: LockMethodData where
  "default_lockmethod = \<lparr>numLockModes = AccessExclusiveLock, conflictTab = LockConflicts,
     lockModeNames = lock_mode_names\<rparr>"

definition user_lockmethod :: LockMethodData where
  "user_lockmethod = \<lparr>numLockModes = AccessExclusiveLock, conflictTab = LockConflicts,
     lockModeNames = lock_mode_names\<rparr>"

text \<open>\<open>LockMethods[0]\<close> is a null pointer.\<close>

definition LockMethods :: "LockMethodData option list" where
  "LockMethods = [None, Some default_lockmethod, Some user_lockmethod]"

definition DEFAULT_LOCKMETHOD :: nat where "DEFAULT_LOCKMETHOD = 1"
definition USER_LOCKMETHOD :: nat where "USER_LOCKMETHOD = 2"

definition DoLockModesConflict :: "LOCKMODE \<Rightarrow> LOCKMODE \<Rightarrow> bool" where
  "DoLockModesConflict mode1 mode2 \<longleftrightarrow>
     conflictTab (the (LockMethods ! DEFAULT_LOCKMETHOD)) ! mode1 AND LOCKBIT_ON mode2 \<noteq> 0"

datatype LockTagType =
    LOCKTAG_RELATION | LOCKTAG_RELATION_EXTEND | LOCKTAG_PARTITION | LOCKTAG_PARTITION_SEQUENCE
  | LOCKTAG_PAGE | LOCKTAG_TUPLE | LOCKTAG_TRANSACTION | LOCKTAG_VIRTUALTRANSACTION | LOCKTAG_OBJECT
  | LOCKTAG_CSTORE_FREESPACE | LOCKTAG_USERLOCK | LOCKTAG_ADVISORY | LOCKTAG_RELFILENODE
  | LOCKTAG_SUBTRANSACTION | LOCKTAG_UID | LOCKTAG_TABLESPACE | LOCKTAG_PLPY_GIL

record LOCKTAG =
  locktag_field1 :: uint32
  locktag_field2 :: uint32
  locktag_field3 :: uint32
  locktag_field4 :: uint32
  locktag_field5 :: uint16
  locktag_type :: LockTagType
  locktag_lockmethodid :: nat

definition GetLocksMethodTable :: "LOCKTAG \<Rightarrow> LockMethodData" where
  "GetLocksMethodTable lock = the (LockMethods ! locktag_lockmethodid lock)"

section \<open>Shared state\<close>

datatype wait_status = STATUS_OK | STATUS_ERROR | STATUS_WAITING | STATUS_FOUND | STATUS_FOUND_NEED_CANCEL

text \<open>\<open>waitProcs.size\<close> is the length of the list \<open>waitProcs\<close>.\<close>

record LOCK =
  grantMask :: LOCKMASK
  waitMask :: LOCKMASK
  procLocks :: "procno list"
  waitProcs :: "procno list"
  requested :: "int list"
  nRequested :: int
  granted :: "int list"
  nGranted :: int

type_synonym proclock_ptr = "LOCKTAG \<times> procno"

record PROCLOCK =
  groupLeader :: procno
  holdMask :: LOCKMASK
  releaseMask :: LOCKMASK

record DEADLOCK_INFO =
  info_locktag :: LOCKTAG
  info_lockmode :: LOCKMODE
  info_pid :: nat

text \<open>
  \<open>links\<close> says that \<open>links.next\<close> is not null: \<open>SHMQueueInsertBefore\<close> sets the pointer and
  \<open>SHMQueueDelete\<close> clears it. \<open>vacuumFlags\<close> is in the \<open>PGXACT\<close> of the same number. The fields from
  \<open>conflicting_lock_by_holdlock\<close> on are those of the backend's thread and session.
\<close>

record PGPROC =
  pid :: nat
  links :: bool
  waitStatus :: wait_status
  waitLock :: "LOCKTAG option"
  waitProcLock :: "proclock_ptr option"
  waitLockMode :: LOCKMODE
  heldLocks :: LOCKMASK
  blockProcLock :: "proclock_ptr option"
  myProcLocks :: "nat \<Rightarrow> LOCKTAG list"
  lockGroupLeader :: "procno option"
  lockGroupMembers :: "procno list"
  vacuumFlags :: uint8
  conflicting_lock_by_holdlock :: bool
  conflicting_lock_mode_name :: string
  conflicting_lock_thread_id :: nat
  blocking_redistribution_proc :: "procno option"
  redistribution_cancelable :: bool
  deadlockDetails :: "DEADLOCK_INFO list"

record lock_space =
  LockHash :: "LOCKTAG \<Rightarrow> LOCK option"
  ProcLockHash :: "proclock_ptr \<Rightarrow> PROCLOCK option"
  procs :: "procno \<Rightarrow> PGPROC"

text \<open>The dereferenced pointers, and the writes through them.\<close>

abbreviation lock_at :: "lock_space \<Rightarrow> LOCKTAG \<Rightarrow> LOCK" where
  "lock_at s t \<equiv> the (LockHash s t)"

abbreviation proclock_at :: "lock_space \<Rightarrow> proclock_ptr \<Rightarrow> PROCLOCK" where
  "proclock_at s k \<equiv> the (ProcLockHash s k)"

definition set_lock :: "LOCKTAG \<Rightarrow> LOCK \<Rightarrow> lock_space \<Rightarrow> lock_space" where
  "set_lock t l s = s\<lparr>LockHash := (LockHash s)(t \<mapsto> l)\<rparr>"

definition set_proclock :: "proclock_ptr \<Rightarrow> PROCLOCK \<Rightarrow> lock_space \<Rightarrow> lock_space" where
  "set_proclock k pl s = s\<lparr>ProcLockHash := (ProcLockHash s)(k \<mapsto> pl)\<rparr>"

definition upd_proc :: "procno \<Rightarrow> (PGPROC \<Rightarrow> PGPROC) \<Rightarrow> lock_space \<Rightarrow> lock_space" where
  "upd_proc p f s = s\<lparr>procs := (procs s)(p := f (procs s p))\<rparr>"

definition leader_of :: "lock_space \<Rightarrow> procno \<Rightarrow> procno" where
  "leader_of s p = (case lockGroupLeader (procs s p) of None \<Rightarrow> p | Some q \<Rightarrow> q)"

section \<open>Stream threads\<close>

text \<open>
  The threads of one stream query share a transaction. \<open>m_streamArray\<close> holds the thread ids of the
  stream objects from index 1 on, \<open>None\<close> for a slot with no object.
\<close>

record StreamNodeGroup =
  m_pid :: nat
  m_streamArray :: "nat option list"

definition inNodeGroup :: "StreamNodeGroup \<Rightarrow> nat \<Rightarrow> nat \<Rightarrow> bool" where
  "inNodeGroup g pid1 pid2 \<longleftrightarrow>
     pid1 \<noteq> pid2 \<and> (pid1 = m_pid g \<or> pid2 = m_pid g) \<and>
     list_ex (\<lambda>so. case so of None \<Rightarrow> False | Some tid \<Rightarrow> tid = pid2 \<or> tid = pid1) (m_streamArray g)"

text \<open>The thread that runs an operation: \<open>t_thrd.proc\<close> and its stream context.\<close>

record session =
  my_proc :: procno
  StreamTopConsumerAmI :: bool
  StreamThreadAmI :: bool
  cursorNodeGroupList :: "StreamNodeGroup list"
  global_obj :: "StreamNodeGroup option"

definition has_backend_cursor_stream :: "session \<Rightarrow> bool" where
  "has_backend_cursor_stream se \<longleftrightarrow> length (cursorNodeGroupList se) > 0"

definition IsInSameTransaction :: "session \<Rightarrow> PGPROC \<Rightarrow> PGPROC \<Rightarrow> bool" where
  "IsInSameTransaction se proc1 proc2 \<longleftrightarrow>
     (if has_backend_cursor_stream se \<and>
         list_ex (\<lambda>g. inNodeGroup g (pid proc1) (pid proc2)) (cursorNodeGroupList se) then True
      else (case global_obj se of None \<Rightarrow> False | Some g \<Rightarrow> inNodeGroup g (pid proc1) (pid proc2)))"

section \<open>The conflict test\<close>

definition PROC_IS_AUTOVACUUM :: uint8 where "PROC_IS_AUTOVACUUM = 0x01"
definition PROC_IS_REDIST :: uint8 where "PROC_IS_REDIST = 0x10"

definition IsOtherProcRedistribution :: "lock_space \<Rightarrow> procno \<Rightarrow> bool" where
  "IsOtherProcRedistribution s otherProc \<longleftrightarrow> vacuumFlags (procs s otherProc) AND PROC_IS_REDIST \<noteq> 0"

definition IsInSameLockGroup :: "lock_space \<Rightarrow> proclock_ptr \<Rightarrow> proclock_ptr \<Rightarrow> bool" where
  "IsInSameLockGroup s proclock1 proclock2 \<longleftrightarrow> proclock1 \<noteq> proclock2 \<and>
     groupLeader (proclock_at s proclock1) = groupLeader (proclock_at s proclock2)"

definition ProcBlockerUpdate ::
  "procno \<Rightarrow> proclock_ptr \<Rightarrow> string \<Rightarrow> bool \<Rightarrow> lock_space \<Rightarrow> lock_space" where
  "ProcBlockerUpdate waiterProc blockerProcLock lockMode isLockHolder s =
     upd_proc waiterProc (\<lambda>p. p\<lparr>conflicting_lock_by_holdlock := isLockHolder,
        conflicting_lock_mode_name := lockMode,
        conflicting_lock_thread_id := pid (procs s (snd blockerProcLock)),
        blockProcLock := Some blockerProcLock\<rparr>) s"

text \<open>The locks of \<open>lockmode\<close> that do not count against the request: own, group or transaction.\<close>

definition myHolding :: "session \<Rightarrow> lock_space \<Rightarrow> LOCKTAG \<Rightarrow> procno \<Rightarrow> bool \<Rightarrow> LOCKMODE \<Rightarrow> nat" where
  "myHolding se s t proc inLockGroup i =
     (if holdMask (proclock_at s (t, proc)) AND LOCKBIT_ON i \<noteq> 0 then 1 else 0) +
     (if StreamTopConsumerAmI se \<or> StreamThreadAmI se \<or> has_backend_cursor_stream se \<or> inLockGroup
      then length (filter (\<lambda>q.
             ((\<not> inLockGroup \<and> IsInSameTransaction se (procs s q) (procs s proc)) \<or>
              (inLockGroup \<and> IsInSameLockGroup s (t, proc) (t, q))) \<and>
             holdMask (proclock_at s (t, q)) AND LOCKBIT_ON i \<noteq> 0) (procLocks (lock_at s t)))
      else 0)"

definition otherLocks ::
  "session \<Rightarrow> LockMethodData \<Rightarrow> lock_space \<Rightarrow> LOCKTAG \<Rightarrow> procno \<Rightarrow> bool \<Rightarrow> LOCKMASK" where
  "otherLocks se tab s t proc inLockGroup =
     fold (\<lambda>i acc. if granted (lock_at s t) ! i > int (myHolding se s t proc inLockGroup i)
                   then acc OR LOCKBIT_ON i else acc) [1..<Suc (numLockModes tab)] 0"

text \<open>The first holder that conflicts, recorded for the error message of a lock timeout.\<close>

definition note_conflict ::
  "session \<Rightarrow> LockMethodData \<Rightarrow> LOCKMODE \<Rightarrow> LOCKTAG \<Rightarrow> procno \<Rightarrow> bool \<Rightarrow> lock_space \<Rightarrow> lock_space" where
  "note_conflict se tab lockmode t proc inLockGroup s =
     (case find (\<lambda>q. pid (procs s q) \<noteq> pid (procs s proc) \<and>
               conflictTab tab ! lockmode AND holdMask (proclock_at s (t, q)) \<noteq> 0 \<and>
               (inLockGroup \<or> \<not> IsInSameTransaction se (procs s q) (procs s proc)) \<and>
               (\<not> inLockGroup \<or> \<not> IsInSameLockGroup s (t, proc) (t, q))) (procLocks (lock_at s t)) of
        None \<Rightarrow> s
      | Some q \<Rightarrow>
          (let conflictLocks = conflictTab tab ! lockmode AND holdMask (proclock_at s (t, q));
               lock_idx = (case find (\<lambda>i. conflictLocks AND LOCKBIT_ON i \<noteq> 0) [1..<Suc (numLockModes tab)] of
                  None \<Rightarrow> Suc (numLockModes tab) | Some i \<Rightarrow> i)
           in ProcBlockerUpdate proc (t, q) (lockModeNames tab ! lock_idx) True s))"

text \<open>A redistribution that holds the lock may be cancelled for a drop or truncate.\<close>

definition note_redistribution ::
  "session \<Rightarrow> LockMethodData \<Rightarrow> LOCKMODE \<Rightarrow> LOCKTAG \<Rightarrow> procno \<Rightarrow> lock_space \<Rightarrow> lock_space" where
  "note_redistribution se tab lockmode t proc s =
     (if redistribution_cancelable (procs s (my_proc se)) \<and> lockmode = AccessExclusiveLock then
        fold (\<lambda>q s. if pid (procs s q) \<noteq> pid (procs s proc) \<and>
                       conflictTab tab ! lockmode AND holdMask (proclock_at s (t, q)) \<noteq> 0 \<and>
                       IsOtherProcRedistribution s q
                    then upd_proc (my_proc se) (\<lambda>p. p\<lparr>blocking_redistribution_proc := Some q\<rparr>) s else s)
          (procLocks (lock_at s t)) s
      else s)"

definition LockCheckConflicts ::
  "session \<Rightarrow> LockMethodData \<Rightarrow> LOCKMODE \<Rightarrow> LOCKTAG \<Rightarrow> procno \<Rightarrow> lock_space \<Rightarrow> wait_status \<times> lock_space" where
  "LockCheckConflicts se tab lockmode t proc s =
     (if conflictTab tab ! lockmode AND grantMask (lock_at s t) = 0 then (STATUS_OK, s)
      else
        let inLockGroup = (groupLeader (proclock_at s (t, proc)) \<noteq> my_proc se \<or>
                           lockGroupLeader (procs s (my_proc se)) \<noteq> None);
            other = otherLocks se tab s t proc inLockGroup;
            s = note_redistribution se tab lockmode t proc (note_conflict se tab lockmode t proc inLockGroup s)
        in if conflictTab tab ! lockmode AND other = 0 then (STATUS_OK, s)
           else (case blocking_redistribution_proc (procs s (my_proc se)) of
                   None \<Rightarrow> (STATUS_FOUND, s)
                 | Some r \<Rightarrow>
                     if IsOtherProcRedistribution s r then (STATUS_FOUND_NEED_CANCEL, s)
                     else (STATUS_FOUND,
                           upd_proc (my_proc se) (\<lambda>p. p\<lparr>blocking_redistribution_proc := None\<rparr>) s)))"

section \<open>Granting and releasing\<close>

text \<open>The counter changes, which several operations share.\<close>

definition grant_counts :: "LOCKMODE \<Rightarrow> LOCK \<Rightarrow> LOCK" where
  "grant_counts lockmode lock =
     (let lock = lock\<lparr>nGranted := nGranted lock + 1,
                      granted := (granted lock)[lockmode := granted lock ! lockmode + 1],
                      grantMask := grantMask lock OR LOCKBIT_ON lockmode\<rparr>
      in if granted lock ! lockmode = requested lock ! lockmode
         then lock\<lparr>waitMask := waitMask lock AND LOCKBIT_OFF lockmode\<rparr> else lock)"

definition request_counts :: "LOCKMODE \<Rightarrow> LOCK \<Rightarrow> LOCK" where
  "request_counts lockmode lock = lock\<lparr>nRequested := nRequested lock + 1,
     requested := (requested lock)[lockmode := requested lock ! lockmode + 1]\<rparr>"

definition unrequest_counts :: "LOCKMODE \<Rightarrow> LOCK \<Rightarrow> LOCK" where
  "unrequest_counts lockmode lock = lock\<lparr>nRequested := nRequested lock - 1,
     requested := (requested lock)[lockmode := requested lock ! lockmode - 1]\<rparr>"

definition ungrant_counts :: "LOCKMODE \<Rightarrow> LOCK \<Rightarrow> LOCK" where
  "ungrant_counts lockmode lock =
     (let lock = unrequest_counts lockmode lock;
          lock = lock\<lparr>nGranted := nGranted lock - 1,
                      granted := (granted lock)[lockmode := granted lock ! lockmode - 1]\<rparr>
      in if granted lock ! lockmode = 0
         then lock\<lparr>grantMask := grantMask lock AND LOCKBIT_OFF lockmode\<rparr> else lock)"

definition GrantLock :: "LOCKTAG \<Rightarrow> procno \<Rightarrow> LOCKMODE \<Rightarrow> lock_space \<Rightarrow> lock_space" where
  "GrantLock t p lockmode s =
     (let proclock = proclock_at s (t, p)
      in set_proclock (t, p) (proclock\<lparr>holdMask := holdMask proclock OR LOCKBIT_ON lockmode\<rparr>)
           (set_lock t (grant_counts lockmode (lock_at s t)) s))"

text \<open>The result says whether waiters should be woken up.\<close>

definition UnGrantLock ::
  "LockMethodData \<Rightarrow> LOCKTAG \<Rightarrow> LOCKMODE \<Rightarrow> procno \<Rightarrow> lock_space \<Rightarrow> bool \<times> lock_space" where
  "UnGrantLock tab t lockmode p s =
     (let lock = ungrant_counts lockmode (lock_at s t);
          wakeupNeeded = (conflictTab tab ! lockmode AND waitMask lock \<noteq> 0);
          proclock = proclock_at s (t, p)
      in (wakeupNeeded,
          set_proclock (t, p) (proclock\<lparr>holdMask := holdMask proclock AND LOCKBIT_OFF lockmode\<rparr>)
            (set_lock t lock s)))"

section \<open>Waking up\<close>

definition ProcWakeup :: "procno \<Rightarrow> wait_status \<Rightarrow> lock_space \<Rightarrow> lock_space" where
  "ProcWakeup p status s =
     (if \<not> links (procs s p) then s
      else
        let t = the (waitLock (procs s p)); lock = lock_at s t
        in upd_proc p (\<lambda>p. p\<lparr>links := False, waitLock := None, waitProcLock := None, waitStatus := status\<rparr>)
             (set_lock t (lock\<lparr>waitProcs := removeAll p (waitProcs lock)\<rparr>) s))"

text \<open>
  A waiter that only conflicts with waiters ahead of it gets the first conflicting waiter of the
  queue as its new blocker, when its old blocker was the released proclock (\<open>Some (k, left)\<close>, with the
  mask it has left) or the queue was rearranged (\<open>None\<close>).
\<close>

definition refresh_blocker ::
  "LockMethodData \<Rightarrow> LOCKTAG \<Rightarrow> (proclock_ptr \<times> LOCKMASK) option \<Rightarrow> procno \<Rightarrow> lock_space \<Rightarrow> lock_space" where
  "refresh_blocker tab t proclock p s =
     (let lockmode = waitLockMode (procs s p) in
      if (case proclock of None \<Rightarrow> True
          | Some (k, left) \<Rightarrow> Some k = blockProcLock (procs s p) \<and> left AND conflictTab tab ! lockmode = 0)
      then (case find (\<lambda>q. conflictTab tab ! lockmode AND LOCKBIT_ON (waitLockMode (procs s q)) \<noteq> 0)
                   (waitProcs (lock_at s t)) of
              None \<Rightarrow> s
            | Some q \<Rightarrow> ProcBlockerUpdate p (the (waitProcLock (procs s q)))
                          (lockModeNames tab ! waitLockMode (procs s q)) False s)
      else s)"

text \<open>One waiter of the scan; the mask collects the requests of the waiters that stay.\<close>

definition wakeup_step ::
  "session \<Rightarrow> LockMethodData \<Rightarrow> LOCKTAG \<Rightarrow> (proclock_ptr \<times> LOCKMASK) option \<Rightarrow> procno \<Rightarrow>
   LOCKMASK \<times> lock_space \<Rightarrow> LOCKMASK \<times> lock_space" where
  "wakeup_step se tab t proclock p = (\<lambda>(aheadRequests, s).
     let lockmode = waitLockMode (procs s p) in
     if conflictTab tab ! lockmode AND aheadRequests = 0 then
       (case LockCheckConflicts se tab lockmode t p s of (status, s) \<Rightarrow>
          if status = STATUS_OK then (aheadRequests, ProcWakeup p STATUS_OK (GrantLock t p lockmode s))
          else (aheadRequests OR LOCKBIT_ON lockmode, s))
     else (aheadRequests OR LOCKBIT_ON lockmode, refresh_blocker tab t proclock p s))"

text \<open>The scan follows the queue as it is at the start: a woken process saves its next link first.\<close>

definition ProcLockWakeup ::
  "session \<Rightarrow> LockMethodData \<Rightarrow> LOCKTAG \<Rightarrow> (proclock_ptr \<times> LOCKMASK) option \<Rightarrow> lock_space \<Rightarrow> lock_space" where
  "ProcLockWakeup se tab t proclock s =
     snd (fold (wakeup_step se tab t proclock) (waitProcs (lock_at s t)) (0, s))"

section \<open>Cleaning up\<close>

text \<open>Unlinking a proclock from the lists of its lock and its process and from the table.\<close>

definition delete_proclock :: "LOCKTAG \<Rightarrow> procno \<Rightarrow> lock_space \<Rightarrow> lock_space" where
  "delete_proclock t p s =
     (let lock = lock_at s t;
          s = set_lock t (lock\<lparr>procLocks := removeAll p (procLocks lock)\<rparr>) s;
          s = upd_proc p (\<lambda>q. q\<lparr>myProcLocks := \<lambda>part_no. removeAll t (myProcLocks q part_no)\<rparr>) s
      in s\<lparr>ProcLockHash := (ProcLockHash s)((t, p) := None)\<rparr>)"

definition CleanUpLock ::
  "session \<Rightarrow> LockMethodData \<Rightarrow> LOCKTAG \<Rightarrow> procno \<Rightarrow> bool \<Rightarrow> lock_space \<Rightarrow> lock_space" where
  "CleanUpLock se tab t p wakeupNeeded s =
     (let left = holdMask (proclock_at s (t, p));
          s = (if left = 0 then delete_proclock t p s else s)
      in if nRequested (lock_at s t) = 0 then s\<lparr>LockHash := (LockHash s)(t := None)\<rparr>
         else if wakeupNeeded then ProcLockWakeup se tab t (Some ((t, p), left)) s
         else s)"

definition leave_queue :: "procno \<Rightarrow> lock_space \<Rightarrow> lock_space" where
  "leave_queue p s =
     (let t = the (waitLock (procs s p));
          lockmode = waitLockMode (procs s p);
          lock = lock_at s t;
          lock = unrequest_counts lockmode (lock\<lparr>waitProcs := removeAll p (waitProcs lock)\<rparr>);
          lock = (if granted lock ! lockmode = requested lock ! lockmode
                  then lock\<lparr>waitMask := waitMask lock AND LOCKBIT_OFF lockmode\<rparr> else lock)
      in upd_proc p (\<lambda>q. q\<lparr>links := False, waitLock := None, waitProcLock := None,
                            waitStatus := STATUS_ERROR\<rparr>) (set_lock t lock s))"

definition RemoveFromWaitQueue :: "session \<Rightarrow> procno \<Rightarrow> lock_space \<Rightarrow> lock_space" where
  "RemoveFromWaitQueue se p s =
     (let t = the (waitLock (procs s p))
      in CleanUpLock se (GetLocksMethodTable t) t p True (leave_queue p s))"

text \<open>Releasing one mode of a proclock, as \<open>LockRefindAndRelease\<close> does it under the partition lock.\<close>

datatype release_outcome = Released | Not_owned | Panic errcode

definition LockRefindAndRelease ::
  "session \<Rightarrow> LockMethodData \<Rightarrow> procno \<Rightarrow> LOCKTAG \<Rightarrow> LOCKMODE \<Rightarrow> lock_space \<Rightarrow> release_outcome \<times> lock_space" where
  "LockRefindAndRelease se tab p t lockmode s =
     (case LockHash s t of
        None \<Rightarrow> (Panic ERRCODE_WRONG_OBJECT_TYPE, s)
      | Some lock \<Rightarrow>
          (case ProcLockHash s (t, p) of
             None \<Rightarrow> (Panic ERRCODE_WRONG_OBJECT_TYPE, s)
           | Some proclock \<Rightarrow>
               if holdMask proclock AND LOCKBIT_ON lockmode = 0 then (Not_owned, s)
               else (case UnGrantLock tab t lockmode p s of (wakeupNeeded, s) \<Rightarrow>
                       (Released, CleanUpLock se tab t p wakeupNeeded s))))"

text \<open>
  The body of the loop of \<open>LockReleaseAll\<close> over the proclocks of the process in a partition: the
  modes of the release mask are given back one after the other, then waiters are woken once.
\<close>

definition ungrant_mask ::
  "LockMethodData \<Rightarrow> LOCKTAG \<Rightarrow> procno \<Rightarrow> LOCKMASK \<Rightarrow> lock_space \<Rightarrow> bool \<times> lock_space" where
  "ungrant_mask tab t p msk s =
     fold (\<lambda>i (wakeupNeeded, s).
        if msk AND LOCKBIT_ON i \<noteq> 0
        then (case UnGrantLock tab t i p s of (wk, s) \<Rightarrow> (wakeupNeeded \<or> wk, s)) else (wakeupNeeded, s))
      [1..<Suc (numLockModes tab)] (False, s)"

definition release_proclock ::
  "session \<Rightarrow> nat \<Rightarrow> bool \<Rightarrow> LOCKTAG \<Rightarrow> lock_space \<Rightarrow> lock_space result" where
  "release_proclock se lockmethodid allLocks t s =
     (let me = my_proc se; pl = proclock_at s (t, me); tab = GetLocksMethodTable t in
      if locktag_lockmethodid t \<noteq> lockmethodid then Inr s
      else if \<not> allLocks \<and> releaseMask pl AND NOT (holdMask pl) \<noteq> 0 then Inl ERRCODE_DATA_CORRUPTED
      else
        let pl = (if allLocks then pl\<lparr>releaseMask := holdMask pl\<rparr> else pl);
            s = set_proclock (t, me) pl s
        in if releaseMask pl = 0 \<and> holdMask pl \<noteq> 0 then Inr s
           else
             (case ungrant_mask tab t me (releaseMask pl) s of
                (wakeupNeeded, s) \<Rightarrow>
                  let s = set_proclock (t, me) ((proclock_at s (t, me))\<lparr>releaseMask := 0\<rparr>) s
                  in Inr (CleanUpLock se tab t me wakeupNeeded s)))"

section \<open>Requesting a lock\<close>

datatype setup_outcome = Setup | No_memory | Already_held

definition new_lock :: LOCK where
  "new_lock = \<lparr>grantMask = 0, waitMask = 0, procLocks = [], waitProcs = [],
     requested = replicate MAX_LOCKMODES 0, nRequested = 0,
     granted = replicate MAX_LOCKMODES 0, nGranted = 0\<rparr>"

text \<open>\<open>part_no\<close> is \<open>LockHashPartition(hashcode)\<close>, the number of the list of the process.\<close>

definition new_proclock :: "LOCKTAG \<Rightarrow> procno \<Rightarrow> nat \<Rightarrow> lock_space \<Rightarrow> lock_space" where
  "new_proclock t p part_no s =
     (let lock = lock_at s t;
          s = set_proclock (t, p) \<lparr>groupLeader = leader_of s p, holdMask = 0, releaseMask = 0\<rparr> s;
          s = set_lock t (lock\<lparr>procLocks := procLocks lock @ [p]\<rparr>) s
      in upd_proc p (\<lambda>q. q\<lparr>myProcLocks := (myProcLocks q)(part_no := myProcLocks q part_no @ [t])\<rparr>) s)"

text \<open>
  The two flags say whether the shared hash tables have room for a new lock and a new proclock
  (\<open>HASH_ENTER_NULL\<close> returns null otherwise).
\<close>

definition SetupLockInTable ::
  "bool \<times> bool \<Rightarrow> procno \<Rightarrow> LOCKTAG \<Rightarrow> nat \<Rightarrow> LOCKMODE \<Rightarrow> lock_space \<Rightarrow> setup_outcome \<times> lock_space" where
  "SetupLockInTable room p t part_no lockmode s =
     (if LockHash s t = None \<and> \<not> fst room then (No_memory, s)
      else
        let s = (if LockHash s t = None then set_lock t new_lock s else s) in
        if ProcLockHash s (t, p) = None \<and> \<not> snd room then
          (No_memory, if nRequested (lock_at s t) = 0 then s\<lparr>LockHash := (LockHash s)(t := None)\<rparr> else s)
        else
          let s = (if ProcLockHash s (t, p) = None then new_proclock t p part_no s else s);
              s = set_lock t (request_counts lockmode (lock_at s t)) s
          in if holdMask (proclock_at s (t, p)) AND LOCKBIT_ON lockmode \<noteq> 0 then (Already_held, s)
             else (Setup, s))"

section \<open>Going to sleep\<close>

definition RememberSimpleDeadLock ::
  "session \<Rightarrow> procno \<Rightarrow> LOCKMODE \<Rightarrow> LOCKTAG \<Rightarrow> procno \<Rightarrow> lock_space \<Rightarrow> lock_space" where
  "RememberSimpleDeadLock se proc1 lockmode t proc2 s =
     upd_proc (my_proc se) (\<lambda>p. p\<lparr>deadlockDetails :=
       [\<lparr>info_locktag = t, info_lockmode = lockmode, info_pid = pid (procs s proc1)\<rparr>,
        \<lparr>info_locktag = the (waitLock (procs s proc2)), info_lockmode = waitLockMode (procs s proc2),
         info_pid = pid (procs s proc2)\<rparr>]\<rparr>) s"

text \<open>Where the process goes: granted at once, or at a queue index, with or without a two-way deadlock.\<close>

datatype sleep_place = Grant_now | Insert_at nat bool

fun sleep_scan ::
  "session \<Rightarrow> LockMethodData \<Rightarrow> LOCKTAG \<Rightarrow> LOCKMODE \<Rightarrow> LOCKMASK \<Rightarrow> procno list \<Rightarrow> nat \<Rightarrow> LOCKMASK \<Rightarrow>
   lock_space \<Rightarrow> sleep_place \<times> lock_space" where
  "sleep_scan se tab t lockmode myHeldLocks [] i aheadRequests s = (Insert_at i False, s)"
| "sleep_scan se tab t lockmode myHeldLocks (q # queue) i aheadRequests s =
     (let leader = lockGroupLeader (procs s (my_proc se)) in
      if leader \<noteq> None \<and> leader = lockGroupLeader (procs s q)
      then sleep_scan se tab t lockmode myHeldLocks queue (Suc i) aheadRequests s
      else if conflictTab tab ! waitLockMode (procs s q) AND myHeldLocks \<noteq> 0 then
        (if conflictTab tab ! lockmode AND heldLocks (procs s q) \<noteq> 0 then
           (Insert_at i True, RememberSimpleDeadLock se (my_proc se) lockmode t q s)
         else if conflictTab tab ! lockmode AND aheadRequests = 0 then
           (case LockCheckConflicts se tab lockmode t (my_proc se) s of (status, s) \<Rightarrow>
              if status = STATUS_OK then (Grant_now, s) else (Insert_at i False, s))
         else (Insert_at i False, s))
      else sleep_scan se tab t lockmode myHeldLocks queue (Suc i)
             (aheadRequests OR LOCKBIT_ON (waitLockMode (procs s q))) s)"

definition group_held_locks :: "session \<Rightarrow> LOCKTAG \<Rightarrow> lock_space \<Rightarrow> LOCKMASK" where
  "group_held_locks se t s =
     (case lockGroupLeader (procs s (my_proc se)) of
        None \<Rightarrow> heldLocks (procs s (my_proc se))
      | Some leader \<Rightarrow>
          fold (\<lambda>q held. if groupLeader (proclock_at s (t, q)) = leader
                         then held OR holdMask (proclock_at s (t, q)) else held)
            (procLocks (lock_at s t)) (heldLocks (procs s (my_proc se))))"

definition sleep_enqueue :: "procno \<Rightarrow> LOCKTAG \<Rightarrow> LOCKMODE \<Rightarrow> nat \<Rightarrow> lock_space \<Rightarrow> lock_space" where
  "sleep_enqueue p t lockmode i s =
     (let lock = lock_at s t;
          lock = lock\<lparr>waitProcs := take i (waitProcs lock) @ p # drop i (waitProcs lock),
                      waitMask := waitMask lock OR LOCKBIT_ON lockmode\<rparr>
      in upd_proc p (\<lambda>q. q\<lparr>links := True, waitLock := Some t, waitProcLock := Some (t, p),
           waitLockMode := lockmode, waitStatus := STATUS_WAITING\<rparr>) (set_lock t lock s))"

text \<open>
  \<open>ProcSleep\<close> up to the point where the process releases the partition lock and blocks on its
  semaphore (\<open>STATUS_WAITING\<close>), or does not get that far.
\<close>

definition ProcSleep ::
  "session \<Rightarrow> LockMethodData \<Rightarrow> LOCKTAG \<Rightarrow> LOCKMODE \<Rightarrow> lock_space \<Rightarrow> (errcode + wait_status) \<times> lock_space" where
  "ProcSleep se tab t lockmode s =
     (let me = my_proc se;
          myHeldLocks = group_held_locks se t s
      in case (if myHeldLocks \<noteq> 0
               then sleep_scan se tab t lockmode myHeldLocks (waitProcs (lock_at s t)) 0 0 s
               else (Insert_at (length (waitProcs (lock_at s t))) False, s)) of
        (Grant_now, s) \<Rightarrow> (Inr STATUS_OK, GrantLock t me lockmode s)
      | (Insert_at i early_deadlock, s) \<Rightarrow>
          (case (if StreamTopConsumerAmI se \<or> StreamThreadAmI se then LockCheckConflicts se tab lockmode t me s
                 else (STATUS_FOUND, s)) of (status, s) \<Rightarrow>
             if status = STATUS_OK then (Inr STATUS_OK, GrantLock t me lockmode s)
             else if waitStatus (procs s me) = STATUS_WAITING then (Inl ERRCODE_DATA_CORRUPTED, s)
             else
               let s = sleep_enqueue me t lockmode i s in
               if early_deadlock then (Inr STATUS_ERROR, RemoveFromWaitQueue se me s)
               else (Inr STATUS_WAITING, s)))"

section \<open>Acquiring a lock in the shared table\<close>

datatype acquire_outcome =
    LOCKACQUIRE_OK | LOCKACQUIRE_NOT_AVAIL | LOCKACQUIRE_ALREADY_HELD | Asleep | Raised errcode

text \<open>
  A request that conflicts with a waiter joins the queue: the last conflicting waiter is noted as the
  blocker, and a waiting redistribution is noted for cancelling.
\<close>

definition note_waiter ::
  "session \<Rightarrow> LockMethodData \<Rightarrow> LOCKTAG \<Rightarrow> LOCKMODE \<Rightarrow> lock_space \<Rightarrow> wait_status \<times> lock_space" where
  "note_waiter se tab t lockmode s =
     (let me = my_proc se;
          s = (case find (\<lambda>q. conflictTab tab ! lockmode AND LOCKBIT_ON (waitLockMode (procs s q)) \<noteq> 0)
                      (rev (waitProcs (lock_at s t))) of
                 None \<Rightarrow> s
               | Some q \<Rightarrow> ProcBlockerUpdate me (the (waitProcLock (procs s q)))
                             (lockModeNames tab ! waitLockMode (procs s q)) False s)
      in if redistribution_cancelable (procs s me) \<and> lockmode = AccessExclusiveLock then
           (case find (IsOtherProcRedistribution s) (waitProcs (lock_at s t)) of
              None \<Rightarrow> (STATUS_FOUND, s)
            | Some q \<Rightarrow> (STATUS_FOUND_NEED_CANCEL,
                         upd_proc me (\<lambda>p. p\<lparr>blocking_redistribution_proc := Some q\<rparr>) s))
         else (STATUS_FOUND, s))"

definition undo_request :: "LOCKTAG \<Rightarrow> procno \<Rightarrow> LOCKMODE \<Rightarrow> lock_space \<Rightarrow> lock_space" where
  "undo_request t p lockmode s =
     (let s = (if holdMask (proclock_at s (t, p)) = 0 then delete_proclock t p s else s)
      in set_lock t (unrequest_counts lockmode (lock_at s t)) s)"

definition acquire_wait ::
  "session \<Rightarrow> LockMethodData \<Rightarrow> LOCKTAG \<Rightarrow> LOCKMODE \<Rightarrow> wait_status \<Rightarrow> lock_space \<Rightarrow> acquire_outcome \<times> lock_space" where
  "acquire_wait se tab t lockmode status s =
     (let me = my_proc se;
          s = (if status = STATUS_FOUND_NEED_CANCEL
               then upd_proc me (\<lambda>p. p\<lparr>blocking_redistribution_proc := None, redistribution_cancelable := False\<rparr>) s else s);
          s = upd_proc me (\<lambda>p. p\<lparr>heldLocks := holdMask (proclock_at s (t, me))\<rparr>) s
      in case ProcSleep se tab t lockmode s of
           (Inl e, s) \<Rightarrow> (Raised e, s)
         | (Inr status, s) \<Rightarrow>
             if status = STATUS_WAITING then (Asleep, s)
             else if status \<noteq> STATUS_OK then (Raised ERRCODE_T_R_DEADLOCK_DETECTED, s)
             else if holdMask (proclock_at s (t, me)) AND LOCKBIT_ON lockmode = 0
             then (Raised ERRCODE_LOCK_NOT_AVAILABLE, s)
             else (LOCKACQUIRE_OK, s))"

text \<open>The part of \<open>LockAcquireExtendedXC\<close> that runs under the partition lock.\<close>

definition LockAcquire_shared ::
  "session \<Rightarrow> LockMethodData \<Rightarrow> bool \<times> bool \<Rightarrow> LOCKTAG \<Rightarrow> nat \<Rightarrow> LOCKMODE \<Rightarrow> bool \<Rightarrow> bool \<Rightarrow> lock_space \<Rightarrow>
   acquire_outcome \<times> lock_space" where
  "LockAcquire_shared se tab room t part_no lockmode dontWait reportMemoryError s =
     (let me = my_proc se in
      case SetupLockInTable room me t part_no lockmode s of
        (No_memory, s) \<Rightarrow>
          (if reportMemoryError then Raised ERRCODE_OUT_OF_MEMORY else LOCKACQUIRE_NOT_AVAIL, s)
      | (Already_held, s) \<Rightarrow> (Raised ERRCODE_LOCK_NOT_AVAILABLE, s)
      | (Setup, s) \<Rightarrow>
          (case (if conflictTab tab ! lockmode AND waitMask (lock_at s t) \<noteq> 0 then note_waiter se tab t lockmode s
                 else LockCheckConflicts se tab lockmode t me s) of (status, s) \<Rightarrow>
             if status = STATUS_OK then (LOCKACQUIRE_OK, GrantLock t me lockmode s)
             else if dontWait then (LOCKACQUIRE_NOT_AVAIL, undo_request t me lockmode s)
             else acquire_wait se tab t lockmode status s))"

section \<open>Lock groups\<close>

definition BecomeLockGroupLeader :: "session \<Rightarrow> lock_space \<Rightarrow> lock_space" where
  "BecomeLockGroupLeader se s =
     (let me = my_proc se in
      if lockGroupLeader (procs s me) = Some me then s
      else upd_proc me (\<lambda>p. p\<lparr>lockGroupLeader := Some me, lockGroupMembers := me # lockGroupMembers p\<rparr>) s)"

definition BecomeLockGroupMember :: "session \<Rightarrow> procno \<Rightarrow> lock_space \<Rightarrow> lock_space" where
  "BecomeLockGroupMember se leader s =
     upd_proc leader (\<lambda>p. p\<lparr>lockGroupMembers := lockGroupMembers p @ [my_proc se]\<rparr>)
       (upd_proc (my_proc se) (\<lambda>p. p\<lparr>lockGroupLeader := Some leader\<rparr>) s)"

section \<open>Rearranging a queue\<close>

text \<open>
  A new order for the wait queue of a lock: the queue is emptied, the processes are linked in again in
  the given order, and then the waiters that can run are woken.
\<close>

definition apply_wait_order :: "session \<Rightarrow> LOCKTAG \<times> procno list \<Rightarrow> lock_space \<Rightarrow> lock_space" where
  "apply_wait_order se = (\<lambda>(t, procs) s.
     let s = set_lock t ((lock_at s t)\<lparr>waitProcs := []\<rparr>) s;
         s = fold (\<lambda>p s. upd_proc p (\<lambda>q. q\<lparr>links := True\<rparr>)
                 (set_lock t ((lock_at s t)\<lparr>waitProcs := waitProcs (lock_at s t) @ [p]\<rparr>) s)) procs s
     in ProcLockWakeup se (GetLocksMethodTable t) t None s)"

end
