(* ===== verification/Lock_Wf.thy ===== *)
theory Lock_Wf
  imports Lock_Table
begin

text \<open>
  One lock object and its counters. \<open>lock_wf\<close> relates a \<open>LOCK\<close> to the masks its holders have and the
  modes its waiters want: the counter arrays count them, and the two masks are the supports of the
  counters. The lemmas say how each change of a lock object keeps this relation. The locale
  \<open>lock_method\<close> states what the algorithms need of a lock method table.
\<close>

section \<open>Lock bits\<close>

lemma bit_LOCKBIT_ON [simp]: "bit (LOCKBIT_ON m) n \<longleftrightarrow> n = m \<and> m < 32"
  by (auto simp: LOCKBIT_ON_def bit_exp_iff)

lemma bit_LOCKBIT_OFF [simp]: "bit (LOCKBIT_OFF m) n \<longleftrightarrow> n < 32 \<and> n \<noteq> m"
  by (auto simp: LOCKBIT_OFF_def bit_exp_iff bit_not_iff)

lemma bit_mask_less: "bit (w :: LOCKMASK) n \<Longrightarrow> n < 32"
  by (drule bit_imp_le_length) simp

lemma LOCKBIT_ON_test [simp]: "w AND LOCKBIT_ON m \<noteq> 0 \<longleftrightarrow> bit w m"
  using bit_mask_less[of w m] by (auto simp: word_and_0_iff)

lemma LOCKBIT_ON_test0 [simp]: "w AND LOCKBIT_ON m = 0 \<longleftrightarrow> \<not> bit w m"
  using LOCKBIT_ON_test by blast

lemma mask_and_nonzero: "(v :: LOCKMASK) AND w \<noteq> 0 \<longleftrightarrow> (\<exists>m. bit v m \<and> bit w m)"
  using bit_mask_less by (auto simp: word_and_0_iff)

section \<open>Lock methods\<close>

definition conflicts :: "LockMethodData \<Rightarrow> LOCKMODE \<Rightarrow> LOCKMODE \<Rightarrow> bool" where
  "conflicts tab m n \<longleftrightarrow> bit (conflictTab tab ! m) n"

definition valid_mode :: "LockMethodData \<Rightarrow> LOCKMODE \<Rightarrow> bool" where
  "valid_mode tab m \<longleftrightarrow> 1 \<le> m \<and> m \<le> numLockModes tab"

locale lock_method =
  fixes tab :: LockMethodData
  assumes modes_bound: "numLockModes tab < MAX_LOCKMODES"
    and conflicts_valid: "valid_mode tab m \<Longrightarrow> conflicts tab m n \<Longrightarrow> valid_mode tab n"
    and conflicts_sym: "valid_mode tab m \<Longrightarrow> conflicts tab m n \<Longrightarrow> conflicts tab n m"
begin

lemma valid_mode_bounds: "valid_mode tab m \<Longrightarrow> m < 10 \<and> m < 32"
  using modes_bound by (simp add: valid_mode_def MAX_LOCKMODES_def)

end

lemma interval_1_8: "{1..8::nat} = {1,2,3,4,5,6,7,8}"
  by auto

lemma LockConflicts_bits:
  "m \<in> {1..8} \<Longrightarrow> bit (LockConflicts ! m) n \<longleftrightarrow> n \<in> {1..8} \<and>
     n \<in> [{}, {8}, {7,8}, {5,6,7,8}, {4,5,6,7,8}, {3,4,6,7,8}, {3,4,5,6,7,8}, {2,3,4,5,6,7,8}, {1..8}] ! m"
  unfolding interval_1_8 LockConflicts_def LOCKBIT_ON_def[symmetric]
  by (auto simp: bit_or_iff lock_mode_defs)

lemma lock_method_default: "lock_method default_lockmethod"
proof
  show "numLockModes default_lockmethod < MAX_LOCKMODES"
    by (simp add: default_lockmethod_def MAX_LOCKMODES_def lock_mode_defs)
  fix m n
  assume "valid_mode default_lockmethod m" and c: "conflicts default_lockmethod m n"
  then have m: "m \<in> {1..8}" by (simp add: valid_mode_def default_lockmethod_def lock_mode_defs)
  have c': "bit (LockConflicts ! m) n" using c by (simp add: conflicts_def default_lockmethod_def)
  then have n: "n \<in> {1..8}" using LockConflicts_bits[OF m] by blast
  then show "valid_mode default_lockmethod n"
    by (simp add: valid_mode_def default_lockmethod_def lock_mode_defs)
  have "bit (LockConflicts ! n) m"
    using c' m n unfolding LockConflicts_bits[OF m] LockConflicts_bits[OF n]
    unfolding interval_1_8 by auto
  then show "conflicts default_lockmethod n m" by (simp add: conflicts_def default_lockmethod_def)
qed

interpretation dm: lock_method default_lockmethod
  by (rule lock_method_default)

interpretation um: lock_method user_lockmethod
  using lock_method_default by (simp add: user_lockmethod_def default_lockmethod_def)

section \<open>Well-formed lock objects\<close>

definition lock_wf ::
  "LockMethodData \<Rightarrow> (procno \<Rightarrow> LOCKMASK) \<Rightarrow> (procno \<Rightarrow> LOCKMODE) \<Rightarrow> LOCKMODE option \<Rightarrow> LOCK \<Rightarrow> bool" where
  "lock_wf tab hold want pend l \<longleftrightarrow>
     distinct (procLocks l) \<and> distinct (waitProcs l) \<and> set (waitProcs l) \<subseteq> set (procLocks l) \<and>
     (\<forall>p \<in> set (procLocks l). \<forall>m. bit (hold p) m \<longrightarrow> valid_mode tab m) \<and>
     (\<forall>q \<in> set (waitProcs l). valid_mode tab (want q) \<and> \<not> bit (hold q) (want q)) \<and>
     (\<forall>m. pend = Some m \<longrightarrow> valid_mode tab m) \<and>
     length (granted l) = MAX_LOCKMODES \<and> length (requested l) = MAX_LOCKMODES \<and>
     (\<forall>m < MAX_LOCKMODES. granted l ! m = int (length (filter (\<lambda>p. bit (hold p) m) (procLocks l)))) \<and>
     (\<forall>m < MAX_LOCKMODES. requested l ! m = granted l ! m +
        int (length (filter (\<lambda>q. want q = m) (waitProcs l))) + (if pend = Some m then 1 else 0)) \<and>
     nGranted l = sum_list (granted l) \<and> nRequested l = sum_list (requested l) \<and>
     (\<forall>m. bit (grantMask l) m \<longleftrightarrow> (\<exists>p \<in> set (procLocks l). bit (hold p) m)) \<and>
     (\<forall>m. bit (waitMask l) m \<longleftrightarrow> (\<exists>q \<in> set (waitProcs l). want q = m))"

lemma lock_wfD:
  assumes "lock_wf tab hold want pend l"
  shows "distinct (procLocks l)" "distinct (waitProcs l)" "set (waitProcs l) \<subseteq> set (procLocks l)"
    and "p \<in> set (procLocks l) \<Longrightarrow> bit (hold p) m \<Longrightarrow> valid_mode tab m"
    and "q \<in> set (waitProcs l) \<Longrightarrow> valid_mode tab (want q)"
    and "q \<in> set (waitProcs l) \<Longrightarrow> \<not> bit (hold q) (want q)"
    and "pend = Some n \<Longrightarrow> valid_mode tab n"
    and "length (granted l) = MAX_LOCKMODES" "length (requested l) = MAX_LOCKMODES"
    and "m < MAX_LOCKMODES \<Longrightarrow> granted l ! m = int (length (filter (\<lambda>p. bit (hold p) m) (procLocks l)))"
    and "m < MAX_LOCKMODES \<Longrightarrow> requested l ! m = granted l ! m +
           int (length (filter (\<lambda>q. want q = m) (waitProcs l))) + (if pend = Some m then 1 else 0)"
    and "nGranted l = sum_list (granted l)" "nRequested l = sum_list (requested l)"
    and "bit (grantMask l) m \<longleftrightarrow> (\<exists>p \<in> set (procLocks l). bit (hold p) m)"
    and "bit (waitMask l) m \<longleftrightarrow> (\<exists>q \<in> set (waitProcs l). want q = m)"
  using assms unfolding lock_wf_def by (blast+)?

lemma lock_wf_cong:
  assumes "\<And>p. p \<in> set (procLocks l) \<Longrightarrow> hold p = hold' p"
    and "\<And>q. q \<in> set (waitProcs l) \<Longrightarrow> want q = want' q"
    and "lock_wf tab hold want pend l"
  shows "lock_wf tab hold' want' pend l"
proof -
  have sub: "set (waitProcs l) \<subseteq> set (procLocks l)" using lock_wfD(3)[OF assms(3)] .
  have f: "filter (\<lambda>p. bit (hold p) m) (procLocks l) = filter (\<lambda>p. bit (hold' p) m) (procLocks l)" for m
    using assms(1) by (intro filter_cong) auto
  have g: "filter (\<lambda>q. want q = m) (waitProcs l) = filter (\<lambda>q. want' q = m) (waitProcs l)" for m
    using assms(2) by (intro filter_cong) auto
  show ?thesis
    using assms(3) assms(1,2) sub unfolding lock_wf_def f g by (auto simp: subset_iff)
qed

section \<open>Counting\<close>

lemma length_filter_removeAll:
  "distinct xs \<Longrightarrow> q \<in> set xs \<Longrightarrow>
     int (length (filter P (removeAll q xs))) = int (length (filter P xs)) - (if P q then 1 else 0)"
  by (induction xs) (auto simp: removeAll_id)

lemma length_filter_upd:
  assumes "distinct xs" "p \<in> set xs" "\<And>x. x \<in> set xs \<Longrightarrow> x \<noteq> p \<Longrightarrow> f x = P x"
  shows "int (length (filter f xs)) =
     int (length (filter P xs)) - (if P p then 1 else 0) + (if f p then 1 else 0)"
  using assms
proof (induction xs)
  case (Cons x xs)
  show ?case
  proof (cases "x = p")
    case True
    then have "filter f xs = filter P xs" using Cons.prems by (intro filter_cong) auto
    then show ?thesis using True by simp
  next
    case False
    then show ?thesis using Cons by auto
  qed
qed simp

lemma sum_list_upd_int:
  "m < length xs \<Longrightarrow> sum_list (xs[m := v]) = sum_list xs - xs ! m + (v :: int)"
proof (induction xs arbitrary: m)
  case (Cons x xs)
  then show ?case by (cases m) auto
qed simp

lemma length_filter_insert:
  "length (filter P (take i xs @ p # drop i xs)) = length (filter P xs) + (if P p then 1 else 0)"
proof -
  have "filter P xs = filter P (take i xs) @ filter P (drop i xs)"
    by (metis append_take_drop_id filter_append)
  then show ?thesis by simp
qed

lemma filter_pos_iff: "0 < int (length (filter P xs)) \<longleftrightarrow> (\<exists>x \<in> set xs. P x)"
  by (auto simp: filter_empty_conv)

section \<open>Changes of a lock object\<close>

lemma grant_counts_simps [simp]:
  "procLocks (grant_counts m l) = procLocks l" "waitProcs (grant_counts m l) = waitProcs l"
  "requested (grant_counts m l) = requested l" "nRequested (grant_counts m l) = nRequested l"
  "granted (grant_counts m l) = (granted l)[m := granted l ! m + 1]"
  "nGranted (grant_counts m l) = nGranted l + 1"
  "grantMask (grant_counts m l) = grantMask l OR LOCKBIT_ON m"
  by (simp_all add: grant_counts_def Let_def)

lemma grant_counts_waitMask:
  "m < length (granted l) \<Longrightarrow> bit (waitMask (grant_counts m l)) n \<longleftrightarrow>
     bit (waitMask l) n \<and> (n = m \<longrightarrow> granted l ! m + 1 \<noteq> requested l ! m)"
  using bit_mask_less[of "waitMask l" n] by (auto simp: grant_counts_def Let_def bit_and_iff)

lemma request_counts_simps [simp]:
  "procLocks (request_counts m l) = procLocks l" "waitProcs (request_counts m l) = waitProcs l"
  "granted (request_counts m l) = granted l" "nGranted (request_counts m l) = nGranted l"
  "grantMask (request_counts m l) = grantMask l" "waitMask (request_counts m l) = waitMask l"
  "requested (request_counts m l) = (requested l)[m := requested l ! m + 1]"
  "nRequested (request_counts m l) = nRequested l + 1"
  by (simp_all add: request_counts_def)

lemma unrequest_counts_simps [simp]:
  "procLocks (unrequest_counts m l) = procLocks l" "waitProcs (unrequest_counts m l) = waitProcs l"
  "granted (unrequest_counts m l) = granted l" "nGranted (unrequest_counts m l) = nGranted l"
  "grantMask (unrequest_counts m l) = grantMask l" "waitMask (unrequest_counts m l) = waitMask l"
  "requested (unrequest_counts m l) = (requested l)[m := requested l ! m - 1]"
  "nRequested (unrequest_counts m l) = nRequested l - 1"
  by (simp_all add: unrequest_counts_def)

lemma ungrant_counts_simps [simp]:
  "procLocks (ungrant_counts m l) = procLocks l" "waitProcs (ungrant_counts m l) = waitProcs l"
  "granted (ungrant_counts m l) = (granted l)[m := granted l ! m - 1]"
  "nGranted (ungrant_counts m l) = nGranted l - 1" "waitMask (ungrant_counts m l) = waitMask l"
  "requested (ungrant_counts m l) = (requested l)[m := requested l ! m - 1]"
  "nRequested (ungrant_counts m l) = nRequested l - 1"
  by (simp_all add: ungrant_counts_def Let_def)

lemma ungrant_counts_grantMask:
  "m < length (granted l) \<Longrightarrow> bit (grantMask (ungrant_counts m l)) n \<longleftrightarrow>
     bit (grantMask l) n \<and> (n = m \<longrightarrow> granted l ! m \<noteq> 1)"
  using bit_mask_less[of "grantMask l" n] by (auto simp: ungrant_counts_def Let_def bit_and_iff)

lemmas count_simps = sum_list_upd_int MAX_LOCKMODES_def bit_or_iff bit_and_iff nth_list_update
  grant_counts_waitMask ungrant_counts_grantMask distinct_removeAll

context lock_method
begin

abbreviation lwf :: "(procno \<Rightarrow> LOCKMASK) \<Rightarrow> (procno \<Rightarrow> LOCKMODE) \<Rightarrow> LOCKMODE option \<Rightarrow> LOCK \<Rightarrow> bool" where
  "lwf \<equiv> lock_wf tab"

lemma lwf_request:
  assumes wf: "lwf hold want None l" and m: "valid_mode tab m"
  shows "lwf hold want (Some m) (request_counts m l)"
  using wf m valid_mode_bounds[OF m]
  by (auto simp: lock_wf_def request_counts_def sum_list_upd_int nth_list_update MAX_LOCKMODES_def)

lemma lwf_unrequest:
  assumes wf: "lwf hold want (Some m) l"
  shows "lwf hold want None (unrequest_counts m l)"
  using wf valid_mode_bounds[of m] lock_wfD(7)[OF wf]
  by (auto simp: lock_wf_def unrequest_counts_def sum_list_upd_int nth_list_update MAX_LOCKMODES_def)

lemma lwf_enqueue:
  assumes wf: "lwf hold want (Some m) l" and p: "p \<in> set (procLocks l)" "p \<notin> set (waitProcs l)"
    and want: "want p = m" and new: "\<not> bit (hold p) m"
  shows "lwf hold want None (l\<lparr>waitProcs := take i (waitProcs l) @ p # drop i (waitProcs l),
           waitMask := waitMask l OR LOCKBIT_ON m\<rparr>)"
proof -
  have m: "valid_mode tab m" "m < 10" "m < 32" using lock_wfD(7)[OF wf] valid_mode_bounds[of m] by auto
  define Q where "Q = take i (waitProcs l) @ p # drop i (waitProcs l)"
  have split: "take i (waitProcs l) @ drop i (waitProcs l) = waitProcs l" by simp
  have Q: "set Q = insert p (set (waitProcs l))" "distinct Q"
    "\<And>P. length (filter P Q) = length (filter P (waitProcs l)) + (if P p then 1 else 0)"
    using p(2) lock_wfD(2)[OF wf] unfolding Q_def length_filter_insert
    by (metis Un_insert_right list.simps(15) set_append split)
      (use p(2) lock_wfD(2)[OF wf] in \<open>auto dest: in_set_takeD in_set_dropD
         simp: set_take_disj_set_drop_if_distinct\<close>)
  show ?thesis
    using wf m p want new Q unfolding lock_wf_def Q_def[symmetric]
    by (auto simp: bit_or_iff)
qed

lemma lwf_drop:
  assumes wf: "lwf hold want pend l" and p: "hold p = 0" "p \<notin> set (waitProcs l)"
  shows "lwf hold want pend (l\<lparr>procLocks := removeAll p (procLocks l)\<rparr>)"
proof (cases "p \<in> set (procLocks l)")
  case True
  have c: "int (length (filter (\<lambda>x. bit (hold x) m) (removeAll p (procLocks l)))) =
      int (length (filter (\<lambda>x. bit (hold x) m) (procLocks l)))" for m
    using length_filter_removeAll[OF lock_wfD(1)[OF wf] True, of "\<lambda>x. bit (hold x) m"] p(1) by simp
  have e: "(\<exists>q \<in> set (procLocks l) - {p}. bit (hold q) m) \<longleftrightarrow> (\<exists>q \<in> set (procLocks l). bit (hold q) m)" for m
    using p(1) by (metis Diff_iff bit_0_eq bot_apply singletonD bot_bool_def)
  show ?thesis using wf p(2) unfolding lock_wf_def
    by (simp add: distinct_removeAll c e) blast
next
  case False
  then show ?thesis using wf by (simp add: removeAll_id)
qed

lemma lwf_add:
  assumes wf: "lwf hold want pend l" and p: "p \<notin> set (procLocks l)" "hold p = 0"
  shows "lwf hold want pend (l\<lparr>procLocks := procLocks l @ [p]\<rparr>)"
  using wf p by (auto simp: lock_wf_def)

lemma lwf_new: "lwf hold want None new_lock"
  by (auto simp: lock_wf_def new_lock_def MAX_LOCKMODES_def nth_Cons' eval_nat_numeral)

text \<open>How a mask change of one holder changes the number of holders of a mode.\<close>

lemma holder_count_on:
  assumes wf: "lwf hold want pend l" and p: "p \<in> set (procLocks l)" and m: "valid_mode tab m" "\<not> bit (hold p) m"
  shows "int (length (filter (\<lambda>x. bit ((hold(p := hold p OR LOCKBIT_ON m)) x) n) (procLocks l))) =
    int (length (filter (\<lambda>x. bit (hold x) n) (procLocks l))) + (if n = m then 1 else 0)"
  using valid_mode_bounds[OF m(1)] m(2)
  by (subst length_filter_upd[where P = "\<lambda>x. bit (hold x) n", OF lock_wfD(1)[OF wf] p])
    (auto simp: bit_or_iff)

lemma holder_count_off:
  assumes wf: "lwf hold want pend l" and p: "p \<in> set (procLocks l)" and m: "bit (hold p) m"
  shows "int (length (filter (\<lambda>x. bit ((hold(p := hold p AND LOCKBIT_OFF m)) x) n) (procLocks l))) =
    int (length (filter (\<lambda>x. bit (hold x) n) (procLocks l))) - (if n = m then 1 else 0)"
  using m bit_mask_less[of "hold p"]
  by (subst length_filter_upd[where P = "\<lambda>x. bit (hold x) n", OF lock_wfD(1)[OF wf] p])
    (auto simp: bit_and_iff)

lemma waiter_count_0:
  "length (filter (\<lambda>q. want q = m) xs) = 0 \<longleftrightarrow> (\<forall>q \<in> set xs. want q \<noteq> (m :: LOCKMODE))"
  by (auto simp: filter_empty_conv)

lemma lwf_grant:
  assumes wf: "lwf hold want (Some m) l"
    and p: "p \<in> set (procLocks l)" "p \<notin> set (waitProcs l)" "\<not> bit (hold p) m"
  shows "lwf (hold(p := hold p OR LOCKBIT_ON m)) want None (grant_counts m l)"
proof -
  have m: "valid_mode tab m" "m < 10" "m < 32" using lock_wfD(7)[OF wf] valid_mode_bounds[of m] by auto
  have req: "requested l ! m = granted l ! m + int (length (filter (\<lambda>q. want q = m) (waitProcs l))) + 1"
    using lock_wfD(11)[OF wf, of m] m(2) by (simp add: MAX_LOCKMODES_def)
  have w: "granted l ! m + 1 \<noteq> requested l ! m \<longleftrightarrow> (\<exists>q \<in> set (waitProcs l). want q = m)"
    unfolding req filter_pos_iff[symmetric] by auto
  define hold' where "hold' = hold(p := hold p OR LOCKBIT_ON m)"
  have h: "bit (hold' x) n \<longleftrightarrow> bit (hold x) n \<or> x = p \<and> n = m" for x n
    using m(3) by (auto simp: hold'_def bit_or_iff)
  note cnt = holder_count_on[OF wf p(1) m(1) p(3), folded hold'_def]
  note wfD = lock_wfD[OF wf]
  show ?thesis
    unfolding lock_wf_def hold'_def[symmetric]
  proof (intro conjI allI ballI impI)
    fix n
    show "bit (waitMask (grant_counts m l)) n \<longleftrightarrow> (\<exists>q \<in> set (waitProcs (grant_counts m l)). want q = n)"
      using w wfD(8,15) m(2) by (auto simp: grant_counts_waitMask MAX_LOCKMODES_def)
    show "bit (grantMask (grant_counts m l)) n \<longleftrightarrow>
        (\<exists>x \<in> set (procLocks (grant_counts m l)). bit (hold' x) n)"
      using p m(3) wfD(14)[of n] by (auto simp: bit_or_iff h)
  qed (use wfD m p in \<open>auto simp: cnt count_simps dest!: h[THEN iffD1]\<close>)
qed

lemma lwf_wake:
  assumes wf: "lwf hold want None l" and q: "q \<in> set (waitProcs l)"
  shows "lwf (hold(q := hold q OR LOCKBIT_ON (want q))) want None
    ((grant_counts (want q) l)\<lparr>waitProcs := removeAll q (waitProcs l)\<rparr>)"
proof -
  define m where "m = want q"
  have m: "valid_mode tab m" "m < 10" "m < 32" "\<not> bit (hold q) m" and p: "q \<in> set (procLocks l)"
    using lock_wfD(3)[OF wf] lock_wfD(5,6)[OF wf q] q valid_mode_bounds[of m] by (auto simp: m_def)
  have wait: "int (length (filter (\<lambda>x. want x = n) (removeAll q (waitProcs l)))) =
      int (length (filter (\<lambda>x. want x = n) (waitProcs l))) - (if n = m then 1 else 0)" for n
    using length_filter_removeAll[OF lock_wfD(2)[OF wf] q, of "\<lambda>x. want x = n"] by (auto simp: m_def)
  have req: "requested l ! m = granted l ! m + int (length (filter (\<lambda>q. want q = m) (waitProcs l)))"
    using lock_wfD(11)[OF wf, of m] m(2) by (simp add: MAX_LOCKMODES_def)
  have pos: "0 < int (length (filter (\<lambda>q. want q = m) (waitProcs l)))"
    using q by (subst filter_pos_iff) (auto simp: m_def)
  have w: "granted l ! m + 1 \<noteq> requested l ! m \<longleftrightarrow> (\<exists>x \<in> set (removeAll q (waitProcs l)). want x = m)"
    unfolding req filter_pos_iff[symmetric] wait using pos by (simp del: of_nat_0_less_iff length_greater_0_conv, linarith?)
  define hold' where "hold' = hold(q := hold q OR LOCKBIT_ON m)"
  have h: "bit (hold' x) n \<longleftrightarrow> bit (hold x) n \<or> x = q \<and> n = m" for x n
    using m(3) by (auto simp: hold'_def bit_or_iff)
  note cnt = holder_count_on[OF wf p m(1,4), folded hold'_def]
  note wfD = lock_wfD[OF wf]
  show ?thesis
    unfolding lock_wf_def m_def[symmetric] hold'_def[symmetric]
  proof (intro conjI allI ballI impI)
    fix n
    show "bit (waitMask ((grant_counts m l)\<lparr>waitProcs := removeAll q (waitProcs l)\<rparr>)) n \<longleftrightarrow>
        (\<exists>q \<in> set (waitProcs ((grant_counts m l)\<lparr>waitProcs := removeAll q (waitProcs l)\<rparr>)). want q = n)"
      using w wfD(8,15) m(2) m_def by (auto simp: grant_counts_waitMask MAX_LOCKMODES_def)
    show "bit (grantMask ((grant_counts m l)\<lparr>waitProcs := removeAll q (waitProcs l)\<rparr>)) n \<longleftrightarrow>
        (\<exists>x \<in> set (procLocks ((grant_counts m l)\<lparr>waitProcs := removeAll q (waitProcs l)\<rparr>)).
           bit (hold' x) n)"
      using p m(3) wfD(14)[of n] by (auto simp: bit_or_iff h)
  qed (use wfD m p in \<open>auto simp: cnt wait count_simps dest!: h[THEN iffD1]\<close>)
qed

lemma lwf_ungrant:
  assumes wf: "lwf hold want pend l" and p: "p \<in> set (procLocks l)" "bit (hold p) m"
  shows "lwf (hold(p := hold p AND LOCKBIT_OFF m)) want pend (ungrant_counts m l)"
proof -
  have m: "valid_mode tab m" "m < 10" "m < 32"
    using lock_wfD(4)[OF wf p] valid_mode_bounds[of m] by auto
  define hold' where "hold' = hold(p := hold p AND LOCKBIT_OFF m)"
  have h: "bit (hold' x) n \<longleftrightarrow> bit (hold x) n \<and> \<not> (x = p \<and> n = m)" for x n
    using bit_mask_less[of "hold p" n] by (auto simp: hold'_def bit_and_iff)
  note cnt = holder_count_off[OF wf p, folded hold'_def]
  have gr: "granted l ! m = int (length (filter (\<lambda>x. bit (hold x) m) (procLocks l)))"
    using lock_wfD(10)[OF wf, of m] m(2) by (simp add: MAX_LOCKMODES_def)
  have pos: "0 < int (length (filter (\<lambda>x. bit (hold x) m) (procLocks l)))"
    using p by (subst filter_pos_iff) auto
  have z: "granted l ! m \<noteq> 1 \<longleftrightarrow>
      (\<exists>x \<in> set (procLocks l). bit (hold' x) m)"
    unfolding filter_pos_iff[symmetric] cnt gr using pos by (simp del: of_nat_0_less_iff length_greater_0_conv, linarith?)
  note wfD = lock_wfD[OF wf]
  show ?thesis
    unfolding lock_wf_def hold'_def[symmetric]
  proof (intro conjI allI ballI impI)
    fix n
    show "bit (grantMask (ungrant_counts m l)) n \<longleftrightarrow>
        (\<exists>x \<in> set (procLocks (ungrant_counts m l)). bit (hold' x) n)"
    proof (cases "n = m")
      case True
      then show ?thesis
        using z p wfD(8,14) m(2) by (auto simp: ungrant_counts_grantMask MAX_LOCKMODES_def)
    next
      case False
      then show ?thesis
        using wfD(8) wfD(14)[of n] m(2) by (auto simp: ungrant_counts_grantMask MAX_LOCKMODES_def h)
    qed
  qed (use wfD m p in \<open>auto simp: cnt count_simps dest!: h[THEN iffD1]\<close>)
qed

lemma lwf_dequeue:
  assumes wf: "lwf hold want None l" and q: "q \<in> set (waitProcs l)"
  defines "l1 \<equiv> unrequest_counts (want q) (l\<lparr>waitProcs := removeAll q (waitProcs l)\<rparr>)"
  shows "lwf hold want None (if granted l1 ! want q = requested l1 ! want q
    then l1\<lparr>waitMask := waitMask l1 AND LOCKBIT_OFF (want q)\<rparr> else l1)" (is "lwf hold want None ?l")
proof -
  define m where "m = want q"
  have m: "valid_mode tab m" "m < 10" "m < 32"
    using lock_wfD(5)[OF wf q] valid_mode_bounds[of m] by (auto simp: m_def)
  have wait: "int (length (filter (\<lambda>x. want x = n) (removeAll q (waitProcs l)))) =
      int (length (filter (\<lambda>x. want x = n) (waitProcs l))) - (if n = m then 1 else 0)" for n
    using length_filter_removeAll[OF lock_wfD(2)[OF wf] q, of "\<lambda>x. want x = n"] by (auto simp: m_def)
  have req: "requested l ! m = granted l ! m + int (length (filter (\<lambda>q. want q = m) (waitProcs l)))"
    using lock_wfD(11)[OF wf, of m] m(2) by (simp add: MAX_LOCKMODES_def)
  have pos: "0 < int (length (filter (\<lambda>q. want q = m) (waitProcs l)))"
    using q by (subst filter_pos_iff) (auto simp: m_def)
  have w: "granted l ! m \<noteq> requested l ! m - 1 \<longleftrightarrow> (\<exists>x \<in> set (removeAll q (waitProcs l)). want x = m)"
    unfolding req filter_pos_iff[symmetric] wait using pos by (simp del: of_nat_0_less_iff length_greater_0_conv, linarith?)
  note wfD = lock_wfD[OF wf]
  have len: "m < length (requested l)" using wfD(9) m(2) by (simp add: MAX_LOCKMODES_def)
  have flds: "procLocks ?l = procLocks l" "waitProcs ?l = removeAll q (waitProcs l)" "granted ?l = granted l"
    "nGranted ?l = nGranted l" "grantMask ?l = grantMask l" "nRequested ?l = nRequested l - 1"
    "requested ?l = (requested l)[m := requested l ! m - 1]"
    by (simp_all add: l1_def m_def)
  have wm: "bit (waitMask ?l) n \<longleftrightarrow> bit (waitMask l) n \<and> (n = m \<longrightarrow> granted l ! m \<noteq> requested l ! m - 1)" for n
    using bit_mask_less[of "waitMask l" n] len by (auto simp: l1_def m_def bit_and_iff)
  show ?thesis
    unfolding lock_wf_def flds
  proof (intro conjI allI ballI impI)
    fix n
    show "bit (waitMask ?l) n \<longleftrightarrow> (\<exists>q \<in> set (removeAll q (waitProcs l)). want q = n)"
      using w wfD(15)[of n] wm[of n] m_def by auto
  qed (use wfD m in \<open>auto simp: wait count_simps\<close>)
qed

end

end
