(* ===== verification/Lock_State.thy ===== *)
theory Lock_State
  imports Lock_Wf
begin

text \<open>
  The lock table as a whole: what its parts owe to each other (\<open>table_wf\<close>), mutual exclusion of
  conflicting holders (\<open>excl\<close>), that no waiter could run (\<open>queue_blocked\<close>), and what the conflict test
  decides. Bookkeeping for messages (the noted blocker, a redistribution to cancel) does not touch any
  of this (\<open>same_core\<close>).
\<close>

section \<open>Views of the state\<close>

definition queue :: "lock_space \<Rightarrow> LOCKTAG \<Rightarrow> procno list" where
  "queue s t = (case LockHash s t of None \<Rightarrow> [] | Some l \<Rightarrow> waitProcs l)"

definition holds :: "lock_space \<Rightarrow> LOCKTAG \<Rightarrow> procno \<Rightarrow> LOCKMODE \<Rightarrow> bool" where
  "holds s t p m \<longleftrightarrow> (case ProcLockHash s (t, p) of None \<Rightarrow> False | Some pl \<Rightarrow> bit (holdMask pl) m)"

abbreviation hold_of :: "lock_space \<Rightarrow> LOCKTAG \<Rightarrow> procno \<Rightarrow> LOCKMASK" where
  "hold_of s t \<equiv> \<lambda>p. holdMask (proclock_at s (t, p))"

abbreviation want_of :: "lock_space \<Rightarrow> procno \<Rightarrow> LOCKMODE" where
  "want_of s \<equiv> \<lambda>p. waitLockMode (procs s p)"

text \<open>A request that is counted but neither granted nor queued yet.\<close>

type_synonym pending = "(LOCKTAG \<times> procno \<times> LOCKMODE) option"

definition pend_mode :: "pending \<Rightarrow> LOCKTAG \<Rightarrow> LOCKMODE option" where
  "pend_mode pend t = (case pend of None \<Rightarrow> None | Some (t', p, m) \<Rightarrow> if t' = t then Some m else None)"

lemma pend_mode_simps [simp]:
  "pend_mode None t = None" "pend_mode (Some (t, p, m)) t = Some m"
  "t' \<noteq> t \<Longrightarrow> pend_mode (Some (t, p, m)) t' = None"
  by (simp_all add: pend_mode_def)

definition on_queue :: "lock_space \<Rightarrow> procno \<Rightarrow> LOCKTAG \<Rightarrow> bool" where
  "on_queue s q t \<longleftrightarrow> links (procs s q) \<and> waitLock (procs s q) = Some t \<and>
     waitProcLock (procs s q) = Some (t, q) \<and> waitStatus (procs s q) = STATUS_WAITING"

definition off_queue :: "lock_space \<Rightarrow> procno \<Rightarrow> bool" where
  "off_queue s q \<longleftrightarrow> \<not> links (procs s q) \<and> waitStatus (procs s q) \<noteq> STATUS_WAITING"

definition groups_wf :: "lock_space \<Rightarrow> bool" where
  "groups_wf s \<longleftrightarrow> (\<forall>p l. lockGroupLeader (procs s p) = Some l \<longrightarrow> lockGroupLeader (procs s l) = Some l)"

definition table_wf :: "LockMethodData \<Rightarrow> pending \<Rightarrow> lock_space \<Rightarrow> bool" where
  "table_wf tab pend s \<longleftrightarrow>
     (\<forall>t l. LockHash s t = Some l \<longrightarrow> lock_wf tab (hold_of s t) (want_of s) (pend_mode pend t) l) \<and>
     (\<forall>t p. ProcLockHash s (t, p) \<noteq> None \<longleftrightarrow> (\<exists>l. LockHash s t = Some l \<and> p \<in> set (procLocks l))) \<and>
     (\<forall>t p pl. ProcLockHash s (t, p) = Some pl \<longrightarrow> groupLeader pl = leader_of s p) \<and>
     (\<forall>t. \<forall>q \<in> set (queue s t). on_queue s q t) \<and>
     (\<forall>q. (\<forall>t. q \<notin> set (queue s t)) \<longrightarrow> off_queue s q) \<and>
     groups_wf s \<and>
     (\<forall>t p m. pend = Some (t, p, m) \<longrightarrow>
        (\<exists>l. LockHash s t = Some l \<and> p \<in> set (procLocks l)) \<and> \<not> holds s t p m \<and> off_queue s p)"

lemma table_wfD:
  assumes "table_wf tab pend s"
  shows "LockHash s t = Some l \<Longrightarrow> lock_wf tab (hold_of s t) (want_of s) (pend_mode pend t) l"
    and "LockHash s t = Some l \<Longrightarrow> p \<in> set (procLocks l) \<Longrightarrow> \<exists>pl. ProcLockHash s (t, p) = Some pl"
    and "ProcLockHash s (t, p) = Some pl \<Longrightarrow> \<exists>l. LockHash s t = Some l \<and> p \<in> set (procLocks l)"
    and "ProcLockHash s (t, p) = Some pl \<Longrightarrow> groupLeader pl = leader_of s p"
    and "q \<in> set (queue s t) \<Longrightarrow> on_queue s q t"
    and "(\<And>t. q \<notin> set (queue s t)) \<Longrightarrow> off_queue s q"
    and "groups_wf s"
    and "pend = Some (t, p, m) \<Longrightarrow> \<exists>l. LockHash s t = Some l \<and> p \<in> set (procLocks l)"
    and "pend = Some (t, p, m) \<Longrightarrow> \<not> holds s t p m"
    and "pend = Some (t, p, m) \<Longrightarrow> off_queue s p"
  using assms unfolding table_wf_def by (blast+)?

lemma off_not_on: "off_queue s q \<Longrightarrow> \<not> on_queue s q t"
  by (simp add: off_queue_def on_queue_def)

lemma on_queue_unique: "on_queue s q t \<Longrightarrow> on_queue s q t' \<Longrightarrow> t = t'"
  by (simp add: on_queue_def)

lemma queue_unique:
  assumes "table_wf tab pend s" "q \<in> set (queue s t)" "q \<in> set (queue s t')"
  shows "t = t'"
  using assms table_wfD(5) on_queue_unique by blast

lemma holds_iff: "ProcLockHash s (t, p) = Some pl \<Longrightarrow> holds s t p m \<longleftrightarrow> bit (holdMask pl) m"
  by (simp add: holds_def)

lemma holdsD:
  assumes "table_wf tab pend s" "holds s t p m"
  obtains l where "LockHash s t = Some l" "p \<in> set (procLocks l)" "bit (hold_of s t p) m" "valid_mode tab m"
proof -
  obtain pl where pl: "ProcLockHash s (t, p) = Some pl" "bit (holdMask pl) m"
    using assms(2) by (auto simp: holds_def split: option.splits)
  obtain l where l: "LockHash s t = Some l" "p \<in> set (procLocks l)" using table_wfD(3)[OF assms(1) pl(1)] by blast
  have "bit (hold_of s t p) m" using pl by simp
  with lock_wfD(4)[OF table_wfD(1)[OF assms(1) l(1)] l(2)] l show ?thesis by (intro that) auto
qed

section \<open>Exclusion and blocking\<close>

text \<open>\<open>R\<close> relates processes of one transaction, which may hold conflicting locks.\<close>

definition excl :: "LockMethodData \<Rightarrow> (procno \<Rightarrow> procno \<Rightarrow> bool) \<Rightarrow> lock_space \<Rightarrow> bool" where
  "excl tab R s \<longleftrightarrow> (\<forall>t p q m n. holds s t p m \<longrightarrow> holds s t q n \<longrightarrow> p \<noteq> q \<longrightarrow> conflicts tab m n \<longrightarrow>
     leader_of s p = leader_of s q \<or> R p q)"

definition hard_blocked :: "LockMethodData \<Rightarrow> lock_space \<Rightarrow> LOCKTAG \<Rightarrow> procno \<Rightarrow> LOCKMODE \<Rightarrow> bool" where
  "hard_blocked tab s t p m \<longleftrightarrow>
     (\<exists>q n. holds s t q n \<and> leader_of s q \<noteq> leader_of s p \<and> conflicts tab m n)"

definition blocked :: "LockMethodData \<Rightarrow> lock_space \<Rightarrow> LOCKTAG \<Rightarrow> procno list \<Rightarrow> procno \<Rightarrow> bool" where
  "blocked tab s t ahead p \<longleftrightarrow>
     (\<exists>q \<in> set ahead. conflicts tab (want_of s p) (want_of s q)) \<or> hard_blocked tab s t p (want_of s p)"

definition all_blocked :: "LockMethodData \<Rightarrow> lock_space \<Rightarrow> LOCKTAG \<Rightarrow> procno list \<Rightarrow> bool" where
  "all_blocked tab s t ps \<longleftrightarrow> (\<forall>xs p ys. ps = xs @ p # ys \<longrightarrow> blocked tab s t xs p)"

lemma all_blocked_Nil [simp]: "all_blocked tab s t []"
  by (simp add: all_blocked_def)

lemma all_blocked_snoc:
  "all_blocked tab s t (ps @ [p]) \<longleftrightarrow> all_blocked tab s t ps \<and> blocked tab s t ps p"
  unfolding all_blocked_def
proof (intro iffI conjI allI impI)
  fix xs q ys
  assume *: "(\<forall>xs q ys. ps = xs @ q # ys \<longrightarrow> blocked tab s t xs q) \<and> blocked tab s t ps p"
    and eq: "ps @ [p] = xs @ q # ys"
  show "blocked tab s t xs q"
  proof (cases ys rule: rev_cases)
    case Nil
    then show ?thesis using * eq by simp
  next
    case (snoc zs z)
    then have "ps = xs @ q # zs" using eq by (metis append_Cons append_assoc butlast_snoc)
    then show ?thesis using * by blast
  qed
qed auto

lemma all_blocked_mono:
  assumes "all_blocked tab s t ps"
    and "\<And>p. p \<in> set ps \<Longrightarrow> want_of s' p = want_of s p"
    and "\<And>p. p \<in> set ps \<Longrightarrow> hard_blocked tab s t p (want_of s p) \<Longrightarrow> hard_blocked tab s' t p (want_of s p)"
  shows "all_blocked tab s' t ps"
  using assms unfolding all_blocked_def blocked_def by (metis (no_types, lifting) Un_iff in_set_conv_decomp set_append)

section \<open>Bookkeeping fields\<close>

definition core_proc :: "PGPROC \<Rightarrow> bool \<times> wait_status \<times> LOCKTAG option \<times> proclock_ptr option \<times> LOCKMODE \<times>
    procno option \<times> procno list \<times> nat \<times> (nat \<Rightarrow> LOCKTAG list)" where
  "core_proc p = (links p, waitStatus p, waitLock p, waitProcLock p, waitLockMode p, lockGroupLeader p,
     lockGroupMembers p, pid p, myProcLocks p)"

definition same_core :: "lock_space \<Rightarrow> lock_space \<Rightarrow> bool" where
  "same_core s' s \<longleftrightarrow> LockHash s' = LockHash s \<and> ProcLockHash s' = ProcLockHash s \<and>
     (\<forall>p. core_proc (procs s' p) = core_proc (procs s p))"

lemma same_core_refl [simp]: "same_core s s"
  by (simp add: same_core_def)

lemma same_core_trans: "same_core s'' s' \<Longrightarrow> same_core s' s \<Longrightarrow> same_core s'' s"
  by (simp add: same_core_def)

lemma same_coreD:
  assumes "same_core s' s"
  shows "LockHash s' = LockHash s" "ProcLockHash s' = ProcLockHash s"
    "links (procs s' p) = links (procs s p)" "waitStatus (procs s' p) = waitStatus (procs s p)"
    "waitLock (procs s' p) = waitLock (procs s p)" "waitProcLock (procs s' p) = waitProcLock (procs s p)"
    "waitLockMode (procs s' p) = waitLockMode (procs s p)"
    "lockGroupLeader (procs s' p) = lockGroupLeader (procs s p)"
    "lockGroupMembers (procs s' p) = lockGroupMembers (procs s p)"
    "pid (procs s' p) = pid (procs s p)" "myProcLocks (procs s' p) = myProcLocks (procs s p)"
  using assms by (auto simp: same_core_def core_proc_def)

lemma same_core_views:
  assumes "same_core s' s"
  shows "queue s' = queue s" "holds s' = holds s" "leader_of s' = leader_of s" "groups_wf s' = groups_wf s"
    "on_queue s' = on_queue s" "off_queue s' = off_queue s"
  using same_coreD[OF assms]
  by (auto simp: fun_eq_iff queue_def holds_def leader_of_def groups_wf_def on_queue_def off_queue_def)

lemma same_core_table_wf: "same_core s' s \<Longrightarrow> table_wf tab pend s' = table_wf tab pend s"
  unfolding table_wf_def by (simp add: same_core_views same_coreD)

lemma same_core_excl: "same_core s' s \<Longrightarrow> excl tab R s' = excl tab R s"
  by (simp add: excl_def same_core_views)

lemma same_core_blocked:
  assumes "same_core s' s"
  shows "hard_blocked tab s' = hard_blocked tab s" "blocked tab s' = blocked tab s"
    "all_blocked tab s' = all_blocked tab s"
  using same_coreD[OF assms] same_core_views[OF assms]
  by (auto simp: fun_eq_iff hard_blocked_def blocked_def all_blocked_def)

lemmas same_core_simps = same_core_views same_core_table_wf same_core_excl same_core_blocked

lemma same_core_upd_proc:
  "(core_proc (f (procs s p)) = core_proc (procs s p)) \<Longrightarrow> same_core (upd_proc p f s) s"
  by (simp add: same_core_def upd_proc_def)

lemma ProcBlockerUpdate_core [simp]: "same_core (ProcBlockerUpdate p k n b s) s"
  unfolding ProcBlockerUpdate_def by (rule same_core_upd_proc) (simp add: core_proc_def)

lemma note_conflict_core [simp]: "same_core (note_conflict se tab m t p g s) s"
  by (simp add: note_conflict_def Let_def split: option.splits)

lemma same_core_fold:
  assumes "\<And>x s. same_core (f x s) s"
  shows "same_core (fold f xs s) s"
proof (induction xs arbitrary: s)
  case (Cons x xs)
  show ?case using same_core_trans[OF Cons.IH assms] by simp
qed simp

lemma note_redistribution_core [simp]: "same_core (note_redistribution se tab m t p s) s"
  unfolding note_redistribution_def
  by (auto intro!: same_core_fold same_core_upd_proc simp: core_proc_def)

lemma RememberSimpleDeadLock_core [simp]: "same_core (RememberSimpleDeadLock se p m t q s) s"
  unfolding RememberSimpleDeadLock_def by (rule same_core_upd_proc) (simp add: core_proc_def)

lemma refresh_blocker_core [simp]: "same_core (refresh_blocker tab t pl p s) s"
  by (simp add: refresh_blocker_def Let_def split: option.splits)

lemma note_waiter_core: "note_waiter se tab t m s = (st, s') \<Longrightarrow> same_core s' s"
  unfolding note_waiter_def Let_def
  by (auto split: option.splits if_splits intro!: same_core_upd_proc simp: core_proc_def
      intro: same_core_trans[OF same_core_upd_proc])

lemma LockCheckConflicts_core: "LockCheckConflicts se tab m t p s = (st, s') \<Longrightarrow> same_core s' s"
  unfolding LockCheckConflicts_def Let_def
  by (auto split: option.splits if_splits
      intro: same_core_trans[OF note_redistribution_core note_conflict_core]
        same_core_trans[OF same_core_upd_proc same_core_trans[OF note_redistribution_core note_conflict_core]]
      simp: core_proc_def)

section \<open>What the conflict test decides\<close>

lemma count_others:
  assumes "distinct xs" "p \<in> set xs" "\<not> rel p"
  shows "int ((if H p then 1 else 0) + length (filter (\<lambda>q. rel q \<and> H q) xs)) < int (length (filter H xs)) \<longleftrightarrow>
    (\<exists>q \<in> set xs. H q \<and> q \<noteq> p \<and> \<not> rel q)"
proof -
  have "int (length (filter (\<lambda>q. (rel q \<or> q = p) \<and> H q) xs)) =
      int (length (filter (\<lambda>q. rel q \<and> H q) xs)) + (if H p then 1 else 0)"
    using length_filter_upd[OF assms(1,2), of "\<lambda>q. (rel q \<or> q = p) \<and> H q" "\<lambda>q. rel q \<and> H q"] assms(3) by auto
  moreover have "length (filter H xs) = length (filter (\<lambda>q. (rel q \<or> q = p) \<and> H q) xs) +
      length (filter (\<lambda>q. \<not> (rel q \<or> q = p) \<and> H q) xs)"
    using sum_length_filter_compl[of "\<lambda>q. rel q \<or> q = p" "filter H xs"] by (simp add: conj_commute)
  moreover have "0 < int (length (filter (\<lambda>q. \<not> (rel q \<or> q = p) \<and> H q) xs)) \<longleftrightarrow>
      (\<exists>q \<in> set xs. H q \<and> q \<noteq> p \<and> \<not> rel q)"
    unfolding filter_pos_iff by auto
  ultimately show ?thesis by (simp only: of_nat_add) (auto split: if_splits)
qed

lemma IsInSameTransaction_irrefl: "pid p = pid q \<Longrightarrow> \<not> IsInSameTransaction se p q"
  by (auto simp: IsInSameTransaction_def inNodeGroup_def list_ex_iff split: option.splits)

text \<open>Who does not count against a request of \<open>p\<close>.\<close>

definition related :: "session \<Rightarrow> lock_space \<Rightarrow> LOCKTAG \<Rightarrow> procno \<Rightarrow> bool \<Rightarrow> procno \<Rightarrow> bool" where
  "related se s t p grp q \<longleftrightarrow> (StreamTopConsumerAmI se \<or> StreamThreadAmI se \<or> has_backend_cursor_stream se \<or> grp) \<and>
     ((\<not> grp \<and> IsInSameTransaction se (procs s q) (procs s p)) \<or> (grp \<and> IsInSameLockGroup s (t, p) (t, q)))"

lemma related_irrefl [simp]: "\<not> related se s t p grp p"
  by (simp add: related_def IsInSameTransaction_irrefl IsInSameLockGroup_def)

lemma myHolding_eq:
  "myHolding se s t p grp i = (if bit (hold_of s t p) i then 1 else 0) +
     length (filter (\<lambda>q. related se s t p grp q \<and> bit (hold_of s t q) i) (procLocks (lock_at s t)))"
  by (auto simp: myHolding_def related_def)

lemma fold_bits:
  assumes "\<And>i. i \<in> set is \<Longrightarrow> i < 32"
  shows "bit (fold (\<lambda>i acc. if P i then acc OR LOCKBIT_ON i else acc) is w) n \<longleftrightarrow>
    bit w n \<or> (n \<in> set is \<and> P n)"
  using assms by (induction "is" arbitrary: w) (auto simp: bit_or_iff)

context lock_method
begin

lemma otherLocks_bit:
  assumes wf: "table_wf tab pend s" and l: "LockHash s t = Some l" "p \<in> set (procLocks l)"
  shows "bit (otherLocks se tab s t p grp) n \<longleftrightarrow> valid_mode tab n \<and>
    (\<exists>q \<in> set (procLocks l). bit (hold_of s t q) n \<and> q \<noteq> p \<and> \<not> related se s t p grp q)"
proof -
  note lw = table_wfD(1)[OF wf l(1)]
  have bound: "i < 32" if "i \<in> set [1..<Suc (numLockModes tab)]" for i
    using that modes_bound by (auto simp: MAX_LOCKMODES_def)
  have "granted l ! n > int (myHolding se s t p grp n) \<longleftrightarrow>
      (\<exists>q \<in> set (procLocks l). bit (hold_of s t q) n \<and> q \<noteq> p \<and> \<not> related se s t p grp q)"
    if "valid_mode tab n"
  proof -
    have "n < MAX_LOCKMODES" using valid_mode_bounds[OF that] by (simp add: MAX_LOCKMODES_def)
    then have "granted l ! n = int (length (filter (\<lambda>q. bit (hold_of s t q) n) (procLocks l)))"
      using lock_wfD(10)[OF lw] by blast
    then show ?thesis
      using count_others[where rel = "related se s t p grp" and H = "\<lambda>q. bit (hold_of s t q) n",
          OF lock_wfD(1)[OF lw] l(2) related_irrefl]
      by (simp add: myHolding_eq l)
  qed
  moreover have "bit (otherLocks se tab s t p grp) n \<longleftrightarrow>
      valid_mode tab n \<and> granted l ! n > int (myHolding se s t p grp n)"
    unfolding otherLocks_def by (subst fold_bits[OF bound]) (auto simp del: upt_Suc simp: valid_mode_def l)
  ultimately show ?thesis by blast
qed

text \<open>
  Outside a lock group the process tests its own request, and then nobody shares its group leader.
\<close>

lemma no_group_alone:
  assumes wf: "table_wf tab pend s" and pl: "ProcLockHash s (t, p) = Some pl"
    and ng: "groupLeader pl = me" "lockGroupLeader (procs s me) = None"
  shows "p = me" and "q \<noteq> p \<Longrightarrow> leader_of s q \<noteq> leader_of s p"
proof -
  have gw: "lockGroupLeader (procs s x) = Some y \<Longrightarrow> lockGroupLeader (procs s y) = Some y" for x y
    using table_wfD(7)[OF wf] by (auto simp: groups_wf_def)
  have lp: "leader_of s p = me" using table_wfD(4)[OF wf pl] ng(1) by simp
  show p: "p = me"
    using lp gw[of p me] ng(2) by (auto simp: leader_of_def split: option.splits)
  show "leader_of s q \<noteq> leader_of s p" if "q \<noteq> p"
    using that p lp gw[of q me] ng(2) by (auto simp: leader_of_def split: option.splits)
qed

lemma LockCheckConflicts_spec:
  assumes wf: "table_wf tab pend s" and l: "LockHash s t = Some l" "p \<in> set (procLocks l)"
    and m: "valid_mode tab m" and r: "LockCheckConflicts se tab m t p s = (st, s')"
  shows "same_core s' s"
    and "st = STATUS_OK \<Longrightarrow> holds s t q n \<Longrightarrow> q \<noteq> p \<Longrightarrow> conflicts tab m n \<Longrightarrow>
           leader_of s p = leader_of s q \<or> IsInSameTransaction se (procs s q) (procs s p)"
    and "st \<noteq> STATUS_OK \<Longrightarrow> hard_blocked tab s t p m"
proof -
  show "same_core s' s" by (rule LockCheckConflicts_core[OF r])
  note lw = table_wfD(1)[OF wf l(1)]
  obtain pl where pl: "ProcLockHash s (t, p) = Some pl" using table_wfD(2)[OF wf l] by blast
  define grp where "grp = (groupLeader pl \<noteq> my_proc se \<or> lockGroupLeader (procs s (my_proc se)) \<noteq> None)"
  have rel_grp: "related se s t p True q \<longleftrightarrow> q \<noteq> p \<and> leader_of s p = leader_of s q"
    if "q \<in> set (procLocks l)" for q
    using table_wfD(4)[OF wf] table_wfD(2)[OF wf l(1) that] pl
    by (auto simp: related_def IsInSameLockGroup_def)
  have ok_iff: "st = STATUS_OK \<longleftrightarrow>
      \<not> (\<exists>n. conflicts tab m n \<and> bit (grantMask l) n) \<or> \<not> (\<exists>n. conflicts tab m n \<and> bit (otherLocks se tab s t p grp) n)"
    using r l pl
    by (auto simp: LockCheckConflicts_def Let_def grp_def conflicts_def mask_and_nonzero[symmetric]
        split: if_splits option.splits)
  show "leader_of s p = leader_of s q \<or> IsInSameTransaction se (procs s q) (procs s p)"
    if st: "st = STATUS_OK" and h: "holds s t q n" and q: "q \<noteq> p" and c: "conflicts tab m n"
  proof -
    from h obtain l' where "LockHash s t = Some l'" "q \<in> set (procLocks l')" "bit (hold_of s t q) n" "valid_mode tab n"
      by (rule holdsD[OF wf])
    then have hq: "q \<in> set (procLocks l)" "bit (hold_of s t q) n" "valid_mode tab n" using l by auto
    have "bit (grantMask l) n" using lock_wfD(14)[OF lw] hq by blast
    then have "\<not> bit (otherLocks se tab s t p grp) n" using ok_iff st c by blast
    then have "related se s t p grp q" using otherLocks_bit[OF wf l] hq q by blast
    then show ?thesis using rel_grp[OF hq(1)] by (cases grp) (auto simp: related_def)
  qed
  show "hard_blocked tab s t p m" if bad: "st \<noteq> STATUS_OK"
  proof -
    obtain n where c: "conflicts tab m n" and o: "bit (otherLocks se tab s t p grp) n"
      using ok_iff bad by blast
    obtain q where q: "q \<in> set (procLocks l)" "bit (hold_of s t q) n" "q \<noteq> p" "\<not> related se s t p grp q"
      using o otherLocks_bit[OF wf l] by blast
    have "leader_of s q \<noteq> leader_of s p"
    proof (cases grp)
      case True
      then show ?thesis using rel_grp[OF q(1)] q(3,4) by auto
    next
      case False
      then show ?thesis using no_group_alone(2)[OF wf pl _ _ q(3)] by (simp add: grp_def)
    qed
    moreover have "holds s t q n" using table_wfD(2)[OF wf l(1) q(1)] q(2) by (auto simp: holds_def)
    ultimately show ?thesis using c by (auto simp: hard_blocked_def)
  qed
qed

end

end
