(* ===== verification/Lock_Ops.thy ===== *)
theory Lock_Ops
  imports Lock_State
begin

text \<open>
  The single state changes of the lock table and what they keep: granting, releasing, queueing,
  leaving the queue, creating and deleting a proclock. Each lemma is an instance of
  \<open>table_wf_change\<close>, which checks one lock object and the processes whose wait state changed.
\<close>

lemma state_upd_simps [simp]:
  "LockHash (set_lock t l s) = (LockHash s)(t \<mapsto> l)" "ProcLockHash (set_lock t l s) = ProcLockHash s"
  "procs (set_lock t l s) = procs s"
  "LockHash (set_proclock k pl s) = LockHash s" "ProcLockHash (set_proclock k pl s) = (ProcLockHash s)(k \<mapsto> pl)"
  "procs (set_proclock k pl s) = procs s"
  "LockHash (upd_proc p f s) = LockHash s" "ProcLockHash (upd_proc p f s) = ProcLockHash s"
  "procs (upd_proc p f s) = (procs s)(p := f (procs s p))"
  by (simp_all add: set_lock_def set_proclock_def upd_proc_def)

definition same_wait :: "lock_space \<Rightarrow> lock_space \<Rightarrow> procno \<Rightarrow> bool" where
  "same_wait s' s q \<longleftrightarrow> links (procs s' q) = links (procs s q) \<and> waitStatus (procs s' q) = waitStatus (procs s q) \<and>
     waitLock (procs s' q) = waitLock (procs s q) \<and> waitProcLock (procs s' q) = waitProcLock (procs s q) \<and>
     waitLockMode (procs s' q) = waitLockMode (procs s q)"

lemma same_wait_queue: "same_wait s' s q \<Longrightarrow> on_queue s' q = on_queue s q \<and> off_queue s' q = off_queue s q"
  by (simp add: same_wait_def on_queue_def off_queue_def fun_eq_iff)

lemma leader_of_cong:
  "(\<And>q. lockGroupLeader (procs s' q) = lockGroupLeader (procs s q)) \<Longrightarrow> leader_of s' = leader_of s"
  by (simp add: leader_of_def fun_eq_iff)

lemma table_wf_change:
  assumes wf: "table_wf tab pend s"
    and others: "\<And>t'. t' \<noteq> t \<Longrightarrow> LockHash s' t' = LockHash s t'"
      "\<And>t' p. t' \<noteq> t \<Longrightarrow> ProcLockHash s' (t', p) = ProcLockHash s (t', p)"
    and same: "\<And>q. q \<notin> X \<Longrightarrow> same_wait s' s q"
    and groups: "\<And>q. lockGroupLeader (procs s' q) = lockGroupLeader (procs s q)"
    and here: "\<And>t'. t' \<noteq> t \<Longrightarrow> pend_mode pend t' = None" "\<And>t'. t' \<noteq> t \<Longrightarrow> pend_mode pend' t' = None"
    and X: "\<And>t' x. t' \<noteq> t \<Longrightarrow> x \<in> X \<Longrightarrow> x \<notin> set (queue s t')"
    and lw: "\<And>l. LockHash s' t = Some l \<Longrightarrow> lock_wf tab (hold_of s' t) (want_of s') (pend_mode pend' t) l"
    and pl: "\<And>p. ProcLockHash s' (t, p) \<noteq> None \<longleftrightarrow> (\<exists>l. LockHash s' t = Some l \<and> p \<in> set (procLocks l))"
    and gl: "\<And>p pl. ProcLockHash s' (t, p) = Some pl \<Longrightarrow> groupLeader pl = leader_of s p"
    and que: "\<And>q. q \<notin> X \<Longrightarrow> q \<in> set (queue s' t) \<longleftrightarrow> q \<in> set (queue s t)"
      "\<And>x. x \<in> X \<Longrightarrow> if x \<in> set (queue s' t) then on_queue s' x t else off_queue s' x"
    and pp: "\<And>p m. pend' = Some (t, p, m) \<Longrightarrow>
        (\<exists>l. LockHash s' t = Some l \<and> p \<in> set (procLocks l)) \<and> \<not> holds s' t p m \<and> off_queue s' p"
  shows "table_wf tab pend' s'"
proof -
  note D = table_wfD[OF wf]
  have qo: "queue s' t' = queue s t'" if "t' \<noteq> t" for t' using others(1)[OF that] by (simp add: queue_def)
  have lead: "leader_of s' = leader_of s" using groups by (rule leader_of_cong)
  show ?thesis
    unfolding table_wf_def
  proof (intro conjI allI impI ballI)
    fix t' l assume l: "LockHash s' t' = Some l"
    show "lock_wf tab (hold_of s' t') (want_of s') (pend_mode pend' t') l"
    proof (cases "t' = t")
      case True
      then show ?thesis using lw l by simp
    next
      case False
      then have "LockHash s t' = Some l" using others(1) l by simp
      from D(1)[OF this] have wl: "lock_wf tab (hold_of s t') (want_of s) None l" using here(1)[OF False] by simp
      have nx: "q \<notin> X" if "q \<in> set (waitProcs l)" for q
        using X[OF False] that \<open>LockHash s t' = Some l\<close> by (auto simp: queue_def)
      have "lock_wf tab (hold_of s' t') (want_of s') None l"
        using wl by (rule lock_wf_cong[rotated 2]) (use same nx others(2)[OF False] in \<open>auto simp: same_wait_def\<close>)
      then show ?thesis using here(2)[OF False] by simp
    qed
  next
    fix t' p
    show "ProcLockHash s' (t', p) \<noteq> None \<longleftrightarrow> (\<exists>l. LockHash s' t' = Some l \<and> p \<in> set (procLocks l))"
    proof (cases "t' = t")
      case False
      then show ?thesis using others[OF False] D(2,3) by (metis not_None_eq option.inject)
    qed (use pl in auto)
  next
    fix t' p p' assume "ProcLockHash s' (t', p) = Some p'"
    then show "groupLeader p' = leader_of s' p"
      using gl others(2) D(4) lead by (cases "t' = t") auto
  next
    fix t' q assume q: "q \<in> set (queue s' t')"
    show "on_queue s' q t'"
    proof (cases "q \<in> X")
      case True
      then show ?thesis using q que(2)[OF True] X qo by (cases "t' = t") auto
    next
      case False
      then have "q \<in> set (queue s t')" using q qo que(1)[OF False] by (cases "t' = t") auto
      then show ?thesis using D(5) same_wait_queue[OF same[OF False]] by simp
    qed
  next
    fix q assume nq: "\<forall>t'. q \<notin> set (queue s' t')"
    show "off_queue s' q"
    proof (cases "q \<in> X")
      case True
      then show ?thesis using nq que(2)[OF True] by (auto split: if_splits)
    next
      case False
      then have "q \<notin> set (queue s t')" for t' by (metis nq qo que(1)[OF False])
      then show ?thesis using D(6) same_wait_queue[OF same[OF False]] by simp
    qed
  next
    show "groups_wf s'" using D(7) groups by (simp add: groups_wf_def)
  next
    fix t' p m assume pd: "pend' = Some (t', p, m)"
    have t': "t' = t" using here(2)[of t'] pd by (auto simp: pend_mode_def)
    show "\<exists>l. LockHash s' t' = Some l \<and> p \<in> set (procLocks l)" "\<not> holds s' t' p m" "off_queue s' p"
      using pp pd t' by auto
  qed
qed


section \<open>Granting and releasing\<close>

lemma queue_other: "LockHash s' t = LockHash s t \<Longrightarrow> queue s' t = queue s t"
  by (simp add: queue_def)

lemma GrantLock_simps [simp]:
  "LockHash (GrantLock t p m s) = (LockHash s)(t \<mapsto> grant_counts m (lock_at s t))"
  "ProcLockHash (GrantLock t p m s) =
     (ProcLockHash s)((t, p) \<mapsto> (proclock_at s (t, p))\<lparr>holdMask := hold_of s t p OR LOCKBIT_ON m\<rparr>)"
  "procs (GrantLock t p m s) = procs s"
  by (simp_all add: GrantLock_def Let_def)

lemma GrantLock_leader [simp]: "leader_of (GrantLock t p m s) = leader_of s"
  by (simp add: leader_of_def fun_eq_iff)

lemma queueE:
  assumes "q \<in> set (queue s t)"
  obtains l where "LockHash s t = Some l" "q \<in> set (waitProcs l)"
  using assms by (cases "LockHash s t") (auto simp: queue_def)

lemma hold_of_upd:
  "ProcLockHash s' = (ProcLockHash s)((t, p) \<mapsto> pl) \<Longrightarrow> hold_of s' t = (hold_of s t)(p := holdMask pl)"
  by (auto simp: fun_eq_iff)

lemma GrantLock_holds:
  assumes "ProcLockHash s (t, p) = Some pl" "m < 32"
  shows "holds (GrantLock t p m s) t' q n \<longleftrightarrow> holds s t' q n \<or> (t' = t \<and> q = p \<and> n = m)"
  using assms by (auto simp: holds_def bit_or_iff split: option.splits)

context lock_method
begin

lemma GrantLock_pending:
  assumes wf: "table_wf tab (Some (t, p, m)) s"
  shows "table_wf tab None (GrantLock t p m s)"
proof -
  note D = table_wfD[OF wf]
  obtain l where l: "LockHash s t = Some l" "p \<in> set (procLocks l)" using D(8) by blast
  obtain pl where pl: "ProcLockHash s (t, p) = Some pl" using D(2)[OF l] by blast
  have lw: "lock_wf tab (hold_of s t) (want_of s) (Some m) l" using D(1)[OF l(1)] by simp
  have off: "off_queue s p" using D(10) by blast
  have pq: "p \<notin> set (queue s t')" for t' using D(5) off off_not_on by blast
  have "\<not> bit (hold_of s t p) m" using D(9) pl by (auto simp: holds_def)
  from lwf_grant[OF lw l(2) _ this] pq[of t] l(1)
  have lw': "lock_wf tab ((hold_of s t)(p := hold_of s t p OR LOCKBIT_ON m)) (want_of s) None (grant_counts m l)"
    by (simp add: queue_def)
  have h: "hold_of (GrantLock t p m s) t = (hold_of s t)(p := hold_of s t p OR LOCKBIT_ON m)"
    using hold_of_upd[OF GrantLock_simps(2)] by simp
  show ?thesis
  proof (rule table_wf_change[OF wf, where t = t and X = "{}"])
    show "lock_wf tab (hold_of (GrantLock t p m s) t) (want_of (GrantLock t p m s)) (pend_mode None t) l'"
      if "LockHash (GrantLock t p m s) t = Some l'" for l'
      unfolding h using that l lw' by simp
  qed (use l pl D(2,3,4)[of t] in \<open>auto simp: same_wait_def queue_def split: if_splits\<close>)
qed

lemma UnGrantLock_wf:
  assumes wf: "table_wf tab None s" and h: "holds s t p m" and r: "UnGrantLock tab t m p s = (wk, s')"
  shows "table_wf tab None s'" "queue s' = queue s" "leader_of s' = leader_of s" "procs s' = procs s"
    and "holds s' t' q n \<longleftrightarrow> holds s t' q n \<and> \<not> (t' = t \<and> q = p \<and> n = m)"
    and "wk \<longleftrightarrow> (\<exists>q \<in> set (queue s t). conflicts tab m (want_of s q))"
    and "t' \<noteq> t \<Longrightarrow> LockHash s' t' = LockHash s t'"
    and "\<exists>l. LockHash s' t = Some l \<and> p \<in> set (procLocks l)"
proof -
  note D = table_wfD[OF wf]
  from h obtain l where l: "LockHash s t = Some l" "p \<in> set (procLocks l)" "bit (hold_of s t p) m"
    by (rule holdsD[OF wf])
  obtain pl where pl: "ProcLockHash s (t, p) = Some pl" using D(2)[OF l(1,2)] by blast
  have lw: "lock_wf tab (hold_of s t) (want_of s) None l" using D(1)[OF l(1)] by simp
  have s': "LockHash s' = (LockHash s)(t \<mapsto> ungrant_counts m l)"
    "ProcLockHash s' = (ProcLockHash s)((t, p) \<mapsto> pl\<lparr>holdMask := hold_of s t p AND LOCKBIT_OFF m\<rparr>)"
    "procs s' = procs s"
    using r l pl by (auto simp: UnGrantLock_def Let_def)
  show "procs s' = procs s" by fact
  have lw': "lock_wf tab ((hold_of s t)(p := hold_of s t p AND LOCKBIT_OFF m)) (want_of s) None (ungrant_counts m l)"
    by (rule lwf_ungrant[OF lw l(2,3)])
  have h': "hold_of s' t = (hold_of s t)(p := hold_of s t p AND LOCKBIT_OFF m)"
    using hold_of_upd[OF s'(2)] by simp
  show "table_wf tab None s'"
  proof (rule table_wf_change[OF wf, where t = t and X = "{}"])
    show "lock_wf tab (hold_of s' t) (want_of s') (pend_mode None t) l'" if "LockHash s' t = Some l'" for l'
      unfolding h' using that l lw' s' by simp
  qed (use l pl s' D(2,3,4)[of t] in \<open>auto simp: same_wait_def queue_def split: if_splits\<close>)
  show "queue s' = queue s" using s' l by (auto simp: queue_def fun_eq_iff)
  show "leader_of s' = leader_of s" using s' by (simp add: leader_of_def fun_eq_iff)
  show "holds s' t' q n \<longleftrightarrow> holds s t' q n \<and> \<not> (t' = t \<and> q = p \<and> n = m)"
    using s' pl bit_mask_less[of "hold_of s t p" n] by (auto simp: holds_def bit_and_iff)
  show "wk \<longleftrightarrow> (\<exists>q \<in> set (queue s t). conflicts tab m (want_of s q))"
    using r l lock_wfD(15)[OF lw]
    by (auto simp: UnGrantLock_def Let_def mask_and_nonzero conflicts_def queue_def)
  show "t' \<noteq> t \<Longrightarrow> LockHash s' t' = LockHash s t'" using s' by simp
  show "\<exists>l. LockHash s' t = Some l \<and> p \<in> set (procLocks l)" using s' l by simp
qed

section \<open>Waking a waiter\<close>

lemma wake_views:
  assumes wf: "table_wf tab None s" and q: "q \<in> set (queue s t)"
  defines "s' \<equiv> ProcWakeup q STATUS_OK (GrantLock t q (want_of s q) s)"
  shows "LockHash s' = (LockHash s)(t \<mapsto> (grant_counts (want_of s q) (lock_at s t))
           \<lparr>waitProcs := removeAll q (waitProcs (lock_at s t))\<rparr>)"
    and "ProcLockHash s' = (ProcLockHash s)((t, q) \<mapsto> (proclock_at s (t, q))
           \<lparr>holdMask := hold_of s t q OR LOCKBIT_ON (want_of s q)\<rparr>)"
    and "procs s' = (procs s)(q := (procs s q)\<lparr>links := False, waitLock := None, waitProcLock := None,
           waitStatus := STATUS_OK\<rparr>)"
  using table_wfD(5)[OF wf q] by (auto simp: s'_def ProcWakeup_def on_queue_def Let_def)

lemma wake_wf:
  assumes wf: "table_wf tab None s" and q: "q \<in> set (queue s t)"
  defines "s' \<equiv> ProcWakeup q STATUS_OK (GrantLock t q (want_of s q) s)"
  shows "table_wf tab None s'" "queue s' = (queue s)(t := removeAll q (queue s t))"
    "leader_of s' = leader_of s" "want_of s' = want_of s"
    and "holds s' t' p n \<longleftrightarrow> holds s t' p n \<or> (t' = t \<and> p = q \<and> n = want_of s q)"
proof -
  note D = table_wfD[OF wf]
  note s' = wake_views[OF wf q, folded s'_def]
  from q obtain l where l: "LockHash s t = Some l" and ql: "q \<in> set (waitProcs l)" by (rule queueE)
  have lw: "lock_wf tab (hold_of s t) (want_of s) None l" using D(1)[OF l(1)] by simp
  have qp: "q \<in> set (procLocks l)" using lock_wfD(3)[OF lw] ql by blast
  obtain pl where pl: "ProcLockHash s (t, q) = Some pl" using D(2)[OF l qp] by blast
  have w: "want_of s' = want_of s" using s'(3) by (auto simp: fun_eq_iff)
  show "want_of s' = want_of s" by fact
  have h: "hold_of s' t = (hold_of s t)(q := hold_of s t q OR LOCKBIT_ON (want_of s q))"
    using hold_of_upd[OF s'(2)] by simp
  have lw': "lock_wf tab (hold_of s' t) (want_of s') None
      ((grant_counts (want_of s q) l)\<lparr>waitProcs := removeAll q (waitProcs l)\<rparr>)"
    unfolding w h by (rule lwf_wake[OF lw ql])
  have qs: "queue s' t = removeAll q (queue s t)" using s'(1) l by (simp add: queue_def)
  have nq: "q \<notin> set (queue s t')" if "t' \<noteq> t" for t' using queue_unique[OF wf q] that by blast
  show "table_wf tab None s'"
  proof (rule table_wf_change[OF wf, where t = t and X = "{q}"])
    show "lock_wf tab (hold_of s' t) (want_of s') (pend_mode None t) l'" if "LockHash s' t = Some l'" for l'
      using that s'(1) lw' l by auto
  qed (use s' l pl qp qs nq D(2,3,4)[of t] in
      \<open>auto simp: same_wait_def off_queue_def split: if_splits\<close>)
  show "queue s' = (queue s)(t := removeAll q (queue s t))" using s'(1) l by (auto simp: queue_def fun_eq_iff)
  show "leader_of s' = leader_of s" using s'(3) by (auto simp: leader_of_def fun_eq_iff)
  have "want_of s q < 32" using valid_mode_bounds lock_wfD(5)[OF lw ql] by blast
  then show "holds s' t' p n \<longleftrightarrow> holds s t' p n \<or> (t' = t \<and> p = q \<and> n = want_of s q)"
    using s'(2) pl by (auto simp: holds_def bit_or_iff)
qed

section \<open>Leaving and joining a queue\<close>

lemma leave_queue_wf:
  assumes wf: "table_wf tab None s" and q: "q \<in> set (queue s t)"
  shows "table_wf tab None (leave_queue q s)" "queue (leave_queue q s) = (queue s)(t := removeAll q (queue s t))"
    "leader_of (leave_queue q s) = leader_of s" "want_of (leave_queue q s) = want_of s"
    "ProcLockHash (leave_queue q s) = ProcLockHash s" "off_queue (leave_queue q s) q"
    and "t' \<noteq> t \<Longrightarrow> LockHash (leave_queue q s) t' = LockHash s t'"
    and "\<exists>l. LockHash (leave_queue q s) t = Some l \<and> q \<in> set (procLocks l)"
proof -
  note D = table_wfD[OF wf]
  define m where "m = want_of s q"
  from q obtain l where l: "LockHash s t = Some l" and ql: "q \<in> set (waitProcs l)" by (rule queueE)
  have lw: "lock_wf tab (hold_of s t) (want_of s) None l" using D(1)[OF l(1)] by simp
  have qp: "q \<in> set (procLocks l)" using lock_wfD(3)[OF lw] ql by blast
  define l1 where "l1 = unrequest_counts m (l\<lparr>waitProcs := removeAll q (waitProcs l)\<rparr>)"
  define l2 where "l2 = (if granted l1 ! m = requested l1 ! m
    then l1\<lparr>waitMask := waitMask l1 AND LOCKBIT_OFF m\<rparr> else l1)"
  define s' where "s' = leave_queue q s"
  have wl: "waitLock (procs s q) = Some t" using D(5)[OF q] by (simp add: on_queue_def)
  have s': "LockHash s' = (LockHash s)(t \<mapsto> l2)" "ProcLockHash s' = ProcLockHash s"
    "procs s' = (procs s)(q := (procs s q)\<lparr>links := False, waitLock := None, waitProcLock := None,
           waitStatus := STATUS_ERROR\<rparr>)"
    using wl l by (simp_all add: s'_def leave_queue_def Let_def l1_def l2_def m_def)
  have l2: "procLocks l2 = procLocks l" "waitProcs l2 = removeAll q (waitProcs l)"
    by (simp_all add: l2_def l1_def)
  have w: "want_of s' = want_of s" using s'(3) by (auto simp: fun_eq_iff)
  have h: "hold_of s' t = hold_of s t" using s'(2) by simp
  have lw': "lock_wf tab (hold_of s' t) (want_of s') None l2"
    unfolding w h l2_def l1_def m_def by (rule lwf_dequeue[OF lw ql])
  have qs: "queue s' = (queue s)(t := removeAll q (queue s t))" using s'(1) l l2 by (auto simp: queue_def fun_eq_iff)
  have nq: "q \<notin> set (queue s t')" if "t' \<noteq> t" for t' using queue_unique[OF wf q] that by blast
  have "table_wf tab None s'"
  proof (rule table_wf_change[OF wf, where t = t and X = "{q}"])
    show "lock_wf tab (hold_of s' t) (want_of s') (pend_mode None t) l'" if "LockHash s' t = Some l'" for l'
      using that s'(1) lw' by auto
  qed (use s' l l2 qs nq D(2,3,4)[of t] in \<open>auto simp: same_wait_def off_queue_def split: if_splits\<close>)
  moreover have "leader_of s' = leader_of s" using s'(3) by (auto simp: leader_of_def fun_eq_iff)
  moreover have "off_queue s' q" using s'(3) by (simp add: off_queue_def)
  ultimately show "table_wf tab None (leave_queue q s)"
    "queue (leave_queue q s) = (queue s)(t := removeAll q (queue s t))"
    "leader_of (leave_queue q s) = leader_of s" "want_of (leave_queue q s) = want_of s"
    "ProcLockHash (leave_queue q s) = ProcLockHash s" "off_queue (leave_queue q s) q"
    "t' \<noteq> t \<Longrightarrow> LockHash (leave_queue q s) t' = LockHash s t'"
    "\<exists>l. LockHash (leave_queue q s) t = Some l \<and> q \<in> set (procLocks l)"
    using qs w s' l2 qp unfolding s'_def by auto
qed

lemma sleep_enqueue_wf:
  assumes wf: "table_wf tab (Some (t, p, m)) s"
  shows "table_wf tab None (sleep_enqueue p t m i s)"
    "queue (sleep_enqueue p t m i s) = (queue s)(t := take i (queue s t) @ p # drop i (queue s t))"
    "leader_of (sleep_enqueue p t m i s) = leader_of s" "want_of (sleep_enqueue p t m i s) = (want_of s)(p := m)"
    "ProcLockHash (sleep_enqueue p t m i s) = ProcLockHash s"
    and "t' \<noteq> t \<Longrightarrow> LockHash (sleep_enqueue p t m i s) t' = LockHash s t'"
    and "LockHash s t = Some l \<Longrightarrow> \<exists>l'. LockHash (sleep_enqueue p t m i s) t = Some l' \<and> procLocks l' = procLocks l"
proof -
  note D = table_wfD[OF wf]
  obtain l0 where l: "LockHash s t = Some l0" "p \<in> set (procLocks l0)" using D(8) by blast
  obtain pl where pl: "ProcLockHash s (t, p) = Some pl" using D(2)[OF l] by blast
  have lw: "lock_wf tab (hold_of s t) (want_of s) (Some m) l0" using D(1)[OF l(1)] by simp
  have off: "off_queue s p" using D(10) by blast
  have pq: "p \<notin> set (queue s t')" for t' using D(5) off off_not_on by blast
  have nh: "\<not> bit (hold_of s t p) m" using D(9) pl by (auto simp: holds_def)
  define s' where "s' = sleep_enqueue p t m i s"
  define l' where "l' = l0\<lparr>waitProcs := take i (waitProcs l0) @ p # drop i (waitProcs l0),
                      waitMask := waitMask l0 OR LOCKBIT_ON m\<rparr>"
  have s': "LockHash s' = (LockHash s)(t \<mapsto> l')" "ProcLockHash s' = ProcLockHash s"
    "procs s' = (procs s)(p := (procs s p)\<lparr>links := True, waitLock := Some t, waitProcLock := Some (t, p),
           waitLockMode := m, waitStatus := STATUS_WAITING\<rparr>)"
    using l by (simp_all add: s'_def sleep_enqueue_def Let_def l'_def)
  have w: "want_of s' = (want_of s)(p := m)" using s'(3) by (auto simp: fun_eq_iff)
  have h: "hold_of s' t = hold_of s t" using s'(2) by simp
  have pl0: "p \<notin> set (waitProcs l0)" using pq[of t] l by (simp add: queue_def)
  have "lock_wf tab (hold_of s t) ((want_of s)(p := m)) (Some m) l0"
    using lw by (rule lock_wf_cong[rotated 2]) (use pl0 in auto)
  then have lw': "lock_wf tab (hold_of s' t) (want_of s') None l'"
    unfolding w h l'_def by (rule lwf_enqueue) (use l pl0 nh in auto)
  have qs: "queue s' = (queue s)(t := take i (queue s t) @ p # drop i (queue s t))"
    using s'(1) l by (auto simp: queue_def fun_eq_iff l'_def)
  have set: "set (take i xs @ p # drop i xs) = insert p (set xs)" for xs :: "procno list"
    by (metis (no_types, lifting) Un_insert_right append_take_drop_id list.simps(15) set_append)
  have "table_wf tab None s'"
  proof (rule table_wf_change[OF wf, where t = t and X = "{p}"])
    show "lock_wf tab (hold_of s' t) (want_of s') (pend_mode None t) k" if "LockHash s' t = Some k" for k
      using that s'(1) lw' by auto
    show "q \<in> set (queue s' t) \<longleftrightarrow> q \<in> set (queue s t)" if "q \<notin> {p}" for q
      using that unfolding qs fun_upd_same set by simp
    show "if x \<in> set (queue s' t) then on_queue s' x t else off_queue s' x" if "x \<in> {p}" for x
      using that unfolding qs fun_upd_same set by (simp add: on_queue_def s'(3))
  qed (use s' l pq D(2,3,4)[of t] in \<open>auto simp: same_wait_def l'_def split: if_splits\<close>)
  moreover have "leader_of s' = leader_of s" using s'(3) by (auto simp: leader_of_def fun_eq_iff)
  ultimately show "table_wf tab None (sleep_enqueue p t m i s)"
    "queue (sleep_enqueue p t m i s) = (queue s)(t := take i (queue s t) @ p # drop i (queue s t))"
    "leader_of (sleep_enqueue p t m i s) = leader_of s" "want_of (sleep_enqueue p t m i s) = (want_of s)(p := m)"
    "ProcLockHash (sleep_enqueue p t m i s) = ProcLockHash s"
    "t' \<noteq> t \<Longrightarrow> LockHash (sleep_enqueue p t m i s) t' = LockHash s t'"
    "LockHash s t = Some l \<Longrightarrow> \<exists>l'. LockHash (sleep_enqueue p t m i s) t = Some l' \<and> procLocks l' = procLocks l"
    using qs w s' l unfolding s'_def by (auto simp: l'_def)
qed

section \<open>Creating and deleting entries\<close>

lemma delete_proclock_simps [simp]:
  "LockHash (delete_proclock t p s) =
     (LockHash s)(t \<mapsto> (lock_at s t)\<lparr>procLocks := removeAll p (procLocks (lock_at s t))\<rparr>)"
  "ProcLockHash (delete_proclock t p s) = (ProcLockHash s)((t, p) := None)"
  "procs (delete_proclock t p s) = (procs s)(p := (procs s p)
     \<lparr>myProcLocks := \<lambda>i. removeAll t (myProcLocks (procs s p) i)\<rparr>)"
  by (simp_all add: delete_proclock_def Let_def)

lemma delete_proclock_wf:
  assumes wf: "table_wf tab None s" and l: "LockHash s t = Some l"
    and pl: "ProcLockHash s (t, p) = Some pl" "holdMask pl = 0" and nq: "p \<notin> set (queue s t)"
  shows "table_wf tab None (delete_proclock t p s)" "queue (delete_proclock t p s) = queue s"
    "leader_of (delete_proclock t p s) = leader_of s" "want_of (delete_proclock t p s) = want_of s"
    "holds (delete_proclock t p s) = holds s"
proof -
  note D = table_wfD[OF wf]
  define s' where "s' = delete_proclock t p s"
  define l' where "l' = l\<lparr>procLocks := removeAll p (procLocks l)\<rparr>"
  have s': "LockHash s' = (LockHash s)(t \<mapsto> l')" "ProcLockHash s' = (ProcLockHash s)((t, p) := None)"
    using l by (simp_all add: s'_def l'_def)
  have w: "want_of s' = want_of s" by (simp add: s'_def fun_eq_iff)
  have "lock_wf tab (hold_of s t) (want_of s) None l'"
    unfolding l'_def using D(1)[OF l] by (intro lwf_drop) (use pl nq l in \<open>auto simp: queue_def\<close>)
  then have lw': "lock_wf tab (hold_of s' t) (want_of s') None l'"
    unfolding w by (rule lock_wf_cong[rotated 2]) (use s'(2) in \<open>auto simp: l'_def\<close>)
  have qs: "queue s' = queue s" using s'(1) l by (auto simp: queue_def fun_eq_iff l'_def)
  have "table_wf tab None s'"
  proof (rule table_wf_change[OF wf, where t = t and X = "{}"])
    show "lock_wf tab (hold_of s' t) (want_of s') (pend_mode None t) k" if "LockHash s' t = Some k" for k
      using that s'(1) lw' by auto
    show "ProcLockHash s' (t, q) \<noteq> None \<longleftrightarrow> (\<exists>l. LockHash s' t = Some l \<and> q \<in> set (procLocks l))" for q
      using s' l D(2,3)[of t] by (auto simp: l'_def)
    show "same_wait s' s q" "lockGroupLeader (procs s' q) = lockGroupLeader (procs s q)" for q
      by (simp_all add: same_wait_def s'_def)
  qed (use s' qs D(4)[of t] in \<open>auto split: if_splits\<close>)
  then show "table_wf tab None (delete_proclock t p s)" "queue (delete_proclock t p s) = queue s"
    "leader_of (delete_proclock t p s) = leader_of s" "want_of (delete_proclock t p s) = want_of s"
    "holds (delete_proclock t p s) = holds s"
    using qs w pl unfolding s'_def by (auto simp: leader_of_def holds_def fun_eq_iff)
qed

lemma drop_lock_wf:
  assumes wf: "table_wf tab None s" and l: "LockHash s t = Some l" "procLocks l = []"
  defines "s' \<equiv> s\<lparr>LockHash := (LockHash s)(t := None)\<rparr>"
  shows "table_wf tab None s'" "queue s' = queue s" "leader_of s' = leader_of s" "holds s' = holds s"
proof -
  note D = table_wfD[OF wf]
  have "set (waitProcs l) = {}" using lock_wfD(3)[OF D(1)[OF l(1)]] l(2) by simp
  then have q: "queue s t = []" using l by (simp add: queue_def)
  have none: "ProcLockHash s (t, p) = None" for p using D(3)[of t p] l by (cases "ProcLockHash s (t, p)") auto
  show qs: "queue s' = queue s" using q by (auto simp: s'_def queue_def fun_eq_iff)
  show "table_wf tab None s'"
    by (rule table_wf_change[OF wf, where t = t and X = "{}"])
      (use qs q l none in \<open>auto simp: s'_def same_wait_def\<close>)
  show "leader_of s' = leader_of s" "holds s' = holds s"
    by (auto simp: s'_def leader_of_def holds_def fun_eq_iff)
qed

lemma new_lock_wf:
  assumes wf: "table_wf tab None s" and l: "LockHash s t = None"
  shows "table_wf tab None (set_lock t new_lock s)" "queue (set_lock t new_lock s) = queue s"
    "leader_of (set_lock t new_lock s) = leader_of s" "holds (set_lock t new_lock s) = holds s"
proof -
  note D = table_wfD[OF wf]
  have none: "ProcLockHash s (t, p) = None" for p using D(3)[of t p] l by (cases "ProcLockHash s (t, p)") auto
  show qs: "queue (set_lock t new_lock s) = queue s" using l by (auto simp: queue_def fun_eq_iff new_lock_def)
  show "table_wf tab None (set_lock t new_lock s)"
    by (rule table_wf_change[OF wf, where t = t and X = "{}"])
      (use qs l none lwf_new in \<open>auto simp: same_wait_def new_lock_def\<close>)
  show "leader_of (set_lock t new_lock s) = leader_of s" "holds (set_lock t new_lock s) = holds s"
    by (auto simp: leader_of_def holds_def fun_eq_iff)
qed

lemma new_proclock_wf:
  fixes i :: nat
  assumes wf: "table_wf tab None s" and l: "LockHash s t = Some l" and pl: "ProcLockHash s (t, p) = None"
  defines "s' \<equiv> new_proclock t p i s"
  shows "table_wf tab None s'" "queue s' = queue s" "leader_of s' = leader_of s" "holds s' = holds s"
    "want_of s' = want_of s" "off_queue s' = off_queue s"
    "LockHash s' = (LockHash s)(t \<mapsto> l\<lparr>procLocks := procLocks l @ [p]\<rparr>)"
    "ProcLockHash s' = (ProcLockHash s)((t, p) \<mapsto> \<lparr>groupLeader = leader_of s p, holdMask = 0, releaseMask = 0\<rparr>)"
proof -
  note D = table_wfD[OF wf]
  define l' where "l' = l\<lparr>procLocks := procLocks l @ [p]\<rparr>"
  have s': "LockHash s' = (LockHash s)(t \<mapsto> l')"
    "ProcLockHash s' = (ProcLockHash s)((t, p) \<mapsto> \<lparr>groupLeader = leader_of s p, holdMask = 0, releaseMask = 0\<rparr>)"
    using l by (simp_all add: s'_def new_proclock_def Let_def l'_def)
  show "LockHash s' = (LockHash s)(t \<mapsto> l\<lparr>procLocks := procLocks l @ [p]\<rparr>)" using s'(1) by (simp add: l'_def)
  show "ProcLockHash s' = (ProcLockHash s)((t, p) \<mapsto> \<lparr>groupLeader = leader_of s p, holdMask = 0, releaseMask = 0\<rparr>)"
    by fact
  show w: "want_of s' = want_of s" by (simp add: s'_def new_proclock_def Let_def fun_eq_iff)
  show "off_queue s' = off_queue s" by (auto simp: s'_def new_proclock_def Let_def fun_eq_iff off_queue_def)
  have np: "p \<notin> set (procLocks l)" using D(2)[OF l, of p] pl by auto
  have h: "hold_of s' t = (hold_of s t)(p := 0)" using s'(2) by (auto simp: fun_eq_iff)
  have "lock_wf tab (hold_of s t) (want_of s) None l" using D(1)[OF l] by simp
  then have "lock_wf tab ((hold_of s t)(p := 0)) (want_of s) None l"
    by (rule lock_wf_cong[rotated 2]) (use np in auto)
  then have lw': "lock_wf tab (hold_of s' t) (want_of s') None l'"
    unfolding w h l'_def by (rule lwf_add) (use np in auto)
  show qs: "queue s' = queue s" using s'(1) l by (auto simp: queue_def fun_eq_iff l'_def)
  show "table_wf tab None s'"
  proof (rule table_wf_change[OF wf, where t = t and X = "{}"])
    show "lock_wf tab (hold_of s' t) (want_of s') (pend_mode None t) k" if "LockHash s' t = Some k" for k
      using that s'(1) lw' by auto
    show "ProcLockHash s' (t, q) \<noteq> None \<longleftrightarrow> (\<exists>l. LockHash s' t = Some l \<and> q \<in> set (procLocks l))" for q
      using s' l D(2,3)[of t] by (auto simp: l'_def)
    show "same_wait s' s q" "lockGroupLeader (procs s' q) = lockGroupLeader (procs s q)" for q
      by (simp_all add: same_wait_def s'_def new_proclock_def Let_def)
  qed (use s' qs D(4)[of t] in \<open>auto split: if_splits\<close>)
  show "leader_of s' = leader_of s"
    by (auto simp: s'_def new_proclock_def Let_def leader_of_def fun_eq_iff)
  show "holds s' = holds s" using s'(2) pl by (auto simp: holds_def fun_eq_iff)
qed

lemma request_wf:
  assumes wf: "table_wf tab None s" and l: "LockHash s t = Some l" "p \<in> set (procLocks l)"
    and m: "valid_mode tab m" and nh: "\<not> holds s t p m" and off: "off_queue s p"
  shows "table_wf tab (Some (t, p, m)) (set_lock t (request_counts m l) s)"
proof (rule table_wf_change[OF wf, where t = t and X = "{}"])
  show "lock_wf tab (hold_of (set_lock t (request_counts m l) s) t) (want_of (set_lock t (request_counts m l) s))
      (pend_mode (Some (t, p, m)) t) k" if "LockHash (set_lock t (request_counts m l) s) t = Some k" for k
    using that lwf_request[OF _ m] table_wfD(1)[OF wf l(1)] by auto
qed (use l nh off table_wfD(2,3,4)[OF wf, of t] in
    \<open>auto simp: same_wait_def queue_def off_queue_def holds_def\<close>)

lemma unrequest_wf:
  assumes wf: "table_wf tab (Some (t, p, m)) s" and l: "LockHash s t = Some l"
  shows "table_wf tab None (set_lock t (unrequest_counts m l) s)"
proof (rule table_wf_change[OF wf, where t = t and X = "{}"])
  show "lock_wf tab (hold_of (set_lock t (unrequest_counts m l) s) t) (want_of (set_lock t (unrequest_counts m l) s))
      (pend_mode None t) k" if "LockHash (set_lock t (unrequest_counts m l) s) t = Some k" for k
    using that lwf_unrequest table_wfD(1)[OF wf l(1)] by auto
qed (use l table_wfD(2,3,4)[OF wf, of t] in \<open>auto simp: same_wait_def queue_def\<close>)

lemma set_lock_views:
  assumes "LockHash s t = Some l" "waitProcs l' = waitProcs l"
  shows "queue (set_lock t l' s) = queue s" "leader_of (set_lock t l' s) = leader_of s"
    "holds (set_lock t l' s) = holds s" "want_of (set_lock t l' s) = want_of s"
  using assms by (auto simp: queue_def leader_of_def holds_def fun_eq_iff)

end

end
