(* ===== verification/Lock_Wakeup.thy ===== *)
theory Lock_Wakeup
  imports Lock_Ops
begin

text \<open>
  Waking up, cleaning up and releasing. \<open>ProcLockWakeup\<close> scans a queue once; it is shown to keep the
  table consistent and conflicting holders apart, and to leave only waiters that are blocked. The
  operations built on it are shown to establish the invariant \<open>lock_inv\<close> again.
\<close>

section \<open>The invariant\<close>

text \<open>
  Every proclock is in use (it holds a lock or its process waits), and every lock has a proclock. The
  entry \<open>k\<close> is exempt while an operation works on it.
\<close>

definition tidy :: "proclock_ptr option \<Rightarrow> lock_space \<Rightarrow> bool" where
  "tidy k s \<longleftrightarrow> (\<forall>t l. LockHash s t = Some l \<longrightarrow>
     ((\<forall>p. k \<noteq> Some (t, p)) \<longrightarrow> procLocks l \<noteq> []) \<and>
     (\<forall>p \<in> set (procLocks l). k \<noteq> Some (t, p) \<longrightarrow> hold_of s t p \<noteq> 0 \<or> p \<in> set (waitProcs l)))"

text \<open>Processes of one stream query are related by \<open>R\<close>.\<close>

definition streams_in :: "(procno \<Rightarrow> procno \<Rightarrow> bool) \<Rightarrow> session \<Rightarrow> lock_space \<Rightarrow> bool" where
  "streams_in R se s \<longleftrightarrow> (\<forall>p q. IsInSameTransaction se (procs s q) (procs s p) \<longrightarrow> R p q \<and> R q p)"

definition lock_inv :: "LockMethodData \<Rightarrow> (procno \<Rightarrow> procno \<Rightarrow> bool) \<Rightarrow> lock_space \<Rightarrow> bool" where
  "lock_inv tab R s \<longleftrightarrow> table_wf tab None s \<and> tidy None s \<and> excl tab R s \<and>
     (\<forall>t. all_blocked tab s t (queue s t))"

lemma lock_invD:
  assumes "lock_inv tab R s"
  shows "table_wf tab None s" "tidy None s" "excl tab R s" "all_blocked tab s t (queue s t)"
  using assms by (simp_all add: lock_inv_def)

lemma same_core_tidy: "same_core s' s \<Longrightarrow> tidy k s' = tidy k s"
  by (simp add: tidy_def same_coreD)

lemma same_core_lock_inv: "same_core s' s \<Longrightarrow> lock_inv tab R s' = lock_inv tab R s"
  by (simp add: lock_inv_def same_core_tidy same_core_simps)

lemma IsInSameTransaction_pid:
  "pid p' = pid p \<Longrightarrow> pid q' = pid q \<Longrightarrow> IsInSameTransaction se p' q' = IsInSameTransaction se p q"
  by (simp add: IsInSameTransaction_def split: option.split)

lemma streams_in_cong:
  assumes "\<And>p. pid (procs s' p) = pid (procs s p)"
  shows "streams_in R se s' = streams_in R se s"
  unfolding streams_in_def using IsInSameTransaction_pid[OF assms assms] by simp

lemma tidy_Some: "tidy None s \<Longrightarrow> tidy (Some k) s"
  by (auto simp: tidy_def)

section \<open>The wakeup scan\<close>

text \<open>Nothing but lock \<open>t\<close> changes, and the waiters that leave its queue hold what they wanted.\<close>

definition grants_on :: "LOCKTAG \<Rightarrow> lock_space \<Rightarrow> lock_space \<Rightarrow> bool" where
  "grants_on t s' s \<longleftrightarrow> leader_of s' = leader_of s \<and> want_of s' = want_of s \<and>
     (\<forall>p. pid (procs s' p) = pid (procs s p)) \<and>
     (\<forall>t'. t' \<noteq> t \<longrightarrow> LockHash s' t' = LockHash s t') \<and>
     (\<forall>t' q n. t' \<noteq> t \<longrightarrow> holds s' t' q n = holds s t' q n) \<and>
     set (queue s' t) \<subseteq> set (queue s t) \<and>
     (\<forall>q n. holds s' t q n \<longleftrightarrow> holds s t q n \<or> q \<in> set (queue s t) - set (queue s' t) \<and> want_of s q = n) \<and>
     (\<forall>q. off_queue s q \<longrightarrow> off_queue s' q)"

lemma grants_on_refl [simp]: "grants_on t s s"
  by (simp add: grants_on_def)

lemma grants_onD:
  assumes "grants_on t s' s"
  shows "leader_of s' = leader_of s" "want_of s' = want_of s" "pid (procs s' p) = pid (procs s p)"
    and "t' \<noteq> t \<Longrightarrow> LockHash s' t' = LockHash s t'" "t' \<noteq> t \<Longrightarrow> holds s' t' q n = holds s t' q n"
    and "set (queue s' t) \<subseteq> set (queue s t)"
    and "holds s' t q n \<longleftrightarrow> holds s t q n \<or> q \<in> set (queue s t) - set (queue s' t) \<and> want_of s q = n"
    and "off_queue s q \<Longrightarrow> off_queue s' q"
  using assms unfolding grants_on_def by blast+

lemma grants_on_trans:
  assumes a: "grants_on t s'' s'" and b: "grants_on t s' s"
  shows "grants_on t s'' s"
proof -
  note A = grants_onD[OF a]
  note B = grants_onD[OF b]
  have w: "want_of s' q = want_of s q" for q using fun_cong[OF B(2), of q] .
  have "holds s'' t q n \<longleftrightarrow> holds s t q n \<or> q \<in> set (queue s t) - set (queue s'' t) \<and> want_of s q = n" for q n
    unfolding A(7) B(7) w using A(6) B(6) by blast
  moreover have "set (queue s'' t) \<subseteq> set (queue s t)" using A(6) B(6) by blast
  ultimately show ?thesis
    unfolding grants_on_def using A(1-5,8) B(1-5,8) by (intro conjI allI impI) simp_all
qed

lemma grants_on_core: "same_core s' s \<Longrightarrow> grants_on t s' s"
  by (simp add: grants_on_def same_coreD same_core_views)

lemma grants_on_hard: "grants_on t s' s \<Longrightarrow> hard_blocked tab s t p m \<Longrightarrow> hard_blocked tab s' t p m"
  unfolding grants_on_def hard_blocked_def by metis

lemma grants_on_blocked:
  assumes "grants_on t s' s" "all_blocked tab s t' ps"
  shows "all_blocked tab s' t' ps"
  using assms(2)
proof (rule all_blocked_mono)
  show "hard_blocked tab s' t' p (want_of s p)" if "hard_blocked tab s t' p (want_of s p)" for p
    using that assms(1) unfolding hard_blocked_def grants_on_def by (cases "t' = t") (simp_all, blast)
qed (use assms(1) in \<open>auto simp: grants_on_def fun_eq_iff\<close>)

context lock_method
begin

lemma excl_grant:
  assumes wf: "table_wf tab pend s" and ex: "excl tab R s" and m: "valid_mode tab m"
    and ok: "\<And>q n. holds s t q n \<Longrightarrow> q \<noteq> p \<Longrightarrow> conflicts tab m n \<Longrightarrow>
        leader_of s p = leader_of s q \<or> (R p q \<and> R q p)"
    and s': "\<And>t' q n. holds s' t' q n \<longleftrightarrow> holds s t' q n \<or> (t' = t \<and> q = p \<and> n = m)"
    and lead: "leader_of s' = leader_of s"
  shows "excl tab R s'"
  unfolding excl_def lead
proof (intro allI impI)
  fix t' a b i j
  assume h: "holds s' t' a i" "holds s' t' b j" and ab: "a \<noteq> b" and c: "conflicts tab i j"
  have vi: "valid_mode tab i" using h(1) m holdsD[OF wf] unfolding s' by metis
  note c' = conflicts_sym[OF vi c]
  show "leader_of s a = leader_of s b \<or> R a b"
    using h ab c c' ok[of a i] ok[of b j] ex unfolding s' excl_def by metis
qed

lemma wake_grants_on:
  assumes wf: "table_wf tab None s" and q: "q \<in> set (queue s t)"
  shows "grants_on t (ProcWakeup q STATUS_OK (GrantLock t q (want_of s q) s)) s"
  using wake_views[OF wf q] wake_wf[OF wf q] q
  by (auto simp: grants_on_def fun_eq_iff off_queue_def elim: queueE)

lemma wake_tidy:
  assumes wf: "table_wf tab None s" and q: "q \<in> set (queue s t)" and td: "tidy k s"
  shows "tidy k (ProcWakeup q STATUS_OK (GrantLock t q (want_of s q) s))"
proof -
  from q obtain l where l: "LockHash s t = Some l" and ql: "q \<in> set (waitProcs l)" by (rule queueE)
  have "want_of s q < 32"
    using valid_mode_bounds lock_wfD(5)[OF table_wfD(1)[OF wf l] ql] by blast
  then have "bit (hold_of s t q OR LOCKBIT_ON (want_of s q)) (want_of s q)" by (simp add: bit_or_iff)
  then have nz: "hold_of s t q OR LOCKBIT_ON (want_of s q) \<noteq> 0" by (metis bit_0_eq bot_apply bot_bool_def)
  show ?thesis
    using td l nz unfolding tidy_def wake_views[OF wf q] by (auto split: if_splits)
qed

text \<open>What the scan has established after a prefix of the queue: the waiters \<open>ks\<close> it keeps.\<close>

definition wakes_in_order :: "lock_space \<Rightarrow> procno list \<Rightarrow> procno list \<Rightarrow> bool" where
  "wakes_in_order s zs ks \<longleftrightarrow> (\<exists>K. ks = filter K zs) \<and>
     (\<forall>p \<in> set ks. \<forall>q \<in> set zs - set ks. conflicts tab (want_of s q) (want_of s p) \<longrightarrow>
        (\<exists>as bs cs. zs = as @ q # bs @ p # cs))"

lemma wakes_in_order_Nil [simp]: "wakes_in_order s [] []"
  by (simp add: wakes_in_order_def)

lemma wakes_in_order_keep:
  assumes w: "wakes_in_order s zs ks" and p: "p \<notin> set zs"
  shows "wakes_in_order s (zs @ [p]) (ks @ [p])"
proof -
  obtain K where K: "ks = filter K zs" using w by (auto simp: wakes_in_order_def)
  have "ks @ [p] = filter (\<lambda>x. K x \<or> x = p) (zs @ [p])" using p unfolding K by (auto intro: filter_cong)
  moreover have "\<exists>as bs cs. zs @ [p] = as @ q # bs @ r # cs"
    if a: "r \<in> set (ks @ [p])" "q \<in> set (zs @ [p]) - set (ks @ [p])" "conflicts tab (want_of s q) (want_of s r)" for q r
  proof (cases "r = p")
    case True
    have "q \<in> set zs" using a(2) by auto
    then obtain as bs where "zs = as @ q # bs" by (meson split_list)
    then have "zs @ [p] = as @ q # bs @ r # []" using True by simp
    then show ?thesis by blast
  next
    case False
    then have "r \<in> set ks" "q \<in> set zs - set ks" using a by auto
    then obtain as bs cs where "zs = as @ q # bs @ r # cs" using a(3) w unfolding wakes_in_order_def by blast
    then have "zs @ [p] = as @ q # bs @ r # (cs @ [p])" by simp
    then show ?thesis by blast
  qed
  ultimately show ?thesis unfolding wakes_in_order_def by blast
qed

lemma wakes_in_order_wake:
  assumes w: "wakes_in_order s zs ks" and p: "p \<notin> set zs"
    and free: "\<And>q. q \<in> set ks \<Longrightarrow> \<not> conflicts tab (want_of s p) (want_of s q)"
  shows "wakes_in_order s (zs @ [p]) ks"
proof -
  obtain K where K: "ks = filter K zs" using w by (auto simp: wakes_in_order_def)
  have "ks = filter (\<lambda>x. K x \<and> x \<noteq> p) (zs @ [p])" using p unfolding K by (auto intro: filter_cong)
  moreover have "\<exists>as bs cs. zs @ [p] = as @ q # bs @ r # cs"
    if a: "r \<in> set ks" "q \<in> set (zs @ [p]) - set ks" "conflicts tab (want_of s q) (want_of s r)" for q r
  proof -
    have "q \<noteq> p" using free a by blast
    then have "r \<in> set ks" "q \<in> set zs - set ks" using a by auto
    then obtain as bs cs where "zs = as @ q # bs @ r # cs" using a(3) w unfolding wakes_in_order_def by blast
    then have "zs @ [p] = as @ q # bs @ r # (cs @ [p])" by simp
    then show ?thesis by blast
  qed
  ultimately show ?thesis unfolding wakes_in_order_def by blast
qed

definition scan_inv :: "(procno \<Rightarrow> procno \<Rightarrow> bool) \<Rightarrow> proclock_ptr option \<Rightarrow> LOCKTAG \<Rightarrow> lock_space \<Rightarrow>
    procno list \<Rightarrow> LOCKMASK \<times> lock_space \<Rightarrow> bool" where
  "scan_inv R k t s0 ys = (\<lambda>(ahead, s). table_wf tab None s \<and> tidy k s \<and> excl tab R s \<and> grants_on t s s0 \<and>
     (\<exists>zs ks. queue s t = ks @ ys \<and> queue s0 t = zs @ ys \<and> distinct (queue s0 t) \<and> wakes_in_order s0 zs ks \<and>
        (\<forall>m. bit ahead m \<longleftrightarrow> (\<exists>q \<in> set ks. want_of s q = m)) \<and> all_blocked tab s t ks))"

lemma wakeup_step_inv:
  assumes inv: "scan_inv R k t s0 (p # ys) (ahead, s)" and str: "streams_in R se s0"
  shows "scan_inv R k t s0 ys (wakeup_step se tab t pl p (ahead, s))"
proof -
  from inv obtain zs ks where wf: "table_wf tab None s" and td: "tidy k s" and ex: "excl tab R s"
    and gr: "grants_on t s s0" and ks: "queue s t = ks @ p # ys"
    "\<And>m. bit ahead m \<longleftrightarrow> (\<exists>q \<in> set ks. want_of s q = m)" "all_blocked tab s t ks"
    and zs: "queue s0 t = (zs @ [p]) @ ys" "distinct (queue s0 t)" "wakes_in_order s0 zs ks" "p \<notin> set zs"
    by (auto simp: scan_inv_def)
  have pq: "p \<in> set (queue s t)" using ks(1) by simp
  from pq obtain l where l: "LockHash s t = Some l" and pw: "p \<in> set (waitProcs l)" by (rule queueE)
  note lw = table_wfD(1)[OF wf l]
  have pp: "p \<in> set (procLocks l)" using lock_wfD(3)[OF lw] pw by blast
  have vm: "valid_mode tab (want_of s p)" and b32: "want_of s p < 32"
    using lock_wfD(5)[OF lw pw] valid_mode_bounds by auto
  have dist: "distinct (ks @ p # ys)" using lock_wfD(2)[OF lw] ks(1) l by (simp add: queue_def)
  have strs: "streams_in R se s" using streams_in_cong[of s s0] gr str by (auto simp: grants_on_def)
  have keep: "scan_inv R k t s0 ys (ahead OR LOCKBIT_ON (want_of s p), s')"
    if c: "same_core s' s" and b: "blocked tab s t ks p" for s'
  proof -
    have "all_blocked tab s' t (ks @ [p])"
      using ks(3) b unfolding all_blocked_snoc same_core_blocked[OF c] by simp
    moreover have "queue s' t = (ks @ [p]) @ ys" using ks(1) same_core_views(1)[OF c] by simp
    moreover have "bit (ahead OR LOCKBIT_ON (want_of s p)) m \<longleftrightarrow> (\<exists>q \<in> set (ks @ [p]). want_of s' q = m)" for m
      using ks(2)[of m] b32 same_coreD(7)[OF c] by (auto simp: bit_or_iff)
    moreover have "grants_on t s' s0" using grants_on_trans[OF grants_on_core[OF c] gr] .
    moreover note wakes_in_order_keep[OF zs(3,4)]
    ultimately show ?thesis
      using wf td ex zs(1,2) same_core_tidy[OF c] same_core_simps(7,8)[OF c] unfolding scan_inv_def by blast
  qed
  show ?thesis
  proof (cases "conflictTab tab ! want_of s p AND ahead = 0")
    case False
    then obtain m where "conflicts tab (want_of s p) m" "bit ahead m"
      by (auto simp: mask_and_nonzero conflicts_def)
    then have "blocked tab s t ks p" using ks(2) by (auto simp: blocked_def)
    then show ?thesis using keep[OF refresh_blocker_core] False by (simp add: wakeup_step_def)
  next
    case True
    obtain st s1 where r: "LockCheckConflicts se tab (want_of s p) t p s = (st, s1)" by fastforce
    note spec = LockCheckConflicts_spec[OF wf l pp vm r]
    have w1: "want_of s1 p = want_of s p" using same_coreD(7)[OF spec(1)] .
    show ?thesis
    proof (cases "st = STATUS_OK")
      case False
      then have "blocked tab s t ks p" using spec(3) by (auto simp: blocked_def)
      then show ?thesis using keep[OF spec(1)] True False r by (simp add: wakeup_step_def)
    next
      case ok: True
      define s2 where "s2 = ProcWakeup p STATUS_OK (GrantLock t p (want_of s1 p) s1)"
      have wf1: "table_wf tab None s1" and td1: "tidy k s1" and ex1: "excl tab R s1" and pq1: "p \<in> set (queue s1 t)"
        using wf td ex pq same_core_tidy[OF spec(1)] same_core_simps(1,7,8)[OF spec(1)] by auto
      note wk = wake_wf[OF wf1 pq1, folded s2_def]
      have ex2: "excl tab R s2"
      proof (rule excl_grant[OF wf1 ex1])
        show "valid_mode tab (want_of s1 p)" using vm w1 by simp
        show "leader_of s1 p = leader_of s1 q \<or> R p q \<and> R q p"
          if "holds s1 t q n" "q \<noteq> p" "conflicts tab (want_of s1 p) n" for q n
          using spec(2)[OF ok, of q n] that strs
          by (auto simp: streams_in_def same_core_views[OF spec(1)] w1)
      qed (use wk in auto)
      have g2: "grants_on t s2 s"
        using grants_on_trans[OF wake_grants_on[OF wf1 pq1] grants_on_core[OF spec(1)]] by (simp add: s2_def)
      have "queue s2 t = ks @ ys"
        using wk(2) ks(1) same_core_views(1)[OF spec(1)] dist by (auto simp: removeAll_append)
      moreover have "bit ahead m \<longleftrightarrow> (\<exists>q \<in> set ks. want_of s2 q = m)" for m
        using ks(2)[of m] g2 by (auto simp: grants_on_def fun_eq_iff)
      moreover have "all_blocked tab s2 t ks" by (rule grants_on_blocked[OF g2 ks(3)])
      moreover have "wakes_in_order s0 (zs @ [p]) ks"
      proof (rule wakes_in_order_wake[OF zs(3,4)])
        fix q
        assume "q \<in> set ks"
        then have "bit ahead (want_of s q)" using ks(2) by blast
        then have "\<not> conflicts tab (want_of s p) (want_of s q)" using True mask_and_nonzero by (auto simp: conflicts_def)
        then show "\<not> conflicts tab (want_of s0 p) (want_of s0 q)" using grants_onD(2)[OF gr] by (simp add: fun_eq_iff)
      qed
      ultimately have "scan_inv R k t s0 ys (ahead, s2)"
        unfolding scan_inv_def
        using zs(1,2) wk(1) ex2 wake_tidy[OF wf1 pq1 td1, folded s2_def] grants_on_trans[OF g2 gr] by blast
      then show ?thesis using True ok r w1 by (simp add: wakeup_step_def s2_def)
    qed
  qed
qed

lemma ProcLockWakeup_spec:
  assumes wf: "table_wf tab None s" and td: "tidy k s" and ex: "excl tab R s" and str: "streams_in R se s"
    and l: "LockHash s t = Some l"
  shows "table_wf tab None (ProcLockWakeup se tab t pl s)" "tidy k (ProcLockWakeup se tab t pl s)"
    "excl tab R (ProcLockWakeup se tab t pl s)" "grants_on t (ProcLockWakeup se tab t pl s) s"
    "all_blocked tab (ProcLockWakeup se tab t pl s) t (queue (ProcLockWakeup se tab t pl s) t)"
    "wakes_in_order s (queue s t) (queue (ProcLockWakeup se tab t pl s) t)"
proof -
  have step: "scan_inv R k t s ys (fold (wakeup_step se tab t pl) ps a)" if "scan_inv R k t s (ps @ ys) a" for ps ys a
    using that
  proof (induction ps arbitrary: a)
    case (Cons p ps)
    obtain ahead s1 where a: "a = (ahead, s1)" by fastforce
    have "scan_inv R k t s (ps @ ys) (wakeup_step se tab t pl p a)"
      using wakeup_step_inv[OF _ str] Cons.prems unfolding a by simp
    from Cons.IH[OF this] show ?case by simp
  qed simp
  have "distinct (queue s t)" using lock_wfD(2)[OF table_wfD(1)[OF wf l]] l by (simp add: queue_def)
  then have "scan_inv R k t s (queue s t @ []) (0, s)" using wf td ex by (simp add: scan_inv_def)
  from step[OF this] l
  have "scan_inv R k t s [] (fold (wakeup_step se tab t pl) (waitProcs (lock_at s t)) (0, s))"
    by (simp add: queue_def)
  then show "table_wf tab None (ProcLockWakeup se tab t pl s)" "tidy k (ProcLockWakeup se tab t pl s)"
    "excl tab R (ProcLockWakeup se tab t pl s)" "grants_on t (ProcLockWakeup se tab t pl s) s"
    "all_blocked tab (ProcLockWakeup se tab t pl s) t (queue (ProcLockWakeup se tab t pl s) t)"
    "wakes_in_order s (queue s t) (queue (ProcLockWakeup se tab t pl s) t)"
    by (auto simp: scan_inv_def ProcLockWakeup_def split: prod.splits)
qed

section \<open>Cleaning up\<close>

lemma nRequested_0:
  assumes wf: "lock_wf tab hold want None l" and z: "nRequested l = 0"
  shows "p \<in> set (procLocks l) \<Longrightarrow> hold p = 0" "waitProcs l = []"
proof -
  have bnd: "0 \<le> granted l ! m \<and> 0 \<le> requested l ! m" if "m < MAX_LOCKMODES" for m
    using lock_wfD(10,11)[OF wf that] by simp
  have "\<forall>x \<in> set (requested l). 0 \<le> x" using bnd lock_wfD(9)[OF wf] by (auto simp: in_set_conv_nth)
  then have req: "\<forall>x \<in> set (requested l). x = 0"
    using z lock_wfD(13)[OF wf] by (simp add: sum_list_nonneg_eq_0_iff)
  have zero: "requested l ! m = 0 \<and> granted l ! m = 0 \<and> (\<forall>q \<in> set (waitProcs l). want q \<noteq> m)"
    if "m < MAX_LOCKMODES" for m
  proof -
    have "requested l ! m = 0" using req lock_wfD(9)[OF wf] that by simp
    moreover from this have "int (length (filter (\<lambda>q. want q = m) (waitProcs l))) \<le> 0" "granted l ! m \<le> 0"
      using lock_wfD(11)[OF wf that] bnd[OF that] by (simp_all del: of_nat_le_0_iff)
    ultimately show ?thesis using bnd[OF that] by (auto simp: filter_empty_conv)
  qed
  show "waitProcs l = []"
  proof (cases "waitProcs l")
    case (Cons q qs)
    then have "want q < MAX_LOCKMODES"
      using lock_wfD(5)[OF wf, of q] valid_mode_bounds by (auto simp: MAX_LOCKMODES_def)
    then show ?thesis using zero Cons by auto
  qed
  show "hold p = 0" if p: "p \<in> set (procLocks l)"
  proof (rule bit_eqI)
    fix m
    have "\<not> bit (hold p) m"
    proof
      assume b: "bit (hold p) m"
      have m: "m < MAX_LOCKMODES"
        using lock_wfD(4)[OF wf p b] valid_mode_bounds by (auto simp: MAX_LOCKMODES_def)
      show False using zero[OF m] lock_wfD(10)[OF wf m] p b by (auto simp: filter_empty_conv)
    qed
    then show "bit (hold p) m \<longleftrightarrow> bit 0 m" by simp
  qed
qed

lemma all_blocked_views:
  assumes "holds s' = holds s" "leader_of s' = leader_of s" "\<And>p. p \<in> set ps \<Longrightarrow> want_of s' p = want_of s p"
  shows "all_blocked tab s' t ps = all_blocked tab s t ps"
proof
  assume "all_blocked tab s' t ps"
  then show "all_blocked tab s t ps"
    by (rule all_blocked_mono) (use assms in \<open>auto simp: hard_blocked_def\<close>)
next
  assume "all_blocked tab s t ps"
  then show "all_blocked tab s' t ps"
    by (rule all_blocked_mono) (use assms in \<open>auto simp: hard_blocked_def\<close>)
qed

text \<open>
  Cleaning up after a change of proclock \<open>(t, p)\<close> of a process that is not waiting: the invariant holds
  again, provided that waiters were woken when some waiter of \<open>t\<close> may have become free.
\<close>

lemma CleanUpLock_spec:
  assumes wf: "table_wf tab None s" and td: "tidy (Some (t, p)) s" and ex: "excl tab R s" and str: "streams_in R se s"
    and l: "LockHash s t = Some l" "p \<in> set (procLocks l)" and off: "off_queue s p"
    and bl: "\<And>t'. t' \<noteq> t \<or> \<not> wk \<Longrightarrow> all_blocked tab s t' (queue s t')"
  shows "lock_inv tab R (CleanUpLock se tab t p wk s)" "grants_on t (CleanUpLock se tab t p wk s) s"
proof -
  note D = table_wfD[OF wf]
  have nq: "p \<notin> set (queue s t')" for t' using D(5) off off_not_on by blast
  obtain pl where pl: "ProcLockHash s (t, p) = Some pl" using D(2)[OF l] by blast
  define s1 where "s1 = (if hold_of s t p = 0 then delete_proclock t p s else s)"
  have s1: "table_wf tab None s1" "queue s1 = queue s" "leader_of s1 = leader_of s" "want_of s1 = want_of s"
    "holds s1 = holds s" "\<And>q. pid (procs s1 q) = pid (procs s q)" "grants_on t s1 s"
    using delete_proclock_wf[OF wf l(1) pl] nq wf pl by (auto simp: s1_def off_queue_def grants_on_def)
  obtain l1 where l1: "LockHash s1 t = Some l1" using l by (cases "hold_of s t p = 0") (auto simp: s1_def)
  have use: "hold_of s1 t q \<noteq> 0 \<or> q \<in> set (waitProcs l1)" if "q \<in> set (procLocks l1)" for q
  proof (cases "hold_of s t p = 0")
    case True
    then have "q \<noteq> p" "q \<in> set (procLocks l)" "waitProcs l1 = waitProcs l"
      using that l1 l by (auto simp: s1_def)
    then show ?thesis using td l True by (auto simp: tidy_def s1_def)
  next
    case False
    then show ?thesis using td l that l1 by (cases "q = p") (auto simp: tidy_def s1_def)
  qed
  have tdo: "procLocks k \<noteq> [] \<and> (\<forall>q \<in> set (procLocks k). hold_of s1 t' q \<noteq> 0 \<or> q \<in> set (waitProcs k))"
    if "t' \<noteq> t" "LockHash s1 t' = Some k" for t' k
    using that td by (cases "hold_of s t p = 0") (auto simp: tidy_def s1_def)
  have ex1: "excl tab R s1" using ex s1 by (simp add: excl_def)
  have bl1: "all_blocked tab s1 t' (queue s1 t')" if "t' \<noteq> t \<or> \<not> wk" for t'
    using bl[OF that] s1(2) all_blocked_views[OF s1(5,3)] s1(4) by (auto simp: fun_eq_iff)
  have str1: "streams_in R se s1" using str streams_in_cong[of s1 s] s1(6) by simp
  define s2 where "s2 = CleanUpLock se tab t p wk s"
  have s2: "s2 = (if nRequested l1 = 0 then s1\<lparr>LockHash := (LockHash s1)(t := None)\<rparr>
      else if wk then ProcLockWakeup se tab t (Some ((t, p), hold_of s t p)) s1 else s1)"
    using l1 by (simp add: s2_def CleanUpLock_def Let_def s1_def)
  note lw1 = table_wfD(1)[OF s1(1) l1, simplified]
  have "lock_inv tab R s2 \<and> grants_on t s2 s1"
  proof (cases "nRequested l1 = 0")
    case True
    have w0: "waitProcs l1 = []" using nRequested_0(2)[OF lw1 True] .
    have p0: "procLocks l1 = []"
      using use nRequested_0(1)[OF lw1 True] w0 by (metis empty_iff last_in_set list.set(1))
    note dl = drop_lock_wf[OF s1(1) l1 p0]
    have "all_blocked tab s1 t' (queue s1 t')" for t'
      using bl1[of t'] w0 l1 by (cases "t' = t") (auto simp: queue_def)
    then have "all_blocked tab s2 t' (queue s2 t')" for t'
      using dl(2) s2 True all_blocked_views[OF dl(4,3)] by simp
    moreover have "tidy None s2" using tdo s2 True by (auto simp: tidy_def)
    moreover have "excl tab R s2" using ex1 dl s2 True by (simp add: excl_def)
    ultimately show ?thesis
      using dl s2 True s1 by (auto simp: lock_inv_def off_queue_def grants_on_def)
  next
    case False
    have "procLocks l1 \<noteq> []"
    proof
      assume e: "procLocks l1 = []"
      have "waitProcs l1 = []" using lock_wfD(3)[OF lw1] e by simp
      then have "requested l1 ! m = 0" if "m < MAX_LOCKMODES" for m
        using lock_wfD(10,11)[OF lw1 that] e by simp
      then have "\<forall>x \<in> set (requested l1). x = 0" using lock_wfD(9)[OF lw1] by (auto simp: in_set_conv_nth)
      then have "sum_list (requested l1) = 0" by (metis sum_list_nonneg_eq_0_iff order_refl)
      then show False using False lock_wfD(13)[OF lw1] by simp
    qed
    then have td1: "tidy None s1" using use tdo l1 unfolding tidy_def by (metis option.inject)
    show ?thesis
    proof (cases wk)
      case True
      define s' where "s' = ProcLockWakeup se tab t (Some ((t, p), hold_of s t p)) s1"
      note sp = ProcLockWakeup_spec[OF s1(1) td1 ex1 str1 l1, where pl = "Some ((t, p), hold_of s t p)", folded s'_def]
      have "queue s' t' = queue s1 t'" if "t' \<noteq> t" for t' using sp(4) that by (simp add: grants_on_def queue_def)
      then have "all_blocked tab s' t' (queue s' t')" for t'
        using bl1[of t'] sp(5) grants_on_blocked[OF sp(4)] by (cases "t' = t") auto
      then show ?thesis
        using sp s2 False True unfolding s'_def[symmetric] by (simp add: lock_inv_def)
    next
      case nw: False
      then show ?thesis using s2 False s1 td1 ex1 bl1 by (auto simp: lock_inv_def)
    qed
  qed
  then show "lock_inv tab R (CleanUpLock se tab t p wk s)" "grants_on t (CleanUpLock se tab t p wk s) s"
    using s1(7) grants_on_trans unfolding s2_def by blast+
qed

section \<open>Releasing and giving up\<close>

lemma RemoveFromWaitQueue_spec:
  assumes D1: "table_wf tab None s" and D2: "tidy None s" and D3: "excl tab R s"
    and D4: "\<And>t'. t' \<noteq> t \<Longrightarrow> all_blocked tab s t' (queue s t')" and q: "q \<in> set (queue s t)" and str: "streams_in R se s"
    and tb: "GetLocksMethodTable t = tab"
  shows "lock_inv tab R (RemoveFromWaitQueue se q s)" "leader_of (RemoveFromWaitQueue se q s) = leader_of s"
    "\<And>p. pid (procs (RemoveFromWaitQueue se q s) p) = pid (procs s p)" "off_queue (RemoveFromWaitQueue se q s) q"
    "\<And>t'. t' \<noteq> t \<Longrightarrow> LockHash (RemoveFromWaitQueue se q s) t' = LockHash s t'"
    "holds (RemoveFromWaitQueue se q s) t' p n \<longleftrightarrow> holds s t' p n \<or>
       t' = t \<and> p \<noteq> q \<and> p \<in> set (queue s t) - set (queue (RemoveFromWaitQueue se q s) t) \<and> want_of s p = n"
proof -
  note lq = leave_queue_wf[OF D1 q]
  have wl: "waitLock (procs s q) = Some t" using table_wfD(5)[OF D1 q] by (simp add: on_queue_def)
  have rq: "RemoveFromWaitQueue se q s = CleanUpLock se tab t q True (leave_queue q s)"
    using wl tb by (simp add: RemoveFromWaitQueue_def)
  obtain l where l: "LockHash (leave_queue q s) t = Some l" "q \<in> set (procLocks l)" using lq(8) by blast
  from q obtain l0 where l0: "LockHash s t = Some l0" by (rule queueE)
  have h: "holds (leave_queue q s) = holds s" using lq(5) by (simp add: holds_def fun_eq_iff)
  have pid: "pid (procs (leave_queue q s) p) = pid (procs s p)" for p by (simp add: leave_queue_def Let_def)
  have ql: "waitProcs l = removeAll q (waitProcs l0)" and pl: "procLocks l = procLocks l0"
    using l(1) l0 wl by (auto simp: leave_queue_def Let_def split: if_splits)
  have td: "tidy (Some (t, q)) (leave_queue q s)"
    unfolding tidy_def
  proof (intro allI impI conjI ballI)
    fix t' k
    assume k: "LockHash (leave_queue q s) t' = Some k"
    show "procLocks k \<noteq> []" if "\<forall>p. Some (t, q) \<noteq> Some (t', p)"
      using that k lq(7)[of t'] D2 by (auto simp: tidy_def)
    show "hold_of (leave_queue q s) t' p \<noteq> 0 \<or> p \<in> set (waitProcs k)"
      if "p \<in> set (procLocks k)" "Some (t, q) \<noteq> Some (t', p)" for p
      using that k lq(5) lq(7)[of t'] D2 l l0 ql pl by (cases "t' = t") (auto simp: tidy_def)
  qed
  have ex: "excl tab R (leave_queue q s)" using D3 h lq(3) by (simp add: excl_def)
  have bl: "all_blocked tab (leave_queue q s) t' (queue (leave_queue q s) t')" if "t' \<noteq> t \<or> \<not> True" for t'
    using D4[of t'] that lq(2,4) all_blocked_views[OF h lq(3)] by (auto simp: fun_eq_iff)
  have st: "streams_in R se (leave_queue q s)" using str streams_in_cong[of "leave_queue q s" s] pid by simp
  note cl = CleanUpLock_spec[where wk = True, OF lq(1) td ex st l lq(6) bl, simplified]
  show "lock_inv tab R (RemoveFromWaitQueue se q s)" "leader_of (RemoveFromWaitQueue se q s) = leader_of s"
    "pid (procs (RemoveFromWaitQueue se q s) p) = pid (procs s p)" "off_queue (RemoveFromWaitQueue se q s) q"
    "t' \<noteq> t \<Longrightarrow> LockHash (RemoveFromWaitQueue se q s) t' = LockHash s t'" for p t'
    unfolding rq using cl lq(3,6,7) pid by (auto simp: grants_on_def)
  show "holds (RemoveFromWaitQueue se q s) t' p n \<longleftrightarrow> holds s t' p n \<or>
       t' = t \<and> p \<noteq> q \<and> p \<in> set (queue s t) - set (queue (RemoveFromWaitQueue se q s) t) \<and> want_of s p = n"
    using cl(2) h lq(2,4) unfolding rq by (cases "t' = t") (auto simp: grants_on_def fun_eq_iff)
qed

text \<open>The release mask of a proclock is a note for its owner, and no part of the invariant.\<close>

lemma release_mask_views:
  assumes "ProcLockHash s (t, p) = Some pl" "s' = set_proclock (t, p) (pl\<lparr>releaseMask := r\<rparr>) s"
  shows "LockHash s' = LockHash s" "procs s' = procs s" "holds s' = holds s" "hold_of s' = hold_of s"
    "queue s' = queue s" "leader_of s' = leader_of s"
    "table_wf tab None s' = table_wf tab None s" "tidy k s' = tidy k s" "excl tab R s' = excl tab R s"
    "all_blocked tab s' = all_blocked tab s"
proof -
  show l: "LockHash s' = LockHash s" and pr: "procs s' = procs s" by (simp_all add: assms(2) set_proclock_def)
  have P: "ProcLockHash s' = (ProcLockHash s)((t, p) \<mapsto> pl\<lparr>releaseMask := r\<rparr>)"
    by (simp add: assms(2) set_proclock_def)
  show h: "holds s' = holds s" using assms(1) by (auto simp: fun_eq_iff holds_def P)
  show ho: "hold_of s' = hold_of s" using assms(1) by (auto simp: fun_eq_iff P)
  show q: "queue s' = queue s" using l by (simp add: fun_eq_iff queue_def)
  show le: "leader_of s' = leader_of s" using pr by (simp add: fun_eq_iff leader_of_def)
  have ho1: "hold_of s' x = hold_of s x" for x using ho by (rule fun_cong)
  have gl: "(\<forall>x y z. ProcLockHash s' (x, y) = Some z \<longrightarrow> groupLeader z = leader_of s y) \<longleftrightarrow>
      (\<forall>x y z. ProcLockHash s (x, y) = Some z \<longrightarrow> groupLeader z = leader_of s y)"
  proof -
    have g: "map_option groupLeader (ProcLockHash s' (x, y)) = map_option groupLeader (ProcLockHash s (x, y))" for x y
      using assms(1) by (simp add: P)
    have e: "(\<forall>x y z. f (x, y) = Some z \<longrightarrow> groupLeader z = leader_of s y) \<longleftrightarrow>
        (\<forall>x y z. map_option groupLeader (f (x, y)) = Some z \<longrightarrow> z = leader_of s y)"
      for f :: "proclock_ptr \<rightharpoonup> PROCLOCK" by auto
    show ?thesis unfolding e g ..
  qed
  have dom: "ProcLockHash s' k \<noteq> None \<longleftrightarrow> ProcLockHash s k \<noteq> None" for k using assms(1) by (auto simp: P)
  show "table_wf tab None s' = table_wf tab None s"
    unfolding table_wf_def l pr h q le ho1 gl dom on_queue_def off_queue_def groups_wf_def by simp
  have ho2: "hold_of s' x y = hold_of s x y" for x y using fun_cong[OF ho1] .
  show "tidy k s' = tidy k s" unfolding tidy_def l ho2 ..
  show "excl tab R s' = excl tab R s" unfolding excl_def h le ..
  show "all_blocked tab s' = all_blocked tab s"
    unfolding all_blocked_def blocked_def hard_blocked_def h le pr fun_eq_iff by blast
qed

lemma release_mask_inv:
  "ProcLockHash s (t, p) = Some pl \<Longrightarrow>
   lock_inv tab R (set_proclock (t, p) (pl\<lparr>releaseMask := r\<rparr>) s) = lock_inv tab R s"
  by (simp add: lock_inv_def release_mask_views[OF _ refl])

text \<open>
  Between giving back the first mode of a proclock and cleaning up: the modes \<open>D\<close> have been given
  back; a waiter of the lock may have become free, in which case \<open>wk\<close> says that it must be woken.
\<close>

definition releasing ::
  "(procno \<Rightarrow> procno \<Rightarrow> bool) \<Rightarrow> LOCKTAG \<Rightarrow> procno \<Rightarrow> LOCKMODE set \<Rightarrow> bool \<Rightarrow> lock_space \<Rightarrow> lock_space \<Rightarrow> bool" where
  "releasing R t p D wk s s1 \<longleftrightarrow> table_wf tab None s1 \<and> tidy (Some (t, p)) s1 \<and> excl tab R s1 \<and>
     queue s1 = queue s \<and> leader_of s1 = leader_of s \<and> procs s1 = procs s \<and>
     (\<forall>t' q n. holds s1 t' q n \<longleftrightarrow> holds s t' q n \<and> \<not> (t' = t \<and> q = p \<and> n \<in> D)) \<and>
     (\<exists>l. LockHash s1 t = Some l \<and> p \<in> set (procLocks l)) \<and> (\<forall>t'. t' \<noteq> t \<longrightarrow> LockHash s1 t' = LockHash s t') \<and>
     (\<forall>t'. t' \<noteq> t \<or> \<not> wk \<longrightarrow> all_blocked tab s1 t' (queue s1 t'))"

lemma releasing_start:
  assumes "lock_inv tab R s" "ProcLockHash s (t, p) = Some pl"
  shows "releasing R t p {} False s s"
proof -
  note D = lock_invD[OF assms(1)]
  have "\<exists>l. LockHash s t = Some l \<and> p \<in> set (procLocks l)" using table_wfD(3)[OF D(1) assms(2)] .
  moreover have "tidy (Some (t, p)) s" using D(2) by (auto simp: tidy_def)
  ultimately show ?thesis using D by (simp add: releasing_def)
qed

lemma releasing_step:
  assumes rel: "releasing R t p D wk s s1" and h: "holds s t p m" "m \<notin> D"
    and r: "UnGrantLock tab t m p s1 = (w, s2)"
  shows "releasing R t p (insert m D) (wk \<or> w) s s2"
proof -
  have I: "table_wf tab None s1" "tidy (Some (t, p)) s1" "excl tab R s1" "queue s1 = queue s"
    "leader_of s1 = leader_of s" "procs s1 = procs s"
    "\<And>t' q n. holds s1 t' q n \<longleftrightarrow> holds s t' q n \<and> \<not> (t' = t \<and> q = p \<and> n \<in> D)"
    "\<And>t'. t' \<noteq> t \<or> \<not> wk \<Longrightarrow> all_blocked tab s1 t' (queue s1 t')"
    "\<And>t'. t' \<noteq> t \<Longrightarrow> LockHash s1 t' = LockHash s t'"
    using rel by (auto simp: releasing_def)
  have h1: "holds s1 t p m" using h I(7) by blast
  note u = UnGrantLock_wf[OF I(1) h1 r]
  from h1 obtain l0 where l0: "LockHash s1 t = Some l0" "p \<in> set (procLocks l0)" "valid_mode tab m"
    by (rule holdsD[OF I(1)])
  have s2: "LockHash s2 = (LockHash s1)(t \<mapsto> ungrant_counts m l0)"
    "ProcLockHash s2 = (ProcLockHash s1)((t, p) \<mapsto> (proclock_at s1 (t, p))\<lparr>holdMask := hold_of s1 t p AND LOCKBIT_OFF m\<rparr>)"
    using r l0 by (auto simp: UnGrantLock_def Let_def)
  have td: "tidy (Some (t, p)) s2" using I(2) s2 l0 by (auto simp: tidy_def)
  have ex: "excl tab R s2" using I(3) unfolding excl_def u(3,5) by blast
  have bl: "all_blocked tab s2 t' (queue s2 t')" if c: "t' \<noteq> t \<or> \<not> (wk \<or> w)" for t'
  proof -
    have "all_blocked tab s1 t' (queue s1 t')" using I(8) c by blast
    then show ?thesis unfolding u(2)
    proof (rule all_blocked_mono)
      show "want_of s2 q = want_of s1 q" for q using u(4) by simp
      show "hard_blocked tab s2 t' q (want_of s1 q)"
        if qq: "q \<in> set (queue s1 t')" and hb: "hard_blocked tab s1 t' q (want_of s1 q)" for q
      proof -
        obtain x n where x: "holds s1 t' x n" "leader_of s1 x \<noteq> leader_of s1 q" "conflicts tab (want_of s1 q) n"
          using hb by (auto simp: hard_blocked_def)
        have "\<not> (t' = t \<and> n = m)"
        proof
          assume e: "t' = t \<and> n = m"
          from qq obtain k where k: "LockHash s1 t' = Some k" "q \<in> set (waitProcs k)" by (rule queueE)
          have "valid_mode tab (want_of s1 q)" using lock_wfD(5)[OF table_wfD(1)[OF I(1) k(1)] k(2)] .
          then have "conflicts tab m (want_of s1 q)" using conflicts_sym x(3) e by blast
          then show False using u(6) c e qq by blast
        qed
        then show ?thesis using x u(3,5) by (auto simp: hard_blocked_def)
      qed
    qed
  qed
  show ?thesis
    unfolding releasing_def using u td ex bl I(4-7,9) by auto
qed

lemma releasing_finish:
  assumes rel: "releasing R t p D wk s s1" and off: "off_queue s p" and str: "streams_in R se s"
  shows "lock_inv tab R (CleanUpLock se tab t p wk s1)" "grants_on t (CleanUpLock se tab t p wk s1) s1"
proof -
  have I: "table_wf tab None s1" "tidy (Some (t, p)) s1" "excl tab R s1" "procs s1 = procs s"
    "\<And>t'. t' \<noteq> t \<or> \<not> wk \<Longrightarrow> all_blocked tab s1 t' (queue s1 t')"
    using rel by (auto simp: releasing_def)
  obtain l where l: "LockHash s1 t = Some l" "p \<in> set (procLocks l)" using rel by (auto simp: releasing_def)
  have off1: "off_queue s1 p" using off I(4) by (simp add: off_queue_def)
  have st: "streams_in R se s1" using str streams_in_cong[of s1 s] I(4) by simp
  show "lock_inv tab R (CleanUpLock se tab t p wk s1)" "grants_on t (CleanUpLock se tab t p wk s1) s1"
    by (rule CleanUpLock_spec[OF I(1,2,3) st l off1 I(5)]; assumption)+
qed

lemma release_spec:
  assumes inv: "lock_inv tab R s" and h: "holds s t p m" and off: "off_queue s p" and str: "streams_in R se s"
    and r: "UnGrantLock tab t m p s = (wk, s1)"
  shows "lock_inv tab R (CleanUpLock se tab t p wk s1)" "grants_on t (CleanUpLock se tab t p wk s1) s1"
proof -
  obtain pl where "ProcLockHash s (t, p) = Some pl" using h by (auto simp: holds_def split: option.splits)
  note rel = releasing_step[OF releasing_start[OF inv this] h _ r, simplified]
  show "lock_inv tab R (CleanUpLock se tab t p wk s1)" "grants_on t (CleanUpLock se tab t p wk s1) s1"
    by (rule releasing_finish[OF rel off str])+
qed

text \<open>Giving back a set of modes, and the body of the loop of \<open>LockReleaseAll\<close>.\<close>

lemma ungrant_mask_spec:
  assumes inv: "lock_inv tab R s" and pl: "ProcLockHash s (t, p) = Some pl"
    and m: "\<And>i. bit msk i \<Longrightarrow> holds s t p i" and r: "ungrant_mask tab t p msk s = (wk, s1)"
  shows "releasing R t p {i. bit msk i} wk s s1"
proof -
  let ?f = "\<lambda>i (wakeupNeeded, s). if msk AND LOCKBIT_ON i \<noteq> 0
        then (case UnGrantLock tab t i p s of (wk, s) \<Rightarrow> (wakeupNeeded \<or> wk, s)) else (wakeupNeeded, s)"
  let ?I = "\<lambda>j st. case st of (wk, s1) \<Rightarrow> releasing R t p {i. bit msk i \<and> i < j} wk s s1"
  have valid: "1 \<le> i \<and> i \<le> numLockModes tab" if b: "bit msk i" for i
  proof -
    from m[OF b] have "valid_mode tab i" by (rule holdsD[OF lock_invD(1)[OF inv]])
    then show ?thesis by (simp add: valid_mode_def)
  qed
  have "?I (Suc (numLockModes tab)) (fold ?f [1..<Suc (numLockModes tab)] (False, s))"
  proof (rule fold_upt_rule)
    have e: "{i. bit msk i \<and> i < 1} = {}" using valid by fastforce
    show "?I 1 (False, s)" unfolding e using releasing_start[OF inv pl] by simp
  next
    fix j st
    assume "1 \<le> j" "j < Suc (numLockModes tab)" and I: "?I j st"
    obtain w s2 where st: "st = (w, s2)" by force
    show "?I (Suc j) (?f j st)"
    proof (cases "bit msk j")
      case True
      obtain w' s3 where u: "UnGrantLock tab t j p s2 = (w', s3)" by force
      have "insert j {i. bit msk i \<and> i < j} = {i. bit msk i \<and> i < Suc j}" using True by auto
      moreover have "releasing R t p (insert j {i. bit msk i \<and> i < j}) (w \<or> w') s s3"
        using I by (intro releasing_step[OF _ m[OF True] _ u]) (simp_all add: st)
      ultimately show ?thesis using True by (simp add: st u)
    next
      case False
      then have "{i. bit msk i \<and> i < Suc j} = {i. bit msk i \<and> i < j}" by (auto simp: less_Suc_eq)
      then show ?thesis using False I by (simp add: st)
    qed
  qed simp
  moreover have "{i. bit msk i \<and> i < Suc (numLockModes tab)} = {i. bit msk i}" using valid by fastforce
  ultimately show ?thesis using r by (simp add: ungrant_mask_def)
qed

lemma release_proclock_spec:
  assumes inv: "lock_inv tab R s" and off: "off_queue s (my_proc se)" and str: "streams_in R se s"
    and pl: "ProcLockHash s (t, my_proc se) = Some pl" and tb: "GetLocksMethodTable t = tab"
    and r: "release_proclock se lockmethodid allLocks t s = Inr s'"
  shows "lock_inv tab R s'"
    and "holds s' t' q n \<longleftrightarrow> holds s t' q n \<and> \<not> (t' = t \<and> q = my_proc se \<and> locktag_lockmethodid t = lockmethodid \<and>
        bit (if allLocks then holdMask pl else releaseMask pl) n) \<or>
      t' = t \<and> q \<in> set (queue s t) - set (queue s' t) \<and> want_of s q = n" (is ?holds)
    and "t' \<noteq> t \<Longrightarrow> queue s' t' = queue s t'"
proof (atomize (full), cases "locktag_lockmethodid t = lockmethodid")
  case True
  let ?p = "my_proc se"
  define rm where "rm = (if allLocks then holdMask pl else releaseMask pl)"
  define s0 where "s0 = set_proclock (t, ?p) (pl\<lparr>releaseMask := rm\<rparr>) s"
  note v0 = release_mask_views[OF pl s0_def]
  have inv0: "lock_inv tab R s0" using release_mask_inv[OF pl] inv by (simp add: s0_def)
  have pl0: "ProcLockHash s0 (t, ?p) = Some (pl\<lparr>releaseMask := rm\<rparr>)" by (simp add: s0_def set_proclock_def)
  have sub: "rm AND NOT (holdMask pl) = 0" using r pl True by (auto simp: release_proclock_def Let_def rm_def split: if_splits)
  have hold: "holds s0 t ?p i" if "bit rm i" for i
  proof -
    have "\<not> bit (rm AND NOT (holdMask pl)) i" unfolding sub by simp
    then have "bit (holdMask pl) i" using that by (auto simp: bit_and_iff bit_not_iff dest: bit_imp_le_length)
    then show ?thesis using pl v0(3) by (simp add: holds_def)
  qed
  obtain wk s1 where u: "ungrant_mask tab t ?p rm s0 = (wk, s1)" by force
  note rel = ungrant_mask_spec[OF inv0 pl0 hold u]
  obtain pl1 where pl1: "ProcLockHash s1 (t, ?p) = Some pl1"
  proof -
    obtain l where "table_wf tab None s1" "LockHash s1 t = Some l" "?p \<in> set (procLocks l)"
      using rel by (auto simp: releasing_def)
    from table_wfD(2)[OF this] that show ?thesis by blast
  qed
  define s2 where "s2 = set_proclock (t, ?p) (pl1\<lparr>releaseMask := 0\<rparr>) s1"
  have eq: "(if allLocks then pl\<lparr>releaseMask := holdMask pl\<rparr> else pl) = pl\<lparr>releaseMask := rm\<rparr>" by (simp add: rm_def)
  have pa: "proclock_at s (t, ?p) = pl" "proclock_at s1 (t, ?p) = pl1" using pl pl1 by simp_all
  have g: "\<not> (\<not> allLocks \<and> releaseMask pl AND NOT (holdMask pl) \<noteq> 0)" using sub by (auto simp: rm_def split: if_splits)
  have "release_proclock se lockmethodid allLocks t s =
      (if rm = 0 \<and> holdMask pl \<noteq> 0 then Inr s0 else Inr (CleanUpLock se tab t ?p wk s2))"
    unfolding release_proclock_def Let_def pa tb if_not_P[OF g] eq s0_def[symmetric] s2_def
    by (simp add: True u pl1)
  then have s': "s' = (if rm = 0 \<and> holdMask pl \<noteq> 0 then s0 else CleanUpLock se tab t ?p wk s2)"
    using r by (auto split: if_splits)
  have rel2: "releasing R t ?p {i. bit rm i} wk s0 s2"
    using rel unfolding releasing_def release_mask_views[OF pl1 s2_def] .
  have off0: "off_queue s0 ?p" "streams_in R se s0"
    using off str v0(2) streams_in_cong[of s0 s] by (simp_all add: off_queue_def)
  show "lock_inv tab R s' \<and> ?holds \<and> (t' \<noteq> t \<longrightarrow> queue s' t' = queue s t')"
  proof (cases "rm = 0 \<and> holdMask pl \<noteq> 0")
    case True
    then show ?thesis using s' inv0 v0(3,5) \<open>locktag_lockmethodid t = lockmethodid\<close> by (auto simp: rm_def split: if_splits)
  next
    case False
    then have s'2: "s' = CleanUpLock se tab t ?p wk s2" using s' by auto
    note g = releasing_finish[OF rel2 off0, folded s'2]
    have "holds s2 x y z \<longleftrightarrow> holds s x y z \<and> \<not> (x = t \<and> y = ?p \<and> bit rm z)" for x y z
      using rel2 v0(3) by (simp add: releasing_def)
    moreover have "queue s2 = queue s" "procs s2 = procs s" "\<And>x. x \<noteq> t \<Longrightarrow> LockHash s2 x = LockHash s x"
      using rel2 v0 by (simp_all add: releasing_def)
    moreover have "?holds"
      using g(2) calculation \<open>locktag_lockmethodid t = lockmethodid\<close> unfolding rm_def grants_on_def
      by (cases "t' = t") auto
    ultimately show ?thesis using g by (auto simp: grants_on_def queue_def)
  qed
qed (use r inv in \<open>simp add: release_proclock_def Let_def\<close>)

end

end
