(* ===== verification/Lock_Acquire.thy ===== *)
theory Lock_Acquire
  imports Lock_Wakeup
begin

text \<open>
  Acquiring a lock in the shared table: setting up the entries, the immediate grant, giving up without
  waiting, and joining the wait queue. Every outcome leaves the invariant \<open>lock_inv\<close> intact.
\<close>

text \<open>
  The lock object and the process's entry on it, each created unless it is there: nothing that anyone
  holds or waits for changes, and only the entry of \<open>p\<close> may be new.
\<close>

definition with_lock :: "LOCKTAG \<Rightarrow> lock_space \<Rightarrow> lock_space" where
  "with_lock t s = (if LockHash s t = None then set_lock t new_lock s else s)"

definition with_entry :: "LOCKTAG \<Rightarrow> procno \<Rightarrow> nat \<Rightarrow> lock_space \<Rightarrow> lock_space" where
  "with_entry t p i s = (if ProcLockHash s (t, p) = None then new_proclock t p i s else s)"

context lock_method
begin

section \<open>Setting up the entries\<close>

lemma nRequested_pos:
  assumes wf: "table_wf tab None s" and td: "tidy None s" and l: "LockHash s t = Some l"
  shows "nRequested l \<noteq> 0"
proof
  assume z: "nRequested l = 0"
  note lw = table_wfD(1)[OF wf l, simplified]
  obtain p where p: "p \<in> set (procLocks l)" using td l by (cases "procLocks l") (auto simp: tidy_def)
  have "hold_of s t p \<noteq> 0 \<or> p \<in> set (waitProcs l)" using td l p by (auto simp: tidy_def)
  then show False using nRequested_0[OF lw z] p by auto
qed

text \<open>The state after a request was entered: everything as before but for one pending request.\<close>

definition requested_state :: "(procno \<Rightarrow> procno \<Rightarrow> bool) \<Rightarrow> LOCKTAG \<Rightarrow> procno \<Rightarrow> LOCKMODE \<Rightarrow> lock_space \<Rightarrow> bool" where
  "requested_state R t p m s \<longleftrightarrow> table_wf tab (Some (t, p, m)) s \<and> tidy (Some (t, p)) s \<and> excl tab R s \<and>
     (\<forall>t'. all_blocked tab s t' (queue s t')) \<and> valid_mode tab m"

lemma requested_stateD:
  assumes "requested_state R t p m s"
  shows "table_wf tab (Some (t, p, m)) s" "tidy (Some (t, p)) s" "excl tab R s" "all_blocked tab s t' (queue s t')"
    "valid_mode tab m"
  using assms by (simp_all add: requested_state_def)

lemma requested_state_core: "same_core s' s \<Longrightarrow> requested_state R t p m s' = requested_state R t p m s"
  by (simp add: requested_state_def same_core_tidy same_core_simps)

lemma with_lock_wf:
  assumes "table_wf tab None s"
  shows "table_wf tab None (with_lock t s)" "queue (with_lock t s) = queue s" "leader_of (with_lock t s) = leader_of s"
    "holds (with_lock t s) = holds s" "procs (with_lock t s) = procs s" "ProcLockHash (with_lock t s) = ProcLockHash s"
    "t' \<noteq> t \<Longrightarrow> LockHash (with_lock t s) t' = LockHash s t'"
    "\<exists>l. LockHash (with_lock t s) t = Some l \<and> (LockHash s t = Some l \<or> LockHash s t = None \<and> l = new_lock)"
  using new_lock_wf[OF assms] assms by (auto simp: with_lock_def)

lemma with_lock_undo:
  assumes "LockHash s t = None"
  shows "(with_lock t s)\<lparr>LockHash := (LockHash (with_lock t s))(t := None)\<rparr> = s"
  using assms by (simp add: with_lock_def set_lock_def fun_upd_idem)

lemma with_entry_wf:
  assumes wf: "table_wf tab None s" and l: "LockHash s t = Some l"
  shows "table_wf tab None (with_entry t p i s)" "queue (with_entry t p i s) = queue s"
    "leader_of (with_entry t p i s) = leader_of s" "holds (with_entry t p i s) = holds s"
    "want_of (with_entry t p i s) = want_of s" "off_queue (with_entry t p i s) = off_queue s"
    "pid (procs (with_entry t p i s) q) = pid (procs s q)"
    "t' \<noteq> t \<Longrightarrow> LockHash (with_entry t p i s) t' = LockHash s t'"
    "(t', q) \<noteq> (t, p) \<Longrightarrow> hold_of (with_entry t p i s) t' q = hold_of s t' q"
  using new_proclock_wf[OF wf l, of p i] wf by (auto simp: with_entry_def new_proclock_def Let_def)

lemma with_entry_lock:
  assumes wf: "table_wf tab None s" and l: "LockHash s t = Some l"
  obtains l' pl where "LockHash (with_entry t p i s) t = Some l'" "ProcLockHash (with_entry t p i s) (t, p) = Some pl"
    "waitProcs l' = waitProcs l" "p \<in> set (procLocks l')" "set (procLocks l') \<subseteq> insert p (set (procLocks l))"
proof -
  obtain l' pl where e: "LockHash (with_entry t p i s) t = Some l'" "ProcLockHash (with_entry t p i s) (t, p) = Some pl"
    "waitProcs l' = waitProcs l" "set (procLocks l') \<subseteq> insert p (set (procLocks l))"
    using new_proclock_wf(7,8)[OF wf l, of p i] l by (cases "ProcLockHash s (t, p)") (auto simp: with_entry_def)
  moreover have "p \<in> set (procLocks l')" using table_wfD(3)[OF with_entry_wf(1)[OF wf l] e(2)] e(1) by auto
  ultimately show thesis using that by blast
qed

text \<open>Entering the request: the counters of the lock object with entries in place.\<close>

lemma enter_request:
  assumes inv: "lock_inv tab R s" and off: "off_queue s p" and m: "valid_mode tab m" and nh: "\<not> holds s t p m"
    and s2: "s2 = with_entry t p i (with_lock t s)" and s3: "s3 = set_lock t (request_counts m (lock_at s2 t)) s2"
  shows "requested_state R t p m s3" "holds s3 = holds s" "queue s3 = queue s" "leader_of s3 = leader_of s"
    "pid (procs s3 q) = pid (procs s q)" "off_queue s3 = off_queue s"
proof -
  note D = lock_invD[OF inv]
  note v1 = with_lock_wf[OF D(1), where t = t]
  obtain l1 where l1: "LockHash (with_lock t s) t = Some l1" "LockHash s t = Some l1 \<or> l1 = new_lock" using v1(8) by blast
  note v2 = with_entry_wf[OF v1(1) l1(1), where p = p and i = i, folded s2]
  obtain l2 pl where l2: "LockHash s2 t = Some l2" "ProcLockHash s2 (t, p) = Some pl" "waitProcs l2 = waitProcs l1"
    "p \<in> set (procLocks l2)" "set (procLocks l2) \<subseteq> insert p (set (procLocks l1))"
    using with_entry_lock[OF v1(1) l1(1), of p i] unfolding s2 by blast
  have s3': "s3 = set_lock t (request_counts m l2) s2" using s3 l2(1) by simp
  note v3 = set_lock_views[OF l2(1), of "request_counts m l2", simplified, folded s3']
  show views: "holds s3 = holds s" "queue s3 = queue s" "leader_of s3 = leader_of s" "off_queue s3 = off_queue s"
    using v1 v2 v3 by (auto simp: s3' off_queue_def fun_eq_iff)
  show "pid (procs s3 q) = pid (procs s q)" using v1(5) v2(7) by (simp add: s3')
  have wf3: "table_wf tab (Some (t, p, m)) s3"
    unfolding s3' by (rule request_wf[OF v2(1) l2(1,4) m]) (use off nh v1 v2 in \<open>auto simp: off_queue_def fun_eq_iff\<close>)
  have hold3: "hold_of s3 t' q = hold_of s t' q" if "(t', q) \<noteq> (t, p)" for t' q
    using v2(9)[OF that] v1(6) by (simp add: s3')
  have old3: "LockHash s3 t' = LockHash s t'" if "t' \<noteq> t" for t'
    using v1(7)[OF that] v2(8)[OF that] that by (simp add: s3')
  have "hold_of s3 t' q \<noteq> 0 \<or> q \<in> set (waitProcs k)"
    if k: "LockHash s3 t' = Some k" and q: "q \<in> set (procLocks k)" "(t, p) \<noteq> (t', q)" for t' k q
  proof (cases "t' = t")
    case True
    then have kk: "k = request_counts m l2" using k by (simp add: s3')
    then have ql: "q \<in> set (procLocks l1)" using q l2(5) True by auto
    then have "LockHash s t = Some l1" using l1 by (auto simp: new_lock_def)
    then show ?thesis using D(2) ql hold3[of t q] q(2) True kk l2(3) by (auto simp: tidy_def)
  next
    case False
    then show ?thesis using k D(2) old3 q hold3[of t' q] by (auto simp: tidy_def)
  qed
  moreover have "procLocks k \<noteq> []" if "LockHash s3 t' = Some k" "t' \<noteq> t" for t' k
    using that D(2) old3[OF that(2)] by (auto simp: tidy_def)
  ultimately have td: "tidy (Some (t, p)) s3" unfolding tidy_def by blast
  have "want_of s3 q = want_of s q" for q using v1(5) v2(5) by (auto simp: s3' fun_eq_iff)
  then have "all_blocked tab s3 t' (queue s3 t')" for t' using D(4)[of t'] all_blocked_views[of s3 s] views by simp
  then show "requested_state R t p m s3" using wf3 td D(3) m views by (simp add: requested_state_def excl_def)
qed

lemma SetupLockInTable_spec:
  assumes inv: "lock_inv tab R s" and off: "off_queue s p" and m: "valid_mode tab m" and nh: "\<not> holds s t p m"
    and r: "SetupLockInTable room p t i m s = (res, s')"
  shows "res = Setup \<and> requested_state R t p m s' \<and> holds s' = holds s \<and> queue s' = queue s \<and>
      leader_of s' = leader_of s \<and> (\<forall>q. pid (procs s' q) = pid (procs s q)) \<and> off_queue s' = off_queue s \<or>
    res = No_memory \<and> s' = s"
proof -
  note D = lock_invD[OF inv]
  define s1 where "s1 = with_lock t s"
  note v1 = with_lock_wf[OF D(1), where t = t, folded s1_def]
  obtain l1 where l1: "LockHash s1 t = Some l1" "LockHash s t = Some l1 \<or> LockHash s t = None \<and> l1 = new_lock"
    using v1(8) by blast
  have unf: "SetupLockInTable room p t i m s =
     (if LockHash s t = None \<and> \<not> fst room then (No_memory, s)
      else if ProcLockHash s1 (t, p) = None \<and> \<not> snd room then
        (No_memory, if nRequested l1 = 0 then s1\<lparr>LockHash := (LockHash s1)(t := None)\<rparr> else s1)
      else let s2 = with_entry t p i s1; s3 = set_lock t (request_counts m (lock_at s2 t)) s2
           in if holdMask (proclock_at s3 (t, p)) AND LOCKBIT_ON m \<noteq> 0 then (Already_held, s3) else (Setup, s3))"
    using l1(1) unfolding SetupLockInTable_def with_lock_def[symmetric] with_entry_def[symmetric] s1_def[symmetric]
    by (simp add: Let_def)
  show ?thesis
  proof (cases "(LockHash s t = None \<and> \<not> fst room) \<or> (ProcLockHash s1 (t, p) = None \<and> \<not> snd room)")
    case True
    have "nRequested l1 \<noteq> 0 \<and> s1 = s" if "LockHash s t \<noteq> None"
      using that nRequested_pos[OF D(1,2)] l1 by (auto simp: s1_def with_lock_def)
    moreover have "nRequested l1 = 0 \<and> s1\<lparr>LockHash := (LockHash s1)(t := None)\<rparr> = s" if "LockHash s t = None"
      using that l1 with_lock_undo[of s t] by (auto simp: s1_def new_lock_def)
    ultimately show ?thesis using r True unfolding unf by (cases "LockHash s t = None") (auto split: if_splits)
  next
    case False
    note e = enter_request[OF inv off m nh refl refl, where i = i, folded s1_def]
    obtain l2 pl where l2: "ProcLockHash (with_entry t p i s1) (t, p) = Some pl"
      using with_entry_lock[OF v1(1) l1(1), of p i] by blast
    have "holds (with_entry t p i s1) = holds s" using with_entry_wf(4)[OF v1(1) l1(1), where p = p and i = i] v1(4) by simp
    then have "\<not> holds (with_entry t p i s1) t p m" using nh by simp
    then have "holdMask pl AND LOCKBIT_ON m = 0" using l2 by (auto simp: holds_def)
    then show ?thesis using r False e l2 unfolding unf by (auto simp: Let_def)
  qed
qed

section \<open>Granting at once, and giving up\<close>

text \<open>The request is granted when the conflict test of the requester succeeded.\<close>

lemma grant_spec:
  assumes rs: "requested_state R t p m s"
    and ok: "\<And>q n. holds s t q n \<Longrightarrow> q \<noteq> p \<Longrightarrow> conflicts tab m n \<Longrightarrow>
        leader_of s p = leader_of s q \<or> (R p q \<and> R q p)"
  shows "lock_inv tab R (GrantLock t p m s)" "holds (GrantLock t p m s) t p m"
    "off_queue (GrantLock t p m s) p" "queue (GrantLock t p m s) = queue s"
    "holds (GrantLock t p m s) t' q n \<longleftrightarrow> holds s t' q n \<or> (t' = t \<and> q = p \<and> n = m)"
proof -
  note D = requested_stateD[OF rs]
  obtain l where l: "LockHash s t = Some l" "p \<in> set (procLocks l)" using table_wfD(8)[OF D(1)] by blast
  obtain pl where pl: "ProcLockHash s (t, p) = Some pl" using table_wfD(2)[OF D(1) l] by blast
  have m32: "m < 32" using valid_mode_bounds[OF D(5)] by simp
  note h = GrantLock_holds[OF pl m32]
  show "holds (GrantLock t p m s) t' q n \<longleftrightarrow> holds s t' q n \<or> (t' = t \<and> q = p \<and> n = m)" by (rule h)
  show "holds (GrantLock t p m s) t p m" using h by simp
  show off: "off_queue (GrantLock t p m s) p" using table_wfD(10)[OF D(1)] by (auto simp: off_queue_def)
  show qs: "queue (GrantLock t p m s) = queue s" using l by (auto simp: queue_def fun_eq_iff)
  have "bit (hold_of s t p OR LOCKBIT_ON m) m" using m32 by (simp add: bit_or_iff)
  then have "hold_of s t p OR LOCKBIT_ON m \<noteq> 0" by (metis bit_0_eq bot_apply bot_bool_def)
  then have "tidy None (GrantLock t p m s)"
    using D(2) l unfolding tidy_def by (auto split: if_splits)
  moreover have "excl tab R (GrantLock t p m s)"
    by (rule excl_grant[OF D(1,3,5) ok]) (use h in auto)
  moreover have "all_blocked tab (GrantLock t p m s) t' (queue (GrantLock t p m s) t')" for t'
    unfolding qs using D(4)[of t']
    by (rule all_blocked_mono) (use h in \<open>auto simp: hard_blocked_def\<close>)
  ultimately show "lock_inv tab R (GrantLock t p m s)"
    using GrantLock_pending[OF D(1)] by (auto simp: lock_inv_def)
qed

lemma undo_request_eq:
  assumes l: "LockHash s t = Some l"
  shows "undo_request t p m s =
    (let s1 = set_lock t (unrequest_counts m l) s
     in if hold_of s t p = 0 then delete_proclock t p s1 else s1)"
proof -
  have "unrequest_counts m (l\<lparr>procLocks := xs\<rparr>) = (unrequest_counts m l)\<lparr>procLocks := xs\<rparr>" for xs
    by (rule LOCK.equality) (simp_all add: unrequest_counts_def)
  then show ?thesis
    using l by (auto simp: undo_request_def Let_def delete_proclock_def set_lock_def upd_proc_def
        intro!: lock_space.equality)
qed

lemma undo_request_spec:
  assumes rs: "requested_state R t p m s" and busy: "\<exists>q. q \<noteq> p \<and> (\<exists>l. LockHash s t = Some l \<and> q \<in> set (procLocks l))"
  shows "lock_inv tab R (undo_request t p m s)" "holds (undo_request t p m s) = holds s"
    "queue (undo_request t p m s) = queue s" "off_queue (undo_request t p m s) p"
    "leader_of (undo_request t p m s) = leader_of s"
proof -
  note D = requested_stateD[OF rs]
  obtain l where l: "LockHash s t = Some l" "p \<in> set (procLocks l)" using table_wfD(8)[OF D(1)] by blast
  have off: "off_queue s p" using table_wfD(10)[OF D(1)] by blast
  have nq: "p \<notin> set (queue s t')" for t' using table_wfD(5)[OF D(1)] off off_not_on by blast
  obtain pl where pl: "ProcLockHash s (t, p) = Some pl" using table_wfD(2)[OF D(1) l] by blast
  define s1 where "s1 = set_lock t (unrequest_counts m l) s"
  note wf1 = unrequest_wf[OF D(1) l(1), folded s1_def]
  note v1 = set_lock_views[OF l(1), of "unrequest_counts m l", simplified, folded s1_def]
  have l1: "LockHash s1 t = Some (unrequest_counts m l)" and pl1: "ProcLockHash s1 (t, p) = Some pl"
    using pl by (simp_all add: s1_def)
  define s2 where "s2 = (if hold_of s t p = 0 then delete_proclock t p s1 else s1)"
  have s2: "table_wf tab None s2" "queue s2 = queue s" "leader_of s2 = leader_of s" "want_of s2 = want_of s"
    "holds s2 = holds s"
    using delete_proclock_wf[OF wf1 l1 pl1] v1 wf1 nq[of t] pl by (auto simp: s2_def s1_def)
  have td: "tidy None s2"
    unfolding tidy_def
  proof (intro allI impI conjI ballI)
    fix t' k assume k: "LockHash s2 t' = Some k"
    have kt: "k = (if hold_of s t p = 0 then (unrequest_counts m l)\<lparr>procLocks := removeAll p (procLocks l)\<rparr>
        else unrequest_counts m l)" if "t' = t"
      using that k l1 by (auto simp: s2_def)
    have ko: "LockHash s t' = Some k" if "t' \<noteq> t" using that k by (auto simp: s2_def s1_def split: if_splits)
    obtain q0 where q0: "q0 \<in> set (removeAll p (procLocks l))" using busy l by auto
    then have "removeAll p (procLocks l) \<noteq> []" by (metis empty_iff list.set(1))
    then show "procLocks k \<noteq> []"
      using kt ko D(2) l by (cases "t' = t") (auto simp: tidy_def)
    show "hold_of s2 t' q \<noteq> 0 \<or> q \<in> set (waitProcs k)" if q: "q \<in> set (procLocks k)" for q
    proof (cases "t' = t")
      case True
      show ?thesis
      proof (cases "q = p")
        case qp: True
        then have "hold_of s t p \<noteq> 0" using kt[OF True] q by auto
        then show ?thesis using True qp by (simp add: s2_def s1_def)
      next
        case False
        then show ?thesis using kt[OF True] q D(2) l True by (auto simp: tidy_def s2_def s1_def split: if_splits)
      qed
    next
      case False
      then show ?thesis using ko[OF False] q D(2) by (auto simp: tidy_def s2_def s1_def split: if_splits)
    qed
  qed
  have "excl tab R s2" using D(3) s2 by (simp add: excl_def)
  moreover have "all_blocked tab s2 t' (queue s2 t')" for t'
    using D(4)[of t'] all_blocked_views[OF s2(5,3)] s2(2,4) by (simp add: fun_eq_iff)
  moreover have "off_queue s2 p" using off by (simp add: s2_def s1_def off_queue_def)
  moreover have "undo_request t p m s = s2" by (simp add: undo_request_eq[OF l(1)] s2_def s1_def Let_def)
  ultimately show "lock_inv tab R (undo_request t p m s)" "holds (undo_request t p m s) = holds s"
    "queue (undo_request t p m s) = queue s" "off_queue (undo_request t p m s) p"
    "leader_of (undo_request t p m s) = leader_of s"
    using s2 td by (auto simp: lock_inv_def)
qed

section \<open>Going to sleep\<close>

text \<open>A request is stuck behind \<open>ahead\<close> when it conflicts with a waiter there or with a holder.\<close>

definition stuck :: "lock_space \<Rightarrow> LOCKTAG \<Rightarrow> procno list \<Rightarrow> procno \<Rightarrow> LOCKMODE \<Rightarrow> bool" where
  "stuck s t ahead p m \<longleftrightarrow> (\<exists>q \<in> set ahead. conflicts tab m (want_of s q)) \<or> hard_blocked tab s t p m"

lemma stuck_core: "same_core s' s \<Longrightarrow> stuck s' t ahead p m = stuck s t ahead p m"
  by (simp add: stuck_def same_core_blocked same_coreD)

lemma may_grant:
  assumes wf: "table_wf tab pend s" and l: "LockHash s t = Some l" "p \<in> set (procLocks l)"
    and m: "valid_mode tab m" and r: "LockCheckConflicts se tab m t p s = (STATUS_OK, s')"
    and str: "streams_in R se s" and h: "holds s' t q n" "q \<noteq> p" "conflicts tab m n"
  shows "leader_of s' p = leader_of s' q \<or> (R p q \<and> R q p)"
  using LockCheckConflicts_spec(1,2)[OF wf l m r] h str
  by (auto simp: streams_in_def same_core_views)

lemma sleep_scan_spec:
  assumes rs: "requested_state R t (my_proc se) m s" and str: "streams_in R se s"
    and q: "queue s t = pre @ qs" "i = length pre" and ahead: "\<And>n. bit ahead n \<Longrightarrow> \<exists>q \<in> set pre. want_of s q = n"
    and r: "sleep_scan se tab t m held qs i ahead s = (place, s')"
  shows "same_core s' s \<and>
    (case place of
       Grant_now \<Rightarrow> \<forall>q n. holds s' t q n \<longrightarrow> q \<noteq> my_proc se \<longrightarrow> conflicts tab m n \<longrightarrow>
         leader_of s' (my_proc se) = leader_of s' q \<or> (R (my_proc se) q \<and> R q (my_proc se))
     | Insert_at j early \<Rightarrow> j \<le> length (queue s t) \<and>
         (early \<or> j = length (queue s t) \<or> stuck s t (take j (queue s t)) (my_proc se) m))"
  using q ahead r
proof (induction qs arbitrary: pre i ahead)
  case Nil
  then show ?case by auto
next
  case (Cons q qs)
  note D = requested_stateD[OF rs]
  obtain l where l: "LockHash s t = Some l" "my_proc se \<in> set (procLocks l)" using table_wfD(8)[OF D(1)] by blast
  have q': "queue s t = (pre @ [q]) @ qs" using Cons.prems(1) by simp
  have tk: "take i (queue s t) = pre" using Cons.prems(1,2) by simp
  define grp where "grp \<longleftrightarrow> lockGroupLeader (procs s (my_proc se)) \<noteq> None \<and>
    lockGroupLeader (procs s (my_proc se)) = lockGroupLeader (procs s q)"
  define before where "before \<longleftrightarrow> conflictTab tab ! want_of s q AND held \<noteq> 0"
  define early where "early \<longleftrightarrow> conflictTab tab ! m AND heldLocks (procs s q) \<noteq> 0"
  have ql: "i \<le> length (queue s t)" using Cons.prems by simp
  consider (grp) grp | (pass) "\<not> grp" "\<not> before" | (early) "\<not> grp" before early
    | (test) "\<not> grp" before "\<not> early" "conflictTab tab ! m AND ahead = 0"
    | (ahead) "\<not> grp" before "\<not> early" "conflictTab tab ! m AND ahead \<noteq> 0" by blast
  then show ?case
  proof cases
    case grp
    show ?thesis
    proof (rule Cons.IH[OF q'])
      show "sleep_scan se tab t m held qs (Suc i) ahead s = (place, s')"
        using Cons.prems(4) grp unfolding sleep_scan.simps Let_def grp_def[symmetric] by simp
    qed (use Cons.prems in auto)
  next
    case pass
    show ?thesis
    proof (rule Cons.IH[OF q'])
      show "sleep_scan se tab t m held qs (Suc i) (ahead OR LOCKBIT_ON (want_of s q)) s = (place, s')"
        using Cons.prems(4) pass by (auto simp: grp_def before_def Let_def)
      show "\<exists>x \<in> set (pre @ [q]). want_of s x = n" if "bit (ahead OR LOCKBIT_ON (want_of s q)) n" for n
        using that Cons.prems(3)[of n] by (auto simp: bit_or_iff)
    qed (use Cons.prems in simp)
  next
    case early
    then show ?thesis using Cons.prems(4) ql by (auto simp: grp_def before_def early_def Let_def)
  next
    case test
    obtain st s1 where c: "LockCheckConflicts se tab m t (my_proc se) s = (st, s1)" by fastforce
    have sc: "same_core s1 s" by (rule LockCheckConflicts_core[OF c])
    have res: "place = (if st = STATUS_OK then Grant_now else Insert_at i False)" "s' = s1"
      using Cons.prems(4) test c by (auto simp: grp_def before_def early_def Let_def split: if_splits)
    show ?thesis
    proof (cases "st = STATUS_OK")
      case True
      then show ?thesis using may_grant[OF D(1) l D(5) _ str] c sc res by auto
    next
      case False
      then have "hard_blocked tab s t (my_proc se) m" using LockCheckConflicts_spec(3)[OF D(1) l D(5) c] by blast
      then show ?thesis using sc res False ql by (auto simp: stuck_def)
    qed
  next
    case ahead
    then obtain n where "conflicts tab m n" "bit ahead n" by (auto simp: mask_and_nonzero conflicts_def)
    then have "stuck s t pre (my_proc se) m" using Cons.prems(3) by (auto simp: stuck_def)
    moreover have "place = Insert_at i False" "s' = s"
      using Cons.prems(4) ahead by (auto simp: grp_def before_def early_def Let_def)
    ultimately show ?thesis using tk ql by simp
  qed
qed

lemma all_blocked_insert:
  assumes ab: "all_blocked tab s t (xs @ ys)" and st: "stuck s t xs p m" and p: "p \<notin> set (xs @ ys)"
    and s': "holds s' = holds s" "leader_of s' = leader_of s" "want_of s' = (want_of s)(p := m)"
  shows "all_blocked tab s' t (xs @ p # ys)"
  unfolding all_blocked_def
proof (intro allI impI)
  fix as q bs
  assume eq: "xs @ p # ys = as @ q # bs"
  have hb: "hard_blocked tab s' t x n = hard_blocked tab s t x n" for x n
    using s'(1,2) by (simp add: hard_blocked_def)
  have w: "want_of s' x = want_of s x" if "x \<noteq> p" for x using s'(3) that by (auto simp: fun_eq_iff)
  have wp: "want_of s' p = m" using s'(3) by (auto simp: fun_eq_iff)
  have lift: "blocked tab s' t as' q'" if "blocked tab s t cs q'" "q' \<noteq> p" "p \<notin> set cs" "set cs \<subseteq> set as'" for as' cs q'
  proof -
    have "want_of s' x = want_of s x" if "x \<in> set cs" for x using that \<open>p \<notin> set cs\<close> w[of x] by metis
    then show ?thesis using that w[OF that(2)] unfolding blocked_def hb by (metis subsetD)
  qed
  consider (before) us where "xs = as @ q # us" | (here) "xs = as" "p = q" "ys = bs"
    | (after) us where "as = xs @ p # us" "ys = us @ q # bs"
    using eq by (auto simp: append_eq_append_conv2 Cons_eq_append_conv append_eq_Cons_conv)
  then show "blocked tab s' t as q"
  proof cases
    case before
    then have "blocked tab s t as q" using ab by (auto simp: all_blocked_def)
    then show ?thesis by (rule lift) (use before p in auto)
  next
    case here
    have "\<exists>x \<in> set xs. conflicts tab m (want_of s' x)" if "\<exists>x \<in> set xs. conflicts tab m (want_of s x)"
      using that w p by (metis Un_iff set_append)
    then show ?thesis using st here wp hb unfolding stuck_def blocked_def by auto
  next
    case after
    then have "blocked tab s t (xs @ us) q" using ab by (auto simp: all_blocked_def)
    then show ?thesis by (rule lift) (use after p in auto)
  qed
qed

lemma enqueue_inv:
  fixes i :: nat
  assumes rs: "requested_state R t p m s"
  defines "s' \<equiv> sleep_enqueue p t m i s"
  shows "table_wf tab None s'" "tidy None s'" "excl tab R s'" "p \<in> set (queue s' t)"
    "\<And>t'. t' \<noteq> t \<Longrightarrow> all_blocked tab s' t' (queue s' t')"
    "stuck s t (take i (queue s t)) p m \<Longrightarrow> lock_inv tab R s'"
    "holds s' = holds s" "leader_of s' = leader_of s" "pid (procs s' q) = pid (procs s q)"
proof -
  note D = requested_stateD[OF rs]
  note e = sleep_enqueue_wf[OF D(1), where i = i, folded s'_def]
  have off: "off_queue s p" using table_wfD(10)[OF D(1)] by blast
  have nq: "p \<notin> set (queue s t')" for t' using table_wfD(5)[OF D(1)] off off_not_on by blast
  show h: "holds s' = holds s" using e(5) by (simp add: holds_def fun_eq_iff)
  show "table_wf tab None s'" "leader_of s' = leader_of s" using e by auto
  show "pid (procs s' q) = pid (procs s q)" by (simp add: s'_def sleep_enqueue_def Let_def)
  show pq: "p \<in> set (queue s' t)" using e(2) by simp
  show ex: "excl tab R s'" using D(3) h e(3) by (simp add: excl_def)
  obtain l where l: "LockHash s t = Some l" "p \<in> set (procLocks l)" using table_wfD(8)[OF D(1)] by blast
  show td: "tidy None s'"
    unfolding tidy_def
  proof (intro allI impI conjI ballI)
    fix t' k assume k: "LockHash s' t' = Some k"
    obtain l' where l': "LockHash s' t = Some l'" "procLocks l' = procLocks l" using e(7)[OF l(1)] by blast
    have kt: "procLocks k = procLocks l" if "t' = t" using that k l' by simp
    show "procLocks k \<noteq> []"
      using kt l D(2) k e(6)[of t'] by (cases "t' = t") (auto simp: tidy_def)
    show "hold_of s' t' q \<noteq> 0 \<or> q \<in> set (waitProcs k)" if q: "q \<in> set (procLocks k)" for q
    proof (cases "t' = t")
      case True
      have wk: "set (waitProcs k) = insert p (set (waitProcs l))"
      proof -
        have "waitProcs k = take i (waitProcs l) @ p # drop i (waitProcs l)"
          using k True e(2) l(1) by (auto simp: queue_def fun_eq_iff dest: spec[of _ t])
        then show ?thesis by (metis Un_insert_right append_take_drop_id list.simps(15) set_append)
      qed
      show ?thesis using q kt[OF True] D(2) l e(5) True wk by (cases "q = p") (auto simp: tidy_def)
    next
      case False
      then show ?thesis using k e(5) e(6)[OF False] q D(2) by (auto simp: tidy_def)
    qed
  qed
  show ob: "all_blocked tab s' t' (queue s' t')" if "t' \<noteq> t" for t'
  proof -
    have "want_of s' x = want_of s x" if "x \<in> set (queue s t')" for x
      using that nq[of t'] e(4) by (auto simp: fun_eq_iff)
    from all_blocked_views[OF h e(3) this] D(4)[of t'] that e(2) show ?thesis by simp
  qed
  show "lock_inv tab R s'" if st: "stuck s t (take i (queue s t)) p m"
  proof -
    have "all_blocked tab s' t (take i (queue s t) @ p # drop i (queue s t))"
      by (rule all_blocked_insert[OF _ st _ h e(3,4)]) (use D(4)[of t] nq[of t] in auto)
    then have "all_blocked tab s' t' (queue s' t')" for t' using ob e(2) by (cases "t' = t") auto
    then show ?thesis using e(1) td ex by (simp add: lock_inv_def)
  qed
qed

text \<open>The place in the queue: granted at once if nobody conflicts, else behind waiters it is stuck behind.\<close>

lemma sleep_place_spec:
  assumes rs: "requested_state R t me m s" and me: "me = my_proc se" and str: "streams_in R se s"
    and st: "stuck s t (queue s t) me m"
    and p: "(if group_held_locks se t s \<noteq> 0
      then sleep_scan se tab t m (group_held_locks se t s) (waitProcs (lock_at s t)) 0 0 s
      else (Insert_at (length (waitProcs (lock_at s t))) False, s)) = (place, s1)"
  shows "same_core s1 s"
    "place = Grant_now \<Longrightarrow> holds s1 t q n \<Longrightarrow> q \<noteq> me \<Longrightarrow> conflicts tab m n \<Longrightarrow>
       leader_of s1 me = leader_of s1 q \<or> (R me q \<and> R q me)"
    "place = Insert_at j early \<Longrightarrow> early \<or> stuck s t (take j (queue s t)) me m"
proof -
  obtain l where "LockHash s t = Some l" using table_wfD(8)[OF requested_stateD(1)[OF rs]] by auto
  then have ql: "waitProcs (lock_at s t) = queue s t" by (simp add: queue_def)
  have "same_core s1 s \<and>
    (case place of
       Grant_now \<Rightarrow> \<forall>q n. holds s1 t q n \<longrightarrow> q \<noteq> me \<longrightarrow> conflicts tab m n \<longrightarrow>
         leader_of s1 me = leader_of s1 q \<or> (R me q \<and> R q me)
     | Insert_at j early \<Rightarrow> early \<or> stuck s t (take j (queue s t)) me m)"
  proof (cases "group_held_locks se t s \<noteq> 0")
    case True
    then have "sleep_scan se tab t m (group_held_locks se t s) (queue s t) 0 0 s = (place, s1)" using p ql by simp
    from sleep_scan_spec[OF rs[unfolded me] str _ _ _ this, of "[]"] st
    show ?thesis by (auto simp: me split: sleep_place.splits)
  qed (use p ql st in auto)
  then show "same_core s1 s"
    "place = Grant_now \<Longrightarrow> holds s1 t q n \<Longrightarrow> q \<noteq> me \<Longrightarrow> conflicts tab m n \<Longrightarrow>
       leader_of s1 me = leader_of s1 q \<or> (R me q \<and> R q me)"
    "place = Insert_at j early \<Longrightarrow> early \<or> stuck s t (take j (queue s t)) me m" by auto
qed

text \<open>How going to sleep can end.\<close>

definition sleep_outcome :: "(procno \<Rightarrow> procno \<Rightarrow> bool) \<Rightarrow> LOCKTAG \<Rightarrow> procno \<Rightarrow> LOCKMODE \<Rightarrow> lock_space \<Rightarrow>
    errcode + wait_status \<Rightarrow> lock_space \<Rightarrow> bool" where
  "sleep_outcome R t me m s res s' \<longleftrightarrow> lock_inv tab R s' \<and> leader_of s' = leader_of s \<and>
     (\<forall>q. pid (procs s' q) = pid (procs s q)) \<and>
     (res = Inr STATUS_OK \<and> holds s' t me m \<and> off_queue s' me \<or>
      res = Inr STATUS_WAITING \<and> me \<in> set (queue s' t) \<and> want_of s' me = m \<or>
      res = Inr STATUS_ERROR \<and> off_queue s' me)"

lemma sleep_granted:
  assumes rs: "requested_state R t me m s" and sc: "same_core s2 s"
    and free: "\<And>q n. holds s2 t q n \<Longrightarrow> q \<noteq> me \<Longrightarrow> conflicts tab m n \<Longrightarrow> leader_of s2 me = leader_of s2 q \<or> (R me q \<and> R q me)"
  shows "sleep_outcome R t me m s (Inr STATUS_OK) (GrantLock t me m s2)"
proof -
  have "requested_state R t me m s2" using rs requested_state_core[OF sc] by simp
  from grant_spec[OF this free] same_coreD(10)[OF sc] same_core_views(3)[OF sc]
  show ?thesis by (auto simp: sleep_outcome_def)
qed

lemma sleep_queued:
  assumes rs: "requested_state R t me m s" and me: "me = my_proc se" and str: "streams_in R se s"
    and tb: "GetLocksMethodTable t = tab" and sc: "same_core s2 s"
    and place: "early \<or> stuck s t (take j (queue s t)) me m"
  shows "sleep_outcome R t me m s (if early then Inr STATUS_ERROR else Inr STATUS_WAITING)
    (let s3 = sleep_enqueue me t m j s2 in if early then RemoveFromWaitQueue se me s3 else s3)"
proof -
  have rs2: "requested_state R t me m s2" using rs requested_state_core[OF sc] by simp
  define s3 where "s3 = sleep_enqueue me t m j s2"
  note e = enqueue_inv[OF rs2, where i = j, folded s3_def]
  have pid3: "pid (procs s3 q) = pid (procs s q)" for q using e(9) same_coreD(10)[OF sc] by simp
  have lead3: "leader_of s3 = leader_of s" using e(8) same_core_views(3)[OF sc] by simp
  show ?thesis
  proof (cases early)
    case True
    have str3: "streams_in R se s3" using str streams_in_cong[of s3 s] pid3 by simp
    from RemoveFromWaitQueue_spec[OF e(1,2,3,5,4) str3 tb] True pid3 lead3
    show ?thesis by (auto simp: sleep_outcome_def s3_def[symmetric])
  next
    case False
    then have "stuck s2 t (take j (queue s2 t)) me m"
      using place stuck_core[OF sc] same_core_views(1)[OF sc] by auto
    moreover have "want_of s3 me = m" by (simp add: s3_def sleep_enqueue_def Let_def)
    ultimately show ?thesis using False e pid3 lead3 by (auto simp: sleep_outcome_def s3_def[symmetric])
  qed
qed

text \<open>
  Going to sleep with a request that is stuck behind the whole queue: the process has the lock, or
  waits for it, or gave up because of a two-way deadlock.
\<close>

lemma ProcSleep_outcome:
  assumes rs: "requested_state R t me m s" and me: "me = my_proc se" and str: "streams_in R se s"
    and st: "stuck s t (queue s t) me m" and tb: "GetLocksMethodTable t = tab"
    and r: "ProcSleep se tab t m s = (res, s')"
  shows "sleep_outcome R t me m s res s'"
proof -
  obtain place s1 where p: "(if group_held_locks se t s \<noteq> 0
      then sleep_scan se tab t m (group_held_locks se t s) (waitProcs (lock_at s t)) 0 0 s
      else (Insert_at (length (waitProcs (lock_at s t))) False, s)) = (place, s1)" by fastforce
  note pl = sleep_place_spec[OF rs me str st p]
  show ?thesis
  proof (cases place)
    case Grant_now
    then have "res = Inr STATUS_OK" "s' = GrantLock t me m s1" using r p unfolding ProcSleep_def Let_def me by auto
    then show ?thesis using sleep_granted[OF rs pl(1)] pl(2) Grant_now by auto
  next
    case (Insert_at j early)
    obtain status s2 where c: "(if StreamTopConsumerAmI se \<or> StreamThreadAmI se then LockCheckConflicts se tab m t me s1
        else (STATUS_FOUND, s1)) = (status, s2)" by fastforce
    have "same_core s2 s1" using c LockCheckConflicts_core by (auto split: if_splits)
    note sc2 = same_core_trans[OF this pl(1)]
    have unf: "(res, s') = (if status = STATUS_OK then (Inr STATUS_OK, GrantLock t me m s2)
        else if waitStatus (procs s2 me) = STATUS_WAITING then (Inl ERRCODE_DATA_CORRUPTED, s2)
        else let s = sleep_enqueue me t m j s2 in
          if early then (Inr STATUS_ERROR, RemoveFromWaitQueue se me s) else (Inr STATUS_WAITING, s))"
      using r p c Insert_at unfolding ProcSleep_def Let_def me by simp
    show ?thesis
    proof (cases "status = STATUS_OK")
      case True
      have rs1: "requested_state R t me m s1" using rs requested_state_core[OF pl(1)] by simp
      obtain l where l: "LockHash s1 t = Some l" "me \<in> set (procLocks l)"
        using table_wfD(8)[OF requested_stateD(1)[OF rs1]] by auto
      have chk: "LockCheckConflicts se tab m t me s1 = (STATUS_OK, s2)" using c True by (auto split: if_splits)
      have str1: "streams_in R se s1" using str streams_in_cong[of s1 s] same_coreD(10)[OF pl(1)] by simp
      show ?thesis
        using sleep_granted[OF rs sc2] may_grant[OF requested_stateD(1)[OF rs1] l requested_stateD(5)[OF rs] chk str1]
          unf True by auto
    next
      case False
      have "requested_state R t me m s2" using rs requested_state_core[OF sc2] by simp
      then have "off_queue s2 me" using table_wfD(10) requested_stateD(1) by blast
      then have "waitStatus (procs s2 me) \<noteq> STATUS_WAITING" by (simp add: off_queue_def)
      then show ?thesis
        using sleep_queued[OF rs me str tb sc2 pl(3)[OF Insert_at]] unf False by (auto simp: Let_def split: if_splits)
    qed
  qed
qed

lemma ProcSleep_spec:
  assumes "requested_state R t (my_proc se) m s" "streams_in R se s" "stuck s t (queue s t) (my_proc se) m"
    "GetLocksMethodTable t = tab" "ProcSleep se tab t m s = (res, s')"
  shows "lock_inv tab R s' \<and> leader_of s' = leader_of s \<and> (\<forall>q. pid (procs s' q) = pid (procs s q)) \<and>
    (res = Inr STATUS_OK \<and> holds s' t (my_proc se) m \<and> off_queue s' (my_proc se) \<or>
     res = Inr STATUS_WAITING \<and> my_proc se \<in> set (queue s' t) \<and> want_of s' (my_proc se) = m \<or>
     res = Inr STATUS_ERROR \<and> off_queue s' (my_proc se))"
  using ProcSleep_outcome[OF assms(1) refl assms(2-5)] by (simp add: sleep_outcome_def)

section \<open>Acquiring\<close>

lemma note_waiter_status: "note_waiter se tab t m s = (status, s') \<Longrightarrow> status \<noteq> STATUS_OK"
  by (auto simp: note_waiter_def Let_def split: if_splits option.splits)

lemma undo_request_pid: "pid (procs (undo_request t p m s) q) = pid (procs s q)"
  by (simp add: undo_request_def Let_def delete_proclock_def)

lemma same_core_wait_upd:
  "same_core (upd_proc p (\<lambda>q. q\<lparr>heldLocks := h\<rparr>) s) s" "same_core (upd_proc p (\<lambda>q. q\<lparr>blocking_redistribution_proc := r, redistribution_cancelable := b\<rparr>) s) s"
  by (rule same_core_upd_proc, simp add: core_proc_def)+

lemma SetupLockInTable_want: "SetupLockInTable room p t i m s = (res, s') \<Longrightarrow> want_of s' = want_of s"
  by (auto simp: SetupLockInTable_def Let_def new_proclock_def fun_eq_iff split: if_splits)

text \<open>The ways a request ends, for the process that makes it.\<close>

definition acquire_post :: "(procno \<Rightarrow> procno \<Rightarrow> bool) \<Rightarrow> LOCKTAG \<Rightarrow> procno \<Rightarrow> LOCKMODE \<Rightarrow> bool \<Rightarrow> bool \<Rightarrow>
    lock_space \<Rightarrow> acquire_outcome \<Rightarrow> lock_space \<Rightarrow> bool" where
  "acquire_post R t p m dontWait reportMemoryError s res s' \<longleftrightarrow>
     lock_inv tab R s' \<and> leader_of s' = leader_of s \<and> (\<forall>q. pid (procs s' q) = pid (procs s q)) \<and>
     (res = LOCKACQUIRE_OK \<and> holds s' t p m \<and> off_queue s' p \<or>
      res = Asleep \<and> \<not> dontWait \<and> p \<in> set (queue s' t) \<and> want_of s' p = m \<or>
      res = LOCKACQUIRE_NOT_AVAIL \<and> (dontWait \<or> \<not> reportMemoryError) \<and> holds s' = holds s \<and>
        queue s' = queue s \<and> off_queue s' p \<or>
      res = Raised ERRCODE_OUT_OF_MEMORY \<and> reportMemoryError \<and> s' = s \<or>
      res = Raised ERRCODE_T_R_DEADLOCK_DETECTED \<and> \<not> dontWait \<and> off_queue s' p)"

lemma acquire_wait_spec:
  assumes rs: "requested_state R t (my_proc se) m s" and str: "streams_in R se s"
    and stk: "stuck s t (queue s t) (my_proc se) m" and tb: "GetLocksMethodTable t = tab"
    and r: "acquire_wait se tab t m status s = (res, s')"
  shows "acquire_post R t (my_proc se) m False rep s res s'"
proof -
  define me where "me = my_proc se"
  define s3 where "s3 = (if status = STATUS_FOUND_NEED_CANCEL
         then upd_proc me (\<lambda>p. p\<lparr>blocking_redistribution_proc := None, redistribution_cancelable := False\<rparr>) s else s)"
  define s4 where "s4 = upd_proc me (\<lambda>p. p\<lparr>heldLocks := holdMask (proclock_at s3 (t, me))\<rparr>) s3"
  have "same_core s3 s" using same_core_wait_upd by (simp add: s3_def)
  moreover have "same_core s4 s3" unfolding s4_def by (rule same_core_wait_upd)
  ultimately have sc4: "same_core s4 s" using same_core_trans by blast
  have rs4: "requested_state R t me m s4" using rs requested_state_core[OF sc4] by (simp add: me_def)
  have str4: "streams_in R se s4" using str streams_in_cong[of s4 s] same_coreD(10)[OF sc4] by simp
  have stk4: "stuck s4 t (queue s4 t) me m"
    using stk stuck_core[OF sc4] same_core_views(1)[OF sc4] by (simp add: me_def)
  obtain ps s5 where ps: "ProcSleep se tab t m s4 = (ps, s5)" by fastforce
  note sl = ProcSleep_spec[OF rs4[unfolded me_def] str4 stk4[unfolded me_def] tb ps]
  have v5: "pid (procs s5 q) = pid (procs s q)" "leader_of s5 = leader_of s" for q
    using sl same_coreD(10)[OF sc4] same_core_views(3)[OF sc4] by simp_all
  have unf5: "(res, s') = (case (ps, s5) of (Inl e, s) \<Rightarrow> (Raised e, s)
   | (Inr status, s) \<Rightarrow>
       if status = STATUS_WAITING then (Asleep, s)
       else if status \<noteq> STATUS_OK then (Raised ERRCODE_T_R_DEADLOCK_DETECTED, s)
       else if holdMask (proclock_at s (t, me)) AND LOCKBIT_ON m = 0
       then (Raised ERRCODE_LOCK_NOT_AVAILABLE, s)
       else (LOCKACQUIRE_OK, s))"
    using r ps unfolding acquire_wait_def Let_def s3_def s4_def me_def by simp
  have "holdMask (proclock_at s5 (t, me)) AND LOCKBIT_ON m \<noteq> 0" if "holds s5 t me m"
    using that by (auto simp: holds_def split: option.splits)
  then show ?thesis
    using sl unf5 v5 unfolding acquire_post_def me_def by (auto split: if_splits sum.splits)
qed

lemma stuck_other:
  assumes wf: "table_wf tab pend s" and l: "LockHash s t = Some l" and off: "off_queue s p"
    and stk: "stuck s t (queue s t) p m"
  shows "\<exists>q. q \<noteq> p \<and> q \<in> set (procLocks l)"
proof -
  note lw = table_wfD(1)[OF wf l]
  have nq: "p \<notin> set (queue s t)" using table_wfD(5)[OF wf] off off_not_on by blast
  consider q where "q \<in> set (queue s t)" | q n where "holds s t q n" "leader_of s q \<noteq> leader_of s p"
    using stk by (auto simp: stuck_def hard_blocked_def)
  then show ?thesis
  proof cases
    case (1 q)
    then show ?thesis using lock_wfD(3)[OF lw] l nq by (auto simp: queue_def)
  next
    case (2 q n)
    then have "q \<in> set (procLocks l)" using holdsD[OF wf] l by (metis option.inject)
    then show ?thesis using 2 by auto
  qed
qed

text \<open>The conflict test of a request that was set up, waiters included.\<close>

lemma request_test_spec:
  assumes rs: "requested_state R t p m s" and l: "LockHash s t = Some l" "p \<in> set (procLocks l)"
    and c: "(if conflictTab tab ! m AND waitMask (lock_at s t) \<noteq> 0 then note_waiter se tab t m s
      else LockCheckConflicts se tab m t p s) = (status, s')"
  shows "same_core s' s" "status \<noteq> STATUS_OK \<Longrightarrow> stuck s t (queue s t) p m"
    "status = STATUS_OK \<Longrightarrow> LockCheckConflicts se tab m t p s = (STATUS_OK, s')"
proof -
  note D = requested_stateD[OF rs]
  note lw = table_wfD(1)[OF D(1) l(1)]
  show "same_core s' s" using c note_waiter_core LockCheckConflicts_core by (auto split: if_splits)
  show "LockCheckConflicts se tab m t p s = (STATUS_OK, s')" if "status = STATUS_OK"
    using that c note_waiter_status[of se t m s STATUS_OK s'] by (auto split: if_splits)
  show "stuck s t (queue s t) p m" if "status \<noteq> STATUS_OK"
  proof (cases "conflictTab tab ! m AND waitMask (lock_at s t) \<noteq> 0")
    case True
    then obtain n where "conflicts tab m n" "bit (waitMask l) n" using l by (auto simp: mask_and_nonzero conflicts_def)
    then show ?thesis using lock_wfD(15)[OF lw] l by (auto simp: stuck_def queue_def)
  next
    case False
    then show ?thesis using LockCheckConflicts_spec(3)[OF D(1) l D(5)] c that by (auto simp: stuck_def)
  qed
qed

lemma LockAcquire_spec:
  assumes inv: "lock_inv tab R s" and off: "off_queue s (my_proc se)" and m: "valid_mode tab m"
    and nh: "\<not> holds s t (my_proc se) m" and str: "streams_in R se s" and tb: "GetLocksMethodTable t = tab"
    and r: "LockAcquire_shared se tab room t i m dontWait reportMemoryError s = (res, s')"
  shows "acquire_post R t (my_proc se) m dontWait reportMemoryError s res s'"
    and "room = (True, True) \<Longrightarrow> \<not> stuck s t (queue s t) (my_proc se) m \<Longrightarrow> res = LOCKACQUIRE_OK"
proof -
  define me where "me = my_proc se"
  obtain out s1 where su: "SetupLockInTable room me t i m s = (out, s1)" by fastforce
  note set_up = SetupLockInTable_spec[OF inv off[folded me_def] m nh[folded me_def] su]
  have full: "room \<noteq> (True, True)" if "out = No_memory"
    using su that by (auto simp: SetupLockInTable_def Let_def split: if_splits)
  have "acquire_post R t me m dontWait reportMemoryError s res s' \<and>
    (room = (True, True) \<longrightarrow> \<not> stuck s t (queue s t) me m \<longrightarrow> res = LOCKACQUIRE_OK)"
  proof (cases "out = No_memory")
    case True
    then show ?thesis using r su set_up inv off full
      by (cases reportMemoryError) (auto simp: LockAcquire_shared_def me_def acquire_post_def)
  next
    case False
    then have out: "out = Setup" and rs: "requested_state R t me m s1"
      and v1: "holds s1 = holds s" "queue s1 = queue s" "leader_of s1 = leader_of s"
        "\<And>q. pid (procs s1 q) = pid (procs s q)"
      using set_up by auto
    note D = requested_stateD[OF rs]
    have w1: "want_of s1 = want_of s"
      using su SetupLockInTable_want by (metis)
    obtain l where l: "LockHash s1 t = Some l" "me \<in> set (procLocks l)" using table_wfD(8)[OF D(1)] by blast
    have off1: "off_queue s1 me" using table_wfD(10)[OF D(1)] by blast
    have str1: "streams_in R se s1" using str streams_in_cong[of s1 s] v1(4) by simp
    obtain status s2 where c: "(if conflictTab tab ! m AND waitMask (lock_at s1 t) \<noteq> 0 then note_waiter se tab t m s1
                 else LockCheckConflicts se tab m t me s1) = (status, s2)" by fastforce
    note tst = request_test_spec[OF rs l c]
    have rs2: "requested_state R t me m s2" using rs requested_state_core[OF tst(1)] by simp
    note v2 = same_core_views[OF tst(1)] same_coreD[OF tst(1)]
    have str2: "streams_in R se s2" using str1 streams_in_cong[of s2 s1] v2 by simp
    have unf: "(res, s') = (if status = STATUS_OK then (LOCKACQUIRE_OK, GrantLock t me m s2)
             else if dontWait then (LOCKACQUIRE_NOT_AVAIL, undo_request t me m s2)
             else acquire_wait se tab t m status s2)"
      using r su c out unfolding LockAcquire_shared_def Let_def me_def by simp
    show ?thesis
    proof (cases "status = STATUS_OK")
      case True
      note g = grant_spec[OF rs2 may_grant[OF D(1) l D(5) tst(3)[OF True] str1]]
      show ?thesis using g unf True v1 v2 by (auto simp: acquire_post_def)
    next
      case bad: False
      note stk = tst(2)[OF bad]
      have stk0: "stuck s t (queue s t) me m" using stk v1 w1 by (simp add: stuck_def hard_blocked_def fun_eq_iff)
      have stk2: "stuck s2 t (queue s2 t) me m" using stk stuck_core[OF tst(1)] v2(1) by simp
      show ?thesis
      proof (cases dontWait)
        case True
        have "\<exists>q. q \<noteq> me \<and> (\<exists>l. LockHash s2 t = Some l \<and> q \<in> set (procLocks l))"
          using stuck_other[OF D(1) l(1) off1 stk] l(1) v2(7) by auto
        note u = undo_request_spec[OF rs2 this]
        have rs': "res = LOCKACQUIRE_NOT_AVAIL" "s' = undo_request t me m s2" using unf bad True by simp_all
        have "holds s' = holds s" "queue s' = queue s" "leader_of s' = leader_of s" "pid (procs s' q) = pid (procs s q)" for q
          using u v1 v2(1,2,3) same_coreD(10)[OF tst(1)] undo_request_pid[of t me m s2] by (simp_all add: rs'(2))
        then show ?thesis using u(1,4) stk0 True by (simp add: acquire_post_def rs')
      next
        case False
        then have "acquire_post R t me m False rep s2 res s'" for rep
          using acquire_wait_spec[of R t se m s2 status res s' rep] rs2 str2 stk2 tb unf bad
          by (simp add: me_def)
        from this[of True] this[of False] show ?thesis
          using False v1(3,4) v2(3) same_coreD(10)[OF tst(1)] stk0 by (auto simp: acquire_post_def)
      qed
    qed
  qed
  then show "acquire_post R t (my_proc se) m dontWait reportMemoryError s res s'"
    "room = (True, True) \<Longrightarrow> \<not> stuck s t (queue s t) (my_proc se) m \<Longrightarrow> res = LOCKACQUIRE_OK"
    by (simp_all add: me_def)
qed

end

end
