(* ===== verification/Lock_Trace.thy ===== *)
theory Lock_Trace
  imports Lock_Acquire "HOL-Library.Multiset"
begin

text \<open>
  All histories of the shared lock table. A step is one operation of one backend under the partition
  locks it takes: acquiring, releasing one mode or, at the end of a transaction, all marked modes of
  a proclock, giving up a wait, rearranging a queue after a deadlock check, founding or joining a
  lock group. The invariant \<open>lock_inv\<close> holds in every reachable state.
\<close>

section \<open>Rearranging\<close>

lemma lock_wf_perm:
  assumes wf: "lock_wf tab hold want pend l" and m: "mset ps = mset (waitProcs l)"
  shows "lock_wf tab hold want pend (l\<lparr>waitProcs := ps\<rparr>)"
proof -
  have f: "length (filter P ps) = length (filter P (waitProcs l))" for P
    using m by (metis mset_filter size_mset)
  have s: "set ps = set (waitProcs l)" and d: "distinct ps = distinct (waitProcs l)"
    using m by (auto dest: mset_eq_setD mset_eq_imp_distinct_iff)
  show ?thesis using wf unfolding lock_wf_def by (simp add: f s d)
qed

lemma relink_queue:
  assumes l: "LockHash s t = Some l" and on: "\<And>p. p \<in> set ps \<Longrightarrow> links (procs s p)"
  shows "fold (\<lambda>p s. upd_proc p (\<lambda>q. q\<lparr>links := True\<rparr>)
      (set_lock t ((lock_at s t)\<lparr>waitProcs := waitProcs (lock_at s t) @ [p]\<rparr>) s)) ps s =
    s\<lparr>LockHash := (LockHash s)(t \<mapsto> l\<lparr>waitProcs := waitProcs l @ ps\<rparr>)\<rparr>"
  using assms
proof (induction ps arbitrary: s l)
  case Nil
  then show ?case by (simp add: fun_upd_idem)
next
  case (Cons p ps)
  define s1 where "s1 = set_lock t (l\<lparr>waitProcs := waitProcs l @ [p]\<rparr>) s"
  have "(procs s p)\<lparr>links := True\<rparr> = procs s p" using Cons.prems(2)[of p] by simp
  then have "upd_proc p (\<lambda>q. q\<lparr>links := True\<rparr>) s1 = s1" by (simp add: upd_proc_def s1_def set_lock_def fun_upd_idem)
  then have "fold (\<lambda>p s. upd_proc p (\<lambda>q. q\<lparr>links := True\<rparr>)
      (set_lock t ((lock_at s t)\<lparr>waitProcs := waitProcs (lock_at s t) @ [p]\<rparr>) s)) (p # ps) s =
      fold (\<lambda>p s. upd_proc p (\<lambda>q. q\<lparr>links := True\<rparr>)
      (set_lock t ((lock_at s t)\<lparr>waitProcs := waitProcs (lock_at s t) @ [p]\<rparr>) s)) ps s1"
    using Cons.prems(1) by (simp add: s1_def)
  also have "\<dots> = s1\<lparr>LockHash := (LockHash s1)(t \<mapsto> l\<lparr>waitProcs := (waitProcs l @ [p]) @ ps\<rparr>)\<rparr>"
    by (subst Cons.IH[of s1 "l\<lparr>waitProcs := waitProcs l @ [p]\<rparr>"]) (use Cons.prems in \<open>auto simp: s1_def\<close>)
  also have "\<dots> = s\<lparr>LockHash := (LockHash s)(t \<mapsto> l\<lparr>waitProcs := waitProcs l @ p # ps\<rparr>)\<rparr>"
    by (intro lock_space.equality) (auto simp: s1_def fun_eq_iff)
  finally show ?case .
qed

context lock_method
begin

lemma rearrange_spec:
  assumes inv: "lock_inv tab R s" and q: "queue s t \<noteq> []" and m: "mset ps = mset (queue s t)"
    and str: "streams_in R se s" and tb: "GetLocksMethodTable t = tab"
  shows "lock_inv tab R (apply_wait_order se (t, ps) s)"
    "leader_of (apply_wait_order se (t, ps) s) = leader_of s"
    "pid (procs (apply_wait_order se (t, ps) s) p) = pid (procs s p)"
    "want_of (apply_wait_order se (t, ps) s) = want_of s"
    "t' \<noteq> t \<Longrightarrow> LockHash (apply_wait_order se (t, ps) s) t' = LockHash s t'"
    "t' \<noteq> t \<Longrightarrow> holds (apply_wait_order se (t, ps) s) t' q n = holds s t' q n"
    "wakes_in_order s ps (queue (apply_wait_order se (t, ps) s) t)"
    "holds (apply_wait_order se (t, ps) s) t q n \<longleftrightarrow>
       holds s t q n \<or> q \<in> set ps - set (queue (apply_wait_order se (t, ps) s) t) \<and> want_of s q = n"
proof -
  note D = lock_invD[OF inv]
  note W = table_wfD[OF D(1)]
  obtain l where l: "LockHash s t = Some l" using q by (cases "LockHash s t") (auto simp: queue_def)
  have ql: "queue s t = waitProcs l" using l by (simp add: queue_def)
  have ms: "set ps = set (queue s t)" using m by (auto dest: mset_eq_setD)
  define s1 where "s1 = set_lock t (l\<lparr>waitProcs := ps\<rparr>) s"
  have on: "links (procs s p)" if "p \<in> set ps" for p using W(5) that ms by (auto simp: on_queue_def)
  have eq: "apply_wait_order se (t, ps) s = ProcLockWakeup se tab t None s1"
    using relink_queue[of "set_lock t (l\<lparr>waitProcs := []\<rparr>) s" t "l\<lparr>waitProcs := []\<rparr>" ps] on l tb
    by (simp add: apply_wait_order_def Let_def s1_def set_lock_def)
  have v: "leader_of s1 = leader_of s" "holds s1 = holds s" "want_of s1 = want_of s" "procs s1 = procs s"
    "queue s1 = (queue s)(t := ps)"
    using l by (auto simp: s1_def leader_of_def holds_def queue_def fun_eq_iff)
  have wf1: "table_wf tab None s1"
  proof (rule table_wf_change[OF D(1), where t = t and X = "{}"])
    show "lock_wf tab (hold_of s1 t) (want_of s1) (pend_mode None t) k" if "LockHash s1 t = Some k" for k
      using that lock_wf_perm[OF W(1)[OF l], of ps] m ql by (simp add: s1_def)
  qed (use l v ms W(2,3,4)[of t] in \<open>auto simp: s1_def same_wait_def\<close>)
  have td1: "tidy None s1" using D(2) l ms ql by (auto simp: tidy_def s1_def)
  have ex1: "excl tab R s1" using D(3) v by (simp add: excl_def)
  have str1: "streams_in R se s1" using str streams_in_cong[of s1 s] v by simp
  have l1: "LockHash s1 t = Some (l\<lparr>waitProcs := ps\<rparr>)" by (simp add: s1_def)
  note sp = ProcLockWakeup_spec[OF wf1 td1 ex1 str1 l1, where pl = None]
  define s2 where "s2 = ProcLockWakeup se tab t None s1"
  have "queue s2 t' = queue s t'" if "t' \<noteq> t" for t'
    using sp(4) that by (simp add: grants_on_def queue_def s2_def s1_def)
  moreover have "all_blocked tab s1 t' (queue s t')" for t'
    using D(4)[of t'] all_blocked_views[OF v(2,1)] v(4) by simp
  ultimately have "all_blocked tab s2 t' (queue s2 t')" for t'
    using sp(5) grants_on_blocked[OF sp(4)] by (cases "t' = t") (auto simp: s2_def)
  then show "lock_inv tab R (apply_wait_order se (t, ps) s)"
    using sp unfolding eq by (simp add: lock_inv_def s2_def)
  show "leader_of (apply_wait_order se (t, ps) s) = leader_of s"
    "pid (procs (apply_wait_order se (t, ps) s) p) = pid (procs s p)"
    using sp(4) v unfolding eq by (auto simp: grants_on_def)
  note g = grants_onD[OF sp(4), folded eq]
  show "want_of (apply_wait_order se (t, ps) s) = want_of s" using g(2) v(3) by simp
  show "t' \<noteq> t \<Longrightarrow> LockHash (apply_wait_order se (t, ps) s) t' = LockHash s t'" using g(4) by (simp add: s1_def)
  show "t' \<noteq> t \<Longrightarrow> holds (apply_wait_order se (t, ps) s) t' q n = holds s t' q n" using g(5) v(2) by simp
  show "wakes_in_order s ps (queue (apply_wait_order se (t, ps) s) t)"
    using sp(6) v(4,5) unfolding eq wakes_in_order_def by simp
  show "holds (apply_wait_order se (t, ps) s) t q n \<longleftrightarrow>
       holds s t q n \<or> q \<in> set ps - set (queue (apply_wait_order se (t, ps) s) t) \<and> want_of s q = n"
    using g(7)[of q n] v(2,4,5) by simp
qed

end

section \<open>Lock groups\<close>

lemma leader_step_views:
  assumes "lockGroupLeader (procs s (my_proc se)) = None \<or> lockGroupLeader (procs s (my_proc se)) = Some (my_proc se)"
  defines "s' \<equiv> BecomeLockGroupLeader se s"
  shows "leader_of s' = leader_of s" "LockHash s' = LockHash s" "ProcLockHash s' = ProcLockHash s"
    "pid (procs s' p) = pid (procs s p)" "same_wait s' s p" "groups_wf s \<Longrightarrow> groups_wf s'"
  using assms(1) by (auto simp: s'_def BecomeLockGroupLeader_def Let_def leader_of_def fun_eq_iff same_wait_def
      groups_wf_def split: option.splits)

lemma member_step_views:
  assumes "lockGroupLeader (procs s leader) = Some leader" "my_proc se \<noteq> leader"
  defines "s' \<equiv> BecomeLockGroupMember se leader s"
  shows "leader_of s' = (leader_of s)(my_proc se := leader)" "LockHash s' = LockHash s"
    "ProcLockHash s' = ProcLockHash s" "pid (procs s' p) = pid (procs s p)" "same_wait s' s p"
    "groups_wf s \<Longrightarrow> lockGroupLeader (procs s (my_proc se)) = None \<Longrightarrow> groups_wf s'"
  using assms(1,2) by (auto simp: s'_def BecomeLockGroupMember_def leader_of_def fun_eq_iff same_wait_def
      groups_wf_def split: option.splits)

lemma regroup_inv:
  assumes inv: "lock_inv tab R s"
    and s': "LockHash s' = LockHash s" "ProcLockHash s' = ProcLockHash s" "\<And>p. same_wait s' s p" "groups_wf s'"
    and free: "\<And>t p. leader_of s' p \<noteq> leader_of s p \<Longrightarrow> ProcLockHash s (t, p) = None"
  shows "lock_inv tab R s'"
proof -
  note D = lock_invD[OF inv]
  note W = table_wfD[OF D(1)]
  have w: "want_of s' = want_of s" using s'(3) by (auto simp: fun_eq_iff same_wait_def)
  have v: "queue s' = queue s" "holds s' = holds s" using s' by (auto simp: queue_def holds_def fun_eq_iff)
  have lead: "leader_of s' p = leader_of s p" if "ProcLockHash s (t, p) = Some pl" for t p pl
    using free[of p t] that by auto
  have leadh: "leader_of s' p = leader_of s p" if "holds s t p m" for t p m
    using that lead by (auto simp: holds_def split: option.splits)
  have wf: "table_wf tab None s'"
    using D(1) lead s' same_wait_queue[OF s'(3)] v w unfolding table_wf_def by (auto simp: holds_def)
  have leadq: "leader_of s' p = leader_of s p" if "p \<in> set (queue s t)" for t p
  proof -
    from that obtain l where l: "LockHash s t = Some l" "p \<in> set (waitProcs l)" by (rule queueE)
    then have "p \<in> set (procLocks l)" using lock_wfD(3)[OF W(1)[OF l(1)]] by blast
    then show ?thesis using W(2)[OF l(1)] lead by blast
  qed
  have ex: "excl tab R s'" using D(3) leadh unfolding excl_def v by metis
  have "all_blocked tab s' t (queue s' t)" for t
    unfolding v using D(4)[of t]
    by (rule all_blocked_mono) (use w leadh leadq v in \<open>auto simp: hard_blocked_def fun_eq_iff, metis\<close>)
  moreover have "tidy None s'" using D(2) s' by (simp add: tidy_def)
  ultimately show ?thesis using wf ex by (simp add: lock_inv_def)
qed

section \<open>Histories\<close>

definition lock_space_init :: "(procno \<Rightarrow> nat) \<Rightarrow> (procno \<Rightarrow> uint8) \<Rightarrow> lock_space" where
  "lock_space_init pids flags = \<lparr>LockHash = \<lambda>t. None, ProcLockHash = \<lambda>k. None,
     procs = \<lambda>p. \<lparr>pid = pids p, links = False, waitStatus = STATUS_OK, waitLock = None, waitProcLock = None,
       waitLockMode = 0, heldLocks = 0, blockProcLock = None, myProcLocks = \<lambda>i. [], lockGroupLeader = None,
       lockGroupMembers = [], vacuumFlags = flags p, conflicting_lock_by_holdlock = False,
       conflicting_lock_mode_name = [], conflicting_lock_thread_id = 0, blocking_redistribution_proc = None,
       redistribution_cancelable = False, deadlockDetails = []\<rparr>\<rparr>"

definition known_method :: "LOCKTAG \<Rightarrow> bool" where
  "known_method t \<longleftrightarrow> locktag_lockmethodid t = DEFAULT_LOCKMETHOD \<or> locktag_lockmethodid t = USER_LOCKMETHOD"

lemma known_method_table: "known_method t \<Longrightarrow> GetLocksMethodTable t = default_lockmethod"
  by (auto simp: known_method_def GetLocksMethodTable_def LockMethods_def DEFAULT_LOCKMETHOD_def
      USER_LOCKMETHOD_def user_lockmethod_def default_lockmethod_def)

text \<open>
  One operation of one backend. A backend acquires and releases only while it runs, asks only for modes
  it does not hold (its local lock table counts further requests), and joins a group before it has
  any locks, as the comment in \<open>SetupLockInTable\<close> explains. \<open>R\<close> contains the pairs of processes that
  stream contexts treat as one transaction. \<open>LockReleaseAll\<close> marks the modes to be released in the
  proclocks of the process and then takes one \<open>release_all\<close> step for each of them. A deadlock check also leaves notes in fields of the backend's
  thread, which are not part of the lock table.
\<close>

inductive lock_step :: "(procno \<Rightarrow> procno \<Rightarrow> bool) \<Rightarrow> lock_space \<Rightarrow> lock_space \<Rightarrow> bool"
  for R :: "procno \<Rightarrow> procno \<Rightarrow> bool" where
  acquire: "\<lbrakk>streams_in R se s; known_method t; off_queue s (my_proc se); valid_mode default_lockmethod m;
     \<not> holds s t (my_proc se) m;
     LockAcquire_shared se (GetLocksMethodTable t) room t i m dontWait reportMemoryError s = (res, s')\<rbrakk> \<Longrightarrow>
     lock_step R s s'"
| release: "\<lbrakk>streams_in R se s; known_method t; off_queue s p;
     LockRefindAndRelease se (GetLocksMethodTable t) p t m s = (res, s')\<rbrakk> \<Longrightarrow> lock_step R s s'"
| mark_release: "ProcLockHash s (t, p) = Some pl \<Longrightarrow> lock_step R s (set_proclock (t, p) (pl\<lparr>releaseMask := msk\<rparr>) s)"
| release_all: "\<lbrakk>streams_in R se s; known_method t; off_queue s (my_proc se); ProcLockHash s (t, my_proc se) = Some pl;
     release_proclock se lockmethodid allLocks t s = Inr s'\<rbrakk> \<Longrightarrow> lock_step R s s'"
| give_up: "\<lbrakk>streams_in R se s; known_method t; p \<in> set (queue s t)\<rbrakk> \<Longrightarrow>
     lock_step R s (RemoveFromWaitQueue se p s)"
| rearrange: "\<lbrakk>streams_in R se s; known_method t; queue s t \<noteq> []; mset ps = mset (queue s t)\<rbrakk> \<Longrightarrow>
     lock_step R s (apply_wait_order se (t, ps) s)"
| remark: "lock_step R s (upd_proc p (\<lambda>q. q\<lparr>blocking_redistribution_proc := r, deadlockDetails := d\<rparr>) s)"
| found_group: "\<lbrakk>lockGroupLeader (procs s (my_proc se)) = None \<or> lockGroupLeader (procs s (my_proc se)) = Some (my_proc se)\<rbrakk> \<Longrightarrow>
     lock_step R s (BecomeLockGroupLeader se s)"
| join_group: "\<lbrakk>lockGroupLeader (procs s (my_proc se)) = None; my_proc se \<noteq> leader;
     lockGroupLeader (procs s leader) = Some leader; \<And>t. ProcLockHash s (t, my_proc se) = None\<rbrakk> \<Longrightarrow>
     lock_step R s (BecomeLockGroupMember se leader s)"

inductive lock_reach :: "(procno \<Rightarrow> procno \<Rightarrow> bool) \<Rightarrow> lock_space \<Rightarrow> bool"
  for R :: "procno \<Rightarrow> procno \<Rightarrow> bool" where
  start: "lock_reach R (lock_space_init pids flags)"
| step: "lock_reach R s \<Longrightarrow> lock_step R s s' \<Longrightarrow> lock_reach R s'"

lemma lock_init_inv: "lock_inv default_lockmethod R (lock_space_init pids flags)"
  by (simp add: lock_inv_def table_wf_def tidy_def excl_def holds_def lock_space_init_def queue_def
      off_queue_def groups_wf_def)

lemma LockRefindAndRelease_inv:
  assumes inv: "lock_inv default_lockmethod R s" and off: "off_queue s p" and str: "streams_in R se s"
    and r: "LockRefindAndRelease se default_lockmethod p t m s = (res, s')"
  shows "lock_inv default_lockmethod R s'"
    and "res = Released \<longleftrightarrow> holds s t p m" and "res \<noteq> Released \<Longrightarrow> s' = s"
    and "res = Panic e \<Longrightarrow> ProcLockHash s (t, p) = None"
    and "res = Released \<Longrightarrow> holds s' t' q n \<longleftrightarrow> holds s t' q n \<and> (t', q, n) \<noteq> (t, p, m) \<or>
      t' = t \<and> q \<in> set (queue s t) - set (queue s' t) \<and> want_of s q = n"
    and "res = Released \<Longrightarrow> t' \<noteq> t \<Longrightarrow> queue s' t' = queue s t'"
proof -
  note W = table_wfD[OF lock_invD(1)[OF inv]]
  obtain wk s1 where u: "UnGrantLock default_lockmethod t m p s = (wk, s1)" by fastforce
  have un: "(res, s') = (case LockHash s t of
        None \<Rightarrow> (Panic ERRCODE_WRONG_OBJECT_TYPE, s)
      | Some lock \<Rightarrow>
          (case ProcLockHash s (t, p) of
             None \<Rightarrow> (Panic ERRCODE_WRONG_OBJECT_TYPE, s)
           | Some proclock \<Rightarrow>
               if \<not> bit (holdMask proclock) m then (Not_owned, s)
               else (Released, CleanUpLock se default_lockmethod t p wk s1)))"
    using r u by (auto simp: LockRefindAndRelease_def split: option.splits if_splits)
  have lk: "LockHash s t = None \<Longrightarrow> ProcLockHash s (t, p) = None"
    using W(3)[of t p] by (cases "ProcLockHash s (t, p)") auto
  show "lock_inv default_lockmethod R s'"
    using un inv dm.release_spec(1)[OF inv _ off str u]
    by (auto simp: holds_def split: option.splits if_splits)
  show "res = Released \<longleftrightarrow> holds s t p m" "res \<noteq> Released \<Longrightarrow> s' = s" "res = Panic e \<Longrightarrow> ProcLockHash s (t, p) = None"
    using un lk by (auto simp: holds_def split: option.splits if_splits)
  assume rel: "res = Released"
  then have h: "holds s t p m" and s': "s' = CleanUpLock se default_lockmethod t p wk s1"
    using un by (auto simp: holds_def split: option.splits if_splits)
  note g = grants_onD[OF dm.release_spec(2)[OF inv h off str u], folded s']
  note ug = dm.UnGrantLock_wf[OF lock_invD(1)[OF inv] h u]
  show "holds s' t' q n \<longleftrightarrow> holds s t' q n \<and> (t', q, n) \<noteq> (t, p, m) \<or>
      t' = t \<and> q \<in> set (queue s t) - set (queue s' t) \<and> want_of s q = n"
    using g(5,7) ug(2,4,5) by (cases "t' = t") auto
  show "t' \<noteq> t \<Longrightarrow> queue s' t' = queue s t'" using g(4) ug(7) by (simp add: queue_def)
qed

lemma lock_step_inv:
  assumes "lock_step R s s'" and inv: "lock_inv default_lockmethod R s"
  shows "lock_inv default_lockmethod R s'"
  using assms
proof (induction rule: lock_step.induct)
  case (acquire se s t m room i dontWait reportMemoryError res s')
  then show ?case
    using dm.LockAcquire_spec(1)[OF _ _ _ _ _ known_method_table] known_method_table
    unfolding dm.acquire_post_def by metis
next
  case (release se s t p m res s')
  then show ?case using LockRefindAndRelease_inv(1) known_method_table by metis
next
  case (mark_release s t p pl msk)
  then show ?case by (simp add: dm.release_mask_inv)
next
  case (release_all se s t pl lockmethodid allLocks s')
  then show ?case using dm.release_proclock_spec(1) known_method_table by blast
next
  case (give_up se s t p)
  note D = lock_invD[OF give_up.prems]
  show ?case
    by (rule dm.RemoveFromWaitQueue_spec(1)[OF D(1,2,3,4) give_up(3,1) known_method_table[OF give_up(2)]])
next
  case (rearrange se s t ps)
  then show ?case using dm.rearrange_spec(1) known_method_table by blast
next
  case (remark s p d r)
  have "same_core (upd_proc p (\<lambda>q. q\<lparr>blocking_redistribution_proc := r, deadlockDetails := d\<rparr>) s) s"
    by (rule same_core_upd_proc) (simp add: core_proc_def)
  then show ?case using same_core_lock_inv remark by blast
next
  case (found_group s se)
  note v = leader_step_views[OF found_group(1)]
  show ?case
    by (rule regroup_inv[OF found_group.prems]) (use v table_wfD(7)[OF lock_invD(1)[OF found_group.prems]] in auto)
next
  case (join_group s se leader)
  note v = member_step_views[OF join_group(3,2)]
  show ?case
    by (rule regroup_inv[OF join_group.prems])
      (use v join_group table_wfD(7)[OF lock_invD(1)[OF join_group.prems]] in \<open>auto split: if_splits\<close>)
qed

lemma lock_reach_inv: "lock_reach R s \<Longrightarrow> lock_inv default_lockmethod R s"
  by (induction rule: lock_reach.induct) (auto intro: lock_init_inv lock_step_inv)

end
