(* ===== verification/Lock_Correct.thy ===== *)
theory Lock_Correct
  imports Lock_Trace
begin

text \<open>
  What the lock manager guarantees in every state its operations can reach: mutual exclusion, exact
  counters, no waiter that could run, and how each operation ends.
\<close>

section \<open>A short history\<close>

text \<open>
  Backend 1 founds a lock group that backend 2 joins, and both lock one relation in conflicting modes
  (\<open>demo_held\<close>). In \<open>demo_wait\<close> backend 3 waits for a lock that backend 1 holds.
\<close>

definition plain_session :: "procno \<Rightarrow> session" where
  "plain_session p = \<lparr>my_proc = p, StreamTopConsumerAmI = False, StreamThreadAmI = False,
     cursorNodeGroupList = [], global_obj = None\<rparr>"

definition demo_tag :: LOCKTAG where
  "demo_tag = \<lparr>locktag_field1 = 1, locktag_field2 = 2, locktag_field3 = 0, locktag_field4 = 0,
     locktag_field5 = 0, locktag_type = LOCKTAG_RELATION, locktag_lockmethodid = DEFAULT_LOCKMETHOD\<rparr>"

definition demo_acquire :: "procno \<Rightarrow> LOCKMODE \<Rightarrow> lock_space \<Rightarrow> acquire_outcome \<times> lock_space" where
  "demo_acquire p m s = LockAcquire_shared (plain_session p) (GetLocksMethodTable demo_tag) (True, True) demo_tag 0 m
     False True s"

definition demo_group :: lock_space where
  "demo_group = BecomeLockGroupMember (plain_session 2) 1
     (BecomeLockGroupLeader (plain_session 1) (lock_space_init (\<lambda>p. p) (\<lambda>p. 0)))"

definition demo_held :: lock_space where
  "demo_held = snd (demo_acquire 2 AccessShareLock (snd (demo_acquire 1 AccessExclusiveLock demo_group)))"

definition demo_one :: lock_space where
  "demo_one = snd (demo_acquire 1 AccessExclusiveLock (lock_space_init (\<lambda>p. p) (\<lambda>p. 0)))"

definition demo_wait :: lock_space where
  "demo_wait = snd (demo_acquire 3 RowExclusiveLock demo_one)"

lemma upt_modes: "[Suc 0..<9] = [1, 2, 3, 4, 5, 6, 7, 8]"
  by (simp add: upt_rec)

lemmas lock_run_defs = demo_acquire_def LockAcquire_shared_def SetupLockInTable_def new_proclock_def
  set_lock_def set_proclock_def upd_proc_def GrantLock_def grant_counts_def request_counts_def new_lock_def
  LockCheckConflicts_def MAX_LOCKMODES_def Let_def lock_mode_defs GetLocksMethodTable_def demo_tag_def
  DEFAULT_LOCKMETHOD_def LockMethods_def default_lockmethod_def LockConflicts_def leader_of_def otherLocks_def
  myHolding_def plain_session_def has_backend_cursor_stream_def note_conflict_def note_redistribution_def
  IsInSameTransaction_def IsInSameLockGroup_def ProcBlockerUpdate_def IsOtherProcRedistribution_def
  note_waiter_def acquire_wait_def ProcSleep_def group_held_locks_def sleep_enqueue_def lock_mode_names_def
  LOCKBIT_ON_def upt_modes lock_space_init_def BecomeLockGroupLeader_def BecomeLockGroupMember_def
  valid_mode_def off_queue_def holds_def queue_def

lemma plain_streams [simp]: "streams_in R (plain_session p) s"
  by (simp add: streams_in_def plain_session_def IsInSameTransaction_def has_backend_cursor_stream_def)

lemma plain_my_proc [simp]: "my_proc (plain_session p) = p"
  by (simp add: plain_session_def)

lemma demo_known [simp]: "known_method demo_tag"
  by (simp add: known_method_def demo_tag_def)

lemma demo_acquire_reach:
  assumes "lock_reach R s" "off_queue s p" "valid_mode default_lockmethod m" "\<not> holds s demo_tag p m"
  shows "lock_reach R (snd (demo_acquire p m s))"
  by (rule lock_reach.step[OF assms(1)], rule lock_step.acquire[where se = "plain_session p" and t = demo_tag and m = m
        and room = "(True, True)" and i = 0 and dontWait = False and reportMemoryError = True])
    (use assms in \<open>simp_all add: demo_acquire_def prod_eq_iff\<close>)

lemma demo_group_reach: "lock_reach R demo_group"
proof -
  define s0 where "s0 = lock_space_init (\<lambda>p. p) (\<lambda>p. 0)"
  define s1 where "s1 = BecomeLockGroupLeader (plain_session 1) s0"
  have "lock_reach R s1"
    unfolding s1_def s0_def
    by (rule lock_reach.step[OF lock_reach.start], rule lock_step.found_group) (simp add: lock_space_init_def)
  then have "lock_reach R (BecomeLockGroupMember (plain_session 2) 1 s1)"
    by (rule lock_reach.step, intro lock_step.join_group)
      (simp_all add: s1_def s0_def lock_space_init_def BecomeLockGroupLeader_def upd_proc_def)
  then show ?thesis by (simp add: demo_group_def s1_def s0_def)
qed

lemma demo_held_reach: "lock_reach R demo_held"
proof -
  have "lock_reach R (snd (demo_acquire 1 AccessExclusiveLock demo_group))"
    by (rule demo_acquire_reach[OF demo_group_reach]) (simp_all add: lock_run_defs demo_group_def)
  then show ?thesis unfolding demo_held_def
    by (rule demo_acquire_reach) (simp_all add: lock_run_defs demo_group_def)
qed

lemma demo_held_values:
  "holds demo_held demo_tag 1 AccessExclusiveLock" "holds demo_held demo_tag 2 AccessShareLock"
  by (simp_all add: demo_held_def demo_group_def lock_run_defs del: LOCKBIT_ON_test LOCKBIT_ON_test0)

lemma demo_one_reach: "lock_reach R demo_one"
  unfolding demo_one_def
  by (rule demo_acquire_reach[OF lock_reach.start]) (simp_all add: lock_run_defs)

lemma demo_wait_reach: "lock_reach R demo_wait"
  unfolding demo_wait_def
  by (rule demo_acquire_reach[OF demo_one_reach])
    (simp_all add: lock_run_defs demo_one_def del: LOCKBIT_ON_test LOCKBIT_ON_test0)

lemma demo_wait_values:
  "queue demo_wait demo_tag = [3]" "holds demo_wait demo_tag 1 AccessExclusiveLock"
  "waitLockMode (procs demo_wait 3) = RowExclusiveLock" "LockHash demo_wait demo_tag \<noteq> None"
  by (simp_all add: demo_wait_def demo_one_def lock_run_defs del: LOCKBIT_ON_test LOCKBIT_ON_test0)

section \<open>The conflict table\<close>

lemma DoLockModesConflict_iff: "DoLockModesConflict m n \<longleftrightarrow> conflicts default_lockmethod m n"
  by (simp add: DoLockModesConflict_def conflicts_def LockMethods_def DEFAULT_LOCKMETHOD_def)

section \<open>Mutual exclusion\<close>

text \<open>
  C1: In every reachable state two processes that hold one lock in conflicting modes are in the same
  lock group or belong to the same stream query.
\<close>

theorem lock_mutual_exclusion:
  assumes "lock_reach R s" "holds s t p m" "holds s t q n" "p \<noteq> q" "DoLockModesConflict m n"
  shows "leader_of s p = leader_of s q \<or> R p q"
  using lock_invD(3)[OF lock_reach_inv[OF assms(1)]] assms(2-) unfolding excl_def DoLockModesConflict_iff by blast

text \<open>The two group members of the short history hold conflicting modes.\<close>

theorem lock_mutual_exclusion_witness:
  "DoLockModesConflict AccessExclusiveLock AccessShareLock \<and> leader_of demo_held 1 = leader_of demo_held 2"
proof -
  have "DoLockModesConflict AccessExclusiveLock AccessShareLock" by code_simp
  then show ?thesis
    using lock_mutual_exclusion[OF demo_held_reach[of "\<lambda>p q. False"] demo_held_values] by simp
qed

section \<open>No lost wakeups\<close>

text \<open>
  C3: In every reachable state each process in a wait queue has a reason to wait: its request conflicts with
  the request of a waiter ahead of it, or with a lock that a process of another group holds. So
  every operation wakes all the processes it should.
\<close>

theorem lock_no_lost_wakeup:
  assumes "lock_reach R s" "LockHash s t = Some l" "waitProcs l = xs @ p # ys"
  shows "(\<exists>q \<in> set xs. DoLockModesConflict (waitLockMode (procs s p)) (waitLockMode (procs s q))) \<or>
    (\<exists>q n. holds s t q n \<and> leader_of s q \<noteq> leader_of s p \<and> DoLockModesConflict (waitLockMode (procs s p)) n)"
proof -
  have "queue s t = xs @ p # ys" using assms(2,3) by (simp add: queue_def)
  then have "blocked default_lockmethod s t xs p"
    using lock_invD(4)[OF lock_reach_inv[OF assms(1)], of t] unfolding all_blocked_def by blast
  then show ?thesis by (simp add: blocked_def hard_blocked_def DoLockModesConflict_iff)
qed

theorem lock_no_lost_wakeup_witness:
  "\<exists>q n. holds demo_wait demo_tag q n \<and> leader_of demo_wait q \<noteq> leader_of demo_wait 3 \<and>
     DoLockModesConflict RowExclusiveLock n"
proof -
  obtain l where "LockHash demo_wait demo_tag = Some l" "waitProcs l = [] @ 3 # []"
    using demo_wait_values(1,4) by (auto simp: queue_def)
  from lock_no_lost_wakeup[OF demo_wait_reach[of "\<lambda>p q. False"] this] show ?thesis
    by (simp add: demo_wait_values(3))
qed

section \<open>Counters\<close>

text \<open>
  C34: In every reachable state the counters and masks of a lock object are exact: \<open>granted\<close> counts the
  processes that hold a mode, \<open>requested\<close> those that hold or wait for it, the two masks are the modes
  with a positive count, and a lock object exists only while some process holds the lock or waits for it.
\<close>

theorem lock_counters:
  assumes "lock_reach R s" "LockHash s t = Some l" "m < MAX_LOCKMODES"
  shows "granted l ! m = int (card {p. holds s t p m}) \<and>
    requested l ! m = granted l ! m + int (card {q \<in> set (waitProcs l). waitLockMode (procs s q) = m}) \<and>
    (grantMask l AND LOCKBIT_ON m \<noteq> 0 \<longleftrightarrow> (\<exists>p. holds s t p m)) \<and>
    (waitMask l AND LOCKBIT_ON m \<noteq> 0 \<longleftrightarrow> (\<exists>q \<in> set (waitProcs l). waitLockMode (procs s q) = m)) \<and>
    nGranted l = sum_list (granted l) \<and> nRequested l = sum_list (requested l) \<and>
    ((\<exists>p n. holds s t p n) \<or> waitProcs l \<noteq> [])"
proof (intro conjI)
  note D = lock_invD[OF lock_reach_inv[OF assms(1)]]
  note W = table_wfD[OF D(1)]
  note lw = W(1)[OF assms(2), simplified]
  have holds: "{p. holds s t p n} = {p \<in> set (procLocks l). bit (hold_of s t p) n}" for n
    using W(2)[OF assms(2)] W(3) assms(2) by (fastforce simp: holds_def split: option.splits)
  have len: "length (filter P xs) = card {x \<in> set xs. P x}" if "distinct xs" for P and xs :: "procno list"
    using that by (metis distinct_card distinct_filter set_filter)
  show "granted l ! m = int (card {p. holds s t p m})"
    using lock_wfD(10)[OF lw assms(3)] len[OF lock_wfD(1)[OF lw]] holds by simp
  show "requested l ! m = granted l ! m + int (card {q \<in> set (waitProcs l). waitLockMode (procs s q) = m})"
    using lock_wfD(11)[OF lw assms(3)] len[OF lock_wfD(2)[OF lw]] by simp
  show "grantMask l AND LOCKBIT_ON m \<noteq> 0 \<longleftrightarrow> (\<exists>p. holds s t p m)"
    using lock_wfD(14)[OF lw] holds[of m] by auto
  show "waitMask l AND LOCKBIT_ON m \<noteq> 0 \<longleftrightarrow> (\<exists>q \<in> set (waitProcs l). waitLockMode (procs s q) = m)"
    using lock_wfD(15)[OF lw] by simp
  show "nGranted l = sum_list (granted l)" "nRequested l = sum_list (requested l)"
    using lock_wfD(12,13)[OF lw] by simp_all
  obtain p where p: "p \<in> set (procLocks l)" "hold_of s t p \<noteq> 0 \<or> p \<in> set (waitProcs l)"
    using D(2) assms(2) by (cases "procLocks l") (auto simp: tidy_def)
  show "(\<exists>p n. holds s t p n) \<or> waitProcs l \<noteq> []"
  proof (cases "hold_of s t p = 0")
    case False
    then obtain n where "bit (hold_of s t p) n" by (auto simp: word_neq_0_bit)
    then show ?thesis using p(1) holds[of n] by blast
  qed (use p in auto)
qed

theorem lock_counters_witness:
  "requested (lock_at demo_wait demo_tag) ! RowExclusiveLock = granted (lock_at demo_wait demo_tag) ! RowExclusiveLock + 1 \<and>
   grantMask (lock_at demo_wait demo_tag) AND LOCKBIT_ON AccessExclusiveLock \<noteq> 0"
proof -
  obtain l where l: "LockHash demo_wait demo_tag = Some l" "waitProcs l = [3]"
    using demo_wait_values(1,4) by (auto simp: queue_def)
  have b: "RowExclusiveLock < MAX_LOCKMODES" "AccessExclusiveLock < MAX_LOCKMODES" by code_simp+
  have "{q \<in> set (waitProcs l). waitLockMode (procs demo_wait q) = RowExclusiveLock} = {3}"
    using l(2) demo_wait_values(3) by auto
  then show ?thesis
    using lock_counters[OF demo_wait_reach[of "\<lambda>p q. False"] l(1) b(1)]
      lock_counters[OF demo_wait_reach[of "\<lambda>p q. False"] l(1) b(2)] demo_wait_values(2) l(1) by auto
qed

section \<open>Requests\<close>

text \<open>
  C35: A request for a mode that a running process does not hold ends in one of five ways: the lock is granted
  and held; the process waits in the queue of the lock for the mode; the lock is not available (only if
  waiting was refused, or the shared memory is used up and that is not to be reported) and nobody's
  locks and no queue has changed; shared memory is used up and nothing has changed; or a deadlock of two
  was found before sleeping and the process is in no queue. With room in the tables, a request that
  conflicts with no waiter and with no holder of another group is granted. The new state is reachable.
\<close>

theorem LockAcquire_outcome:
  assumes s: "lock_reach R s" and str: "streams_in R se s" and t: "known_method t"
    and run: "waitStatus (procs s (my_proc se)) \<noteq> STATUS_WAITING" and off: "\<not> links (procs s (my_proc se))"
    and m: "AccessShareLock \<le> m" "m \<le> AccessExclusiveLock" and nh: "\<not> holds s t (my_proc se) m"
    and r: "LockAcquire_shared se (GetLocksMethodTable t) room t part_no m dontWait reportMemoryError s = (res, s')"
  shows "lock_reach R s' \<and>
     (res = LOCKACQUIRE_OK \<and> holds s' t (my_proc se) m \<or>
      res = Asleep \<and> \<not> dontWait \<and> my_proc se \<in> set (queue s' t) \<and> waitLockMode (procs s' (my_proc se)) = m \<or>
      res = LOCKACQUIRE_NOT_AVAIL \<and> (dontWait \<or> \<not> reportMemoryError) \<and> holds s' = holds s \<and> queue s' = queue s \<or>
      res = Raised ERRCODE_OUT_OF_MEMORY \<and> reportMemoryError \<and> s' = s \<or>
      res = Raised ERRCODE_T_R_DEADLOCK_DETECTED \<and> \<not> dontWait \<and> (\<forall>t. my_proc se \<notin> set (queue s' t))) \<and>
    (room = (True, True) \<and> (\<forall>q \<in> set (queue s t). \<not> DoLockModesConflict m (waitLockMode (procs s q))) \<and>
      (\<forall>q n. holds s t q n \<and> DoLockModesConflict m n \<longrightarrow> leader_of s q = leader_of s (my_proc se)) \<longrightarrow>
      res = LOCKACQUIRE_OK)"
proof -
  have v: "valid_mode default_lockmethod m" using m by (simp add: valid_mode_def default_lockmethod_def AccessShareLock_def)
  have o: "off_queue s (my_proc se)" using run off by (simp add: off_queue_def)
  note tb = known_method_table[OF t]
  note sp = dm.LockAcquire_spec[OF lock_reach_inv[OF s] o v nh str tb r[unfolded tb]]
  have a: "lock_reach R s'" by (rule lock_reach.step[OF s lock_step.acquire[OF str t o v nh r]])
  have "my_proc se \<notin> set (queue s' t)" if "off_queue s' (my_proc se)" for t
    using that sp(1) table_wfD(5)[OF lock_invD(1)] off_not_on unfolding dm.acquire_post_def by blast
  then have b: "res = LOCKACQUIRE_OK \<and> holds s' t (my_proc se) m \<or>
      res = Asleep \<and> \<not> dontWait \<and> my_proc se \<in> set (queue s' t) \<and> waitLockMode (procs s' (my_proc se)) = m \<or>
      res = LOCKACQUIRE_NOT_AVAIL \<and> (dontWait \<or> \<not> reportMemoryError) \<and> holds s' = holds s \<and> queue s' = queue s \<or>
      res = Raised ERRCODE_OUT_OF_MEMORY \<and> reportMemoryError \<and> s' = s \<or>
      res = Raised ERRCODE_T_R_DEADLOCK_DETECTED \<and> \<not> dontWait \<and> (\<forall>t. my_proc se \<notin> set (queue s' t))"
    using sp(1) unfolding dm.acquire_post_def by blast
  have c: "res = LOCKACQUIRE_OK" if "room = (True, True)"
    "\<forall>q \<in> set (queue s t). \<not> DoLockModesConflict m (waitLockMode (procs s q))"
    "\<forall>q n. holds s t q n \<and> DoLockModesConflict m n \<longrightarrow> leader_of s q = leader_of s (my_proc se)"
    using sp(2) that unfolding dm.stuck_def hard_blocked_def DoLockModesConflict_iff by blast
  show ?thesis using a b c by (intro conjI impI) (assumption, blast, blast)
qed

theorem LockAcquire_outcome_witness:
  "lock_reach (\<lambda>p q. False) demo_one \<and> holds demo_one demo_tag 1 AccessExclusiveLock"
proof -
  define s where "s = lock_space_init (\<lambda>p. p) (\<lambda>p. 0)"
  obtain res s' where r: "LockAcquire_shared (plain_session 1) (GetLocksMethodTable demo_tag) (True, True) demo_tag 0
      AccessExclusiveLock False True s = (res, s')" by fastforce
  have h: "\<not> holds s demo_tag q n" "queue s demo_tag = []" for q n
    by (simp_all add: s_def holds_def queue_def lock_space_init_def)
  have "AccessShareLock \<le> AccessExclusiveLock" by code_simp
  note w = LockAcquire_outcome[where R = "\<lambda>p q. False", OF _ plain_streams demo_known _ _ this order_refl _ r]
  have i: "lock_reach (\<lambda>p q. False) s" unfolding s_def by (rule lock_reach.start)
  have o: "waitStatus (procs s (my_proc (plain_session 1))) \<noteq> STATUS_WAITING"
    "\<not> links (procs s (my_proc (plain_session 1)))" by (simp_all add: s_def lock_space_init_def)
  have "s' = demo_one" using r by (simp add: demo_one_def demo_acquire_def s_def)
  moreover have "res = LOCKACQUIRE_OK" using w[OF i o h(1)] h by simp
  ultimately show ?thesis using w[OF i o h(1)] by simp
qed

section \<open>Releases\<close>

text \<open>
  C36: Releasing a mode that a running process holds succeeds. Afterwards the locks are those before, less the
  released one, plus those of the waiters of this lock that were woken, each of which has got the
  mode it waited for and left the queue. Releasing a mode that is not held changes nothing.
\<close>

theorem LockRelease_outcome:
  assumes s: "lock_reach R s" and str: "streams_in R se s" and t: "known_method t"
    and run: "waitStatus (procs s p) \<noteq> STATUS_WAITING" and off: "\<not> links (procs s p)"
    and r: "LockRefindAndRelease se (GetLocksMethodTable t) p t m s = (res, s')"
  shows "lock_reach R s' \<and> (res = Released \<longleftrightarrow> holds s t p m) \<and> (res \<noteq> Released \<longrightarrow> s' = s) \<and>
    (res = Released \<longrightarrow>
      (\<forall>t' q n. holds s' t' q n \<longleftrightarrow> holds s t' q n \<and> (t', q, n) \<noteq> (t, p, m) \<or>
         t' = t \<and> q \<in> set (queue s t) - set (queue s' t) \<and> waitLockMode (procs s q) = n) \<and>
      (\<forall>t'. t' \<noteq> t \<longrightarrow> queue s' t' = queue s t'))"
proof -
  have o: "off_queue s p" using run off by (simp add: off_queue_def)
  note tb = known_method_table[OF t]
  note inv = lock_reach_inv[OF s]
  have reach: "lock_reach R s'" by (rule lock_reach.step[OF s lock_step.release[OF str t o r]])
  note sp = LockRefindAndRelease_inv[OF inv o str r[unfolded tb]]
  show ?thesis by (intro conjI impI allI) (use reach sp(2,3,5,6) in blast)+
qed

theorem LockRelease_outcome_witness:
  "\<exists>s'. LockRefindAndRelease (plain_session 1) (GetLocksMethodTable demo_tag) 1 demo_tag AccessExclusiveLock demo_wait =
     (Released, s') \<and> lock_reach (\<lambda>p q. False) s' \<and> \<not> holds s' demo_tag 1 AccessExclusiveLock"
proof -
  obtain res s' where r: "LockRefindAndRelease (plain_session 1) (GetLocksMethodTable demo_tag) 1 demo_tag
      AccessExclusiveLock demo_wait = (res, s')" by fastforce
  have o: "waitStatus (procs demo_wait 1) \<noteq> STATUS_WAITING" "\<not> links (procs demo_wait 1)"
    by (simp_all add: demo_wait_def demo_one_def lock_run_defs del: LOCKBIT_ON_test LOCKBIT_ON_test0)
  note w = LockRelease_outcome[where R = "\<lambda>p q. False", OF demo_wait_reach plain_streams demo_known o r]
  have "res = Released" using w demo_wait_values(2) by blast
  then show ?thesis using r w demo_wait_values(1) by simp
qed

text \<open>
  C38: At transaction end \<open>LockReleaseAll\<close> treats each entry of the process in turn. It raises the
  error of a corrupted table exactly if only marked modes are to be released and one of them is not held.
  Otherwise it releases the marked modes, or all the modes of the entry, and afterwards the locks are
  those before, less the released ones, plus those of the waiters of this lock that were woken with the mode
  they waited for. The queues of other locks are untouched.
\<close>

theorem LockReleaseAll_outcome:
  fixes allLocks :: bool
  assumes s: "lock_reach R s" and str: "streams_in R se s" and t: "known_method t"
    and run: "waitStatus (procs s (my_proc se)) \<noteq> STATUS_WAITING" and off: "\<not> links (procs s (my_proc se))"
    and pl: "ProcLockHash s (t, my_proc se) = Some pl"
  defines "given n \<equiv> if allLocks then holds s t (my_proc se) n else bit (releaseMask pl) n"
  shows "case release_proclock se (locktag_lockmethodid t) allLocks t s of
      Inl e \<Rightarrow> e = ERRCODE_DATA_CORRUPTED \<and> (\<exists>n. given n \<and> \<not> holds s t (my_proc se) n)
    | Inr s' \<Rightarrow> lock_reach R s' \<and> (\<forall>n. given n \<longrightarrow> holds s t (my_proc se) n) \<and>
        (\<forall>t' q n. holds s' t' q n \<longleftrightarrow> holds s t' q n \<and> \<not> (t' = t \<and> q = my_proc se \<and> given n) \<or>
           t' = t \<and> q \<in> set (queue s t) - set (queue s' t) \<and> waitLockMode (procs s q) = n) \<and>
        (\<forall>t'. t' \<noteq> t \<longrightarrow> queue s' t' = queue s t')"
proof (cases "release_proclock se (locktag_lockmethodid t) allLocks t s")
  case (Inl e)
  have "\<exists>n. bit (releaseMask pl AND NOT (holdMask pl)) n" if "releaseMask pl AND NOT (holdMask pl) \<noteq> 0"
    using that by (metis bit_eqI bit_0_eq bot_apply bot_bool_def)
  moreover have "e = ERRCODE_DATA_CORRUPTED \<and> \<not> allLocks \<and> releaseMask pl AND NOT (holdMask pl) \<noteq> 0"
    using Inl pl by (auto simp: release_proclock_def Let_def split: if_splits prod.splits)
  ultimately show ?thesis using Inl pl by (auto simp: given_def holds_def bit_and_iff bit_not_iff)
next
  case (Inr s')
  have o: "off_queue s (my_proc se)" using run off by (simp add: off_queue_def)
  note sp = dm.release_proclock_spec[OF lock_reach_inv[OF s] o str pl known_method_table[OF t] Inr]
  have g: "given n = bit (if allLocks then holdMask pl else releaseMask pl) n" for n
    using pl by (simp add: given_def holds_def)
  have sub: "allLocks \<or> releaseMask pl AND NOT (holdMask pl) = 0"
    using Inr pl by (auto simp: release_proclock_def Let_def split: if_splits)
  have "holds s t (my_proc se) n" if "given n" for n
  proof -
    have "\<not> bit (releaseMask pl AND NOT (holdMask pl)) n \<or> allLocks" using sub by auto
    then show ?thesis using that pl by (auto simp: g holds_def bit_and_iff bit_not_iff dest: bit_imp_le_length split: if_splits)
  qed
  then show ?thesis
    using Inr sp(2,3) lock_reach.step[OF s lock_step.release_all[OF str t o pl Inr]] by (simp add: g)
qed

theorem LockReleaseAll_outcome_witness:
  "\<exists>s'. release_proclock (plain_session 1) (locktag_lockmethodid demo_tag) True demo_tag demo_wait = Inr s' \<and>
     lock_reach (\<lambda>p q. False) s' \<and> (\<forall>n. \<not> holds s' demo_tag 1 n)"
proof -
  have o: "waitStatus (procs demo_wait 1) \<noteq> STATUS_WAITING" "\<not> links (procs demo_wait 1)" "my_proc (plain_session 1) = 1"
    by (simp_all add: demo_wait_def demo_one_def lock_run_defs plain_session_def del: LOCKBIT_ON_test LOCKBIT_ON_test0)
  obtain pl where pl: "ProcLockHash demo_wait (demo_tag, 1) = Some pl"
    using demo_wait_values(2) by (auto simp: holds_def split: option.splits)
  note w = LockReleaseAll_outcome[where R = "\<lambda>p q. False" and se = "plain_session 1" and allLocks = True,
      OF demo_wait_reach plain_streams demo_known, unfolded o(3), OF o(1,2) pl]
  show ?thesis
  proof (cases "release_proclock (plain_session 1) (locktag_lockmethodid demo_tag) True demo_tag demo_wait")
    case (Inr s')
    have "\<not> holds s' demo_tag 1 n" for n using w demo_wait_values(1) by (simp add: Inr del: One_nat_def)
    then show ?thesis using w Inr by (simp del: One_nat_def)
  qed (use w in \<open>simp del: One_nat_def\<close>)
qed

section \<open>The conflict test\<close>

text \<open>
  C37: For a process that has an entry for the lock, the conflict test says that a mode can be granted
  exactly if no process of another lock group holds a conflicting mode, when no stream query runs in the session.
  It decides this from the counters, subtracting what the process and its group hold themselves.
\<close>

theorem LockCheckConflicts_decides:
  assumes s: "lock_reach R s" and l: "LockHash s t = Some l" "p \<in> set (procLocks l)" and t: "known_method t"
    and m: "AccessShareLock \<le> m" "m \<le> AccessExclusiveLock"
    and none: "cursorNodeGroupList se = []" "global_obj se = None"
    and r: "LockCheckConflicts se (GetLocksMethodTable t) m t p s = (status, s')"
  shows "(status = STATUS_OK \<longleftrightarrow>
      (\<forall>q n. holds s t q n \<and> DoLockModesConflict m n \<longrightarrow> leader_of s q = leader_of s p)) \<and>
    holds s' = holds s \<and> queue s' = queue s \<and> LockHash s' = LockHash s"
proof -
  have v: "valid_mode default_lockmethod m" using m by (simp add: valid_mode_def default_lockmethod_def AccessShareLock_def)
  have ns: "\<not> IsInSameTransaction se x y" for x y
    using none by (simp add: IsInSameTransaction_def has_backend_cursor_stream_def)
  note sp = dm.LockCheckConflicts_spec[OF lock_invD(1)[OF lock_reach_inv[OF s]] l v r[unfolded known_method_table[OF t]]]
  have "holds s' = holds s" "queue s' = queue s" "LockHash s' = LockHash s"
    using same_core_views[OF sp(1)] same_coreD[OF sp(1)] by simp_all
  moreover have "status = STATUS_OK \<longleftrightarrow>
      (\<forall>q n. holds s t q n \<and> DoLockModesConflict m n \<longrightarrow> leader_of s q = leader_of s p)"
    using sp(2,3) ns unfolding hard_blocked_def DoLockModesConflict_iff by metis
  ultimately show ?thesis by blast
qed

theorem LockCheckConflicts_decides_witness:
  "fst (LockCheckConflicts (plain_session 3) (GetLocksMethodTable demo_tag) RowExclusiveLock demo_tag 3 demo_wait) \<noteq> STATUS_OK"
proof -
  obtain status s' where r: "LockCheckConflicts (plain_session 3) (GetLocksMethodTable demo_tag) RowExclusiveLock
      demo_tag 3 demo_wait = (status, s')" by fastforce
  obtain l where l: "LockHash demo_wait demo_tag = Some l" "waitProcs l = [3]"
    using demo_wait_values(1,4) by (auto simp: queue_def)
  have "3 \<in> set (procLocks l)"
    using lock_wfD(3)[OF table_wfD(1)[OF lock_invD(1)[OF lock_reach_inv[OF demo_wait_reach[of "\<lambda>p q. False"]]] l(1)]] l(2) by simp
  moreover have "AccessShareLock \<le> RowExclusiveLock" "RowExclusiveLock \<le> AccessExclusiveLock"
    "DoLockModesConflict RowExclusiveLock AccessExclusiveLock" by code_simp+
  moreover have "leader_of demo_wait 1 \<noteq> leader_of demo_wait 3"
    by (simp add: demo_wait_def demo_one_def lock_run_defs del: LOCKBIT_ON_test LOCKBIT_ON_test0)
  ultimately have "status \<noteq> STATUS_OK"
    using LockCheckConflicts_decides[OF demo_wait_reach[of "\<lambda>p q. False"] l(1) _ demo_known _ _ _ _ r] demo_wait_values(2)
    by (auto simp: plain_session_def)
  then show ?thesis using r by simp
qed

end
