(* ===== verification/Deadlock.thy ===== *)
theory Deadlock
  imports Lock_Table
begin

text \<open>
  The deadlock detector, \<open>gausskernel/storage/lmgr/deadlock.cpp\<close>, and its caller \<open>CheckDeadLock\<close> in
  \<open>proc.cpp\<close>: the depth-first search for a cycle of waiting processes, the topological sort that
  rearranges wait queues, and the backtracking search for a set of rearrangements that leaves no cycle.

  The caller holds all partition locks, so that the lock table does not change during the search. The
  workspace that \<open>InitDeadLockChecking\<close> allocates is the record \<open>dl_cxt\<close>: an array with a counter
  is either the list of the entries in use or, where entries are written by index, a list of the
  allocated length with the counter beside it. The two recursive searches take fuel; that
  running out of it, a fatal error and an overrun of the workspace do not occur is proved in the theories
  that follow. The lists \<open>waitOrders\<close> with their processes have no bound; that they fit the allocated \<open>MaxBackends div 2\<close>
  orders and \<open>MaxBackends\<close> processes is not part of what is proved. The clock and the stack depth, which can end a search with an error, are not modelled.
\<close>

section \<open>Workspace\<close>

record EDGE =
  waiter :: procno
  blocker :: procno
  edge_lock :: LOCKTAG
  pred :: nat
  link :: nat

datatype DeadLockState =
    DS_NOT_YET_CHECKED | DS_LOCK_TIMEOUT | DS_NO_DEADLOCK | DS_SOFT_DEADLOCK | DS_HARD_DEADLOCK
  | DS_BLOCKED_BY_AUTOVACUUM | DS_BLOCKED_BY_REDISTRIBUTION

datatype dl_fault = Search_error errcode | Fatal_inconsistent | Fatal_disappeared | Overrun | Out_of_fuel

type_synonym WAIT_ORDER = "LOCKTAG \<times> procno list"

record dl_cxt =
  MaxBackends :: nat
  visitedProcs :: "procno list"
  detailArray :: "DEADLOCK_INFO list"
  nDeadlockDetails :: nat
  waitOrders :: "WAIT_ORDER list"
  curConstraints :: "EDGE list"
  nCurConstraints :: nat
  maxCurConstraints :: nat
  possibleConstraints :: "EDGE list"
  nPossibleConstraints :: nat
  maxPossibleConstraints :: nat
  nSoftEdges :: nat
  blocking_autovacuum_proc :: "procno list"
  max_blocking_autovacuum_proc_num :: nat
  blocking_redistribution :: "procno option"

definition MIN_BLOCKING_AUTOVACUUM_PROC_NUM :: nat where
  "MIN_BLOCKING_AUTOVACUUM_PROC_NUM = 64"

text \<open>\<open>info0\<close> and \<open>edge0\<close> stand for the contents of newly allocated memory.\<close>

definition InitDeadLockChecking :: "nat \<Rightarrow> nat \<Rightarrow> DEADLOCK_INFO \<Rightarrow> EDGE \<Rightarrow> dl_cxt" where
  "InitDeadLockChecking maxBackends autovacuum_max_workers info0 edge0 =
     \<lparr>MaxBackends = maxBackends, visitedProcs = [], detailArray = replicate maxBackends info0,
      nDeadlockDetails = 0, waitOrders = [],
      curConstraints = replicate maxBackends edge0, nCurConstraints = 0, maxCurConstraints = maxBackends,
      possibleConstraints = replicate (maxBackends * 4) edge0, nPossibleConstraints = 0,
      maxPossibleConstraints = maxBackends * 4, nSoftEdges = 0, blocking_autovacuum_proc = [],
      max_blocking_autovacuum_proc_num = max MIN_BLOCKING_AUTOVACUUM_PROC_NUM (autovacuum_max_workers * 2),
      blocking_redistribution = None\<rparr>"

section \<open>Searching for a cycle\<close>

text \<open>A loop that ends with the first element for which the body returns true or fails.\<close>

fun try_each :: "('p \<Rightarrow> 'c \<Rightarrow> 'e + bool \<times> 'c) \<Rightarrow> 'p list \<Rightarrow> 'c \<Rightarrow> 'e + bool \<times> 'c" where
  "try_each body [] c = Inr (False, c)"
| "try_each body (p # ps) c =
     (case body p c of
        Inl e \<Rightarrow> Inl e
      | Inr (True, c) \<Rightarrow> Inr (True, c)
      | Inr (False, c) \<Rightarrow> try_each body ps c)"

abbreviation wait_tag :: "lock_space \<Rightarrow> procno \<Rightarrow> LOCKTAG" where
  "wait_tag s p \<equiv> the (waitLock (procs s p))"

definition conflictMask :: "lock_space \<Rightarrow> procno \<Rightarrow> LOCKMASK" where
  "conflictMask s p = conflictTab (GetLocksMethodTable (wait_tag s p)) ! waitLockMode (procs s p)"

definition fill_details :: "lock_space \<Rightarrow> procno \<Rightarrow> nat \<Rightarrow> dl_cxt \<Rightarrow> dl_cxt" where
  "fill_details s p depth c = c\<lparr>detailArray := (detailArray c)[depth :=
     \<lparr>info_locktag = wait_tag s p, info_lockmode = waitLockMode (procs s p), info_pid = pid (procs s p)\<rparr>]\<rparr>"

text \<open>\<open>base\<close> is the index in \<open>possibleConstraints\<close> at which the output argument \<open>softEdges\<close> begins.\<close>

definition add_soft_edge :: "nat \<Rightarrow> procno \<Rightarrow> procno \<Rightarrow> LOCKTAG \<Rightarrow> dl_cxt \<Rightarrow> dl_cxt" where
  "add_soft_edge base w b t c =
     (let i = base + nSoftEdges c
      in c\<lparr>possibleConstraints := (possibleConstraints c)[i :=
             (possibleConstraints c ! i)\<lparr>waiter := w, blocker := b, edge_lock := t\<rparr>],
           nSoftEdges := nSoftEdges c + 1\<rparr>)"

definition note_autovacuum :: "procno \<Rightarrow> dl_cxt \<Rightarrow> dl_cxt" where
  "note_autovacuum q c =
     (if q \<notin> set (blocking_autovacuum_proc c) \<and>
         length (blocking_autovacuum_proc c) < max_blocking_autovacuum_proc_num c
      then c\<lparr>blocking_autovacuum_proc := blocking_autovacuum_proc c @ [q]\<rparr> else c)"

definition note_hard_blocker :: "lock_space \<Rightarrow> procno \<Rightarrow> procno \<Rightarrow> procno \<Rightarrow> dl_cxt \<Rightarrow> dl_cxt" where
  "note_hard_blocker s me p q c =
     (if p = me then
        if vacuumFlags (procs s q) AND PROC_IS_AUTOVACUUM \<noteq> 0 then note_autovacuum q c
        else if vacuumFlags (procs s q) AND PROC_IS_REDIST \<noteq> 0 then c\<lparr>blocking_redistribution := Some q\<rparr>
        else c
      else c)"

text \<open>The holders that block a waiting process, each listed once however many of its modes conflict.\<close>

definition hard_blockers :: "lock_space \<Rightarrow> procno \<Rightarrow> procno \<Rightarrow> procno list" where
  "hard_blockers s p checkProcLeader =
     filter (\<lambda>q. leader_of s q \<noteq> checkProcLeader \<and>
         list_ex (\<lambda>lm. holdMask (proclock_at s (wait_tag s p, q)) AND LOCKBIT_ON lm \<noteq> 0 \<and>
                       conflictMask s p AND LOCKBIT_ON lm \<noteq> 0)
           [1..<Suc (numLockModes (GetLocksMethodTable (wait_tag s p)))])
       (procLocks (lock_at s (wait_tag s p)))"

text \<open>
  The autovacuum workers that wait ahead of the backend itself are remembered together with those that
  hold the lock.
\<close>

definition note_waiting_autovacuum :: "lock_space \<Rightarrow> procno \<Rightarrow> procno \<Rightarrow> procno \<Rightarrow> dl_cxt \<Rightarrow> dl_cxt" where
  "note_waiting_autovacuum s me p checkProcLeader c =
     (if p = me \<and> blocking_autovacuum_proc c \<noteq> [] then
        fold (\<lambda>q c. if leader_of s q \<noteq> checkProcLeader \<and>
                       conflictMask s p AND LOCKBIT_ON (waitLockMode (procs s q)) \<noteq> 0 \<and>
                       vacuumFlags (procs s q) AND PROC_IS_AUTOVACUUM \<noteq> 0
                    then note_autovacuum q c else c)
          (takeWhile (\<lambda>q. q \<noteq> p) (waitProcs (lock_at s (wait_tag s p)))) c
      else c)"

definition lastGroupMember :: "lock_space \<Rightarrow> procno \<Rightarrow> procno \<Rightarrow> procno option" where
  "lastGroupMember s p checkProcLeader =
     (if lockGroupLeader (procs s p) = None then Some p
      else find (\<lambda>q. lockGroupLeader (procs s q) = Some checkProcLeader)
             (rev (waitProcs (lock_at s (wait_tag s p)))))"

text \<open>
  The waiters ahead that block a waiting process: ahead in the proposed order of the queue if there is
  one, otherwise in the queue itself.
\<close>

definition soft_blockers :: "lock_space \<Rightarrow> WAIT_ORDER list \<Rightarrow> procno \<Rightarrow> procno \<Rightarrow> procno list" where
  "soft_blockers s orders p checkProcLeader =
     (case find (\<lambda>order. fst order = wait_tag s p) orders of
        Some (t, procs') \<Rightarrow>
          filter (\<lambda>q. LOCKBIT_ON (waitLockMode (procs s q)) AND conflictMask s p \<noteq> 0)
            (takeWhile (\<lambda>q. leader_of s q \<noteq> p) procs')
      | None \<Rightarrow>
          filter (\<lambda>q. LOCKBIT_ON (waitLockMode (procs s q)) AND conflictMask s p \<noteq> 0 \<and>
                      leader_of s q \<noteq> checkProcLeader)
            (takeWhile (\<lambda>q. Some q \<noteq> lastGroupMember s p checkProcLeader)
               (waitProcs (lock_at s (wait_tag s p)))))"

text \<open>\<open>search\<close> is \<open>FindLockCycleRecurse\<close> at the next depth.\<close>

definition FindLockCycleRecurseMember ::
  "(procno \<Rightarrow> dl_cxt \<Rightarrow> dl_fault + bool \<times> dl_cxt) \<Rightarrow> lock_space \<Rightarrow> procno \<Rightarrow> nat \<Rightarrow> procno \<Rightarrow> procno \<Rightarrow> nat \<Rightarrow>
   dl_cxt \<Rightarrow> dl_fault + bool \<times> dl_cxt" where
  "FindLockCycleRecurseMember search s me base checkProc checkProcLeader depth c =
     (case try_each (\<lambda>q c. case search q c of
               Inl e \<Rightarrow> Inl e
             | Inr (True, c) \<Rightarrow> Inr (True, fill_details s checkProc depth c)
             | Inr (False, c) \<Rightarrow> Inr (False, note_hard_blocker s me checkProc q c))
           (hard_blockers s checkProc checkProcLeader) c of
        Inl e \<Rightarrow> Inl e
      | Inr (True, c) \<Rightarrow> Inr (True, c)
      | Inr (False, c) \<Rightarrow>
          let c = note_waiting_autovacuum s me checkProc checkProcLeader c
          in try_each (\<lambda>q c. case search q c of
                 Inl e \<Rightarrow> Inl e
               | Inr (True, c) \<Rightarrow> Inr (True, add_soft_edge base checkProcLeader (leader_of s q) (wait_tag s checkProc)
                                     (fill_details s checkProc depth c))
               | Inr (False, c) \<Rightarrow> Inr (False, c))
             (soft_blockers s (waitOrders c) checkProc checkProcLeader) c)"

definition is_waiting :: "lock_space \<Rightarrow> procno \<Rightarrow> bool" where
  "is_waiting s p \<longleftrightarrow> links (procs s p) \<and> waitLock (procs s p) \<noteq> None"

text \<open>The processes of a group that wait: the leader first, then the other members.\<close>

definition waiting_members :: "lock_space \<Rightarrow> procno \<Rightarrow> procno list" where
  "waiting_members s leader =
     (if is_waiting s leader then [leader] else []) @
     filter (\<lambda>m. is_waiting s m \<and> m \<noteq> leader) (lockGroupMembers (procs s leader))"

fun FindLockCycleRecurse ::
  "nat \<Rightarrow> lock_space \<Rightarrow> procno \<Rightarrow> nat \<Rightarrow> procno \<Rightarrow> nat \<Rightarrow> dl_cxt \<Rightarrow> dl_fault + bool \<times> dl_cxt" where
  "FindLockCycleRecurse 0 s me base checkProc depth c = Inl Out_of_fuel"
| "FindLockCycleRecurse (Suc fuel) s me base checkProc depth c =
     (let checkProc = leader_of s checkProc in
      case find (\<lambda>i. visitedProcs c ! i = checkProc) [0..<length (visitedProcs c)] of
        Some i \<Rightarrow> if i = 0 then Inr (True, c\<lparr>nDeadlockDetails := depth\<rparr>) else Inr (False, c)
      | None \<Rightarrow>
          if length (visitedProcs c) \<ge> MaxBackends c then Inl (Search_error ERRCODE_TOO_MANY_CONNECTIONS)
          else try_each (\<lambda>p c. FindLockCycleRecurseMember
                   (\<lambda>q c. FindLockCycleRecurse fuel s me base q (Suc depth) c) s me base p checkProc depth c)
                 (waiting_members s checkProc) (c\<lparr>visitedProcs := visitedProcs c @ [checkProc]\<rparr>))"

text \<open>Enough fuel for the longest chain of processes that have not been visited.\<close>

definition FindLockCycle ::
  "lock_space \<Rightarrow> procno \<Rightarrow> nat \<Rightarrow> procno \<Rightarrow> dl_cxt \<Rightarrow> dl_fault + bool \<times> dl_cxt" where
  "FindLockCycle s me base checkProc c =
     FindLockCycleRecurse (MaxBackends c + 2) s me base checkProc 0
       (c\<lparr>visitedProcs := [], nDeadlockDetails := 0, nSoftEdges := 0\<rparr>)"

section \<open>Rearranging a queue\<close>

text \<open>\<open>waiter == proc || waiter->lockGroupLeader == proc\<close>\<close>

definition in_group :: "lock_space \<Rightarrow> procno \<Rightarrow> procno \<Rightarrow> bool" where
  "in_group s proc q \<longleftrightarrow> q = proc \<or> lockGroupLeader (procs s q) = Some proc"

text \<open>
  The last member of a group in the queue represents it; the counters of the other members become -1,
  so that they are not candidates of their own.
\<close>

definition topo_find :: "lock_space \<Rightarrow> procno list \<Rightarrow> procno \<Rightarrow> int list \<Rightarrow> nat option \<times> int list" where
  "topo_find s topoProcs proc beforeConstraints =
     fold (\<lambda>j (jj, before).
         if in_group s proc (topoProcs ! j)
         then (case jj of None \<Rightarrow> (Some j, before) | Some _ \<Rightarrow> (jj, before[j := -1]))
         else (jj, before)) (rev [0..<length topoProcs]) (None, beforeConstraints)"

definition topo_constraint ::
  "lock_space \<Rightarrow> procno list \<Rightarrow> nat \<Rightarrow> int list \<times> nat list \<times> EDGE list \<Rightarrow> int list \<times> nat list \<times> EDGE list" where
  "topo_constraint s topoProcs i = (\<lambda>(before, after, constraints).
     case topo_find s topoProcs (waiter (constraints ! i)) before of
       (None, before) \<Rightarrow> (before, after, constraints)
     | (Some jj, before) \<Rightarrow>
         (case topo_find s topoProcs (blocker (constraints ! i)) before of
            (None, before) \<Rightarrow> (before, after, constraints)
          | (Some kk, before) \<Rightarrow>
              (before[jj := before ! jj + 1], after[kk := i + 1],
               constraints[i := (constraints ! i)\<lparr>pred := jj, link := after ! kk\<rparr>])))"

text \<open>
  The chain of the constraints that name the emitted process as blocker. The fuel is the number of
  constraints; \<open>None\<close> would be a chain that does not end.
\<close>

fun release_preds :: "nat \<Rightarrow> EDGE list \<Rightarrow> nat \<Rightarrow> int list \<Rightarrow> int list option" where
  "release_preds fuel constraints 0 before = Some before"
| "release_preds 0 constraints (Suc k) before = None"
| "release_preds (Suc fuel) constraints (Suc k) before =
     (let e = constraints ! k
      in release_preds fuel constraints (link e) (before[pred e := before ! pred e - 1]))"

text \<open>
  One group is moved from \<open>topoProcs\<close> to the free end of \<open>order\<close> (\<open>ordering\<close> of the source). The state is the array
  \<open>topoProcs\<close> with null pointers as \<open>None\<close>, the order, and the number of places left.
\<close>

definition emit_step ::
  "lock_space \<Rightarrow> procno \<Rightarrow> nat \<Rightarrow> procno option list \<times> procno option list \<times> nat \<Rightarrow>
   procno option list \<times> procno option list \<times> nat" where
  "emit_step s leader c = (\<lambda>(topoProcs, order, left).
     if (case topoProcs ! c of None \<Rightarrow> False | Some q \<Rightarrow> in_group s leader q)
     then (topoProcs[c := None], order[left - 1 := topoProcs ! c], left - 1)
     else (topoProcs, order, left))"

definition emit_group ::
  "lock_space \<Rightarrow> procno \<Rightarrow> nat \<Rightarrow> procno option list \<times> procno option list \<times> nat \<Rightarrow>
   procno option list \<times> procno option list \<times> nat" where
  "emit_group s leader lastIx = fold (emit_step s leader) [0..<Suc lastIx]"

lemma in_group_leader: "in_group s (leader_of s q) q"
  by (simp add: in_group_def leader_of_def split: option.splits)

lemma emit_group_less:
  assumes "emit_group s (leader_of s q) n (topo, ord, left) = (topo', ord', left')"
    and "j \<le> n" "topo ! j = Some q" "left \<noteq> 0"
  shows "left' < left"
proof -
  define I where "I k x \<longleftrightarrow> (case x of (topo', ord', left') \<Rightarrow> left' \<le> left \<and> (j < k \<longrightarrow> left' < left) \<and>
      (\<forall>i \<ge> k. topo' ! i = topo ! i))"
    for k and x :: "procno option list \<times> procno option list \<times> nat"
  have "I (Suc n) (fold (emit_step s (leader_of s q)) [0..<Suc n] (topo, ord, left))"
  proof (rule fold_upt_rule[where I = I])
    show "I (Suc k) (emit_step s (leader_of s q) k x)" if "I k x" for k x
      using that assms(3,4) in_group_leader[of s q]
      by (cases x) (auto simp: I_def emit_step_def less_Suc_eq split: option.splits)
  qed (simp_all add: I_def)
  then show ?thesis using assms(1,2) by (simp add: emit_group_def I_def)
qed

text \<open>Searching an array downwards finds the last index that satisfies the condition.\<close>

lemma find_down_Some: "find P (rev [0..<n]) = Some j \<longleftrightarrow> j < n \<and> P j \<and> (\<forall>i. j < i \<longrightarrow> i < n \<longrightarrow> \<not> P i)"
  by (induction n) (auto simp: less_Suc_eq)

lemma find_down_None: "find P (rev [0..<n]) = None \<longleftrightarrow> (\<forall>i < n. \<not> P i)"
  by (auto simp: find_None_iff)

text \<open>
  \<open>left\<close> is \<open>i + 1\<close> of the source. The outcome \<open>None\<close> is a read before the start of \<open>topoProcs\<close> or an
  endless chain of constraints, \<open>Some None\<close> a sort that fails. An iteration emits at least one process.
\<close>

function TopoSortScan ::
  "lock_space \<Rightarrow> EDGE list \<Rightarrow> nat list \<Rightarrow> nat \<Rightarrow> nat \<Rightarrow> procno option list \<Rightarrow> int list \<Rightarrow> procno option list \<Rightarrow>
   procno option list option option" where
  "TopoSortScan s constraints after left lastIx topoProcs before order =
     (if left = 0 then Some (Some order)
      else
        case find (\<lambda>j. topoProcs ! j \<noteq> None) (rev [0..<Suc lastIx]) of
          None \<Rightarrow> None
        | Some lastIx \<Rightarrow>
            (case find (\<lambda>j. topoProcs ! j \<noteq> None \<and> before ! j = 0) (rev [0..<Suc lastIx]) of
               None \<Rightarrow> Some None
             | Some j \<Rightarrow>
                 (case emit_group s (leader_of s (the (topoProcs ! j))) lastIx (topoProcs, order, left) of
                    (topoProcs', order', left') \<Rightarrow>
                      (case release_preds (length constraints) constraints (after ! j) before of
                         None \<Rightarrow> None
                       | Some before' \<Rightarrow>
                           TopoSortScan s constraints after left' lastIx topoProcs' before' order'))))"
  by pat_completeness auto
termination
  apply (relation "measure (\<lambda>(s, cs, after, left, _). left)")
   apply simp
  subgoal for s constraints after left lastIx topo before ord last' j
    using emit_group_less[of s "the (topo ! j)" last' topo ord left]
    by (auto simp: find_down_Some less_Suc_eq_le dest!: sym[where s = "(_, _)"] simp del: upt_Suc split: prod.splits)
  done

declare TopoSortScan.simps [simp del]

definition TopoSort ::
  "lock_space \<Rightarrow> LOCKTAG \<Rightarrow> EDGE list \<Rightarrow> nat \<Rightarrow> EDGE list \<times> procno list option option" where
  "TopoSort s lock constraints nConstraints =
     (let topoProcs = waitProcs (lock_at s lock);
          queue_size = length topoProcs
      in case fold (topo_constraint s topoProcs) [0..<nConstraints]
                (replicate queue_size 0, replicate queue_size 0, constraints) of
           (before, after, constraints) \<Rightarrow>
             (constraints,
              map_option (map_option (map the))
                (TopoSortScan s constraints after queue_size (queue_size - 1) (map Some topoProcs) before
                   (replicate queue_size None))))"

text \<open>
  The constraints are scanned from the last to the first; a lock whose queue has been sorted is skipped.
  The state is the list of orders and the constraint array, whose work fields the sort writes.
\<close>

fun expand_loop ::
  "lock_space \<Rightarrow> nat \<Rightarrow> WAIT_ORDER list \<Rightarrow> EDGE list \<Rightarrow> (bool \<times> WAIT_ORDER list \<times> EDGE list) option" where
  "expand_loop s 0 orders constraints = Some (True, orders, constraints)"
| "expand_loop s (Suc i) orders constraints =
     (let lock = edge_lock (constraints ! i) in
      if lock \<in> fst ` set orders then expand_loop s i orders constraints
      else
        case TopoSort s lock constraints (Suc i) of
          (constraints, None) \<Rightarrow> None
        | (constraints, Some None) \<Rightarrow> Some (False, orders, constraints)
        | (constraints, Some (Some procs')) \<Rightarrow> expand_loop s i (orders @ [(lock, procs')]) constraints)"

definition ExpandConstraints :: "lock_space \<Rightarrow> dl_cxt \<Rightarrow> dl_fault + bool \<times> dl_cxt" where
  "ExpandConstraints s c =
     (case expand_loop s (nCurConstraints c) [] (curConstraints c) of
        None \<Rightarrow> Inl Overrun
      | Some (ok, orders, constraints) \<Rightarrow> Inr (ok, c\<lparr>waitOrders := orders, curConstraints := constraints\<rparr>))"

section \<open>Searching for a configuration\<close>

text \<open>
  The processes whose cycles decide a configuration: those named in the constraints, then the process
  that started the check.
\<close>

definition checked_procs :: "procno \<Rightarrow> dl_cxt \<Rightarrow> procno list" where
  "checked_procs startProc c =
     concat (map (\<lambda>e. [waiter e, blocker e]) (take (nCurConstraints c) (curConstraints c))) @ [startProc]"

text \<open>The state is \<open>softFound\<close>; a cycle without soft edges ends the loop with \<open>-1\<close>.\<close>

fun check_cycles :: "lock_space \<Rightarrow> procno \<Rightarrow> nat \<Rightarrow> procno list \<Rightarrow> int \<Rightarrow> dl_cxt \<Rightarrow> dl_fault + int \<times> dl_cxt" where
  "check_cycles s me base [] softFound c = Inr (softFound, c)"
| "check_cycles s me base (p # ps) softFound c =
     (case FindLockCycle s me base p c of
        Inl e \<Rightarrow> Inl e
      | Inr (False, c) \<Rightarrow> check_cycles s me base ps softFound c
      | Inr (True, c) \<Rightarrow>
          if nSoftEdges c = 0 then Inr (- 1, c) else check_cycles s me base ps (int (nSoftEdges c)) c)"

definition TestConfiguration :: "lock_space \<Rightarrow> procno \<Rightarrow> procno \<Rightarrow> dl_cxt \<Rightarrow> dl_fault + int \<times> dl_cxt" where
  "TestConfiguration s me startProc c =
     (if nPossibleConstraints c + MaxBackends c > maxPossibleConstraints c then Inr (- 1, c)
      else
        case ExpandConstraints s c of
          Inl e \<Rightarrow> Inl e
        | Inr (False, c) \<Rightarrow> Inr (- 1, c)
        | Inr (True, c) \<Rightarrow> check_cycles s me (nPossibleConstraints c) (checked_procs startProc c) 0 c)"

text \<open>One soft edge is added to the configuration, tried, and given up if there is no solution with it.\<close>

definition try_constraint ::
  "(dl_cxt \<Rightarrow> dl_fault + bool \<times> dl_cxt) \<Rightarrow> lock_space \<Rightarrow> procno \<Rightarrow> procno \<Rightarrow> nat \<Rightarrow> nat \<Rightarrow> bool \<Rightarrow> nat \<Rightarrow> dl_cxt \<Rightarrow>
   dl_fault + bool \<times> dl_cxt" where
  "try_constraint check s me proc oldPossibleConstraints nEdges savedList i c =
     (case (if \<not> savedList \<and> i > 0
            then (case TestConfiguration s me proc c of
                    Inl e \<Rightarrow> Inl e
                  | Inr (n, c) \<Rightarrow> if int nEdges \<noteq> n then Inl Fatal_inconsistent else Inr c)
            else Inr c) of
        Inl e \<Rightarrow> Inl e
      | Inr c \<Rightarrow>
          (case check (c\<lparr>curConstraints := (curConstraints c)[nCurConstraints c :=
                            possibleConstraints c ! (oldPossibleConstraints + i)],
                         nCurConstraints := nCurConstraints c + 1\<rparr>) of
             Inl e \<Rightarrow> Inl e
           | Inr (False, c) \<Rightarrow> Inr (True, c)
           | Inr (True, c) \<Rightarrow> Inr (False, c\<lparr>nCurConstraints := nCurConstraints c - 1\<rparr>)))"

text \<open>The result is true if no solution exists.\<close>

fun DeadLockCheckRecurse :: "nat \<Rightarrow> lock_space \<Rightarrow> procno \<Rightarrow> procno \<Rightarrow> dl_cxt \<Rightarrow> dl_fault + bool \<times> dl_cxt" where
  "DeadLockCheckRecurse 0 s me proc c = Inl Out_of_fuel"
| "DeadLockCheckRecurse (Suc fuel) s me proc c =
     (case TestConfiguration s me proc c of
        Inl e \<Rightarrow> Inl e
      | Inr (n, c) \<Rightarrow>
          if n < 0 then Inr (True, c)
          else if n = 0 then Inr (False, c)
          else if nCurConstraints c \<ge> maxCurConstraints c then Inr (True, c)
          else
            let nEdges = nat n;
                oldPossibleConstraints = nPossibleConstraints c;
                savedList = (nPossibleConstraints c + nEdges + MaxBackends c \<le> maxPossibleConstraints c);
                c = (if savedList then c\<lparr>nPossibleConstraints := nPossibleConstraints c + nEdges\<rparr> else c)
            in case try_each (try_constraint (DeadLockCheckRecurse fuel s me proc) s me proc
                                oldPossibleConstraints nEdges savedList) [0..<nEdges] c of
                 Inl e \<Rightarrow> Inl e
               | Inr (True, c) \<Rightarrow> Inr (False, c)
               | Inr (False, c) \<Rightarrow> Inr (True, c\<lparr>nPossibleConstraints := oldPossibleConstraints\<rparr>))"

text \<open>
  The search starts from the thread variables that the backend shares with other parts of the lock manager
  and writes them back: the redistribution that blocks it and the details of a deadlock.
\<close>

definition publish :: "procno \<Rightarrow> dl_cxt \<Rightarrow> lock_space \<Rightarrow> lock_space" where
  "publish me c s = upd_proc me (\<lambda>p. p\<lparr>blocking_redistribution_proc := blocking_redistribution c,
     deadlockDetails := take (nDeadlockDetails c) (detailArray c)\<rparr>) s"

definition DeadLockCheck ::
  "session \<Rightarrow> procno \<Rightarrow> lock_space \<Rightarrow> dl_cxt \<Rightarrow> dl_fault + DeadLockState \<times> lock_space \<times> dl_cxt" where
  "DeadLockCheck se proc s c =
     (let me = my_proc se;
          c = c\<lparr>nCurConstraints := 0, nPossibleConstraints := 0, waitOrders := [], blocking_autovacuum_proc := [],
                blocking_redistribution := blocking_redistribution_proc (procs s me)\<rparr>
      in case DeadLockCheckRecurse (maxCurConstraints c + 2) s me proc c of
           Inl e \<Rightarrow> Inl e
         | Inr (True, c) \<Rightarrow>
             (case FindLockCycle s me 0 proc (c\<lparr>waitOrders := []\<rparr>) of
                Inl e \<Rightarrow> Inl e
              | Inr (False, c) \<Rightarrow> Inl Fatal_disappeared
              | Inr (True, c) \<Rightarrow> Inr (DS_HARD_DEADLOCK, publish me c s, c))
         | Inr (False, c) \<Rightarrow>
             (let s = fold (apply_wait_order se) (waitOrders c) (publish me c s)
              in if waitOrders c \<noteq> [] then Inr (DS_SOFT_DEADLOCK, s, c)
                 else if blocking_autovacuum_proc c \<noteq> [] then Inr (DS_BLOCKED_BY_AUTOVACUUM, s, c)
                 else case blocking_redistribution_proc (procs s me) of
                        None \<Rightarrow> Inr (DS_NO_DEADLOCK, s, c)
                      | Some r \<Rightarrow>
                          if IsOtherProcRedistribution s r then Inr (DS_BLOCKED_BY_REDISTRIBUTION, s, c)
                          else Inr (DS_NO_DEADLOCK,
                                    upd_proc me (\<lambda>p. p\<lparr>blocking_redistribution_proc := None\<rparr>) s, c)))"

definition GetBlockingAutoVacuumPgproc :: "dl_cxt \<Rightarrow> procno option \<times> dl_cxt" where
  "GetBlockingAutoVacuumPgproc c =
     (if blocking_autovacuum_proc c \<noteq> []
      then (Some (last (blocking_autovacuum_proc c)),
            c\<lparr>blocking_autovacuum_proc := butlast (blocking_autovacuum_proc c)\<rparr>)
      else (None, c))"

definition GetBlockingRedistributionPgproc :: "session \<Rightarrow> lock_space \<Rightarrow> procno option \<times> lock_space" where
  "GetBlockingRedistributionPgproc se s =
     (blocking_redistribution_proc (procs s (my_proc se)),
      upd_proc (my_proc se) (\<lambda>p. p\<lparr>blocking_redistribution_proc := None\<rparr>) s)"

section \<open>The check of a sleeping process\<close>

text \<open>
  \<open>CheckDeadLock\<close> under all partition locks. The result \<open>None\<close> says that the process has been woken in the
  meantime; the flag says that its semaphore is released, so that \<open>ProcSleep\<close> goes on.
\<close>

definition CheckDeadLock ::
  "session \<Rightarrow> bool \<Rightarrow> bool \<Rightarrow> lock_space \<Rightarrow> dl_cxt \<Rightarrow>
   dl_fault + (DeadLockState \<times> bool) option \<times> lock_space \<times> dl_cxt" where
  "CheckDeadLock se log_lock_waits wait_timeout s c =
     (if \<not> links (procs s (my_proc se)) then Inr (None, s, c)
      else
        case DeadLockCheck se (my_proc se) s c of
          Inl e \<Rightarrow> Inl e
        | Inr (state, s, c) \<Rightarrow>
            if state = DS_HARD_DEADLOCK
            then Inr (Some (state, True), RemoveFromWaitQueue se (my_proc se) s, c)
            else Inr (Some (state, log_lock_waits \<or> state = DS_BLOCKED_BY_AUTOVACUUM \<or>
                            state = DS_BLOCKED_BY_REDISTRIBUTION \<or> wait_timeout), s, c))"

end
