(* ===== verification/Deadlock_Search.thy ===== *)
theory Deadlock_Search
  imports Deadlock
begin

text \<open>
  The depth-first search of the deadlock detector, for any proposed queue orders: it returns, it finds a
  cycle through the start exactly if there is one in the graph of lock groups that its scans define, and the
  details and the soft edges it records are those of a cycle.
\<close>

section \<open>The graph and the search state\<close>

definition waits_for :: "lock_space \<Rightarrow> WAIT_ORDER list \<Rightarrow> procno \<Rightarrow> procno \<Rightarrow> bool" where
  "waits_for s w u v \<longleftrightarrow> (\<exists>p \<in> set (waiting_members s u).
     \<exists>q \<in> set (hard_blockers s p u) \<union> set (soft_blockers s w p u). leader_of s q = v)"

text \<open>A path of the graph: each edge has its group, the waiting member, the blocker and whether it is soft.\<close>

type_synonym wait_edge = "procno \<times> procno \<times> procno \<times> bool"

definition is_edge :: "lock_space \<Rightarrow> WAIT_ORDER list \<Rightarrow> wait_edge \<Rightarrow> bool" where
  "is_edge s w = (\<lambda>(u, p, q, soft). p \<in> set (waiting_members s u) \<and>
     q \<in> set (if soft then soft_blockers s w p u else hard_blockers s p u))"

fun wait_path :: "lock_space \<Rightarrow> WAIT_ORDER list \<Rightarrow> procno \<Rightarrow> wait_edge list \<Rightarrow> procno \<Rightarrow> bool" where
  "wait_path s w u [] v \<longleftrightarrow> u = v"
| "wait_path s w u ((u', p, q, soft) # es) v \<longleftrightarrow>
     u' = u \<and> is_edge s w (u, p, q, soft) \<and> wait_path s w (leader_of s q) es v"

definition edge_info :: "lock_space \<Rightarrow> wait_edge \<Rightarrow> DEADLOCK_INFO" where
  "edge_info s = (\<lambda>(u, p, q, soft).
     \<lparr>info_locktag = wait_tag s p, info_lockmode = waitLockMode (procs s p), info_pid = pid (procs s p)\<rparr>)"

abbreviation is_soft :: "wait_edge \<Rightarrow> bool" where
  "is_soft \<equiv> \<lambda>(u, p, q, soft). soft"

definition edge_key :: "EDGE \<Rightarrow> procno \<times> procno \<times> LOCKTAG" where
  "edge_key e = (waiter e, blocker e, edge_lock e)"

definition soft_key :: "lock_space \<Rightarrow> wait_edge \<Rightarrow> procno \<times> procno \<times> LOCKTAG" where
  "soft_key s = (\<lambda>(u, p, q, soft). (u, leader_of s q, wait_tag s p))"

text \<open>The part of the workspace that a search leaves alone.\<close>

definition same_work :: "nat \<Rightarrow> dl_cxt \<Rightarrow> dl_cxt \<Rightarrow> bool" where
  "same_work base c' c \<longleftrightarrow> MaxBackends c' = MaxBackends c \<and> waitOrders c' = waitOrders c \<and>
     curConstraints c' = curConstraints c \<and> nCurConstraints c' = nCurConstraints c \<and>
     maxCurConstraints c' = maxCurConstraints c \<and> nPossibleConstraints c' = nPossibleConstraints c \<and>
     maxPossibleConstraints c' = maxPossibleConstraints c \<and> length (detailArray c') = length (detailArray c) \<and>
     length (possibleConstraints c') = length (possibleConstraints c) \<and>
     take base (possibleConstraints c') = take base (possibleConstraints c)"

lemma same_work_refl [simp]: "same_work base c c"
  by (simp add: same_work_def)

lemma same_work_trans: "same_work base c'' c' \<Longrightarrow> same_work base c' c \<Longrightarrow> same_work base c'' c"
  by (simp add: same_work_def)

lemma note_autovacuum_work [simp]:
  "same_work base (note_autovacuum q c) c" "visitedProcs (note_autovacuum q c) = visitedProcs c"
  "nSoftEdges (note_autovacuum q c) = nSoftEdges c"
  "possibleConstraints (note_autovacuum q c) = possibleConstraints c"
  by (simp_all add: note_autovacuum_def same_work_def)

lemma note_hard_blocker_work [simp]:
  "same_work base (note_hard_blocker s me p q c) c" "visitedProcs (note_hard_blocker s me p q c) = visitedProcs c"
  "nSoftEdges (note_hard_blocker s me p q c) = nSoftEdges c"
  "possibleConstraints (note_hard_blocker s me p q c) = possibleConstraints c"
  by (simp_all add: note_hard_blocker_def) (simp_all add: same_work_def)

lemma note_waiting_autovacuum_work [simp]:
  "same_work base (note_waiting_autovacuum s me p u c) c"
  "visitedProcs (note_waiting_autovacuum s me p u c) = visitedProcs c"
  "nSoftEdges (note_waiting_autovacuum s me p u c) = nSoftEdges c"
  "possibleConstraints (note_waiting_autovacuum s me p u c) = possibleConstraints c"
proof -
  have "same_work base (fold (\<lambda>q c. if P q then note_autovacuum q c else c) qs c) c \<and>
      visitedProcs (fold (\<lambda>q c. if P q then note_autovacuum q c else c) qs c) = visitedProcs c \<and>
      nSoftEdges (fold (\<lambda>q c. if P q then note_autovacuum q c else c) qs c) = nSoftEdges c \<and>
      possibleConstraints (fold (\<lambda>q c. if P q then note_autovacuum q c else c) qs c) = possibleConstraints c" for P qs
  proof (induction qs arbitrary: c)
    case (Cons q qs)
    show ?case using Cons[of "note_autovacuum q c"] Cons[of c] same_work_trans note_autovacuum_work by auto
  qed simp
  then show "same_work base (note_waiting_autovacuum s me p u c) c"
    "visitedProcs (note_waiting_autovacuum s me p u c) = visitedProcs c"
    "nSoftEdges (note_waiting_autovacuum s me p u c) = nSoftEdges c"
    "possibleConstraints (note_waiting_autovacuum s me p u c) = possibleConstraints c"
    by (simp_all add: note_waiting_autovacuum_def)
qed

lemma fill_details_work [simp]:
  "same_work base (fill_details s p d c) c" "nDeadlockDetails (fill_details s p d c) = nDeadlockDetails c"
  "nSoftEdges (fill_details s p d c) = nSoftEdges c" "possibleConstraints (fill_details s p d c) = possibleConstraints c"
  "visitedProcs (fill_details s p d c) = visitedProcs c"
  by (simp_all add: fill_details_def same_work_def)

lemma add_soft_edge_work [simp]:
  "same_work base (add_soft_edge base u v t c) c" "nDeadlockDetails (add_soft_edge base u v t c) = nDeadlockDetails c"
  "detailArray (add_soft_edge base u v t c) = detailArray c" "visitedProcs (add_soft_edge base u v t c) = visitedProcs c"
  by (simp_all add: add_soft_edge_def same_work_def Let_def)

text \<open>The rule for loops that end with the first success.\<close>

lemma try_each_rule:
  assumes "I [] c"
    and "\<And>xs x ys c. ps = xs @ x # ys \<Longrightarrow> I xs c \<Longrightarrow>
      \<exists>b c'. body x c = Inr (b, c') \<and> (if b then Q c' else I (xs @ [x]) c')"
  shows "\<exists>b c'. try_each body ps c = Inr (b, c') \<and> (if b then Q c' else I ps c')"
proof -
  have "\<exists>b c'. try_each body ys c = Inr (b, c') \<and> (if b then Q c' else I ps c')" if "ps = xs @ ys" "I xs c" for xs ys c
    using that
  proof (induction ys arbitrary: xs c)
    case (Cons y ys)
    obtain b c' where b: "body y c = Inr (b, c')" "if b then Q c' else I (xs @ [y]) c'"
      using assms(2)[OF Cons.prems] by blast
    show ?case
    proof (cases b)
      case False
      then show ?thesis using b Cons.IH[of "xs @ [y]" c'] Cons.prems by simp
    qed (use b in auto)
  qed auto
  from this[of "[]" ps c] assms(1) show ?thesis by simp
qed

section \<open>Exploring\<close>

text \<open>Nothing found: what has been visited since leads only to visited groups and not to the start.\<close>

definition explored :: "lock_space \<Rightarrow> WAIT_ORDER list \<Rightarrow> procno set \<Rightarrow> procno \<Rightarrow> nat \<Rightarrow> dl_cxt \<Rightarrow> dl_cxt \<Rightarrow> bool" where
  "explored s w U st base c0 c \<longleftrightarrow> same_work base c c0 \<and> nSoftEdges c = 0 \<and>
     possibleConstraints c = possibleConstraints c0 \<and>
     (\<exists>new. visitedProcs c = visitedProcs c0 @ new \<and> distinct (visitedProcs c) \<and> set (visitedProcs c) \<subseteq> U \<and>
        (\<forall>x \<in> set new. \<forall>y. waits_for s w x y \<longrightarrow> y \<in> set (visitedProcs c) \<and> y \<noteq> st))"

lemma explored_trans:
  assumes "explored s w U st base c0 c1" "explored s w U st base c1 c2"
  shows "explored s w U st base c0 c2"
proof -
  obtain n1 n2 where n: "visitedProcs c1 = visitedProcs c0 @ n1" "visitedProcs c2 = visitedProcs c1 @ n2"
    "distinct (visitedProcs c2)" "set (visitedProcs c2) \<subseteq> U"
    "\<And>x y. x \<in> set n1 \<Longrightarrow> waits_for s w x y \<Longrightarrow> y \<in> set (visitedProcs c1) \<and> y \<noteq> st"
    "\<And>x y. x \<in> set n2 \<Longrightarrow> waits_for s w x y \<Longrightarrow> y \<in> set (visitedProcs c2) \<and> y \<noteq> st"
    using assms unfolding explored_def by blast
  have "\<exists>new. visitedProcs c2 = visitedProcs c0 @ new \<and> distinct (visitedProcs c2) \<and> set (visitedProcs c2) \<subseteq> U \<and>
        (\<forall>x \<in> set new. \<forall>y. waits_for s w x y \<longrightarrow> y \<in> set (visitedProcs c2) \<and> y \<noteq> st)"
    by (rule exI[of _ "n1 @ n2"]) (use n in auto)
  then show ?thesis using assms same_work_trans unfolding explored_def by metis
qed

lemma explored_same:
  assumes "explored s w U st base c0 c" "same_work base c' c" "visitedProcs c' = visitedProcs c" "nSoftEdges c' = nSoftEdges c"
    "possibleConstraints c' = possibleConstraints c"
  shows "explored s w U st base c0 c'"
  using assms same_work_trans unfolding explored_def by metis

lemma explored_grows: "explored s w U st base c0 c \<Longrightarrow> set (visitedProcs c0) \<subseteq> set (visitedProcs c)"
  by (auto simp: explored_def)

lemma explored_hd: "explored s w U st base c0 c \<Longrightarrow> visitedProcs c0 \<noteq> [] \<Longrightarrow> hd (visitedProcs c) = hd (visitedProcs c0)"
  by (auto simp: explored_def)

lemma explored_length: "explored s w U st base c0 c \<Longrightarrow> length (visitedProcs c0) \<le> length (visitedProcs c)"
  by (auto simp: explored_def)

lemma explored_max: "explored s w U st base c0 c \<Longrightarrow> MaxBackends c = MaxBackends c0"
  by (simp add: explored_def same_work_def)

text \<open>A cycle found: the path from group \<open>u\<close> at depth \<open>d\<close> back to the start, and what is recorded of it.\<close>

definition found :: "lock_space \<Rightarrow> WAIT_ORDER list \<Rightarrow> procno \<Rightarrow> nat \<Rightarrow> procno \<Rightarrow> nat \<Rightarrow> dl_cxt \<Rightarrow> dl_cxt \<Rightarrow> bool" where
  "found s w st base u d c0 c \<longleftrightarrow> same_work base c c0 \<and>
     (\<exists>es. wait_path s w u es st \<and> nDeadlockDetails c = d + length es \<and> d + length es \<le> MaxBackends c \<and>
        (\<forall>i < length es. detailArray c ! (d + i) = edge_info s (es ! i)) \<and>
        nSoftEdges c = length (filter is_soft es) \<and>
        map edge_key (take (nSoftEdges c) (drop base (possibleConstraints c))) =
          map (soft_key s) (rev (filter is_soft es)))"

text \<open>The same with at least one edge.\<close>

definition cycle_found :: "lock_space \<Rightarrow> WAIT_ORDER list \<Rightarrow> procno \<Rightarrow> nat \<Rightarrow> procno \<Rightarrow> nat \<Rightarrow> dl_cxt \<Rightarrow> dl_cxt \<Rightarrow> bool" where
  "cycle_found s w st base u d c0 c \<longleftrightarrow> found s w st base u d c0 c \<and> d < nDeadlockDetails c"

lemma cycle_found_work: "cycle_found s w st base u d c1 c \<Longrightarrow> same_work base c1 c0 \<Longrightarrow> cycle_found s w st base u d c0 c"
  using same_work_trans unfolding cycle_found_def found_def by blast

lemma found_work: "found s w st base u d c1 c \<Longrightarrow> same_work base c1 c0 \<Longrightarrow> found s w st base u d c0 c"
  using same_work_trans unfolding found_def by blast

lemma found_hard:
  assumes f: "found s w st base (leader_of s q) (Suc d) c0 c" and e: "is_edge s w (u, p, q, False)"
    and l: "length (detailArray c0) = MaxBackends c0"
  shows "cycle_found s w st base u d c0 (fill_details s p d c)"
proof -
  obtain es where es: "same_work base c c0" "wait_path s w (leader_of s q) es st" "nDeadlockDetails c = Suc d + length es"
    "Suc d + length es \<le> MaxBackends c" "\<And>i. i < length es \<Longrightarrow> detailArray c ! (Suc d + i) = edge_info s (es ! i)"
    "nSoftEdges c = length (filter is_soft es)" "map edge_key (take (nSoftEdges c) (drop base (possibleConstraints c))) =
          map (soft_key s) (rev (filter is_soft es))"
    using f unfolding found_def by blast
  define es' where "es' = (u, p, q, False) # es"
  have b: "d < length (detailArray c)" "length (detailArray c) = MaxBackends c" using es(1,4) l by (auto simp: same_work_def)
  have "detailArray (fill_details s p d c) ! (d + i) = edge_info s (es' ! i)" if "i < length es'" for i
    using that es(5)[of "i - 1"] b by (cases i) (auto simp: es'_def fill_details_def edge_info_def)
  moreover have "wait_path s w u es' st" using es(2) e by (simp add: es'_def)
  moreover have "same_work base (fill_details s p d c) c0" using es(1) same_work_trans fill_details_work(1) by blast
  ultimately show ?thesis
    unfolding cycle_found_def found_def using es(3,4,6,7) by (intro conjI exI[of _ es']) (auto simp: es'_def fill_details_def)
qed

lemma found_soft:
  assumes f: "found s w st base (leader_of s q) (Suc d) c0 c" and e: "is_edge s w (u, p, q, True)"
    and l: "length (detailArray c0) = MaxBackends c0" "base + MaxBackends c0 \<le> length (possibleConstraints c0)"
  shows "cycle_found s w st base u d c0 (add_soft_edge base u (leader_of s q) (wait_tag s p) (fill_details s p d c))"
    (is "cycle_found _ _ _ _ _ _ _ ?c")
proof -
  obtain es where es: "same_work base c c0" "wait_path s w (leader_of s q) es st" "nDeadlockDetails c = Suc d + length es"
    "Suc d + length es \<le> MaxBackends c" "\<And>i. i < length es \<Longrightarrow> detailArray c ! (Suc d + i) = edge_info s (es ! i)"
    "nSoftEdges c = length (filter is_soft es)" "map edge_key (take (nSoftEdges c) (drop base (possibleConstraints c))) =
          map (soft_key s) (rev (filter is_soft es))"
    using f unfolding found_def by blast
  define es' where "es' = (u, p, q, True) # es"
  define n where "n = nSoftEdges c"
  have b: "d < length (detailArray c)" "length (detailArray c) = MaxBackends c"
    "base + MaxBackends c \<le> length (possibleConstraints c)" using es(1,4) l by (auto simp: same_work_def)
  have n: "n < MaxBackends c" using es(4) length_filter_le[of is_soft es] unfolding n_def es(6) by linarith
  have "detailArray ?c ! (d + i) = edge_info s (es' ! i)" if "i < length es'" for i
    using that es(5)[of "i - 1"] b by (cases i) (auto simp: es'_def fill_details_def edge_info_def)
  moreover have "take (nSoftEdges ?c) (drop base (possibleConstraints ?c)) =
      take n (drop base (possibleConstraints c)) @
      [(possibleConstraints c ! (base + n))\<lparr>waiter := u, blocker := leader_of s q, edge_lock := wait_tag s p\<rparr>]"
    using b n by (simp add: add_soft_edge_def Let_def n_def[symmetric] take_Suc_conv_app_nth drop_update_swap)
  then have "map edge_key (take (nSoftEdges ?c) (drop base (possibleConstraints ?c))) =
      map (soft_key s) (rev (filter is_soft es'))"
    using es(7) by (simp add: es'_def n_def edge_key_def soft_key_def)
  moreover have "same_work base ?c c0"
    using es(1) same_work_trans[OF add_soft_edge_work(1) same_work_trans[OF fill_details_work(1)]] by blast
  moreover have "wait_path s w u es' st" "nDeadlockDetails ?c = d + length es'" "d + length es' \<le> MaxBackends ?c"
    "nSoftEdges ?c = length (filter is_soft es')"
    using es(2,3,4,6) e by (simp_all add: es'_def add_soft_edge_def Let_def fill_details_def)
  moreover have "d < nDeadlockDetails ?c" using es(3) by simp
  ultimately show ?thesis unfolding cycle_found_def found_def by blast
qed

section \<open>The search\<close>

definition search_area :: "lock_space \<Rightarrow> WAIT_ORDER list \<Rightarrow> nat \<Rightarrow> procno set \<Rightarrow> bool" where
  "search_area s w n U \<longleftrightarrow> finite U \<and> card U \<le> n \<and> (\<forall>x \<in> U. \<forall>y. waits_for s w x y \<longrightarrow> y \<in> U)"

text \<open>The workspace before a search visits a further group.\<close>

definition ready :: "lock_space \<Rightarrow> WAIT_ORDER list \<Rightarrow> procno set \<Rightarrow> nat \<Rightarrow> dl_cxt \<Rightarrow> bool" where
  "ready s w U base c \<longleftrightarrow> waitOrders c = w \<and> nSoftEdges c = 0 \<and> length (detailArray c) = MaxBackends c \<and>
     base + MaxBackends c \<le> length (possibleConstraints c) \<and> distinct (visitedProcs c) \<and> set (visitedProcs c) \<subseteq> U \<and>
     search_area s w (MaxBackends c) U"

lemma explored_ready: "explored s w U st base c0 c \<Longrightarrow> ready s w U base c0 \<Longrightarrow> ready s w U base c"
  unfolding explored_def ready_def same_work_def by force

lemma explored_refl: "ready s w U base c \<Longrightarrow> explored s w U st base c c"
  by (simp add: explored_def ready_def)

text \<open>What a recursive call promises for a blocker \<open>q\<close> found at depth \<open>d\<close>.\<close>

definition search_ok :: "lock_space \<Rightarrow> WAIT_ORDER list \<Rightarrow> procno set \<Rightarrow> procno \<Rightarrow> nat \<Rightarrow> procno \<Rightarrow> nat \<Rightarrow> dl_cxt \<Rightarrow>
    dl_fault + bool \<times> dl_cxt \<Rightarrow> bool" where
  "search_ok s w U st base u d c r \<longleftrightarrow> (\<exists>b c'. r = Inr (b, c') \<and>
     (if b then found s w st base u d c c'
      else explored s w U st base c c' \<and> u \<in> set (visitedProcs c') \<and> u \<noteq> st))"

text \<open>
  The progress of a scan that started in \<open>c0\<close>: only groups that lead nowhere were visited, among them
  those of the blockers \<open>Q\<close>.
\<close>

definition seen :: "lock_space \<Rightarrow> WAIT_ORDER list \<Rightarrow> procno set \<Rightarrow> procno \<Rightarrow> nat \<Rightarrow> dl_cxt \<Rightarrow> procno set \<Rightarrow> dl_cxt \<Rightarrow> bool" where
  "seen s w U st base c0 Q c \<longleftrightarrow> explored s w U st base c0 c \<and>
     (\<forall>q \<in> Q. leader_of s q \<in> set (visitedProcs c) \<and> leader_of s q \<noteq> st)"

lemma seen_start: "ready s w U base c0 \<Longrightarrow> seen s w U st base c0 {} c0"
  by (simp add: seen_def explored_refl)

lemma seen_same:
  assumes "seen s w U st base c0 Q c" "same_work base c' c" "visitedProcs c' = visitedProcs c" "nSoftEdges c' = nSoftEdges c"
    "possibleConstraints c' = possibleConstraints c"
  shows "seen s w U st base c0 Q c'"
  using assms explored_same unfolding seen_def by metis

lemma seen_trans:
  assumes "seen s w U st base c0 Q c" "seen s w U st base c Q' c'"
  shows "seen s w U st base c0 (Q \<union> Q') c'"
  using assms explored_trans explored_grows unfolding seen_def by blast

lemma seen_orders: "seen s w U st base c0 Q c \<Longrightarrow> ready s w U base c0 \<Longrightarrow> waitOrders c = w"
  by (simp add: seen_def explored_def same_work_def ready_def)

text \<open>A scan that has begun: the starting group was visited, and at least \<open>n\<close> groups were.\<close>

definition started :: "lock_space \<Rightarrow> WAIT_ORDER list \<Rightarrow> procno set \<Rightarrow> procno \<Rightarrow> nat \<Rightarrow> nat \<Rightarrow> nat \<Rightarrow> dl_cxt \<Rightarrow> bool" where
  "started s w U st base n mb c \<longleftrightarrow> ready s w U base c \<and> n \<le> length (visitedProcs c) \<and> visitedProcs c \<noteq> [] \<and>
     hd (visitedProcs c) = st \<and> MaxBackends c = mb"

lemma explored_started: "explored s w U st base c0 c \<Longrightarrow> started s w U st base n mb c0 \<Longrightarrow> started s w U st base n mb c"
  using explored_ready explored_length explored_hd explored_max unfolding started_def by fastforce

text \<open>The recursive calls of a scan keep their promise for the blockers \<open>Q\<close>.\<close>

definition searches :: "lock_space \<Rightarrow> WAIT_ORDER list \<Rightarrow> procno set \<Rightarrow> procno \<Rightarrow> nat \<Rightarrow> nat \<Rightarrow> nat \<Rightarrow> nat \<Rightarrow> procno set \<Rightarrow>
    (procno \<Rightarrow> dl_cxt \<Rightarrow> dl_fault + bool \<times> dl_cxt) \<Rightarrow> bool" where
  "searches s w U st base d n mb Q search \<longleftrightarrow> (\<forall>q c. q \<in> Q \<longrightarrow> started s w U st base n mb c \<longrightarrow>
     search_ok s w U st base (leader_of s q) d c (search q c))"

lemma searches_call:
  assumes search: "searches s w U st base d n mb Q search" and q: "q \<in> Q"
    and sc: "started s w U st base n mb c0" and sn: "seen s w U st base c0 P c"
  obtains b c' where "search q c = Inr (b, c')"
    "b \<Longrightarrow> found s w st base (leader_of s q) d c0 c'" "\<not> b \<Longrightarrow> seen s w U st base c0 (insert q P) c'"
proof -
  have ex: "explored s w U st base c0 c" using sn by (simp add: seen_def)
  obtain b c' where b: "search q c = Inr (b, c')"
    "if b then found s w st base (leader_of s q) d c c'
     else explored s w U st base c c' \<and> leader_of s q \<in> set (visitedProcs c') \<and> leader_of s q \<noteq> st"
    using search q explored_started[OF ex sc] unfolding searches_def search_ok_def by blast
  have "found s w st base (leader_of s q) d c0 c'" if b
    using that b(2) found_work ex unfolding explored_def by auto
  moreover have "seen s w U st base c0 (insert q P) c'" if "\<not> b"
    using seen_trans[OF sn, of "{q}" c'] that b(2) by (simp add: seen_def)
  ultimately show thesis using that b(1) by blast
qed

text \<open>What blocks a member of a group, and the two scans of \<open>FindLockCycleRecurseMember\<close>.\<close>

abbreviation blockers :: "lock_space \<Rightarrow> WAIT_ORDER list \<Rightarrow> procno \<Rightarrow> procno \<Rightarrow> procno set" where
  "blockers s w p u \<equiv> set (hard_blockers s p u) \<union> set (soft_blockers s w p u)"

lemma hard_scan:
  assumes sc: "started s w U st base n mb c0" and p: "p \<in> set (waiting_members s u)"
    and search: "searches s w U st base (Suc d) n mb (blockers s w p u) search"
  shows "\<exists>b c'. try_each (\<lambda>q c. case search q c of
               Inl e \<Rightarrow> Inl e
             | Inr (True, c) \<Rightarrow> Inr (True, fill_details s p d c)
             | Inr (False, c) \<Rightarrow> Inr (False, note_hard_blocker s me p q c)) (hard_blockers s p u) c0 = Inr (b, c') \<and>
      (if b then cycle_found s w st base u d c0 c' else seen s w U st base c0 (set (hard_blockers s p u)) c')"
proof (rule try_each_rule[where I = "\<lambda>xs c. seen s w U st base c0 (set xs) c"])
  fix xs q ys c
  assume q: "hard_blockers s p u = xs @ q # ys" and sn: "seen s w U st base c0 (set xs) c"
  then have "q \<in> blockers s w p u" by simp
  from searches_call[OF search this sc sn] obtain b c' where b: "search q c = Inr (b, c')"
    "b \<Longrightarrow> found s w st base (leader_of s q) (Suc d) c0 c'" "\<not> b \<Longrightarrow> seen s w U st base c0 (insert q (set xs)) c'" by blast
  have "is_edge s w (u, p, q, False)" using p q by (simp add: is_edge_def)
  moreover have "length (detailArray c0) = MaxBackends c0" using sc by (simp add: started_def ready_def)
  ultimately show "\<exists>b c'. (case search q c of
               Inl e \<Rightarrow> Inl e
             | Inr (True, c) \<Rightarrow> Inr (True, fill_details s p d c)
             | Inr (False, c) \<Rightarrow> Inr (False, note_hard_blocker s me p q c)) = Inr (b, c') \<and>
      (if b then cycle_found s w st base u d c0 c' else seen s w U st base c0 (set (xs @ [q])) c')"
    using b found_hard seen_same by (cases b) auto
qed (use sc in \<open>simp add: seen_start started_def\<close>)

lemma soft_scan:
  assumes sc: "started s w U st base n mb c0" and p: "p \<in> set (waiting_members s u)"
    and search: "searches s w U st base (Suc d) n mb (blockers s w p u) search"
    and c: "seen s w U st base c0 H c"
  shows "\<exists>b c'. try_each (\<lambda>q c. case search q c of
                 Inl e \<Rightarrow> Inl e
               | Inr (True, c) \<Rightarrow> Inr (True, add_soft_edge base u (leader_of s q) (wait_tag s p) (fill_details s p d c))
               | Inr (False, c) \<Rightarrow> Inr (False, c)) (soft_blockers s w p u) c = Inr (b, c') \<and>
      (if b then cycle_found s w st base u d c0 c' else seen s w U st base c0 (H \<union> set (soft_blockers s w p u)) c')"
proof (rule try_each_rule[where I = "\<lambda>xs c. seen s w U st base c0 (H \<union> set xs) c"])
  fix xs q ys c
  assume q: "soft_blockers s w p u = xs @ q # ys" and sn: "seen s w U st base c0 (H \<union> set xs) c"
  then have "q \<in> blockers s w p u" by simp
  from searches_call[OF search this sc sn] obtain b c' where b: "search q c = Inr (b, c')"
    "b \<Longrightarrow> found s w st base (leader_of s q) (Suc d) c0 c'"
    "\<not> b \<Longrightarrow> seen s w U st base c0 (insert q (H \<union> set xs)) c'" by blast
  have "is_edge s w (u, p, q, True)" using p q by (simp add: is_edge_def)
  moreover have "length (detailArray c0) = MaxBackends c0" "base + MaxBackends c0 \<le> length (possibleConstraints c0)"
    using sc by (simp_all add: started_def ready_def)
  ultimately show "\<exists>b c'. (case search q c of
                 Inl e \<Rightarrow> Inl e
               | Inr (True, c) \<Rightarrow> Inr (True, add_soft_edge base u (leader_of s q) (wait_tag s p) (fill_details s p d c))
               | Inr (False, c) \<Rightarrow> Inr (False, c)) = Inr (b, c') \<and>
      (if b then cycle_found s w st base u d c0 c' else seen s w U st base c0 (H \<union> set (xs @ [q])) c')"
    using b found_soft by (cases b) auto
qed (simp add: c)

lemma member_scan:
  assumes sc: "started s w U st base n mb c0" and p: "p \<in> set (waiting_members s u)"
    and search: "searches s w U st base (Suc d) n mb (blockers s w p u) search"
  shows "\<exists>b c'. FindLockCycleRecurseMember search s me base p u d c0 = Inr (b, c') \<and>
    (if b then cycle_found s w st base u d c0 c' else seen s w U st base c0 (blockers s w p u) c')"
proof -
  obtain b1 c1 where h: "try_each (\<lambda>q c. case search q c of
               Inl e \<Rightarrow> Inl e
             | Inr (True, c) \<Rightarrow> Inr (True, fill_details s p d c)
             | Inr (False, c) \<Rightarrow> Inr (False, note_hard_blocker s me p q c)) (hard_blockers s p u) c0 = Inr (b1, c1)"
      "if b1 then cycle_found s w st base u d c0 c1 else seen s w U st base c0 (set (hard_blockers s p u)) c1"
    using hard_scan[OF assms] by blast
  show ?thesis
  proof (cases b1)
    case True
    then show ?thesis using h by (auto simp: FindLockCycleRecurseMember_def)
  next
    case False
    define c2 where "c2 = note_waiting_autovacuum s me p u c1"
    have s2: "seen s w U st base c0 (set (hard_blockers s p u)) c2"
      using h(2) False seen_same[of s w U st base c0 _ c1 c2] by (simp add: c2_def)
    then have "waitOrders c2 = w" using seen_orders sc unfolding started_def by blast
    then show ?thesis
      using soft_scan[OF assms s2] h(1) False unfolding FindLockCycleRecurseMember_def by (simp add: c2_def)
  qed
qed

text \<open>Visiting group \<open>u\<close> after all its members were scanned without success.\<close>

lemma explored_visit:
  assumes c1: "c1 = c\<lparr>visitedProcs := visitedProcs c @ [u]\<rparr>"
    and sn: "seen s w U st base c1 (\<Union>p \<in> set (waiting_members s u). blockers s w p u) c'"
  shows "explored s w U st base c c' \<and> u \<in> set (visitedProcs c')"
proof -
  have ex: "explored s w U st base c1 c'" using sn by (simp add: seen_def)
  obtain new where new: "visitedProcs c' = visitedProcs c1 @ new" "distinct (visitedProcs c')" "set (visitedProcs c') \<subseteq> U"
    "\<And>x y. x \<in> set new \<Longrightarrow> waits_for s w x y \<Longrightarrow> y \<in> set (visitedProcs c') \<and> y \<noteq> st"
    using ex unfolding explored_def by blast
  have "y \<in> set (visitedProcs c') \<and> y \<noteq> st" if "waits_for s w u y" for y
    using that sn unfolding seen_def waits_for_def by blast
  then have "\<exists>new. visitedProcs c' = visitedProcs c @ new \<and> distinct (visitedProcs c') \<and> set (visitedProcs c') \<subseteq> U \<and>
      (\<forall>x \<in> set new. \<forall>y. waits_for s w x y \<longrightarrow> y \<in> set (visitedProcs c') \<and> y \<noteq> st)"
    using new c1 by (intro exI[of _ "u # new"]) auto
  moreover have "same_work base c1 c" by (simp add: c1 same_work_def)
  then have "same_work base c' c" "nSoftEdges c' = 0" "possibleConstraints c' = possibleConstraints c"
    using ex same_work_trans unfolding explored_def by (blast, blast, simp add: c1)
  moreover have "u \<in> set (visitedProcs c')" using new(1) c1 by simp
  ultimately show ?thesis unfolding explored_def by blast
qed

lemma group_scan:
  assumes rd: "ready s w U base c" and u: "u \<in> U" "u \<notin> set (visitedProcs c)"
    and st: "hd (visitedProcs c @ [u]) = st"
    and search: "\<And>p. p \<in> set (waiting_members s u) \<Longrightarrow>
        searches s w U st base (Suc d) (Suc (length (visitedProcs c))) (MaxBackends c) (blockers s w p u) search"
  shows "\<exists>b c'. try_each (\<lambda>p c. FindLockCycleRecurseMember search s me base p u d c) (waiting_members s u)
        (c\<lparr>visitedProcs := visitedProcs c @ [u]\<rparr>) = Inr (b, c') \<and>
      (if b then cycle_found s w st base u d c c' else explored s w U st base c c' \<and> u \<in> set (visitedProcs c'))"
proof -
  define c1 where "c1 = c\<lparr>visitedProcs := visitedProcs c @ [u]\<rparr>"
  let ?n = "Suc (length (visitedProcs c))"
  have sc1: "started s w U st base ?n (MaxBackends c) c1" using rd u st by (simp add: started_def ready_def c1_def)
  have w1: "same_work base c1 c" by (simp add: c1_def same_work_def)
  let ?B = "\<lambda>P. \<Union>p \<in> P. blockers s w p u"
  have "\<exists>b c'. try_each (\<lambda>p c. FindLockCycleRecurseMember search s me base p u d c) (waiting_members s u) c1 = Inr (b, c') \<and>
      (if b then cycle_found s w st base u d c1 c' else seen s w U st base c1 (?B (set (waiting_members s u))) c')"
  proof (rule try_each_rule[where I = "\<lambda>xs c'. seen s w U st base c1 (?B (set xs)) c'"])
    fix xs p ys c'
    assume p: "waiting_members s u = xs @ p # ys" and sn: "seen s w U st base c1 (?B (set xs)) c'"
    then have ex: "explored s w U st base c1 c'" by (simp add: seen_def)
    obtain b c'' where b: "FindLockCycleRecurseMember search s me base p u d c' = Inr (b, c'')"
      "if b then cycle_found s w st base u d c' c'' else seen s w U st base c' (blockers s w p u) c''"
      using member_scan[OF explored_started[OF ex sc1] _ search, of p me] p by auto
    have "cycle_found s w st base u d c1 c''" if b
      using that b(2) cycle_found_work ex unfolding explored_def by auto
    moreover have "seen s w U st base c1 (?B (set (xs @ [p]))) c''" if "\<not> b"
      using seen_trans[OF sn, of "blockers s w p u" c''] that b(2) by (simp add: Un_commute)
    ultimately show "\<exists>b c''. FindLockCycleRecurseMember search s me base p u d c' = Inr (b, c'') \<and>
       (if b then cycle_found s w st base u d c1 c'' else seen s w U st base c1 (?B (set (xs @ [p]))) c'')"
      using b(1) by auto
  qed (use sc1 in \<open>simp add: seen_start started_def\<close>)
  then show ?thesis
    using cycle_found_work[OF _ w1] explored_visit[OF c1_def] unfolding c1_def[symmetric] by (metis (full_types))
qed

lemma find_visited:
  "find (\<lambda>i. vs ! i = u) [0..<length vs] = None \<longleftrightarrow> u \<notin> set vs"
  "find (\<lambda>i. vs ! i = u) [0..<length vs] = Some i \<Longrightarrow> i < length vs \<and> vs ! i = u"
  by (auto simp: find_None_iff find_Some_iff in_set_conv_nth)

text \<open>A group visited before: it closes a cycle exactly if it is the one the search started from.\<close>

lemma visited_search:
  assumes rd: "ready s w U base c" and d: "d \<le> length (visitedProcs c)" and st: "visitedProcs c \<noteq> []" "hd (visitedProcs c) = st"
    and q: "leader_of s q \<in> set (visitedProcs c)"
  shows "search_ok s w U st base (leader_of s q) d c (FindLockCycleRecurse (Suc fuel) s me base q d c)"
proof -
  define u where "u = leader_of s q"
  obtain i where i: "find (\<lambda>i. visitedProcs c ! i = u) [0..<length (visitedProcs c)] = Some i"
    using find_visited(1)[of "visitedProcs c" u] q unfolding u_def by fastforce
  have iu: "i < length (visitedProcs c)" "visitedProcs c ! i = u" using find_visited(2)[OF i] by auto
  have st0: "visitedProcs c ! 0 = st" using st by (simp add: hd_conv_nth)
  show ?thesis
  proof (cases "i = 0")
    case True
    have "length (visitedProcs c) \<le> MaxBackends c"
      using rd distinct_card[of "visitedProcs c"] card_mono[of U "set (visitedProcs c)"]
      unfolding ready_def search_area_def by auto
    then have "found s w st base u d c (c\<lparr>nDeadlockDetails := d\<rparr>)"
      using True st0 iu d rd unfolding found_def
      by (intro conjI exI[of _ "[]"]) (auto simp: same_work_def ready_def)
    then show ?thesis using i True unfolding search_ok_def u_def[symmetric] by (auto simp: u_def)
  next
    case False
    then have "u \<noteq> st"
      using iu st0 rd nth_eq_iff_index_eq[of "visitedProcs c" i 0] unfolding ready_def by fastforce
    then show ?thesis using i False q explored_refl[OF rd] unfolding search_ok_def u_def by auto
  qed
qed

lemma ready_room:
  assumes rd: "ready s w U base c" and u: "u \<in> U" "u \<notin> set (visitedProcs c)"
  shows "length (visitedProcs c) < MaxBackends c"
proof -
  have fin: "finite U" "card U \<le> MaxBackends c" and vis: "distinct (visitedProcs c)" "set (visitedProcs c) \<subseteq> U"
    using rd by (auto simp: ready_def search_area_def)
  have "card (set (visitedProcs c)) < card U"
    by (rule psubset_card_mono[OF fin(1)]) (use vis u in auto)
  then show ?thesis using fin(2) distinct_card[OF vis(1)] by simp
qed

lemma FindLockCycleRecurse_search:
  assumes "ready s w U base c" "leader_of s q \<in> U" "d \<le> length (visitedProcs c)"
    "MaxBackends c - length (visitedProcs c) + 1 \<le> fuel" "visitedProcs c \<noteq> []" "hd (visitedProcs c) = st"
  shows "search_ok s w U st base (leader_of s q) d c (FindLockCycleRecurse fuel s me base q d c)"
  using assms
proof (induction fuel arbitrary: c q d)
  case (Suc fuel)
  define u where "u = leader_of s q"
  note rd = Suc.prems(1)
  show ?case
  proof (cases "u \<in> set (visitedProcs c)")
    case True
    then show ?thesis using visited_search[OF rd Suc.prems(3,5,6)] unfolding u_def by blast
  next
    case new: False
    have uU: "u \<in> U" using Suc.prems(2) by (simp add: u_def)
    note room = ready_room[OF rd uU new]
    let ?search = "\<lambda>q c. FindLockCycleRecurse fuel s me base q (Suc d) c"
    have "searches s w U st base (Suc d) (Suc (length (visitedProcs c))) (MaxBackends c) (blockers s w p u) ?search"
      if p: "p \<in> set (waiting_members s u)" for p
      unfolding searches_def
    proof (intro allI impI)
      fix q' c' assume q': "q' \<in> blockers s w p u"
        and sc: "started s w U st base (Suc (length (visitedProcs c))) (MaxBackends c) c'"
      have "waits_for s w u (leader_of s q')" using p q' unfolding waits_for_def by blast
      then have "leader_of s q' \<in> U" using rd uU unfolding ready_def search_area_def by blast
      then show "search_ok s w U st base (leader_of s q') (Suc d) c' (?search q' c')"
        using sc Suc.prems(3,4) room unfolding started_def by (intro Suc.IH) auto
    qed
    then have "\<exists>b c'. try_each (\<lambda>p c. FindLockCycleRecurseMember ?search s me base p u d c) (waiting_members s u)
          (c\<lparr>visitedProcs := visitedProcs c @ [u]\<rparr>) = Inr (b, c') \<and>
        (if b then cycle_found s w st base u d c c' else explored s w U st base c c' \<and> u \<in> set (visitedProcs c'))"
      using Suc.prems(5,6) by (intro group_scan[OF rd uU new]) auto
    moreover have "find (\<lambda>i. visitedProcs c ! i = u) [0..<length (visitedProcs c)] = None"
      using find_visited(1) new by metis
    then have "FindLockCycleRecurse (Suc fuel) s me base q d c =
        try_each (\<lambda>p c. FindLockCycleRecurseMember ?search s me base p u d c) (waiting_members s u)
          (c\<lparr>visitedProcs := visitedProcs c @ [u]\<rparr>)"
      using room by (simp add: u_def Let_def)
    moreover have "u \<noteq> st" using new Suc.prems(5,6) by auto
    ultimately show ?thesis unfolding search_ok_def u_def[symmetric] cycle_found_def
      by (elim exE conjE) (simp split: if_splits)
  qed
qed simp

lemma wait_path_tranclp: "wait_path s w u es v \<Longrightarrow> es \<noteq> [] \<Longrightarrow> (waits_for s w)\<^sup>+\<^sup>+ u v"
proof (induction s w u es v rule: wait_path.induct)
  case (2 s w u u' p q soft es v)
  have e: "waits_for s w u (leader_of s q)"
    using "2.prems"(1) unfolding waits_for_def
    by (rule_tac x = p in bexI, rule_tac x = q in bexI) (auto simp: is_edge_def split: if_splits)
  show ?case
  proof (cases "es = []")
    case True
    then show ?thesis using e "2.prems"(1) by auto
  next
    case False
    then show ?thesis using e "2.IH" "2.prems"(1) by (auto intro: tranclp_into_tranclp2)
  qed
qed simp

lemma closed_no_cycle:
  assumes "\<And>x y. x \<in> V \<Longrightarrow> E x y \<Longrightarrow> y \<in> V \<and> y \<noteq> u" "u \<in> V"
  shows "\<not> E\<^sup>+\<^sup>+ u u"
proof
  assume "E\<^sup>+\<^sup>+ u u"
  moreover have "y \<in> V \<and> y \<noteq> u" if "E\<^sup>+\<^sup>+ u y" for y
    using that by (induction rule: tranclp_induct) (use assms in auto)
  ultimately show False by blast
qed

text \<open>The search as a whole: it returns, and decides whether the group of the process is on a cycle.\<close>

lemma FindLockCycle_spec:
  assumes w: "waitOrders c = w" and l: "length (detailArray c) = MaxBackends c"
    "base + MaxBackends c \<le> length (possibleConstraints c)"
    and U: "search_area s w (MaxBackends c) U" "leader_of s p \<in> U"
  obtains b c' where "FindLockCycle s me base p c = Inr (b, c')" "same_work base c' c"
    "b \<longleftrightarrow> (waits_for s w)\<^sup>+\<^sup>+ (leader_of s p) (leader_of s p)"
    "b \<Longrightarrow> cycle_found s w (leader_of s p) base (leader_of s p) 0 c c'"
    "\<not> b \<Longrightarrow> possibleConstraints c' = possibleConstraints c"
proof -
  define c0 where "c0 = c\<lparr>visitedProcs := [], nDeadlockDetails := 0, nSoftEdges := 0\<rparr>"
  define u where "u = leader_of s p"
  have rd: "ready s w U base c0" using w l U by (simp add: ready_def c0_def)
  have w0: "same_work base c0 c" by (simp add: c0_def same_work_def)
  have M: "0 < MaxBackends c" using U card_gt_0_iff[of U] unfolding search_area_def by force
  have fuel: "MaxBackends c + 2 = Suc (MaxBackends c + 1)" by simp
  define r where "r = try_each (\<lambda>p c. FindLockCycleRecurseMember
      (\<lambda>q c. FindLockCycleRecurse (MaxBackends c0 + 1) s me base q (Suc 0) c) s me base p u 0 c) (waiting_members s u)
      (c0\<lparr>visitedProcs := visitedProcs c0 @ [u]\<rparr>)"
  have r: "FindLockCycle s me base p c = r"
    using FindLockCycleRecurse.simps(2)[of "MaxBackends c + 1" s me base p 0 c0] M unfolding FindLockCycle_def fuel
    by (simp add: c0_def u_def r_def Let_def del: FindLockCycleRecurse.simps)
  have "\<exists>b c'. r = Inr (b, c') \<and> (if b then cycle_found s w u base u 0 c0 c'
      else explored s w U u base c0 c' \<and> u \<in> set (visitedProcs c'))"
    unfolding r_def
  proof (rule group_scan[OF rd])
    show "u \<in> U" "u \<notin> set (visitedProcs c0)" "hd (visitedProcs c0 @ [u]) = u" using U(2) by (simp_all add: u_def c0_def)
    fix p assume p: "p \<in> set (waiting_members s u)"
    have "leader_of s q \<in> U" if "q \<in> blockers s w p u" for q
      using U p that unfolding search_area_def waits_for_def u_def by blast
    then show "searches s w U u base (Suc 0) (Suc (length (visitedProcs c0))) (MaxBackends c0) (blockers s w p u)
        (\<lambda>q c. FindLockCycleRecurse (MaxBackends c0 + 1) s me base q (Suc 0) c)"
      unfolding searches_def started_def by (auto intro!: FindLockCycleRecurse_search simp del: FindLockCycleRecurse.simps)
  qed
  then obtain b c' where b: "r = Inr (b, c')" "if b then cycle_found s w u base u 0 c0 c'
      else explored s w U u base c0 c' \<and> u \<in> set (visitedProcs c')" by blast
  show thesis
  proof (rule that[of b c'])
    show "FindLockCycle s me base p c = Inr (b, c')" using r b(1) by simp
    show cf: "cycle_found s w (leader_of s p) base (leader_of s p) 0 c c'" if b
      using b(2) that cycle_found_work[OF _ w0] by (simp add: u_def)
    show "possibleConstraints c' = possibleConstraints c" if "\<not> b"
      using b(2) that by (simp add: explored_def c0_def)
    show "same_work base c' c"
      using b(2) cf same_work_trans[OF _ w0] unfolding cycle_found_def found_def explored_def by (cases b) auto
    show "b \<longleftrightarrow> (waits_for s w)\<^sup>+\<^sup>+ (leader_of s p) (leader_of s p)"
    proof (cases b)
      case True
      then obtain es where "wait_path s w u es u" "nDeadlockDetails c' = length es" "0 < nDeadlockDetails c'"
        using cf unfolding cycle_found_def found_def u_def by auto
      then show ?thesis using True wait_path_tranclp[of s w u es u] by (auto simp: u_def)
    next
      case False
      then obtain new where "visitedProcs c' = new" "u \<in> set new"
        "\<And>x y. x \<in> set new \<Longrightarrow> waits_for s w x y \<Longrightarrow> y \<in> set (visitedProcs c') \<and> y \<noteq> u"
        using b(2) unfolding explored_def by (auto simp: c0_def)
      then show ?thesis using False closed_no_cycle[of "set new" "waits_for s w" u] by (auto simp: u_def)
    qed
  qed
qed

end
