(* ===== verification/Deadlock_Topo.thy ===== *)
theory Deadlock_Topo
  imports Deadlock_Search Lock_State "HOL-Library.Multiset"
begin

text \<open>
  The topological sort of a wait queue. It never leaves its arrays; if it succeeds, the result is a
  permutation of the queue in which, for every constraint that concerns the queue, all waiting members of the
  waiter's group precede those of the blocker's; it fails only if the constraints form a cycle.
\<close>

section \<open>Groups and representatives\<close>

lemma leader_idem: "groups_wf s \<Longrightarrow> leader_of s (leader_of s q) = leader_of s q"
  by (auto simp: groups_wf_def leader_of_def split: option.splits)

lemma in_group_iff: "groups_wf s \<Longrightarrow> leader_of s g = g \<Longrightarrow> in_group s g q \<longleftrightarrow> leader_of s q = g"
  by (auto simp: in_group_def leader_of_def split: option.splits)

definition rep :: "lock_space \<Rightarrow> procno list \<Rightarrow> procno \<Rightarrow> nat option" where
  "rep s qs g = find (\<lambda>j. leader_of s (qs ! j) = g) (rev [0..<length qs])"

lemma rep_Some: "rep s qs g = Some j \<longleftrightarrow> j < length qs \<and> leader_of s (qs ! j) = g \<and>
    (\<forall>i. j < i \<longrightarrow> i < length qs \<longrightarrow> leader_of s (qs ! i) \<noteq> g)"
  by (simp add: rep_def find_down_Some)

lemma rep_None: "rep s qs g = None \<longleftrightarrow> (\<forall>j < length qs. leader_of s (qs ! j) \<noteq> g)"
  by (simp add: rep_def find_down_None)

lemma rep_unique: "rep s qs g = Some j \<Longrightarrow> rep s qs g' = Some j \<Longrightarrow> g = g'"
  by (simp add: rep_Some)

lemma topo_find_eq:
  assumes g: "groups_wf s" "leader_of s proc = proc" and l: "length before = length qs"
    and r: "topo_find s qs proc before = (jj, before')"
  shows "jj = rep s qs proc" "length before' = length qs"
    "j < length qs \<Longrightarrow> before' ! j = (if leader_of s (qs ! j) = proc \<and> jj \<noteq> Some j then - 1 else before ! j)"
proof -
  define P where "P j \<longleftrightarrow> leader_of s (qs ! j) = proc" for j
  define I where "I k x \<longleftrightarrow> (case x of (jj, b) \<Rightarrow>
      (case jj of None \<Rightarrow> (\<forall>j. k \<le> j \<longrightarrow> j < length qs \<longrightarrow> \<not> P j)
       | Some r \<Rightarrow> k \<le> r \<and> r < length qs \<and> P r \<and> (\<forall>i. r < i \<longrightarrow> i < length qs \<longrightarrow> \<not> P i)) \<and>
      length b = length qs \<and> (\<forall>j < length qs. b ! j = (if k \<le> j \<and> P j \<and> jj \<noteq> Some j then - 1 else before ! j)))"
    for k and x :: "nat option \<times> int list"
  have "I 0 (fold (\<lambda>j (jj, before).
         if in_group s proc (qs ! j)
         then (case jj of None \<Rightarrow> (Some j, before) | Some _ \<Rightarrow> (jj, before[j := -1]))
         else (jj, before)) (rev [0..<length qs]) (None, before))"
  proof (rule fold_rev_upt_rule[where I = I])
    show "I (length qs) (None, before)" using l by (simp add: I_def)
    fix k x
    assume k: "k < length qs" and i: "I (Suc k) x"
    obtain jj b where x: "x = (jj, b)" by fastforce
    have pk: "in_group s proc (qs ! k) \<longleftrightarrow> P k" by (simp add: in_group_iff[OF g] P_def)
    show "I k (case x of (jj, before) \<Rightarrow> if in_group s proc (qs ! k)
         then (case jj of None \<Rightarrow> (Some k, before) | Some _ \<Rightarrow> (jj, before[k := -1]))
         else (jj, before))"
    proof (cases "P k")
      case True
      then show ?thesis using i k unfolding x pk I_def
        by (auto simp: nth_list_update Suc_le_eq le_less[of k] split: option.splits)
    next
      case False
      then have "k \<le> j \<and> P j \<longleftrightarrow> Suc k \<le> j \<and> P j" for j by (metis Suc_leI le_less le_Suc_eq not_less_eq_eq)
      then show ?thesis using i False k unfolding x pk I_def by (auto split: option.splits)
    qed
  qed
  then have i: "I 0 (jj, before')" using r by (simp add: topo_find_def)
  show "jj = rep s qs proc"
  proof (cases jj)
    case None
    then show ?thesis using i rep_None[of s qs proc] by (simp add: I_def P_def)
  next
    case (Some r)
    then show ?thesis using i rep_Some[of s qs proc r] by (simp add: I_def P_def)
  qed
  show "length before' = length qs" "j < length qs \<Longrightarrow> before' ! j = (if leader_of s (qs ! j) = proc \<and> jj \<noteq> Some j then - 1 else before ! j)"
    using i by (simp_all add: I_def P_def)
qed

section \<open>Entering the constraints\<close>

definition relevant :: "lock_space \<Rightarrow> procno list \<Rightarrow> EDGE \<Rightarrow> bool" where
  "relevant s qs e \<longleftrightarrow> rep s qs (waiter e) \<noteq> None \<and> rep s qs (blocker e) \<noteq> None"

definition touched :: "lock_space \<Rightarrow> procno list \<Rightarrow> EDGE list \<Rightarrow> nat \<Rightarrow> procno set" where
  "touched s qs cs i = (\<lambda>k. waiter (cs ! k)) ` {..<i} \<union>
     (\<lambda>k. blocker (cs ! k)) ` {k. k < i \<and> rep s qs (waiter (cs ! k)) \<noteq> None}"

lemma touched_Suc: "touched s qs cs (Suc i) = touched s qs cs i \<union> {waiter (cs ! i)} \<union>
    (if rep s qs (waiter (cs ! i)) = None then {} else {blocker (cs ! i)})"
  by (auto simp: touched_def less_Suc_eq)

text \<open>The relevant constraints among the first \<open>i\<close> that say that group \<open>g\<close> comes before a group outside \<open>D\<close>.\<close>

definition to_precede :: "lock_space \<Rightarrow> procno list \<Rightarrow> EDGE list \<Rightarrow> nat \<Rightarrow> procno set \<Rightarrow> procno \<Rightarrow> nat set" where
  "to_precede s qs cs i D g = {k. k < i \<and> relevant s qs (cs ! k) \<and> waiter (cs ! k) = g \<and> blocker (cs ! k) \<notin> D}"

lemma finite_to_precede [simp]: "finite (to_precede s qs cs i D g)"
  by (simp add: to_precede_def)

lemma to_precede_Suc: "to_precede s qs cs (Suc i) {} g =
    (if relevant s qs (cs ! i) \<and> waiter (cs ! i) = g then insert i (to_precede s qs cs i {} g) else to_precede s qs cs i {} g)"
  by (auto simp: to_precede_def less_Suc_eq)

lemma not_in_to_precede [simp]: "i \<notin> to_precede s qs cs i D g"
  by (simp add: to_precede_def)

definition counter :: "lock_space \<Rightarrow> procno list \<Rightarrow> EDGE list \<Rightarrow> nat \<Rightarrow> procno set \<Rightarrow> nat \<Rightarrow> int" where
  "counter s qs cs i D j = (let g = leader_of s (qs ! j) in
     if rep s qs g = Some j then int (card (to_precede s qs cs i D g))
     else if g \<in> touched s qs cs i then - 1 else 0)"

primrec chain :: "EDGE list \<Rightarrow> nat list \<Rightarrow> nat \<Rightarrow> bool" where
  "chain cs [] k0 \<longleftrightarrow> k0 = 0"
| "chain cs (k # ks) k0 \<longleftrightarrow> k0 = Suc k \<and> chain cs ks (link (cs ! k))"

lemma chain_cong: "(\<And>k. k \<in> set ks \<Longrightarrow> link (cs' ! k) = link (cs ! k)) \<Longrightarrow> chain cs' ks k0 = chain cs ks k0"
  by (induction ks arbitrary: k0) auto

definition followers :: "lock_space \<Rightarrow> procno list \<Rightarrow> EDGE list \<Rightarrow> nat \<Rightarrow> nat \<Rightarrow> nat list" where
  "followers s qs cs i j = rev (filter (\<lambda>k. relevant s qs (cs ! k) \<and> rep s qs (blocker (cs ! k)) = Some j) [0..<i])"

definition topo_inv :: "lock_space \<Rightarrow> procno list \<Rightarrow> EDGE list \<Rightarrow> nat \<Rightarrow> int list \<times> nat list \<times> EDGE list \<Rightarrow> bool" where
  "topo_inv s qs cs i = (\<lambda>(before, after, cs'). length before = length qs \<and> length after = length qs \<and>
     map edge_key cs' = map edge_key cs \<and>
     (\<forall>j < length qs. before ! j = counter s qs cs i {} j) \<and>
     (\<forall>j < length qs. chain cs' (followers s qs cs i j) (after ! j)) \<and>
     (\<forall>k < i. relevant s qs (cs ! k) \<longrightarrow> rep s qs (waiter (cs ! k)) = Some (pred (cs' ! k))))"

lemma edge_keyD:
  assumes "map edge_key cs' = map edge_key cs" "k < length cs"
  shows "waiter (cs' ! k) = waiter (cs ! k)" "blocker (cs' ! k) = blocker (cs ! k)" "edge_lock (cs' ! k) = edge_lock (cs ! k)"
proof -
  have "length cs' = length cs" using assms(1) by (metis length_map)
  then have "edge_key (cs' ! k) = edge_key (cs ! k)" using assms by (metis nth_map)
  then show "waiter (cs' ! k) = waiter (cs ! k)" "blocker (cs' ! k) = blocker (cs ! k)" "edge_lock (cs' ! k) = edge_lock (cs ! k)"
    by (simp_all add: edge_key_def)
qed

lemma edge_key_update:
  assumes "map edge_key cs' = map edge_key cs"
  shows "map edge_key (cs'[i := (cs' ! i)\<lparr>pred := a, link := b\<rparr>]) = map edge_key cs"
proof (cases "i < length cs'")
  case True
  then have "edge_key ((cs' ! i)\<lparr>pred := a, link := b\<rparr>) = map edge_key cs' ! i" by (simp add: edge_key_def)
  then show ?thesis by (metis assms list_update_id map_update)
qed (use assms in \<open>simp add: list_update_beyond\<close>)

lemma topo_constraint_inv:
  assumes g: "groups_wf s" "leader_of s (waiter (cs ! i)) = waiter (cs ! i)" "leader_of s (blocker (cs ! i)) = blocker (cs ! i)"
    and i: "i < length cs" and inv: "topo_inv s qs cs i x"
  shows "topo_inv s qs cs (Suc i) (topo_constraint s qs i x)"
proof -
  obtain before after cs' where x: "x = (before, after, cs')" by (cases x)
  have I: "length before = length qs" "length after = length qs" "map edge_key cs' = map edge_key cs"
    "\<And>j. j < length qs \<Longrightarrow> before ! j = counter s qs cs i {} j"
    "\<And>j. j < length qs \<Longrightarrow> chain cs' (followers s qs cs i j) (after ! j)"
    "\<And>k. k < i \<Longrightarrow> relevant s qs (cs ! k) \<Longrightarrow> rep s qs (waiter (cs ! k)) = Some (pred (cs' ! k))"
    using inv unfolding topo_inv_def x by auto
  have l: "length cs' = length cs" using I(3) by (metis length_map)
  define W where "W = waiter (cs ! i)"
  define B where "B = blocker (cs ! i)"
  have WB: "waiter (cs' ! i) = W" "blocker (cs' ! i) = B" using edge_keyD[OF I(3) i] by (simp_all add: W_def B_def)
  obtain jj b1 where f1: "topo_find s qs W before = (jj, b1)" by fastforce
  note F1 = topo_find_eq[OF g(1) _ I(1) f1]
  have gW: "leader_of s W = W" "leader_of s B = B" using g by (simp_all add: W_def B_def)
  have jj: "jj = rep s qs W" and lb1: "length b1 = length qs" using F1(1,2)[OF gW(1)] by auto
  have fol: "followers s qs cs (Suc i) j = (if relevant s qs (cs ! i) \<and> rep s qs B = Some j then i # followers s qs cs i j
      else followers s qs cs i j)" for j by (simp add: followers_def B_def)
  show ?thesis
  proof (cases "rep s qs W")
    case None
    then have r: "topo_constraint s qs i x = (b1, after, cs')" using f1 WB jj by (simp add: topo_constraint_def x)
    have nr: "\<not> relevant s qs (cs ! i)" using None by (simp add: relevant_def W_def)
    have "b1 ! j = counter s qs cs (Suc i) {} j" if j: "j < length qs" for j
    proof -
      have "leader_of s (qs ! j) \<noteq> W" using None j rep_None by blast
      then show ?thesis using F1(3)[OF gW(1) j] I(4)[OF j] nr None
        by (simp add: counter_def Let_def to_precede_Suc touched_Suc W_def)
    qed
    then show ?thesis using r I lb1 nr fol by (auto simp: topo_inv_def less_Suc_eq)
  next
    case (Some w)
    obtain kk b2 where f2: "topo_find s qs B b1 = (kk, b2)" by fastforce
    note F2 = topo_find_eq[OF g(1) gW(2) lb1 f2]
    have b2: "b2 ! j = (let g = leader_of s (qs ! j) in if rep s qs g \<noteq> Some j \<and> (g = W \<or> g = B) then - 1 else before ! j)"
      if "j < length qs" for j
      using F1(3)[OF gW(1) that] F2(3)[OF that] jj F2(1) by (auto simp: Let_def)
    show ?thesis
    proof (cases "rep s qs B")
      case None
      then have r: "topo_constraint s qs i x = (b2, after, cs')"
        using f1 f2 WB jj Some F2(1) by (simp add: topo_constraint_def x)
      have nr: "\<not> relevant s qs (cs ! i)" using None by (simp add: relevant_def B_def)
      have "b2 ! j = counter s qs cs (Suc i) {} j" if j: "j < length qs" for j
        using b2[OF j] I(4)[OF j] nr Some
        by (auto simp: counter_def Let_def to_precede_Suc touched_Suc W_def B_def)
      then show ?thesis using r I F2(2) nr fol by (auto simp: topo_inv_def less_Suc_eq)
    next
      case (Some b)
      note Sb = this and Sw = \<open>rep s qs W = Some w\<close>
      define cs2 where "cs2 = cs'[i := (cs' ! i)\<lparr>pred := w, link := after ! b\<rparr>]"
      have r: "topo_constraint s qs i x = (b2[w := b2 ! w + 1], after[b := i + 1], cs2)"
        using f1 f2 WB jj Sw Sb F2(1) by (simp add: topo_constraint_def x cs2_def)
      have rel: "relevant s qs (cs ! i)" using Sw Sb by (simp add: relevant_def W_def B_def)
      have wl: "w < length qs" "leader_of s (qs ! w) = W" "b < length qs" using Sw Sb by (auto simp: rep_Some)
      have "b2[w := b2 ! w + 1] ! j = counter s qs cs (Suc i) {} j" if j: "j < length qs" for j
      proof (cases "j = w")
        case True
        then show ?thesis using b2[OF wl(1)] I(4)[OF wl(1)] wl Sw rel F2(2)
          by (simp add: counter_def Let_def to_precede_Suc W_def[symmetric])
      next
        case False
        have "rep s qs (leader_of s (qs ! j)) = Some j \<Longrightarrow> leader_of s (qs ! j) \<noteq> W" using False Sw by auto
        then show ?thesis using False b2[OF j] I(4)[OF j] Sw
          by (auto simp: counter_def Let_def to_precede_Suc touched_Suc W_def B_def)
      qed
      moreover have "chain cs2 (followers s qs cs (Suc i) j) (after[b := i + 1] ! j)" if j: "j < length qs" for j
      proof -
        have old: "chain cs2 (followers s qs cs i j) (after ! j)"
          using I(5)[OF j] chain_cong[of "followers s qs cs i j" cs2 cs'] by (auto simp: cs2_def followers_def)
        have "link (cs2 ! i) = after ! b" using i l by (simp add: cs2_def)
        then show ?thesis using old Sb rel fol I(2) j wl(3) by (cases "j = b") auto
      qed
      moreover have "rep s qs (waiter (cs ! k)) = Some (pred (cs2 ! k))" if "k < Suc i" "relevant s qs (cs ! k)" for k
        using that I(6) Sw i l by (cases "k = i") (auto simp: cs2_def W_def)
      ultimately show ?thesis
        unfolding r topo_inv_def using F2(2) I(2) edge_key_update[OF I(3)] by (auto simp: cs2_def)
    qed
  qed
qed

lemma topo_start_inv: "topo_inv s qs cs 0 (replicate (length qs) 0, replicate (length qs) 0, cs)"
  by (simp add: topo_inv_def counter_def Let_def to_precede_def touched_def followers_def)

section \<open>Emitting\<close>

lemma fill_last_free: "(replicate (Suc r) x @ zs)[r := v] = replicate r x @ v # zs"
  by (induction r) simp_all

text \<open>\<open>grp\<close> are the waiting members of a group, \<open>xs\<close> the processes at the end of the order.\<close>

lemma emit_group_eq:
  assumes g: "groups_wf s" "leader_of s g = g" and lt: "length topo = length qs" "m < length qs"
    and topo: "\<And>j. j < length qs \<Longrightarrow> topo ! j = (if leader_of s (qs ! j) \<in> D then None else Some (qs ! j))"
    and gD: "g \<notin> D" and out: "\<And>j. m < j \<Longrightarrow> j < length qs \<Longrightarrow> leader_of s (qs ! j) \<in> D"
    and left: "left = length (filter (\<lambda>x. leader_of s x \<notin> D) qs)"
  shows "\<exists>topo'. emit_group s g m (topo, replicate left None @ map Some xs, left) =
      (topo', replicate (length (filter (\<lambda>x. leader_of s x \<notin> insert g D) qs)) None @
         map Some (rev (filter (\<lambda>x. leader_of s x = g) qs) @ xs), length (filter (\<lambda>x. leader_of s x \<notin> insert g D) qs)) \<and>
      length topo' = length qs \<and>
      (\<forall>j < length qs. topo' ! j = (if leader_of s (qs ! j) \<in> insert g D then None else Some (qs ! j)))"
proof -
  define grp where "grp k = filter (\<lambda>x. leader_of s x = g) (take k qs)" for k
  define I where "I k x \<longleftrightarrow> (case x of (topo', order', left') \<Rightarrow> length topo' = length qs \<and>
      left' = left - length (grp k) \<and> order' = replicate left' None @ map Some (rev (grp k) @ xs) \<and>
      (\<forall>j < length qs. topo' ! j = (if j < k \<and> leader_of s (qs ! j) = g then None else topo ! j)))"
    for k and x :: "procno option list \<times> procno option list \<times> nat"
  have split: "length (filter (\<lambda>x. leader_of s x \<notin> D) ys) =
      length (filter (\<lambda>x. leader_of s x = g) ys) + length (filter (\<lambda>x. leader_of s x \<notin> insert g D) ys)" for ys
    using gD by (induction ys) auto
  have le: "length (grp k) \<le> length (filter (\<lambda>x. leader_of s x = g) qs)" for k
    unfolding grp_def by (metis append_take_drop_id filter_append le_add1 length_append)
  have "I (Suc m) (fold (emit_step s g) [0..<Suc m] (topo, replicate left None @ map Some xs, left))"
  proof (rule fold_upt_rule[where I = I])
    show "I 0 (topo, replicate left None @ map Some xs, left)" using lt by (simp add: I_def grp_def)
    fix k x
    assume k: "k < Suc m" and i: "I k x"
    obtain topo' order' left' where x: "x = (topo', order', left')" by (cases x)
    have kq: "k < length qs" using k lt(2) by simp
    have hit: "(case topo' ! k of None \<Rightarrow> False | Some q \<Rightarrow> in_group s g q) \<longleftrightarrow> leader_of s (qs ! k) = g"
      using i kq topo[OF kq] gD by (auto simp: I_def x in_group_iff[OF g] split: option.splits)
    have gs: "grp (Suc k) = (if leader_of s (qs ! k) = g then grp k @ [qs ! k] else grp k)"
      using kq by (simp add: grp_def take_Suc_conv_app_nth)
    show "I (Suc k) (emit_step s g k x)"
    proof (cases "leader_of s (qs ! k) = g")
      case False
      then show ?thesis using i hit gs by (auto simp: I_def x emit_step_def less_Suc_eq)
    next
      case True
      have "length (grp (Suc k)) \<le> left" using le split[of qs] left by (metis le_add1 le_trans)
      then have pos: "0 < left'" using i True gs by (simp add: I_def x)
      have tk: "topo' ! k = Some (qs ! k)" using i kq topo[OF kq] gD True by (simp add: I_def x)
      have e: "emit_step s g k x = (topo'[k := None], order'[left' - 1 := Some (qs ! k)], left' - 1)"
        using hit True tk by (simp add: emit_step_def x)
      obtain r where r: "left' = Suc r" using pos by (cases left') auto
      have "order' = replicate left' None @ map Some (rev (grp k) @ xs)" using i by (simp add: I_def x)
      then have "order'[left' - 1 := Some (qs ! k)] = replicate (left' - 1) None @ map Some (rev (grp (Suc k)) @ xs)"
        using gs True fill_last_free[of r None _ "Some (qs ! k)"] unfolding r by simp
      then show ?thesis
        using i gs True kq unfolding e by (auto simp: I_def x nth_list_update less_Suc_eq)
    qed
  qed simp
  then obtain topo' order' left' where f: "emit_group s g m (topo, replicate left None @ map Some xs, left) = (topo', order', left')"
    and I: "I (Suc m) (topo', order', left')" unfolding emit_group_def by (cases "fold (emit_step s g) [0..<Suc m] (topo, replicate left None @ map Some xs, left)") auto
  have "filter (\<lambda>x. leader_of s x = g) (drop (Suc m) qs) = []"
    using out gD by (fastforce simp: filter_empty_conv in_set_conv_nth)
  then have grp: "grp (Suc m) = filter (\<lambda>x. leader_of s x = g) qs"
    unfolding grp_def by (metis append_Nil2 append_take_drop_id filter_append)
  have l': "left' = length (filter (\<lambda>x. leader_of s x \<notin> insert g D) qs)"
    using I grp split[of qs] left by (simp add: I_def)
  have "topo' ! j = (if leader_of s (qs ! j) \<in> insert g D then None else Some (qs ! j))" if j: "j < length qs" for j
  proof -
    have "j < Suc m \<or> leader_of s (qs ! j) \<noteq> g" using out[of j] gD j by fastforce
    then show ?thesis using I topo[OF j] gD j by (auto simp: I_def)
  qed
  then show ?thesis using f I l' grp by (intro exI[of _ topo']) (auto simp: I_def)
qed

lemma release_preds_eq:
  assumes "chain cs ks k0" "length ks \<le> fuel" "\<And>k. k \<in> set ks \<Longrightarrow> pred (cs ! k) < length before"
  shows "\<exists>before'. release_preds fuel cs k0 before = Some before' \<and> length before' = length before \<and>
    (\<forall>j < length before. before' ! j = before ! j - int (length (filter (\<lambda>k. pred (cs ! k) = j) ks)))"
  using assms
proof (induction ks arbitrary: k0 fuel before)
  case (Cons k ks)
  then obtain f where f: "fuel = Suc f" by (cases fuel) auto
  define b1 where "b1 = before[pred (cs ! k) := before ! pred (cs ! k) - 1]"
  have "\<exists>before'. release_preds f cs (link (cs ! k)) b1 = Some before' \<and> length before' = length b1 \<and>
    (\<forall>j < length b1. before' ! j = b1 ! j - int (length (filter (\<lambda>k. pred (cs ! k) = j) ks)))"
    by (rule Cons.IH) (use Cons.prems f in \<open>auto simp: b1_def\<close>)
  then show ?case using Cons.prems f by (auto simp: b1_def nth_list_update Let_def)
qed simp

section \<open>The sort\<close>

definition group_before :: "lock_space \<Rightarrow> procno \<Rightarrow> procno \<Rightarrow> procno list \<Rightarrow> bool" where
  "group_before s g h xs \<longleftrightarrow> (\<exists>ys zs. xs = ys @ zs \<and> (\<forall>x \<in> set ys. leader_of s x \<noteq> h) \<and> (\<forall>x \<in> set zs. leader_of s x \<noteq> g))"

lemma group_before_prepend:
  assumes "group_before s g h xs" "\<And>x. x \<in> set as \<Longrightarrow> leader_of s x \<noteq> h"
  shows "group_before s g h (as @ xs)"
proof -
  obtain ys zs where "xs = ys @ zs" "\<forall>x \<in> set ys. leader_of s x \<noteq> h" "\<forall>x \<in> set zs. leader_of s x \<noteq> g"
    using assms(1) by (auto simp: group_before_def)
  then show ?thesis using assms(2) unfolding group_before_def by (intro exI[of _ "as @ ys"] exI[of _ zs]) auto
qed

text \<open>The members of a group are next to each other.\<close>

definition adjacent :: "lock_space \<Rightarrow> procno \<Rightarrow> procno list \<Rightarrow> bool" where
  "adjacent s g xs \<longleftrightarrow> (\<exists>as ms bs. xs = as @ ms @ bs \<and> (\<forall>x \<in> set as \<union> set bs. leader_of s x \<noteq> g) \<and>
     (\<forall>x \<in> set ms. leader_of s x = g))"

lemma adjacent_prepend:
  assumes "adjacent s g xs" "\<And>x. x \<in> set ys \<Longrightarrow> leader_of s x \<noteq> g"
  shows "adjacent s g (ys @ xs)"
proof -
  obtain as ms bs where x: "xs = as @ ms @ bs" "\<forall>x \<in> set as \<union> set bs. leader_of s x \<noteq> g" "\<forall>x \<in> set ms. leader_of s x = g"
    using assms(1) unfolding adjacent_def by blast
  have "ys @ xs = (ys @ as) @ ms @ bs" "\<forall>x \<in> set (ys @ as) \<union> set bs. leader_of s x \<noteq> g"
    using x(1,2) assms(2) by auto
  then show ?thesis using x(3) unfolding adjacent_def by blast
qed

lemma adjacent_new:
  assumes "\<And>x. x \<in> set xs \<Longrightarrow> leader_of s x \<noteq> g" "\<And>x. x \<in> set ms \<Longrightarrow> leader_of s x = g"
  shows "adjacent s g (ms @ xs)"
  using assms unfolding adjacent_def by (intro exI[of _ "[]"] exI[of _ ms] exI[of _ xs]) auto

definition precedes :: "lock_space \<Rightarrow> procno list \<Rightarrow> EDGE list \<Rightarrow> nat \<Rightarrow> procno \<Rightarrow> procno \<Rightarrow> bool" where
  "precedes s qs cs n g h \<longleftrightarrow> (\<exists>k < n. relevant s qs (cs ! k) \<and> waiter (cs ! k) = g \<and> blocker (cs ! k) = h)"

lemma successor_cycle:
  assumes "finite A" "A \<noteq> {}" "\<And>a. a \<in> A \<Longrightarrow> \<exists>b \<in> A. E a b"
  shows "\<exists>a \<in> A. E\<^sup>+\<^sup>+ a a"
proof (rule ccontr)
  assume no: "\<not> ?thesis"
  define r where "r = {(b, a). a \<in> A \<and> b \<in> A \<and> E a b}"
  have sub: "(x, y) \<in> r\<^sup>+ \<Longrightarrow> E\<^sup>+\<^sup>+ y x \<and> x \<in> A" for x y
    by (induction rule: trancl_induct) (auto simp: r_def intro: tranclp_into_tranclp2)
  have "r \<subseteq> A \<times> A" by (auto simp: r_def)
  then have "finite r" using assms(1) finite_subset by blast
  moreover have "acyclic r" using no sub by (auto simp: acyclic_def)
  ultimately have "wf r" by (rule finite_acyclic_wf)
  moreover obtain a where "a \<in> A" using assms(2) by blast
  ultimately obtain z where z: "z \<in> A" "\<And>y. (y, z) \<in> r \<Longrightarrow> y \<notin> A" using wfE_min[of r a A] by blast
  obtain b where "b \<in> A" "E z b" using assms(3)[OF z(1)] by blast
  moreover from this have "(b, z) \<in> r" using z(1) by (simp add: r_def)
  ultimately show False using z(2) by blast
qed

text \<open>The state of the scan: the groups in \<open>D\<close> have been emitted, as \<open>xs\<close>.\<close>

definition scan_state :: "lock_space \<Rightarrow> procno list \<Rightarrow> EDGE list \<Rightarrow> nat \<Rightarrow> procno set \<Rightarrow> nat \<Rightarrow>
    procno option list \<Rightarrow> int list \<Rightarrow> procno list \<Rightarrow> bool" where
  "scan_state s qs cs n D m topo before xs \<longleftrightarrow> length topo = length qs \<and> length before = length qs \<and>
     (\<forall>j < length qs. topo ! j = (if leader_of s (qs ! j) \<in> D then None else Some (qs ! j))) \<and>
     (\<forall>j. m < j \<longrightarrow> j < length qs \<longrightarrow> leader_of s (qs ! j) \<in> D) \<and>
     mset xs = mset (filter (\<lambda>x. leader_of s x \<in> D) qs) \<and>
     (\<forall>j < length qs. leader_of s (qs ! j) \<notin> D \<longrightarrow> before ! j = counter s qs cs n D j) \<and>
     (\<forall>g h. precedes s qs cs n g h \<longrightarrow> g \<in> D \<longrightarrow> h \<in> D \<and> group_before s g h xs) \<and>
     (\<forall>g. adjacent s g xs)"

lemma no_candidate_cycle:
  assumes sc: "scan_state s qs cs n D m topo before xs" and ml: "m < length qs" "leader_of s (qs ! m) \<notin> D"
    and none: "\<And>j. j < Suc m \<Longrightarrow> topo ! j \<noteq> None \<Longrightarrow> before ! j \<noteq> 0"
  shows "\<exists>g. (precedes s qs cs n)\<^sup>+\<^sup>+ g g"
proof -
  define A where "A = leader_of s ` set qs - D"
  have "\<exists>b \<in> A. precedes s qs cs n a b" if a: "a \<in> A" for a
  proof -
    obtain i where "i < length qs" "leader_of s (qs ! i) = a" using a by (auto simp: A_def in_set_conv_nth)
    then obtain j where j: "rep s qs a = Some j" using rep_None[of s qs a] by (cases "rep s qs a") auto
    then have jl: "j < length qs" "leader_of s (qs ! j) = a" "a \<notin> D" using a by (auto simp: rep_Some A_def)
    have "j < Suc m" using sc jl by (auto simp: scan_state_def not_less_eq)
    then have "before ! j \<noteq> 0" using none sc jl by (auto simp: scan_state_def)
    then have "card (to_precede s qs cs n D a) \<noteq> 0" using sc jl j by (auto simp: scan_state_def counter_def)
    then obtain k where "k \<in> to_precede s qs cs n D a" by fastforce
    then have k: "k < n" "relevant s qs (cs ! k)" "waiter (cs ! k) = a" "blocker (cs ! k) \<notin> D" by (auto simp: to_precede_def)
    then obtain y where "y < length qs" "leader_of s (qs ! y) = blocker (cs ! k)" by (auto simp: relevant_def rep_Some)
    then have "blocker (cs ! k) \<in> A" using k(4) by (auto simp: A_def intro!: image_eqI[of _ _ "qs ! y"])
    then show ?thesis using k unfolding precedes_def by blast
  qed
  moreover have "leader_of s (qs ! m) \<in> A" using ml by (simp add: A_def)
  ultimately show ?thesis using successor_cycle[of A "precedes s qs cs n"] A_def by blast
qed

text \<open>The candidate that the scan finds is the representative of a group with nothing left to precede.\<close>

lemma candidate_rep:
  assumes sc: "scan_state s qs cs n D m topo before xs" and j: "j < Suc m" "j < length qs" "topo ! j \<noteq> None" "before ! j = 0"
      "\<And>i. j < i \<Longrightarrow> i < Suc m \<Longrightarrow> topo ! i = None \<or> before ! i \<noteq> 0"
  defines "h \<equiv> leader_of s (qs ! j)"
  shows "h \<notin> D" "rep s qs h = Some j" "to_precede s qs cs n D h = {}"
proof -
  note S = sc[unfolded scan_state_def]
  show hD: "h \<notin> D" using j(2,3) S by (auto simp: h_def)
  show rj: "rep s qs h = Some j"
  proof (rule ccontr)
    assume nr: "rep s qs h \<noteq> Some j"
    obtain r where r: "rep s qs h = Some r" using rep_None[of s qs h] j(2) by (cases "rep s qs h") (auto simp: h_def)
    then have "\<not> r < j" "r \<noteq> j" using nr j(2) by (auto simp: rep_Some h_def)
    then have rl: "r < length qs" "leader_of s (qs ! r) = h" "j < r" using r by (auto simp: rep_Some)
    have rm: "r < Suc m" using S rl hD by (meson not_less_eq)
    have tr: "topo ! r \<noteq> None" using S rl hD by auto
    have "h \<notin> touched s qs cs n"
      using S j(2) nr j(4) hD by (auto simp: counter_def h_def Let_def split: if_splits)
    then have "to_precede s qs cs n D h = {}" by (auto simp: to_precede_def touched_def)
    then have "before ! r = 0" using S rl r hD by (auto simp: counter_def Let_def)
    then show False using j(5)[OF rl(3) rm] tr by simp
  qed
  show "to_precede s qs cs n D h = {}"
    using S j(2) hD j(4) rj by (auto simp: counter_def h_def[symmetric] Let_def)
qed

text \<open>The constraints of group \<open>g\<close> against group \<open>h\<close>.\<close>

definition against :: "lock_space \<Rightarrow> procno list \<Rightarrow> EDGE list \<Rightarrow> nat \<Rightarrow> procno \<Rightarrow> procno \<Rightarrow> nat set" where
  "against s qs cs n g h = {k. k < n \<and> relevant s qs (cs ! k) \<and> waiter (cs ! k) = g \<and> blocker (cs ! k) = h}"

lemma card_against:
  assumes "h \<notin> D"
  shows "card (to_precede s qs cs n D g) = card (to_precede s qs cs n (insert h D) g) + card (against s qs cs n g h)"
proof -
  have "to_precede s qs cs n D g = to_precede s qs cs n (insert h D) g \<union> against s qs cs n g h"
    "to_precede s qs cs n (insert h D) g \<inter> against s qs cs n g h = {}" "finite (against s qs cs n g h)"
    using assms by (auto simp: to_precede_def against_def)
  then show ?thesis by (simp add: card_Un_disjoint)
qed

lemma followers_of_group:
  assumes pr: "\<And>k. k < n \<Longrightarrow> relevant s qs (cs ! k) \<Longrightarrow> rep s qs (waiter (cs ! k)) = Some (pred (cs' ! k))"
    and rj: "rep s qs h = Some j"
  shows "length (filter (\<lambda>k. pred (cs' ! k) = i) (followers s qs cs n j)) =
    (if rep s qs (leader_of s (qs ! i)) = Some i then card (against s qs cs n (leader_of s (qs ! i)) h) else 0)"
proof -
  define g where "g = leader_of s (qs ! i)"
  have fl: "k \<in> set (followers s qs cs n j) \<longleftrightarrow> k < n \<and> relevant s qs (cs ! k) \<and> blocker (cs ! k) = h" for k
    using rj rep_unique[of s qs] by (auto simp: followers_def)
  have "distinct (followers s qs cs n j)" by (simp add: followers_def)
  then have "length (filter (\<lambda>k. pred (cs' ! k) = i) (followers s qs cs n j)) =
      card {k \<in> set (followers s qs cs n j). pred (cs' ! k) = i}"
    by (metis distinct_card distinct_filter set_filter)
  also have "{k \<in> set (followers s qs cs n j). pred (cs' ! k) = i} = (if rep s qs g = Some i then against s qs cs n g h else {})"
  proof -
    have "pred (cs' ! k) = i \<longleftrightarrow> rep s qs g = Some i \<and> waiter (cs ! k) = g" if "k < n" "relevant s qs (cs ! k)" for k
    proof
      assume "pred (cs' ! k) = i"
      then have "rep s qs (waiter (cs ! k)) = Some i" using pr[OF that] by simp
      moreover from this have "waiter (cs ! k) = g" by (simp add: rep_Some g_def)
      ultimately show "rep s qs g = Some i \<and> waiter (cs ! k) = g" by simp
    qed (use pr[OF that] in simp)
    then show ?thesis by (auto simp: fl against_def)
  qed
  finally show ?thesis by (simp add: g_def)
qed

lemma released_counters:
  assumes ti: "topo_inv s qs cs n (before0, after, cs')" and n: "n \<le> length cs"
    and sc: "scan_state s qs cs n D m topo before xs" and j: "j < length qs" "rep s qs h = Some j" "h \<notin> D"
  obtains before' where "release_preds (length cs') cs' (after ! j) before = Some before'" "length before' = length qs"
    "\<And>i. i < length qs \<Longrightarrow> leader_of s (qs ! i) \<notin> insert h D \<Longrightarrow> before' ! i = counter s qs cs n (insert h D) i"
proof -
  note S = sc[unfolded scan_state_def]
  note T = ti[unfolded topo_inv_def, simplified]
  have lc: "length cs' = length cs" using T by (metis length_map)
  have ch: "chain cs' (followers s qs cs n j) (after ! j)" using T j(1) by blast
  have pr: "rep s qs (waiter (cs ! k)) = Some (pred (cs' ! k))" if "k < n" "relevant s qs (cs ! k)" for k
    using T that by blast
  have "length (followers s qs cs n j) \<le> length cs'"
    using n lc unfolding followers_def by (metis length_filter_le length_rev length_upt diff_zero le_trans)
  moreover have "pred (cs' ! k) < length before" if "k \<in> set (followers s qs cs n j)" for k
    using pr that S by (auto simp: followers_def rep_Some)
  ultimately obtain before' where b: "release_preds (length cs') cs' (after ! j) before = Some before'" "length before' = length before"
    "\<And>i. i < length before \<Longrightarrow> before' ! i = before ! i - int (length (filter (\<lambda>k. pred (cs' ! k) = i) (followers s qs cs n j)))"
    using release_preds_eq[OF ch] by blast
  have "before' ! i = counter s qs cs n (insert h D) i" if i: "i < length qs" "leader_of s (qs ! i) \<notin> insert h D" for i
    using b(3)[of i] i S followers_of_group[where i = i, OF pr j(2)] card_against[OF j(3)]
    by (simp add: counter_def Let_def split: if_splits)
  then show ?thesis using b(1,2) S that by auto
qed

text \<open>Putting the members of the group in front keeps what the order promises.\<close>

lemma emitted_order:
  assumes sc: "scan_state s qs cs n D m topo before xs" and h: "h \<notin> D" "to_precede s qs cs n D h = {}"
  defines "ys \<equiv> rev (filter (\<lambda>x. leader_of s x = h) qs) @ xs"
  shows "mset ys = mset (filter (\<lambda>x. leader_of s x \<in> insert h D) qs)"
    "precedes s qs cs n g2 h2 \<Longrightarrow> g2 \<in> insert h D \<Longrightarrow> h2 \<in> insert h D \<and> group_before s g2 h2 ys" "adjacent s g2 ys"
proof -
  note S = sc[unfolded scan_state_def]
  have "mset (filter (\<lambda>x. leader_of s x \<in> insert h D) ys) =
      mset (filter (\<lambda>x. leader_of s x = h) ys) + mset (filter (\<lambda>x. leader_of s x \<in> D) ys)" for ys
    using h(1) by (induction ys) auto
  then show "mset ys = mset (filter (\<lambda>x. leader_of s x \<in> insert h D) qs)" using S by (simp add: ys_def)
  have xsD: "leader_of s x \<in> D" if "x \<in> set xs" for x
  proof -
    have "x \<in># mset (filter (\<lambda>x. leader_of s x \<in> D) qs)" using S that by (metis set_mset_mset)
    then show ?thesis by simp
  qed
  show "h2 \<in> insert h D \<and> group_before s g2 h2 ys" if p: "precedes s qs cs n g2 h2" and g2: "g2 \<in> insert h D"
  proof (cases "g2 = h")
    case True
    then have "h2 \<in> D" using p h(2) by (auto simp: precedes_def to_precede_def)
    then show ?thesis using True h(1) xsD unfolding group_before_def ys_def
      by (intro conjI exI[of _ "rev (filter (\<lambda>x. leader_of s x = h) qs)"] exI[of _ xs]) auto
  next
    case False
    then have "h2 \<in> D \<and> group_before s g2 h2 xs" using S p g2 by blast
    moreover from this have "leader_of s x \<noteq> h2" if "x \<in> set (rev (filter (\<lambda>x. leader_of s x = h) qs))" for x
      using that h(1) by auto
    ultimately show ?thesis using group_before_prepend unfolding ys_def by blast
  qed
  show "adjacent s g2 ys"
  proof (cases "g2 = h")
    case True
    show ?thesis unfolding True ys_def by (rule adjacent_new) (use xsD h(1) in auto)
  next
    case False
    have "adjacent s g2 xs" using S by blast
    then show ?thesis unfolding ys_def by (rule adjacent_prepend) (use False in auto)
  qed
qed

lemma emit_state:
  assumes ti: "topo_inv s qs cs n (before0, after, cs')" and n: "n \<le> length cs" and g: "groups_wf s"
    and sc: "scan_state s qs cs n D m topo before xs" and ml: "m < length qs" "leader_of s (qs ! m) \<notin> D"
    and j: "j < Suc m" "topo ! j \<noteq> None" "before ! j = 0"
      "\<And>i. j < i \<Longrightarrow> i < Suc m \<Longrightarrow> topo ! i = None \<or> before ! i \<noteq> 0"
  defines "h \<equiv> leader_of s (qs ! j)"
  shows "\<exists>topo' before'. emit_group s h m (topo, replicate (length (filter (\<lambda>x. leader_of s x \<notin> D) qs)) None @ map Some xs,
        length (filter (\<lambda>x. leader_of s x \<notin> D) qs)) =
      (topo', replicate (length (filter (\<lambda>x. leader_of s x \<notin> insert h D) qs)) None @
         map Some (rev (filter (\<lambda>x. leader_of s x = h) qs) @ xs), length (filter (\<lambda>x. leader_of s x \<notin> insert h D) qs)) \<and>
      release_preds (length cs') cs' (after ! j) before = Some before' \<and>
      scan_state s qs cs n (insert h D) m topo' before' (rev (filter (\<lambda>x. leader_of s x = h) qs) @ xs)"
proof -
  have jq: "j < length qs" using j(1) ml(1) by simp
  note S = sc[unfolded scan_state_def]
  have sd: "length topo = length qs" "\<And>j. j < length qs \<Longrightarrow> topo ! j = (if leader_of s (qs ! j) \<in> D then None else Some (qs ! j))"
    "\<And>j. m < j \<Longrightarrow> j < length qs \<Longrightarrow> leader_of s (qs ! j) \<in> D"
    using S by blast+
  have hl: "leader_of s h = h" using leader_idem[OF g] by (simp add: h_def)
  note R = candidate_rep[OF sc j(1) jq j(2-4), folded h_def]
  obtain topo' where e: "emit_group s h m (topo, replicate (length (filter (\<lambda>x. leader_of s x \<notin> D) qs)) None @ map Some xs,
        length (filter (\<lambda>x. leader_of s x \<notin> D) qs)) =
      (topo', replicate (length (filter (\<lambda>x. leader_of s x \<notin> insert h D) qs)) None @
         map Some (rev (filter (\<lambda>x. leader_of s x = h) qs) @ xs), length (filter (\<lambda>x. leader_of s x \<notin> insert h D) qs))"
    "length topo' = length qs"
    "\<And>j. j < length qs \<Longrightarrow> topo' ! j = (if leader_of s (qs ! j) \<in> insert h D then None else Some (qs ! j))"
    using emit_group_eq[OF g hl sd(1) ml(1) sd(2) R(1) sd(3) refl, of xs] by blast
  obtain before' where b: "release_preds (length cs') cs' (after ! j) before = Some before'" "length before' = length qs"
    "\<And>i. i < length qs \<Longrightarrow> leader_of s (qs ! i) \<notin> insert h D \<Longrightarrow> before' ! i = counter s qs cs n (insert h D) i"
    using released_counters[OF ti n sc jq R(2,1)] by blast
  note O = emitted_order[OF sc R(1,3)]
  have "scan_state s qs cs n (insert h D) m topo' before' (rev (filter (\<lambda>x. leader_of s x = h) qs) @ xs)"
    unfolding scan_state_def using e(2,3) b(2,3) sd(3) O by auto
  then show ?thesis using e(1) b(1) by blast
qed

lemma TopoSortScan_spec:
  assumes ti: "topo_inv s qs cs n (before0, after, cs')" and n: "n \<le> length cs" and g: "groups_wf s"
    and sc: "scan_state s qs cs n D m topo before xs" and ml: "m \<le> length qs - 1"
  defines "left \<equiv> length (filter (\<lambda>x. leader_of s x \<notin> D) qs)"
  shows "TopoSortScan s cs' after left m topo before (replicate left None @ map Some xs) = Some None \<and>
      (\<exists>g. (precedes s qs cs n)\<^sup>+\<^sup>+ g g) \<or>
    (\<exists>ys. TopoSortScan s cs' after left m topo before (replicate left None @ map Some xs) = Some (Some (map Some ys)) \<and>
      mset ys = mset qs \<and> (\<forall>g h. precedes s qs cs n g h \<longrightarrow> group_before s g h ys) \<and> (\<forall>g. adjacent s g ys))"
  using sc ml unfolding left_def
proof (induction "length (filter (\<lambda>x. leader_of s x \<notin> D) qs)" arbitrary: D m topo before xs rule: less_induct)
  case less
  define left where "left = length (filter (\<lambda>x. leader_of s x \<notin> D) qs)"
  note sc = less.prems(1)
  note S = sc[unfolded scan_state_def]
  show ?case
  proof (cases "left = 0")
    case True
    then have all: "\<And>x. x \<in> set qs \<Longrightarrow> leader_of s x \<in> D" by (auto simp: left_def filter_empty_conv)
    have "mset xs = mset qs" using S all by (metis (mono_tags, lifting) filter_True)
    moreover have "group_before s g h xs" if p: "precedes s qs cs n g h" for g h
    proof -
      have "g \<in> D" using p all by (auto simp: precedes_def relevant_def rep_Some) (metis nth_mem)
      then show ?thesis using S p by blast
    qed
    moreover have "\<forall>g. adjacent s g xs" using S by blast
    ultimately show ?thesis using True unfolding left_def[symmetric]
      by (intro disjI2 exI[of _ xs]) (simp add: TopoSortScan.simps)
  next
    case False
    then obtain x where x: "x \<in> set qs" "leader_of s x \<notin> D" by (auto simp: left_def filter_empty_conv)
    then obtain i where i: "i < length qs" "leader_of s (qs ! i) \<notin> D" by (auto simp: in_set_conv_nth)
    have im: "i < Suc m" using S i by (meson not_less_eq)
    have "find (\<lambda>j. topo ! j \<noteq> None) (rev [0..<Suc m]) \<noteq> None"
      using S i im unfolding find_down_None by auto
    then obtain m' where fm: "find (\<lambda>j. topo ! j \<noteq> None) (rev [0..<Suc m]) = Some m'" by auto
    then have m': "m' < Suc m" "topo ! m' \<noteq> None" "\<And>j. m' < j \<Longrightarrow> j < Suc m \<Longrightarrow> topo ! j = None"
      unfolding find_down_Some by auto
    have ml': "m' < length qs" using m'(1) less.prems(2) i(1) by linarith
    have mD: "leader_of s (qs ! m') \<notin> D" using S m'(2) ml' by auto
    have sc': "scan_state s qs cs n D m' topo before xs"
    proof -
      have "leader_of s (qs ! j) \<in> D" if "m' < j" "j < length qs" for j
        using S m'(3)[OF that(1)] that by (cases "j < Suc m") (auto split: if_splits)
      then show ?thesis using S unfolding scan_state_def by blast
    qed
    define j where "j = find (\<lambda>j. topo ! j \<noteq> None \<and> before ! j = 0) (rev [0..<Suc m'])"
    show ?thesis
    proof (cases j)
      case None
      then have none: "find (\<lambda>j. topo ! j \<noteq> None \<and> before ! j = 0) (rev [0..<Suc m']) = None" by (simp add: j_def)
      then have "TopoSortScan s cs' after left m topo before (replicate left None @ map Some xs) = Some None"
        using False fm by (subst TopoSortScan.simps) (simp del: upt_Suc)
      moreover have "\<exists>g. (precedes s qs cs n)\<^sup>+\<^sup>+ g g"
        by (rule no_candidate_cycle[OF sc' ml' mD]) (use none in \<open>unfold find_down_None, blast\<close>)
      ultimately show ?thesis by (simp add: left_def)
    next
      case (Some k)
      then have fj: "find (\<lambda>j. topo ! j \<noteq> None \<and> before ! j = 0) (rev [0..<Suc m']) = Some k" by (simp add: j_def)
      then have k: "k < Suc m'" "topo ! k \<noteq> None" "before ! k = 0"
        "\<And>i. k < i \<Longrightarrow> i < Suc m' \<Longrightarrow> topo ! i = None \<or> before ! i \<noteq> 0"
        unfolding find_down_Some by auto
      define h where "h = leader_of s (qs ! k)"
      define left2 where "left2 = length (filter (\<lambda>x. leader_of s x \<notin> insert h D) qs)"
      define xs2 where "xs2 = rev (filter (\<lambda>x. leader_of s x = h) qs) @ xs"
      obtain topo2 before2 where
        e: "emit_group s h m' (topo, replicate left None @ map Some xs, left) = (topo2, replicate left2 None @ map Some xs2, left2)"
          "release_preds (length cs') cs' (after ! k) before = Some before2" "scan_state s qs cs n (insert h D) m' topo2 before2 xs2"
        using emit_state[OF ti n g sc' ml' mD k] unfolding h_def left_def left2_def xs2_def by blast
      have tk: "the (topo ! k) = qs ! k" using S k(1,2) ml' by auto
      have lt: "left2 < left"
      proof -
        have kq: "k < length qs" "h \<notin> D" using S k(1,2) ml' by (auto simp: h_def)
        have "filter (\<lambda>x. leader_of s x \<notin> insert h D) qs = filter (\<lambda>x. leader_of s x \<noteq> h) (filter (\<lambda>x. leader_of s x \<notin> D) qs)"
          by (simp add: conj_commute)
        moreover have "qs ! k \<in> set (filter (\<lambda>x. leader_of s x \<notin> D) qs)" using kq by (simp add: h_def)
        ultimately show ?thesis unfolding left_def left2_def h_def using length_filter_less by (metis (mono_tags, lifting))
      qed
      have "TopoSortScan s cs' after left m topo before (replicate left None @ map Some xs) =
          TopoSortScan s cs' after left2 m' topo2 before2 (replicate left2 None @ map Some xs2)"
        using False fm fj e(1,2) tk by (subst TopoSortScan.simps) (simp add: h_def del: upt_Suc)
      moreover have "m' \<le> length qs - 1" using ml' by linarith
      ultimately show ?thesis
        using less.hyps[of "insert h D", OF _ e(3)] lt unfolding left_def left2_def by presburger
    qed
  qed
qed

text \<open>The contract of the sort.\<close>

lemma TopoSort_spec:
  assumes l: "LockHash s t = Some l" and g: "groups_wf s" and n: "n \<le> length cs"
    and lead: "\<And>k. k < n \<Longrightarrow> leader_of s (waiter (cs ! k)) = waiter (cs ! k) \<and> leader_of s (blocker (cs ! k)) = blocker (cs ! k)"
    and r: "TopoSort s t cs n = (cs', res)"
  shows "map edge_key cs' = map edge_key cs"
    and "res = Some None \<and> (\<exists>g. (precedes s (waitProcs l) cs n)\<^sup>+\<^sup>+ g g) \<or>
      (\<exists>ys. res = Some (Some ys) \<and> mset ys = mset (waitProcs l) \<and>
        (\<forall>g h. precedes s (waitProcs l) cs n g h \<longrightarrow> group_before s g h ys) \<and> (\<forall>g. adjacent s g ys))"
proof -
  define qs where "qs = waitProcs l"
  obtain before after cs1 where f: "fold (topo_constraint s qs) [0..<n] (replicate (length qs) 0, replicate (length qs) 0, cs) =
      (before, after, cs1)" by (cases "fold (topo_constraint s qs) [0..<n] (replicate (length qs) 0, replicate (length qs) 0, cs)") auto
  have "topo_inv s qs cs n (fold (topo_constraint s qs) [0..<n] (replicate (length qs) 0, replicate (length qs) 0, cs))"
    by (rule fold_upt_rule[where I = "topo_inv s qs cs", OF topo_start_inv]) (use topo_constraint_inv[OF g] lead n in auto)
  then have ti: "topo_inv s qs cs n (before, after, cs1)" by (simp add: f)
  have res: "cs' = cs1" "res = map_option (map_option (map the))
      (TopoSortScan s cs1 after (length qs) (length qs - 1) (map Some qs) before (replicate (length qs) None))"
    using r f l by (auto simp: TopoSort_def qs_def Let_def)
  show "map edge_key cs' = map edge_key cs" using ti res(1) by (simp add: topo_inv_def)
  have "scan_state s qs cs n {} (length qs - 1) (map Some qs) before []"
    using ti adjacent_new[of "[]" s _ "[]"] by (auto simp: scan_state_def topo_inv_def)
  from TopoSortScan_spec[OF ti n g this]
  show "res = Some None \<and> (\<exists>g. (precedes s (waitProcs l) cs n)\<^sup>+\<^sup>+ g g) \<or>
      (\<exists>ys. res = Some (Some ys) \<and> mset ys = mset (waitProcs l) \<and>
        (\<forall>g h. precedes s (waitProcs l) cs n g h \<longrightarrow> group_before s g h ys) \<and> (\<forall>g. adjacent s g ys))"
    unfolding qs_def[symmetric] res(2) by (auto simp: comp_def)
qed

end
