(* ===== verification/Deadlock_Config.thy ===== *)
theory Deadlock_Config
  imports Deadlock_Topo
begin

text \<open>
  Configurations: sets of soft edges to be reversed. Expanding them gives permutations of wait queues; a
  test of a configuration is a function of its edges, so that the backtracking search is consistent; the
  search returns, and what it returns is right.
\<close>

section \<open>What the search can reach\<close>

definition lock_area :: "lock_space \<Rightarrow> nat \<Rightarrow> procno set \<Rightarrow> bool" where
  "lock_area s n U \<longleftrightarrow> finite U \<and> card U \<le> n \<and> (\<forall>t p. ProcLockHash s (t, p) \<noteq> None \<longrightarrow> leader_of s p \<in> U)"

definition orders_ok :: "lock_space \<Rightarrow> WAIT_ORDER list \<Rightarrow> bool" where
  "orders_ok s w \<longleftrightarrow> distinct (map fst w) \<and> (\<forall>(t, ys) \<in> set w. queue s t \<noteq> [] \<and> mset ys = mset (queue s t) \<and>
     (\<forall>g. adjacent s g ys))"

lemma orders_ok_Nil [simp]: "orders_ok s []"
  by (simp add: orders_ok_def)

lemma orders_okD:
  assumes "orders_ok s w" "(t, ys) \<in> set w"
  shows "queue s t \<noteq> []" "mset ys = mset (queue s t)" "set ys = set (queue s t)" "adjacent s g ys"
proof -
  show "queue s t \<noteq> []" "mset ys = mset (queue s t)" "adjacent s g ys" using assms unfolding orders_ok_def by auto
  then show "set ys = set (queue s t)" by (auto dest: mset_eq_setD)
qed

definition edge_ok :: "lock_space \<Rightarrow> procno set \<Rightarrow> EDGE \<Rightarrow> bool" where
  "edge_ok s U e \<longleftrightarrow> leader_of s (waiter e) = waiter e \<and> leader_of s (blocker e) = blocker e \<and>
     waiter e \<in> U \<and> blocker e \<in> U \<and> queue s (edge_lock e) \<noteq> []"

lemma edge_ok_key: "edge_key e = edge_key e' \<Longrightarrow> edge_ok s U e = edge_ok s U e'"
  by (simp add: edge_ok_def edge_key_def)

lemma waiting_queue:
  assumes wf: "table_wf tab pend s" and p: "is_waiting s p"
  shows "p \<in> set (queue s (wait_tag s p))" "queue s (wait_tag s p) = waitProcs (lock_at s (wait_tag s p))"
    "LockHash s (wait_tag s p) \<noteq> None"
proof -
  have "\<not> off_queue s p" using p by (simp add: is_waiting_def off_queue_def)
  then obtain t where t: "p \<in> set (queue s t)" using table_wfD(6)[OF wf] by blast
  then have "waitLock (procs s p) = Some t" using table_wfD(5)[OF wf t] by (simp add: on_queue_def)
  then show q: "p \<in> set (queue s (wait_tag s p))" using t by simp
  then show "LockHash s (wait_tag s p) \<noteq> None" by (cases "LockHash s (wait_tag s p)") (auto simp: queue_def)
  then show "queue s (wait_tag s p) = waitProcs (lock_at s (wait_tag s p))" by (auto simp: queue_def)
qed

lemma waiting_members_waiting: "p \<in> set (waiting_members s u) \<Longrightarrow> is_waiting s p"
  by (auto simp: waiting_members_def split: if_splits)

lemma queue_proclock:
  assumes wf: "table_wf tab pend s" and q: "q \<in> set (queue s t)"
  shows "ProcLockHash s (t, q) \<noteq> None"
proof -
  obtain l where l: "LockHash s t = Some l" "q \<in> set (waitProcs l)"
    using q by (cases "LockHash s t") (auto simp: queue_def)
  then have "q \<in> set (procLocks l)" using lock_wfD(3)[OF table_wfD(1)[OF wf l(1)]] by blast
  then show ?thesis using table_wfD(2)[OF wf l(1)] by auto
qed

lemma blockers_proclock:
  assumes wf: "table_wf tab pend s" and p: "p \<in> set (waiting_members s u)" and w: "orders_ok s w"
    and q: "q \<in> set (hard_blockers s p u) \<union> set (soft_blockers s w p u)"
  shows "ProcLockHash s (wait_tag s p, q) \<noteq> None"
proof -
  note W = waiting_queue[OF wf waiting_members_waiting[OF p]]
  obtain l where l: "LockHash s (wait_tag s p) = Some l" using W(3) by auto
  from q consider "q \<in> set (procLocks l)" | "q \<in> set (queue s (wait_tag s p))"
  proof
    assume "q \<in> set (hard_blockers s p u)"
    then show thesis using that l by (auto simp: hard_blockers_def)
  next
    assume sq: "q \<in> set (soft_blockers s w p u)"
    show thesis
    proof (cases "find (\<lambda>order. fst order = wait_tag s p) w")
      case None
      then show ?thesis using sq that W(2) by (auto simp: soft_blockers_def dest: set_takeWhileD)
    next
      case (Some x)
      obtain t ys where x: "x = (t, ys)" by fastforce
      have "t = wait_tag s p" "(t, ys) \<in> set w" using Some unfolding x find_Some_iff by (metis fst_conv, metis nth_mem)
      then have "set ys = set (queue s (wait_tag s p))" using orders_okD(3)[OF w] by simp
      then show ?thesis using sq that Some x by (auto simp: soft_blockers_def dest: set_takeWhileD)
    qed
  qed
  then show ?thesis
  proof cases
    case 1
    then show ?thesis using table_wfD(2)[OF wf l] by auto
  next
    case 2
    then show ?thesis by (rule queue_proclock[OF wf])
  qed
qed

lemma lock_search_area:
  assumes "table_wf tab pend s" "lock_area s n U" "orders_ok s w"
  shows "search_area s w n U"
  using assms blockers_proclock[OF assms(1) _ assms(3)] unfolding search_area_def lock_area_def waits_for_def by metis

text \<open>The soft edges of a path are usable constraints.\<close>

lemma path_edges_ok:
  assumes wf: "table_wf tab pend s" and U: "lock_area s n U" and w: "orders_ok s w"
    and p: "wait_path s w u es v" "u \<in> U" "leader_of s u = u" and k: "x \<in> set es" and e: "edge_key e = soft_key s x"
  shows "edge_ok s U e"
  using p k
proof (induction es arbitrary: u)
  case (Cons y es)
  obtain u' p q soft where y: "y = (u', p, q, soft)" by (cases y)
  have pw: "p \<in> set (waiting_members s u)" and qb: "q \<in> set (hard_blockers s p u) \<union> set (soft_blockers s w p u)"
    and pe: "wait_path s w (leader_of s q) es v" "u' = u"
    using Cons.prems(1) by (auto simp: y is_edge_def split: if_splits)
  have qU: "leader_of s q \<in> U" using blockers_proclock[OF wf pw w qb] U unfolding lock_area_def by blast
  have ql: "leader_of s (leader_of s q) = leader_of s q" using leader_idem[OF table_wfD(7)[OF wf]] .
  show ?case
  proof (cases "x = y")
    case True
    have "queue s (wait_tag s p) \<noteq> []" using waiting_queue(1)[OF wf waiting_members_waiting[OF pw]] by auto
    then show ?thesis using True e qU ql Cons.prems(2,3) pe(2) by (simp add: y soft_key_def edge_key_def edge_ok_def)
  next
    case False
    then show ?thesis using Cons.IH[OF pe(1) qU ql] Cons.prems(4) by simp
  qed
qed simp

section \<open>Expanding constraints\<close>

definition cur_ok :: "lock_space \<Rightarrow> procno set \<Rightarrow> EDGE list \<Rightarrow> nat \<Rightarrow> bool" where
  "cur_ok s U cs n \<longleftrightarrow> n \<le> length cs \<and> (\<forall>k < n. edge_ok s U (cs ! k))"

lemma cur_ok_key:
  assumes "map edge_key cs' = map edge_key cs"
  shows "cur_ok s U cs' n = cur_ok s U cs n"
proof -
  have l: "length cs' = length cs" using assms by (metis length_map)
  have "edge_ok s U (cs' ! k) = edge_ok s U (cs ! k)" if "k < length cs" for k
    using edge_keyD[OF assms that] by (simp add: edge_ok_def)
  then show ?thesis using l unfolding cur_ok_def by (metis less_le_trans)
qed

lemma expand_loop_spec:
  assumes wf: "table_wf tab pend s" and c: "cur_ok s U cs n" and w: "orders_ok s w"
  shows "\<exists>b w' cs'. expand_loop s n w cs = Some (b, w', cs') \<and> orders_ok s w' \<and> map edge_key cs' = map edge_key cs \<and>
    (b \<longrightarrow> (\<forall>k < n. edge_lock (cs ! k) \<in> fst ` set w')) \<and> set w \<subseteq> set w'"
  using c w
proof (induction n arbitrary: w cs)
  case (Suc i)
  define t where "t = edge_lock (cs ! i)"
  have ci: "cur_ok s U cs i" using Suc.prems(1) by (auto simp: cur_ok_def)
  show ?case
  proof (cases "t \<in> fst ` set w")
    case True
    obtain b w' cs' where r: "expand_loop s i w cs = Some (b, w', cs')" "orders_ok s w'" "map edge_key cs' = map edge_key cs"
      "b \<longrightarrow> (\<forall>k < i. edge_lock (cs ! k) \<in> fst ` set w')" "set w \<subseteq> set w'"
      using Suc.IH[OF ci Suc.prems(2)] by blast
    then show ?thesis using True by (auto simp: t_def[symmetric] less_Suc_eq)
  next
    case new: False
    have qn: "queue s t \<noteq> []" using Suc.prems(1) by (simp add: cur_ok_def edge_ok_def t_def)
    then obtain l where l: "LockHash s t = Some l" by (cases "LockHash s t") (auto simp: queue_def)
    obtain cs1 res where ts: "TopoSort s t cs (Suc i) = (cs1, res)" by fastforce
    have "leader_of s (waiter (cs ! k)) = waiter (cs ! k) \<and> leader_of s (blocker (cs ! k)) = blocker (cs ! k)" if "k < Suc i" for k
      using that Suc.prems(1) by (auto simp: cur_ok_def edge_ok_def)
    note sp = TopoSort_spec[OF l table_wfD(7)[OF wf] _ this ts]
    have n: "Suc i \<le> length cs" using Suc.prems(1) by (simp add: cur_ok_def)
    show ?thesis
    proof (cases "res = Some None")
      case True
      then show ?thesis using ts new sp(1)[OF n] Suc.prems(2) by (auto simp: t_def[symmetric])
    next
      case False
      then obtain ys where ys: "res = Some (Some ys)" "mset ys = mset (queue s t)" "\<forall>g. adjacent s g ys"
        using sp(2)[OF n] l by (auto simp: queue_def)
      have w1: "orders_ok s (w @ [(t, ys)])" using Suc.prems(2) new qn ys(2,3) by (auto simp: orders_ok_def)
      have "cur_ok s U cs1 i" using ci cur_ok_key[OF sp(1)[OF n]] by simp
      from Suc.IH[OF this w1] obtain b w' cs' where r: "expand_loop s i (w @ [(t, ys)]) cs1 = Some (b, w', cs')" "orders_ok s w'"
        "map edge_key cs' = map edge_key cs1" "b \<longrightarrow> (\<forall>k < i. edge_lock (cs1 ! k) \<in> fst ` set w')" "set (w @ [(t, ys)]) \<subseteq> set w'"
        by blast
      have lk: "edge_lock (cs1 ! k) = edge_lock (cs ! k)" if "k < length cs" for k using edge_keyD(3)[OF sp(1)[OF n] that] .
      have "t \<in> fst ` set w'" using r(5) by force
      then have "b \<longrightarrow> (\<forall>k < Suc i. edge_lock (cs ! k) \<in> fst ` set w')" using r(4) lk n by (auto simp: less_Suc_eq t_def)
      then show ?thesis using r ts new ys sp(1)[OF n] by (auto simp: t_def[symmetric])
    qed
  qed
qed auto

section \<open>Testing a configuration\<close>

text \<open>The group of a process is on a cycle under the given queue orders.\<close>

definition on_cycle :: "lock_space \<Rightarrow> WAIT_ORDER list \<Rightarrow> procno \<Rightarrow> bool" where
  "on_cycle s w p \<longleftrightarrow> (waits_for s w)\<^sup>+\<^sup>+ (leader_of s p) (leader_of s p)"

definition work_ok :: "dl_cxt \<Rightarrow> bool" where
  "work_ok c \<longleftrightarrow> length (detailArray c) = MaxBackends c \<and> length (possibleConstraints c) = maxPossibleConstraints c \<and>
     length (curConstraints c) = maxCurConstraints c"

lemma same_work_ok: "same_work base c' c \<Longrightarrow> work_ok c' = work_ok c"
  by (simp add: same_work_def work_ok_def)

lemma found_edges_ok:
  assumes wf: "table_wf tab pend s" and U: "lock_area s (MaxBackends c) U" and w: "orders_ok s w"
    and u: "u \<in> U" "leader_of s u = u" and f: "cycle_found s w u base u 0 c c'"
    and l: "base + MaxBackends c \<le> length (possibleConstraints c)"
  shows "nSoftEdges c' \<le> MaxBackends c" "\<And>k. k < nSoftEdges c' \<Longrightarrow> edge_ok s U (possibleConstraints c' ! (base + k))"
proof -
  obtain es where es: "same_work base c' c" "wait_path s w u es u" "length es \<le> MaxBackends c'"
    "nSoftEdges c' = length (filter is_soft es)"
    "map edge_key (take (nSoftEdges c') (drop base (possibleConstraints c'))) = map (soft_key s) (rev (filter is_soft es))"
    using f unfolding cycle_found_def found_def by auto
  show n: "nSoftEdges c' \<le> MaxBackends c"
    using es(1,3) length_filter_le[of is_soft es] unfolding es(4) same_work_def by linarith
  fix k
  assume k: "k < nSoftEdges c'"
  have lp: "length (possibleConstraints c') = length (possibleConstraints c)" using es(1) by (simp add: same_work_def)
  have len: "k < length (take (nSoftEdges c') (drop base (possibleConstraints c')))" using k n l lp by simp
  have "edge_key (possibleConstraints c' ! (base + k)) = map edge_key (take (nSoftEdges c') (drop base (possibleConstraints c'))) ! k"
    using len k l lp by (simp add: nth_map)
  also have "\<dots> = soft_key s (rev (filter is_soft es) ! k)" unfolding es(5) using k es(4) by (simp add: nth_map)
  finally have e: "edge_key (possibleConstraints c' ! (base + k)) = soft_key s (rev (filter is_soft es) ! k)" .
  have "rev (filter is_soft es) ! k \<in> set (rev (filter is_soft es))" using k es(4) by (intro nth_mem) simp
  then have "rev (filter is_soft es) ! k \<in> set es" by auto
  then show "edge_ok s U (possibleConstraints c' ! (base + k))" by (rule path_edges_ok[OF wf U w es(2) u _ e])
qed

lemma check_cycles_spec:
  assumes wf: "table_wf tab pend s" and U: "lock_area s (MaxBackends c) U" and w: "orders_ok s (waitOrders c)"
    and ok: "work_ok c" and l: "base + MaxBackends c \<le> length (possibleConstraints c)"
    and ps: "\<And>p. p \<in> set ps \<Longrightarrow> leader_of s p \<in> U"
    and sf: "0 \<le> sf" "sf \<le> int (MaxBackends c)" "\<And>k. k < nat sf \<Longrightarrow> edge_ok s U (possibleConstraints c ! (base + k))"
  shows "\<exists>n c'. check_cycles s me base ps sf c = Inr (n, c') \<and> same_work base c' c \<and> - 1 \<le> n \<and> n \<le> int (MaxBackends c) \<and>
    (\<forall>k < nat n. edge_ok s U (possibleConstraints c' ! (base + k))) \<and>
    (n = 0 \<longrightarrow> sf = 0 \<and> (\<forall>p \<in> set ps. \<not> on_cycle s (waitOrders c) p)) \<and>
    (n \<noteq> 0 \<longrightarrow> sf = 0 \<longrightarrow> (\<exists>p \<in> set ps. on_cycle s (waitOrders c) p))"
  using U w ok l ps sf
proof (induction ps arbitrary: sf c)
  case (Cons p ps)
  note wf7 = table_wfD(7)[OF wf]
  have area: "search_area s (waitOrders c) (MaxBackends c) U" by (rule lock_search_area[OF wf Cons.prems(1,2)])
  obtain b c1 where f: "FindLockCycle s me base p c = Inr (b, c1)" "same_work base c1 c" "b \<longleftrightarrow> on_cycle s (waitOrders c) p"
    "b \<Longrightarrow> cycle_found s (waitOrders c) (leader_of s p) base (leader_of s p) 0 c c1"
    "\<not> b \<Longrightarrow> possibleConstraints c1 = possibleConstraints c"
    using FindLockCycle_spec[OF refl _ Cons.prems(4) area, of p me] Cons.prems(3,5) unfolding on_cycle_def work_ok_def
    by (metis list.set_intros(1))
  have c1: "MaxBackends c1 = MaxBackends c" "waitOrders c1 = waitOrders c" "length (possibleConstraints c1) = length (possibleConstraints c)"
    using f(2) by (simp_all add: same_work_def)
  have next_step: "\<exists>n c'. check_cycles s me base ps sf' c1 = Inr (n, c') \<and> same_work base c' c \<and> - 1 \<le> n \<and> n \<le> int (MaxBackends c) \<and>
    (\<forall>k < nat n. edge_ok s U (possibleConstraints c' ! (base + k))) \<and>
    (n = 0 \<longrightarrow> sf' = 0 \<and> (\<forall>p \<in> set ps. \<not> on_cycle s (waitOrders c) p)) \<and>
    (n \<noteq> 0 \<longrightarrow> sf' = 0 \<longrightarrow> (\<exists>p \<in> set ps. on_cycle s (waitOrders c) p))"
    if "0 \<le> sf'" "sf' \<le> int (MaxBackends c)" "\<And>k. k < nat sf' \<Longrightarrow> edge_ok s U (possibleConstraints c1 ! (base + k))" for sf'
    using Cons.IH[of c1 sf'] Cons.prems(1-5) that same_work_ok[OF f(2)] same_work_trans[OF _ f(2)] unfolding c1 by auto
  show ?case
  proof (cases b)
    case False
    then show ?thesis using next_step[OF Cons.prems(6,7)] Cons.prems(8) f by auto
  next
    case True
    note fe = found_edges_ok[OF wf Cons.prems(1,2) _ leader_idem[OF wf7] f(4)[OF True] Cons.prems(4)]
    have pU: "leader_of s p \<in> U" using Cons.prems(5) by simp
    have oc: "on_cycle s (waitOrders c) p" using f(3) True by simp
    show ?thesis
    proof (cases "nSoftEdges c1 = 0")
      case z: True
      then show ?thesis using f(1,2) True oc by auto
    next
      case nz: False
      obtain n c' where n: "check_cycles s me base ps (int (nSoftEdges c1)) c1 = Inr (n, c')" "same_work base c' c" "- 1 \<le> n"
        "n \<le> int (MaxBackends c)" "\<forall>k < nat n. edge_ok s U (possibleConstraints c' ! (base + k))"
        "n = 0 \<longrightarrow> int (nSoftEdges c1) = 0"
        using next_step[of "int (nSoftEdges c1)"] fe[OF pU] by auto
      then show ?thesis using f(1) True nz oc by auto
    qed
  qed
qed auto

text \<open>The parts of the workspace that make a configuration.\<close>

definition same_config :: "dl_cxt \<Rightarrow> dl_cxt \<Rightarrow> bool" where
  "same_config c' c \<longleftrightarrow> MaxBackends c' = MaxBackends c \<and> nCurConstraints c' = nCurConstraints c \<and>
     maxCurConstraints c' = maxCurConstraints c \<and> nPossibleConstraints c' = nPossibleConstraints c \<and>
     maxPossibleConstraints c' = maxPossibleConstraints c \<and> work_ok c' = work_ok c \<and>
     map edge_key (take (nCurConstraints c) (curConstraints c')) = map edge_key (take (nCurConstraints c) (curConstraints c)) \<and>
     length (curConstraints c') = length (curConstraints c) \<and>
     take (nPossibleConstraints c) (possibleConstraints c') = take (nPossibleConstraints c) (possibleConstraints c)"

lemma same_config_refl [simp]: "same_config c c"
  by (simp add: same_config_def)

lemma same_config_trans: "same_config c'' c' \<Longrightarrow> same_config c' c \<Longrightarrow> same_config c'' c"
  by (simp add: same_config_def)

lemma same_work_config: "same_work (nPossibleConstraints c) c' c \<Longrightarrow> same_config c' c"
  using same_work_ok[of "nPossibleConstraints c" c' c] by (simp add: same_work_def same_config_def)

lemma cur_ok_config:
  assumes "same_config c' c"
  shows "cur_ok s U (curConstraints c') (nCurConstraints c') = cur_ok s U (curConstraints c) (nCurConstraints c)"
proof -
  define n where "n = nCurConstraints c"
  have e: "edge_key (curConstraints c' ! k) = edge_key (curConstraints c ! k)" if k: "k < n" "n \<le> length (curConstraints c)" for k
  proof -
    have "map edge_key (take n (curConstraints c')) ! k = map edge_key (take n (curConstraints c)) ! k"
      using assms by (simp add: same_config_def n_def)
    moreover have "k < length (take n (curConstraints c'))" "k < length (take n (curConstraints c))"
      using assms k by (simp_all add: same_config_def)
    ultimately show ?thesis using k by (simp add: nth_map)
  qed
  have "edge_ok s U (curConstraints c' ! k) = edge_ok s U (curConstraints c ! k)" if "k < n" "n \<le> length (curConstraints c)" for k
    using edge_ok_key[OF e[OF that]] .
  then show ?thesis using assms unfolding cur_ok_def same_config_def n_def by auto
qed

lemma TestConfiguration_spec:
  assumes wf: "table_wf tab pend s" and U: "lock_area s (MaxBackends c) U" and ok: "work_ok c"
    and cur: "cur_ok s U (curConstraints c) (nCurConstraints c)" and p: "leader_of s p \<in> U"
  shows "\<exists>n c'. TestConfiguration s me p c = Inr (n, c') \<and> same_config c' c \<and> - 1 \<le> n \<and> n \<le> int (MaxBackends c) \<and>
    (n > 0 \<longrightarrow> nPossibleConstraints c + MaxBackends c \<le> maxPossibleConstraints c) \<and>
    (\<forall>k < nat n. edge_ok s U (possibleConstraints c' ! (nPossibleConstraints c + k))) \<and>
    (n = 0 \<longrightarrow> orders_ok s (waitOrders c') \<and> \<not> on_cycle s (waitOrders c') p) \<and>
    (n \<noteq> 0 \<longrightarrow> nCurConstraints c = 0 \<longrightarrow> nPossibleConstraints c + MaxBackends c \<le> maxPossibleConstraints c \<longrightarrow> on_cycle s [] p) \<and>
    (n = 0 \<longrightarrow> (waitOrders c' = [] \<longleftrightarrow> nCurConstraints c = 0))"
proof (cases "nPossibleConstraints c + MaxBackends c > maxPossibleConstraints c")
  case True
  then show ?thesis by (simp add: TestConfiguration_def)
next
  case room: False
  obtain b w cs where e: "expand_loop s (nCurConstraints c) [] (curConstraints c) = Some (b, w, cs)" "orders_ok s w"
    "map edge_key cs = map edge_key (curConstraints c)"
    "b \<longrightarrow> (\<forall>k < nCurConstraints c. edge_lock (curConstraints c ! k) \<in> fst ` set w)"
    using expand_loop_spec[OF wf cur orders_ok_Nil] by blast
  define c1 where "c1 = c\<lparr>waitOrders := w, curConstraints := cs\<rparr>"
  have ex: "ExpandConstraints s c = Inr (b, c1)" using e(1) by (simp add: ExpandConstraints_def c1_def)
  have lcs: "length cs = length (curConstraints c)" using e(3) by (metis length_map)
  have sc1: "same_config c1 c"
    using e(3) lcs unfolding same_config_def c1_def work_ok_def by (simp add: take_map[symmetric])
  have nil: "w = [] \<and> b" if "nCurConstraints c = 0" using e(1) that by simp
  show ?thesis
  proof (cases b)
    case False
    then show ?thesis using room ex sc1 nil by (auto simp: TestConfiguration_def)
  next
    case True
    have wo: "waitOrders c1 = w" "MaxBackends c1 = MaxBackends c" "nPossibleConstraints c1 = nPossibleConstraints c"
      "maxPossibleConstraints c1 = maxPossibleConstraints c" by (simp_all add: c1_def)
    have ok1: "work_ok c1" using sc1 ok by (simp add: same_config_def)
    have ps: "leader_of s x \<in> U" if "x \<in> set (checked_procs p c1)" for x
    proof -
      have "cur_ok s U (curConstraints c1) (nCurConstraints c1)" using cur cur_ok_config[OF sc1] by simp
      then have "edge_ok s U e" if "e \<in> set (take (nCurConstraints c1) (curConstraints c1))" for e
        using that by (auto simp: cur_ok_def in_set_conv_nth)
      then show ?thesis using that p by (auto simp: checked_procs_def edge_ok_def)
    qed
    have l: "nPossibleConstraints c + MaxBackends c1 \<le> length (possibleConstraints c1)"
      using room ok1 wo by (simp add: work_ok_def)
    obtain n c' where n: "check_cycles s me (nPossibleConstraints c) (checked_procs p c1) 0 c1 = Inr (n, c')"
      "same_work (nPossibleConstraints c) c' c1" "- 1 \<le> n" "n \<le> int (MaxBackends c)"
      "\<forall>k < nat n. edge_ok s U (possibleConstraints c' ! (nPossibleConstraints c + k))"
      "n = 0 \<longrightarrow> (\<forall>p \<in> set (checked_procs p c1). \<not> on_cycle s w p)"
      "n \<noteq> 0 \<longrightarrow> (\<exists>p \<in> set (checked_procs p c1). on_cycle s w p)"
      using check_cycles_spec[where ps = "checked_procs p c1" and sf = 0 and me = me, OF wf _ _ ok1 l ps] U e(2) unfolding wo by auto
    have tc: "TestConfiguration s me p c = Inr (n, c')" using room ex True n(1) by (simp add: TestConfiguration_def wo)
    have sc': "same_config c' c" using same_config_trans[OF same_work_config[of c1 c'] sc1] n(2) wo(3) by simp
    have w': "waitOrders c' = w" using n(2) wo(1) by (simp add: same_work_def)
    have pin: "p \<in> set (checked_procs p c1)" by (simp add: checked_procs_def)
    have only: "checked_procs p c1 = [p]" if "nCurConstraints c = 0" using that by (simp add: checked_procs_def c1_def)
    have "w = [] \<longleftrightarrow> nCurConstraints c = 0" using e(4) True nil by (cases "nCurConstraints c") auto
    then show ?thesis using tc sc' n(3-7) w' pin e(2) room only by auto
  qed
qed

section \<open>A test is a function of the configuration\<close>

definition sim :: "dl_cxt \<Rightarrow> dl_cxt \<Rightarrow> bool" where
  "sim c1 c2 \<longleftrightarrow> MaxBackends c1 = MaxBackends c2 \<and> waitOrders c1 = waitOrders c2 \<and> visitedProcs c1 = visitedProcs c2 \<and>
     nSoftEdges c1 = nSoftEdges c2"

abbreviation sim_res :: "dl_fault + bool \<times> dl_cxt \<Rightarrow> dl_fault + bool \<times> dl_cxt \<Rightarrow> bool" where
  "sim_res \<equiv> rel_sum (=) (rel_prod (=) sim)"

lemma sim_resE:
  assumes "sim_res r1 r2"
  obtains e where "r1 = Inl e" "r2 = Inl e" | b c1 c2 where "r1 = Inr (b, c1)" "r2 = Inr (b, c2)" "sim c1 c2"
  using assms by (auto simp: rel_sum.simps)

lemma try_each_sim:
  assumes "\<And>p c1 c2. p \<in> set ps \<Longrightarrow> sim c1 c2 \<Longrightarrow> sim_res (f1 p c1) (f2 p c2)" "sim c1 c2"
  shows "sim_res (try_each f1 ps c1) (try_each f2 ps c2)"
  using assms
proof (induction ps arbitrary: c1 c2)
  case (Cons p ps)
  have "sim_res (f1 p c1) (f2 p c2)" using Cons.prems by simp
  then show ?case
  proof (rule sim_resE)
    fix b d1 d2
    assume "f1 p c1 = Inr (b, d1)" "f2 p c2 = Inr (b, d2)" "sim d1 d2"
    then show ?thesis using Cons.IH[of d1 d2] Cons.prems(1) by (cases b) auto
  qed simp
qed simp

lemma sim_same:
  assumes "sim c1 c2" "same_work b c1' c1" "same_work b c2' c2" "visitedProcs c1' = visitedProcs c1" "visitedProcs c2' = visitedProcs c2"
    "nSoftEdges c1' = nSoftEdges c1" "nSoftEdges c2' = nSoftEdges c2"
  shows "sim c1' c2'"
  using assms by (simp add: sim_def same_work_def)

lemma member_sim:
  assumes "\<And>q c1 c2. sim c1 c2 \<Longrightarrow> sim_res (f1 q c1) (f2 q c2)" "sim c1 c2"
  shows "sim_res (FindLockCycleRecurseMember f1 s me b1 p u d c1) (FindLockCycleRecurseMember f2 s me b2 p u d c2)"
proof -
  define hard where "hard f = (\<lambda>q c. case f q c of
               Inl e \<Rightarrow> Inl e
             | Inr (True, c) \<Rightarrow> Inr (True, fill_details s p d c)
             | Inr (False, c) \<Rightarrow> Inr (False, note_hard_blocker s me p q c))" for f :: "procno \<Rightarrow> dl_cxt \<Rightarrow> dl_fault + bool \<times> dl_cxt"
  define soft where "soft f base = (\<lambda>q c. case f q c of
                 Inl e \<Rightarrow> Inl e
               | Inr (True, c) \<Rightarrow> Inr (True, add_soft_edge base u (leader_of s q) (wait_tag s p) (fill_details s p d c))
               | Inr (False, c) \<Rightarrow> Inr (False, c))" for f :: "procno \<Rightarrow> dl_cxt \<Rightarrow> dl_fault + bool \<times> dl_cxt" and base
  have fill: "sim (fill_details s p d c1) (fill_details s p d c2)" if "sim c1 c2" for c1 c2
    using that by (simp add: sim_def fill_details_def)
  have add: "sim (add_soft_edge b1 x y t c1) (add_soft_edge b2 x y t c2)" if "sim c1 c2" for c1 c2 x y t
    using that by (simp add: sim_def add_soft_edge_def Let_def)
  have note_h: "sim (note_hard_blocker s me p q c1) (note_hard_blocker s me p q c2)" if "sim c1 c2" for c1 c2 q
    by (rule sim_same[OF that, of 0]) simp_all
  have note_w: "sim (note_waiting_autovacuum s me p u c1) (note_waiting_autovacuum s me p u c2)" if "sim c1 c2" for c1 c2
    by (rule sim_same[OF that, of 0]) simp_all
  have h: "sim_res (try_each (hard f1) (hard_blockers s p u) c1) (try_each (hard f2) (hard_blockers s p u) c2)"
  proof (rule try_each_sim[OF _ assms(2)])
    show "sim_res (hard f1 q c1) (hard f2 q c2)" if "sim c1 c2" for q c1 c2
      using assms(1)[OF that, of q] by (rule sim_resE) (auto simp: hard_def fill note_h split: bool.split)
  qed
  have sf: "sim_res (try_each (soft f1 b1) qs c1) (try_each (soft f2 b2) qs c2)" if "sim c1 c2" for qs c1 c2
  proof (rule try_each_sim[OF _ that])
    show "sim_res (soft f1 b1 q c1) (soft f2 b2 q c2)" if "sim c1 c2" for q c1 c2
      using assms(1)[OF that, of q] by (rule sim_resE) (auto simp: soft_def fill add split: bool.split)
  qed
  have wo: "waitOrders c1 = waitOrders c2" if "sim c1 c2" for c1 c2 using that by (simp add: sim_def)
  show ?thesis
    unfolding FindLockCycleRecurseMember_def hard_def[symmetric] soft_def[symmetric] Let_def
    using h
  proof (rule sim_resE)
    fix b d1 d2
    assume a: "try_each (hard f1) (hard_blockers s p u) c1 = Inr (b, d1)" "try_each (hard f2) (hard_blockers s p u) c2 = Inr (b, d2)"
      "sim d1 d2"
    show "sim_res
       (case try_each (hard f1) (hard_blockers s p u) c1 of
          Inl e \<Rightarrow> Inl e
        | Inr (True, c) \<Rightarrow> Inr (True, c)
        | Inr (False, c) \<Rightarrow> try_each (soft f1 b1)
            (soft_blockers s (waitOrders (note_waiting_autovacuum s me p u c)) p u) (note_waiting_autovacuum s me p u c))
       (case try_each (hard f2) (hard_blockers s p u) c2 of
          Inl e \<Rightarrow> Inl e
        | Inr (True, c) \<Rightarrow> Inr (True, c)
        | Inr (False, c) \<Rightarrow> try_each (soft f2 b2)
            (soft_blockers s (waitOrders (note_waiting_autovacuum s me p u c)) p u) (note_waiting_autovacuum s me p u c))"
      using a(3) sf[OF note_w[OF a(3)]] wo[OF note_w[OF a(3)]] unfolding a(1,2) by (cases b) simp_all
  qed simp
qed

lemma FindLockCycleRecurse_sim:
  "sim c1 c2 \<Longrightarrow> sim_res (FindLockCycleRecurse fuel s me b1 p d c1) (FindLockCycleRecurse fuel s me b2 p d c2)"
proof (induction fuel arbitrary: p d c1 c2)
  case (Suc fuel)
  define u where "u = leader_of s p"
  have v: "visitedProcs c1 = visitedProcs c2" "MaxBackends c1 = MaxBackends c2" using Suc.prems by (simp_all add: sim_def)
  have push: "sim (c1\<lparr>visitedProcs := visitedProcs c2 @ [u]\<rparr>) (c2\<lparr>visitedProcs := visitedProcs c2 @ [u]\<rparr>)"
    using Suc.prems by (simp add: sim_def)
  have det: "sim (c1\<lparr>nDeadlockDetails := d\<rparr>) (c2\<lparr>nDeadlockDetails := d\<rparr>)" using Suc.prems by (simp add: sim_def)
  have "sim_res (try_each (\<lambda>p c. FindLockCycleRecurseMember (\<lambda>q c. FindLockCycleRecurse fuel s me b1 q (Suc d) c) s me b1 p u d c)
        (waiting_members s u) (c1\<lparr>visitedProcs := visitedProcs c2 @ [u]\<rparr>))
      (try_each (\<lambda>p c. FindLockCycleRecurseMember (\<lambda>q c. FindLockCycleRecurse fuel s me b2 q (Suc d) c) s me b2 p u d c)
        (waiting_members s u) (c2\<lparr>visitedProcs := visitedProcs c2 @ [u]\<rparr>))"
    by (rule try_each_sim[OF member_sim[OF Suc.IH] push]) simp_all
  then show ?case using v det Suc.prems unfolding FindLockCycleRecurse.simps Let_def u_def
    by (simp split: option.split)
qed simp

lemma FindLockCycle_sim:
  assumes "waitOrders c1 = waitOrders c2" "MaxBackends c1 = MaxBackends c2"
  shows "sim_res (FindLockCycle s me b1 p c1) (FindLockCycle s me b2 p c2)"
  unfolding FindLockCycle_def assms(2) by (rule FindLockCycleRecurse_sim) (simp add: sim_def assms)

lemma check_cycles_sim:
  assumes "waitOrders c1 = waitOrders c2" "MaxBackends c1 = MaxBackends c2"
    "check_cycles s me b1 ps sf c1 = Inr (n1, c1')" "check_cycles s me b2 ps sf c2 = Inr (n2, c2')"
  shows "n1 = n2"
  using assms
proof (induction ps arbitrary: sf c1 c2)
  case (Cons p ps)
  from FindLockCycle_sim[OF Cons.prems(1,2)] show ?case
  proof (rule sim_resE)
    fix b d1 d2
    assume a: "FindLockCycle s me b1 p c1 = Inr (b, d1)" "FindLockCycle s me b2 p c2 = Inr (b, d2)" "sim d1 d2"
    then show ?thesis using Cons.prems(3,4) Cons.IH[of d1 d2] by (cases b) (auto simp: sim_def split: if_splits)
  qed (use Cons.prems in simp)
qed simp

lemma release_preds_cong:
  assumes "chain cs1 ks k0" "\<And>k. k \<in> set ks \<Longrightarrow> pred (cs1 ! k) = pred (cs2 ! k) \<and> link (cs1 ! k) = link (cs2 ! k)"
  shows "release_preds f cs1 k0 b = release_preds f cs2 k0 b"
  using assms
proof (induction ks arbitrary: k0 f b)
  case (Cons k ks)
  then show ?case by (cases f) (auto simp: Let_def)
qed simp

lemma TopoSortScan_cong:
  assumes "\<And>j b. j \<le> m \<Longrightarrow> release_preds (length cs1) cs1 (after ! j) b = release_preds (length cs2) cs2 (after ! j) b"
  shows "TopoSortScan s cs1 after left m topo before ord = TopoSortScan s cs2 after left m topo before ord"
  using assms
proof (induction left arbitrary: m topo before ord rule: less_induct)
  case (less left)
  show ?case
  proof (cases "left = 0")
    case True
    then show ?thesis by (simp add: TopoSortScan.simps)
  next
    case left: False
    define f where "f = find (\<lambda>j. topo ! j \<noteq> None) (rev [0..<Suc m])"
    show ?thesis
    proof (cases f)
      case None
      then show ?thesis unfolding f_def using left
        by (subst (1 2) TopoSortScan.simps) (simp del: upt_Suc)
    next
      case (Some m')
      then have fm: "find (\<lambda>j. topo ! j \<noteq> None) (rev [0..<Suc m]) = Some m'" by (simp add: f_def)
      then have m': "m' \<le> m" unfolding find_down_Some by simp
      define g where "g = find (\<lambda>j. topo ! j \<noteq> None \<and> before ! j = 0) (rev [0..<Suc m'])"
      show ?thesis
      proof (cases g)
        case None
        then show ?thesis unfolding g_def using left fm
          by (subst (1 2) TopoSortScan.simps) (simp del: upt_Suc)
      next
        case (Some j)
        then have fj: "find (\<lambda>j. topo ! j \<noteq> None \<and> before ! j = 0) (rev [0..<Suc m']) = Some j" by (simp add: g_def)
        then have j: "j \<le> m'" "topo ! j \<noteq> None" unfolding find_down_Some by simp_all
        obtain topo2 ord2 left2 where e: "emit_group s (leader_of s (the (topo ! j))) m' (topo, ord, left) = (topo2, ord2, left2)"
          by (cases "emit_group s (leader_of s (the (topo ! j))) m' (topo, ord, left)") auto
        have "left2 < left" using emit_group_less[OF e j(1)] j(2) left by auto
        then have "TopoSortScan s cs1 after left2 m' topo2 b ord2 = TopoSortScan s cs2 after left2 m' topo2 b ord2" for b
          using less.IH less.prems m' by (meson le_trans)
        moreover have "release_preds (length cs1) cs1 (after ! j) before = release_preds (length cs2) cs2 (after ! j) before"
          using less.prems j(1) m' by (meson le_trans)
        ultimately show ?thesis using left fm fj e
          by (subst (1 2) TopoSortScan.simps) (simp del: upt_Suc split: option.split)
      qed
    qed
  qed
qed

definition topo_rel :: "lock_space \<Rightarrow> procno list \<Rightarrow> nat \<Rightarrow> nat \<Rightarrow> int list \<times> nat list \<times> EDGE list \<Rightarrow>
    int list \<times> nat list \<times> EDGE list \<Rightarrow> bool" where
  "topo_rel s qs n i = (\<lambda>(b1, a1, cs1) (b2, a2, cs2). b1 = b2 \<and> a1 = a2 \<and> length cs1 = length cs2 \<and>
     (\<forall>k < n. edge_key (cs1 ! k) = edge_key (cs2 ! k)) \<and>
     (\<forall>k < i. relevant s qs (cs1 ! k) \<longrightarrow> pred (cs1 ! k) = pred (cs2 ! k) \<and> link (cs1 ! k) = link (cs2 ! k)))"

lemma relevant_key: "edge_key e = edge_key e' \<Longrightarrow> relevant s qs e = relevant s qs e'"
  by (simp add: relevant_def edge_key_def)

lemma topo_constraint_rel:
  assumes g: "groups_wf s" and lead: "leader_of s (waiter (cs1 ! i)) = waiter (cs1 ! i)" "leader_of s (blocker (cs1 ! i)) = blocker (cs1 ! i)"
    and i: "i < n" "n \<le> length cs1" and lb: "length b1 = length qs" and r: "topo_rel s qs n i (b1, a1, cs1) (b2, a2, cs2)"
  shows "topo_rel s qs n (Suc i) (topo_constraint s qs i (b1, a1, cs1)) (topo_constraint s qs i (b2, a2, cs2))"
proof -
  have R: "b2 = b1" "a2 = a1" "length cs2 = length cs1" "\<And>k. k < n \<Longrightarrow> edge_key (cs1 ! k) = edge_key (cs2 ! k)"
    "\<And>k. k < i \<Longrightarrow> relevant s qs (cs1 ! k) \<Longrightarrow> pred (cs1 ! k) = pred (cs2 ! k) \<and> link (cs1 ! k) = link (cs2 ! k)"
    using r unfolding topo_rel_def by auto
  have wb: "waiter (cs2 ! i) = waiter (cs1 ! i)" "blocker (cs2 ! i) = blocker (cs1 ! i)"
    using R(4)[OF i(1)] by (simp_all add: edge_key_def)
  obtain jj x1 where f1: "topo_find s qs (waiter (cs1 ! i)) b1 = (jj, x1)" by fastforce
  obtain kk x2 where f2: "topo_find s qs (blocker (cs1 ! i)) x1 = (kk, x2)" by fastforce
  note F1 = topo_find_eq[OF g lead(1) lb f1]
  note F2 = topo_find_eq[OF g lead(2) F1(2) f2]
  have rel: "relevant s qs (cs1 ! i) \<longleftrightarrow> jj \<noteq> None \<and> kk \<noteq> None" using F1(1) F2(1) by (simp add: relevant_def)
  show ?thesis
  proof (cases "jj \<noteq> None \<and> kk \<noteq> None")
    case False
    then show ?thesis
      using R f1 f2 wb rel unfolding topo_rel_def topo_constraint_def
      by (cases jj; cases kk) (auto simp: less_Suc_eq)
  next
    case True
    then obtain j k where jk: "jj = Some j" "kk = Some k" by auto
    define d where "d cs = cs[i := (cs ! i)\<lparr>pred := j, link := a1 ! k\<rparr>]" for cs :: "EDGE list"
    have res: "topo_constraint s qs i (b1, a1, cs1) = (x2[j := x2 ! j + 1], a1[k := i + 1], d cs1)"
      "topo_constraint s qs i (b2, a2, cs2) = (x2[j := x2 ! j + 1], a1[k := i + 1], d cs2)"
      using f1 f2 jk wb R(1,2) by (simp_all add: topo_constraint_def d_def)
    have same: "d cs ! k' = cs ! k'" if "k' \<noteq> i" for cs k' using that by (simp add: d_def)
    have at: "d cs1 ! i = (cs1 ! i)\<lparr>pred := j, link := a1 ! k\<rparr>" "d cs2 ! i = (cs2 ! i)\<lparr>pred := j, link := a1 ! k\<rparr>"
      using i R(3) by (simp_all add: d_def)
    have "edge_key (d cs1 ! k') = edge_key (d cs2 ! k')" if "k' < n" for k'
      using R(4)[OF that] same[of k'] at by (cases "k' = i") (simp_all add: edge_key_def)
    moreover have "pred (d cs1 ! k') = pred (d cs2 ! k') \<and> link (d cs1 ! k') = link (d cs2 ! k')"
      if "k' < Suc i" "relevant s qs (d cs1 ! k')" for k'
      using R(5)[of k'] that same[of k'] at by (cases "k' = i") auto
    ultimately show ?thesis unfolding res topo_rel_def using R(3) by (simp add: d_def)
  qed
qed

lemma TopoSort_cong:
  assumes l: "LockHash s t = Some l" and g: "groups_wf s" and n: "n \<le> length cs1" "length cs2 = length cs1"
    and lead: "\<And>k. k < n \<Longrightarrow> leader_of s (waiter (cs1 ! k)) = waiter (cs1 ! k) \<and> leader_of s (blocker (cs1 ! k)) = blocker (cs1 ! k)"
    and key: "\<And>k. k < n \<Longrightarrow> edge_key (cs1 ! k) = edge_key (cs2 ! k)"
  shows "snd (TopoSort s t cs1 n) = snd (TopoSort s t cs2 n)"
proof -
  define qs where "qs = waitProcs l"
  define X where "X i cs = fold (topo_constraint s qs) [0..<i] (replicate (length qs) 0, replicate (length qs) 0, cs)" for i cs
  have both: "topo_inv s qs cs1 i (X i cs1) \<and> topo_rel s qs n i (X i cs1) (X i cs2)" if "i \<le> n" for i
    using that
  proof (induction i)
    case 0
    then show ?case using topo_start_inv[of s qs cs1] n key by (simp add: X_def topo_rel_def)
  next
    case (Suc i)
    then have IH: "topo_inv s qs cs1 i (X i cs1)" "topo_rel s qs n i (X i cs1) (X i cs2)" by simp_all
    obtain b1 a1 d1 where x1: "X i cs1 = (b1, a1, d1)" by (cases "X i cs1")
    obtain b2 a2 d2 where x2: "X i cs2 = (b2, a2, d2)" by (cases "X i cs2")
    have inv: "length b1 = length qs" "map edge_key d1 = map edge_key cs1" using IH(1) by (simp_all add: x1 topo_inv_def)
    have ld: "length d1 = length cs1" using inv(2) by (metis length_map)
    have il: "i < length cs1" using Suc.prems n(1) by simp
    note kd = edge_keyD[OF inv(2) il]
    have li: "leader_of s (waiter (cs1 ! i)) = waiter (cs1 ! i)" "leader_of s (blocker (cs1 ! i)) = blocker (cs1 ! i)"
      using lead[of i] Suc.prems by simp_all
    have "topo_inv s qs cs1 (Suc i) (X (Suc i) cs1)"
      using topo_constraint_inv[OF g li il IH(1)] by (simp add: X_def)
    moreover have "topo_rel s qs n (Suc i) (topo_constraint s qs i (b1, a1, d1)) (topo_constraint s qs i (b2, a2, d2))"
      by (rule topo_constraint_rel[OF g]) (use kd li Suc.prems n(1) ld inv(1) IH(2) x1 x2 in auto)
    then have "topo_rel s qs n (Suc i) (X (Suc i) cs1) (X (Suc i) cs2)" using x1 x2 by (simp add: X_def)
    ultimately show ?case by blast
  qed
  obtain b1 a1 d1 where x1: "X n cs1 = (b1, a1, d1)" by (cases "X n cs1")
  obtain b2 a2 d2 where x2: "X n cs2 = (b2, a2, d2)" by (cases "X n cs2")
  have T: "topo_inv s qs cs1 n (b1, a1, d1)" and R: "topo_rel s qs n n (b1, a1, d1) (b2, a2, d2)"
    using both[OF order_refl] x1 x2 by simp_all
  have r: "b2 = b1" "a2 = a1" "length d1 = length d2" using R by (simp_all add: topo_rel_def)
  have "TopoSortScan s d1 a1 (length qs) (length qs - 1) (map Some qs) b1 (replicate (length qs) None) =
      TopoSortScan s d2 a1 (length qs) (length qs - 1) (map Some qs) b1 (replicate (length qs) None)"
  proof (cases "qs = []")
    case True
    then show ?thesis by (simp add: TopoSortScan.simps)
  next
    case False
    show ?thesis
    proof (rule TopoSortScan_cong)
      fix j b
      assume "j \<le> length qs - 1"
      then have j: "j < length qs" using False by (cases qs) auto
      have ch: "chain d1 (followers s qs cs1 n j) (a1 ! j)" using T j by (simp add: topo_inv_def)
      have "pred (d1 ! k) = pred (d2 ! k) \<and> link (d1 ! k) = link (d2 ! k)" if "k \<in> set (followers s qs cs1 n j)" for k
      proof -
        have k: "k < n" "relevant s qs (cs1 ! k)" using that by (auto simp: followers_def)
        have "map edge_key d1 = map edge_key cs1" using T by (simp add: topo_inv_def)
        then have "relevant s qs (d1 ! k)" using edge_keyD[of d1 cs1 k] k n(1) by (simp add: relevant_def)
        then show ?thesis using R k(1) by (simp add: topo_rel_def)
      qed
      then show "release_preds (length d1) d1 (a1 ! j) b = release_preds (length d2) d2 (a1 ! j) b"
        unfolding r(3) by (rule release_preds_cong[OF ch])
    qed
  qed
  then show ?thesis using x1 x2 r l by (simp add: TopoSort_def qs_def[symmetric] X_def Let_def)
qed

lemma expand_loop_cong:
  assumes wf: "table_wf tab pend s" and c: "cur_ok s U cs1 n" and l: "length cs2 = length cs1"
    and key: "\<And>k. k < n \<Longrightarrow> edge_key (cs1 ! k) = edge_key (cs2 ! k)"
    and r: "expand_loop s n w cs1 = Some (b1, w1, d1)" "expand_loop s n w cs2 = Some (b2, w2, d2)"
  shows "b1 = b2 \<and> w1 = w2"
  using c l key r
proof (induction n arbitrary: w cs1 cs2)
  case (Suc i)
  define t where "t = edge_lock (cs1 ! i)"
  have t2: "edge_lock (cs2 ! i) = t" using Suc.prems(3)[of i] by (simp add: t_def edge_key_def)
  have ci: "cur_ok s U cs1 i" using Suc.prems(1) by (auto simp: cur_ok_def)
  have ki: "\<And>k. k < i \<Longrightarrow> edge_key (cs1 ! k) = edge_key (cs2 ! k)" using Suc.prems(3) by simp
  show ?case
  proof (cases "t \<in> fst ` set w")
    case True
    then show ?thesis using Suc.IH[OF ci Suc.prems(2) ki] Suc.prems(4,5) by (simp add: t_def[symmetric] t2)
  next
    case False
    have "queue s t \<noteq> []" using Suc.prems(1) by (simp add: cur_ok_def edge_ok_def t_def)
    then obtain l where l: "LockHash s t = Some l" by (cases "LockHash s t") (auto simp: queue_def)
    have n1: "Suc i \<le> length cs1" using Suc.prems(1) by (simp add: cur_ok_def)
    have n2: "Suc i \<le> length cs2" using n1 Suc.prems(2) by simp
    have lead1: "leader_of s (waiter (cs1 ! k)) = waiter (cs1 ! k) \<and> leader_of s (blocker (cs1 ! k)) = blocker (cs1 ! k)"
      if "k < Suc i" for k using that Suc.prems(1) by (auto simp: cur_ok_def edge_ok_def)
    have lead2: "leader_of s (waiter (cs2 ! k)) = waiter (cs2 ! k) \<and> leader_of s (blocker (cs2 ! k)) = blocker (cs2 ! k)"
      if "k < Suc i" for k using lead1[OF that] Suc.prems(3)[OF that] by (simp add: edge_key_def)
    obtain e1 res1 where ts1: "TopoSort s t cs1 (Suc i) = (e1, res1)" by fastforce
    obtain e2 res2 where ts2: "TopoSort s t cs2 (Suc i) = (e2, res2)" by fastforce
    note wf7 = table_wfD(7)[OF wf]
    have "res1 = res2" using TopoSort_cong[OF l wf7 n1 Suc.prems(2) lead1 Suc.prems(3)] ts1 ts2 by simp
    moreover have m: "map edge_key e1 = map edge_key cs1" "map edge_key e2 = map edge_key cs2"
      using TopoSort_spec(1)[OF l wf7 n1 lead1 ts1] TopoSort_spec(1)[OF l wf7 n2 lead2 ts2] by simp_all
    have le: "length e2 = length e1" using m Suc.prems(2) by (metis length_map)
    have "edge_key (e1 ! k) = edge_key (e2 ! k)" if "k < i" for k
    proof -
      have "edge_key (e1 ! k) = edge_key (cs1 ! k)" "edge_key (e2 ! k) = edge_key (cs2 ! k)"
        using edge_keyD[OF m(1), of k] edge_keyD[OF m(2), of k] that n1 n2 by (simp_all add: edge_key_def)
      then show ?thesis using ki[OF that] by simp
    qed
    moreover have "cur_ok s U e1 i" using ci cur_ok_key[OF m(1)] by simp
    ultimately show ?thesis
      using False ts1 ts2 Suc.prems(4,5) Suc.IH[of e1 e2] le
      by (auto simp: t_def[symmetric] t2 split: option.splits)
  qed
qed simp

lemma TestConfiguration_det:
  assumes wf: "table_wf tab pend s" and cur: "cur_ok s U (curConstraints c1) (nCurConstraints c1)" and sc: "same_config c2 c1"
    and r: "TestConfiguration s me p c1 = Inr (n1, d1)" "TestConfiguration s me p c2 = Inr (n2, d2)"
  shows "n1 = n2"
proof -
  define n where "n = nCurConstraints c1"
  have C: "nCurConstraints c2 = n" "nPossibleConstraints c2 = nPossibleConstraints c1" "MaxBackends c2 = MaxBackends c1"
    "maxPossibleConstraints c2 = maxPossibleConstraints c1" "length (curConstraints c2) = length (curConstraints c1)"
    "map edge_key (take n (curConstraints c2)) = map edge_key (take n (curConstraints c1))"
    using sc by (simp_all add: same_config_def n_def)
  have nl: "n \<le> length (curConstraints c1)" using cur by (simp add: cur_ok_def n_def)
  have key: "edge_key (curConstraints c1 ! k) = edge_key (curConstraints c2 ! k)" if "k < n" for k
    using arg_cong[OF C(6), of "\<lambda>xs. xs ! k"] that nl C(5) by simp
  show ?thesis
  proof (cases "nPossibleConstraints c1 + MaxBackends c1 > maxPossibleConstraints c1")
    case True
    then show ?thesis using r C by (simp add: TestConfiguration_def)
  next
    case room: False
    obtain b1 w1 e1 where x1: "expand_loop s n [] (curConstraints c1) = Some (b1, w1, e1)" "map edge_key e1 = map edge_key (curConstraints c1)"
      using expand_loop_spec[OF wf cur orders_ok_Nil] by (auto simp: n_def)
    have cur2: "cur_ok s U (curConstraints c2) n" using cur cur_ok_config[OF sc] C(1) by simp
    obtain b2 w2 e2 where x2: "expand_loop s n [] (curConstraints c2) = Some (b2, w2, e2)" "map edge_key e2 = map edge_key (curConstraints c2)"
      using expand_loop_spec[OF wf cur2 orders_ok_Nil] by blast
    have bw: "b1 = b2" "w1 = w2"
      using expand_loop_cong[OF wf cur[folded n_def] C(5) key x1(1) x2(1)] by simp_all
    have ex: "ExpandConstraints s c1 = Inr (b1, c1\<lparr>waitOrders := w1, curConstraints := e1\<rparr>)"
      "ExpandConstraints s c2 = Inr (b1, c2\<lparr>waitOrders := w1, curConstraints := e2\<rparr>)"
      using x1(1) x2(1) bw C(1) by (simp_all add: ExpandConstraints_def n_def)
    have keys: "map edge_key (take n e1) = map edge_key (take n e2)" using x1(2) x2(2) C(6) by (metis take_map)
    have pairs: "map (\<lambda>e. [waiter e, blocker e]) es = map (\<lambda>(w, b, t). [w, b]) (map edge_key es)" for es
      by (simp add: edge_key_def)
    have "map (\<lambda>e. [waiter e, blocker e]) (take n e1) = map (\<lambda>e. [waiter e, blocker e]) (take n e2)"
      by (simp only: pairs keys)
    then have "checked_procs p (c1\<lparr>waitOrders := w1, curConstraints := e1\<rparr>) = checked_procs p (c2\<lparr>waitOrders := w1, curConstraints := e2\<rparr>)"
      using C(1) by (simp add: checked_procs_def n_def)
    then show ?thesis
      using r room C ex check_cycles_sim[of "c1\<lparr>waitOrders := w1, curConstraints := e1\<rparr>" "c2\<lparr>waitOrders := w1, curConstraints := e2\<rparr>"]
      by (cases b1) (auto simp: TestConfiguration_def)
  qed
qed

section \<open>The backtracking search\<close>

definition solved :: "lock_space \<Rightarrow> procno \<Rightarrow> dl_cxt \<Rightarrow> dl_cxt \<Rightarrow> bool" where
  "solved s p c c' \<longleftrightarrow> MaxBackends c' = MaxBackends c \<and> work_ok c' \<and> orders_ok s (waitOrders c') \<and>
     \<not> on_cycle s (waitOrders c') p"

lemma push_constraint:
  assumes ok: "work_ok c" and cur: "cur_ok s U (curConstraints c) (nCurConstraints c)" and n: "nCurConstraints c < maxCurConstraints c"
    and e: "edge_ok s U e"
  defines "c' \<equiv> c\<lparr>curConstraints := (curConstraints c)[nCurConstraints c := e], nCurConstraints := nCurConstraints c + 1\<rparr>"
  shows "work_ok c'" "cur_ok s U (curConstraints c') (nCurConstraints c')"
    "same_config d c' \<Longrightarrow> same_config (d\<lparr>nCurConstraints := nCurConstraints d - 1\<rparr>) c"
proof -
  show "work_ok c'" using ok by (simp add: work_ok_def c'_def)
  then show "cur_ok s U (curConstraints c') (nCurConstraints c')"
    using cur n e ok by (auto simp: cur_ok_def c'_def work_ok_def nth_list_update less_Suc_eq)
  assume d: "same_config d c'"
  define N where "N = nCurConstraints c"
  have "map edge_key (take (Suc N) (curConstraints d)) = map edge_key (take (Suc N) (curConstraints c'))"
    using d by (simp add: same_config_def c'_def N_def)
  then have "take N (map edge_key (take (Suc N) (curConstraints d))) = take N (map edge_key (take (Suc N) (curConstraints c')))"
    by simp
  then have "map edge_key (take N (curConstraints d)) = map edge_key (take N (curConstraints c'))" by (simp add: take_map)
  also have "take N (curConstraints c') = take N (curConstraints c)" by (simp add: c'_def N_def)
  finally have k: "map edge_key (take N (curConstraints d)) = map edge_key (take N (curConstraints c))" .
  have "work_ok (d\<lparr>nCurConstraints := nCurConstraints d - 1\<rparr>) = work_ok d" by (simp add: work_ok_def)
  then show "same_config (d\<lparr>nCurConstraints := nCurConstraints d - 1\<rparr>) c"
    using d k ok \<open>work_ok c'\<close> unfolding same_config_def c'_def N_def by simp
qed

text \<open>
  The state in which soft edges are tried: \<open>c1\<close> is the workspace after the test of \<open>c\<close> has found \<open>nE\<close> soft edges,
  which are protected from being overwritten if there was room (\<open>saved\<close>).
\<close>

definition branching ::
  "lock_space \<Rightarrow> procno set \<Rightarrow> procno \<Rightarrow> procno \<Rightarrow> dl_cxt \<Rightarrow> nat \<Rightarrow> bool \<Rightarrow> dl_cxt \<Rightarrow> bool" where
  "branching s U me p c nE saved c1 \<longleftrightarrow> work_ok c \<and> cur_ok s U (curConstraints c) (nCurConstraints c) \<and>
     nCurConstraints c < maxCurConstraints c \<and>
     (\<exists>c0. TestConfiguration s me p c = Inr (int nE, c0) \<and> same_config c0 c \<and>
        (\<forall>k < nE. edge_ok s U (possibleConstraints c0 ! (nPossibleConstraints c + k))) \<and>
        c1 = (if saved then c0\<lparr>nPossibleConstraints := nPossibleConstraints c + nE\<rparr> else c0))"

lemma branching_work:
  assumes "branching s U me p c nE saved c1"
  shows "work_ok c1" "nCurConstraints c1 = nCurConstraints c" "maxCurConstraints c1 = maxCurConstraints c"
    "MaxBackends c1 = MaxBackends c" "cur_ok s U (curConstraints c1) (nCurConstraints c1)"
    "nPossibleConstraints c1 = (if saved then nPossibleConstraints c + nE else nPossibleConstraints c)"
    "nCurConstraints c < maxCurConstraints c" "\<not> saved \<Longrightarrow> same_config c1 c"
    "\<And>k. k < nE \<Longrightarrow> edge_ok s U (possibleConstraints c1 ! (nPossibleConstraints c + k))"
proof -
  obtain c0 where c0: "same_config c0 c" "c1 = (if saved then c0\<lparr>nPossibleConstraints := nPossibleConstraints c + nE\<rparr> else c0)"
    "\<forall>k < nE. edge_ok s U (possibleConstraints c0 ! (nPossibleConstraints c + k))"
    using assms unfolding branching_def by blast
  have c: "work_ok c" "cur_ok s U (curConstraints c) (nCurConstraints c)" "nCurConstraints c < maxCurConstraints c"
    using assms by (simp_all add: branching_def)
  show "work_ok c1" "nCurConstraints c1 = nCurConstraints c" "maxCurConstraints c1 = maxCurConstraints c"
    "MaxBackends c1 = MaxBackends c"
    "nPossibleConstraints c1 = (if saved then nPossibleConstraints c + nE else nPossibleConstraints c)"
    "nCurConstraints c < maxCurConstraints c" "\<not> saved \<Longrightarrow> same_config c1 c"
    "\<And>k. k < nE \<Longrightarrow> edge_ok s U (possibleConstraints c1 ! (nPossibleConstraints c + k))"
    using c0 c(1,3) by (auto simp: same_config_def work_ok_def)
  show "cur_ok s U (curConstraints c1) (nCurConstraints c1)" using c(2) cur_ok_config[OF c0(1)] c0(2) by simp
qed

text \<open>Before a soft edge is tried it is where it was found, kept there or found again.\<close>

lemma edge_available:
  assumes wf: "table_wf tab pend s" and U: "lock_area s (MaxBackends c) U" and p: "leader_of s p \<in> U"
    and b: "branching s U me p c nE saved c1" and i: "i < nE" and d: "same_config d c1" and first: "i = 0 \<Longrightarrow> d = c1"
  shows "\<exists>d2. (if \<not> saved \<and> i > 0
      then (case TestConfiguration s me p d of
              Inl e \<Rightarrow> Inl e
            | Inr (n, c) \<Rightarrow> if int nE \<noteq> n then Inl Fatal_inconsistent else Inr c)
      else Inr d) = Inr d2 \<and> same_config d2 d \<and> edge_ok s U (possibleConstraints d2 ! (nPossibleConstraints c + i))"
proof (cases "\<not> saved \<and> i > 0")
  case True
  note W = branching_work[OF b]
  obtain c0 where T: "TestConfiguration s me p c = Inr (int nE, c0)" using b by (auto simp: branching_def)
  have cur: "cur_ok s U (curConstraints c) (nCurConstraints c)" using b by (simp add: branching_def)
  have dc: "same_config d c" using same_config_trans[OF d] W(8) True by blast
  have Ud: "lock_area s (MaxBackends d) U" "work_ok d" "cur_ok s U (curConstraints d) (nCurConstraints d)"
    "nPossibleConstraints d = nPossibleConstraints c"
    using U dc cur cur_ok_config[OF dc] b by (simp_all add: same_config_def branching_def)
  obtain n2 d2 where t: "TestConfiguration s me p d = Inr (n2, d2)" "same_config d2 d"
    "\<forall>k < nat n2. edge_ok s U (possibleConstraints d2 ! (nPossibleConstraints d + k))"
    using TestConfiguration_spec[OF wf Ud(1,2,3) p, of me] by blast
  have "int nE = n2" by (rule TestConfiguration_det[OF wf cur dc T t(1)])
  then show ?thesis using True t i Ud(4) by auto
next
  case False
  note W = branching_work[OF b]
  have "possibleConstraints d ! (nPossibleConstraints c + i) = possibleConstraints c1 ! (nPossibleConstraints c + i)"
  proof (cases saved)
    case True
    then have "take (nPossibleConstraints c + nE) (possibleConstraints d) = take (nPossibleConstraints c + nE) (possibleConstraints c1)"
      using d W(6) by (simp add: same_config_def)
    then show ?thesis using i by (metis add_less_cancel_left nth_take)
  qed (use False first in simp)
  then show ?thesis using False W(9)[OF i] by auto
qed

definition config_search :: "lock_space \<Rightarrow> procno set \<Rightarrow> procno \<Rightarrow> nat \<Rightarrow> dl_cxt \<Rightarrow> (dl_cxt \<Rightarrow> dl_fault + bool \<times> dl_cxt) \<Rightarrow> bool" where
  "config_search s U p n c check \<longleftrightarrow> (\<forall>d. MaxBackends d = MaxBackends c \<longrightarrow> work_ok d \<longrightarrow>
     cur_ok s U (curConstraints d) (nCurConstraints d) \<longrightarrow> nCurConstraints d = n \<longrightarrow> maxCurConstraints d = maxCurConstraints c \<longrightarrow>
     (\<exists>b c'. check d = Inr (b, c') \<and> (if b then same_config c' d else solved s p d c')))"

lemma try_constraint_spec:
  assumes wf: "table_wf tab pend s" and U: "lock_area s (MaxBackends c) U" and p: "leader_of s p \<in> U"
    and b: "branching s U me p c nE saved c1" and i: "i < nE" and d: "same_config d c1" and first: "i = 0 \<Longrightarrow> d = c1"
    and check: "config_search s U p (Suc (nCurConstraints c)) c check"
  shows "\<exists>b d'. try_constraint check s me p (nPossibleConstraints c) nE saved i d = Inr (b, d') \<and>
    (if b then solved s p c d' else same_config d' c1)"
proof -
  note W = branching_work[OF b]
  obtain d2 where d2: "(if \<not> saved \<and> i > 0
      then (case TestConfiguration s me p d of
              Inl e \<Rightarrow> Inl e
            | Inr (n, c) \<Rightarrow> if int nE \<noteq> n then Inl Fatal_inconsistent else Inr c)
      else Inr d) = Inr d2" "same_config d2 d" "edge_ok s U (possibleConstraints d2 ! (nPossibleConstraints c + i))"
    using edge_available[OF wf U p b i d first] by blast
  have sc: "same_config d2 c1" by (rule same_config_trans[OF d2(2) d])
  have ok2: "work_ok d2" "MaxBackends d2 = MaxBackends c" "nCurConstraints d2 = nCurConstraints c" "maxCurConstraints d2 = maxCurConstraints c"
    using sc W by (simp_all add: same_config_def)
  have cur2: "cur_ok s U (curConstraints d2) (nCurConstraints d2)" using W(5) cur_ok_config[OF sc] by simp
  have lt: "nCurConstraints d2 < maxCurConstraints d2" using W(7) ok2 by simp
  note push = push_constraint[OF ok2(1) cur2 lt d2(3)]
  define d3 where "d3 = d2\<lparr>curConstraints := (curConstraints d2)[nCurConstraints d2 := possibleConstraints d2 ! (nPossibleConstraints c + i)],
      nCurConstraints := nCurConstraints d2 + 1\<rparr>"
  have m3: "MaxBackends d3 = MaxBackends c" "maxCurConstraints d3 = maxCurConstraints c" "nCurConstraints d3 = Suc (nCurConstraints c)"
    using ok2 by (simp_all add: d3_def)
  obtain f d4 where r: "check d3 = Inr (f, d4)" "if f then same_config d4 d3 else solved s p d3 d4"
    using check push(1,2) m3 unfolding config_search_def d3_def[symmetric] by blast
  have "try_constraint check s me p (nPossibleConstraints c) nE saved i d =
      (if f then Inr (False, d4\<lparr>nCurConstraints := nCurConstraints d4 - 1\<rparr>) else Inr (True, d4))"
    unfolding try_constraint_def d2(1) using r(1) by (simp add: d3_def)
  moreover have "same_config (d4\<lparr>nCurConstraints := nCurConstraints d4 - 1\<rparr>) c1" if f
    using r(2) that push(3) same_config_trans[OF _ sc] by (simp add: d3_def)
  moreover have "solved s p c d4" if "\<not> f" using r(2) that m3(1) by (simp add: solved_def)
  ultimately show ?thesis by (cases f) auto
qed

lemma try_all_spec:
  assumes wf: "table_wf tab pend s" and U: "lock_area s (MaxBackends c) U" and p: "leader_of s p \<in> U"
    and b: "branching s U me p c nE saved c1" and check: "config_search s U p (Suc (nCurConstraints c)) c check"
  shows "\<exists>b d. try_each (try_constraint check s me p (nPossibleConstraints c) nE saved) [0..<nE] c1 = Inr (b, d) \<and>
    (if b then solved s p c d else same_config d c1)"
proof -
  have "\<exists>b d. try_each (try_constraint check s me p (nPossibleConstraints c) nE saved) [0..<nE] c1 = Inr (b, d) \<and>
      (if b then solved s p c d else same_config d c1 \<and> ([0..<nE] = [] \<longrightarrow> d = c1))"
  proof (rule try_each_rule[where I = "\<lambda>xs d. same_config d c1 \<and> (xs = [] \<longrightarrow> d = c1)"])
    fix xs i ys d
    assume x: "[0..<nE] = xs @ i # ys" and d: "same_config d c1 \<and> (xs = [] \<longrightarrow> d = c1)"
    have i: "i < nE" "i = 0 \<Longrightarrow> xs = []" using x by (auto simp: upt_eq_append_Cons)
    obtain f d' where "try_constraint check s me p (nPossibleConstraints c) nE saved i d = Inr (f, d')"
      "if f then solved s p c d' else same_config d' c1"
      using try_constraint_spec[OF wf U p b i(1) _ _ check, of d] d i(2) by blast
    then show "\<exists>f d'. try_constraint check s me p (nPossibleConstraints c) nE saved i d = Inr (f, d') \<and>
      (if f then solved s p c d' else same_config d' c1 \<and> (xs @ [i] = [] \<longrightarrow> d' = c1))" by auto
  qed simp
  then show ?thesis by metis
qed

text \<open>After all edges have been tried in vain, the configuration is as before.\<close>

lemma branching_restored:
  assumes b: "branching s U me p c nE saved c1" and d: "same_config d c1"
  shows "same_config (d\<lparr>nPossibleConstraints := nPossibleConstraints c\<rparr>) c"
proof -
  obtain c0 where c0: "same_config c0 c" "c1 = (if saved then c0\<lparr>nPossibleConstraints := nPossibleConstraints c + nE\<rparr> else c0)"
    using b unfolding branching_def by blast
  have old: "nPossibleConstraints c0 = nPossibleConstraints c" using c0(1) by (simp add: same_config_def)
  have "take (nPossibleConstraints c) (possibleConstraints d) = take (nPossibleConstraints c) (possibleConstraints c0)"
  proof (cases saved)
    case True
    then have "take (nPossibleConstraints c) (take (nPossibleConstraints c + nE) (possibleConstraints d)) =
        take (nPossibleConstraints c) (take (nPossibleConstraints c + nE) (possibleConstraints c0))"
      using d c0(2) by (simp add: same_config_def)
    then show ?thesis by simp
  qed (use d c0(2) old in \<open>simp add: same_config_def\<close>)
  moreover have "work_ok (d\<lparr>nPossibleConstraints := nPossibleConstraints c\<rparr>) = work_ok d"
    "work_ok c1 = work_ok c0" by (simp_all add: work_ok_def c0(2))
  ultimately have "same_config (d\<lparr>nPossibleConstraints := nPossibleConstraints c\<rparr>) c0"
    using d old unfolding same_config_def by (auto simp: c0(2) split: if_splits)
  then show ?thesis by (rule same_config_trans[OF _ c0(1)])
qed

lemma DeadLockCheckRecurse_spec:
  assumes wf: "table_wf tab pend s" and U: "lock_area s (MaxBackends c) U" and ok: "work_ok c"
    and cur: "cur_ok s U (curConstraints c) (nCurConstraints c)" and p: "leader_of s p \<in> U"
    and fuel: "maxCurConstraints c < fuel + nCurConstraints c"
  shows "\<exists>b c'. DeadLockCheckRecurse fuel s me p c = Inr (b, c') \<and> (if b then same_config c' c else solved s p c c') \<and>
    (b \<or> waitOrders c' \<noteq> [] \<longrightarrow> nCurConstraints c = 0 \<longrightarrow> nPossibleConstraints c + MaxBackends c \<le> maxPossibleConstraints c \<longrightarrow>
       on_cycle s [] p)"
  using U ok cur fuel
proof (induction fuel arbitrary: c)
  case 0
  then show ?case by (simp add: cur_ok_def work_ok_def)
next
  case (Suc fuel)
  note U = Suc.prems(1) and ok = Suc.prems(2) and cur = Suc.prems(3)
  obtain n c0 where T: "TestConfiguration s me p c = Inr (n, c0)" "same_config c0 c" "- 1 \<le> n" "n \<le> int (MaxBackends c)"
    "n > 0 \<longrightarrow> nPossibleConstraints c + MaxBackends c \<le> maxPossibleConstraints c"
    "\<forall>k < nat n. edge_ok s U (possibleConstraints c0 ! (nPossibleConstraints c + k))"
    "n = 0 \<longrightarrow> orders_ok s (waitOrders c0) \<and> \<not> on_cycle s (waitOrders c0) p"
    "n \<noteq> 0 \<longrightarrow> nCurConstraints c = 0 \<longrightarrow> nPossibleConstraints c + MaxBackends c \<le> maxPossibleConstraints c \<longrightarrow> on_cycle s [] p"
    "n = 0 \<longrightarrow> (waitOrders c0 = [] \<longleftrightarrow> nCurConstraints c = 0)"
    using TestConfiguration_spec[OF wf U ok cur p, of me] by (elim exE conjE) (rule that, assumption+)
  have C: "work_ok c0" "MaxBackends c0 = MaxBackends c" "nCurConstraints c0 = nCurConstraints c"
    "maxCurConstraints c0 = maxCurConstraints c" "nPossibleConstraints c0 = nPossibleConstraints c"
    using T(2) ok by (simp_all add: same_config_def)
  consider "n < 0 \<or> n > 0 \<and> nCurConstraints c0 \<ge> maxCurConstraints c0" | "n = 0" | "n > 0" "nCurConstraints c0 < maxCurConstraints c0"
    by linarith
  then show ?case
  proof cases
    case 1
    then have r: "DeadLockCheckRecurse (Suc fuel) s me p c = Inr (True, c0)" using T(1) by auto
    have "n \<noteq> 0" using 1 by auto
    then show ?thesis unfolding r using T(2,8) by (intro exI[of _ True] exI[of _ c0]) simp
  next
    case 2
    then have r: "DeadLockCheckRecurse (Suc fuel) s me p c = Inr (False, c0)" using T(1) by simp
    show ?thesis unfolding r using T(7,9) 2 C by (auto simp: solved_def)
  next
    case 3
    define nE where "nE = nat n"
    define saved where "saved = (nPossibleConstraints c0 + nE + MaxBackends c0 \<le> maxPossibleConstraints c0)"
    define c1 where "c1 = (if saved then c0\<lparr>nPossibleConstraints := nPossibleConstraints c0 + nE\<rparr> else c0)"
    have nE: "int nE = n" using 3(1) by (simp add: nE_def)
    have br: "branching s U me p c nE saved c1"
      using T(1,2,6) 3 C ok cur unfolding branching_def c1_def nE C(5) by (auto simp: nE_def)
    have "config_search s U p (Suc (nCurConstraints c)) c (DeadLockCheckRecurse fuel s me p)"
      unfolding config_search_def
    proof (intro allI impI)
      fix d
      assume d: "MaxBackends d = MaxBackends c" "work_ok d" "cur_ok s U (curConstraints d) (nCurConstraints d)"
        "nCurConstraints d = Suc (nCurConstraints c)" "maxCurConstraints d = maxCurConstraints c"
      have "lock_area s (MaxBackends d) U" "maxCurConstraints d < fuel + nCurConstraints d" using d U Suc.prems(4) by simp_all
      from Suc.IH[OF this(1) d(2,3) this(2)] show "\<exists>b c'. DeadLockCheckRecurse fuel s me p d = Inr (b, c') \<and> (if b then same_config c' d else solved s p d c')"
        by blast
    qed
    from try_all_spec[OF wf U p br this] obtain b d where r:
      "try_each (try_constraint (DeadLockCheckRecurse fuel s me p) s me p (nPossibleConstraints c) nE saved) [0..<nE] c1 = Inr (b, d)"
      "if b then solved s p c d else same_config d c1" by blast
    have "DeadLockCheckRecurse (Suc fuel) s me p c = (if b then Inr (False, d) else Inr (True, d\<lparr>nPossibleConstraints := nPossibleConstraints c\<rparr>))"
      using T(1) 3 r(1)[folded C(5)] unfolding C(5)[symmetric] c1_def saved_def nE_def by (simp add: Let_def)
    then show ?thesis using r(2) branching_restored[OF br] T(8) 3(1) by (cases b) auto
  qed
qed

end
