(* ===== verification/Lock_Frame.thy ===== *)
theory Lock_Frame
  imports Lock_Trace
begin

text \<open>
  What an operation on one lock does not touch: the other lock objects and the lock groups. It follows that
  in every reachable state the member lists of the groups are exact and every lock has a known method.
\<close>

section \<open>Operations on one lock\<close>

definition same_groups :: "lock_space \<Rightarrow> lock_space \<Rightarrow> bool" where
  "same_groups s' s \<longleftrightarrow> (\<forall>p. lockGroupLeader (procs s' p) = lockGroupLeader (procs s p) \<and>
     lockGroupMembers (procs s' p) = lockGroupMembers (procs s p))"

text \<open>Only lock \<open>t\<close> differs from \<open>s0\<close>, and the processes in its queue wait for it.\<close>

definition confined :: "LOCKTAG \<Rightarrow> lock_space \<Rightarrow> lock_space \<Rightarrow> bool" where
  "confined t s0 s \<longleftrightarrow> (\<forall>t'. t' \<noteq> t \<longrightarrow> LockHash s t' = LockHash s0 t') \<and> same_groups s s0 \<and>
     (\<forall>p \<in> set (queue s t). waitLock (procs s p) = Some t)"

named_theorems confined_intros

lemma same_groups_refl [simp]: "same_groups s s"
  by (simp add: same_groups_def)

lemma same_groups_core: "same_core s' s \<Longrightarrow> same_groups s' s"
  by (auto simp: same_groups_def same_core_def core_proc_def)

lemma confined_start:
  assumes "table_wf tab pend s"
  shows "confined t s s"
  using table_wfD(5)[OF assms] by (auto simp: confined_def on_queue_def)

lemma confined_core: "same_core s' s \<Longrightarrow> confined t s0 s \<Longrightarrow> confined t s0 s'"
  using same_groups_core[of s' s] same_coreD[of s' s] same_core_views(1)[of s' s]
  by (auto simp: confined_def same_groups_def)

lemma confined_set_lock [confined_intros]:
  assumes "confined t s0 s" "set (waitProcs l) \<subseteq> set (queue s t)"
  shows "confined t s0 (set_lock t l s)"
proof -
  have "queue (set_lock t l s) t = waitProcs l" by (simp add: queue_def set_lock_def)
  then show ?thesis using assms by (auto simp: confined_def set_lock_def same_groups_def)
qed

lemma confined_set_proclock [confined_intros]: "confined t s0 s \<Longrightarrow> confined t s0 (set_proclock k pl s)"
  by (simp add: confined_def set_proclock_def queue_def same_groups_def)

lemma confined_proclocks [confined_intros]: "confined t s0 s \<Longrightarrow> confined t s0 (s\<lparr>ProcLockHash := h\<rparr>)"
  by (simp add: confined_def queue_def same_groups_def)

lemma confined_drop_lock [confined_intros]: "confined t s0 s \<Longrightarrow> confined t s0 (s\<lparr>LockHash := (LockHash s)(t := None)\<rparr>)"
  by (simp add: confined_def queue_def same_groups_def)

text \<open>A change of a process that is in the queue of \<open>t\<close> keeps what it waits for.\<close>

lemma confined_upd_proc [confined_intros]:
  assumes "confined t s0 s" "lockGroupLeader (f (procs s p)) = lockGroupLeader (procs s p)"
    "lockGroupMembers (f (procs s p)) = lockGroupMembers (procs s p)"
    "p \<in> set (queue s t) \<Longrightarrow> waitLock (f (procs s p)) = Some t"
  shows "confined t s0 (upd_proc p f s)"
  using assms by (auto simp: confined_def upd_proc_def queue_def same_groups_def)

lemma queue_lock_at: "LockHash s t \<noteq> None \<Longrightarrow> queue s t = waitProcs (lock_at s t)"
  by (auto simp: queue_def)

lemma confined_GrantLock:
  assumes "confined t s0 s" "LockHash s t \<noteq> None"
  shows "confined t s0 (GrantLock t p m s)"
  using assms queue_lock_at[OF assms(2)] unfolding GrantLock_def Let_def
  by (intro confined_intros) (auto simp: grant_counts_def Let_def)

lemma confined_UnGrantLock:
  assumes "confined t s0 s" "LockHash s t \<noteq> None"
  shows "confined t s0 (snd (UnGrantLock tab t m p s))"
  using assms queue_lock_at[OF assms(2)] unfolding UnGrantLock_def Let_def
  by (simp, intro confined_intros) (auto simp: ungrant_counts_def unrequest_counts_def Let_def)

lemma confined_delete_proclock:
  assumes "confined t s0 s" "LockHash s t \<noteq> None"
  shows "confined t s0 (delete_proclock t p s)"
proof -
  define s1 where "s1 = set_lock t ((lock_at s t)\<lparr>procLocks := removeAll p (procLocks (lock_at s t))\<rparr>) s"
  have "confined t s0 s1" unfolding s1_def using assms queue_lock_at[OF assms(2)] by (intro confined_intros) auto
  moreover have "p \<in> set (queue s1 t) \<Longrightarrow> waitLock (procs s1 p) = Some t" for p
    using calculation by (simp add: confined_def)
  ultimately show ?thesis
    unfolding delete_proclock_def Let_def s1_def[symmetric] by (intro confined_intros) auto
qed

lemma confined_ProcWakeup:
  assumes "confined t s0 s" "LockHash s t \<noteq> None" "links (procs s p) \<Longrightarrow> waitLock (procs s p) = Some t"
  shows "confined t s0 (ProcWakeup p st s)"
proof (cases "links (procs s p)")
  case True
  define s1 where "s1 = set_lock t ((lock_at s t)\<lparr>waitProcs := removeAll p (waitProcs (lock_at s t))\<rparr>) s"
  have "confined t s0 s1" unfolding s1_def using assms queue_lock_at[OF assms(2)] by (intro confined_intros) auto
  moreover have "p \<notin> set (queue s1 t)" by (simp add: s1_def queue_def)
  ultimately have "confined t s0 (upd_proc p (\<lambda>p. p\<lparr>links := False, waitLock := None, waitProcLock := None, waitStatus := st\<rparr>) s1)"
    by (intro confined_intros) auto
  then show ?thesis using True assms(3) by (simp add: ProcWakeup_def Let_def s1_def)
qed (use assms in \<open>simp add: ProcWakeup_def\<close>)

text \<open>The scan of a queue: who is still linked waits for this lock.\<close>

definition scanning :: "LOCKTAG \<Rightarrow> lock_space \<Rightarrow> procno list \<Rightarrow> lock_space \<Rightarrow> bool" where
  "scanning t s0 ps s \<longleftrightarrow> confined t s0 s \<and> LockHash s t \<noteq> None \<and>
     (\<forall>p \<in> set ps. links (procs s p) \<longrightarrow> waitLock (procs s p) = Some t)"

lemma scanning_core: "same_core s' s \<Longrightarrow> scanning t s0 ps s \<Longrightarrow> scanning t s0 ps s'"
  using confined_core[of s' s] by (auto simp: scanning_def same_coreD)

lemma scanning_wake:
  assumes "scanning t s0 (p # ps) s"
  shows "scanning t s0 ps (ProcWakeup p st (GrantLock t p m s))"
proof -
  define s1 where "s1 = GrantLock t p m s"
  have s1: "confined t s0 s1" "LockHash s1 t \<noteq> None" "procs s1 = procs s"
    using assms confined_GrantLock by (auto simp: s1_def scanning_def GrantLock_def Let_def set_lock_def set_proclock_def)
  then have "confined t s0 (ProcWakeup p st s1)" using assms by (intro confined_ProcWakeup) (auto simp: scanning_def)
  moreover have "LockHash (ProcWakeup p st s1) t \<noteq> None"
    using s1(2) by (auto simp: ProcWakeup_def Let_def set_lock_def upd_proc_def)
  moreover have "links (procs (ProcWakeup p st s1) q) \<longrightarrow> links (procs s q) \<and> waitLock (procs (ProcWakeup p st s1) q) = waitLock (procs s q)" for q
    using s1(3) by (auto simp: ProcWakeup_def Let_def set_lock_def upd_proc_def)
  ultimately show ?thesis using assms by (auto simp: scanning_def s1_def)
qed

lemma scanning_step:
  assumes "scanning t s0 (p # ps) s"
  shows "scanning t s0 ps (snd (wakeup_step se tab t pl p (ahead, s)))"
proof -
  have tl: "scanning t s0 (p # ps) s' \<Longrightarrow> scanning t s0 ps s'" for s' by (auto simp: scanning_def)
  obtain st s1 where c: "LockCheckConflicts se tab (waitLockMode (procs s p)) t p s = (st, s1)" by fastforce
  have "scanning t s0 (p # ps) s1" by (rule scanning_core[OF LockCheckConflicts_core[OF c] assms])
  moreover have "scanning t s0 (p # ps) (refresh_blocker tab t pl p s)" by (rule scanning_core[OF refresh_blocker_core assms])
  ultimately show ?thesis using scanning_wake tl c by (auto simp: wakeup_step_def Let_def)
qed

lemma confined_ProcLockWakeup:
  assumes "confined t s0 s" "LockHash s t \<noteq> None"
  shows "confined t s0 (ProcLockWakeup se tab t pl s)"
proof -
  have "scanning t s0 [] (snd (fold (wakeup_step se tab t pl) ps a))" if "scanning t s0 ps (snd a)" for ps a
    using that
  proof (induction ps arbitrary: a)
    case (Cons p ps)
    then show ?case using scanning_step[of t s0 p ps "snd a" se tab pl "fst a"] by simp
  qed simp
  moreover have "scanning t s0 (waitProcs (lock_at s t)) s"
    using assms queue_lock_at[OF assms(2)] by (auto simp: scanning_def confined_def)
  ultimately show ?thesis by (fastforce simp: ProcLockWakeup_def scanning_def)
qed

lemma confined_CleanUpLock:
  assumes "confined t s0 s" "LockHash s t \<noteq> None"
  shows "confined t s0 (CleanUpLock se tab t p wk s)"
proof -
  define s1 where "s1 = (if holdMask (proclock_at s (t, p)) = 0 then delete_proclock t p s else s)"
  have "LockHash (delete_proclock t p s) t \<noteq> None" by (simp add: delete_proclock_def Let_def set_lock_def upd_proc_def)
  then have "confined t s0 s1" "LockHash s1 t \<noteq> None"
    using assms confined_delete_proclock[OF assms] by (simp_all add: s1_def)
  then show ?thesis
    unfolding CleanUpLock_def Let_def s1_def[symmetric] by (auto intro: confined_drop_lock confined_ProcLockWakeup)
qed

text \<open>Leaving the queue, releasing, and going to sleep.\<close>

lemma confined_RemoveFromWaitQueue:
  assumes "confined t s0 s" "p \<in> set (queue s t)"
  shows "confined t s0 (RemoveFromWaitQueue se p s)"
proof -
  have l: "LockHash s t \<noteq> None" using assms(2) by (cases "LockHash s t") (auto simp: queue_def)
  have w: "waitLock (procs s p) = Some t" using assms by (simp add: confined_def)
  define l1 where "l1 = unrequest_counts (waitLockMode (procs s p)) ((lock_at s t)\<lparr>waitProcs := removeAll p (waitProcs (lock_at s t))\<rparr>)"
  define l2 where "l2 = (if granted l1 ! waitLockMode (procs s p) = requested l1 ! waitLockMode (procs s p)
     then l1\<lparr>waitMask := waitMask l1 AND LOCKBIT_OFF (waitLockMode (procs s p))\<rparr> else l1)"
  have q: "waitProcs l2 = removeAll p (queue s t)" using queue_lock_at[OF l] by (simp add: l2_def l1_def unrequest_counts_def)
  have "confined t s0 (set_lock t l2 s)" using assms(1) q by (intro confined_intros) auto
  moreover have "p \<notin> set (queue (set_lock t l2 s) t)" using q by (simp add: set_lock_def queue_def)
  ultimately have c2: "confined t s0 (upd_proc p (\<lambda>q. q\<lparr>links := False, waitLock := None, waitProcLock := None,
      waitStatus := STATUS_ERROR\<rparr>) (set_lock t l2 s))" by (intro confined_upd_proc) auto
  moreover have "leave_queue p s = upd_proc p (\<lambda>q. q\<lparr>links := False, waitLock := None, waitProcLock := None,
      waitStatus := STATUS_ERROR\<rparr>) (set_lock t l2 s)"
    using w unfolding leave_queue_def Let_def l2_def l1_def by (simp only: option.sel)
  ultimately have "confined t s0 (leave_queue p s)" using c2 by simp
  moreover have "LockHash (leave_queue p s) t \<noteq> None" using w by (simp add: leave_queue_def Let_def set_lock_def upd_proc_def)
  ultimately show ?thesis using w by (simp add: RemoveFromWaitQueue_def confined_CleanUpLock)
qed

lemma confined_release:
  assumes "confined t s0 s" "LockRefindAndRelease se tab p t m s = (res, s')"
  shows "confined t s0 s'"
proof (cases "LockHash s t")
  case (Some l)
  obtain wk s1 where u: "UnGrantLock tab t m p s = (wk, s1)" by fastforce
  have "confined t s0 s1" using confined_UnGrantLock[OF assms(1), of tab m p] Some u by simp
  moreover have "LockHash s1 t \<noteq> None" using u by (auto simp: UnGrantLock_def Let_def set_lock_def set_proclock_def)
  ultimately show ?thesis
    using assms u Some by (auto simp: LockRefindAndRelease_def confined_CleanUpLock split: option.splits if_splits)
qed (use assms in \<open>simp add: LockRefindAndRelease_def\<close>)

lemma confined_ungrant_mask:
  assumes "confined t s0 s" "LockHash s t \<noteq> None"
  shows "confined t s0 (snd (ungrant_mask tab t p msk s)) \<and> LockHash (snd (ungrant_mask tab t p msk s)) t \<noteq> None"
proof -
  let ?f = "\<lambda>i (wakeupNeeded, s). if msk AND LOCKBIT_ON i \<noteq> 0
        then (case UnGrantLock tab t i p s of (wk, s) \<Rightarrow> (wakeupNeeded \<or> wk, s)) else (wakeupNeeded, s)"
  have "confined t s0 (snd (fold ?f xs (w, s))) \<and> LockHash (snd (fold ?f xs (w, s))) t \<noteq> None" for xs w
    using assms
  proof (induction xs arbitrary: w s)
    case (Cons x xs)
    obtain w' s1 where u: "UnGrantLock tab t x p s = (w', s1)" by force
    have "confined t s0 s1" using confined_UnGrantLock[OF Cons.prems, of tab x p] u by simp
    moreover have "LockHash s1 t \<noteq> None" using u by (auto simp: UnGrantLock_def Let_def set_lock_def set_proclock_def)
    ultimately show ?case using Cons u by simp
  qed simp
  then show ?thesis by (simp add: ungrant_mask_def)
qed

lemma confined_release_proclock:
  assumes "confined t s0 s" "LockHash s t \<noteq> None" "release_proclock se lockmethodid allLocks t s = Inr s'"
  shows "confined t s0 s'"
proof -
  let ?p = "my_proc se" and ?tab = "GetLocksMethodTable t"
  have c: "confined t s0 (set_proclock (t, ?p) pl s)" "LockHash (set_proclock (t, ?p) pl s) t \<noteq> None" for pl
    using confined_set_proclock[OF assms(1)] assms(2) by (blast, simp add: set_proclock_def)
  have "confined t s0 (CleanUpLock se ?tab t ?p wk (set_proclock (t, ?p) pl' s1))"
    if "ungrant_mask ?tab t ?p msk (set_proclock (t, ?p) pl s) = (wk, s1)" for msk pl wk s1 pl'
    using confined_ungrant_mask[OF c, of ?tab ?p msk pl] that
    by (intro confined_CleanUpLock confined_set_proclock) (auto simp: set_proclock_def)
  then show ?thesis
    using assms(1,3) c unfolding release_proclock_def Let_def by (auto split: if_splits prod.splits)
qed

lemma sleep_scan_core:
  "sleep_scan se tab t m held ps i ahead s = (res, s') \<Longrightarrow> same_core s' s"
proof (induction ps arbitrary: i ahead)
  case (Cons q ps)
  have r: "same_core (RememberSimpleDeadLock se (my_proc se) m t q s) s"
    unfolding RememberSimpleDeadLock_def by (rule same_core_upd_proc) (simp add: core_proc_def)
  show ?case using Cons.prems Cons.IH r
    by (auto simp: Let_def split: if_splits prod.splits dest: LockCheckConflicts_core)
qed simp

lemma confined_sleep_enqueue:
  assumes "confined t s0 s" "LockHash s t \<noteq> None"
  shows "confined t s0 (sleep_enqueue p t m i s)" "p \<in> set (queue (sleep_enqueue p t m i s) t)"
proof -
  have q: "queue (sleep_enqueue p t m i s) t = take i (queue s t) @ p # drop i (queue s t)"
    using queue_lock_at[OF assms(2)] by (simp add: sleep_enqueue_def Let_def set_lock_def upd_proc_def queue_def)
  have "set (take i (queue s t)) \<union> set (drop i (queue s t)) = set (queue s t)"
    by (metis append_take_drop_id set_append)
  then show "confined t s0 (sleep_enqueue p t m i s)"
    using assms(1) unfolding confined_def q
    by (auto simp: sleep_enqueue_def Let_def set_lock_def upd_proc_def same_groups_def)
  show "p \<in> set (queue (sleep_enqueue p t m i s) t)" by (simp add: q)
qed

lemma confined_ProcSleep:
  assumes c: "confined t s0 s" and l: "LockHash s t \<noteq> None" and r: "ProcSleep se tab t m s = (res, s')"
  shows "confined t s0 s'"
proof -
  define me where "me = my_proc se"
  obtain pl s1 where sc: "(if group_held_locks se t s \<noteq> 0
      then sleep_scan se tab t m (group_held_locks se t s) (waitProcs (lock_at s t)) 0 0 s
      else (Insert_at (length (waitProcs (lock_at s t))) False, s)) = (pl, s1)" by fastforce
  have "same_core s1 s" using sc sleep_scan_core by (auto split: if_splits)
  then have s1: "confined t s0 s1" "LockHash s1 t \<noteq> None" using confined_core[OF _ c] l by (auto simp: same_coreD)
  obtain st s2 where ch: "(if StreamTopConsumerAmI se \<or> StreamThreadAmI se then LockCheckConflicts se tab m t me s1
      else (STATUS_FOUND, s1)) = (st, s2)" by fastforce
  have "same_core s2 s1" using ch LockCheckConflicts_core by (auto split: if_splits)
  then have s2: "confined t s0 s2" "LockHash s2 t \<noteq> None" using confined_core[OF _ s1(1)] s1(2) by (auto simp: same_coreD)
  note en = confined_sleep_enqueue[OF s2]
  note rm = confined_RemoveFromWaitQueue[OF en]
  show ?thesis using r s1 s2 en rm confined_GrantLock ch
    unfolding ProcSleep_def Let_def sc me_def[symmetric]
    by (cases pl) (auto split: if_splits)
qed

lemma confined_SetupLockInTable:
  assumes c: "confined t s0 s" and r: "SetupLockInTable room p t i m s = (out, s')"
  shows "confined t s0 s'" "out \<noteq> No_memory \<Longrightarrow> LockHash s' t \<noteq> None"
proof -
  define s1 where "s1 = (if LockHash s t = None then set_lock t new_lock s else s)"
  have s1: "confined t s0 s1" "LockHash s1 t \<noteq> None"
    using c by (auto simp: s1_def new_lock_def set_lock_def intro!: confined_intros[unfolded set_lock_def])
  define s2 where "s2 = (if ProcLockHash s1 (t, p) = None then new_proclock t p i s1 else s1)"
  have "confined t s0 (new_proclock t p i s1)"
  proof -
    define a where "a = set_proclock (t, p) \<lparr>groupLeader = leader_of s1 p, holdMask = 0, releaseMask = 0\<rparr> s1"
    define b where "b = set_lock t ((lock_at s1 t)\<lparr>procLocks := procLocks (lock_at s1 t) @ [p]\<rparr>) a"
    have a: "confined t s0 a" unfolding a_def using s1(1) by (rule confined_set_proclock)
    have "queue a t = waitProcs (lock_at s1 t)" using queue_lock_at[OF s1(2)] by (simp add: a_def queue_def set_proclock_def)
    then have b: "confined t s0 b" unfolding b_def using a by (intro confined_intros) auto
    then have "p \<in> set (queue b t) \<Longrightarrow> waitLock (procs b p) = Some t" by (simp add: confined_def)
    then show ?thesis using b unfolding new_proclock_def Let_def a_def[symmetric] b_def[symmetric]
      by (intro confined_intros) auto
  qed
  then have s2: "confined t s0 s2" "LockHash s2 t \<noteq> None"
    using s1 by (auto simp: s2_def new_proclock_def Let_def set_lock_def set_proclock_def upd_proc_def)
  have s3: "confined t s0 (set_lock t (request_counts m (lock_at s2 t)) s2)"
    using s2 queue_lock_at[OF s2(2)] by (intro confined_intros) (auto simp: request_counts_def)
  show "confined t s0 s'" "out \<noteq> No_memory \<Longrightarrow> LockHash s' t \<noteq> None"
    using r s3 c s1 confined_drop_lock[OF s1(1)]
    unfolding SetupLockInTable_def Let_def s1_def[symmetric] s2_def[symmetric]
    by (auto split: if_splits simp: set_lock_def)
qed

lemma confined_acquire_wait:
  assumes c: "confined t s0 s" and l: "LockHash s t \<noteq> None" and r: "acquire_wait se tab t m status s = (res, s')"
  shows "confined t s0 s'"
proof -
  define s1 where "s1 = (if status = STATUS_FOUND_NEED_CANCEL
     then upd_proc (my_proc se) (\<lambda>p. p\<lparr>blocking_redistribution_proc := None, redistribution_cancelable := False\<rparr>) s else s)"
  define s2 where "s2 = upd_proc (my_proc se) (\<lambda>p. p\<lparr>heldLocks := holdMask (proclock_at s1 (t, my_proc se))\<rparr>) s1"
  have "same_core s1 s" using dm.same_core_wait_upd by (simp add: s1_def)
  moreover have "same_core s2 s1" unfolding s2_def by (rule dm.same_core_wait_upd)
  ultimately have "same_core s2 s" using same_core_trans by blast
  then have s2: "confined t s0 s2" "LockHash s2 t \<noteq> None" using confined_core[OF _ c] l by (auto simp: same_coreD)
  obtain out s3 where p: "ProcSleep se tab t m s2 = (out, s3)" by fastforce
  have "s' = s3" using r unfolding acquire_wait_def Let_def s1_def[symmetric] s2_def[symmetric] p
    by (auto split: sum.splits if_splits)
  then show ?thesis using confined_ProcSleep[OF s2 p] by simp
qed

lemma confined_undo_request:
  assumes "confined t s0 s" "LockHash s t \<noteq> None"
  shows "confined t s0 (undo_request t p m s)"
proof -
  define s1 where "s1 = (if holdMask (proclock_at s (t, p)) = 0 then delete_proclock t p s else s)"
  have "LockHash (delete_proclock t p s) t \<noteq> None" by (simp add: delete_proclock_def Let_def set_lock_def upd_proc_def)
  then have s1: "confined t s0 s1" "LockHash s1 t \<noteq> None"
    using assms confined_delete_proclock[OF assms] by (simp_all add: s1_def)
  show ?thesis unfolding undo_request_def Let_def s1_def[symmetric]
    using s1 queue_lock_at[OF s1(2)] by (intro confined_intros) (auto simp: unrequest_counts_def)
qed

lemma confined_acquire:
  assumes c: "confined t s0 s" and r: "LockAcquire_shared se tab room t i m dontWait rep s = (res, s')"
  shows "confined t s0 s'"
proof -
  obtain out s1 where su: "SetupLockInTable room (my_proc se) t i m s = (out, s1)" by fastforce
  note S = confined_SetupLockInTable[OF c su]
  obtain st s2 where ch: "(if conflictTab tab ! m AND waitMask (lock_at s1 t) \<noteq> 0 then note_waiter se tab t m s1
      else LockCheckConflicts se tab m t (my_proc se) s1) = (st, s2)" by fastforce
  show ?thesis
  proof (cases "out = Setup")
    case True
    have "same_core s2 s1" using ch note_waiter_core LockCheckConflicts_core by (auto split: if_splits)
    then have s2: "confined t s0 s2" "LockHash s2 t \<noteq> None"
      using confined_core[OF _ S(1)] S(2) True by (auto simp: same_coreD)
    show ?thesis
      using r True ch confined_GrantLock[OF s2] confined_undo_request[OF s2] confined_acquire_wait[OF s2]
      unfolding LockAcquire_shared_def Let_def su by (auto split: if_splits)
  next
    case False
    then have "s' = s1" using r su by (cases out) (auto simp: LockAcquire_shared_def Let_def)
    then show ?thesis using S(1) by simp
  qed
qed

lemma confined_apply_wait_order:
  assumes c: "confined t s0 s" and l: "LockHash s t \<noteq> None" and ps: "set ps \<subseteq> set (queue s t)"
  shows "confined t s0 (apply_wait_order se (t, ps) s)"
proof -
  define link1 where "link1 = (\<lambda>p s. upd_proc p (\<lambda>q. q\<lparr>links := True\<rparr>)
      (set_lock t ((lock_at s t)\<lparr>waitProcs := waitProcs (lock_at s t) @ [p]\<rparr>) s))"
  have link: "confined t s0 (fold link1 qs a) \<and> LockHash (fold link1 qs a) t \<noteq> None"
    if "confined t s0 a" "LockHash a t \<noteq> None" "\<forall>p \<in> set qs. waitLock (procs a p) = Some t" for qs a
    using that
  proof (induction qs arbitrary: a)
    case (Cons p qs)
    have q: "queue (link1 p a) t = queue a t @ [p]" using queue_lock_at[OF Cons.prems(2)] by (simp add: link1_def queue_def set_lock_def upd_proc_def)
    have w: "waitLock (procs (link1 p a) r) = waitLock (procs a r)" for r by (simp add: link1_def set_lock_def upd_proc_def)
    have "confined t s0 (link1 p a)"
      using Cons.prems unfolding confined_def q w by (auto simp: link1_def set_lock_def upd_proc_def same_groups_def)
    moreover have "LockHash (link1 p a) t \<noteq> None" by (simp add: link1_def set_lock_def upd_proc_def)
    ultimately have "confined t s0 (fold link1 qs (link1 p a)) \<and> LockHash (fold link1 qs (link1 p a)) t \<noteq> None"
      using Cons.prems(3) by (intro Cons.IH) (simp_all add: w)
    then show ?case by simp
  qed simp
  define s1 where "s1 = set_lock t ((lock_at s t)\<lparr>waitProcs := []\<rparr>) s"
  have "confined t s0 s1" unfolding s1_def using c by (intro confined_intros) auto
  moreover have "\<forall>p \<in> set ps. waitLock (procs s1 p) = Some t" using c ps by (auto simp: s1_def set_lock_def confined_def)
  moreover have "LockHash s1 t \<noteq> None" by (simp add: s1_def set_lock_def)
  ultimately have "confined t s0 (fold link1 ps s1) \<and> LockHash (fold link1 ps s1) t \<noteq> None" by (intro link)
  then show ?thesis
    unfolding link1_def s1_def by (simp add: apply_wait_order_def Let_def confined_ProcLockWakeup)
qed

section \<open>Groups and lock methods in every history\<close>

definition members_wf :: "lock_space \<Rightarrow> bool" where
  "members_wf s \<longleftrightarrow> (\<forall>p l. p \<in> set (lockGroupMembers (procs s l)) \<longleftrightarrow> lockGroupLeader (procs s p) = Some l)"

definition known_locks :: "lock_space \<Rightarrow> bool" where
  "known_locks s \<longleftrightarrow> (\<forall>t. LockHash s t \<noteq> None \<longrightarrow> known_method t)"

lemma confined_frame:
  assumes "confined t s s'" "known_method t" "members_wf s" "known_locks s"
  shows "members_wf s' \<and> known_locks s'"
proof -
  have "known_method t'" if "LockHash s' t' \<noteq> None" for t'
    using assms that unfolding confined_def known_locks_def by (cases "t' = t") auto
  moreover have "members_wf s'" using assms by (auto simp: confined_def same_groups_def members_wf_def)
  ultimately show ?thesis by (simp add: known_locks_def)
qed

lemma lock_step_frame:
  assumes "lock_step R s s'" "table_wf default_lockmethod None s" "members_wf s" "known_locks s"
  shows "members_wf s' \<and> known_locks s'"
  using assms
proof (induction rule: lock_step.induct)
  case (acquire se s t m room i dontWait reportMemoryError res s')
  then show ?case using confined_frame confined_acquire[OF confined_start] by blast
next
  case (release se s t p m res s')
  then show ?case using confined_frame confined_release[OF confined_start] by blast
next
  case (mark_release s t p pl msk)
  then show ?case by (simp add: members_wf_def known_locks_def set_proclock_def)
next
  case (release_all se s t pl lockmethodid allLocks s')
  have "LockHash s t \<noteq> None" using table_wfD(3)[OF release_all(6,4)] by auto
  then show ?case
    using confined_frame confined_release_proclock[OF confined_start[OF release_all(6)]] release_all by blast
next
  case (give_up se s t p)
  then show ?case using confined_frame confined_RemoveFromWaitQueue[OF confined_start] by blast
next
  case (rearrange se s t ps)
  have l: "LockHash s t \<noteq> None" using rearrange(3) by (cases "LockHash s t") (auto simp: queue_def)
  have ps: "set ps \<subseteq> set (queue s t)" using rearrange(4) by (auto dest: mset_eq_setD)
  show ?case using confined_apply_wait_order[OF confined_start[OF rearrange(5)] l ps] rearrange confined_frame by blast
next
  case (remark s p d r)
  then show ?case by (simp add: members_wf_def known_locks_def upd_proc_def)
next
  case (found_group s se)
  then show ?case
    by (auto simp: members_wf_def known_locks_def BecomeLockGroupLeader_def Let_def upd_proc_def)
next
  case (join_group s se leader)
  then show ?case
    by (auto simp: members_wf_def known_locks_def BecomeLockGroupMember_def Let_def upd_proc_def)
qed

lemma lock_reach_frame:
  assumes "lock_reach R s"
  shows "members_wf s" "known_locks s"
proof -
  have "members_wf s \<and> known_locks s"
    using assms
  proof (induction rule: lock_reach.induct)
    case (start pids flags)
    then show ?case by (simp add: members_wf_def known_locks_def lock_space_init_def)
  next
    case (step s s')
    then show ?case using lock_step_frame lock_invD(1)[OF lock_reach_inv] by blast
  qed
  then show "members_wf s" "known_locks s" by simp_all
qed

end
