(* ===== verification/Deadlock_Graph.thy ===== *)
theory Deadlock_Graph
  imports Deadlock_Config Lock_Frame
begin

text \<open>
  The waits-for graph of the lock table, defined from who holds what and who waits where, independently of
  the detector. In every reachable state the detector searches exactly this graph; and when it rearranges queues,
  the state it leaves, after waking those who can run, has no edges that the detector did not consider.
\<close>

section \<open>The graph\<close>

definition ahead :: "procno list \<Rightarrow> procno \<Rightarrow> procno \<Rightarrow> bool" where
  "ahead xs q p \<longleftrightarrow> (\<exists>as bs cs. xs = as @ q # bs @ p # cs)"

text \<open>A process that holds a conflicting lock blocks a waiter.\<close>

definition hard_wait :: "lock_space \<Rightarrow> procno \<Rightarrow> procno \<Rightarrow> bool" where
  "hard_wait s p q \<longleftrightarrow> (\<exists>t n. p \<in> set (queue s t) \<and> holds s t q n \<and> conflicts default_lockmethod (want_of s p) n)"

text \<open>
  A process with a conflicting request blocks a waiter if it is ahead of a member of the waiter's group
  in the queue.
\<close>

definition soft_wait :: "lock_space \<Rightarrow> procno \<Rightarrow> procno \<Rightarrow> bool" where
  "soft_wait s p q \<longleftrightarrow> (\<exists>t p'. p \<in> set (queue s t) \<and> leader_of s p' = leader_of s p \<and> ahead (queue s t) q p' \<and>
     conflicts default_lockmethod (want_of s p) (want_of s q))"

text \<open>The nodes are lock groups, named by their leaders.\<close>

definition group_waits :: "lock_space \<Rightarrow> procno \<Rightarrow> procno \<Rightarrow> bool" where
  "group_waits s u v \<longleftrightarrow> u \<noteq> v \<and>
     (\<exists>p q. leader_of s p = u \<and> leader_of s q = v \<and> (hard_wait s p q \<or> soft_wait s p q))"

definition deadlocked :: "lock_space \<Rightarrow> procno \<Rightarrow> bool" where
  "deadlocked s p \<longleftrightarrow> (group_waits s)\<^sup>+\<^sup>+ (leader_of s p) (leader_of s p)"

lemma ahead_set: "ahead xs q p \<Longrightarrow> q \<in> set xs \<and> p \<in> set xs"
  by (auto simp: ahead_def)

lemma ahead_filter: "ahead (filter K xs) q p \<Longrightarrow> ahead xs q p"
proof -
  assume "ahead (filter K xs) q p"
  then obtain as bs cs where "filter K xs = as @ q # bs @ p # cs" by (auto simp: ahead_def)
  then show "ahead xs q p"
  proof (induction xs arbitrary: as)
    case (Cons x xs)
    show ?case
    proof (cases "K x \<and> as = []")
      case True
      then have "filter K xs = bs @ p # cs" "x = q" using Cons.prems by auto
      then have "p \<in> set xs" by (metis filter_is_subset in_set_conv_decomp subsetD)
      then obtain us vs where "xs = us @ p # vs" by (auto simp: in_set_conv_decomp)
      then have "x # xs = [] @ q # us @ p # vs" using \<open>x = q\<close> by simp
      then show ?thesis unfolding ahead_def by blast
    next
      case False
      then obtain as' where "filter K xs = as' @ q # bs @ p # cs"
        using Cons.prems by (cases as) (auto split: if_splits)
      from Cons.IH[OF this] obtain us vs ws where "xs = us @ q # vs @ p # ws" by (auto simp: ahead_def)
      then have "x # xs = (x # us) @ q # vs @ p # ws" by simp
      then show ?thesis unfolding ahead_def by blast
    qed
  qed simp
qed

lemma ahead_takeWhile:
  assumes "distinct xs" "m \<in> set xs"
  shows "q \<in> set (takeWhile (\<lambda>x. x \<noteq> m) xs) \<longleftrightarrow> ahead xs q m"
proof -
  obtain as cs where x: "xs = as @ m # cs" using assms(2) by (auto simp: in_set_conv_decomp)
  have na: "m \<notin> set as" "m \<notin> set cs" using assms(1) x by auto
  have "set (takeWhile (\<lambda>x. x \<noteq> m) xs) = set as" using na unfolding x by (subst takeWhile_append2) auto
  moreover have "q \<in> set as \<longleftrightarrow> ahead xs q m"
  proof
    assume "q \<in> set as"
    then obtain us vs where "as = us @ q # vs" by (auto simp: in_set_conv_decomp)
    then show "ahead xs q m" unfolding ahead_def x by (intro exI[of _ us] exI[of _ vs] exI[of _ cs]) simp
  next
    assume "ahead xs q m"
    then obtain us vs ws where e: "xs = (us @ q # vs) @ m # ws" by (auto simp: ahead_def)
    have "as = us @ q # vs"
      using e assms(1) na unfolding x by (metis append_Cons_eq_iff distinct.simps(2) distinct_append in_set_conv_decomp not_distinct_conv_prefix)
    then show "q \<in> set as" by simp
  qed
  ultimately show ?thesis by simp
qed

lemma ahead_trans:
  assumes "distinct xs" "ahead xs q p" "ahead xs p m"
  shows "ahead xs q m"
proof -
  obtain as bs cs where a: "xs = (as @ q # bs) @ p # cs" using assms(2) by (auto simp: ahead_def)
  obtain us vs ws where b: "xs = us @ p # vs @ m # ws" using assms(3) by (auto simp: ahead_def)
  have up_to_p: "takeWhile (\<lambda>x. x \<noteq> p) xs = ys" if "xs = ys @ p # zs" for ys zs
    using assms(1) unfolding that by (subst takeWhile_append2) auto
  have "us = as @ q # bs" using up_to_p[OF a] up_to_p[OF b] by simp
  then have "xs = as @ q # (bs @ p # vs) @ m # ws" using b by simp
  then show ?thesis unfolding ahead_def by blast
qed

section \<open>The detector searches this graph\<close>

lemma reach_wf: "lock_reach R s \<Longrightarrow> table_wf default_lockmethod None s"
  using lock_invD(1) lock_reach_inv by blast

text \<open>What a process in a queue waits for, and its conflict mask.\<close>

lemma queued:
  assumes s: "lock_reach R s" and p: "p \<in> set (queue s t)"
  shows "is_waiting s p" "wait_tag s p = t" "bit (conflictMask s p) n \<longleftrightarrow> conflicts default_lockmethod (want_of s p) n"
    "valid_mode default_lockmethod (want_of s p)" "distinct (queue s t)" "queue s t = waitProcs (lock_at s t)"
    "GetLocksMethodTable t = default_lockmethod"
proof -
  have o: "on_queue s p t" using table_wfD(5)[OF reach_wf[OF s] p] .
  then show "is_waiting s p" and w: "wait_tag s p = t" by (simp_all add: on_queue_def is_waiting_def)
  obtain l where l: "LockHash s t = Some l" using p by (rule queueE)
  then show tb: "GetLocksMethodTable t = default_lockmethod"
    using lock_reach_frame(2)[OF s] known_method_table by (simp add: known_locks_def)
  show "bit (conflictMask s p) n \<longleftrightarrow> conflicts default_lockmethod (want_of s p) n"
    by (simp add: conflictMask_def conflicts_def w tb)
  note lw = table_wfD(1)[OF reach_wf[OF s] l]
  show "queue s t = waitProcs (lock_at s t)" using l by (simp add: queue_def)
  then show "valid_mode default_lockmethod (want_of s p)" "distinct (queue s t)" using lock_wfD(2,5)[OF lw] p l by simp_all
qed

lemma waiting_iff:
  assumes "lock_reach R s"
  shows "is_waiting s p \<longleftrightarrow> (\<exists>t. p \<in> set (queue s t))"
  using queued(1)[OF assms] waiting_queue(1)[OF reach_wf[OF assms]] by blast

lemma waiting_members_iff:
  assumes s: "lock_reach R s" and u: "leader_of s u = u"
  shows "p \<in> set (waiting_members s u) \<longleftrightarrow> leader_of s p = u \<and> (\<exists>t. p \<in> set (queue s t))"
proof -
  have m: "p \<in> set (lockGroupMembers (procs s u)) \<longleftrightarrow> lockGroupLeader (procs s p) = Some u"
    using lock_reach_frame(1)[OF s] by (simp add: members_wf_def)
  have "leader_of s p = u \<longleftrightarrow> p = u \<or> lockGroupLeader (procs s p) = Some u"
    using u by (auto simp: leader_of_def split: option.splits)
  then show ?thesis using m unfolding waiting_members_def waiting_iff[OF s, symmetric] by auto
qed

lemma hard_blockers_iff:
  assumes s: "lock_reach R s" and p: "p \<in> set (queue s t)"
  shows "q \<in> set (hard_blockers s p u) \<longleftrightarrow>
    leader_of s q \<noteq> u \<and> (\<exists>n. holds s t q n \<and> conflicts default_lockmethod (want_of s p) n)"
proof -
  note Q = queued[OF s p]
  obtain l where l: "LockHash s t = Some l" using p by (rule queueE)
  have "(\<exists>lm \<in> set [1..<Suc (numLockModes default_lockmethod)]. bit (hold_of s t q) lm \<and> bit (conflictMask s p) lm) \<longleftrightarrow>
      (\<exists>n. bit (hold_of s t q) n \<and> conflicts default_lockmethod (want_of s p) n)"
  proof -
    have "set [1..<Suc (numLockModes default_lockmethod)] = {m. valid_mode default_lockmethod m}"
      by (auto simp: valid_mode_def)
    then show ?thesis unfolding Q(3) using dm.conflicts_valid[OF Q(4)] by blast
  qed
  moreover have "q \<in> set (procLocks l) \<and> bit (hold_of s t q) n \<longleftrightarrow> holds s t q n" for n
    using table_wfD(2)[OF reach_wf[OF s] l] table_wfD(3)[OF reach_wf[OF s]] l
    by (fastforce simp: holds_def split: option.splits)
  ultimately show ?thesis unfolding hard_blockers_def Q(2) Q(7) using l by (auto simp: list_ex_iff)
qed

lemma soft_blockers_iff:
  assumes s: "lock_reach R s" and p: "p \<in> set (queue s t)" and u: "leader_of s p = u"
    and w: "t \<notin> fst ` set w"
  shows "q \<in> set (soft_blockers s w p u) \<longleftrightarrow> leader_of s q \<noteq> u \<and>
    conflicts default_lockmethod (want_of s p) (want_of s q) \<and> (\<exists>p'. leader_of s p' = u \<and> ahead (queue s t) q p')"
proof -
  note Q = queued[OF s p]
  note g = table_wfD(7)[OF reach_wf[OF s]]
  have "find (\<lambda>order. fst order = t) w = None" using w by (force simp: find_None_iff)
  then have sb: "set (soft_blockers s w p u) = {q \<in> set (takeWhile (\<lambda>q. Some q \<noteq> lastGroupMember s p u) (queue s t)).
      conflicts default_lockmethod (want_of s p) (want_of s q) \<and> leader_of s q \<noteq> u}"
    unfolding soft_blockers_def Q(2) Q(6)[symmetric] by (auto simp: and.commute[of "LOCKBIT_ON _"] Q(3))
  obtain m where m: "lastGroupMember s p u = Some m" "m \<in> set (queue s t)" "leader_of s m = u"
    "\<And>p'. leader_of s p' = u \<Longrightarrow> p' \<in> set (queue s t) \<Longrightarrow> p' \<noteq> m \<Longrightarrow> ahead (queue s t) p' m"
  proof (cases "lockGroupLeader (procs s p)")
    case None
    have "p' = p" if "leader_of s p' = u" for p'
    proof (cases "lockGroupLeader (procs s p')")
      case (Some l)
      then have "lockGroupLeader (procs s l) = Some l" using g by (simp add: groups_wf_def)
      moreover have "l = p" using Some that u None by (simp add: leader_of_def)
      ultimately show ?thesis using None by simp
    qed (use that u None in \<open>simp add: leader_of_def\<close>)
    moreover have "lastGroupMember s p u = Some p" using None by (simp add: lastGroupMember_def)
    ultimately show ?thesis using p u that by blast
  next
    case (Some l)
    then have l: "l = u" using u by (simp add: leader_of_def)
    have uu: "lockGroupLeader (procs s u) = Some u" using Some g l by (simp add: groups_wf_def)
    have gl: "lockGroupLeader (procs s x) = Some u \<longleftrightarrow> leader_of s x = u" for x
      using uu by (auto simp: leader_of_def split: option.splits)
    have lg: "lastGroupMember s p u = find (\<lambda>q. leader_of s q = u) (rev (queue s t))"
      using Some unfolding lastGroupMember_def Q(2) Q(6)[symmetric] gl by simp
    obtain xs m ys where x: "rev (queue s t) = xs @ m # ys" "leader_of s m = u" "\<forall>x \<in> set xs. leader_of s x \<noteq> u"
      using p u split_list_first_prop[of "rev (queue s t)" "\<lambda>q. leader_of s q = u"] by auto
    have "find (\<lambda>q. leader_of s q = u) (xs @ m # ys) = Some m"
      using x(2,3) by (induction xs) auto
    moreover have q: "queue s t = rev ys @ m # rev xs" using arg_cong[OF x(1), of rev] by simp
    moreover have "ahead (queue s t) p' m" if "leader_of s p' = u" "p' \<in> set (queue s t)" "p' \<noteq> m" for p'
    proof -
      have "p' \<in> set (rev ys)" using that x(3) q by auto
      then obtain us vs where "rev ys = us @ p' # vs" by (auto simp: in_set_conv_decomp)
      then show ?thesis unfolding ahead_def q by (intro exI[of _ us] exI[of _ vs] exI[of _ "rev xs"]) simp
    qed
    ultimately show ?thesis using x(1,2) lg by (intro that[of m]) auto
  qed
  have "ahead (queue s t) q m" if a: "ahead (queue s t) q p'" and b: "leader_of s p' = u" for p'
    using a ahead_trans[OF Q(5) a] m(4)[OF b] ahead_set[OF a] by blast
  then show ?thesis unfolding sb using ahead_takeWhile[OF Q(5) m(2)] m(1,3) by auto
qed

text \<open>Without proposed orders, the search follows exactly the edges of the graph.\<close>

lemma waits_for_iff:
  assumes s: "lock_reach R s" and u: "leader_of s u = u"
  shows "waits_for s [] u v \<longleftrightarrow> group_waits s u v"
proof -
  have b: "(\<exists>q \<in> set (hard_blockers s p u) \<union> set (soft_blockers s [] p u). leader_of s q = v) \<longleftrightarrow>
      u \<noteq> v \<and> (\<exists>q. leader_of s q = v \<and> (hard_wait s p q \<or> soft_wait s p q))"
    if p: "p \<in> set (queue s t)" "leader_of s p = u" for p t
  proof -
    have t': "p \<in> set (queue s t') \<longleftrightarrow> t' = t" for t' using p queue_unique[OF reach_wf[OF s]] by blast
    have e: "t \<notin> fst ` set ([] :: WAIT_ORDER list)" by simp
    have w: "hard_wait s p q \<longleftrightarrow> (\<exists>n. holds s t q n \<and> conflicts default_lockmethod (want_of s p) n)"
      "soft_wait s p q \<longleftrightarrow> (\<exists>p'. leader_of s p' = u \<and> ahead (queue s t) q p' \<and>
         conflicts default_lockmethod (want_of s p) (want_of s q))" for q
      by (simp_all add: hard_wait_def soft_wait_def t' p(2))
    have "q \<in> set (hard_blockers s p u) \<union> set (soft_blockers s [] p u) \<longleftrightarrow> leader_of s q \<noteq> u \<and> (hard_wait s p q \<or> soft_wait s p q)" for q
      unfolding w Un_iff hard_blockers_iff[OF s p(1)] soft_blockers_iff[OF s p(1,2) e] by auto
    then show ?thesis by auto
  qed
  have "waits_for s [] u v \<longleftrightarrow> (\<exists>p. leader_of s p = u \<and> (\<exists>t. p \<in> set (queue s t)) \<and>
      u \<noteq> v \<and> (\<exists>q. leader_of s q = v \<and> (hard_wait s p q \<or> soft_wait s p q)))"
    unfolding waits_for_def Bex_def[of "set (waiting_members s u)"] waiting_members_iff[OF s u] using b by blast
  then show ?thesis unfolding group_waits_def hard_wait_def soft_wait_def by blast
qed

lemma group_waits_leader:
  assumes "lock_reach R s" "group_waits s u v"
  shows "leader_of s u = u" "leader_of s v = v"
  using assms(2) leader_idem[OF table_wfD(7)[OF reach_wf[OF assms(1)]]] by (auto simp: group_waits_def)

lemma waits_for_leader:
  assumes "lock_reach R s" "waits_for s w u v"
  shows "leader_of s v = v"
  using assms(2) leader_idem[OF table_wfD(7)[OF reach_wf[OF assms(1)]]] by (auto simp: waits_for_def)

lemma tranclp_mono_on:
  assumes "\<And>x y. A x y \<Longrightarrow> B x y" "A\<^sup>+\<^sup>+ x y"
  shows "B\<^sup>+\<^sup>+ x y"
  using assms(2) by (induction rule: tranclp_induct) (auto intro: assms(1) tranclp.trancl_into_trancl)

lemma on_cycle_iff:
  assumes s: "lock_reach R s"
  shows "on_cycle s [] p \<longleftrightarrow> deadlocked s p"
proof -
  have l: "leader_of s (leader_of s p) = leader_of s p" using leader_idem[OF table_wfD(7)[OF reach_wf[OF s]]] .
  have "(group_waits s)\<^sup>+\<^sup>+ x y \<and> leader_of s y = y" if "(waits_for s [])\<^sup>+\<^sup>+ x y" "leader_of s x = x" for x y
    using that
  proof (induction rule: tranclp_induct)
    case (base y)
    then show ?case using waits_for_iff[OF s] waits_for_leader[OF s] by blast
  next
    case (step y z)
    then show ?case using waits_for_iff[OF s] waits_for_leader[OF s] by (meson tranclp.trancl_into_trancl)
  qed
  moreover have "(waits_for s [])\<^sup>+\<^sup>+ x y" if "(group_waits s)\<^sup>+\<^sup>+ x y" for x y
    using that by (rule tranclp_mono_on[rotated]) (use waits_for_iff[OF s] group_waits_leader[OF s] in blast)
  ultimately show ?thesis using l unfolding on_cycle_def deadlocked_def by blast
qed

section \<open>The graph after a rearrangement\<close>

text \<open>The order of a queue under the proposed orders.\<close>

definition ordered :: "lock_space \<Rightarrow> WAIT_ORDER list \<Rightarrow> LOCKTAG \<Rightarrow> procno list" where
  "ordered s w t = (case map_of w t of None \<Rightarrow> queue s t | Some ys \<Rightarrow> ys)"

text \<open>
  \<open>s'\<close> is \<open>s\<close> with the queues in the proposed orders, less the waiters that have been granted their lock.
\<close>

definition rearranged :: "lock_space \<Rightarrow> WAIT_ORDER list \<Rightarrow> lock_space \<Rightarrow> bool" where
  "rearranged s w s' \<longleftrightarrow> leader_of s' = leader_of s \<and> want_of s' = want_of s \<and>
     (\<forall>p. pid (procs s' p) = pid (procs s p)) \<and>
     (\<forall>t. (t \<notin> fst ` set w \<longrightarrow> queue s' t = queue s t) \<and> dm.wakes_in_order s (ordered s w t) (queue s' t)) \<and>
     (\<forall>t q n. holds s' t q n \<longleftrightarrow> holds s t q n \<or> q \<in> set (ordered s w t) - set (queue s' t) \<and> want_of s q = n)"

lemma wakes_refl: "dm.wakes_in_order s ps ps"
  unfolding dm.wakes_in_order_def by (auto intro: exI[of _ "\<lambda>x. True"])

lemma rearranged_Nil: "rearranged s [] s"
  by (simp add: rearranged_def ordered_def wakes_refl)

lemma map_of_notin: "t \<notin> fst ` set w \<Longrightarrow> map_of w t = None"
  by (simp add: map_of_eq_None_iff)

lemma rearranged_Cons:
  assumes inv: "lock_inv default_lockmethod R s" and tb: "GetLocksMethodTable t = default_lockmethod"
    and q: "queue s t \<noteq> []" and m: "mset ys = mset (queue s t)" and str: "streams_in R se s"
    and r: "rearranged (apply_wait_order se (t, ys) s) w s'" and t: "t \<notin> fst ` set w"
  shows "rearranged s ((t, ys) # w) s'"
proof -
  define s1 where "s1 = apply_wait_order se (t, ys) s"
  note A = dm.rearrange_spec[OF inv q m str tb, folded s1_def]
  have B: "leader_of s' = leader_of s1" "want_of s' = want_of s1" "pid (procs s' p) = pid (procs s1 p)"
    "t' \<notin> fst ` set w \<Longrightarrow> queue s' t' = queue s1 t'" "dm.wakes_in_order s1 (ordered s1 w t') (queue s' t')"
    "holds s' t' q n \<longleftrightarrow> holds s1 t' q n \<or> q \<in> set (ordered s1 w t') - set (queue s' t') \<and> want_of s1 q = n" for p t' q n
    using r unfolding rearranged_def s1_def[symmetric] by blast+
  have want: "want_of s1 q = want_of s q" for q using fun_cong[OF A(4)] .
  have wk: "dm.wakes_in_order s1 = dm.wakes_in_order s" by (intro ext) (simp add: dm.wakes_in_order_def want)
  have q1: "queue s1 t' = queue s t'" if "t' \<noteq> t" for t' using A(5)[OF that] by (simp add: queue_def)
  have ord: "ordered s ((t, ys) # w) t' = ordered s1 w t'" if "t' \<noteq> t" for t'
    using that q1[OF that] by (simp add: ordered_def split: option.split)
  have qt: "queue s' t = queue s1 t" "ordered s ((t, ys) # w) t = ys" "ordered s1 w t = queue s1 t"
    using B(4)[OF t] map_of_notin[OF t] by (simp_all add: ordered_def)
  show ?thesis
    unfolding rearranged_def
  proof (intro conjI allI)
    show "leader_of s' = leader_of s" "want_of s' = want_of s" using A(2,4) B(1,2) by simp_all
    show "pid (procs s' p) = pid (procs s p)" for p using A(3) B(3) by simp
    show "t' \<notin> fst ` set ((t, ys) # w) \<longrightarrow> queue s' t' = queue s t'" for t' using B(4) q1 by auto
    show "dm.wakes_in_order s (ordered s ((t, ys) # w) t') (queue s' t')" for t'
    proof (cases "t' = t")
      case True
      then show ?thesis using A(7) qt by simp
    next
      case False
      then show ?thesis using B(5)[of t'] ord[OF False] wk by simp
    qed
    show "holds s' t' q n \<longleftrightarrow> holds s t' q n \<or>
        q \<in> set (ordered s ((t, ys) # w) t') - set (queue s' t') \<and> want_of s q = n" for t' q n
    proof (cases "t' = t")
      case True
      then show ?thesis using B(6)[of t q n] A(8)[of q n] qt by auto
    next
      case False
      then show ?thesis using B(6)[of t' q n] A(6)[OF False] ord[OF False] want by simp
    qed
  qed
qed

text \<open>Applying all orders, one after the other.\<close>

lemma apply_orders:
  assumes s: "lock_reach R s" and str: "streams_in R se s" and w: "distinct (map fst w)"
    "\<And>t ys. (t, ys) \<in> set w \<Longrightarrow> queue s t \<noteq> [] \<and> mset ys = mset (queue s t)"
  shows "rearranged s w (fold (apply_wait_order se) w s)" "lock_reach R (fold (apply_wait_order se) w s)"
proof -
  have "rearranged s w (fold (apply_wait_order se) w s) \<and> lock_reach R (fold (apply_wait_order se) w s)"
    using assms
  proof (induction w arbitrary: s)
    case Nil
    then show ?case using rearranged_Nil by simp
  next
    case (Cons x w)
    obtain t ys where x: "x = (t, ys)" by fastforce
    have tq: "queue s t \<noteq> []" "mset ys = mset (queue s t)" "t \<notin> fst ` set w" using Cons.prems(3,4) by (auto simp: x)
    then have "LockHash s t \<noteq> None" by (cases "LockHash s t") (auto simp: queue_def)
    then have k: "known_method t" using lock_reach_frame(2)[OF Cons.prems(1)] by (simp add: known_locks_def)
    note tb = known_method_table[OF k]
    note inv = lock_reach_inv[OF Cons.prems(1)]
    note A = dm.rearrange_spec[OF inv tq(1,2) Cons.prems(2) tb]
    have s1: "lock_reach R (apply_wait_order se (t, ys) s)"
      by (rule lock_reach.step[OF Cons.prems(1) lock_step.rearrange[OF Cons.prems(2) k tq(1,2)]])
    have str1: "streams_in R se (apply_wait_order se (t, ys) s)" using Cons.prems(2) streams_in_cong[OF A(3)] by simp
    have "queue (apply_wait_order se (t, ys) s) t' = queue s t'" if "(t', zs) \<in> set w" for t' zs
    proof -
      have "t' \<noteq> t" using that tq(3) by force
      from A(5)[OF this] show ?thesis by (simp add: queue_def)
    qed
    then have IH: "rearranged (apply_wait_order se (t, ys) s) w (fold (apply_wait_order se) w (apply_wait_order se (t, ys) s)) \<and>
        lock_reach R (fold (apply_wait_order se) w (apply_wait_order se (t, ys) s))"
      using Cons.prems(3,4) by (intro Cons.IH[OF s1 str1]) auto
    then show ?case using rearranged_Cons[OF inv tb tq(1,2) Cons.prems(2) _ tq(3)] by (simp add: x)
  qed
  then show "rearranged s w (fold (apply_wait_order se) w s)" "lock_reach R (fold (apply_wait_order se) w s)" by simp_all
qed

section \<open>No new edges\<close>

lemma ahead_irrefl: "distinct xs \<Longrightarrow> \<not> ahead xs q q"
  by (auto simp: ahead_def)

lemma find_order: "find (\<lambda>order. fst order = t) w = map_option (\<lambda>ys. (t, ys)) (map_of w t)"
  by (induction w) auto

lemma ordered_perm:
  assumes "orders_ok s w"
  shows "mset (ordered s w t) = mset (queue s t)" "set (ordered s w t) = set (queue s t)"
  using orders_okD(2,3)[OF assms, of t] by (auto simp: ordered_def dest: map_of_SomeD split: option.split)

text \<open>In a proposed order the groups are adjacent, so who is ahead of one member is ahead of the group.\<close>

lemma adjacent_ahead:
  assumes d: "distinct ys" and a: "adjacent s u ys" and q: "ahead ys q p" "leader_of s p = u" "leader_of s q \<noteq> u"
  obtains as zs where "ys = as @ zs" "q \<in> set as" "\<And>x. x \<in> set as \<Longrightarrow> leader_of s x \<noteq> u"
proof -
  obtain as ms bs where y: "ys = as @ ms @ bs" "\<forall>x \<in> set as \<union> set bs. leader_of s x \<noteq> u" "\<forall>x \<in> set ms. leader_of s x = u"
    using a unfolding adjacent_def by blast
  have "q \<in> set as \<union> set bs" "p \<in> set ms" using ahead_set[OF q(1)] q(2,3) y by auto
  moreover have "q \<notin> set bs"
  proof
    assume "q \<in> set bs"
    then obtain b1 b2 where b: "bs = b1 @ q # b2" by (auto simp: in_set_conv_decomp)
    obtain m1 m2 where m: "ms = m1 @ p # m2" using \<open>p \<in> set ms\<close> by (auto simp: in_set_conv_decomp)
    have "ys = (as @ m1) @ p # (m2 @ b1) @ q # b2" using y(1) b m by simp
    then have "ahead ys p q" unfolding ahead_def by blast
    then show False using ahead_trans[OF d q(1)] ahead_irrefl[OF d] by blast
  qed
  ultimately show ?thesis using y(1,2) by (intro that[of as "ms @ bs"]) auto
qed

lemma proposed_blockers:
  assumes s: "lock_reach R s" and w: "orders_ok s w" and ty: "map_of w t = Some ys" and p: "p \<in> set (queue s t)"
    and u: "leader_of s p = u" "leader_of s p' = u" and q: "ahead ys q p'" "leader_of s q \<noteq> u"
    and c: "conflicts default_lockmethod (want_of s p) (want_of s q)"
  shows "q \<in> set (soft_blockers s w p u)"
proof -
  note Q = queued[OF s p]
  have "mset ys = mset (queue s t)" "adjacent s u ys" using orders_okD(2,4)[OF w map_of_SomeD[OF ty]] by auto
  then have y: "distinct ys" "adjacent s u ys" using Q(5) by (auto dest: mset_eq_imp_distinct_iff)
  have "q \<in> set (takeWhile (\<lambda>q. leader_of s q \<noteq> p) ys)"
  proof (cases "\<exists>x. leader_of s x = p")
    case True
    then have "p = u" using u(1) leader_idem[OF table_wfD(7)[OF reach_wf[OF s]]] by metis
    obtain as zs where "ys = as @ zs" "q \<in> set as" "\<And>x. x \<in> set as \<Longrightarrow> leader_of s x \<noteq> u"
      using adjacent_ahead[OF y q(1) u(2) q(2)] by blast
    then show ?thesis using \<open>p = u\<close> by (simp add: takeWhile_append2)
  next
    case False
    then have "takeWhile (\<lambda>q. leader_of s q \<noteq> p) ys = ys" by (subst takeWhile_eq_all_conv) blast
    then show ?thesis using ahead_set[OF q(1)] by metis
  qed
  then show ?thesis
    unfolding soft_blockers_def Q(2) find_order ty by (simp add: and.commute[of "LOCKBIT_ON _"] Q(3) c)
qed

lemma rearranged_edges:
  assumes s: "lock_reach R s" and w: "orders_ok s w" and r: "rearranged s w s'" and e: "group_waits s' u v"
  shows "waits_for s w u v"
proof -
  have R: "leader_of s' = leader_of s" "want_of s' x = want_of s x" "t \<notin> fst ` set w \<Longrightarrow> queue s' t = queue s t"
    "dm.wakes_in_order s (ordered s w t) (queue s' t)"
    "holds s' t y n \<longleftrightarrow> holds s t y n \<or> y \<in> set (ordered s w t) - set (queue s' t) \<and> want_of s y = n" for x y t n
    using r unfolding rearranged_def by (metis, metis, blast+)
  have sub: "set (queue s' t) \<subseteq> set (queue s t)" for t
    using R(4)[of t] ordered_perm(2)[OF w, of t] by (auto simp: dm.wakes_in_order_def)
  obtain p q where pq: "u \<noteq> v" "leader_of s p = u" "leader_of s q = v" "hard_wait s' p q \<or> soft_wait s' p q"
    using e R(1) by (auto simp: group_waits_def)
  then obtain t where t: "p \<in> set (queue s' t)" by (auto simp: hard_wait_def soft_wait_def)
  then have p: "p \<in> set (queue s t)" using sub by blast
  have u: "leader_of s u = u" using pq(2) leader_idem[OF table_wfD(7)[OF reach_wf[OF s]]] by metis
  have ql: "leader_of s q \<noteq> u" using pq by simp
  have step: "q \<in> set (soft_blockers s w p u)" if "ahead (ordered s w t) q p'" "leader_of s p' = u"
    "conflicts default_lockmethod (want_of s p) (want_of s q)" for p'
  proof (cases "map_of w t")
    case None
    then have "t \<notin> fst ` set w" by (simp add: map_of_eq_None_iff)
    then show ?thesis using that soft_blockers_iff[OF s p pq(2)] ql None by (auto simp: ordered_def)
  next
    case (Some ys)
    then show ?thesis using that proposed_blockers[OF s w Some p pq(2)] ql by (simp add: ordered_def)
  qed
  have un: "t' = t" if "p \<in> set (queue s' t')" for t' using that p sub queue_unique[OF reach_wf[OF s]] by blast
  have "q \<in> set (hard_blockers s p u) \<union> set (soft_blockers s w p u)"
  proof (cases "soft_wait s' p q")
    case True
    then obtain p' where p': "leader_of s p' = u" "ahead (queue s' t) q p'" "conflicts default_lockmethod (want_of s p) (want_of s q)"
      using un pq(2) unfolding soft_wait_def R(1,2) by blast
    obtain K where "queue s' t = filter K (ordered s w t)" using R(4)[of t] by (auto simp: dm.wakes_in_order_def)
    then have "ahead (ordered s w t) q p'" using p'(2) ahead_filter by metis
    from step[OF this p'(1,3)] show ?thesis by simp
  next
    case False
    then obtain n where n: "holds s' t q n" "conflicts default_lockmethod (want_of s p) n"
      using pq(4) un unfolding hard_wait_def R(2) by blast
    consider "holds s t q n" | "q \<in> set (ordered s w t) - set (queue s' t)" "want_of s q = n" using n(1) R(5) by blast
    then show ?thesis
    proof cases
      case 1
      then show ?thesis using hard_blockers_iff[OF s p] ql n(2) by auto
    next
      case 2
      have "conflicts default_lockmethod (want_of s q) (want_of s p)"
        using dm.conflicts_sym[OF queued(4)[OF s p]] n(2) 2(2) by blast
      then have "ahead (ordered s w t) q p" using R(4)[of t] 2(1) t unfolding dm.wakes_in_order_def ahead_def by blast
      from step[OF this pq(2)] n(2) 2(2) show ?thesis by simp
    qed
  qed
  then show ?thesis unfolding waits_for_def using waiting_members_iff[OF s u] pq(2,3) p by blast
qed

lemma rearranged_resolves:
  assumes "lock_reach R s" "orders_ok s w" "rearranged s w s'" "\<not> on_cycle s w p"
  shows "\<not> deadlocked s' p"
proof
  assume "deadlocked s' p"
  moreover have "leader_of s' = leader_of s" using assms(3) by (simp add: rearranged_def)
  ultimately have "(waits_for s w)\<^sup>+\<^sup>+ (leader_of s p) (leader_of s p)"
    using tranclp_mono_on[OF rearranged_edges[OF assms(1,2,3)]] by (simp add: deadlocked_def)
  then show False using assms(4) by (simp add: on_cycle_def)
qed

end
