(* ===== verification/Deadlock_Correct.thy ===== *)
theory Deadlock_Correct
  imports Deadlock_Graph Lock_Correct
begin

text \<open>
  What the deadlock detector guarantees: it always comes to a result, reports a deadlock exactly if the
  process is on a cycle of the waits-for graph, and leaves the process on no cycle, either by
  rearranging queues or by taking the process out of its queue.
\<close>

section \<open>Preparations\<close>

text \<open>The workspace as \<open>InitDeadLockChecking\<close> allocates it, and the processes that use the lock table.\<close>

definition checker_ready :: "dl_cxt \<Rightarrow> bool" where
  "checker_ready c \<longleftrightarrow> work_ok c \<and> maxCurConstraints c = MaxBackends c \<and> maxPossibleConstraints c = MaxBackends c * 4"

definition owners_below :: "nat \<Rightarrow> lock_space \<Rightarrow> bool" where
  "owners_below n s \<longleftrightarrow> (\<forall>t p. ProcLockHash s (t, p) \<noteq> None \<longrightarrow> p < n)"

lemma owners_area:
  assumes "owners_below n s"
  shows "lock_area s n (leader_of s ` {..<n})"
proof -
  have "card (leader_of s ` {..<n}) \<le> n" using card_image_le[of "{..<n}" "leader_of s"] by simp
  then show ?thesis using assms by (auto simp: lock_area_def owners_below_def)
qed

lemma queue_owner:
  assumes "lock_reach R s" "owners_below n s" "p \<in> set (queue s t)"
  shows "p < n"
  using assms(2) queue_proclock[OF reach_wf[OF assms(1)] assms(3)] by (auto simp: owners_below_def)

lemma publish_core: "same_core (publish me c s) s"
  unfolding publish_def by (rule same_core_upd_proc) (simp add: core_proc_def)

lemma publish_reach: "lock_reach R s \<Longrightarrow> lock_reach R (publish me c s)"
  unfolding publish_def by (rule lock_reach.step[OF _ lock_step.remark])

lemma forget_redistribution:
  fixes me :: procno
  assumes "lock_reach R s"
  defines "s' \<equiv> upd_proc me (\<lambda>p. p\<lparr>blocking_redistribution_proc := None\<rparr>) s"
  shows "lock_reach R s'" "same_core s' s"
proof -
  have "s' = upd_proc me (\<lambda>p. p\<lparr>blocking_redistribution_proc := None, deadlockDetails := deadlockDetails (procs s me)\<rparr>) s"
    by (simp add: s'_def upd_proc_def)
  then show "lock_reach R s'" using lock_reach.step[OF assms(1) lock_step.remark] by simp
  show "same_core s' s" unfolding s'_def by (rule same_core_upd_proc) (simp add: core_proc_def)
qed

lemma same_core_deadlocked:
  assumes "same_core s' s"
  shows "deadlocked s' p = deadlocked s p"
proof -
  have "group_waits s' = group_waits s"
    using same_core_views[OF assms] same_coreD[OF assms]
    unfolding group_waits_def hard_wait_def soft_wait_def fun_eq_iff by simp
  then show ?thesis using same_core_views[OF assms] by (simp add: deadlocked_def)
qed

lemma rearranged_core:
  assumes "same_core s0 s" "rearranged s0 w s'"
  shows "rearranged s w s'"
proof -
  have "ordered s0 w = ordered s w" using same_core_views(1)[OF assms(1)] by (intro ext) (simp add: ordered_def split: option.split)
  moreover have "dm.wakes_in_order s0 = dm.wakes_in_order s"
    using same_coreD[OF assms(1)] by (intro ext) (simp add: dm.wakes_in_order_def)
  ultimately show ?thesis
    using assms(2) same_core_views[OF assms(1)] same_coreD[OF assms(1)] unfolding rearranged_def by simp
qed

lemma rearranged_end:
  assumes "same_core s'' s'" "rearranged s w s'"
  shows "rearranged s w s''"
  using assms(2) same_core_views[OF assms(1)] same_coreD[OF assms(1)] unfolding rearranged_def by simp

section \<open>A deadlock of two\<close>

text \<open>
  Backends 1 and 2 lock one relation each and then ask for the other's (\<open>demo_cycle\<close>; only one of them has
  asked in \<open>demo_half\<close>). In \<open>demo_queue\<close> backends 2 and 3 wait for the lock that backend 1 holds.
\<close>

definition other_tag :: LOCKTAG where
  "other_tag = demo_tag\<lparr>locktag_field2 := 3\<rparr>"

definition acquire_on :: "LOCKTAG \<Rightarrow> procno \<Rightarrow> lock_space \<Rightarrow> lock_space" where
  "acquire_on t p s = snd (LockAcquire_shared (plain_session p) (GetLocksMethodTable t) (True, True) t 0 ExclusiveLock
     False True s)"

definition demo_both :: lock_space where
  "demo_both = acquire_on other_tag 2 (acquire_on demo_tag 1 (lock_space_init (\<lambda>p. p) (\<lambda>p. 0)))"

definition demo_half :: lock_space where
  "demo_half = acquire_on demo_tag 2 demo_both"

definition demo_cycle :: lock_space where
  "demo_cycle = acquire_on other_tag 1 demo_half"

definition demo_queue :: lock_space where
  "demo_queue = acquire_on demo_tag 3 (acquire_on demo_tag 2 (acquire_on demo_tag 1
     (lock_space_init (\<lambda>p. p) (\<lambda>p. 0))))"

definition demo_work :: dl_cxt where
  "demo_work = InitDeadLockChecking 3 3 \<lparr>info_locktag = demo_tag, info_lockmode = 0, info_pid = 0\<rparr>
     \<lparr>waiter = 0, blocker = 0, edge_lock = demo_tag, pred = 0, link = 0\<rparr>"

lemma demo_work_ready: "checker_ready demo_work" "MaxBackends demo_work = 3" "waitOrders demo_work = []"
  by (simp_all add: checker_ready_def work_ok_def demo_work_def InitDeadLockChecking_def)

lemma other_tag_simps [simp]: "known_method other_tag" "other_tag \<noteq> demo_tag" "demo_tag \<noteq> other_tag"
  "GetLocksMethodTable other_tag = default_lockmethod" "GetLocksMethodTable demo_tag = default_lockmethod"
  by (simp_all add: other_tag_def demo_tag_def known_method_def known_method_table)

lemma acquire_on_reach:
  assumes "lock_reach R s" "off_queue s p" "known_method t" "\<not> holds s t p ExclusiveLock"
  shows "lock_reach R (acquire_on t p s)"
  by (rule lock_reach.step[OF assms(1)], rule lock_step.acquire[where se = "plain_session p" and t = t and m = ExclusiveLock
        and room = "(True, True)" and i = 0 and dontWait = False and reportMemoryError = True])
    (use assms in \<open>simp_all add: acquire_on_def prod_eq_iff valid_mode_def default_lockmethod_def lock_mode_defs\<close>)



lemma demo_both_reach: "lock_reach R demo_both"
proof -
  have "lock_reach R (acquire_on demo_tag 1 (lock_space_init (\<lambda>p. p) (\<lambda>p. 0)))"
    by (rule acquire_on_reach[OF lock_reach.start _ demo_known]) (simp_all add: lock_run_defs)
  then show ?thesis unfolding demo_both_def
    by (rule acquire_on_reach[OF _ _ other_tag_simps(1)]) (simp_all add: acquire_on_def other_tag_def lock_run_defs)
qed

lemma demo_half_reach: "lock_reach R demo_half"
  unfolding demo_half_def
  by (rule acquire_on_reach[OF demo_both_reach _ demo_known])
    (simp_all add: acquire_on_def other_tag_def demo_both_def lock_run_defs del: LOCKBIT_ON_test LOCKBIT_ON_test0)

lemma demo_cycle_reach: "lock_reach R demo_cycle"
  unfolding demo_cycle_def
  by (rule acquire_on_reach[OF demo_half_reach _ other_tag_simps(1)])
    (simp_all add: acquire_on_def other_tag_def demo_half_def demo_both_def lock_run_defs del: LOCKBIT_ON_test LOCKBIT_ON_test0)

lemma demo_cycle_values:
  "queue demo_cycle demo_tag = [2]" "queue demo_cycle other_tag = [1]"
  "holds demo_cycle demo_tag 1 ExclusiveLock" "holds demo_cycle other_tag 2 ExclusiveLock"
  "want_of demo_cycle 1 = ExclusiveLock" "want_of demo_cycle 2 = ExclusiveLock"
  "lockGroupLeader (procs demo_cycle p) = None"
  by (simp_all add: acquire_on_def other_tag_def demo_cycle_def demo_half_def demo_both_def lock_run_defs
      del: LOCKBIT_ON_test LOCKBIT_ON_test0)

lemma demo_cycle_owners: "owners_below 3 demo_cycle"
  by (auto simp: owners_below_def acquire_on_def other_tag_def demo_cycle_def demo_half_def demo_both_def lock_run_defs
      simp del: LOCKBIT_ON_test LOCKBIT_ON_test0)

lemma demo_cycle_deadlocked: "deadlocked demo_cycle 1"
proof -
  have l: "leader_of demo_cycle p = p" for p using demo_cycle_values(7) by (simp add: leader_of_def)
  have x: "conflicts default_lockmethod ExclusiveLock ExclusiveLock"
    by (simp add: DoLockModesConflict_iff[symmetric]) code_simp
  have "hard_wait demo_cycle 1 2"
    unfolding hard_wait_def using demo_cycle_values(2,4,5) x by (intro exI[of _ other_tag] exI[of _ ExclusiveLock]) simp
  then have "group_waits demo_cycle 1 2" using l unfolding group_waits_def by auto
  moreover have "hard_wait demo_cycle 2 1"
    unfolding hard_wait_def using demo_cycle_values(1,3,6) x by (intro exI[of _ demo_tag] exI[of _ ExclusiveLock]) simp
  then have "group_waits demo_cycle 2 1" using l unfolding group_waits_def by auto
  ultimately have "(group_waits demo_cycle)\<^sup>+\<^sup>+ 1 1" by (meson tranclp.r_into_trancl tranclp.trancl_into_trancl)
  then show ?thesis using l by (simp add: deadlocked_def)
qed

lemma demo_half_free: "\<not> deadlocked demo_half 2" "owners_below 3 demo_half"
proof -
  have q: "x = 2" if "x \<in> set (queue demo_half t)" for x t
    using that by (auto simp: acquire_on_def other_tag_def demo_half_def demo_both_def lock_run_defs
        simp del: LOCKBIT_ON_test LOCKBIT_ON_test0 split: if_splits)
  have l: "leader_of demo_half x = x" for x
    by (simp add: acquire_on_def other_tag_def demo_half_def demo_both_def lock_run_defs
        del: LOCKBIT_ON_test LOCKBIT_ON_test0)
  have "x = 2 \<and> y \<noteq> 2" if "group_waits demo_half x y" for x y
    using that q unfolding group_waits_def l hard_wait_def soft_wait_def by metis
  then show "\<not> deadlocked demo_half 2" unfolding deadlocked_def l by (metis tranclp.cases)
  show "owners_below 3 demo_half"
    by (auto simp: owners_below_def acquire_on_def other_tag_def demo_half_def demo_both_def lock_run_defs
        simp del: LOCKBIT_ON_test LOCKBIT_ON_test0)
qed

lemma demo_queue_reach: "lock_reach R demo_queue"
proof -
  have "lock_reach R (acquire_on demo_tag 1 (lock_space_init (\<lambda>p. p) (\<lambda>p. 0)))"
    by (rule acquire_on_reach[OF lock_reach.start _ demo_known]) (simp_all add: lock_run_defs)
  then have "lock_reach R (acquire_on demo_tag 2 (acquire_on demo_tag 1 (lock_space_init (\<lambda>p. p) (\<lambda>p. 0))))"
    by (rule acquire_on_reach[OF _ _ demo_known]) (simp_all add: acquire_on_def lock_run_defs)
  then show ?thesis unfolding demo_queue_def
    by (rule acquire_on_reach[OF _ _ demo_known])
      (simp_all add: acquire_on_def lock_run_defs del: LOCKBIT_ON_test LOCKBIT_ON_test0)
qed

lemma demo_queue_values: "\<exists>l. LockHash demo_queue demo_tag = Some l \<and> waitProcs l = [2, 3]" "leader_of demo_queue p = p"
  by (simp_all add: acquire_on_def demo_queue_def lock_run_defs del: LOCKBIT_ON_test LOCKBIT_ON_test0)

section \<open>The search\<close>

lemma FindLockCycle_found:
  assumes s: "lock_reach R s" and own: "owners_below (MaxBackends c) s" and p: "p < MaxBackends c"
    and c: "waitOrders c = []" "length (detailArray c) = MaxBackends c" "base + MaxBackends c \<le> length (possibleConstraints c)"
    and d: "deadlocked s p"
  shows "\<exists>c'. FindLockCycle s me base p c = Inr (True, c')"
proof -
  note area = lock_search_area[OF reach_wf[OF s] owners_area[OF own] orders_ok_Nil]
  have pU: "leader_of s p \<in> leader_of s ` {..<MaxBackends c}" using p by simp
  show ?thesis
    using FindLockCycle_spec[OF c area pU, of me] d on_cycle_iff[OF s, of p] unfolding on_cycle_def by metis
qed

text \<open>
  C39: In every reachable state the search for a cycle returns, and it returns true exactly if the group of the
  process is on a cycle of the waits-for graph. Then the recorded details describe such a cycle, one entry
  for each edge, and the soft edges of the cycle are listed at the given place of the workspace, those of
  its end first.
\<close>

theorem FindLockCycle_correct:
  assumes s: "lock_reach R s" and own: "owners_below (MaxBackends c) s" and p: "p < MaxBackends c"
    and c: "waitOrders c = []" "length (detailArray c) = MaxBackends c" "base + MaxBackends c \<le> length (possibleConstraints c)"
  shows "\<exists>b c'. FindLockCycle s me base p c = Inr (b, c') \<and> (b \<longleftrightarrow> deadlocked s p) \<and>
    (b \<longrightarrow> (\<exists>es. es \<noteq> [] \<and> wait_path s [] (leader_of s p) es (leader_of s p) \<and> nDeadlockDetails c' = length es \<and>
       take (length es) (detailArray c') = map (edge_info s) es \<and> nSoftEdges c' = length (filter is_soft es) \<and>
       map edge_key (take (nSoftEdges c') (drop base (possibleConstraints c'))) = map (soft_key s) (rev (filter is_soft es))))"
proof -
  note area = lock_search_area[OF reach_wf[OF s] owners_area[OF own] orders_ok_Nil]
  have pU: "leader_of s p \<in> leader_of s ` {..<MaxBackends c}" using p by simp
  obtain b c' where f: "FindLockCycle s me base p c = Inr (b, c')" "b \<longleftrightarrow> on_cycle s [] p" "same_work base c' c"
    "b \<Longrightarrow> cycle_found s [] (leader_of s p) base (leader_of s p) 0 c c'"
    using FindLockCycle_spec[OF c area pU, of me] unfolding on_cycle_def by metis
  have "\<exists>es. es \<noteq> [] \<and> wait_path s [] (leader_of s p) es (leader_of s p) \<and> nDeadlockDetails c' = length es \<and>
       take (length es) (detailArray c') = map (edge_info s) es \<and> nSoftEdges c' = length (filter is_soft es) \<and>
       map edge_key (take (nSoftEdges c') (drop base (possibleConstraints c'))) = map (soft_key s) (rev (filter is_soft es))"
    if b: b
  proof -
    obtain es where es: "wait_path s [] (leader_of s p) es (leader_of s p)" "nDeadlockDetails c' = length es"
      "length es \<le> MaxBackends c'" "\<forall>i < length es. detailArray c' ! i = edge_info s (es ! i)"
      "nSoftEdges c' = length (filter is_soft es)"
      "map edge_key (take (nSoftEdges c') (drop base (possibleConstraints c'))) = map (soft_key s) (rev (filter is_soft es))"
      "0 < nDeadlockDetails c'"
      using f(4)[OF b] unfolding cycle_found_def found_def by auto
    have "length es \<le> length (detailArray c')" using es(3) f(3) c(2) by (simp add: same_work_def)
    then have "take (length es) (detailArray c') = map (edge_info s) es" using es(4) by (intro nth_equalityI) auto
    then show ?thesis using es by auto
  qed
  then show ?thesis using f(1,2) on_cycle_iff[OF s] by blast
qed

theorem FindLockCycle_correct_witness:
  "\<exists>c'. FindLockCycle demo_cycle 1 0 1 demo_work = Inr (True, c') \<and> nDeadlockDetails c' \<noteq> 0"
  using FindLockCycle_correct[where R = "\<lambda>p q. False" and s = demo_cycle and c = demo_work and p = 1 and base = 0 and me = 1,
      OF demo_cycle_reach] demo_cycle_owners demo_cycle_deadlocked demo_work_ready
  by (auto simp: checker_ready_def work_ok_def)

section \<open>The check\<close>

definition check_start :: "procno \<Rightarrow> lock_space \<Rightarrow> dl_cxt \<Rightarrow> dl_cxt" where
  "check_start me s c = c\<lparr>nCurConstraints := 0, nPossibleConstraints := 0, waitOrders := [], blocking_autovacuum_proc := [],
     blocking_redistribution := blocking_redistribution_proc (procs s me)\<rparr>"

lemma search_result:
  assumes s: "lock_reach R s" and own: "owners_below (MaxBackends c) s" and p: "p < MaxBackends c" and c: "checker_ready c"
  obtains b c' where "DeadLockCheckRecurse (maxCurConstraints c + 2) s me p (check_start me s c) = Inr (b, c')"
    "b \<Longrightarrow> same_config c' (check_start me s c) \<and> deadlocked s p"
    "\<not> b \<Longrightarrow> orders_ok s (waitOrders c') \<and> \<not> on_cycle s (waitOrders c') p \<and> (waitOrders c' \<noteq> [] \<longrightarrow> deadlocked s p)"
proof -
  define c0 where "c0 = check_start me s c"
  have M: "MaxBackends c0 = MaxBackends c" "maxCurConstraints c0 = maxCurConstraints c" "nCurConstraints c0 = 0"
    "nPossibleConstraints c0 = 0" "maxPossibleConstraints c0 = MaxBackends c * 4"
    using c by (simp_all add: c0_def check_start_def checker_ready_def)
  have ok: "work_ok c0" using c by (simp add: c0_def check_start_def checker_ready_def work_ok_def)
  have area: "lock_area s (MaxBackends c0) (leader_of s ` {..<MaxBackends c})" using owners_area[OF own] M(1) by simp
  have cur: "cur_ok s U (curConstraints c0) (nCurConstraints c0)" for U using M(3) by (simp add: cur_ok_def)
  obtain b c' where r: "DeadLockCheckRecurse (maxCurConstraints c + 2) s me p c0 = Inr (b, c')"
    "if b then same_config c' c0 else solved s p c0 c'" "b \<or> waitOrders c' \<noteq> [] \<longrightarrow> on_cycle s [] p"
    using DeadLockCheckRecurse_spec[OF reach_wf[OF s] area ok cur, of p "maxCurConstraints c + 2" me] M p by auto
  show ?thesis using r that[of b c'] on_cycle_iff[OF s] unfolding c0_def solved_def by auto
qed

text \<open>The part after a search that found an arrangement without a cycle.\<close>

definition check_end :: "session \<Rightarrow> lock_space \<Rightarrow> dl_cxt \<Rightarrow> DeadLockState \<times> lock_space" where
  "check_end se s c =
     (if waitOrders c \<noteq> [] then (DS_SOFT_DEADLOCK, s)
      else if blocking_autovacuum_proc c \<noteq> [] then (DS_BLOCKED_BY_AUTOVACUUM, s)
      else case blocking_redistribution_proc (procs s (my_proc se)) of
             None \<Rightarrow> (DS_NO_DEADLOCK, s)
           | Some r \<Rightarrow> if IsOtherProcRedistribution s r then (DS_BLOCKED_BY_REDISTRIBUTION, s)
                       else (DS_NO_DEADLOCK, upd_proc (my_proc se) (\<lambda>p. p\<lparr>blocking_redistribution_proc := None\<rparr>) s))"

lemma check_end_result:
  assumes "lock_reach R s" "check_end se s c = (state, s')"
  shows "lock_reach R s'" "same_core s' s" "state \<noteq> DS_HARD_DEADLOCK" "state = DS_SOFT_DEADLOCK \<longleftrightarrow> waitOrders c \<noteq> []"
    "state \<noteq> DS_NOT_YET_CHECKED" "state \<noteq> DS_LOCK_TIMEOUT"
  using assms(2) forget_redistribution[OF assms(1)] assms(1)
  by (auto simp: check_end_def split: if_splits option.splits)

text \<open>The whole check, for every workspace that is allocated as \<open>InitDeadLockChecking\<close> does.\<close>

lemma DeadLockCheck_spec:
  assumes s: "lock_reach R s" and str: "streams_in R se s" and own: "owners_below (MaxBackends c) s"
    and p: "p < MaxBackends c" and c: "checker_ready c"
  obtains state s' c' where "DeadLockCheck se p s c = Inr (state, s', c')" "lock_reach R s'"
    "state \<noteq> DS_NOT_YET_CHECKED" "state \<noteq> DS_LOCK_TIMEOUT"
    "state = DS_HARD_DEADLOCK \<Longrightarrow> deadlocked s p \<and> same_core s' s"
    "state \<noteq> DS_HARD_DEADLOCK \<Longrightarrow> \<exists>w. orders_ok s w \<and> rearranged s w s' \<and> (state = DS_SOFT_DEADLOCK \<longleftrightarrow> w \<noteq> []) \<and>
       \<not> deadlocked s' p \<and> (w \<noteq> [] \<longleftrightarrow> deadlocked s p)"
proof -
  define me where "me = my_proc se"
  obtain b c1 where r: "DeadLockCheckRecurse (maxCurConstraints c + 2) s me p (check_start me s c) = Inr (b, c1)"
    "b \<Longrightarrow> same_config c1 (check_start me s c) \<and> deadlocked s p"
    "\<not> b \<Longrightarrow> orders_ok s (waitOrders c1) \<and> \<not> on_cycle s (waitOrders c1) p \<and> (waitOrders c1 \<noteq> [] \<longrightarrow> deadlocked s p)"
    using search_result[OF s own p c, of me] by metis
  have eq: "DeadLockCheck se p s c = (if b
      then (case FindLockCycle s me 0 p (c1\<lparr>waitOrders := []\<rparr>) of
              Inl e \<Rightarrow> Inl e | Inr (False, c) \<Rightarrow> Inl Fatal_disappeared
            | Inr (True, c) \<Rightarrow> Inr (DS_HARD_DEADLOCK, publish me c s, c))
      else Inr (case check_end se (fold (apply_wait_order se) (waitOrders c1) (publish me c1 s)) c1 of (state, s) \<Rightarrow> (state, s, c1)))"
    using r(1) unfolding DeadLockCheck_def Let_def me_def[symmetric] check_start_def check_end_def
    by (cases b) (simp_all split: option.split)
  show ?thesis
  proof (cases b)
    case True
    then have sc: "same_config c1 (check_start me s c)" and dl: "deadlocked s p" using r(2) by auto
    have c1: "MaxBackends (c1\<lparr>waitOrders := []\<rparr>) = MaxBackends c" "waitOrders (c1\<lparr>waitOrders := []\<rparr>) = []"
      "length (detailArray (c1\<lparr>waitOrders := []\<rparr>)) = MaxBackends (c1\<lparr>waitOrders := []\<rparr>)"
      "0 + MaxBackends (c1\<lparr>waitOrders := []\<rparr>) \<le> length (possibleConstraints (c1\<lparr>waitOrders := []\<rparr>))"
      using sc c by (auto simp: same_config_def check_start_def checker_ready_def work_ok_def)
    have "owners_below (MaxBackends (c1\<lparr>waitOrders := []\<rparr>)) s" "p < MaxBackends (c1\<lparr>waitOrders := []\<rparr>)" using own p c1(1) by simp_all
    from FindLockCycle_found[OF s this c1(2-4) dl] obtain c2 where "FindLockCycle s me 0 p (c1\<lparr>waitOrders := []\<rparr>) = Inr (True, c2)"
      by blast
    then have "DeadLockCheck se p s c = Inr (DS_HARD_DEADLOCK, publish me c2 s, c2)" using eq True by simp
    then show ?thesis using that dl publish_reach[OF s] publish_core by blast
  next
    case False
    then have w: "orders_ok s (waitOrders c1)" "\<not> on_cycle s (waitOrders c1) p" "waitOrders c1 \<noteq> [] \<longrightarrow> deadlocked s p"
      using r(3) by auto
    define s0 where "s0 = publish me c1 s"
    have core: "same_core s0 s" unfolding s0_def by (rule publish_core)
    define s1 where "s1 = fold (apply_wait_order se) (waitOrders c1) s0"
    have "streams_in R se s0" using str streams_in_cong[of s0 s] same_coreD(10)[OF core] by simp
    moreover have "queue s0 t \<noteq> [] \<and> mset ys = mset (queue s0 t)" if "(t, ys) \<in> set (waitOrders c1)" for t ys
      using orders_okD(1,2)[OF w(1) that] same_core_views(1)[OF core] by simp
    moreover have "distinct (map fst (waitOrders c1))" using w(1) by (simp add: orders_ok_def)
    ultimately have re: "rearranged s0 (waitOrders c1) s1" "lock_reach R s1"
      using apply_orders[OF publish_reach[OF s]] unfolding s1_def s0_def by blast+
    obtain state s' where e: "check_end se s1 c1 = (state, s')" by fastforce
    note E = check_end_result[OF re(2) e]
    have rs: "rearranged s (waitOrders c1) s'"
      using rearranged_core[OF core re(1)] rearranged_end[OF E(2)] by blast
    have nd: "\<not> deadlocked s' p" using rearranged_resolves[OF s w(1) rs w(2)] .
    have "waitOrders c1 = [] \<Longrightarrow> \<not> deadlocked s p" using w(2) on_cycle_iff[OF s] by simp
    then have "waitOrders c1 \<noteq> [] \<longleftrightarrow> deadlocked s p" using w(3) by blast
    moreover have "DeadLockCheck se p s c = Inr (state, s', c1)" using eq False e by (simp add: s1_def s0_def)
    ultimately show ?thesis using that E rs nd w(1) by blast
  qed
qed

text \<open>
  C4: The check of a process that may be waiting always comes to a result: it neither fails nor leaves its
  workspace nor finds its own results inconsistent. It reports a hard or a soft deadlock exactly if the process was on a
  cycle of the waits-for graph, and leaves every lock, queue and process state as it was unless it reports a
  soft deadlock.
\<close>

theorem DeadLockCheck_decides:
  assumes "lock_reach R s" "streams_in R se s" "owners_below (MaxBackends c) s" "p < MaxBackends c" "checker_ready c"
  shows "\<exists>state s' c'. DeadLockCheck se p s c = Inr (state, s', c') \<and>
    (state \<in> {DS_HARD_DEADLOCK, DS_SOFT_DEADLOCK} \<longleftrightarrow> deadlocked s p) \<and>
    state \<in> {DS_HARD_DEADLOCK, DS_SOFT_DEADLOCK, DS_NO_DEADLOCK, DS_BLOCKED_BY_AUTOVACUUM, DS_BLOCKED_BY_REDISTRIBUTION} \<and>
    (state \<noteq> DS_SOFT_DEADLOCK \<longrightarrow> queue s' = queue s \<and> holds s' = holds s)"
proof -
  obtain state s' c' where r: "DeadLockCheck se p s c = Inr (state, s', c')" "state \<noteq> DS_NOT_YET_CHECKED" "state \<noteq> DS_LOCK_TIMEOUT"
    "state = DS_HARD_DEADLOCK \<Longrightarrow> deadlocked s p \<and> same_core s' s"
    "state \<noteq> DS_HARD_DEADLOCK \<Longrightarrow> \<exists>w. orders_ok s w \<and> rearranged s w s' \<and> (state = DS_SOFT_DEADLOCK \<longleftrightarrow> w \<noteq> []) \<and>
       \<not> deadlocked s' p \<and> (w \<noteq> [] \<longleftrightarrow> deadlocked s p)"
    using DeadLockCheck_spec[OF assms] by metis
  have same: "queue s' = queue s \<and> holds s' = holds s" if ns: "state \<noteq> DS_SOFT_DEADLOCK"
  proof (cases "state = DS_HARD_DEADLOCK")
    case True
    then show ?thesis using r(4) same_core_views by blast
  next
    case False
    then have "rearranged s [] s'" using r(5) ns by auto
    then show ?thesis by (auto simp: rearranged_def ordered_def fun_eq_iff)
  qed
  show ?thesis
    by (intro exI[of _ state] exI[of _ s'] exI[of _ c'])
      (use r same in \<open>cases state; auto\<close>)
qed

theorem DeadLockCheck_decides_witness:
  "\<exists>state s' c'. DeadLockCheck (plain_session 1) 1 demo_cycle demo_work = Inr (state, s', c') \<and>
     state \<in> {DS_HARD_DEADLOCK, DS_SOFT_DEADLOCK}"
  using DeadLockCheck_decides[where R = "\<lambda>p q. False" and c = demo_work and p = 1, OF demo_cycle_reach plain_streams _ _ demo_work_ready(1)]
    demo_cycle_owners demo_cycle_deadlocked demo_work_ready(2) by fastforce

text \<open>
  C5: When the check does not report a hard deadlock, the process is on no cycle in the state it leaves: the new
  queue orders, with the processes woken that can run, break every cycle through it. That state is
  reachable, so all invariants of the lock manager hold in it. No process loses a lock, and
  who leaves a queue has been granted what it waited for.
\<close>

theorem DeadLockCheck_resolves:
  assumes "lock_reach R s" "streams_in R se s" "owners_below (MaxBackends c) s" "p < MaxBackends c" "checker_ready c"
    and r: "DeadLockCheck se p s c = Inr (state, s', c')" and soft: "state \<noteq> DS_HARD_DEADLOCK"
  shows "\<not> deadlocked s' p \<and> lock_reach R s' \<and>
    (\<forall>t. set (queue s' t) \<subseteq> set (queue s t)) \<and>
    (\<forall>t q n. holds s' t q n \<longleftrightarrow> holds s t q n \<or> q \<in> set (queue s t) - set (queue s' t) \<and> want_of s q = n)"
proof -
  obtain w where w: "lock_reach R s'" "orders_ok s w" "rearranged s w s'" "\<not> deadlocked s' p"
    using DeadLockCheck_spec[OF assms(1-5)] r soft by (metis Inr_inject Pair_inject)
  note O = ordered_perm(2)[OF w(2)]
  have h: "holds s' t q n \<longleftrightarrow> holds s t q n \<or> q \<in> set (queue s t) - set (queue s' t) \<and> want_of s q = n" for t q n
    using w(3) O[of t] unfolding rearranged_def by simp
  have sub: "set (queue s' t) \<subseteq> set (queue s t)" for t
    using w(3) O[of t] unfolding rearranged_def dm.wakes_in_order_def by (metis filter_is_subset)
  show ?thesis using w(1,4) h sub by blast
qed

theorem DeadLockCheck_resolves_witness:
  "\<exists>state s' c'. DeadLockCheck (plain_session 2) 2 demo_half demo_work = Inr (state, s', c') \<and>
     state \<noteq> DS_HARD_DEADLOCK \<and> \<not> deadlocked s' 2 \<and> lock_reach (\<lambda>p q. False) s'"
proof -
  have o: "owners_below (MaxBackends demo_work) demo_half" "2 < MaxBackends demo_work"
    using demo_half_free(2) demo_work_ready(2) by simp_all
  obtain state s' c' where r: "DeadLockCheck (plain_session 2) 2 demo_half demo_work = Inr (state, s', c')" "state \<noteq> DS_HARD_DEADLOCK"
    using DeadLockCheck_spec[OF demo_half_reach[of "\<lambda>p q. False"] plain_streams o demo_work_ready(1)] demo_half_free(1) by metis
  show ?thesis
    using r DeadLockCheck_resolves[OF demo_half_reach[of "\<lambda>p q. False"] plain_streams o demo_work_ready(1) r] by blast
qed

section \<open>The victim\<close>

lemma linked_iff:
  assumes "lock_reach R s"
  shows "links (procs s p) \<longleftrightarrow> (\<exists>t. p \<in> set (queue s t))"
proof -
  note W = table_wfD[OF reach_wf[OF assms]]
  show ?thesis using W(5) W(6)[of p] by (auto simp: on_queue_def off_queue_def)
qed

text \<open>A process of no lock group that waits for nothing is not deadlocked.\<close>

lemma free_not_deadlocked:
  assumes "lock_reach R s" "\<And>t. p \<notin> set (queue s t)" "lockGroupLeader (procs s p) = None"
  shows "\<not> deadlocked s p"
proof
  have p: "leader_of s p = p" using assms(3) by (simp add: leader_of_def)
  assume "deadlocked s p"
  then obtain v where "group_waits s p v" unfolding deadlocked_def p by (blast elim: converse_tranclpE)
  then obtain q t where q: "leader_of s q = p" "q \<in> set (queue s t)"
    by (auto simp: group_waits_def hard_wait_def soft_wait_def)
  have "q = p"
  proof (cases "lockGroupLeader (procs s q)")
    case (Some l)
    then have "l = p" "lockGroupLeader (procs s l) = Some l"
      using q(1) table_wfD(7)[OF reach_wf[OF assms(1)]] by (simp_all add: leader_of_def groups_wf_def)
    then show ?thesis using assms(3) by simp
  qed (use q in \<open>simp add: leader_of_def\<close>)
  then show False using q(2) assms(2) by blast
qed

lemma victim_leaves:
  assumes s: "lock_reach R s" and str: "streams_in R se s" and p: "p \<in> set (queue s t)"
  defines "s' \<equiv> RemoveFromWaitQueue se p s"
  shows "lock_reach R s'" "p \<notin> set (queue s' t')" "holds s t' q n \<Longrightarrow> holds s' t' q n"
    "lockGroupLeader (procs s' q) = lockGroupLeader (procs s q)"
proof -
  have "LockHash s t \<noteq> None" using p by (cases "LockHash s t") (auto simp: queue_def)
  then have k: "known_method t" using lock_reach_frame(2)[OF s] by (simp add: known_locks_def)
  note D = lock_invD[OF lock_reach_inv[OF s]]
  note V = dm.RemoveFromWaitQueue_spec[OF D(1,2,3,4) p str known_method_table[OF k], folded s'_def]
  show reach: "lock_reach R s'" unfolding s'_def by (rule lock_reach.step[OF s lock_step.give_up[OF str k p]])
  show "p \<notin> set (queue s' t')" using V(4) table_wfD(5)[OF reach_wf[OF reach]] off_not_on by blast
  show "holds s t' q n \<Longrightarrow> holds s' t' q n" using V(6) by blast
  have "confined t s s'" unfolding s'_def by (rule confined_RemoveFromWaitQueue[OF confined_start[OF D(1)] p])
  then show "lockGroupLeader (procs s' q) = lockGroupLeader (procs s q)" by (simp add: confined_def same_groups_def)
qed

text \<open>
  C2: \<open>CheckDeadLock\<close> always comes to a result and leaves a reachable state. It does nothing for a process that
  waits for no lock. Otherwise, a hard deadlock is reported only for a process on a cycle; the process then is
  in no queue any more, is told to go on (its semaphore is released), and nobody has lost a lock. After any
  other result, and after a hard deadlock of a process that is in no lock group, the process is on no cycle.
\<close>

theorem CheckDeadLock_breaks_cycle:
  assumes s: "lock_reach R s" and str: "streams_in R se s" and own: "owners_below (MaxBackends c) s"
    and me: "my_proc se < MaxBackends c" and c: "checker_ready c"
  shows "\<exists>res s' c'. CheckDeadLock se log_lock_waits wait_timeout s c = Inr (res, s', c') \<and> lock_reach R s' \<and>
    (res = None \<longleftrightarrow> (\<forall>t. my_proc se \<notin> set (queue s t))) \<and> (res = None \<longrightarrow> s' = s) \<and>
    (\<forall>state wake. res = Some (state, wake) \<longrightarrow>
       (state = DS_HARD_DEADLOCK \<longrightarrow> deadlocked s (my_proc se) \<and> wake \<and> (\<forall>t. my_proc se \<notin> set (queue s' t)) \<and>
          (\<forall>t q n. holds s t q n \<longrightarrow> holds s' t q n)) \<and>
       (state \<noteq> DS_HARD_DEADLOCK \<or> lockGroupLeader (procs s (my_proc se)) = None \<longrightarrow> \<not> deadlocked s' (my_proc se)))"
proof (cases "links (procs s (my_proc se))")
  case False
  then show ?thesis using s linked_iff[OF s] by (auto simp: CheckDeadLock_def)
next
  case True
  then obtain t where t: "my_proc se \<in> set (queue s t)" using linked_iff[OF s] by blast
  obtain state s1 c1 where r: "DeadLockCheck se (my_proc se) s c = Inr (state, s1, c1)" "lock_reach R s1"
    "state = DS_HARD_DEADLOCK \<Longrightarrow> deadlocked s (my_proc se) \<and> same_core s1 s"
    "state \<noteq> DS_HARD_DEADLOCK \<Longrightarrow> \<exists>w. orders_ok s w \<and> rearranged s w s1 \<and> (state = DS_SOFT_DEADLOCK \<longleftrightarrow> w \<noteq> []) \<and>
       \<not> deadlocked s1 (my_proc se) \<and> (w \<noteq> [] \<longleftrightarrow> deadlocked s (my_proc se))"
    using DeadLockCheck_spec[OF s str own me c] by metis
  show ?thesis
  proof (cases "state = DS_HARD_DEADLOCK")
    case hard: True
    then have core: "same_core s1 s" and dl: "deadlocked s (my_proc se)" using r(3) by auto
    have t1: "my_proc se \<in> set (queue s1 t)" using t same_core_views(1)[OF core] by simp
    have str1: "streams_in R se s1" using str streams_in_cong[of s1 s] same_coreD(10)[OF core] by simp
    define s2 where "s2 = RemoveFromWaitQueue se (my_proc se) s1"
    note V = victim_leaves[OF r(2) str1 t1, folded s2_def]
    have eq: "CheckDeadLock se log_lock_waits wait_timeout s c = Inr (Some (state, True), s2, c1)"
      using True r(1) hard by (simp add: CheckDeadLock_def s2_def)
    have "lockGroupLeader (procs s2 q) = lockGroupLeader (procs s q)" for q
      using V(4) same_groups_core[OF core] by (simp add: same_groups_def)
    then have "\<not> deadlocked s2 (my_proc se)" if "lockGroupLeader (procs s (my_proc se)) = None"
      using that free_not_deadlocked[OF V(1,2)] by simp
    moreover have "holds s2 t' q n" if "holds s t' q n" for t' q n using that V(3) same_core_views(2)[OF core] by simp
    ultimately show ?thesis using V(1,2) eq hard dl t by auto
  next
    case False
    then show ?thesis using r True t by (auto simp: CheckDeadLock_def)
  qed
qed

theorem CheckDeadLock_breaks_cycle_witness:
  "\<exists>res s' c'. CheckDeadLock (plain_session 1) False False demo_cycle demo_work = Inr (res, s', c') \<and> \<not> deadlocked s' 1"
proof -
  have o: "owners_below (MaxBackends demo_work) demo_cycle" "my_proc (plain_session 1) < MaxBackends demo_work"
    using demo_cycle_owners demo_work_ready(2) by simp_all
  obtain res s' c' where r: "CheckDeadLock (plain_session 1) False False demo_cycle demo_work = Inr (res, s', c')"
    "res = None \<longleftrightarrow> (\<forall>t. 1 \<notin> set (queue demo_cycle t))"
    "\<forall>state wake. res = Some (state, wake) \<longrightarrow>
       state \<noteq> DS_HARD_DEADLOCK \<or> lockGroupLeader (procs demo_cycle 1) = None \<longrightarrow> \<not> deadlocked s' 1"
    using CheckDeadLock_breaks_cycle[OF demo_cycle_reach[of "\<lambda>p q. False"] plain_streams o demo_work_ready(1), of False False]
    unfolding plain_my_proc by (elim exE conjE) (rule that, assumption+, blast)
  have "1 \<in> set (queue demo_cycle other_tag)" by (simp add: demo_cycle_values(2))
  then show ?thesis using r demo_cycle_values(7) by (cases res) auto
qed

section \<open>The topological sort\<close>

text \<open>
  C40: The topological sort of the queue of a lock returns without leaving its arrays, and does not change
  which edges the constraints are. It fails only if the constraints that concern the queue form a cycle.
  If it succeeds, the result is a permutation of the queue in which for every such constraint all members of
  the waiter's group come before those of the blocker's, and the members of each group are together.
\<close>

theorem TopoSort_correct:
  assumes s: "lock_reach R s" and l: "LockHash s t = Some l" and n: "n \<le> length cs"
    and lead: "\<forall>k < n. leader_of s (waiter (cs ! k)) = waiter (cs ! k) \<and> leader_of s (blocker (cs ! k)) = blocker (cs ! k)"
    and r: "TopoSort s t cs n = (cs', res)"
  shows "map edge_key cs' = map edge_key cs \<and>
    (res = Some None \<and> (\<exists>g. (precedes s (waitProcs l) cs n)\<^sup>+\<^sup>+ g g) \<or>
     (\<exists>ys. res = Some (Some ys) \<and> mset ys = mset (waitProcs l) \<and>
        (\<forall>g h. precedes s (waitProcs l) cs n g h \<longrightarrow> group_before s g h ys) \<and> (\<forall>g. adjacent s g ys)))"
  using TopoSort_spec[OF l table_wfD(7)[OF reach_wf[OF s]] n _ r] lead by blast

text \<open>Two waiters with the constraint that the second comes first change places.\<close>

theorem TopoSort_correct_witness:
  "\<exists>cs'. TopoSort demo_queue demo_tag [\<lparr>waiter = 3, blocker = 2, edge_lock = demo_tag, pred = 0, link = 0\<rparr>] 1 =
     (cs', Some (Some [3, 2]))"
proof -
  define cs where "cs = [\<lparr>waiter = 3, blocker = 2, edge_lock = demo_tag, pred = 0, link = 0\<rparr>]"
  obtain cs' res where r: "TopoSort demo_queue demo_tag cs 1 = (cs', res)" by fastforce
  obtain l where l: "LockHash demo_queue demo_tag = Some l" "waitProcs l = [2, 3]" using demo_queue_values(1) by blast
  have pr: "precedes demo_queue (waitProcs l) cs 1 g h \<longleftrightarrow> g = 3 \<and> h = 2" for g h
    using l(2) by (auto simp: precedes_def relevant_def cs_def rep_def demo_queue_values(2))
  then have "\<not> (precedes demo_queue (waitProcs l) cs 1)\<^sup>+\<^sup>+ g g" for g by (metis tranclp.cases converse_tranclpE num.distinct numeral_eq_iff)
  then obtain ys where ys: "res = Some (Some ys)" "mset ys = mset [2, 3]" "group_before demo_queue 3 2 ys"
    using TopoSort_correct[OF demo_queue_reach[of "\<lambda>p q. False"] l(1) _ _ r] pr l(2) by (auto simp: cs_def demo_queue_values(2))
  obtain as bs where ab: "ys = as @ bs" "2 \<notin> set as" "3 \<notin> set bs"
    using ys(3) by (auto simp: group_before_def demo_queue_values(2))
  have "set ys = {2, 3}" using mset_eq_setD[OF ys(2)] by simp
  moreover have "distinct ys" using mset_eq_imp_distinct_iff[OF ys(2)] by simp
  ultimately have u: "set as \<union> set bs = {2, 3}" "distinct as" "distinct bs" using ab(1) by auto
  have "A = {y} \<and> B = {x}" if "A \<union> B = {x, y}" "x \<notin> A" "y \<notin> B" for A B and x y :: procno
  proof -
    have "A \<subseteq> {x, y}" "B \<subseteq> {x, y}" "x \<in> A \<union> B" "y \<in> A \<union> B" unfolding that(1)[symmetric] using that(1) by auto
    then show ?thesis using that(2,3) by blast
  qed
  from this[OF u(1) ab(2,3)] have "set as = {3}" "set bs = {2}" by simp_all
  then have "distinct as \<and> set as = {3}" "distinct bs \<and> set bs = {2}" using u by simp_all
  moreover have single: "xs = [x]" if "distinct xs \<and> set xs = {x}" for xs and x :: nat
    using that by (cases xs rule: list.exhaust; cases "tl xs") auto
  ultimately have "as = [3]" "bs = [2]" by (simp_all add: single)
  then show ?thesis using r ys(1) ab(1) unfolding cs_def by simp
qed

end
