(* ===== verification/Spec2Isabelle.thy ===== *)
theory Spec2Isabelle
  imports Bitmap_Members Fsm_Vacuum Sinval Reorder_Correct Lock_Correct Deadlock_Correct
begin

text \<open>
  A verification library for the openGauss database server.

  \<^bold>\<open>The program and the parts modelled here.\<close> The server parses and plans queries, executes them over
  buffered storage with a write-ahead log, and replicates its changes. The library models
  components of its core that are algorithmic and self-contained, each from its C++ source:

  \<^item> \<open>Bit_Utils\<close>: the byte tables and word loops of \<open>common/port/pg_bitutils.cpp\<close>.
  \<^item> \<open>Bitmap_Set\<close>, \<open>Bitmap_Members\<close>: \<open>common/backend/nodes/bitmapset.cpp\<close>, the sets in which the
    optimizer keeps relation and column numbers. A pointer is an option, a set an array of 64-bit words.
  \<^item> \<open>Fsm_Page\<close>, \<open>Free_Space\<close>, \<open>Fsm_Vacuum\<close>: the free space map, \<open>fsmpage.cpp\<close>, \<open>freespace.cpp\<close> and
    \<open>indexfsm.cpp\<close> in \<open>gausskernel/storage/freespace\<close>: a tree of pages, each page a tree of bytes.
  \<^item> \<open>Sinval\<close>: the shared cache invalidation queue, \<open>gausskernel/storage/ipc/sinvaladt.cpp\<close>.
  \<^item> \<open>Binary_Heap\<close>: \<open>common/backend/lib/binaryheap.cpp\<close>, used by the reorder buffer and by the
    consistent read of UB-trees.
  \<^item> \<open>Reorder_Buffer\<close> and the theories \<open>Reorder_*\<close>: the reorder buffer of logical decoding,
    \<open>gausskernel/storage/replication/logical/reorderbuffer.cpp\<close>.
  \<^item> \<open>Lock_Table\<close> and the theories \<open>Lock_*\<close>: the shared lock table of the lock manager, \<open>lock.cpp\<close> and the
    wait queues of \<open>proc.cpp\<close> in \<open>gausskernel/storage/lmgr\<close>. A lock or proclock pointer is its hash key, a
    process pointer its number; an operation is what a backend does under one partition lock.
  \<^item> \<open>Deadlock\<close> and the theories \<open>Deadlock_*\<close>: the deadlock detector \<open>deadlock.cpp\<close> in the same directory and its
    caller \<open>CheckDeadLock\<close>. It runs on the lock table of \<open>Lock_Table\<close> under all partition locks.

  \<open>Gauss_Prelude\<close> holds the machine types, the error codes, the loop shapes of the sources and the
  lemmas the components share.

  \<^bold>\<open>How code becomes definitions.\<close> A structure is a record with the fields of the source, an
  operation is a function from the state before the call to the result and the state after it,
  under the name of the C function. \<open>ereport(ERROR)\<close> is \<open>Inl\<close> of its code. Loops are \<open>fold\<close>,
  \<open>for_ret\<close> or recursion; a helper definition named after no C function is the body of such a loop or
  a part of a long function. Integers are bounded where the code can leave their range: words, or numbers with the
  wrap-around of the C type written out. Pointers to transactions of the reorder buffer are transaction ids
  that its table resolves, and \<open>None\<close> as an outcome there is a dangling pointer or the head of an
  empty list, which is proved not to happen.

  \<^bold>\<open>What the lemmas show.\<close>

  \<^item> Bitmap sets: every operation computes the set operation it is named after (\<open>bms_set\<close>), in-place
    variants included; comparisons, cursors, counting and hashing agree with the sets; negative
    members raise. The cursor \<open>bms_next_member\<close> has the wrap-around of its \<open>int\<close>.
  \<^item> Free space map: a page is a maximum tree after every operation, its search terminates and
    finds a slot exactly when there is one, also from a torn page, which it rebuilds. The map keeps what
    is recorded, recommends only blocks with enough recorded space, and after a vacuum finds one
    whenever there is one. Addressing is a bijection between the logical pages of the tree and the physical
    pages; it is modelled in the 32-bit arithmetic of the code, and the pages of a map lie in the range in which this
    does not wrap. The bulk update is shown to run forever where the last block of a page wraps.
  \<^item> Invalidation queue: an inductive step relation interleaves the lock-protected sections of all
    backends; in every reachable state each backend has received the messages sent since it joined, in
    order, or is flagged for a reset, and the ring buffer holds what it has not read. Counters stay within their C types, wrap-around included.
  \<^item> Binary heap: for every comparator that satisfies the locale \<open>heap_comparator\<close>, the heap is a
    priority queue. The locale is interpreted on \<open>TDCompare\<close> and on \<open>ReorderBufferIterCompare\<close>.
  \<^item> Reorder buffer: \<open>Reorder_Spill\<close> relates a transaction and its spill files to one queue of
    changes; \<open>Reorder_Queue\<close> lifts this to the buffer and shows that queueing refines appending;
    \<open>Reorder_Merge\<close> and \<open>Reorder_Iterate\<close> show that the heap-driven iterator is a stable k-way
    merge of the queues by LSN, restoring spilled changes in batches; \<open>Reorder_Order\<close>,
    \<open>Reorder_Assign\<close>, \<open>Reorder_Child\<close> and \<open>Reorder_Cleanup\<close> treat the two ordered lists, base
    snapshots, subtransactions and discarding; \<open>Reorder_Trace\<close> generates all histories and carries the
    invariant; \<open>Reorder_Memory\<close> treats the size counters; \<open>Reorder_Correct\<close> states the properties.
  \<^item> Lock manager: the locale \<open>lock_method\<close> (a symmetric conflict table over valid modes) is interpreted on
    both lock methods. \<open>Lock_Wf\<close> relates a lock object to its holders and waiters, \<open>Lock_State\<close> and \<open>Lock_Ops\<close>
    lift this to the table, \<open>Lock_Wakeup\<close> and \<open>Lock_Acquire\<close> show that waking, releasing and acquiring
    re-establish the invariant \<open>lock_inv\<close>, \<open>Lock_Trace\<close> generates all histories, \<open>Lock_Frame\<close> shows what
    an operation on one lock leaves alone, and \<open>Lock_Correct\<close> states the properties: mutual exclusion of
    conflicting holders, no waiter that could run, exact counters, the outcomes of requests and releases, also of
    those at transaction end.
  \<^item> Deadlock detector: \<open>Deadlock_Search\<close> (the depth-first search finds exactly the cycles), \<open>Deadlock_Topo\<close> (the
    topological sort), \<open>Deadlock_Config\<close> (testing configurations is deterministic and the backtracking search
    returns), \<open>Deadlock_Graph\<close> (the searched graph is the waits-for graph of holders and queues, and a
    rearrangement adds no edges) and \<open>Deadlock_Correct\<close>: after a check the process is on no cycle.

  \<^bold>\<open>Bounds and fuel.\<close> The restart of a page search is a \<open>partial_function\<close> that is proved to
  return; the search over the map has the limit of 10000 restarts of the code. Serialising and cleaning up
  recurse over subtransactions with depth 2, which the invariant \<open>rb_struct\<close> makes enough: a
  subtransaction has none of its own. \<open>iter_run\<close>, the loop of the iterator's caller, takes fuel and is
  proved to return with one more than the number of changes. The cycle search of the
  deadlock detector has fuel for \<open>MaxBackends + 2\<close> levels and the search over configurations for
  \<open>maxCurConstraints + 2\<close>; both are proved enough, since a search visits a group once and a configuration grows by one
  constraint at each level. The block size, the WAL segment size and
  the decoding limits are parameters.

  \<^bold>\<open>Not modelled.\<close> Lightweight locks and spinlocks (they make the modelled sections atomic), memory contexts, WAL records of the free space map, buffer pins and file
  errors. Of the reorder buffer, the byte image of a spilled change, \<open>ReorderBufferCommit\<close> around its
  loop (catalog lookups and output plugin callbacks; a history therefore ends a transaction by abort or
  forgetting, not by commit), toast reassembly and the rewrite mappings. Of the lock manager, the
  local lock table (with the scan of it in \<open>LockReleaseAll\<close>, whose loop over the proclocks is modelled), the fast path, two-phase and cluster locks, cancelling of blockers and the sleep on the semaphore;
  of the deadlock detector, the time limit, the stack check, the report and the sizes of the arrays
  \<open>waitOrders\<close> and \<open>waitOrderProcs\<close>, which are lists without a bound. The parser, optimizer,
  executor, storage engines other than the parts above, recovery, postmaster and the client tools
  are outside the library: they work through the catalogs, shared memory or the operating system.
\<close>

end
